(* ===== verification/Prelude.thy ===== *)
theory Prelude
  imports Main "HOL-Library.Word" "HOL-Library.Code_Target_Nat"
begin

text \<open>
  Shared vocabulary of the development: the machine types of the C sources, byte strings
  read and written in big-endian order, overwriting and moving parts of a buffer, and the
  collections of rewrite rules the component theories extend.  Nothing here models code of
  its own; the component theories state which C function each of their definitions models.
\<close>

unbundle bit_operations_syntax

type_synonym byte = "8 word"
type_synonym u16 = "16 word"
type_synonym u32 = "32 word"
type_synonym u64 = "64 word"
type_synonym bytes = "byte list"

text \<open>An allocator is the answer of \<open>malloc\<close> or \<open>realloc\<close> to one request, by its size, so
  that failure is a branch of the model.  Real allocators may answer equal requests differently at
  different times: the steps of stacks and hash tables each bring their own allocator, and
  \<open>BIO_new_bio_pair\<close>, whose requests can have equal sizes and leave different states behind when
  they fail, takes one for each request.  The other operations that make several requests take one
  allocator for all.  In them two requests either have different sizes, or leave the same result
  whichever of them fails, except along a loop over many strings (the names of a certificate), where
  the model supposes that equal sizes get equal answers.\<close>

type_synonym allocator = "nat \<Rightarrow> bool"

text \<open>Operations that may fail return \<open>None\<close> in the first component; the state is
  returned on failure too, because C leaves it behind in a definite shape.\<close>

type_synonym ('s, 'a) op = "'s \<Rightarrow> 'a option \<times> 's"

abbreviation (input) SIZE_MODULUS :: nat where
  "SIZE_MODULUS \<equiv> 2 ^ 64"

named_theorems byte_simps \<open>big-endian byte strings\<close>
named_theorems get_simps \<open>what a reader returns on a known input\<close>
named_theorems put_simps \<open>what a writer appends\<close>

section \<open>Big-endian byte strings\<close>

text \<open>\<open>be_word xs\<close> accumulates \<open>r <<= 8; r |= x\<close>; \<open>be_bytes k v\<close> is the
  string of \<open>k\<close> bytes that ends in the low byte of \<open>v\<close>.\<close>

definition be_word :: "bytes \<Rightarrow> u64" where
  "be_word xs = foldl (\<lambda>r x. push_bit 8 r OR ucast x) 0 xs"

fun be_bytes :: "nat \<Rightarrow> u64 \<Rightarrow> bytes" where
  "be_bytes 0 v = []"
| "be_bytes (Suc k) v = be_bytes k (drop_bit 8 v) @ [ucast v]"

lemma length_be_bytes [simp]: "length (be_bytes k v) = k"
  by (induction k arbitrary: v) auto

lemma be_word_Nil [simp]: "be_word [] = 0"
  by (simp add: be_word_def)

lemma be_word_snoc [simp]: "be_word (xs @ [x]) = push_bit 8 (be_word xs) OR ucast x"
  by (simp add: be_word_def)

lemma byte_of_u64_bits: "(ucast (ucast (v :: u64) :: byte) :: u64) = take_bit 8 v"
  by (rule bit_word_eqI) (auto simp: bit_simps)

lemma push_or_take_bit:
  "push_bit 8 (take_bit n (drop_bit 8 (v :: u64))) OR take_bit 8 v = take_bit (n + 8) v"
  by (rule bit_word_eqI) (auto simp: bit_simps)

lemma take_bit_u64 [simp]: "64 \<le> n \<Longrightarrow> take_bit n (v :: u64) = v"
  by (rule bit_word_eqI) (auto simp: bit_simps)

lemma be_word_be_bytes [byte_simps]: "be_word (be_bytes k v) = take_bit (8 * k) v"
proof (induction k arbitrary: v)
  case 0
  then show ?case by simp
next
  case (Suc k)
  show ?case
    by (simp add: Suc byte_of_u64_bits push_or_take_bit add.commute)
qed

lemma be_bytes_take: "be_bytes k (take_bit n v) = be_bytes k v" if "8 * k \<le> n"
  using that
proof (induction k arbitrary: v n)
  case (Suc k)
  have "ucast (take_bit n v) = (ucast v :: byte)"
    using Suc.prems by (intro bit_word_eqI) (auto simp: bit_simps)
  moreover have "drop_bit 8 (take_bit n v) = take_bit (n - 8) (drop_bit 8 v)"
    by (simp add: drop_bit_take_bit)
  ultimately show ?case using Suc by simp
qed simp

lemma be_bytes_be_word: "length xs \<le> 8 \<Longrightarrow> be_bytes (length xs) (be_word xs) = xs"
proof (induction xs rule: rev_induct)
  case (snoc x xs)
  let ?w = "be_word xs"
  have 1: "ucast (push_bit 8 ?w OR ucast x) = x"
    by (rule bit_word_eqI) (auto simp: bit_simps)
  have 2: "drop_bit 8 (push_bit 8 ?w OR ucast x) = take_bit 56 ?w"
    by (rule bit_word_eqI) (auto simp: bit_simps dest: bit_imp_le_length)
  have "be_bytes (length xs) (take_bit 56 ?w) = be_bytes (length xs) ?w"
    using snoc.prems by (intro be_bytes_take) simp
  with snoc 1 2 show ?case by simp
qed simp

lemma be_word_bound: "length xs \<le> 8 \<Longrightarrow> unat (be_word xs) < 2 ^ (8 * length xs)"
proof -
  assume a: "length xs \<le> 8"
  then have "be_word xs = take_bit (8 * length xs) (be_word xs)"
    using be_word_be_bytes[of "length xs" "be_word xs"] be_bytes_be_word[of xs] by simp
  then have "unat (be_word xs) = take_bit (8 * length xs) (unat (be_word xs))"
    by (metis unsigned_take_bit_eq)
  then show ?thesis by (metis take_bit_nat_less_exp)
qed

section \<open>Words and numbers\<close>

lemma unat_of_nat_u64: "n < 2 ^ 64 \<Longrightarrow> unat (of_nat n :: u64) = n"
  by (simp add: unat_of_nat)

lemma byte_low7: "b AND 0x7f = take_bit 7 (b :: byte)"
  by (simp add: take_bit_eq_mask mask_eq_exp_minus_1)

lemma byte_high_bit: "b AND 0x80 = 0 \<longleftrightarrow> \<not> bit (b :: byte) 7"
  using and_exp_eq_0_iff_not_bit [of b 7] by simp

lemma bit_7_iff: "bit (b :: byte) 7 \<longleftrightarrow> 128 \<le> unat b"
proof -
  have "unat b < 2 ^ 8" using unsigned_less [of b] by simp
  then have "unat b div 128 = (if 128 \<le> unat b then 1 else 0)" by auto
  then have "bit (unat b) 7 \<longleftrightarrow> 128 \<le> unat b" by (simp add: bit_iff_odd)
  then show ?thesis by (simp add: bit_unsigned_iff)
qed

lemma word_of_unat: "unat (w :: 'a::len word) = n \<Longrightarrow> w = of_nat n"
  by (metis of_nat_unat ucast_id)

lemma unat_ucast_up:
  "LENGTH('a) \<le> LENGTH('b) \<Longrightarrow> unat (ucast (w :: 'a::len word) :: 'b::len word) = unat w"
  by (metis unsigned_ucast_eq take_bit_nat_eq_self power_increasing one_le_numeral order_less_le_trans unsigned_less)

lemma mod_128: "128 \<le> n \<Longrightarrow> n < 256 \<Longrightarrow> 128 + n mod 128 = (n :: nat)"
  by (simp add: le_mod_geq)

lemma unat_take_bit_self: "unat (w :: 'a::len word) < 2 ^ n \<Longrightarrow> w = take_bit n w"
  by (simp only: word_unat_eq_iff unsigned_take_bit_eq take_bit_nat_eq_self)

lemma drop_bit_0_iff: "drop_bit k w = 0 \<longleftrightarrow> unat (w :: u64) < 2 ^ k"
proof -
  have "drop_bit k w = 0 \<longleftrightarrow> drop_bit k (unat w) = 0"
    by (simp add: word_unat_eq_iff unsigned_drop_bit_eq drop_bit_take_bit take_bit_nat_eq_self
        unsigned_less [of w, where 'a = nat, simplified])
  then show ?thesis by (simp add: drop_bit_eq_div div_eq_0_iff)
qed

lemma unat_low7: "unat (b AND 0x7f :: byte) = unat b mod 128"
  by (simp add: byte_low7 unsigned_take_bit_eq take_bit_eq_mod unat_mod_distrib)

lemma high_bit_iff: "b AND 0x80 = (0::byte) \<longleftrightarrow> unat b < 128"
  by (simp add: byte_high_bit bit_7_iff not_le)

end
