(* ===== verification/Mem.thy ===== *)
theory Mem
  imports Prelude "HOL-Library.Multiset"
begin

text \<open>
  The memory and string helpers of \<open>crypto/mem.c\<close> and the libc wrappers and byte swaps of
  \<open>crypto/internal.h\<close>.  A block of memory is the list of its bytes.  A C string is the
  list of its bytes before the terminating NUL, so that reading at its length gives 0;
  \<open>char\<close> is signed, as on the Apple targets this library is built for.  The optional
  allocation hooks (weak symbols, NULL by default) are not modelled.
\<close>

section \<open>Allocation\<close>

abbreviation (input) OPENSSL_MALLOC_PREFIX :: nat where
  "OPENSSL_MALLOC_PREFIX \<equiv> 8"

definition OPENSSL_malloc :: "allocator \<Rightarrow> nat \<Rightarrow> bool" where
  "OPENSSL_malloc al sz =
     (if (sz + OPENSSL_MALLOC_PREFIX) mod SIZE_MODULUS < sz then False
      else al (sz + OPENSSL_MALLOC_PREFIX))"

text \<open>\<open>realloc\<close> keeps the first bytes of the old block; what follows them in a larger
  block is uninitialised and not part of the result.\<close>

definition OPENSSL_realloc :: "allocator \<Rightarrow> bytes option \<Rightarrow> nat \<Rightarrow> bytes option" where
  "OPENSSL_realloc al orig new_size =
     (case orig of
        None \<Rightarrow> (if OPENSSL_malloc al new_size then Some [] else None)
      | Some old \<Rightarrow>
          if OPENSSL_malloc al new_size
          then Some (take (if length old < new_size then length old else new_size) old)
          else None)"

definition OPENSSL_cleanse :: "bytes \<Rightarrow> nat \<Rightarrow> bytes" where
  "OPENSSL_cleanse p len = replicate (min len (length p)) 0 @ drop len p"

definition OPENSSL_memdup :: "allocator \<Rightarrow> bytes \<Rightarrow> nat \<Rightarrow> bytes option" where
  "OPENSSL_memdup al d sz =
     (if sz = 0 then None
      else if \<not> OPENSSL_malloc al sz then None
      else Some (take sz d))"

section \<open>Comparison and search\<close>

fun CRYPTO_memcmp_loop :: "byte \<Rightarrow> bytes \<Rightarrow> bytes \<Rightarrow> nat \<Rightarrow> byte" where
  "CRYPTO_memcmp_loop x a b 0 = x"
| "CRYPTO_memcmp_loop x (p # a) (q # b) (Suc n) =
     CRYPTO_memcmp_loop (x OR (p XOR q)) a b n"
| "CRYPTO_memcmp_loop x a b (Suc n) = x"

definition CRYPTO_memcmp :: "bytes \<Rightarrow> bytes \<Rightarrow> nat \<Rightarrow> int" where
  "CRYPTO_memcmp a b len = uint (CRYPTO_memcmp_loop 0 a b len)"

text \<open>\<open>memcmp\<close> compares as unsigned bytes; only the sign of its result is specified.\<close>

fun OPENSSL_memcmp :: "bytes \<Rightarrow> bytes \<Rightarrow> nat \<Rightarrow> int" where
  "OPENSSL_memcmp (p # a) (q # b) (Suc n) =
     (if p < q then -1 else if q < p then 1 else OPENSSL_memcmp a b n)"
| "OPENSSL_memcmp a b n = 0"

lemma OPENSSL_memcmp_code [code]:
  "OPENSSL_memcmp a b n =
     (if n = 0 then 0
      else case (a, b) of
             (p # a', q # b') \<Rightarrow> if p < q then -1 else if q < p then 1 else OPENSSL_memcmp a' b' (n - 1)
           | _ \<Rightarrow> 0)"
  by (cases n; cases a; cases b) auto

lemma CRYPTO_memcmp_loop_code [code]:
  "CRYPTO_memcmp_loop x a b n =
     (if n = 0 then x
      else case (a, b) of
             (p # a', q # b') \<Rightarrow> CRYPTO_memcmp_loop (x OR (p XOR q)) a' b' (n - 1)
           | _ \<Rightarrow> x)"
  by (cases n; cases a; cases b) auto

text \<open>The position of the first \<open>c\<close> among the first \<open>n\<close> bytes.\<close>

fun OPENSSL_memchr :: "bytes \<Rightarrow> byte \<Rightarrow> nat \<Rightarrow> nat option" where
  "OPENSSL_memchr (p # s) c (Suc n) =
     (if p = c then Some 0 else map_option Suc (OPENSSL_memchr s c n))"
| "OPENSSL_memchr s c n = None"

lemma OPENSSL_memchr_code [code]:
  "OPENSSL_memchr s c n =
     (if n = 0 then None
      else case s of
             [] \<Rightarrow> None
           | p # s' \<Rightarrow> if p = c then Some 0 else map_option Suc (OPENSSL_memchr s' c (n - 1)))"
  by (cases n; cases s) auto

section \<open>Sorting with a comparison function\<close>

text \<open>\<open>OPENSSL_memcpy (&dst[off], src, length src)\<close>\<close>

definition copy_at :: "'a list \<Rightarrow> nat \<Rightarrow> 'a list \<Rightarrow> 'a list" where
  "copy_at dst off src = take off dst @ src @ drop (off + length src) dst"

lemma copy_at_fits: "off + length src \<le> length dst \<Longrightarrow> length (copy_at dst off src) = length dst"
  by (simp add: copy_at_def)

lemma copy_at_take: "off \<le> length dst \<Longrightarrow> take (off + length src) (copy_at dst off src) = take off dst @ src"
  by (simp add: copy_at_def)

text \<open>\<open>memmove (p + dst, p + src, n)\<close> inside one array \<open>xs\<close> of bytes or of pointers.\<close>

definition memmove :: "nat \<Rightarrow> nat \<Rightarrow> nat \<Rightarrow> 'a list \<Rightarrow> 'a list" where
  "memmove dst src n xs = take dst xs @ take n (drop src xs) @ drop (dst + n) xs"

text \<open>The contract of the comparison functions handed to \<open>qsort\<close> and \<open>bsearch\<close>: the
  sign of the result is a total preorder.\<close>

locale comparator =
  fixes cmp :: "'a \<Rightarrow> 'a \<Rightarrow> int"
  assumes cmp_flip: "cmp a b < 0 \<longleftrightarrow> 0 < cmp b a"
    and cmp_trans: "cmp a b \<le> 0 \<Longrightarrow> cmp b c \<le> 0 \<Longrightarrow> cmp a c \<le> 0"

text \<open>\<open>qsort\<close> of the C library.  The C standard fixes its result up to the order of elements
  that compare equal; the model makes the stable choice.\<close>

fun qsort_insert :: "('a \<Rightarrow> 'a \<Rightarrow> int) \<Rightarrow> 'a \<Rightarrow> 'a list \<Rightarrow> 'a list" where
  "qsort_insert cmp x [] = [x]"
| "qsort_insert cmp x (y # ys) = (if cmp x y \<le> 0 then x # y # ys else y # qsort_insert cmp x ys)"

fun qsort :: "('a \<Rightarrow> 'a \<Rightarrow> int) \<Rightarrow> 'a list \<Rightarrow> 'a list" where
  "qsort cmp [] = []"
| "qsort cmp (x # xs) = qsort_insert cmp x (qsort cmp xs)"

lemma set_qsort_insert [simp]: "set (qsort_insert cmp x ys) = insert x (set ys)"
  by (induction ys) auto

lemma mset_qsort_insert [simp]: "mset (qsort_insert cmp x ys) = add_mset x (mset ys)"
  by (induction ys) auto

lemma mset_qsort [simp]: "mset (qsort cmp xs) = mset xs"
  by (induction xs) auto

lemma set_qsort [simp]: "set (qsort cmp xs) = set xs"
  by (metis mset_qsort set_mset_mset)

lemma length_qsort [simp]: "length (qsort cmp xs) = length xs"
  by (metis mset_qsort size_mset)

lemma qsort_short: "length es < 2 \<Longrightarrow> qsort cmp es = es"
  by (cases es; cases "tl es") auto

lemma sum_list_qsort: "sum_list (map f (qsort cmp xs)) = (sum_list (map f xs) :: nat)"
proof -
  have "sum_mset (image_mset f (mset (qsort cmp xs))) = sum_mset (image_mset f (mset xs))" by simp
  then show ?thesis by (simp only: mset_map [symmetric] sum_mset_sum_list)
qed

context comparator
begin

definition le :: "'a \<Rightarrow> 'a \<Rightarrow> bool" where
  "le a b \<longleftrightarrow> cmp a b \<le> 0"

lemma le_total: "le a b \<or> le b a"
  using cmp_flip [of b a] by (auto simp: le_def)

lemma le_trans: "le a b \<Longrightarrow> le b c \<Longrightarrow> le a c"
  unfolding le_def by (rule cmp_trans)

lemma not_le: "\<not> le a b \<Longrightarrow> le b a"
  using le_total by blast

lemma sorted_qsort_insert: "sorted_wrt le ys \<Longrightarrow> sorted_wrt le (qsort_insert cmp x ys)"
  by (induction ys) (auto simp: le_def [symmetric] dest: not_le intro: le_trans)

lemma sorted_qsort: "sorted_wrt le (qsort cmp xs)"
  by (induction xs) (auto intro: sorted_qsort_insert)

text \<open>A list already in order is returned as it is.\<close>

lemma qsort_sorted: "sorted_wrt le xs \<Longrightarrow> qsort cmp xs = xs"
proof (induction xs)
  case (Cons x xs)
  then show ?case by (cases xs) (auto simp: le_def)
qed simp

text \<open>Where only equal elements compare equal, the result depends on the elements alone, so
  any correct sorting function returns it.\<close>

lemma qsort_unique:
  assumes "\<And>a b. cmp a b = 0 \<Longrightarrow> a = b" "mset ys = mset xs" "sorted_wrt le ys"
  shows "qsort cmp xs = ys"
proof -
  have anti: "le a b \<Longrightarrow> le b a \<Longrightarrow> a = b" for a b
    using assms(1) [of a b] cmp_flip [of a b] by (auto simp: le_def)
  have "sorted_wrt le us \<Longrightarrow> sorted_wrt le vs \<Longrightarrow> mset us = mset vs \<Longrightarrow> us = vs" for us vs
  proof (induction us arbitrary: vs)
    case (Cons u us)
    then obtain v vs' where vs: "vs = v # vs'" by (cases vs) auto
    have "u \<in> set (v # vs')" "v \<in> set (u # us)"
      using Cons.prems(3) vs by (metis list.set_intros(1) set_mset_mset)+
    then have "u = v" using Cons.prems(1,2) vs anti by auto
    then show ?case using Cons vs by auto
  qed simp
  with sorted_qsort assms(2,3) show ?thesis by simp
qed

end

section \<open>Hashing of strings\<close>

definition OPENSSL_hash32 :: "bytes \<Rightarrow> u32" where
  "OPENSSL_hash32 d = foldl (\<lambda>h x. (h XOR ucast x) * 16777619) 2166136261 d"

definition OPENSSL_strhash :: "bytes \<Rightarrow> u32" where
  "OPENSSL_strhash s = OPENSSL_hash32 s"

section \<open>C strings\<close>

fun OPENSSL_strnlen :: "bytes \<Rightarrow> nat \<Rightarrow> nat" where
  "OPENSSL_strnlen s 0 = 0"
| "OPENSSL_strnlen [] (Suc n) = 0"
| "OPENSSL_strnlen (c # s) (Suc n) = (if c = 0 then 0 else Suc (OPENSSL_strnlen s n))"

text \<open>The results of \<open>strdup\<close> and \<open>strndup\<close> are whole blocks, with their NUL.\<close>

definition OPENSSL_strdup :: "allocator \<Rightarrow> bytes option \<Rightarrow> bytes option" where
  "OPENSSL_strdup al s =
     (case s of
        None \<Rightarrow> None
      | Some t \<Rightarrow> if \<not> OPENSSL_malloc al (length t + 1) then None else Some (t @ [0]))"

definition OPENSSL_strndup :: "allocator \<Rightarrow> bytes \<Rightarrow> nat \<Rightarrow> bytes option" where
  "OPENSSL_strndup al str n =
     (let sz = OPENSSL_strnlen str n; alloc_size = (sz + 1) mod SIZE_MODULUS
      in if alloc_size < sz then None
         else if \<not> OPENSSL_malloc al alloc_size then None
         else Some (take sz str @ [0]))"

definition OPENSSL_tolower :: "int \<Rightarrow> int" where
  "OPENSSL_tolower c = (if c \<ge> 65 \<and> c \<le> 90 then c + (97 - 65) else c)"

text \<open>The \<open>char\<close> at the front of a C string, promoted to \<open>int\<close>; 0 at its end.\<close>

definition c_char :: "bytes \<Rightarrow> int" where
  "c_char s = (case s of [] \<Rightarrow> 0 | c # _ \<Rightarrow> sint c)"

lemma tolower_0 [simp]: "OPENSSL_tolower (c_char []) = 0"
  by (simp add: OPENSSL_tolower_def c_char_def)

function OPENSSL_strcasecmp :: "bytes \<Rightarrow> bytes \<Rightarrow> int" where
  "OPENSSL_strcasecmp a b =
     (let aa = OPENSSL_tolower (c_char a); bb = OPENSSL_tolower (c_char b)
      in if aa < bb then -1 else if aa > bb then 1 else if aa = 0 then 0
         else OPENSSL_strcasecmp (tl a) (tl b))"
  by pat_completeness auto
termination
  by (relation "measure (length \<circ> fst)") (auto simp: Let_def neq_Nil_conv length_greater_0_conv intro!: diff_less)

fun OPENSSL_strncasecmp :: "bytes \<Rightarrow> bytes \<Rightarrow> nat \<Rightarrow> int" where
  "OPENSSL_strncasecmp a b 0 = 0"
| "OPENSSL_strncasecmp a b (Suc n) =
     (let aa = OPENSSL_tolower (c_char a); bb = OPENSSL_tolower (c_char b)
      in if aa < bb then -1 else if aa > bb then 1 else if aa = 0 then 0
         else OPENSSL_strncasecmp (tl a) (tl b) n)"

declare OPENSSL_strcasecmp.simps [simp del]

text \<open>\<open>strlcpy\<close> writes into the block \<open>dst\<close> and returns it with the length it tried to
  create.  The loop copies while more than one byte of room is left.\<close>

fun OPENSSL_strlcpy_loop :: "bytes \<Rightarrow> bytes \<Rightarrow> nat \<Rightarrow> nat \<Rightarrow> bytes \<times> nat" where
  "OPENSSL_strlcpy_loop (d # dst) (c # src) dst_size l =
     (if dst_size > 1
      then (case OPENSSL_strlcpy_loop dst src (dst_size - 1) (l + 1) of
              (dst', r) \<Rightarrow> (c # dst', r))
      else (if dst_size \<noteq> 0 then 0 # dst else d # dst, l + length (c # src)))"
| "OPENSSL_strlcpy_loop dst src dst_size l =
     (if dst_size \<noteq> 0 then (case dst of [] \<Rightarrow> [] | d # ds \<Rightarrow> 0 # ds) else dst, l + length src)"

definition OPENSSL_strlcpy :: "bytes \<Rightarrow> bytes \<Rightarrow> nat \<Rightarrow> bytes \<times> nat" where
  "OPENSSL_strlcpy dst src dst_size = OPENSSL_strlcpy_loop dst src dst_size 0"

fun OPENSSL_strlcat :: "bytes \<Rightarrow> bytes \<Rightarrow> nat \<Rightarrow> bytes \<times> nat" where
  "OPENSSL_strlcat (d # dst) src (Suc n) =
     (if d \<noteq> 0
      then (case OPENSSL_strlcat dst src n of (dst', r) \<Rightarrow> (d # dst', Suc r))
      else OPENSSL_strlcpy (d # dst) src (Suc n))"
| "OPENSSL_strlcat dst src n = OPENSSL_strlcpy dst src n"

section \<open>Byte swaps\<close>

text \<open>The compiler builtins the \<open>__GNUC__\<close> branch uses reverse the bytes of their argument.\<close>

definition CRYPTO_bswap2 :: "u16 \<Rightarrow> u16" where
  "CRYPTO_bswap2 x = ucast (be_word (rev (be_bytes 2 (ucast x))))"

definition CRYPTO_bswap4 :: "u32 \<Rightarrow> u32" where
  "CRYPTO_bswap4 x = ucast (be_word (rev (be_bytes 4 (ucast x))))"

definition CRYPTO_bswap8 :: "u64 \<Rightarrow> u64" where
  "CRYPTO_bswap8 x = be_word (rev (be_bytes 8 x))"

section \<open>What the helpers compute\<close>

lemma CRYPTO_memcmp_loop_eq_0:
  "n \<le> length a \<Longrightarrow> n \<le> length b \<Longrightarrow>
   CRYPTO_memcmp_loop x a b n = 0 \<longleftrightarrow> x = 0 \<and> take n a = take n b"
proof (induction x a b n rule: CRYPTO_memcmp_loop.induct)
  case (2 x p a q b n)
  have "x OR (p XOR q) = 0 \<longleftrightarrow> x = 0 \<and> p = q"
    by (auto simp: bit_eq_iff bit_simps)
  with 2 show ?case by auto
qed auto

lemma CRYPTO_memcmp_eq_0:
  "n \<le> length a \<Longrightarrow> n \<le> length b \<Longrightarrow> CRYPTO_memcmp a b n = 0 \<longleftrightarrow> take n a = take n b"
  by (metis CRYPTO_memcmp_def CRYPTO_memcmp_loop_eq_0 uint_0_iff)

lemma OPENSSL_memcmp_eq_0:
  "n \<le> length a \<Longrightarrow> n \<le> length b \<Longrightarrow> OPENSSL_memcmp a b n = 0 \<longleftrightarrow> take n a = take n b"
  by (induction a b n rule: OPENSSL_memcmp.induct) auto

lemma OPENSSL_memchr_Some:
  "OPENSSL_memchr s c n = Some i \<Longrightarrow>
     i < n \<and> i < length s \<and> s ! i = c \<and> c \<notin> set (take i s)"
  by (induction s c n arbitrary: i rule: OPENSSL_memchr.induct) (auto split: if_splits)

lemma OPENSSL_memchr_None: "OPENSSL_memchr s c n = None \<longleftrightarrow> c \<notin> set (take n s)"
  by (induction s c n rule: OPENSSL_memchr.induct) auto

lemma OPENSSL_strnlen_le: "OPENSSL_strnlen s n \<le> n" "OPENSSL_strnlen s n \<le> length s"
  by (induction s n rule: OPENSSL_strnlen.induct) auto

lemma OPENSSL_strnlen_no_nul: "0 \<notin> set (take (OPENSSL_strnlen s n) s)"
  by (induction s n rule: OPENSSL_strnlen.induct) auto

lemma OPENSSL_strlcpy_loop_room:
  "0 < n \<Longrightarrow> n \<le> length dst \<Longrightarrow>
   OPENSSL_strlcpy_loop dst src n l =
     (take (n - 1) src @ [0] @ drop (min (n - 1) (length src) + 1) dst, l + length src)"
proof (induction dst src n l rule: OPENSSL_strlcpy_loop.induct)
  case (1 d dst c src m l)
  show ?case
  proof (cases "m > 1")
    case True
    define k where "k = m - 2" with True have k: "m = Suc (Suc k)" by simp
    have "OPENSSL_strlcpy_loop dst src (Suc k) (Suc l) =
        (take k src @ [0] @ drop (min k (length src) + 1) dst, Suc l + length src)"
      using "1.IH"[OF True] "1.prems" k by simp
    then show ?thesis by (simp add: k)
  next
    case False
    then have "m = 1" using 1(2) by simp
    then show ?thesis by simp
  qed
qed (simp_all, case_tac dst, simp_all)

lemma CRYPTO_bswap2_bytes: "be_bytes 2 (ucast (CRYPTO_bswap2 x)) = rev (be_bytes 2 (ucast x))"
proof -
  let ?r = "rev (be_bytes 2 (ucast x))"
  have "ucast (CRYPTO_bswap2 x) = take_bit 16 (be_word ?r)"
    by (rule bit_word_eqI) (auto simp: bit_simps CRYPTO_bswap2_def dest: bit_imp_le_length)
  then show ?thesis using be_bytes_be_word[of ?r] by (simp add: be_bytes_take)
qed

lemma CRYPTO_bswap4_bytes: "be_bytes 4 (ucast (CRYPTO_bswap4 x)) = rev (be_bytes 4 (ucast x))"
proof -
  let ?r = "rev (be_bytes 4 (ucast x))"
  have "ucast (CRYPTO_bswap4 x) = take_bit 32 (be_word ?r)"
    by (rule bit_word_eqI) (auto simp: bit_simps CRYPTO_bswap4_def dest: bit_imp_le_length)
  then show ?thesis using be_bytes_be_word[of ?r] by (simp add: be_bytes_take)
qed

lemma CRYPTO_bswap8_bytes: "be_bytes 8 (CRYPTO_bswap8 x) = rev (be_bytes 8 x)"
  using be_bytes_be_word[of "rev (be_bytes 8 x)"] by (simp add: CRYPTO_bswap8_def)

lemma CRYPTO_bswap8_invol: "CRYPTO_bswap8 (CRYPTO_bswap8 x) = x"
  by (simp add: CRYPTO_bswap8_def CRYPTO_bswap8_bytes [unfolded CRYPTO_bswap8_def] byte_simps)

end
