(* ===== verification/CBS.thy ===== *)
theory CBS
  imports Mem
begin

text \<open>
  The byte-string reader of \<open>crypto/bytestring/cbs.c\<close>.  A \<open>CBS\<close> is a pointer and a
  length; the model keeps the list of the bytes it covers.  A reader returns what it wrote
  through its out parameter (\<open>None\<close> when the C function returns 0) and the \<open>CBS\<close> it
  leaves behind.  The \<open>CBS\<close> is returned on failure as well: some readers leave it
  advanced when they fail (the length-prefixed and tagged ones), others untouched.
\<close>

type_synonym cbs = bytes

section \<open>Basic reads\<close>

definition CBS_init :: "bytes \<Rightarrow> nat \<Rightarrow> cbs" where
  "CBS_init d len = take len d"

definition cbs_get :: "nat \<Rightarrow> (cbs, bytes) op" where
  "cbs_get n s = (if length s < n then (None, s) else (Some (take n s), drop n s))"

definition CBS_skip :: "nat \<Rightarrow> (cbs, unit) op" where
  "CBS_skip n s = (case cbs_get n s of (None, s') \<Rightarrow> (None, s') | (Some _, s') \<Rightarrow> (Some (), s'))"

definition CBS_data :: "cbs \<Rightarrow> bytes" where
  "CBS_data s = s"

definition CBS_len :: "cbs \<Rightarrow> nat" where
  "CBS_len s = length s"

text \<open>\<open>*out_ptr\<close> and \<open>*out_len\<close> after the call, with the return value; \<open>None\<close> is NULL.\<close>

definition CBS_stow :: "allocator \<Rightarrow> cbs \<Rightarrow> bool \<times> bytes option \<times> nat" where
  "CBS_stow al s =
     (if CBS_len s = 0 then (True, None, 0)
      else case OPENSSL_memdup al (CBS_data s) (CBS_len s) of
             None \<Rightarrow> (False, None, 0)
           | Some p \<Rightarrow> (True, Some p, CBS_len s))"

definition CBS_strdup :: "allocator \<Rightarrow> cbs \<Rightarrow> bytes option" where
  "CBS_strdup al s = OPENSSL_strndup al (CBS_data s) (CBS_len s)"

definition CBS_contains_zero_byte :: "cbs \<Rightarrow> bool" where
  "CBS_contains_zero_byte s \<longleftrightarrow> OPENSSL_memchr (CBS_data s) 0 (CBS_len s) \<noteq> None"

definition CBS_mem_equal :: "cbs \<Rightarrow> bytes \<Rightarrow> nat \<Rightarrow> bool" where
  "CBS_mem_equal s d len \<longleftrightarrow>
     (if len \<noteq> CBS_len s then False else CRYPTO_memcmp (CBS_data s) d len = 0)"

section \<open>Integers\<close>

definition cbs_get_u :: "nat \<Rightarrow> (cbs, u64) op" where
  "cbs_get_u len s =
     (case cbs_get len s of
        (None, s') \<Rightarrow> (None, s')
      | (Some d, s') \<Rightarrow> (Some (foldl (\<lambda>result x. push_bit 8 result OR ucast x) 0 d), s'))"

definition CBS_get_u8 :: "(cbs, byte) op" where
  "CBS_get_u8 s =
     (case cbs_get 1 s of (None, s') \<Rightarrow> (None, s') | (Some v, s') \<Rightarrow> (Some (v ! 0), s'))"

definition CBS_get_u16 :: "(cbs, u16) op" where
  "CBS_get_u16 s =
     (case cbs_get_u 2 s of (None, s') \<Rightarrow> (None, s') | (Some v, s') \<Rightarrow> (Some (ucast v), s'))"

definition CBS_get_u16le :: "(cbs, u16) op" where
  "CBS_get_u16le s =
     (case CBS_get_u16 s of
        (None, s') \<Rightarrow> (None, s') | (Some v, s') \<Rightarrow> (Some (CRYPTO_bswap2 v), s'))"

definition CBS_get_u24 :: "(cbs, u32) op" where
  "CBS_get_u24 s =
     (case cbs_get_u 3 s of (None, s') \<Rightarrow> (None, s') | (Some v, s') \<Rightarrow> (Some (ucast v), s'))"

definition CBS_get_u32 :: "(cbs, u32) op" where
  "CBS_get_u32 s =
     (case cbs_get_u 4 s of (None, s') \<Rightarrow> (None, s') | (Some v, s') \<Rightarrow> (Some (ucast v), s'))"

definition CBS_get_u32le :: "(cbs, u32) op" where
  "CBS_get_u32le s =
     (case CBS_get_u32 s of
        (None, s') \<Rightarrow> (None, s') | (Some v, s') \<Rightarrow> (Some (CRYPTO_bswap4 v), s'))"

definition CBS_get_u64 :: "(cbs, u64) op" where
  "CBS_get_u64 s = cbs_get_u 8 s"

definition CBS_get_u64le :: "(cbs, u64) op" where
  "CBS_get_u64le s =
     (case cbs_get_u 8 s of
        (None, s') \<Rightarrow> (None, s') | (Some v, s') \<Rightarrow> (Some (CRYPTO_bswap8 v), s'))"

definition CBS_get_last_u8 :: "(cbs, byte) op" where
  "CBS_get_last_u8 s =
     (if CBS_len s = 0 then (None, s)
      else (Some (s ! (length s - 1)), take (length s - 1) s))"

section \<open>Byte strings and length prefixes\<close>

definition CBS_get_bytes :: "nat \<Rightarrow> (cbs, cbs) op" where
  "CBS_get_bytes len s =
     (case cbs_get len s of
        (None, s') \<Rightarrow> (None, s') | (Some v, s') \<Rightarrow> (Some (CBS_init v len), s'))"

definition CBS_copy_bytes :: "nat \<Rightarrow> (cbs, bytes) op" where
  "CBS_copy_bytes len s =
     (case cbs_get len s of (None, s') \<Rightarrow> (None, s') | (Some v, s') \<Rightarrow> (Some v, s'))"

definition cbs_get_length_prefixed :: "nat \<Rightarrow> (cbs, cbs) op" where
  "cbs_get_length_prefixed len_len s =
     (case cbs_get_u len_len s of
        (None, s') \<Rightarrow> (None, s')
      | (Some len, s') \<Rightarrow> CBS_get_bytes (unat len) s')"

definition CBS_get_u8_length_prefixed :: "(cbs, cbs) op" where
  "CBS_get_u8_length_prefixed s = cbs_get_length_prefixed 1 s"

definition CBS_get_u16_length_prefixed :: "(cbs, cbs) op" where
  "CBS_get_u16_length_prefixed s = cbs_get_length_prefixed 2 s"

definition CBS_get_u24_length_prefixed :: "(cbs, cbs) op" where
  "CBS_get_u24_length_prefixed s = cbs_get_length_prefixed 3 s"

definition CBS_get_until_first :: "byte \<Rightarrow> (cbs, cbs) op" where
  "CBS_get_until_first c s =
     (case OPENSSL_memchr (CBS_data s) c (CBS_len s) of
        None \<Rightarrow> (None, s)
      | Some split \<Rightarrow> CBS_get_bytes split s)"

section \<open>ASN.1 headers\<close>

abbreviation (input) CBS_ASN1_TAG_SHIFT :: nat where "CBS_ASN1_TAG_SHIFT \<equiv> 24"
abbreviation (input) CBS_ASN1_CONSTRUCTED :: u32 where "CBS_ASN1_CONSTRUCTED \<equiv> 0x20000000"
abbreviation (input) CBS_ASN1_TAG_NUMBER_MASK :: u32 where
  "CBS_ASN1_TAG_NUMBER_MASK \<equiv> 0x1fffffff"
abbreviation (input) CBS_ASN1_BOOLEAN :: u32 where "CBS_ASN1_BOOLEAN \<equiv> 1"
abbreviation (input) CBS_ASN1_INTEGER :: u32 where "CBS_ASN1_INTEGER \<equiv> 2"
abbreviation (input) CBS_ASN1_OCTETSTRING :: u32 where "CBS_ASN1_OCTETSTRING \<equiv> 4"

text \<open>The do-while loop: each round reads a byte and stops at one with its high bit clear.\<close>

fun parse_base128_loop :: "u64 \<Rightarrow> (cbs, u64) op" where
  "parse_base128_loop v [] = (None, [])"
| "parse_base128_loop v (b # s) =
     (if drop_bit (64 - 7) v \<noteq> 0 then (None, s)
      else if v = 0 \<and> b = 0x80 then (None, s)
      else let v' = push_bit 7 v OR ucast (b AND 0x7f)
           in if b AND 0x80 \<noteq> 0 then parse_base128_loop v' s else (Some v', s))"

definition parse_base128_integer :: "(cbs, u64) op" where
  "parse_base128_integer s = parse_base128_loop 0 s"

definition parse_asn1_tag :: "(cbs, u32) op" where
  "parse_asn1_tag s =
     (case CBS_get_u8 s of
        (None, s') \<Rightarrow> (None, s')
      | (Some tag_byte, s') \<Rightarrow>
          let tag = push_bit CBS_ASN1_TAG_SHIFT (ucast tag_byte AND 0xe0 :: u32);
              tag_number = (ucast (tag_byte AND 0x1f) :: u32)
          in if tag_number = 0x1f
             then (case parse_base128_integer s' of
                     (None, s'') \<Rightarrow> (None, s'')
                   | (Some v, s'') \<Rightarrow>
                       if v > ucast CBS_ASN1_TAG_NUMBER_MASK \<or> v < 0x1f then (None, s'')
                       else (Some (tag OR ucast v), s''))
             else (Some (tag OR tag_number), s'))"

text \<open>What \<open>cbs_get_any_asn1_element\<close> writes through its out parameters: the element with
  its header, the tag, the header length, and whether a BER form was used.\<close>

record asn1_element =
  el_out :: cbs
  el_tag :: u32
  el_header_len :: nat
  el_ber_found :: bool

text \<open>All header parsing happens on a copy; only the final \<open>CBS_get_bytes\<close> moves the
  caller's \<open>CBS\<close>.\<close>

definition cbs_get_any_asn1_element :: "bool \<Rightarrow> (cbs, asn1_element) op" where
  "cbs_get_any_asn1_element ber_ok s =
     (let finish = (\<lambda>len tag hl ber.
            case CBS_get_bytes len s of
              (None, s') \<Rightarrow> (None, s')
            | (Some out, s') \<Rightarrow>
                (Some \<lparr>el_out = out, el_tag = tag, el_header_len = hl, el_ber_found = ber\<rparr>, s'))
      in case parse_asn1_tag s of
        (None, _) \<Rightarrow> (None, s)
      | (Some tag, header) \<Rightarrow>
        (case CBS_get_u8 header of
          (None, _) \<Rightarrow> (None, s)
        | (Some length_byte, header) \<Rightarrow>
          let header_len = CBS_len s - CBS_len header in
          if length_byte AND 0x80 = 0
          then finish (unat length_byte + header_len) tag header_len False
          else
            let num_bytes = unat (length_byte AND 0x7f) in
            if ber_ok \<and> tag AND CBS_ASN1_CONSTRUCTED \<noteq> 0 \<and> num_bytes = 0
            then finish header_len tag header_len True
            else if num_bytes = 0 \<or> num_bytes > 4 then (None, s)
            else (case cbs_get_u num_bytes header of
                (None, _) \<Rightarrow> (None, s)
              | (Some len64, _) \<Rightarrow>
                let long_form = (len64 < 128);
                    padded = (drop_bit ((num_bytes - 1) * 8) len64 = 0);
                    len = unat len64
                in if (long_form \<or> padded) \<and> \<not> ber_ok then (None, s)
                   else if (len + header_len + num_bytes) mod SIZE_MODULUS < len then (None, s)
                   else finish (len + header_len + num_bytes) tag (header_len + num_bytes)
                          (long_form \<or> padded))))"

definition CBS_get_any_asn1_element :: "(cbs, asn1_element) op" where
  "CBS_get_any_asn1_element s = cbs_get_any_asn1_element False s"

definition CBS_get_any_ber_asn1_element :: "(cbs, asn1_element) op" where
  "CBS_get_any_ber_asn1_element s = cbs_get_any_asn1_element True s"

definition CBS_get_any_asn1 :: "(cbs, cbs \<times> u32) op" where
  "CBS_get_any_asn1 s =
     (case CBS_get_any_asn1_element s of
        (None, s') \<Rightarrow> (None, s')
      | (Some e, s') \<Rightarrow>
          (case CBS_skip (el_header_len e) (el_out e) of
             (None, _) \<Rightarrow> (None, s')
           | (Some _, out) \<Rightarrow> (Some (out, el_tag e), s')))"

definition cbs_get_asn1 :: "u32 \<Rightarrow> bool \<Rightarrow> (cbs, cbs) op" where
  "cbs_get_asn1 tag_value skip_header s =
     (case CBS_get_any_asn1_element s of
        (None, s') \<Rightarrow> (None, s')
      | (Some e, s') \<Rightarrow>
          if el_tag e \<noteq> tag_value then (None, s')
          else if skip_header
          then (case CBS_skip (el_header_len e) (el_out e) of
                  (None, _) \<Rightarrow> (None, s')
                | (Some _, out) \<Rightarrow> (Some out, s'))
          else (Some (el_out e), s'))"

definition CBS_get_asn1 :: "u32 \<Rightarrow> (cbs, cbs) op" where
  "CBS_get_asn1 tag_value s = cbs_get_asn1 tag_value True s"

definition CBS_get_asn1_element :: "u32 \<Rightarrow> (cbs, cbs) op" where
  "CBS_get_asn1_element tag_value s = cbs_get_asn1 tag_value False s"

definition CBS_peek_asn1_tag :: "cbs \<Rightarrow> u32 \<Rightarrow> bool" where
  "CBS_peek_asn1_tag s tag_value \<longleftrightarrow>
     (if CBS_len s < 1 then False
      else case parse_asn1_tag s of (None, _) \<Rightarrow> False | (Some actual, _) \<Rightarrow> tag_value = actual)"

section \<open>ASN.1 primitive values\<close>

text \<open>\<open>Some neg\<close>: the contents are a minimally encoded INTEGER of sign \<open>neg\<close>.\<close>

definition CBS_is_valid_asn1_integer :: "cbs \<Rightarrow> bool option" where
  "CBS_is_valid_asn1_integer s =
     (case CBS_get_u8 s of
        (None, _) \<Rightarrow> None
      | (Some first_byte, copy) \<Rightarrow>
          let is_negative = (first_byte AND 0x80 \<noteq> 0)
          in (case CBS_get_u8 copy of
                (None, _) \<Rightarrow> Some is_negative
              | (Some second_byte, _) \<Rightarrow>
                  if (first_byte = 0x00 \<and> second_byte AND 0x80 = 0) \<or>
                     (first_byte = 0xff \<and> second_byte AND 0x80 \<noteq> 0)
                  then None else Some is_negative))"

definition CBS_is_unsigned_asn1_integer :: "cbs \<Rightarrow> bool" where
  "CBS_is_unsigned_asn1_integer s \<longleftrightarrow>
     (case CBS_is_valid_asn1_integer s of None \<Rightarrow> False | Some is_negative \<Rightarrow> \<not> is_negative)"

fun asn1_uint64_loop :: "u64 \<Rightarrow> bytes \<Rightarrow> u64 option" where
  "asn1_uint64_loop out [] = Some out"
| "asn1_uint64_loop out (x # xs) =
     (if drop_bit 56 out \<noteq> 0 then None
      else asn1_uint64_loop (push_bit 8 out OR ucast x) xs)"

definition CBS_get_asn1_uint64 :: "(cbs, u64) op" where
  "CBS_get_asn1_uint64 s =
     (case CBS_get_asn1 CBS_ASN1_INTEGER s of
        (None, s') \<Rightarrow> (None, s')
      | (Some bytes, s') \<Rightarrow>
          if \<not> CBS_is_unsigned_asn1_integer bytes then (None, s')
          else (asn1_uint64_loop 0 (CBS_data bytes), s'))"

text \<open>The union is filled from its low end with the contents in reverse, over a background of
  sign bytes; \<open>u.i\<close> reads its eight bytes in little-endian order as two's complement.\<close>

definition CBS_get_asn1_int64 :: "(cbs, int) op" where
  "CBS_get_asn1_int64 s =
     (case CBS_get_asn1 CBS_ASN1_INTEGER s of
        (None, s') \<Rightarrow> (None, s')
      | (Some bytes, s') \<Rightarrow>
          (case CBS_is_valid_asn1_integer bytes of
             None \<Rightarrow> (None, s')
           | Some is_negative \<Rightarrow>
               let len = CBS_len bytes
               in if len > 8 then (None, s')
                  else let background = replicate 8 (if is_negative then 0xff else 0);
                           u_bytes = rev bytes @ drop len background
                       in (Some (sint (be_word (rev u_bytes))), s')))"

definition CBS_get_asn1_bool :: "(cbs, int) op" where
  "CBS_get_asn1_bool s =
     (case CBS_get_asn1 CBS_ASN1_BOOLEAN s of
        (None, s') \<Rightarrow> (None, s')
      | (Some bytes, s') \<Rightarrow>
          if CBS_len bytes \<noteq> 1 then (None, s')
          else let value = CBS_data bytes ! 0
               in if value \<noteq> 0 \<and> value \<noteq> 0xff then (None, s')
                  else (Some (if value \<noteq> 0 then 1 else 0), s'))"

text \<open>The result of an optional field: \<open>None\<close> inside \<open>Some\<close> is "not present", where the
  C code leaves \<open>out\<close> untouched.\<close>

definition CBS_get_optional_asn1 :: "u32 \<Rightarrow> (cbs, cbs option) op" where
  "CBS_get_optional_asn1 tag s =
     (if CBS_peek_asn1_tag s tag
      then (case CBS_get_asn1 tag s of
              (None, s') \<Rightarrow> (None, s')
            | (Some out, s') \<Rightarrow> (Some (Some out), s'))
      else (Some None, s))"

definition CBS_get_optional_asn1_octet_string :: "u32 \<Rightarrow> (cbs, cbs \<times> bool) op" where
  "CBS_get_optional_asn1_octet_string tag s =
     (case CBS_get_optional_asn1 tag s of
        (None, s') \<Rightarrow> (None, s')
      | (Some (Some child), s') \<Rightarrow>
          (case CBS_get_asn1 CBS_ASN1_OCTETSTRING child of
             (None, _) \<Rightarrow> (None, s')
           | (Some out, child') \<Rightarrow>
               if CBS_len child' \<noteq> 0 then (None, s') else (Some (out, True), s'))
      | (Some None, s') \<Rightarrow> (Some ([], False), s'))"

definition CBS_get_optional_asn1_uint64 :: "u32 \<Rightarrow> u64 \<Rightarrow> (cbs, u64) op" where
  "CBS_get_optional_asn1_uint64 tag default_value s =
     (case CBS_get_optional_asn1 tag s of
        (None, s') \<Rightarrow> (None, s')
      | (Some (Some child), s') \<Rightarrow>
          (case CBS_get_asn1_uint64 child of
             (None, _) \<Rightarrow> (None, s')
           | (Some out, child') \<Rightarrow>
               if CBS_len child' \<noteq> 0 then (None, s') else (Some out, s'))
      | (Some None, s') \<Rightarrow> (Some default_value, s'))"

definition CBS_get_optional_asn1_bool :: "u32 \<Rightarrow> int \<Rightarrow> (cbs, int) op" where
  "CBS_get_optional_asn1_bool tag default_value s =
     (case CBS_get_optional_asn1 tag s of
        (None, s') \<Rightarrow> (None, s')
      | (Some (Some child), s') \<Rightarrow>
          (case CBS_get_asn1 CBS_ASN1_BOOLEAN child of
             (None, _) \<Rightarrow> (None, s')
           | (Some child2, child') \<Rightarrow>
               if CBS_len child2 \<noteq> 1 \<or> CBS_len child' \<noteq> 0 then (None, s')
               else let boolean = CBS_data child2 ! 0
                    in if boolean = 0 then (Some 0, s')
                       else if boolean = 0xff then (Some 1, s')
                       else (None, s'))
      | (Some None, s') \<Rightarrow> (Some default_value, s'))"

definition CBS_is_valid_asn1_bitstring :: "cbs \<Rightarrow> bool" where
  "CBS_is_valid_asn1_bitstring s \<longleftrightarrow>
     (case CBS_get_u8 s of
        (None, _) \<Rightarrow> False
      | (Some num_unused_bits, i) \<Rightarrow>
          if num_unused_bits > 7 then False
          else if num_unused_bits = 0 then True
          else (case CBS_get_last_u8 i of
                  (None, _) \<Rightarrow> False
                | (Some last_byte, _) \<Rightarrow>
                    last_byte AND (push_bit (unat num_unused_bits) 1 - 1) = 0))"

definition CBS_asn1_bitstring_has_bit :: "cbs \<Rightarrow> u32 \<Rightarrow> bool" where
  "CBS_asn1_bitstring_has_bit s n \<longleftrightarrow>
     (if \<not> CBS_is_valid_asn1_bitstring s then False
      else let byte_num = unat (drop_bit 3 n + 1);
               bit_num = 7 - unat (n AND 7)
           in byte_num < CBS_len s \<and> CBS_data s ! byte_num AND push_bit bit_num 1 \<noteq> 0)"

section \<open>Readers on known input\<close>

lemma cbs_get_append [get_simps]: "length xs = n \<Longrightarrow> cbs_get n (xs @ rest) = (Some xs, rest)"
  by (simp add: cbs_get_def)

lemma cbs_get_Some:
  "cbs_get n s = (Some xs, rest) \<longleftrightarrow> s = xs @ rest \<and> length xs = n"
  by (auto simp: cbs_get_def)

lemma cbs_get_None: "cbs_get n s = (None, s') \<longleftrightarrow> length s < n \<and> s' = s"
  by (auto simp: cbs_get_def)

lemma cbs_get_u_alt:
  "cbs_get_u n s = (if length s < n then (None, s) else (Some (be_word (take n s)), drop n s))"
  by (simp add: cbs_get_u_def cbs_get_def be_word_def)

lemma cbs_get_u_append [get_simps]:
  "length xs = n \<Longrightarrow> cbs_get_u n (xs @ rest) = (Some (be_word xs), rest)"
  by (simp add: cbs_get_u_alt)

lemma CBS_skip_append [get_simps]: "length xs = n \<Longrightarrow> CBS_skip n (xs @ rest) = (Some (), rest)"
  by (simp add: CBS_skip_def get_simps)

lemma CBS_get_u8_Cons [get_simps]: "CBS_get_u8 (x # s) = (Some x, s)"
  by (simp add: CBS_get_u8_def cbs_get_def)

lemma CBS_get_u8_Nil [get_simps]: "CBS_get_u8 [] = (None, [])"
  by (simp add: CBS_get_u8_def cbs_get_def)

lemma CBS_get_bytes_alt:
  "CBS_get_bytes n s = (if length s < n then (None, s) else (Some (take n s), drop n s))"
  by (simp add: CBS_get_bytes_def cbs_get_def CBS_init_def)

lemma CBS_get_bytes_append [get_simps]:
  "length xs = n \<Longrightarrow> CBS_get_bytes n (xs @ rest) = (Some xs, rest)"
  by (simp add: CBS_get_bytes_alt)

lemma CBS_get_u16_bytes [get_simps]: "CBS_get_u16 (be_bytes 2 (ucast v) @ rest) = (Some v, rest)"
proof -
  have "ucast (take_bit 16 (ucast v :: u64)) = v"
    by (rule bit_word_eqI) (auto simp: bit_simps)
  then show ?thesis by (simp add: CBS_get_u16_def get_simps byte_simps)
qed

lemma CBS_get_u32_bytes [get_simps]: "CBS_get_u32 (be_bytes 4 (ucast v) @ rest) = (Some v, rest)"
proof -
  have "ucast (take_bit 32 (ucast v :: u64)) = v"
    by (rule bit_word_eqI) (auto simp: bit_simps)
  then show ?thesis by (simp add: CBS_get_u32_def get_simps byte_simps)
qed

lemma CBS_get_u24_bytes [get_simps]:
  "CBS_get_u24 (be_bytes 3 (ucast v) @ rest) = (Some (take_bit 24 v), rest)"
proof -
  have "ucast (take_bit 24 (ucast v :: u64)) = take_bit 24 v"
    by (rule bit_word_eqI) (auto simp: bit_simps)
  then show ?thesis by (simp add: CBS_get_u24_def get_simps byte_simps)
qed

lemma CBS_get_u64_bytes [get_simps]: "CBS_get_u64 (be_bytes 8 v @ rest) = (Some v, rest)"
  by (simp add: CBS_get_u64_def get_simps byte_simps)

lemma length_prefixed_bytes [get_simps]:
  assumes "length c < 2 ^ (8 * k)" "k \<le> 3"
  shows "cbs_get_length_prefixed k (be_bytes k (of_nat (length c)) @ c @ rest) = (Some c, rest)"
proof -
  have "take_bit (8 * k) (of_nat (length c)) = (of_nat (length c) :: u64)"
    using assms by (simp add: take_bit_of_nat take_bit_nat_eq_self)
  moreover have "(2::nat) ^ (8 * k) \<le> 2 ^ 24"
    using assms(2) by (intro power_increasing) auto
  then have "unat (of_nat (length c) :: u64) = length c"
    using assms(1) by (intro unat_of_nat_u64) simp
  ultimately show ?thesis
    by (simp add: cbs_get_length_prefixed_def get_simps byte_simps)
qed

end
