(* ===== verification/DER.thy ===== *)
theory DER
  imports CBS
begin

text \<open>
  What the ASN.1 readers of \<open>cbs.c\<close> accept, stated against an independent specification of
  the distinguished encoding: base-128 numbers, identifier octets, minimal length octets and
  whole elements.  Each reader is characterised by an equivalence: it succeeds exactly on the
  one canonical encoding of its result, followed by anything.  The functions of this theory
  are the specification; they model no code of their own.
\<close>

section \<open>Base-128 numbers\<close>


function base128_prefix :: "nat \<Rightarrow> bytes" where
  "base128_prefix n =
     (if n = 0 then [] else base128_prefix (n div 128) @ [of_nat (128 + n mod 128)])"
  by pat_completeness auto
termination by (relation "measure id") auto

declare base128_prefix.simps [simp del]

definition base128_bytes :: "nat \<Rightarrow> bytes" where
  "base128_bytes n = base128_prefix (n div 128) @ [of_nat (n mod 128)]"

lemma base128_prefix_0 [simp]: "base128_prefix 0 = []"
  by (simp add: base128_prefix.simps)

text \<open>One round of the reader's loop, seen on numbers.\<close>

lemma base128_step:
  assumes "drop_bit 57 v = (0 :: u64)"
  shows "unat (push_bit 7 v OR ucast (b AND 0x7f :: byte)) = unat v * 128 + unat b mod 128"
proof -
  let ?x = "ucast (b AND 0x7f) :: u64"
  have v: "unat v < 2 ^ 57"
  proof -
    have "unat (drop_bit 57 v) = 0" using assms by simp
    then have "unat v div 2 ^ 57 = 0"
      by (simp add: drop_bit_eq_div unat_div_distrib)
    then show ?thesis by (simp add: div_eq_0_iff)
  qed
  have x: "unat ?x = unat b mod 128"
    by (simp add: unsigned_ucast_eq unat_low7 take_bit_nat_eq_self)
  have "push_bit 7 v AND ?x = 0"
    by (rule bit_word_eqI) (auto simp: bit_simps byte_low7)
  then have "push_bit 7 v OR ?x = push_bit 7 v + ?x"
    by (simp add: disjunctive_add_eq_or)
  moreover have "unat (push_bit 7 v) = unat v * 128"
    using v by (simp add: push_bit_eq_mult unat_word_ariths)
  ultimately show ?thesis
    using v x by (simp add: unat_word_ariths)
qed

lemma drop_57_iff: "drop_bit 57 v = (0 :: u64) \<longleftrightarrow> unat v < 2 ^ 57"
proof -
  have "drop_bit 57 v = 0 \<longleftrightarrow> unat (drop_bit 57 v) = 0" by (simp add: unat_eq_0)
  also have "\<dots> \<longleftrightarrow> unat v div 2 ^ 57 = 0" by (simp add: drop_bit_eq_div unat_div_distrib)
  finally show ?thesis by (simp add: div_eq_0_iff)
qed

lemma parse_base128_loop_prefix:
  "n < 2 ^ 64 \<Longrightarrow>
   parse_base128_loop 0 (base128_prefix n @ t) = parse_base128_loop (of_nat n) t"
proof (induction n arbitrary: t rule: base128_prefix.induct)
  case (1 n)
  show ?case
  proof (cases "n = 0")
    case False
    let ?m = "n div 128" and ?x = "of_nat (128 + n mod 128) :: byte"
    have x: "unat ?x = 128 + n mod 128"
      by (subst unat_of_nat) simp
    have m: "unat (of_nat ?m :: u64) = ?m" "?m < 2 ^ 57"
      using 1(2) by (auto intro!: unat_of_nat_u64)
    have d: "drop_bit 57 (of_nat ?m :: u64) = 0" using m by (simp only: drop_57_iff)
    have "unat (push_bit 7 (of_nat ?m :: u64) OR ucast (?x AND 0x7f)) = n"
      using base128_step [OF d, of ?x] m x by simp
    then have v: "push_bit 7 (of_nat ?m :: u64) OR ucast (?x AND 0x7f) = of_nat n"
      by (rule word_of_unat)
    have hi: "?x AND 0x80 \<noteq> 0" using x by (simp add: high_bit_iff)
    have nz: "\<not> ((of_nat ?m :: u64) = 0 \<and> ?x = 0x80)"
    proof
      assume a: "(of_nat ?m :: u64) = 0 \<and> ?x = 0x80"
      then have "unat (of_nat ?m :: u64) = 0" "unat ?x = 128" by simp_all
      with m x False show False by simp
    qed
    have "base128_prefix n @ t = base128_prefix ?m @ ?x # t"
      using False by (simp add: base128_prefix.simps [of n])
    moreover have "parse_base128_loop 0 (base128_prefix ?m @ ?x # t) = parse_base128_loop (of_nat ?m) (?x # t)"
      using 1 False by simp
    ultimately show ?thesis
      using d nz v hi by (simp del: push_bit_of_nat of_nat_add of_nat_mod)
  qed simp
qed

lemma parse_base128_bytes:
  assumes "n < 2 ^ 64"
  shows "parse_base128_integer (base128_bytes n @ rest) = (Some (of_nat n), rest)"
proof -
  let ?m = "n div 128" and ?x = "of_nat (n mod 128) :: byte"
  have x: "unat ?x = n mod 128" by (subst unat_of_nat) simp
  have m: "unat (of_nat ?m :: u64) = ?m" "?m < 2 ^ 57"
    using assms by (auto intro!: unat_of_nat_u64)
  have d: "drop_bit 57 (of_nat ?m :: u64) = 0" using m by (simp only: drop_57_iff)
  have v: "push_bit 7 (of_nat ?m :: u64) OR ucast (?x AND 0x7f) = of_nat n"
    using base128_step [OF d, of ?x] m x by (intro word_of_unat) simp
  have hi: "?x AND 0x80 = 0" using x by (simp add: high_bit_iff)
  have nz: "?x \<noteq> 0x80"
  proof
    assume "?x = 0x80"
    then have "unat ?x = 128" by simp
    with x show False by simp
  qed
  have "parse_base128_integer (base128_bytes n @ rest) = parse_base128_loop (of_nat ?m) (?x # rest)"
    using assms by (simp add: parse_base128_integer_def base128_bytes_def parse_base128_loop_prefix)
  then show ?thesis
    using d nz v hi by (simp del: push_bit_of_nat of_nat_add of_nat_mod)
qed

lemma parse_base128_loop_sound:
  "parse_base128_loop v s = (Some w, rest) \<Longrightarrow>
   \<exists>p. s = p @ rest \<and> base128_prefix (unat v) @ p = base128_bytes (unat w)"
proof (induction v s rule: parse_base128_loop.induct)
  case (2 v b s)
  let ?v' = "push_bit 7 v OR ucast (b AND 0x7f) :: u64"
  from 2(2) have d: "drop_bit 57 v = 0" and nz: "\<not> (v = 0 \<and> b = 0x80)"
    by (auto simp: Let_def split: if_splits)
  have u: "unat ?v' = unat v * 128 + unat b mod 128" by (rule base128_step [OF d])
  then have div: "unat ?v' div 128 = unat v" and mod: "unat ?v' mod 128 = unat b mod 128" by simp_all
  show ?case
  proof (cases "b AND 0x80 = 0")
    case True
    then have b: "unat b < 128" by (simp only: high_bit_iff)
    have "w = ?v'" "s = rest" using 2(2) d nz True by (auto simp: Let_def)
    moreover have "(of_nat (unat b) :: byte) = b" by simp
    ultimately have "base128_bytes (unat w) = base128_prefix (unat v) @ [b]"
      using div mod b by (simp add: base128_bytes_def)
    with \<open>s = rest\<close> show ?thesis by (intro exI [of _ "[b]"]) simp
  next
    case False
    then have b: "128 \<le> unat b" by (simp add: high_bit_iff)
    have b': "unat b < 256" using unsigned_less [of b, where 'a = nat] by simp
    have "parse_base128_loop ?v' s = (Some w, rest)"
      using 2(2) d nz False by (simp add: Let_def split: if_splits)
    with 2(1) d nz False obtain p where p: "s = p @ rest"
      "base128_prefix (unat ?v') @ p = base128_bytes (unat w)" by auto
    have "unat ?v' \<noteq> 0"
    proof
      assume "unat ?v' = 0"
      with u have "unat v = 0" "unat b mod 128 = 0" by simp_all
      have "b = of_nat 128"
        by (rule word_of_unat) (use mod_128 [OF b b'] \<open>unat b mod 128 = 0\<close> in simp)
      then have "b = 0x80" by simp
      moreover have "v = 0" using \<open>unat v = 0\<close> by (simp only: unat_eq_0)
      ultimately show False using nz by blast
    qed
    moreover have "128 + unat b mod 128 = unat b" using b b' by (rule mod_128)
    ultimately have "base128_prefix (unat ?v') = base128_prefix (unat v) @ [of_nat (unat b)]"
      using div mod by (subst base128_prefix.simps) simp
    with p show ?thesis by (intro exI [of _ "b # p"]) simp
  qed
qed simp

theorem parse_base128_integer_iff:
  "parse_base128_integer s = (Some w, rest) \<longleftrightarrow> s = base128_bytes (unat w) @ rest"
proof
  assume "parse_base128_integer s = (Some w, rest)"
  then show "s = base128_bytes (unat w) @ rest"
    using parse_base128_loop_sound [of 0 s w rest] by (auto simp: parse_base128_integer_def)
next
  assume "s = base128_bytes (unat w) @ rest"
  moreover have "unat w < 2 ^ 64" using unsigned_less [of w] by simp
  ultimately show "parse_base128_integer s = (Some w, rest)" by (simp add: parse_base128_bytes)
qed

definition der_tag_bytes :: "u32 \<Rightarrow> bytes" where
  "der_tag_bytes tag =
     (let bits = ucast (drop_bit 24 tag) AND 0xe0; n = unat (tag AND CBS_ASN1_TAG_NUMBER_MASK)
      in if n < 31 then [bits OR of_nat n] else (bits OR 0x1f) # base128_bytes n)"

definition der_len_len :: "nat \<Rightarrow> nat" where
  "der_len_len n = (if n < 2 ^ 8 then 1 else if n < 2 ^ 16 then 2 else if n < 2 ^ 24 then 3 else 4)"

definition der_len_bytes :: "nat \<Rightarrow> bytes" where
  "der_len_bytes n =
     (if n < 128 then [of_nat n]
      else of_nat (128 + der_len_len n) # be_bytes (der_len_len n) (of_nat n))"

definition der_element :: "u32 \<Rightarrow> bytes \<Rightarrow> bytes" where
  "der_element tag body = der_tag_bytes tag @ der_len_bytes (length body) @ body"

lemma bit_e0: "bit (0xe0 :: int) n \<longleftrightarrow> 5 \<le> n \<and> n < 8"
  and bit_e0_24: "bit (0xe0000000 :: int) n \<longleftrightarrow> 29 \<le> n \<and> n < 32"
  and bit_tag_mask: "bit (0x1fffffff :: int) n \<longleftrightarrow> n < 29"
  and bit_1f: "bit (0x1f :: int) n \<longleftrightarrow> n < 5"
proof -
  have "(0xe0 :: int) = push_bit 5 (mask 3)" "(0xe0000000 :: int) = push_bit 29 (mask 3)"
    "(0x1fffffff :: int) = mask 29" "(0x1f :: int) = mask 5"
    by (simp_all add: mask_eq_exp_minus_1)
  then show "bit (0xe0 :: int) n \<longleftrightarrow> 5 \<le> n \<and> n < 8"
    "bit (0xe0000000 :: int) n \<longleftrightarrow> 29 \<le> n \<and> n < 32"
    "bit (0x1fffffff :: int) n \<longleftrightarrow> n < 29" "bit (0x1f :: int) n \<longleftrightarrow> n < 5"
    by (simp_all only: bit_push_bit_iff bit_mask_iff possible_bit_int) auto
qed

lemmas bit_tags = bit_simps bit_e0 bit_e0_24 bit_tag_mask bit_1f

lemma tag_bits_join:
  assumes "n = take_bit 29 n"
  shows "ucast (drop_bit 24 (push_bit 24 (ucast b AND 0xe0) OR n :: u32)) AND 0xe0 = (b AND 0xe0 :: byte)"
    (is ?bits)
    and "(push_bit 24 (ucast (b :: byte) AND 0xe0) OR n) AND 0x1fffffff = n" (is ?num)
proof -
  have n: "bit n i \<longleftrightarrow> i < 29 \<and> bit n i" for i
    using assms by (metis bit_take_bit_iff)
  show ?bits
  proof (rule bit_word_eqI)
    fix i assume "i < LENGTH(8)"
    show "bit (ucast (drop_bit 24 (push_bit 24 (ucast b AND 0xe0) OR n :: u32)) AND 0xe0 :: byte) i =
        bit (b AND 0xe0) i"
      using n [of "24 + i"] by (auto simp: bit_tags)
  qed
  show ?num
  proof (rule bit_word_eqI)
    fix i assume "i < LENGTH(32)"
    show "bit ((push_bit 24 (ucast b AND 0xe0) OR n) AND 0x1fffffff) i = bit n i"
      using n [of i] by (auto simp: bit_tags)
  qed
qed

lemma tag_split:
  "push_bit 24 (ucast (ucast (drop_bit 24 tag) AND 0xe0 :: byte) AND 0xe0 :: u32)
     OR (tag AND 0x1fffffff) = tag"
  by (rule bit_word_eqI) (auto simp: bit_tags)

lemma tag_byte_join:
  assumes "unat y < 32"
  shows "((x AND 0xe0) OR y) AND 0xe0 = (x AND 0xe0 :: byte)"
    and "((x AND 0xe0) OR y) AND 0x1f = (y :: byte)"
    and "ucast ((x AND 0xe0) OR y) AND 0xe0 = (ucast (x AND 0xe0) AND 0xe0 :: u32)"
proof -
  have "unat y = take_bit 5 (unat y)" using assms by (simp add: take_bit_nat_eq_self)
  then have y: "y = take_bit 5 y" by (simp only: word_unat_eq_iff unsigned_take_bit_eq)
  have b: "i < 5" if "bit y i" for i
    using that by (subst (asm) y) (simp add: bit_take_bit_iff)
  show "((x AND 0xe0) OR y) AND 0xe0 = x AND 0xe0"
    by (rule bit_word_eqI) (use b in \<open>force simp: bit_tags\<close>)
  show "((x AND 0xe0) OR y) AND 0x1f = y"
    by (rule bit_word_eqI) (use b in \<open>force simp: bit_tags\<close>)
  show "ucast ((x AND 0xe0) OR y) AND 0xe0 = (ucast (x AND 0xe0) AND 0xe0 :: u32)"
    by (rule bit_word_eqI) (use b in \<open>force simp: bit_tags\<close>)
qed

lemma tag_byte_split: "(b AND 0xe0) OR (b AND 0x1f) = (b :: byte)"
  by (rule bit_word_eqI) (auto simp: bit_tags)

lemma unat_low5: "unat (b AND 0x1f :: byte) < 32"
proof -
  have "b AND 0x1f = take_bit 5 b" by (simp add: take_bit_eq_mask mask_eq_exp_minus_1)
  then show ?thesis by (simp only: unsigned_take_bit_eq) (use take_bit_nat_less_exp [of 5] in simp)
qed

lemma tag_number_bound: "unat (tag AND 0x1fffffff :: u32) < 2 ^ 29"
proof -
  have "tag AND 0x1fffffff = take_bit 29 tag" by (simp add: take_bit_eq_mask mask_eq_exp_minus_1)
  then show ?thesis by (simp only: unsigned_take_bit_eq take_bit_nat_less_exp)
qed

lemma der_tag_bytes_join:
  assumes "unat n < 2 ^ 29"
  shows "der_tag_bytes (push_bit 24 (ucast b AND 0xe0) OR n) =
    (if unat n < 31 then [(b AND 0xe0) OR of_nat (unat n)]
     else ((b AND 0xe0) OR 0x1f) # base128_bytes (unat n))"
  using tag_bits_join [OF unat_take_bit_self [OF assms], of b]
  by (simp only: der_tag_bytes_def Let_def)


lemma parse_asn1_tag_Cons:
  "parse_asn1_tag (b # s) =
     (if b AND 0x1f \<noteq> 0x1f
      then (Some (push_bit 24 (ucast b AND 0xe0) OR ucast (b AND 0x1f)), s)
      else case parse_base128_integer s of
             (None, s'') \<Rightarrow> (None, s'')
           | (Some v, s'') \<Rightarrow>
               if v > 0x1fffffff \<or> v < 0x1f then (None, s'')
               else (Some (push_bit 24 (ucast b AND 0xe0) OR ucast v), s''))"
proof -
  have "ucast (b AND 0x1f) = (0x1f :: u32) \<longleftrightarrow> b AND 0x1f = 0x1f"
  proof
    assume "ucast (b AND 0x1f) = (0x1f :: u32)"
    then have "unat (ucast (b AND 0x1f) :: u32) = 31" by simp
    then have "unat (b AND 0x1f) = 31" by (simp only: unat_ucast_up len_num1 len_bit0 len_num0)
    then have "b AND 0x1f = of_nat 31" by (rule word_of_unat)
    then show "b AND 0x1f = 0x1f" by simp
  qed simp
  moreover have "ucast (0x1fffffff :: u32) = (0x1fffffff :: u64)" by simp
  ultimately show ?thesis
    by (simp only: parse_asn1_tag_def CBS_get_u8_Cons Let_def prod.case option.case) simp
qed

lemma unat_ucast_tag: "(v :: u64) \<le> 0x1fffffff \<Longrightarrow> unat (ucast v :: u32) = unat v \<and> unat v < 2 ^ 29"
  by (simp add: word_le_nat_alt unsigned_ucast_eq take_bit_nat_eq_self)

lemma parse_asn1_tag_sound:
  assumes "parse_asn1_tag s = (Some tag, rest)"
  shows "s = der_tag_bytes tag @ rest"
proof (cases s)
  case Nil
  with assms show ?thesis by (simp add: parse_asn1_tag_def get_simps)
next
  case (Cons b t)
  show ?thesis
  proof (cases "b AND 0x1f = 0x1f")
    case False
    let ?n = "ucast (b AND 0x1f) :: u32"
    have u: "unat ?n = unat (b AND 0x1f)"
      using unat_low5 [of b] by (simp add: unsigned_ucast_eq take_bit_nat_eq_self)
    moreover have "unat (b AND 0x1f) \<noteq> 31"
      using False word_of_unat [of "b AND 0x1f" 31] by auto
    ultimately have "unat ?n < 31" "unat ?n < 2 ^ 29" using unat_low5 [of b] by simp_all
    then have "der_tag_bytes (push_bit 24 (ucast b AND 0xe0) OR ?n) = [b]"
      using u tag_byte_split [of b] by (simp only: der_tag_bytes_join if_True) simp
    then show ?thesis
      using assms False Cons by (auto simp: parse_asn1_tag_Cons simp del: push_bit_and)
  next
    case True
    with assms Cons obtain v where v: "parse_base128_integer t = (Some v, rest)"
      "\<not> v > 0x1fffffff" "\<not> v < 0x1f" "tag = push_bit 24 (ucast b AND 0xe0) OR ucast v"
      by (simp only: parse_asn1_tag_Cons) (auto split: prod.splits option.splits if_splits)
    have u: "unat (ucast v :: u32) = unat v" "unat v < 2 ^ 29"
      using unat_ucast_tag [of v] v(2) by (simp_all add: not_less)
    have "31 \<le> unat v" using v(3) by (simp add: not_less word_le_nat_alt)
    with u have "der_tag_bytes tag = ((b AND 0xe0) OR 0x1f) # base128_bytes (unat v)"
      unfolding v(4) by (subst der_tag_bytes_join) simp_all
    moreover have "(b AND 0xe0) OR 0x1f = b" using tag_byte_split [of b] True by simp
    ultimately show ?thesis using v(1) Cons by (simp add: parse_base128_integer_iff)
  qed
qed

lemma parse_asn1_tag_bytes: "parse_asn1_tag (der_tag_bytes tag @ rest) = (Some tag, rest)"
proof -
  let ?x = "ucast (drop_bit 24 tag) :: byte" and ?n = "tag AND 0x1fffffff"
  have n: "unat ?n < 2 ^ 29" by (rule tag_number_bound)
  have t: "push_bit 24 (ucast (?x AND 0xe0) AND 0xe0) OR ?n = tag" by (rule tag_split)
  show ?thesis
  proof (cases "unat ?n < 31")
    case True
    let ?y = "of_nat (unat ?n) :: byte"
    have y: "unat ?y = unat ?n" using True by (simp only: unat_of_nat) simp
    then have y32: "unat ?y < 32" using True by simp
    have "unat (ucast ?y :: u32) = unat ?n" using y unat_ucast_up [of ?y, where 'b = 32] by simp
    then have c: "ucast ?y = ?n" by (simp only: word_unat_eq_iff)
    have "?y \<noteq> 0x1f"
    proof
      assume "?y = 0x1f"
      then have "unat ?y = 31" by simp
      with y True show False by simp
    qed
    then have "parse_asn1_tag (((?x AND 0xe0) OR ?y) # rest) = (Some tag, rest)"
      by (simp only: parse_asn1_tag_Cons tag_byte_join [OF y32] if_True simp_thms c t not_False_eq_True)
    then show ?thesis
      using True by (simp only: der_tag_bytes_def Let_def if_True append_Cons append_Nil)
  next
    case False
    let ?y = "0x1f :: byte" and ?v = "of_nat (unat ?n) :: u64"
    have y32: "unat ?y < 32" by simp
    have v: "unat ?v = unat ?n" using n by (intro unat_of_nat_u64) simp
    have "unat (ucast ?v :: u32) = unat ?n"
      by (simp only: unsigned_ucast_eq v) (use n in \<open>simp add: take_bit_nat_eq_self\<close>)
    then have c: "ucast ?v = ?n" by (simp only: word_unat_eq_iff)
    have r: "\<not> (?v > 0x1fffffff \<or> ?v < 0x1f)"
      using v n False by (simp add: word_less_nat_alt word_le_nat_alt not_less)
    have p: "parse_base128_integer (base128_bytes (unat ?n) @ rest) = (Some ?v, rest)"
      using parse_base128_integer_iff [of _ ?v rest] v by simp
    have "parse_asn1_tag (((?x AND 0xe0) OR ?y) # base128_bytes (unat ?n) @ rest) = (Some tag, rest)"
      using r by (simp only: parse_asn1_tag_Cons tag_byte_join [OF y32] simp_thms c t p
          if_False prod.case option.case)
    then show ?thesis
      using False by (simp only: der_tag_bytes_def Let_def if_False append_Cons append_Nil)
  qed
qed

theorem parse_asn1_tag_iff:
  "parse_asn1_tag s = (Some tag, rest) \<longleftrightarrow> s = der_tag_bytes tag @ rest"
  using parse_asn1_tag_sound parse_asn1_tag_bytes by blast

lemma der_len_len_unique:
  assumes "1 \<le> k" "k \<le> 4" "2 ^ (8 * (k - 1)) \<le> n" "n < 2 ^ (8 * k)"
  shows "der_len_len n = k"
proof -
  from assms(1,2) consider "k = 1" | "k = 2" | "k = 3" | "k = 4" by linarith
  then show ?thesis using assms(3,4) by cases (auto simp: der_len_len_def)
qed

lemma der_len_len_bounds:
  assumes "n < 2 ^ 32"
  shows "1 \<le> der_len_len n" "der_len_len n \<le> 4" "n < 2 ^ (8 * der_len_len n)"
    and "128 \<le> n \<Longrightarrow> 2 ^ (8 * (der_len_len n - 1)) \<le> n"
  using assms by (auto simp: der_len_len_def)

lemma byte_low7_split: "128 \<le> unat b \<Longrightarrow> b = of_nat (128 + unat (b AND 0x7f :: byte))"
proof -
  assume "128 \<le> unat b"
  then have "unat b = 128 + unat (b AND 0x7f)"
    using mod_128 [of "unat b"] unsigned_less [of b, where 'a = nat] by (simp add: unat_low7)
  then show ?thesis by (rule word_of_unat)
qed

text \<open>The element reader after its header has been recognised.\<close>

lemma element_short:
  assumes "parse_asn1_tag s = (Some tag, lb # t)" "unat lb < 128" "s = T @ lb # t"
  shows "cbs_get_any_asn1_element ber_ok s =
    (if length t < unat lb then (None, s)
     else (Some \<lparr>el_out = T @ lb # take (unat lb) t, el_tag = tag,
                 el_header_len = length T + 1, el_ber_found = False\<rparr>, drop (unat lb) t))"
  using assms(2) unfolding cbs_get_any_asn1_element_def
  by (simp only: assms(1) Let_def prod.case option.case get_simps high_bit_iff if_True CBS_len_def)
     (simp add: assms(3) CBS_get_bytes_alt)

lemma base128_prefix_length: "n < 128 ^ k \<Longrightarrow> length (base128_prefix n) \<le> k"
proof (induction k arbitrary: n)
  case 0
  then show ?case by simp
next
  case (Suc k)
  then have "n div 128 < 128 ^ k" by (simp add: less_mult_imp_div_less mult.commute)
  then have "length (base128_prefix (n div 128)) \<le> k" by (rule Suc.IH)
  then show ?case by (subst base128_prefix.simps) simp
qed

lemma der_tag_bytes_length: "length (der_tag_bytes tag) \<le> 6" "der_tag_bytes tag \<noteq> []"
proof -
  let ?n = "unat (tag AND 0x1fffffff)"
  have "?n div 128 < 128 ^ 4" using tag_number_bound [of tag] by simp
  then have "length (base128_prefix (?n div 128)) \<le> 4" by (rule base128_prefix_length)
  then show "length (der_tag_bytes tag) \<le> 6" "der_tag_bytes tag \<noteq> []"
    by (simp_all add: der_tag_bytes_def base128_bytes_def Let_def)
qed

lemma element_long:
  assumes "parse_asn1_tag s = (Some tag, lb # t)" "128 \<le> unat lb" "s = T @ lb # t"
    and T: "length T \<le> 6"
    and k: "k = unat (lb AND 0x7f)"
  shows "cbs_get_any_asn1_element False s =
    (if k = 0 \<or> k > 4 \<or> length t < k then (None, s)
     else let n = unat (be_word (take k t)) in
       if n < 128 \<or> n < 2 ^ (8 * (k - 1)) \<or> length t - k < n then (None, s)
       else (Some \<lparr>el_out = T @ lb # take (k + n) t, el_tag = tag,
                   el_header_len = length T + 1 + k, el_ber_found = False\<rparr>, drop (k + n) t))"
proof (cases "k = 0 \<or> k > 4 \<or> length t < k")
  case True
  then show ?thesis
    using assms(2) unfolding cbs_get_any_asn1_element_def
    by (simp only: assms(1) Let_def prod.case option.case get_simps high_bit_iff k [symmetric]) 
       (auto simp: cbs_get_u_alt)
next
  case False
  let ?L = "be_word (take k t)"
  have bound: "unat ?L < 2 ^ 32"
  proof -
    have "unat ?L < 2 ^ (8 * k)" using be_word_bound [of "take k t"] False by (simp add: min_absorb2)
    also have "(2::nat) ^ (8 * k) \<le> 2 ^ 32" using False by (intro power_increasing) auto
    finally show ?thesis .
  qed
  have get: "cbs_get_u k t = (Some ?L, drop k t)" using False by (simp add: cbs_get_u_alt)
  have lt: "?L < 128 \<longleftrightarrow> unat ?L < 128" by (simp add: word_less_nat_alt)
  have hl: "length s - length t = length T + 1" using assms(3) by simp
  have ds: "drop (unat ?L + (length T + 1) + k) s = drop (k + unat ?L) t"
    "take (unat ?L + (length T + 1) + k) s = T @ lb # take (k + unat ?L) t"
    using assms(3) by (simp_all add: add.commute)
  have c: "\<not> (k = 0 \<or> k > 4)" "k \<noteq> 0" "\<not> unat lb < 128" using False assms(2) by auto
  have len: "length s < unat ?L + (length T + 1) + k \<longleftrightarrow> length t - k < unat ?L"
    using assms(3) False by auto
  have c8: "(k - 1) * 8 = 8 * (k - 1)" by simp
  have nov: "\<not> (unat ?L + (length T + 1) + k) mod 2 ^ 64 < unat ?L"
    using T bound False by (subst mod_less) simp_all
  show ?thesis
    using False unfolding cbs_get_any_asn1_element_def
    by (simp only: assms(1) Let_def prod.case option.case get_simps high_bit_iff k [symmetric]
        CBS_len_def get hl c simp_thms if_False lt drop_bit_0_iff CBS_get_bytes_alt ds len nov c8) auto
qed

text \<open>What the strict (DER) element reader returns for a canonical element.\<close>

definition der_element_result :: "u32 \<Rightarrow> bytes \<Rightarrow> asn1_element" where
  "der_element_result tag body =
     \<lparr>el_out = der_element tag body, el_tag = tag,
      el_header_len = length (der_tag_bytes tag) + length (der_len_bytes (length body)),
      el_ber_found = False\<rparr>"

lemma der_len_bytes_long:
  assumes "128 \<le> n" "n < 2 ^ 32"
  obtains lb L k where "der_len_bytes n = lb # L" "128 \<le> unat lb" "k = unat (lb AND 0x7f)"
    "length L = k" "1 \<le> k" "k \<le> 4" "unat (be_word L) = n" "2 ^ (8 * (k - 1)) \<le> n"
proof
  let ?k = "der_len_len n" and ?lb = "of_nat (128 + der_len_len n) :: byte"
  let ?L = "be_bytes ?k (of_nat n)"
  note b = der_len_len_bounds [OF assms(2)]
  have lb: "unat ?lb = 128 + ?k" using b by (simp only: unat_of_nat) simp
  show "der_len_bytes n = ?lb # ?L" using assms by (simp add: der_len_bytes_def)
  show "128 \<le> unat ?lb" using lb by simp
  show "?k = unat (?lb AND 0x7f)" using lb b by (simp only: unat_low7) simp
  show "length ?L = ?k" "1 \<le> ?k" "?k \<le> 4" "2 ^ (8 * (?k - 1)) \<le> n" using b assms by simp_all
  have n64: "n < 2 ^ 64" using assms(2) by simp
  have "unat (be_word ?L) = take_bit (8 * ?k) n"
    by (simp only: be_word_be_bytes unsigned_take_bit_eq unat_of_nat_u64 [OF n64])
  then show "unat (be_word ?L) = n" using b by (simp add: take_bit_nat_eq_self)
qed

lemma CBS_get_any_asn1_element_bytes:
  assumes "length body < 2 ^ 32"
  shows "CBS_get_any_asn1_element (der_element tag body @ rest) =
     (Some (der_element_result tag body), rest)"
proof (cases "length body < 128")
  case True
  let ?lb = "of_nat (length body) :: byte"
  have lb: "unat ?lb = length body" using True by (simp only: unat_of_nat) simp
  have l: "der_len_bytes (length body) = [?lb]" using True by (simp add: der_len_bytes_def)
  have s: "der_element tag body @ rest = der_tag_bytes tag @ ?lb # body @ rest"
    by (simp add: der_element_def l)
  have "parse_asn1_tag (der_element tag body @ rest) = (Some tag, ?lb # body @ rest)"
    by (simp only: s parse_asn1_tag_iff)
  from element_short [OF this _ s] lb True show ?thesis
    by (simp add: CBS_get_any_asn1_element_def der_element_result_def l der_element_def)
next
  case False
  then obtain lb L k where l: "der_len_bytes (length body) = lb # L" "128 \<le> unat lb"
    "k = unat (lb AND 0x7f)" "length L = k" "1 \<le> k" "k \<le> 4" "unat (be_word L) = length body"
    "2 ^ (8 * (k - 1)) \<le> length body"
    using der_len_bytes_long [OF _ assms] by (auto simp: not_less)
  have s: "der_element tag body @ rest = der_tag_bytes tag @ lb # L @ body @ rest"
    by (simp add: der_element_def l)
  have "parse_asn1_tag (der_element tag body @ rest) = (Some tag, lb # L @ body @ rest)"
    by (simp only: s parse_asn1_tag_iff)
  from element_long [OF this l(2) s der_tag_bytes_length(1) l(3)] l False show ?thesis
    by (simp add: CBS_get_any_asn1_element_def der_element_result_def der_element_def Let_def)
qed

lemma CBS_get_any_asn1_element_sound:
  assumes "CBS_get_any_asn1_element s = (Some e, rest)"
  obtains body where "length body < 2 ^ 32" "s = der_element (el_tag e) body @ rest"
    "e = der_element_result (el_tag e) body"
proof -
  from assms obtain tag header where p: "parse_asn1_tag s = (Some tag, header)"
    by (auto simp: CBS_get_any_asn1_element_def cbs_get_any_asn1_element_def Let_def
        split: prod.splits option.splits)
  then have s0: "s = der_tag_bytes tag @ header" by (simp only: parse_asn1_tag_iff)
  from assms p obtain lb t where h: "header = lb # t"
    by (cases header) (auto simp: CBS_get_any_asn1_element_def cbs_get_any_asn1_element_def Let_def get_simps)
  note s = s0 [unfolded h] and p = p [unfolded h]
  show thesis
  proof (cases "unat lb < 128")
    case True
    let ?body = "take (unat lb) t"
    from assms element_short [OF p True s, of False] have len: "unat lb \<le> length t"
      and e: "e = \<lparr>el_out = der_tag_bytes tag @ lb # ?body, el_tag = tag,
                 el_header_len = length (der_tag_bytes tag) + 1, el_ber_found = False\<rparr>"
      and r: "rest = drop (unat lb) t"
      by (auto simp: CBS_get_any_asn1_element_def split: if_splits)
    have l: "der_len_bytes (length ?body) = [lb]"
      using True len by (simp add: der_len_bytes_def min_absorb2)
    show thesis
      by (rule that [of ?body]) (use True len l e r s in
          \<open>simp_all add: der_element_result_def der_element_def min_absorb2\<close>)
  next
    case False
    then have hi: "128 \<le> unat lb" by simp
    define k where k: "k = unat (lb AND 0x7f)"
    define n where n: "n = unat (be_word (take k t))"
    let ?body = "take n (drop k t)"
    from assms element_long [OF p hi s der_tag_bytes_length(1) k]
    have kb: "1 \<le> k" "k \<le> 4" "k \<le> length t" and nb: "128 \<le> n" "2 ^ (8 * (k - 1)) \<le> n" "n \<le> length t - k"
      and e: "e = \<lparr>el_out = der_tag_bytes tag @ lb # take (k + n) t, el_tag = tag,
                   el_header_len = length (der_tag_bytes tag) + 1 + k, el_ber_found = False\<rparr>"
      and r: "rest = drop (k + n) t"
      by (auto simp: CBS_get_any_asn1_element_def Let_def n not_less split: if_splits)
    have nk: "n < 2 ^ (8 * k)" using be_word_bound [of "take k t"] kb by (simp add: n min_absorb2)
    also have "(2::nat) ^ (8 * k) \<le> 2 ^ 32" using kb by (intro power_increasing) auto
    finally have n32: "n < 2 ^ 32" .
    have dk: "der_len_len n = k" using kb nb nk by (intro der_len_len_unique) simp_all
    have "be_bytes k (of_nat n) = take k t"
      using be_bytes_be_word [of "take k t"] kb by (simp add: n min_absorb2)
    moreover have "lb = of_nat (128 + k)" using byte_low7_split [OF hi] by (simp only: k)
    ultimately have l: "der_len_bytes n = lb # take k t" using nb dk by (simp add: der_len_bytes_def)
    have lb: "length ?body = n" using nb by simp
    have t: "take k t @ take n (drop k t) @ drop (k + n) t = t"
      by (metis append.assoc append_take_drop_id take_add)
    show thesis
      by (rule that [of ?body]) (use n32 lb l e r s kb t in
          \<open>simp_all add: der_element_result_def der_element_def take_add min_absorb2\<close>)
  qed
qed

lemma der_element_skip:
  "CBS_skip (el_header_len (der_element_result tag b)) (el_out (der_element_result tag b)) = (Some (), b)"
  using CBS_skip_append [of "der_tag_bytes tag @ der_len_bytes (length b)" _ b]
  by (simp add: der_element_result_def der_element_def)

lemma CBS_get_any_asn1_iff:
  "CBS_get_any_asn1 s = (Some (body, tag), rest) \<longleftrightarrow>
     length body < 2 ^ 32 \<and> s = der_element tag body @ rest"
proof
  assume "CBS_get_any_asn1 s = (Some (body, tag), rest)"
  then obtain e where e: "CBS_get_any_asn1_element s = (Some e, rest)"
      "CBS_skip (el_header_len e) (el_out e) = (Some (), body)" "tag = el_tag e"
    by (auto simp: CBS_get_any_asn1_def split: prod.splits option.splits)
  from CBS_get_any_asn1_element_sound [OF e(1)] obtain b where
    b: "length b < 2 ^ 32" "s = der_element (el_tag e) b @ rest" "e = der_element_result (el_tag e) b"
    by blast
  then have "body = b" using e(2) der_element_skip [of "el_tag e" b] by simp
  with b e(3) show "length body < 2 ^ 32 \<and> s = der_element tag body @ rest" by simp
next
  assume "length body < 2 ^ 32 \<and> s = der_element tag body @ rest"
  then show "CBS_get_any_asn1 s = (Some (body, tag), rest)"
    by (simp add: CBS_get_any_asn1_def CBS_get_any_asn1_element_bytes der_element_skip)
       (simp add: der_element_result_def)
qed

lemma CBS_get_asn1_iff:
  "CBS_get_asn1 tag s = (Some body, rest) \<longleftrightarrow>
     length body < 2 ^ 32 \<and> s = der_element tag body @ rest"
proof -
  have "CBS_get_asn1 tag s = (Some body, rest) \<longleftrightarrow> CBS_get_any_asn1 s = (Some (body, tag), rest)"
    by (auto simp: CBS_get_asn1_def cbs_get_asn1_def CBS_get_any_asn1_def split: prod.splits option.splits)
  then show ?thesis by (simp only: CBS_get_any_asn1_iff)
qed

lemma CBS_get_asn1_bytes [get_simps]:
  "length body < 2 ^ 32 \<Longrightarrow> CBS_get_asn1 tag (der_element tag body @ rest) = (Some body, rest)"
  by (simp add: CBS_get_asn1_iff)

section \<open>INTEGER contents\<close>

text \<open>Dropping leading sign bytes that carry no information.\<close>

fun int_strip :: "bytes \<Rightarrow> bytes" where
  "int_strip (a # b # r) =
     (if (a = 0 \<and> b AND 0x80 = 0) \<or> (a = 0xff \<and> b AND 0x80 \<noteq> 0) then int_strip (b # r)
      else a # b # r)"
| "int_strip xs = xs"

definition sign_byte :: "bytes \<Rightarrow> byte" where
  "sign_byte xs = (if hd xs AND 0x80 \<noteq> 0 then 0xff else 0)"

definition der_uint_body :: "u64 \<Rightarrow> bytes" where
  "der_uint_body v = int_strip (0 # be_bytes 8 v)"

definition der_int_body :: "u64 \<Rightarrow> bytes" where
  "der_int_body v = int_strip (be_bytes 8 v)"

lemma int_strip_Nil_iff [simp]: "int_strip xs = [] \<longleftrightarrow> xs = []"
  by (induction xs rule: int_strip.induct) auto

lemma length_int_strip: "length (int_strip xs) \<le> length xs"
  by (induction xs rule: int_strip.induct) auto

lemma int_strip_idem [simp]: "int_strip (int_strip xs) = int_strip xs"
  by (induction xs rule: int_strip.induct) auto

lemma int_strip_extend:
  "xs \<noteq> [] \<Longrightarrow> int_strip (replicate n (sign_byte xs) @ xs) = int_strip xs"
proof (induction n)
  case (Suc n)
  define e where e: "e = replicate n (sign_byte xs) @ xs"
  have h: "e \<noteq> []" "hd e AND 0x80 = 0 \<longleftrightarrow> hd xs AND 0x80 = 0"
    using Suc.prems by (cases n; auto simp: sign_byte_def e)+
  obtain b r where br: "e = b # r" using h(1) by (cases e) auto
  have "int_strip (sign_byte xs # b # r) = int_strip (b # r)"
    using h(2) unfolding br sign_byte_def list.sel by (cases "hd xs AND 0x80 = 0") simp_all
  then show ?case using Suc.IH [OF Suc.prems] unfolding br [symmetric] by (simp add: e)
qed simp

lemma int_strip_split:
  "xs \<noteq> [] \<Longrightarrow>
   xs = replicate (length xs - length (int_strip xs)) (sign_byte (int_strip xs)) @ int_strip xs \<and>
   (hd xs AND 0x80 = 0 \<longleftrightarrow> hd (int_strip xs) AND 0x80 = 0)"
proof (induction xs rule: int_strip.induct)
  case (1 a b r)
  then show ?case using length_int_strip [of "b # r"]
    by (auto simp: sign_byte_def Suc_diff_le)
qed auto

lemma CBS_is_valid_asn1_integer_alt:
  "CBS_is_valid_asn1_integer s =
     (if s = [] \<or> int_strip s \<noteq> s then None else Some (hd s AND 0x80 \<noteq> 0))"
proof (cases s rule: int_strip.cases)
  case (1 a b r)
  have "int_strip (b # r) \<noteq> a # b # r"
    using length_int_strip [of "b # r"] by (metis length_Cons not_less_eq_eq order_refl)
  then show ?thesis by (auto simp: 1 CBS_is_valid_asn1_integer_def get_simps)
qed (auto simp: CBS_is_valid_asn1_integer_def get_simps)

lemma asn1_uint64_loop_append:
  "length ys + length xs \<le> 8 \<Longrightarrow>
   asn1_uint64_loop (be_word ys) (xs @ zs) = asn1_uint64_loop (be_word (ys @ xs)) zs"
proof (induction xs arbitrary: ys)
  case (Cons x xs)
  have "unat (be_word ys) < 2 ^ (8 * length ys)" using Cons.prems by (intro be_word_bound) simp
  also have "(2::nat) ^ (8 * length ys) \<le> 2 ^ 56" using Cons.prems by (intro power_increasing) auto
  finally have "drop_bit 56 (be_word ys) = 0" by (simp only: drop_bit_0_iff)
  then show ?case using Cons.IH [of "ys @ [x]"] Cons.prems by simp
qed simp

lemma asn1_uint64_loop_0: "asn1_uint64_loop 0 (0 # xs) = asn1_uint64_loop 0 xs"
  by simp

lemma be_word_lead_0: "be_word (replicate n 0 @ xs) = be_word xs"
proof -
  have "be_word (replicate n 0) = 0" by (induction n) (simp_all add: replicate_append_same [symmetric])
  then show ?thesis by (simp add: be_word_def)
qed

lemma be_bytes_pad:
  "length xs \<le> 8 \<Longrightarrow> be_bytes 8 (be_word xs) = replicate (8 - length xs) 0 @ xs"
  using be_bytes_be_word [of "replicate (8 - length xs) 0 @ xs"] by (simp add: be_word_lead_0)

lemma hd_be_bytes_8: "hd (be_bytes 8 v) = ucast (drop_bit 56 v)"
  by (simp add: numeral_eq_Suc drop_bit_drop_bit)

lemma asn1_uint64_loop_big:
  assumes "hd xs \<noteq> 0" "8 < length xs"
  shows "asn1_uint64_loop 0 xs = None"
proof -
  let ?ys = "take 8 xs"
  obtain z zs where xs: "xs = ?ys @ z # zs"
    using assms(2) by (metis id_take_nth_drop)
  have "hd ?ys \<noteq> 0" using assms by (cases xs) auto
  moreover have "be_bytes 8 (be_word ?ys) = ?ys"
    using be_bytes_be_word [of ?ys] assms(2) by (simp add: min_absorb2)
  ultimately have "drop_bit 56 (be_word ?ys) \<noteq> 0" by (metis hd_be_bytes_8 unsigned_0)
  moreover have "asn1_uint64_loop 0 xs = asn1_uint64_loop (be_word ?ys) (z # zs)"
    using asn1_uint64_loop_append [of "[]" ?ys "z # zs"] assms(2) xs by simp
  ultimately show ?thesis by simp
qed

lemma asn1_uint64_loop_fits:
  "length xs \<le> 8 \<Longrightarrow> asn1_uint64_loop 0 xs = Some (be_word xs)"
  using asn1_uint64_loop_append [of "[]" xs "[]"] by simp

lemma length_der_uint_body: "length (der_uint_body v) \<le> 9" "length (der_int_body v) \<le> 8"
  using length_int_strip [of "0 # be_bytes 8 v"] length_int_strip [of "be_bytes 8 v"]
  by (simp_all add: der_uint_body_def der_int_body_def)

text \<open>A valid non-negative INTEGER within range is the canonical one of its value.\<close>

lemma asn1_uint64_loop_sound:
  assumes "CBS_is_unsigned_asn1_integer xs" "asn1_uint64_loop 0 xs = Some v"
  shows "xs = der_uint_body v"
proof -
  from assms(1) have xs: "xs \<noteq> []" "int_strip xs = xs" "hd xs AND 0x80 = 0"
    by (auto simp: CBS_is_unsigned_asn1_integer_def CBS_is_valid_asn1_integer_alt split: if_splits)
  then have sg: "sign_byte xs = 0" by (simp add: sign_byte_def)
  show ?thesis
  proof (cases "length xs \<le> 8")
    case True
    with assms(2) have v: "v = be_word xs" by (simp add: asn1_uint64_loop_fits)
    have "0 # be_bytes 8 v = replicate (9 - length xs) (sign_byte xs) @ xs"
      using True Suc_diff_le [OF True] by (simp add: v be_bytes_pad sg)
    then show ?thesis
      using int_strip_extend [OF xs(1), of "9 - length xs"] xs(2) by (simp only: der_uint_body_def)
  next
    case False
    then have "hd xs = 0" using assms(2) asn1_uint64_loop_big [of xs] by fastforce
    then obtain ys where ys: "xs = 0 # ys" using xs(1) by (cases xs) auto
    then have n0: "hd ys \<noteq> 0" using xs(2) False length_int_strip [of ys] by (cases ys) (auto split: if_splits)
    have l: "asn1_uint64_loop 0 ys = Some v" using assms(2) ys by simp
    have "length ys \<le> 8" using asn1_uint64_loop_big [OF n0] l by fastforce
    with False ys have len: "length ys = 8" by simp
    then have "v = be_word ys" using l by (simp add: asn1_uint64_loop_fits)
    then have "be_bytes 8 v = ys" using be_bytes_pad [of ys] len by simp
    then show ?thesis using xs(2) ys by (simp add: der_uint_body_def)
  qed
qed

lemma asn1_uint64_loop_body:
  "CBS_is_unsigned_asn1_integer (der_uint_body v) \<and> asn1_uint64_loop 0 (der_uint_body v) = Some v"
proof -
  let ?xs = "0 # be_bytes 8 v" and ?b = "der_uint_body v"
  note sp = int_strip_split [of ?xs, folded der_uint_body_def]
  have b: "?b \<noteq> []" "int_strip ?b = ?b" by (simp_all add: der_uint_body_def)
  have h: "hd ?b AND 0x80 = 0" using sp by simp
  then have "sign_byte ?b = 0" by (simp add: sign_byte_def)
  with sp obtain n where n: "0 # be_bytes 8 v = replicate n 0 @ ?b" by auto
  have "asn1_uint64_loop 0 (replicate n 0 @ ?b) = asn1_uint64_loop 0 ?b"
    by (induction n) simp_all
  moreover have "asn1_uint64_loop 0 (be_bytes 8 v) = Some v"
    using asn1_uint64_loop_fits [of "be_bytes 8 v"] by (simp add: byte_simps)
  ultimately have "asn1_uint64_loop 0 ?b = Some v"
    using n [symmetric] by simp
  then show ?thesis
    using b h by (simp add: CBS_is_unsigned_asn1_integer_def CBS_is_valid_asn1_integer_alt)
qed

lemma CBS_get_asn1_uint64_iff:
  "CBS_get_asn1_uint64 s = (Some v, rest) \<longleftrightarrow> s = der_element CBS_ASN1_INTEGER (der_uint_body v) @ rest"
proof -
  have "CBS_get_asn1_uint64 s = (Some v, rest) \<longleftrightarrow>
      (\<exists>b. CBS_get_asn1 CBS_ASN1_INTEGER s = (Some b, rest) \<and> CBS_is_unsigned_asn1_integer b \<and>
           asn1_uint64_loop 0 b = Some v)"
    by (auto simp: CBS_get_asn1_uint64_def CBS_data_def split: prod.splits option.splits)
  also have "\<dots> \<longleftrightarrow> CBS_get_asn1 CBS_ASN1_INTEGER s = (Some (der_uint_body v), rest)"
    using asn1_uint64_loop_sound asn1_uint64_loop_body by blast
  finally show ?thesis using length_der_uint_body(1) [of v] by (simp add: CBS_get_asn1_iff)
qed

lemma CBS_get_asn1_int64_alt:
  "CBS_get_asn1_int64 s =
     (case CBS_get_asn1 CBS_ASN1_INTEGER s of
        (None, s') \<Rightarrow> (None, s')
      | (Some b, s') \<Rightarrow>
          if b \<noteq> [] \<and> int_strip b = b \<and> length b \<le> 8
          then (Some (sint (be_word (replicate (8 - length b) (sign_byte b) @ b))), s')
          else (None, s'))"
proof (cases "CBS_get_asn1 CBS_ASN1_INTEGER s")
  case (Pair r s')
  show ?thesis
  proof (cases r)
    case (Some b)
    then show ?thesis
      by (cases "b = [] \<or> int_strip b \<noteq> b"; cases "length b \<le> 8")
         (simp_all add: Pair CBS_get_asn1_int64_def CBS_len_def CBS_is_valid_asn1_integer_alt sign_byte_def)
  qed (simp add: Pair CBS_get_asn1_int64_def)
qed

lemma CBS_get_asn1_int64_iff:
  "CBS_get_asn1_int64 s = (Some n, rest) \<longleftrightarrow>
     (\<exists>v. n = sint v \<and> s = der_element CBS_ASN1_INTEGER (der_int_body v) @ rest)"
proof -
  let ?ext = "\<lambda>b. replicate (8 - length b) (sign_byte b) @ b"
  have "CBS_get_asn1_int64 s = (Some n, rest) \<longleftrightarrow>
      (\<exists>b. CBS_get_asn1 CBS_ASN1_INTEGER s = (Some b, rest) \<and> b \<noteq> [] \<and> int_strip b = b \<and>
           length b \<le> 8 \<and> n = sint (be_word (?ext b)))"
    by (simp only: CBS_get_asn1_int64_alt) (auto split: prod.splits option.splits if_splits)
  also have "\<dots> \<longleftrightarrow> (\<exists>v. n = sint v \<and> CBS_get_asn1 CBS_ASN1_INTEGER s = (Some (der_int_body v), rest))"
    (is "(\<exists>b. ?G b \<and> ?P b) \<longleftrightarrow> ?R")
  proof
    assume "\<exists>b. ?G b \<and> ?P b"
    then obtain b where g: "?G b" and b: "b \<noteq> []" "int_strip b = b" "length b \<le> 8"
      "n = sint (be_word (?ext b))" by auto
    have "be_bytes 8 (be_word (?ext b)) = ?ext b" using be_bytes_be_word [of "?ext b"] b(3) by simp
    then have "der_int_body (be_word (?ext b)) = b"
      using int_strip_extend [OF b(1), of "8 - length b"] b(2) by (simp only: der_int_body_def)
    with g b(4) show ?R by metis
  next
    assume ?R
    then obtain v where v: "n = sint v" "?G (der_int_body v)" by auto
    let ?b = "der_int_body v"
    have l: "length (be_bytes 8 v) = 8" "be_bytes 8 v \<noteq> []" by (simp_all flip: length_greater_0_conv)
    have "?ext ?b = be_bytes 8 v"
      using int_strip_split [OF l(2)] l(1) by (simp add: der_int_body_def)
    then have "be_word (?ext ?b) = v" by (simp add: byte_simps)
    moreover have "?b \<noteq> []" "int_strip ?b = ?b" using l(2) by (simp_all add: der_int_body_def)
    ultimately show "\<exists>b. ?G b \<and> ?P b" using v length_der_uint_body(2) [of v] by metis
  qed
  moreover have "length (der_int_body v) < 2 ^ 32" for v
    by (rule le_less_trans [OF length_der_uint_body(2)]) simp
  ultimately show ?thesis by (simp only: CBS_get_asn1_iff simp_thms)
qed

section \<open>Properties\<close>

text \<open>C6: The element reader accepts exactly one byte string for every tag and contents, the DER
  encoding with a minimal identifier and a minimal definite length, and returns the tag, the
  contents and the bytes that follow.  So no two inputs read as the same element.\<close>

theorem CBS_get_any_asn1_canonical:
  "CBS_get_any_asn1 s = (Some (body, tag), rest) \<longleftrightarrow>
     length body < 2 ^ 32 \<and> s = der_element tag body @ rest"
  by (rule CBS_get_any_asn1_iff)

text \<open>C18: The unsigned and the signed INTEGER reader accept exactly the minimal two's-complement
  encoding of each value; negative, padded and over-long contents are refused.\<close>

theorem CBS_get_asn1_integers_canonical:
  "(CBS_get_asn1_uint64 s = (Some v, rest) \<longleftrightarrow>
      s = der_element CBS_ASN1_INTEGER (der_uint_body v) @ rest) \<and>
   (CBS_get_asn1_int64 s = (Some i, rest) \<longleftrightarrow>
      (\<exists>w. i = sint w \<and> s = der_element CBS_ASN1_INTEGER (der_int_body w) @ rest))"
  using CBS_get_asn1_uint64_iff CBS_get_asn1_int64_iff by blast

text \<open>The base-128 reader accepts exactly the minimal base-128 encoding of each 64-bit
  number, and fails on overflow and on a leading zero digit.\<close>

theorem parse_base128_integer_canonical:
  "parse_base128_integer s = (Some w, rest) \<longleftrightarrow> s = base128_bytes (unat w) @ rest"
  by (rule parse_base128_integer_iff)

end
