(* ===== verification/CBB.thy ===== *)
theory CBB
  imports DER
begin

text \<open>
  The byte-string builder of \<open>crypto/bytestring/cbb.c\<close>.  A top-level \<open>CBB\<close> owns a buffer;
  each \<open>CBB\<close> has at most one open child, which shares the buffer and stands for a length
  prefix still to be written.  The open children therefore form a chain, and the model keeps
  the buffer and that chain: depth 0 is the top-level \<open>CBB\<close>, depth \<open>Suc i\<close> the
  \<open>i\<close>-th element of the chain.  The C functions take a \<open>CBB\<close> pointer; their models take
  the depth of that \<open>CBB\<close>.  A child whose \<open>base\<close> was set to NULL when its prefix was
  written is one whose depth lies beyond the chain.

  The buffer is the list of its \<open>len\<close> valid bytes.  Bytes that C reserves and lets the caller
  fill in are an argument of the model's operation.  \<open>bb_alloc\<close> says which sizes the
  allocator grants, so that failing to grow is a branch of the model.
\<close>

section \<open>The buffer\<close>

record cbb_buffer =
  bb_buf :: bytes
  bb_cap :: nat
  bb_can_resize :: bool
  bb_error :: bool
  bb_alloc :: allocator

record cbb_child =
  ch_offset :: nat
  ch_pending_len_len :: nat
  ch_pending_is_asn1 :: bool

record cbb =
  cbb_base :: "cbb_buffer option"
  cbb_children :: "cbb_child list"

type_synonym cbb_op = "cbb \<Rightarrow> bool \<times> cbb"

definition CBB_zero :: cbb where
  "CBB_zero = \<lparr>cbb_base = None, cbb_children = []\<rparr>"

abbreviation (input) sizeof_cbb_buffer :: nat where "sizeof_cbb_buffer \<equiv> 32"

definition cbb_init :: "allocator \<Rightarrow> nat \<Rightarrow> cbb_op" where
  "cbb_init al c cbb =
     (if \<not> OPENSSL_malloc al sizeof_cbb_buffer then (False, cbb)
      else (True, cbb\<lparr>cbb_base := Some \<lparr>bb_buf = [], bb_cap = c, bb_can_resize = True,
                                    bb_error = False, bb_alloc = al\<rparr>\<rparr>))"

definition CBB_init :: "allocator \<Rightarrow> nat \<Rightarrow> bool \<times> cbb" where
  "CBB_init al initial_capacity =
     (if initial_capacity > 0 \<and> \<not> OPENSSL_malloc al initial_capacity then (False, CBB_zero)
      else cbb_init al initial_capacity CBB_zero)"

definition CBB_init_fixed :: "allocator \<Rightarrow> nat \<Rightarrow> bool \<times> cbb" where
  "CBB_init_fixed al len =
     (case cbb_init al len CBB_zero of
        (False, cbb) \<Rightarrow> (False, cbb)
      | (True, cbb) \<Rightarrow>
          (True, cbb\<lparr>cbb_base := map_option (\<lambda>b. b\<lparr>bb_can_resize := False\<rparr>) (cbb_base cbb)\<rparr>))"

definition CBB_cleanup :: "cbb \<Rightarrow> cbb" where
  "CBB_cleanup cbb = cbb\<lparr>cbb_base := None\<rparr>"

text \<open>The callers have checked that \<open>base\<close> is not NULL.\<close>

definition cbb_buffer_reserve :: "nat \<Rightarrow> cbb_buffer \<Rightarrow> bool \<times> cbb_buffer" where
  "cbb_buffer_reserve len b =
     (let newlen = (length (bb_buf b) + len) mod SIZE_MODULUS
      in if newlen < length (bb_buf b) then (False, b\<lparr>bb_error := True\<rparr>)
         else if newlen > bb_cap b
         then if \<not> bb_can_resize b then (False, b\<lparr>bb_error := True\<rparr>)
              else let doubled = (bb_cap b * 2) mod SIZE_MODULUS;
                       newcap = (if doubled < bb_cap b \<or> doubled < newlen then newlen else doubled)
                   in if \<not> OPENSSL_malloc (bb_alloc b) newcap then (False, b\<lparr>bb_error := True\<rparr>)
                      else (True, b\<lparr>bb_cap := newcap\<rparr>)
         else (True, b))"

text \<open>\<open>cbb_buffer_add\<close> with the bytes its caller stores in the space it returns.\<close>

definition cbb_buffer_add :: "bytes \<Rightarrow> cbb_buffer \<Rightarrow> bool \<times> cbb_buffer" where
  "cbb_buffer_add d b =
     (case cbb_buffer_reserve (length d) b of
        (False, b') \<Rightarrow> (False, b')
      | (True, b') \<Rightarrow> (True, b'\<lparr>bb_buf := bb_buf b' @ d\<rparr>))"

text \<open>The loop that stores a number backwards: position \<open>off + i\<close> gets the low byte.\<close>

fun put_be :: "bytes \<Rightarrow> nat \<Rightarrow> nat \<Rightarrow> u64 \<Rightarrow> bytes \<times> u64" where
  "put_be xs off 0 v = (xs, v)"
| "put_be xs off (Suc i) v = put_be (xs[off + i := ucast v]) off i (drop_bit 8 v)"

definition cbb_buffer_add_u :: "u64 \<Rightarrow> nat \<Rightarrow> cbb_buffer \<Rightarrow> bool \<times> cbb_buffer" where
  "cbb_buffer_add_u v len_len b =
     (if len_len = 0 then (True, b)
      else case cbb_buffer_add (replicate len_len 0) b of
             (False, b') \<Rightarrow> (False, b')
           | (True, b') \<Rightarrow>
               (case put_be (bb_buf b') (length (bb_buf b)) len_len v of
                  (xs, v') \<Rightarrow>
                    if v' \<noteq> 0 then (False, b'\<lparr>bb_buf := xs, bb_error := True\<rparr>)
                    else (True, b'\<lparr>bb_buf := xs\<rparr>)))"

section \<open>Writing pending length prefixes\<close>

text \<open>The part of \<open>CBB_flush\<close> after its recursive call: the prefix of child \<open>c\<close>, whose
  contents start at \<open>child_start\<close>, is written.  \<open>None\<close> is the jump to \<open>err\<close>.\<close>

definition cbb_asn1_len_len :: "nat \<Rightarrow> nat \<times> byte \<times> nat" where
  "cbb_asn1_len_len len =
     (if len > 0xffffff then (5, 0x80 OR 4, len)
      else if len > 0xffff then (4, 0x80 OR 3, len)
      else if len > 0xff then (3, 0x80 OR 2, len)
      else if len > 0x7f then (2, 0x80 OR 1, len)
      else (1, of_nat len, 0))"

definition cbb_write_prefix :: "cbb_child \<Rightarrow> nat \<Rightarrow> cbb_buffer \<Rightarrow> bool \<times> cbb_buffer" where
  "cbb_write_prefix c child_start b =
     (let len = length (bb_buf b) - child_start;
          fill = (\<lambda>off n v b. case put_be (bb_buf b) off n (of_nat v) of
                    (xs, v') \<Rightarrow> if v' \<noteq> 0 then (False, b\<lparr>bb_buf := xs, bb_error := True\<rparr>)
                                else (True, b\<lparr>bb_buf := xs\<rparr>))
      in if ch_pending_is_asn1 c
         then if len > 0xfffffffe then (False, b\<lparr>bb_error := True\<rparr>)
              else (case cbb_asn1_len_len len of
                 (len_len, initial_length_byte, len') \<Rightarrow>
                   let extra_bytes = len_len - 1;
                       moved = (if len_len \<noteq> 1
                         then (case cbb_buffer_add (replicate extra_bytes 0) b of
                                 (False, b') \<Rightarrow> (False, b')
                               | (True, b') \<Rightarrow>
                                   (True, b'\<lparr>bb_buf := memmove (child_start + extra_bytes) child_start
                                                          len' (bb_buf b')\<rparr>))
                         else (True, b))
                   in (case moved of
                         (False, b') \<Rightarrow> (False, b'\<lparr>bb_error := True\<rparr>)
                       | (True, b') \<Rightarrow>
                           fill (ch_offset c + 1) (len_len - 1) len'
                             (b'\<lparr>bb_buf := (bb_buf b')[ch_offset c := initial_length_byte]\<rparr>)))
         else fill (ch_offset c) (ch_pending_len_len c) len b)"

text \<open>\<open>CBB_flush\<close> over the chain below a \<open>CBB\<close>: the recursive call handles the tail.  When
  the prefix has been written the child, and everything below it, is gone.\<close>

fun cbb_flush_chain :: "cbb_buffer \<Rightarrow> cbb_child list \<Rightarrow> bool \<times> cbb_buffer \<times> cbb_child list" where
  "cbb_flush_chain b [] = (if bb_error b then (False, b, []) else (True, b, []))"
| "cbb_flush_chain b (c # cs) =
     (if bb_error b then (False, b, c # cs)
      else if ch_pending_len_len c = 0 then (True, b, c # cs)
      else let child_start = (ch_offset c + ch_pending_len_len c) mod SIZE_MODULUS
           in case cbb_flush_chain b cs of
                (ok, b', cs') \<Rightarrow>
                  if \<not> ok \<or> child_start < ch_offset c \<or> length (bb_buf b') < child_start
                  then (False, b'\<lparr>bb_error := True\<rparr>, c # cs')
                  else (case cbb_write_prefix c child_start b' of
                          (False, b'') \<Rightarrow> (False, b''\<lparr>bb_error := True\<rparr>, c # cs')
                        | (True, b'') \<Rightarrow> (True, b'', [])))"

definition CBB_flush :: "nat \<Rightarrow> cbb_op" where
  "CBB_flush d cbb =
     (case cbb_base cbb of
        None \<Rightarrow> (False, cbb)
      | Some b \<Rightarrow>
          if d > length (cbb_children cbb) then (False, cbb)
          else (case cbb_flush_chain b (drop d (cbb_children cbb)) of
                  (ok, b', cs) \<Rightarrow>
                    (ok, \<lparr>cbb_base = Some b', cbb_children = take d (cbb_children cbb) @ cs\<rparr>)))"

text \<open>The finished contents, and the state after cleaning up; \<open>out_ok\<close> says that neither
  out pointer is NULL.\<close>

definition CBB_finish :: "bool \<Rightarrow> nat \<Rightarrow> cbb \<Rightarrow> bytes option \<times> cbb" where
  "CBB_finish out_ok d cbb =
     (if d \<noteq> 0 then (None, cbb)
      else case CBB_flush d cbb of
             (False, cbb') \<Rightarrow> (None, cbb')
           | (True, cbb') \<Rightarrow>
               (case cbb_base cbb' of
                  None \<Rightarrow> (None, cbb')
                | Some b \<Rightarrow>
                    if bb_can_resize b \<and> \<not> out_ok then (None, cbb')
                    else (Some (bb_buf b), CBB_cleanup cbb')))"

definition cbb_self :: "nat \<Rightarrow> cbb \<Rightarrow> nat" where
  "cbb_self d cbb =
     (case d of 0 \<Rightarrow> 0
      | Suc i \<Rightarrow> ch_offset (cbb_children cbb ! i) + ch_pending_len_len (cbb_children cbb ! i))"

definition CBB_data :: "nat \<Rightarrow> cbb \<Rightarrow> bytes" where
  "CBB_data d cbb =
     (case cbb_base cbb of None \<Rightarrow> [] | Some b \<Rightarrow> drop (cbb_self d cbb) (bb_buf b))"

definition CBB_len :: "nat \<Rightarrow> cbb \<Rightarrow> nat" where
  "CBB_len d cbb =
     (case cbb_base cbb of None \<Rightarrow> 0 | Some b \<Rightarrow> length (bb_buf b) - cbb_self d cbb)"

section \<open>Adding data\<close>

text \<open>C's \<open>&&\<close> chain of operations: stop at the first that fails.\<close>

fun cbb_seq :: "cbb_op list \<Rightarrow> cbb_op" where
  "cbb_seq [] cbb = (True, cbb)"
| "cbb_seq (f # fs) cbb = (case f cbb of (False, cbb') \<Rightarrow> (False, cbb') | (True, cbb') \<Rightarrow> cbb_seq fs cbb')"

definition on_base :: "(cbb_buffer \<Rightarrow> bool \<times> cbb_buffer) \<Rightarrow> cbb_op" where
  "on_base f cbb =
     (case cbb_base cbb of
        None \<Rightarrow> (False, cbb)
      | Some b \<Rightarrow> (case f b of (ok, b') \<Rightarrow> (ok, cbb\<lparr>cbb_base := Some b'\<rparr>)))"

text \<open>\<open>cbb->child = out_contents\<close>, with the prefix starting at \<open>offset\<close>.\<close>

definition open_child :: "nat \<Rightarrow> cbb_child \<Rightarrow> cbb_op" where
  "open_child d c cbb = (True, cbb\<lparr>cbb_children := take d (cbb_children cbb) @ [c]\<rparr>)"

definition base_len :: "cbb \<Rightarrow> nat" where
  "base_len cbb = (case cbb_base cbb of None \<Rightarrow> 0 | Some b \<Rightarrow> length (bb_buf b))"

definition cbb_add_length_prefixed :: "nat \<Rightarrow> nat \<Rightarrow> cbb_op" where
  "cbb_add_length_prefixed len_len d =
     cbb_seq
       [CBB_flush d,
        (\<lambda>cbb. let offset = base_len cbb
               in cbb_seq
                    [on_base (cbb_buffer_add (replicate len_len 0)),
                     open_child d \<lparr>ch_offset = offset, ch_pending_len_len = len_len,
                                   ch_pending_is_asn1 = False\<rparr>] cbb)]"

definition CBB_add_u8_length_prefixed :: "nat \<Rightarrow> cbb_op" where
  "CBB_add_u8_length_prefixed d = cbb_add_length_prefixed 1 d"

definition CBB_add_u16_length_prefixed :: "nat \<Rightarrow> cbb_op" where
  "CBB_add_u16_length_prefixed d = cbb_add_length_prefixed 2 d"

definition CBB_add_u24_length_prefixed :: "nat \<Rightarrow> cbb_op" where
  "CBB_add_u24_length_prefixed d = cbb_add_length_prefixed 3 d"

definition CBB_add_bytes :: "bytes \<Rightarrow> nat \<Rightarrow> cbb_op" where
  "CBB_add_bytes xs d = cbb_seq [CBB_flush d, on_base (cbb_buffer_add xs)]"

text \<open>\<open>CBB_add_space\<close> with the bytes its caller stores in the space.\<close>

definition CBB_add_space :: "bytes \<Rightarrow> nat \<Rightarrow> cbb_op" where
  "CBB_add_space xs d = cbb_seq [CBB_flush d, on_base (cbb_buffer_add xs)]"

definition CBB_add_zeros :: "nat \<Rightarrow> nat \<Rightarrow> cbb_op" where
  "CBB_add_zeros len d = CBB_add_space (replicate len 0) d"

definition CBB_reserve :: "nat \<Rightarrow> nat \<Rightarrow> cbb_op" where
  "CBB_reserve len d = cbb_seq [CBB_flush d, on_base (cbb_buffer_reserve len)]"

text \<open>\<open>CBB_did_write\<close> with the bytes the caller has stored in the reserved space.  It reads
  \<open>base\<close> without a check, so \<open>None\<close> is the dereference of a NULL \<open>base\<close>; and it does not look
  at the error flag.\<close>

definition CBB_did_write :: "bytes \<Rightarrow> nat \<Rightarrow> cbb \<Rightarrow> (bool \<times> cbb) option" where
  "CBB_did_write xs d cbb =
     (case cbb_base cbb of
        None \<Rightarrow> None
      | Some b \<Rightarrow>
          if d > length (cbb_children cbb) then None
          else let newlen = (length (bb_buf b) + length xs) mod SIZE_MODULUS
               in if d < length (cbb_children cbb) \<or> newlen < length (bb_buf b) \<or> newlen > bb_cap b
                  then Some (False, cbb)
                  else Some (True, cbb\<lparr>cbb_base := Some (b\<lparr>bb_buf := bb_buf b @ xs\<rparr>)\<rparr>))"

definition CBB_add_u8 :: "byte \<Rightarrow> nat \<Rightarrow> cbb_op" where
  "CBB_add_u8 value d = cbb_seq [CBB_flush d, on_base (cbb_buffer_add_u (ucast value) 1)]"

definition CBB_add_u16 :: "u16 \<Rightarrow> nat \<Rightarrow> cbb_op" where
  "CBB_add_u16 value d = cbb_seq [CBB_flush d, on_base (cbb_buffer_add_u (ucast value) 2)]"

definition CBB_add_u16le :: "u16 \<Rightarrow> nat \<Rightarrow> cbb_op" where
  "CBB_add_u16le value d = CBB_add_u16 (CRYPTO_bswap2 value) d"

definition CBB_add_u24 :: "u32 \<Rightarrow> nat \<Rightarrow> cbb_op" where
  "CBB_add_u24 value d = cbb_seq [CBB_flush d, on_base (cbb_buffer_add_u (ucast value) 3)]"

definition CBB_add_u32 :: "u32 \<Rightarrow> nat \<Rightarrow> cbb_op" where
  "CBB_add_u32 value d = cbb_seq [CBB_flush d, on_base (cbb_buffer_add_u (ucast value) 4)]"

definition CBB_add_u32le :: "u32 \<Rightarrow> nat \<Rightarrow> cbb_op" where
  "CBB_add_u32le value d = CBB_add_u32 (CRYPTO_bswap4 value) d"

definition CBB_add_u64 :: "u64 \<Rightarrow> nat \<Rightarrow> cbb_op" where
  "CBB_add_u64 value d = cbb_seq [CBB_flush d, on_base (cbb_buffer_add_u value 8)]"

definition CBB_add_u64le :: "u64 \<Rightarrow> nat \<Rightarrow> cbb_op" where
  "CBB_add_u64le value d = CBB_add_u64 (CRYPTO_bswap8 value) d"

text \<open>Rewinding to the child's offset; nothing happens without a child.\<close>

definition CBB_discard_child :: "nat \<Rightarrow> cbb \<Rightarrow> cbb" where
  "CBB_discard_child d cbb =
     (if d \<ge> length (cbb_children cbb) then cbb
      else \<lparr>cbb_base = map_option (\<lambda>b. b\<lparr>bb_buf := take (ch_offset (cbb_children cbb ! d)) (bb_buf b)\<rparr>)
                          (cbb_base cbb),
            cbb_children = take d (cbb_children cbb)\<rparr>)"

section \<open>Adding ASN.1 elements\<close>

lemma drop_bit_less: "(w :: u64) > 0 \<Longrightarrow> 0 < n \<Longrightarrow> unat (drop_bit n w) < unat w"
proof -
  assume "w > 0" "0 < n"
  then have "unat w div 2 ^ n < unat w" using one_less_power [of "2::nat" n] by (intro div_less_dividend) (auto simp: word_less_nat_alt)
  then show ?thesis by (simp only: unat_drop_bit_eq drop_bit_eq_div [where 'a = nat])
qed

function base128_len_loop :: "nat \<Rightarrow> u64 \<Rightarrow> nat" where
  "base128_len_loop len_len copy =
     (if copy > 0 then base128_len_loop (len_len + 1) (drop_bit 7 copy) else len_len)"
  by pat_completeness auto

termination by (relation "measure (\<lambda>(_, w). unat w)") (auto simp: drop_bit_less)

declare base128_len_loop.simps [simp del]

fun add_base128_loop :: "u64 \<Rightarrow> nat \<Rightarrow> nat \<Rightarrow> cbb_op" where
  "add_base128_loop v 0 d cbb = (True, cbb)"
| "add_base128_loop v (Suc i) d cbb =
     (let b = (ucast (drop_bit (7 * i) v) AND 0x7f :: byte);
          b' = (if i \<noteq> 0 then b OR 0x80 else b)
      in case CBB_add_u8 b' d cbb of
           (False, cbb') \<Rightarrow> (False, cbb')
         | (True, cbb') \<Rightarrow> add_base128_loop v i d cbb')"

definition add_base128_integer :: "u64 \<Rightarrow> nat \<Rightarrow> cbb_op" where
  "add_base128_integer v d =
     (let len_len = base128_len_loop 0 v
      in add_base128_loop v (if len_len = 0 then 1 else len_len) d)"

definition CBB_add_asn1 :: "u32 \<Rightarrow> nat \<Rightarrow> cbb_op" where
  "CBB_add_asn1 tag d =
     (let tag_bits = (ucast (drop_bit CBS_ASN1_TAG_SHIFT tag) AND 0xe0 :: byte);
          tag_number = tag AND CBS_ASN1_TAG_NUMBER_MASK
      in cbb_seq
           [CBB_flush d,
            (if tag_number \<ge> 0x1f
             then cbb_seq [CBB_add_u8 (tag_bits OR 0x1f) d, add_base128_integer (ucast tag_number) d]
             else CBB_add_u8 (tag_bits OR ucast tag_number) d),
            (\<lambda>cbb. let offset = base_len cbb
                   in cbb_seq
                        [CBB_add_u8 0 d,
                         open_child d \<lparr>ch_offset = offset, ch_pending_len_len = 1,
                                       ch_pending_is_asn1 = True\<rparr>] cbb)])"

text \<open>The loop over the eight bytes of the value, most significant first; \<open>Suc i\<close> rounds
  remain at the byte of weight \<open>256 ^ i\<close>.  The flag \<open>started\<close> comes back with the result.\<close>

fun asn1_put_uint64_loop :: "u64 \<Rightarrow> nat \<Rightarrow> bool \<Rightarrow> nat \<Rightarrow> cbb \<Rightarrow> bool \<times> bool \<times> cbb" where
  "asn1_put_uint64_loop value 0 started d cbb = (True, started, cbb)"
| "asn1_put_uint64_loop value (Suc i) started d cbb =
     (let b = (ucast (drop_bit (8 * i) value AND 0xff) :: byte)
      in if \<not> started \<and> b = 0 then asn1_put_uint64_loop value i started d cbb
         else case (if \<not> started \<and> b AND 0x80 \<noteq> 0 then CBB_add_u8 0 d cbb else (True, cbb)) of
                (False, cbb') \<Rightarrow> (False, True, cbb')
              | (True, cbb') \<Rightarrow>
                  (case CBB_add_u8 b d cbb' of
                     (False, cbb'') \<Rightarrow> (False, True, cbb'')
                   | (True, cbb'') \<Rightarrow> asn1_put_uint64_loop value i True d cbb''))"

definition CBB_add_asn1_uint64 :: "u64 \<Rightarrow> nat \<Rightarrow> cbb_op" where
  "CBB_add_asn1_uint64 value d =
     cbb_seq
       [CBB_add_asn1 CBS_ASN1_INTEGER d,
        (\<lambda>cbb. case asn1_put_uint64_loop value 8 False (d + 1) cbb of
                 (False, _, cbb') \<Rightarrow> (False, cbb')
               | (True, True, cbb') \<Rightarrow> (True, cbb')
               | (True, False, cbb') \<Rightarrow> CBB_add_u8 0 (d + 1) cbb'),
        CBB_flush d]"

text \<open>\<open>u_bytes\<close> is the union seen as bytes, on a little-endian machine.\<close>

fun int64_start_loop :: "bytes \<Rightarrow> nat \<Rightarrow> nat" where
  "int64_start_loop u_bytes 0 = 0"
| "int64_start_loop u_bytes (Suc n) =
     (if u_bytes ! Suc n = 0xff \<and> u_bytes ! n AND 0x80 \<noteq> 0 then int64_start_loop u_bytes n
      else Suc n)"

fun int64_bytes_loop :: "bytes \<Rightarrow> nat \<Rightarrow> nat \<Rightarrow> cbb_op" where
  "int64_bytes_loop u_bytes 0 d cbb = (True, cbb)"
| "int64_bytes_loop u_bytes (Suc i) d cbb =
     (case CBB_add_u8 (u_bytes ! i) d cbb of
        (False, cbb') \<Rightarrow> (False, cbb')
      | (True, cbb') \<Rightarrow> int64_bytes_loop u_bytes i d cbb')"

definition CBB_add_asn1_int64 :: "u64 \<Rightarrow> nat \<Rightarrow> cbb_op" where
  "CBB_add_asn1_int64 value d =
     (if sint value \<ge> 0 then CBB_add_asn1_uint64 value d
      else let u_bytes = rev (be_bytes 8 value);
               start = int64_start_loop u_bytes 7
           in cbb_seq
                [CBB_add_asn1 CBS_ASN1_INTEGER d,
                 int64_bytes_loop u_bytes (start + 1) (d + 1),
                 CBB_flush d])"

definition CBB_add_asn1_octet_string :: "bytes \<Rightarrow> nat \<Rightarrow> cbb_op" where
  "CBB_add_asn1_octet_string xs d =
     cbb_seq [CBB_add_asn1 CBS_ASN1_OCTETSTRING d, CBB_add_bytes xs (d + 1), CBB_flush d]"

definition CBB_add_asn1_bool :: "int \<Rightarrow> nat \<Rightarrow> cbb_op" where
  "CBB_add_asn1_bool value d =
     cbb_seq
       [CBB_add_asn1 CBS_ASN1_BOOLEAN d,
        CBB_add_u8 (if value \<noteq> 0 then 0xff else 0) (d + 1),
        CBB_flush d]"

section \<open>SET OF\<close>

definition compare_set_of_element :: "cbs \<Rightarrow> cbs \<Rightarrow> int" where
  "compare_set_of_element a b =
     (let a_len = CBS_len a; b_len = CBS_len b;
          min_len = (if a_len < b_len then a_len else b_len);
          ret = OPENSSL_memcmp (CBS_data a) (CBS_data b) min_len
      in if ret \<noteq> 0 then ret
         else if a_len = b_len then 0
         else if a_len < b_len then -1 else 1)"

text \<open>The loop that counts the elements; every element takes at least its identifier octet.\<close>

lemma CBS_get_any_asn1_element_shorter:
  "CBS_get_any_asn1_element s = (Some e, rest) \<Longrightarrow> length rest < length s"
  by (erule CBS_get_any_asn1_element_sound) (simp add: der_element_def der_tag_bytes_length)

function set_of_count :: "nat \<Rightarrow> cbs \<Rightarrow> nat option" where
  "set_of_count num_children s =
     (if CBS_len s \<noteq> 0
      then (case CBS_get_any_asn1_element s of
              (None, _) \<Rightarrow> None
            | (Some _, s') \<Rightarrow> set_of_count (num_children + 1) s')
      else Some num_children)"
  by pat_completeness auto
termination
  by (relation "measure (\<lambda>(_, s). length s)") (auto dest: CBS_get_any_asn1_element_shorter [OF sym])

declare set_of_count.simps [simp del]

fun set_of_children :: "nat \<Rightarrow> cbs \<Rightarrow> cbs list option" where
  "set_of_children 0 s = Some []"
| "set_of_children (Suc n) s =
     (case CBS_get_any_asn1_element s of
        (None, _) \<Rightarrow> None
      | (Some e, s') \<Rightarrow> map_option (Cons (el_out e)) (set_of_children n s'))"

definition cbb_rewind :: "nat \<Rightarrow> cbb \<Rightarrow> cbb" where
  "cbb_rewind d cbb =
     cbb\<lparr>cbb_base := map_option (\<lambda>b. b\<lparr>bb_buf := take (cbb_self d cbb) (bb_buf b)\<rparr>) (cbb_base cbb)\<rparr>"

abbreviation (input) sizeof_CBS :: nat where "sizeof_CBS \<equiv> 16"

definition cbb_alloc :: "cbb \<Rightarrow> allocator" where
  "cbb_alloc cbb = (case cbb_base cbb of None \<Rightarrow> (\<lambda>_. False) | Some b \<Rightarrow> bb_alloc b)"

definition CBB_flush_asn1_set_of :: "nat \<Rightarrow> cbb_op" where
  "CBB_flush_asn1_set_of d cbb =
     (case CBB_flush d cbb of
        (False, cbb') \<Rightarrow> (False, cbb')
      | (True, cbb') \<Rightarrow>
          (case set_of_count 0 (CBS_init (CBB_data d cbb') (CBB_len d cbb')) of
             None \<Rightarrow> (False, cbb')
           | Some num_children \<Rightarrow>
               if num_children < 2 then (True, cbb')
               else if num_children > (SIZE_MODULUS - 1) div sizeof_CBS then (False, cbb')
               else (case OPENSSL_memdup (cbb_alloc cbb') (CBB_data d cbb') (CBB_len d cbb') of
                       None \<Rightarrow> (False, cbb')
                     | Some buf \<Rightarrow>
                         if \<not> OPENSSL_malloc (cbb_alloc cbb') (num_children * sizeof_CBS)
                         then (False, cbb')
                         else (case set_of_children num_children (CBS_init buf (CBB_len d cbb')) of
                                 None \<Rightarrow> (False, cbb')
                               | Some children \<Rightarrow>
                                   cbb_seq (map (\<lambda>c. CBB_add_bytes (CBS_data c) d)
                                                (qsort compare_set_of_element children))
                                     (cbb_rewind d cbb')))))"

end
