(* ===== verification/CBB_Spec.thy ===== *)
theory CBB_Spec
  imports CBB
begin

text \<open>
  What the builder promises, on a model that has no buffer: a builder under construction is a
  list of frames, one for the top-level \<open>CBB\<close> and one for each open child, each with the
  kind of its length prefix and the contents written to it so far.  Closing a frame puts the
  prefix before its contents and appends both to the frame above.  Each operation of
  \<open>CBB\<close> is shown to implement one on frames, whatever the allocator does: it either does
  what the frames say or fails and leaves the builder failed for good, and it may fail only when
  the buffer cannot grow or a length does not fit its prefix.
\<close>

section \<open>Storing numbers\<close>

lemma put_be_eq:
  "off + n \<le> length xs \<Longrightarrow>
   put_be xs off n v = (take off xs @ be_bytes n v @ drop (off + n) xs, drop_bit (8 * n) v)"
proof (induction n arbitrary: xs v)
  case (Suc n)
  have "drop_bit (8 * n) (drop_bit 8 v) = drop_bit (8 * Suc n) v"
    by (simp add: drop_bit_drop_bit add.commute)
  moreover have "drop (off + n) (xs[off + n := ucast v]) = ucast v # drop (off + Suc n) xs"
    using Suc.prems by (simp add: drop_update_swap Cons_nth_drop_Suc [symmetric])
  ultimately show ?case using Suc.prems by (simp add: Suc.IH)
qed simp

lemma put_be_append:
  "length ys = n \<Longrightarrow> put_be (xs @ ys @ zs) (length xs) n v = (xs @ be_bytes n v @ zs, drop_bit (8 * n) v)"
  by (simp add: put_be_eq)

lemma drop_bit_of_nat_0:
  "n < 2 ^ 64 \<Longrightarrow> drop_bit k (of_nat n :: u64) = 0 \<longleftrightarrow> n < 2 ^ k"
  by (simp add: drop_bit_0_iff unat_of_nat_u64)

section \<open>Growing the buffer\<close>

text \<open>The buffer can reach \<open>n\<close> bytes: it has the room, or it may grow and the allocator
  grants every request below half the address space.\<close>

definition grows :: "cbb_buffer \<Rightarrow> nat \<Rightarrow> bool" where
  "grows b n \<longleftrightarrow>
     n \<le> bb_cap b \<or> n < 2 ^ 62 \<and> bb_can_resize b \<and> (\<forall>m < 2 ^ 63. bb_alloc b (m + 8))"

text \<open>A buffer whose contents fit its capacity.\<close>

definition buffer_ok :: "cbb_buffer \<Rightarrow> bool" where
  "buffer_ok b \<longleftrightarrow> \<not> bb_error b \<and> length (bb_buf b) \<le> bb_cap b \<and> bb_cap b < SIZE_MODULUS"

text \<open>Two states of one buffer: only a resizable one changes its capacity.\<close>

definition evolves :: "cbb_buffer \<Rightarrow> cbb_buffer \<Rightarrow> bool" where
  "evolves b b' \<longleftrightarrow>
     bb_can_resize b' = bb_can_resize b \<and> bb_alloc b' = bb_alloc b \<and> bb_cap b \<le> bb_cap b' \<and>
     (\<not> bb_can_resize b \<longrightarrow> bb_cap b' = bb_cap b)"

text \<open>An operation on the buffer leaves \<open>xs\<close> in it, or it fails for want of room.\<close>

definition yields :: "cbb_buffer \<Rightarrow> bytes \<Rightarrow> bool \<times> cbb_buffer \<Rightarrow> bool" where
  "yields b xs r \<longleftrightarrow>
     (case r of
        (True, b') \<Rightarrow> evolves b b' \<and> buffer_ok b' \<and> bb_buf b' = xs
      | (False, b') \<Rightarrow> bb_error b' \<and> \<not> grows b (length xs))"

lemma grows_mono: "grows b n \<Longrightarrow> m \<le> n \<Longrightarrow> grows b m"
  by (auto simp: grows_def)

lemma evolves_grows: "evolves b b' \<Longrightarrow> grows b n \<Longrightarrow> grows b' n"
  by (auto simp: grows_def evolves_def)

lemma evolves_refl [simp]: "evolves b b"
  by (simp add: evolves_def)

lemma evolves_trans: "evolves b b' \<Longrightarrow> evolves b' b'' \<Longrightarrow> evolves b b''"
  by (auto simp: evolves_def)

lemma evolves_upd [simp]:
  "evolves b (b'\<lparr>bb_buf := xs\<rparr>) = evolves b b'" "evolves b (b'\<lparr>bb_error := e\<rparr>) = evolves b b'"
  by (auto simp: evolves_def)

lemma yieldsE:
  assumes "yields b xs r"
  obtains (ok) b' where "r = (True, b')" "evolves b b'" "buffer_ok b'" "bb_buf b' = xs"
  | (fail) b' where "r = (False, b')" "bb_error b'" "\<not> grows b (length xs)"
  using assms that by (cases r) (auto simp: yields_def split: bool.splits)

lemma cbb_buffer_reserve_yields:
  assumes "buffer_ok b" "n < SIZE_MODULUS"
  shows "(\<exists>c. cbb_buffer_reserve n b = (True, b\<lparr>bb_cap := c\<rparr>) \<and> evolves b (b\<lparr>bb_cap := c\<rparr>) \<and>
              length (bb_buf b) + n \<le> c \<and> c < SIZE_MODULUS) \<or>
         cbb_buffer_reserve n b = (False, b\<lparr>bb_error := True\<rparr>) \<and> \<not> grows b (length (bb_buf b) + n)"
    (is "?ok \<or> ?fail")
proof -
  let ?L = "length (bb_buf b)" and ?c = "bb_cap b"
  let ?new = "(?L + n) mod SIZE_MODULUS"
  have L: "?L \<le> ?c" "?c < SIZE_MODULUS" using assms(1) by (auto simp: buffer_ok_def)
  consider (overflow) "SIZE_MODULUS \<le> ?L + n" | (room) "?L + n \<le> ?c"
    | (grow) "?c < ?L + n" "?L + n < SIZE_MODULUS" by linarith
  then show ?thesis
  proof cases
    case overflow
    have "?new = ?L + n - SIZE_MODULUS" using overflow L assms(2) by (simp add: le_mod_geq)
    then have "?new < ?L" using overflow L assms(2) by simp
    moreover have "\<not> grows b (?L + n)" using overflow L by (simp add: grows_def)
    ultimately show ?thesis by (intro disjI2) (simp add: cbb_buffer_reserve_def)
  next
    case room
    then show ?thesis using L
      by (intro disjI1 exI [of _ ?c]) (simp add: cbb_buffer_reserve_def)
  next
    case grow
    define d where "d = (?c * 2) mod SIZE_MODULUS"
    define c where "c = (if d < ?c \<or> d < ?L + n then ?L + n else d)"
    have new: "?new = ?L + n" using grow by simp
    have c: "?L + n \<le> c" "c < SIZE_MODULUS" "?c \<le> c" using grow by (auto simp: c_def d_def)
    have r: "cbb_buffer_reserve n b =
      (if \<not> bb_can_resize b then (False, b\<lparr>bb_error := True\<rparr>)
       else if \<not> OPENSSL_malloc (bb_alloc b) c then (False, b\<lparr>bb_error := True\<rparr>)
       else (True, b\<lparr>bb_cap := c\<rparr>))"
      using grow L new by (simp add: cbb_buffer_reserve_def c_def d_def Let_def)
    show ?thesis
    proof (cases "bb_can_resize b \<and> OPENSSL_malloc (bb_alloc b) c")
      case True
      then show ?thesis using r c by (intro disjI1 exI [of _ c]) (simp add: evolves_def)
    next
      case False
      have "\<not> grows b (?L + n)"
      proof
        assume g: "grows b (?L + n)"
        then have m: "?L + n < 2 ^ 62" "bb_can_resize b" "\<forall>m < 2 ^ 63. bb_alloc b (m + 8)"
          using grow by (auto simp: grows_def)
        have "d = ?c * 2" using grow m by (simp add: d_def)
        then have "c < 2 ^ 63" using m grow by (simp add: c_def)
        then have "OPENSSL_malloc (bb_alloc b) c" using m by (simp add: OPENSSL_malloc_def)
        with False m show False by simp
      qed
      then show ?thesis using r False by (intro disjI2) auto
    qed
  qed
qed

lemma cbb_buffer_add_yields:
  "buffer_ok b \<Longrightarrow> length xs < SIZE_MODULUS \<Longrightarrow> yields b (bb_buf b @ xs) (cbb_buffer_add xs b)"
  using cbb_buffer_reserve_yields [of b "length xs"]
  by (auto simp: cbb_buffer_add_def yields_def buffer_ok_def)

lemma cbb_buffer_add_u_eq:
  assumes "buffer_ok b" "0 < k" "k \<le> 8"
  shows "yields b (bb_buf b @ be_bytes k v) (cbb_buffer_add_u v k b) \<and> drop_bit (8 * k) v = 0 \<or>
         \<not> fst (cbb_buffer_add_u v k b) \<and> bb_error (snd (cbb_buffer_add_u v k b)) \<and>
           (drop_bit (8 * k) v \<noteq> 0 \<or> \<not> grows b (length (bb_buf b) + k))"
proof -
  let ?z = "replicate k (0 :: byte)"
  have z: "length ?z < SIZE_MODULUS" using assms(3) by simp
  have p: "put_be (bb_buf b @ ?z) (length (bb_buf b)) k v =
      (bb_buf b @ be_bytes k v, drop_bit (8 * k) v)"
    using put_be_append [of ?z k "bb_buf b" "[]" v] by simp
  show ?thesis
    using cbb_buffer_add_yields [OF assms(1) z] assms(2) p
    by (cases rule: yieldsE) (auto simp: cbb_buffer_add_u_def yields_def buffer_ok_def)
qed

lemma cbb_buffer_add_u_yields:
  "buffer_ok b \<Longrightarrow> 0 < k \<Longrightarrow> k \<le> 8 \<Longrightarrow> drop_bit (8 * k) v = 0 \<Longrightarrow>
   yields b (bb_buf b @ be_bytes k v) (cbb_buffer_add_u v k b)"
  using cbb_buffer_add_u_eq [of b k v] by (cases "cbb_buffer_add_u v k b") (auto simp: yields_def)

lemma cbb_buffer_add_u_too_big:
  "buffer_ok b \<Longrightarrow> 0 < k \<Longrightarrow> k \<le> 8 \<Longrightarrow> drop_bit (8 * k) v \<noteq> 0 \<Longrightarrow>
   \<exists>b'. cbb_buffer_add_u v k b = (False, b') \<and> bb_error b'"
  using cbb_buffer_add_u_eq [of b k v] by (cases "cbb_buffer_add_u v k b") auto

section \<open>Frames\<close>

datatype prefix = Fixed nat | Asn1

type_synonym frame = "prefix \<times> bytes"

fun prefix_len :: "prefix \<Rightarrow> nat" where
  "prefix_len (Fixed k) = k"
| "prefix_len Asn1 = 1"

fun encode_prefix :: "prefix \<Rightarrow> nat \<Rightarrow> bytes option" where
  "encode_prefix (Fixed k) n = (if n < 256 ^ k then Some (be_bytes k (of_nat n)) else None)"
| "encode_prefix Asn1 n = (if n \<le> 0xfffffffe then Some (der_len_bytes n) else None)"

definition close_frame :: "frame \<Rightarrow> bytes \<Rightarrow> bytes option" where
  "close_frame f ys =
     (case encode_prefix (fst f) (length (snd f @ ys)) of
        None \<Rightarrow> None | Some p \<Rightarrow> Some (p @ snd f @ ys))"

text \<open>What closing all open frames appends to the frame above them.\<close>

fun collapse :: "frame list \<Rightarrow> bytes option" where
  "collapse [] = Some []"
| "collapse (f # fs) = (case collapse fs of None \<Rightarrow> None | Some ys \<Rightarrow> close_frame f ys)"

text \<open>The buffer while the frames are open: zero bytes stand for the prefixes to come.\<close>

definition frame_layout :: "frame \<Rightarrow> bytes" where
  "frame_layout f = replicate (prefix_len (fst f)) 0 @ snd f"

definition layout :: "frame list \<Rightarrow> bytes" where
  "layout fs = concat (map frame_layout fs)"

fun chain :: "nat \<Rightarrow> frame list \<Rightarrow> cbb_child list" where
  "chain off [] = []"
| "chain off (f # fs) =
     \<lparr>ch_offset = off, ch_pending_len_len = prefix_len (fst f), ch_pending_is_asn1 = (fst f = Asn1)\<rparr>
     # chain (off + length (frame_layout f)) fs"

definition child_prefix_ok :: "frame \<Rightarrow> bool" where
  "child_prefix_ok f \<longleftrightarrow> 1 \<le> prefix_len (fst f) \<and> prefix_len (fst f) \<le> 7"

text \<open>The builder \<open>st\<close> has exactly the frames \<open>fs\<close> open; the top-level frame comes
  first and has no prefix.\<close>

definition holds :: "frame list \<Rightarrow> cbb \<Rightarrow> bool" where
  "holds fs st \<longleftrightarrow>
     (case cbb_base st of
        None \<Rightarrow> False
      | Some b \<Rightarrow>
          fs \<noteq> [] \<and> fst (hd fs) = Fixed 0 \<and> list_all child_prefix_ok (tl fs) \<and>
          bb_buf b = layout fs \<and> buffer_ok b \<and> cbb_children st = tl (chain 0 fs))"

definition can_grow :: "cbb \<Rightarrow> nat \<Rightarrow> bool" where
  "can_grow st n \<longleftrightarrow> (case cbb_base st of None \<Rightarrow> False | Some b \<Rightarrow> grows b n)"

definition cbb_failed :: "cbb \<Rightarrow> bool" where
  "cbb_failed st \<longleftrightarrow> (case cbb_base st of None \<Rightarrow> True | Some b \<Rightarrow> bb_error b)"

definition cbb_evolves :: "cbb \<Rightarrow> cbb \<Rightarrow> bool" where
  "cbb_evolves st st' \<longleftrightarrow>
     (case (cbb_base st, cbb_base st') of (Some b, Some b') \<Rightarrow> evolves b b' | _ \<Rightarrow> False)"

text \<open>Run \<open>f\<close> in the state \<open>st\<close>: if it succeeds, the open frames are \<open>fs\<close>; if it fails,
  the builder has failed, and could not have grown to \<open>n\<close> bytes.\<close>

definition produces :: "cbb_op \<Rightarrow> cbb \<Rightarrow> nat \<Rightarrow> frame list \<Rightarrow> bool" where
  "produces f st n fs \<longleftrightarrow>
     (case f st of
        (True, st') \<Rightarrow> holds fs st' \<and> cbb_evolves st st'
      | (False, st') \<Rightarrow> cbb_failed st' \<and> \<not> can_grow st n)"

lemma layout_simps [simp]:
  "layout [] = []"
  "layout (f # fs) = replicate (prefix_len (fst f)) 0 @ snd f @ layout fs"
  "layout (fs @ gs) = layout fs @ layout gs"
  by (simp_all add: layout_def frame_layout_def)

lemma length_frame_layout [simp]: "length (frame_layout f) = prefix_len (fst f) + length (snd f)"
  by (simp add: frame_layout_def)

lemma length_chain [simp]: "length (chain off fs) = length fs"
  by (induction fs arbitrary: off) auto

lemma chain_append: "chain off (fs @ gs) = chain off fs @ chain (off + length (layout fs)) gs"
  by (induction fs arbitrary: off) (auto simp: add.assoc)

lemma pow_256: "(256 :: nat) ^ k = 2 ^ (8 * k)"
  by (simp add: power_mult)

lemma cbb_asn1_len_len_eq:
  assumes "n \<le> 0xfffffffe"
  obtains (short) "n < 128" "cbb_asn1_len_len n = (1, of_nat n, 0)" "der_len_bytes n = [of_nat n]"
  | (long) "128 \<le> n" "cbb_asn1_len_len n = (1 + der_len_len n, of_nat (128 + der_len_len n), n)"
      "der_len_bytes n = of_nat (128 + der_len_len n) # be_bytes (der_len_len n) (of_nat n)"
proof -
  have "0x80 OR 1 = (129 :: byte)" "0x80 OR 2 = (130 :: byte)" "0x80 OR 3 = (131 :: byte)"
    "0x80 OR 4 = (132 :: byte)" by simp_all
  then show thesis
    using assms that by (cases "n < 128") (auto simp: cbb_asn1_len_len_def der_len_bytes_def der_len_len_def)
qed

text \<open>Writing the prefix of one frame whose contents reach to the end of the buffer.\<close>

lemma memmove_append:
  "length ys = n \<Longrightarrow> length zs = k \<Longrightarrow>
   memmove (length xs + k) (length xs) n (xs @ ys @ zs) = xs @ take k (ys @ zs) @ ys"
  by (simp add: memmove_def)

lemma cbb_write_prefix_yields:
  assumes "encode_prefix p (length ys) = Some pre" "child_prefix_ok (p, ys)"
    and "c = \<lparr>ch_offset = length H, ch_pending_len_len = prefix_len p, ch_pending_is_asn1 = (p = Asn1)\<rparr>"
    and b: "bb_buf b = H @ replicate (prefix_len p) 0 @ ys" "buffer_ok b"
  shows "yields b (H @ pre @ ys) (cbb_write_prefix c (length H + prefix_len p) b)"
proof (cases p)
  case (Fixed k)
  have ys: "length ys < 2 ^ (8 * k)" "pre = be_bytes k (of_nat (length ys))"
    using assms(1) by (auto simp: Fixed pow_256 split: if_splits)
  have "length ys < 2 ^ 64" using b by (simp add: buffer_ok_def)
  then have d: "drop_bit (8 * k) (of_nat (length ys) :: u64) = 0"
    using ys by (simp add: drop_bit_of_nat_0)
  have put: "put_be (H @ replicate k 0 @ ys) (length H) k (of_nat (length ys)) = (H @ pre @ ys, 0)"
    using put_be_append [of "replicate k 0" k H ys "of_nat (length ys)"] d ys(2) by simp
  have "cbb_write_prefix c (length H + prefix_len p) b = (True, b\<lparr>bb_buf := H @ pre @ ys\<rparr>)"
    by (simp add: cbb_write_prefix_def assms(3) Fixed b put)
  then show ?thesis using b by (simp add: yields_def buffer_ok_def Fixed ys(2))
next
  case Asn1
  have n: "length ys \<le> 0xfffffffe" "pre = der_len_bytes (length ys)"
    using assms(1) by (auto simp: Asn1 split: if_splits)
  have L: "bb_buf b = H @ 0 # ys" using b by (simp add: Asn1)
  show ?thesis
    using n(1)
  proof (cases rule: cbb_asn1_len_len_eq)
    case short
    have "cbb_write_prefix c (length H + prefix_len p) b = (True, b\<lparr>bb_buf := H @ pre @ ys\<rparr>)"
      using n by (simp add: cbb_write_prefix_def assms(3) Asn1 short L n(2))
    then show ?thesis using b by (simp add: yields_def buffer_ok_def Asn1 short n)
  next
    case long
    let ?k = "der_len_len (length ys)" and ?lb = "of_nat (128 + der_len_len (length ys)) :: byte"
    have lb: "length (bb_buf b) - Suc (length H) = length ys" by (simp add: L)
    note k = der_len_len_bounds [of "length ys"]
    have k4: "1 \<le> ?k" "?k \<le> 4" "length ys < 2 ^ (8 * ?k)" using k n(1) by auto
    have d: "drop_bit (8 * ?k) (of_nat (length ys) :: u64) = 0"
      using k4(3) n(1) by (simp add: drop_bit_of_nat_0)
    have z: "length (replicate ?k (0::byte)) < SIZE_MODULUS" using k4 by simp
    show ?thesis
      using cbb_buffer_add_yields [OF b(2) z]
    proof (cases rule: yieldsE)
      case (ok b')
      have mv: "memmove (length H + 1 + ?k) (length H + 1) (length ys) (bb_buf b @ replicate ?k 0) =
          (H @ [0]) @ take ?k (ys @ replicate ?k 0) @ ys"
        using memmove_append [of ys "length ys" "replicate ?k 0" ?k "H @ [0]"] by (simp add: L)
      have put: "put_be ((H @ [?lb]) @ take ?k (ys @ replicate ?k 0) @ ys) (length (H @ [?lb])) ?k
           (of_nat (length ys)) = ((H @ [?lb]) @ be_bytes ?k (of_nat (length ys)) @ ys, 0)"
        by (subst put_be_append) (auto simp: d)
      have "cbb_write_prefix c (length H + prefix_len p) b = (True, b'\<lparr>bb_buf := H @ pre @ ys\<rparr>)"
        using n(1) k4(1) put mv
        by (simp add: cbb_write_prefix_def assms(3) Asn1 lb long(2) Let_def ok n(2) long(3))
      then show ?thesis using ok b(2) by (simp add: yields_def buffer_ok_def n(2) long(3) L)
    next
      case (fail b')
      have "cbb_write_prefix c (length H + prefix_len p) b = (False, b'\<lparr>bb_error := True\<rparr>)"
        using n(1) k4(1) by (simp add: cbb_write_prefix_def assms(3) Asn1 lb long(2) fail)
      moreover have "length (H @ pre @ ys) = length (bb_buf b) + ?k" by (simp add: L n(2) long(3))
      ultimately show ?thesis using fail by (simp add: yields_def)
    qed
  qed
qed

lemma encode_prefix_length: "encode_prefix p n = Some pre \<Longrightarrow> prefix_len p \<le> length pre"
  by (cases p) (auto simp: der_len_bytes_def split: if_splits)

lemma cbb_write_prefix_too_long:
  assumes "encode_prefix p (length ys) = None"
    and "c = \<lparr>ch_offset = length H, ch_pending_len_len = prefix_len p, ch_pending_is_asn1 = (p = Asn1)\<rparr>"
    and b: "bb_buf b = H @ replicate (prefix_len p) 0 @ ys" "buffer_ok b"
  shows "fst (cbb_write_prefix c (length H + prefix_len p) b) = False"
proof (cases p)
  case (Fixed k)
  have ys: "\<not> length ys < 2 ^ (8 * k)" using assms(1) by (auto simp: Fixed pow_256 split: if_splits)
  have "length ys < 2 ^ 64" using b by (simp add: buffer_ok_def)
  then have d: "drop_bit (8 * k) (of_nat (length ys) :: u64) \<noteq> 0"
    using ys by (simp add: drop_bit_of_nat_0)
  have "put_be (H @ replicate k 0 @ ys) (length H) k (of_nat (length ys)) =
      (H @ be_bytes k (of_nat (length ys)) @ ys, drop_bit (8 * k) (of_nat (length ys)))"
    using put_be_append [of "replicate k 0" k H ys "of_nat (length ys)"] by simp
  then show ?thesis using d by (simp add: cbb_write_prefix_def assms(2) Fixed b)
next
  case Asn1
  then show ?thesis using assms(1) by (simp add: cbb_write_prefix_def assms(2) b split: if_splits)
qed

definition flushed :: "cbb_buffer \<Rightarrow> bytes \<Rightarrow> bool \<times> cbb_buffer \<times> cbb_child list \<Rightarrow> bool" where
  "flushed b xs r \<longleftrightarrow>
     (case r of (ok, b', cs) \<Rightarrow> yields b xs (ok, b') \<and> (ok \<longrightarrow> cs = []))"

lemma flushedE:
  assumes "flushed b xs r"
  obtains (ok) b' where "r = (True, b', [])" "evolves b b'" "buffer_ok b'" "bb_buf b' = xs"
  | (fail) b' cs where "r = (False, b', cs)" "bb_error b'" "\<not> grows b (length xs)"
  using assms that by (cases r) (auto simp: flushed_def yields_def split: bool.splits)

lemma cbb_flush_chain_flushed:
  assumes "collapse fs = Some ys" "list_all child_prefix_ok fs"
    and "bb_buf b = H @ layout fs" "buffer_ok b"
  shows "flushed b (H @ ys) (cbb_flush_chain b (chain (length H) fs))"
  using assms
proof (induction fs arbitrary: H b ys)
  case Nil
  then show ?case by (auto simp: flushed_def yields_def buffer_ok_def)
next
  case (Cons f fs)
  obtain p xs where f: "f = (p, xs)" by (cases f)
  from Cons.prems(1) obtain zs pre where zs: "collapse fs = Some zs"
      "encode_prefix p (length (xs @ zs)) = Some pre" "ys = pre @ xs @ zs"
    by (auto simp: f close_frame_def split: option.splits)
  let ?H = "H @ replicate (prefix_len p) 0 @ xs"
  let ?c = "\<lparr>ch_offset = length H, ch_pending_len_len = prefix_len p, ch_pending_is_asn1 = (p = Asn1)\<rparr>"
  have err: "\<not> bb_error b" and len: "length (H @ layout (f # fs)) < 2 ^ 64"
    using Cons.prems(3,4) by (auto simp: buffer_ok_def)
  have pl: "prefix_len p \<noteq> 0" and ok: "child_prefix_ok (p, xs @ zs)"
    using Cons.prems(2) by (auto simp: f child_prefix_ok_def)
  have start: "(length H + prefix_len p) mod SIZE_MODULUS = length H + prefix_len p"
    using len by (simp add: f)
  have plen: "prefix_len p \<le> length pre" by (rule encode_prefix_length [OF zs(2)])
  define G where "G = length ?H"
  have off: "length H + length (frame_layout f) = G" by (simp add: f G_def)
  have IH: "flushed b (?H @ zs) (cbb_flush_chain b (chain G fs))"
    using Cons.prems(2-4) zs(1) unfolding G_def by (intro Cons.IH) (auto simp: f)
  from IH show ?case
  proof (cases rule: flushedE)
    case (ok b')
    have step: "cbb_flush_chain b (chain (length H) (f # fs)) =
       (case cbb_write_prefix ?c (length H + prefix_len p) b' of
          (False, b'') \<Rightarrow> (False, b''\<lparr>bb_error := True\<rparr>, [?c])
        | (True, b'') \<Rightarrow> (True, b'', []))"
      using err pl start ok unfolding chain.simps off
      by (simp add: f Let_def split: bool.split)
    have wp: "bb_buf b' = H @ replicate (prefix_len p) 0 @ xs @ zs" using ok by simp
    show ?thesis
      using cbb_write_prefix_yields [OF zs(2) \<open>child_prefix_ok (p, xs @ zs)\<close> refl wp ok(3)]
    proof (cases rule: yieldsE)
      case (ok b'')
      then show ?thesis using step evolves_trans [OF \<open>evolves b b'\<close>]
        by (simp add: flushed_def yields_def zs)
    next
      case (fail b'')
      then show ?thesis using step evolves_grows [OF \<open>evolves b b'\<close>]
        by (auto simp: flushed_def yields_def zs)
    qed
  next
    case (fail b' cs)
    have "cbb_flush_chain b (chain (length H) (f # fs)) = (False, b'\<lparr>bb_error := True\<rparr>, ?c # cs)"
      using err pl start fail unfolding chain.simps off by (simp add: f Let_def split: bool.split)
    moreover have "\<not> grows b (length (H @ ys))"
      using fail(3) plen grows_mono [of b "length (H @ ys)"] by (auto simp: zs(3))
    ultimately show ?thesis by (simp add: flushed_def yields_def)
  qed
qed

lemma cbb_flush_chain_too_long:
  assumes "collapse fs = None" "list_all child_prefix_ok fs"
    and "bb_buf b = H @ layout fs" "buffer_ok b"
  shows "\<exists>b' cs. cbb_flush_chain b (chain (length H) fs) = (False, b', cs) \<and> bb_error b'"
  using assms
proof (induction fs arbitrary: H b)
  case (Cons f fs)
  obtain p xs where f: "f = (p, xs)" by (cases f)
  let ?H = "H @ replicate (prefix_len p) 0 @ xs" and ?c = "\<lparr>ch_offset = length H, ch_pending_len_len = prefix_len p, ch_pending_is_asn1 = (p = Asn1)\<rparr>"
  have err: "\<not> bb_error b" and len: "length (H @ layout (f # fs)) < 2 ^ 64"
    using Cons.prems(3,4) by (auto simp: buffer_ok_def)
  have pl: "prefix_len p \<noteq> 0"
    using Cons.prems(2) by (auto simp: f child_prefix_ok_def)
  have start: "(length H + prefix_len p) mod SIZE_MODULUS = length H + prefix_len p"
    using len by (simp add: f)
  define G where "G = length ?H"
  have off: "length H + length (frame_layout f) = G" by (simp add: f G_def)
  have failed: "\<exists>b' cs. cbb_flush_chain b (chain (length H) (f # fs)) = (False, b', cs) \<and> bb_error b'"
    if "cbb_flush_chain b (chain G fs) = (False, b', cs)" for b' cs
    using err pl start that unfolding chain.simps off by (simp add: f Let_def split: bool.split)
  show ?case
  proof (cases "collapse fs")
    case None
    have "\<exists>b' cs. cbb_flush_chain b (chain G fs) = (False, b', cs) \<and> bb_error b'"
      using Cons.prems(2-4) None unfolding G_def by (intro Cons.IH) (auto simp: f)
    with failed show ?thesis by blast
  next
    case (Some zs)
    then have enc: "encode_prefix p (length (xs @ zs)) = None"
      using Cons.prems(1) by (auto simp: f close_frame_def split: option.splits)
    have "flushed b (?H @ zs) (cbb_flush_chain b (chain G fs))"
      using Cons.prems(2-4) Some unfolding G_def by (intro cbb_flush_chain_flushed) (auto simp: f)
    then show ?thesis
    proof (cases rule: flushedE)
      case (ok b')
      have wp: "bb_buf b' = H @ replicate (prefix_len p) 0 @ xs @ zs" using ok by simp
      from cbb_write_prefix_too_long [OF enc refl wp ok(3)]
      obtain b'' where "cbb_write_prefix ?c (length H + prefix_len p) b' = (False, b'')"
        by (cases "cbb_write_prefix ?c (length H + prefix_len p) b'") auto
      then show ?thesis using err pl start ok unfolding chain.simps off
        by (simp add: f Let_def split: bool.split)
    next
      case (fail b' cs)
      then show ?thesis by (intro failed)
    qed
  qed
qed simp

section \<open>Operations on frames\<close>

lemma chain_take:
  "take (length pre) (tl (chain 0 (pre @ f # post))) = tl (chain 0 (pre @ [f]))"
  and chain_drop:
  "drop (length pre) (tl (chain 0 (pre @ f # post))) = chain (length (layout (pre @ [f]))) post"
  by (cases pre; simp add: chain_append add.assoc)+

lemma chain_last: "chain off (pre @ [(p, xs)]) = chain off (pre @ [(p, ys)])"
  by (simp add: chain_append)

lemma holdsD:
  assumes "holds fs st"
  obtains b where "st = \<lparr>cbb_base = Some b, cbb_children = tl (chain 0 fs)\<rparr>"
    "fs \<noteq> []" "fst (hd fs) = Fixed 0" "list_all child_prefix_ok (tl fs)" "bb_buf b = layout fs" "buffer_ok b"
  using assms by (cases st) (auto simp: holds_def split: option.splits)

lemma list_all_tlD:
  assumes "list_all P (tl (pre @ f # post))"
  shows "list_all P (tl (pre @ [f]))" "list_all P post"
  using assms by (cases pre; simp)+

lemma hd_last: "fst (hd (pre @ (p, xs) # post)) = fst (hd (pre @ [(p, ys)]))"
  by (cases pre) auto

lemma child_prefix_ok_last:
  "list_all child_prefix_ok (tl (pre @ [(p, xs)])) = list_all child_prefix_ok (tl (pre @ [(p, ys)]))"
  by (cases pre) (auto simp: child_prefix_ok_def)

text \<open>Rules for \<open>produces\<close>.\<close>

lemma producesI:
  assumes "f st = (ok, st')" "cbb_base st = Some b"
    and "ok \<Longrightarrow> holds fs st' \<and> cbb_evolves st st'"
    and "\<not> ok \<Longrightarrow> cbb_failed st' \<and> \<not> grows b n"
  shows "produces f st n fs"
  using assms by (auto simp: produces_def can_grow_def split: bool.split)

lemma cbb_evolves_refl: "cbb_base st = Some b \<Longrightarrow> cbb_evolves st st"
  by (simp add: cbb_evolves_def)

lemma cbb_evolves_trans: "cbb_evolves s t \<Longrightarrow> cbb_evolves t u \<Longrightarrow> cbb_evolves s u"
  by (auto simp: cbb_evolves_def intro: evolves_trans split: option.splits)

lemma cbb_evolves_grow: "cbb_evolves s t \<Longrightarrow> can_grow s n \<Longrightarrow> can_grow t n"
  by (auto simp: cbb_evolves_def can_grow_def intro: evolves_grows split: option.splits)

lemma produces_Nil: "holds fs st \<Longrightarrow> produces (cbb_seq []) st n fs"
  by (auto simp: produces_def cbb_evolves_def holds_def split: option.splits)

lemma can_grow_mono: "can_grow st n \<Longrightarrow> m \<le> n \<Longrightarrow> can_grow st m"
  by (auto simp: can_grow_def intro: grows_mono split: option.splits)

lemma produces_mono: "produces f st m fs \<Longrightarrow> m \<le> n \<Longrightarrow> produces f st n fs"
  by (auto simp: produces_def dest: can_grow_mono split: prod.splits bool.splits)

lemma produces_seq:
  assumes "produces f st n fs"
    and "\<And>st'. holds fs st' \<Longrightarrow> cbb_evolves st st' \<Longrightarrow> produces (cbb_seq gs) st' n fs'"
  shows "produces (cbb_seq (f # gs)) st n fs'"
proof (cases "f st")
  case (Pair ok st')
  show ?thesis
  proof (cases ok)
    case True
    with assms(1) Pair have h: "holds fs st'" "cbb_evolves st st'" by (auto simp: produces_def)
    from assms(2) [OF h] show ?thesis
      using Pair True h(2)
      by (auto simp: produces_def dest: cbb_evolves_trans cbb_evolves_grow split: prod.splits bool.splits)
  next
    case False
    with assms(1) Pair show ?thesis by (auto simp: produces_def)
  qed
qed

lemma produces_seq1: "produces f st n fs \<Longrightarrow> produces (cbb_seq [f]) st n fs"
  by (erule produces_seq) (rule produces_Nil)

lemma CBB_flush_produces:
  assumes h: "holds (pre @ (p, xs) # post) st" and c: "collapse post = Some ys"
    and "length (layout (pre @ [(p, xs @ ys)])) \<le> n"
  shows "produces (CBB_flush (length pre)) st n (pre @ [(p, xs @ ys)])"
proof -
  let ?fs = "pre @ (p, xs) # post" and ?gs = "pre @ [(p, xs @ ys)]"
  from h obtain b where st: "st = \<lparr>cbb_base = Some b, cbb_children = tl (chain 0 ?fs)\<rparr>"
    and w: "fst (hd ?fs) = Fixed 0" "list_all child_prefix_ok (tl ?fs)" "bb_buf b = layout ?fs" "buffer_ok b"
    by (rule holdsD)
  have r: "flushed b (layout (pre @ [(p, xs)]) @ ys)
        (cbb_flush_chain b (chain (length (layout (pre @ [(p, xs)]))) post))"
    using w c by (intro cbb_flush_chain_flushed) (auto dest: list_all_tlD)
  have nd: "\<not> length pre > length (tl (chain 0 ?fs))" by simp
  have cs: "take (length pre) (tl (chain 0 ?fs)) = tl (chain 0 ?gs)"
    by (simp only: chain_take chain_last [of 0 pre p xs "xs @ ys"])
  have lay: "layout (pre @ [(p, xs)]) @ ys = layout ?gs" by simp
  have w': "fst (hd ?gs) = Fixed 0" "list_all child_prefix_ok (tl ?gs)"
    using w(1,2) hd_last [of pre p xs post "xs @ ys"] child_prefix_ok_last [of pre p xs "xs @ ys"]
    by (auto dest: list_all_tlD)
  show ?thesis
    using r
  proof (cases rule: flushedE)
    case (ok b')
    have run: "CBB_flush (length pre) st = (True, \<lparr>cbb_base = Some b', cbb_children = tl (chain 0 ?gs)\<rparr>)"
      unfolding CBB_flush_def st using nd ok cs chain_drop [of pre "(p, xs)" post] by simp
    show ?thesis
      by (rule producesI, rule run) (use ok w' lay in \<open>auto simp: st holds_def cbb_evolves_def\<close>)
  next
    case (fail b' cs')
    have run: "CBB_flush (length pre) st = (False, \<lparr>cbb_base = Some b',
        cbb_children = tl (chain 0 ?gs) @ cs'\<rparr>)"
      unfolding CBB_flush_def st using nd fail cs chain_drop [of pre "(p, xs)" post] by simp
    show ?thesis
      by (rule producesI, rule run) (use fail lay assms(3) grows_mono [of b n] in \<open>auto simp: st cbb_failed_def\<close>)
  qed
qed

lemma CBB_flush_too_long:
  assumes h: "holds (pre @ (p, xs) # post) st" and c: "collapse post = None"
  shows "\<exists>st'. CBB_flush (length pre) st = (False, st') \<and> cbb_failed st'"
proof -
  let ?fs = "pre @ (p, xs) # post"
  from h obtain b where st: "st = \<lparr>cbb_base = Some b, cbb_children = tl (chain 0 ?fs)\<rparr>"
    and w: "list_all child_prefix_ok (tl ?fs)" "bb_buf b = layout ?fs" "buffer_ok b"
    by (rule holdsD)
  have "\<exists>b' cs. cbb_flush_chain b (chain (length (layout (pre @ [(p, xs)]))) post) = (False, b', cs) \<and> bb_error b'"
    using w c by (intro cbb_flush_chain_too_long) (auto dest: list_all_tlD)
  then show ?thesis
    unfolding CBB_flush_def st using chain_drop [of pre "(p, xs)" post] by (auto simp: cbb_failed_def)
qed

text \<open>With nothing open below, flushing changes nothing.\<close>

lemma CBB_flush_last:
  "holds (pre @ [(p, xs)]) st \<Longrightarrow> length (layout (pre @ [(p, xs)])) \<le> n \<Longrightarrow>
   produces (CBB_flush (length pre)) st n (pre @ [(p, xs)])"
  using CBB_flush_produces [of pre p xs "[]" st "[]" n] by simp

text \<open>Appending to the last frame what an operation on the buffer yields.\<close>

lemma on_base_produces:
  assumes "holds (pre @ [(p, xs)]) st"
    and "\<And>b. buffer_ok b \<Longrightarrow> bb_buf b = layout (pre @ [(p, xs)]) \<Longrightarrow> yields b (bb_buf b @ zs) (f b)"
    and "length (layout (pre @ [(p, xs @ zs)])) \<le> n"
  shows "produces (on_base f) st n (pre @ [(p, xs @ zs)])"
proof -
  let ?fs = "pre @ [(p, xs)]" and ?gs = "pre @ [(p, xs @ zs)]"
  from assms(1) obtain b where st: "st = \<lparr>cbb_base = Some b, cbb_children = tl (chain 0 ?fs)\<rparr>"
    and w: "fst (hd ?fs) = Fixed 0" "list_all child_prefix_ok (tl ?fs)" "bb_buf b = layout ?fs" "buffer_ok b"
    by (rule holdsD)
  have w': "fst (hd ?gs) = Fixed 0" "list_all child_prefix_ok (tl ?gs)"
    using w(1,2) hd_last [of pre p xs "[]" "xs @ zs"] child_prefix_ok_last [of pre p xs "xs @ zs"] by simp_all
  from assms(2) [OF w(4,3)] show ?thesis
  proof (cases rule: yieldsE)
    case (ok b')
    then have run: "on_base f st = (True, \<lparr>cbb_base = Some b', cbb_children = tl (chain 0 ?gs)\<rparr>)"
      unfolding chain_last [of 0 pre p "xs @ zs" xs] by (simp add: on_base_def st)
    show ?thesis
      by (rule producesI, rule run) (use ok w' w in \<open>auto simp: st holds_def cbb_evolves_def\<close>)
  next
    case (fail b')
    then have run: "on_base f st = (False, \<lparr>cbb_base = Some b', cbb_children = tl (chain 0 ?fs)\<rparr>)"
      by (simp add: on_base_def st)
    show ?thesis
      by (rule producesI, rule run) (use fail w assms(3) grows_mono [of b n] in \<open>auto simp: st cbb_failed_def\<close>)
  qed
qed

lemma flush_on_base_produces:
  assumes "holds (pre @ (p, xs) # post) st" "collapse post = Some ys"
    and "\<And>b. buffer_ok b \<Longrightarrow> yields b (bb_buf b @ zs) (f b)"
    and "length (layout (pre @ [(p, xs @ ys @ zs)])) \<le> n" "d = length pre"
  shows "produces (cbb_seq [CBB_flush d, on_base f]) st n (pre @ [(p, xs @ ys @ zs)])"
proof (rule produces_seq [where fs = "pre @ [(p, xs @ ys)]"])
  show "produces (CBB_flush d) st n (pre @ [(p, xs @ ys)])"
    using CBB_flush_produces [OF assms(1,2), of n] assms(4,5) by simp
next
  fix st' assume "holds (pre @ [(p, xs @ ys)]) st'"
  from on_base_produces [OF this assms(3)] assms(4)
  show "produces (cbb_seq [on_base f]) st' n (pre @ [(p, xs @ ys @ zs)])"
    by (intro produces_seq1) simp
qed

lemma CBB_add_bytes_produces:
  assumes "holds (pre @ (p, xs) # post) st" "collapse post = Some ys" "length zs < SIZE_MODULUS"
    and "length (layout (pre @ [(p, xs @ ys @ zs)])) \<le> n" "d = length pre"
  shows "produces (CBB_add_bytes zs d) st n (pre @ [(p, xs @ ys @ zs)])"
  unfolding CBB_add_bytes_def
  by (rule flush_on_base_produces [OF assms(1,2) _ assms(4,5)]) (rule cbb_buffer_add_yields [OF _ assms(3)])

lemma CBB_add_u_produces:
  assumes "holds (pre @ (p, xs) # post) st" "collapse post = Some ys"
    and "length (layout (pre @ [(p, xs @ ys @ be_bytes k v)])) \<le> n" "d = length pre"
    and "0 < k" "k \<le> 8" "drop_bit (8 * k) v = 0"
  shows "produces (cbb_seq [CBB_flush d, on_base (cbb_buffer_add_u v k)]) st n
      (pre @ [(p, xs @ ys @ be_bytes k v)])"
  by (rule flush_on_base_produces [OF assms(1,2) _ assms(3,4)])
    (rule cbb_buffer_add_u_yields [OF _ assms(5-7)])

section \<open>Opening children\<close>

lemma base_len_holds: "holds fs st \<Longrightarrow> base_len st = length (layout fs)"
  by (auto simp: base_len_def holds_def split: option.splits)

lemma open_child_holds:
  assumes "holds (pre @ [(p, xs @ replicate (prefix_len q) 0)]) st" "child_prefix_ok (q, [])"
    and "c = \<lparr>ch_offset = length (layout (pre @ [(p, xs)])), ch_pending_len_len = prefix_len q,
           ch_pending_is_asn1 = (q = Asn1)\<rparr>" "d = length pre"
  shows "produces (open_child d c) st n (pre @ [(p, xs), (q, [])])"
proof -
  let ?fs = "pre @ [(p, xs @ replicate (prefix_len q) 0)]" and ?gs = "pre @ [(p, xs), (q, [])]"
  from assms(1) obtain b where st: "st = \<lparr>cbb_base = Some b, cbb_children = tl (chain 0 ?fs)\<rparr>"
    and w: "fst (hd ?fs) = Fixed 0" "list_all child_prefix_ok (tl ?fs)" "bb_buf b = layout ?fs" "buffer_ok b"
    by (rule holdsD)
  have "tl (chain 0 ?gs) = tl (chain 0 ?fs) @ [c]"
    by (cases pre) (simp_all add: chain_append assms(3) add.assoc)
  then have run: "open_child d c st = (True, \<lparr>cbb_base = Some b, cbb_children = tl (chain 0 ?gs)\<rparr>)"
    by (simp add: open_child_def st assms(4))
  have "fst (hd ?gs) = Fixed 0" "list_all child_prefix_ok (tl ?gs)"
    using w(1,2) assms(2) by (cases pre; auto simp: child_prefix_ok_def)+
  then show ?thesis
    by (intro producesI [where f = "open_child d c", OF run]) (use w in \<open>auto simp: st holds_def cbb_evolves_def\<close>)
qed

lemma cbb_add_length_prefixed_produces:
  assumes h: "holds (pre @ (p, xs) # post) st" "collapse post = Some ys"
    and n: "length (layout (pre @ [(p, xs @ ys), (Fixed k, [])])) \<le> n" "d = length pre"
    and k: "1 \<le> k" "k \<le> 7"
  shows "produces (cbb_add_length_prefixed k d) st n (pre @ [(p, xs @ ys), (Fixed k, [])])"
  unfolding cbb_add_length_prefixed_def Let_def
proof (rule produces_seq)
  show "produces (CBB_flush d) st n (pre @ [(p, xs @ ys)])"
    using CBB_flush_produces [OF h, of n] n by simp
next
  fix st1 assume h1: "holds (pre @ [(p, xs @ ys)]) st1"
  let ?c = "\<lparr>ch_offset = base_len st1, ch_pending_len_len = k, ch_pending_is_asn1 = False\<rparr>"
  have z: "length (replicate k (0::byte)) < SIZE_MODULUS" using k by simp
  have "produces (cbb_seq [on_base (cbb_buffer_add (replicate k 0)), open_child d ?c]) st1 n
      (pre @ [(p, xs @ ys), (Fixed k, [])])"
  proof (rule produces_seq)
    show "produces (on_base (cbb_buffer_add (replicate k 0))) st1 n (pre @ [(p, (xs @ ys) @ replicate k 0)])"
    proof (rule on_base_produces [OF h1])
      show "buffer_ok b \<Longrightarrow> yields b (bb_buf b @ replicate k 0) (cbb_buffer_add (replicate k 0) b)" for b
        by (rule cbb_buffer_add_yields [OF _ z])
    qed (use n in simp)
  next
    fix st2 assume "holds (pre @ [(p, (xs @ ys) @ replicate k 0)]) st2"
    then show "produces (cbb_seq [open_child d ?c]) st2 n (pre @ [(p, xs @ ys), (Fixed k, [])])"
      using n k by (intro produces_seq1 open_child_holds) (auto simp: child_prefix_ok_def base_len_holds [OF h1])
  qed
  then show "produces (cbb_seq [\<lambda>cbb. cbb_seq [on_base (cbb_buffer_add (replicate k 0)),
       open_child d \<lparr>ch_offset = base_len cbb, ch_pending_len_len = k, ch_pending_is_asn1 = False\<rparr>] cbb])
     st1 n (pre @ [(p, xs @ ys), (Fixed k, [])])"
    by (intro produces_seq1) (simp add: produces_def)
qed

section \<open>Runs of bytes\<close>

definition add_u8s :: "bytes \<Rightarrow> nat \<Rightarrow> cbb_op" where
  "add_u8s xs d = cbb_seq (map (\<lambda>x. CBB_add_u8 x d) xs)"

lemma byte_fits: "drop_bit 8 (ucast (x :: byte) :: u64) = 0"
  by (rule bit_word_eqI) (auto simp: bit_simps dest: bit_imp_le_length)

lemma ucast_byte_u64: "ucast (ucast (x :: byte) :: u64) = x"
  by (rule bit_word_eqI) (auto simp: bit_simps)

lemma be_bytes_byte: "be_bytes 1 (ucast (x :: byte)) = [x]"
  by (simp add: ucast_byte_u64)

lemma CBB_add_u8_produces:
  assumes "holds (pre @ (p, xs) # post) st" "collapse post = Some ys"
    and "length (layout (pre @ [(p, xs @ ys @ [x])])) \<le> n" "d = length pre"
  shows "produces (CBB_add_u8 x d) st n (pre @ [(p, xs @ ys @ [x])])"
  using CBB_add_u_produces [OF assms(1,2), where v = "ucast x" and k = 1 and n = n and d = d] assms(3,4)
  by (simp add: CBB_add_u8_def byte_fits ucast_byte_u64)

lemma produces_append:
  assumes "produces (cbb_seq fs) st n gs"
    and "\<And>st'. holds gs st' \<Longrightarrow> cbb_evolves st st' \<Longrightarrow> produces (cbb_seq hs) st' n gs'"
  shows "produces (cbb_seq (fs @ hs)) st n gs'"
proof -
  have "cbb_seq (fs @ hs) st = cbb_seq (cbb_seq fs # hs) st" for st
    by (induction fs arbitrary: st) (auto split: prod.splits bool.splits)
  then show ?thesis
    using produces_seq [OF assms] by (simp add: produces_def)
qed

lemma add_u8s_produces:
  "holds (pre @ [(p, xs)]) st \<Longrightarrow> length (layout (pre @ [(p, xs @ zs)])) \<le> n \<Longrightarrow> d = length pre \<Longrightarrow>
   produces (add_u8s zs d) st n (pre @ [(p, xs @ zs)])"
proof (induction zs arbitrary: xs st)
  case Nil
  then show ?case using produces_Nil [of _ st n] by (simp add: add_u8s_def del: cbb_seq.simps)
next
  case (Cons z zs)
  show ?case unfolding add_u8s_def list.map
  proof (rule produces_seq)
    show "produces (CBB_add_u8 z d) st n (pre @ [(p, xs @ [z])])"
      using CBB_add_u8_produces [OF Cons.prems(1), of "[]" z n d] Cons.prems(2,3) by simp
  next
    fix st' assume "holds (pre @ [(p, xs @ [z])]) st'"
    then show "produces (cbb_seq (map (\<lambda>x. CBB_add_u8 x d) zs)) st' n (pre @ [(p, xs @ z # zs)])"
      using Cons.IH [of "xs @ [z]" st'] Cons.prems(2,3) by (simp add: add_u8s_def)
  qed
qed

section \<open>Base-128 integers\<close>

lemma base128_prefix_digits:
  "m < 128 ^ k \<Longrightarrow> k = 0 \<or> 128 ^ (k - 1) \<le> m \<Longrightarrow>
   base128_prefix m = map (\<lambda>i. of_nat (128 + m div 128 ^ i mod 128)) (rev [0..<k])"
proof (induction k arbitrary: m)
  case 0
  then show ?case by simp
next
  case (Suc k)
  have "0 < (128 :: nat) ^ k" by simp
  then have m: "m \<noteq> 0" using Suc.prems(2) by (metis Suc_neq_Zero diff_Suc_1 not_le)
  have "k = 0 \<or> 128 ^ (k - 1) \<le> m div 128"
  proof (cases k)
    case (Suc j)
    then have "128 ^ j * 128 \<le> m" using Suc.prems(2) by (simp add: mult.commute)
    then show ?thesis using Suc by (simp add: less_eq_div_iff_mult_less_eq)
  qed simp
  moreover have "m div 128 < 128 ^ k" using Suc.prems(1) by (simp add: less_mult_imp_div_less mult.commute)
  ultimately have IH: "base128_prefix (m div 128) =
      map (\<lambda>i. of_nat (128 + m div 128 div 128 ^ i mod 128)) (rev [0..<k])"
    by (intro Suc.IH) auto
  have r: "rev [0..<Suc k] = map Suc (rev [0..<k]) @ [0]"
    by (simp add: rev_map [symmetric] map_Suc_upt upt_conv_Cons del: upt_Suc)
  show ?case
    by (subst base128_prefix.simps) (simp only: m IH r, simp add: div_mult2_eq)
qed

lemma base128_len_loop_bounds:
  "a \<le> base128_len_loop a v \<and>
   unat v < 128 ^ (base128_len_loop a v - a) \<and>
   (base128_len_loop a v = a \<or> 128 ^ (base128_len_loop a v - a - 1) \<le> unat v)"
proof (induction a v rule: base128_len_loop.induct)
  case (1 a v)
  let ?w = "drop_bit 7 v"
  show ?case
  proof (cases "v > 0")
    case False
    then have "v = 0" by (simp add: word_neq_0_conv [symmetric])
    then show ?thesis by (simp add: base128_len_loop.simps [of a 0])
  next
    case True
    define L where "L = base128_len_loop (a + 1) ?w - (a + 1)"
    have w: "unat ?w = unat v div 128" by (simp only: unat_drop_bit_eq drop_bit_eq_div [where 'a = nat]) simp
    from 1 [OF True] have L: "a + 1 \<le> base128_len_loop (a + 1) ?w" "unat v div 128 < 128 ^ L"
      "L = 0 \<or> 128 ^ (L - 1) \<le> unat v div 128" unfolding L_def w by auto
    have up: "unat v < 128 ^ (L + 1)" using L(2) by (simp add: div_less_iff_less_mult)
    have "128 ^ L \<le> unat v"
    proof (cases L)
      case 0
      then show ?thesis using True by (simp add: word_less_nat_alt)
    next
      case (Suc j)
      then show ?thesis using L(3) by (simp add: less_eq_div_iff_mult_less_eq mult.commute)
    qed
    moreover have "base128_len_loop a v = a + 1 + L"
      using True L(1) by (subst base128_len_loop.simps) (simp add: L_def)
    ultimately show ?thesis using up by simp
  qed
qed

text \<open>The bytes the writer emits.\<close>

definition base128_out :: "u64 \<Rightarrow> nat \<Rightarrow> byte" where
  "base128_out v i =
     (let b = ucast (drop_bit (7 * i) v) AND 0x7f in if i \<noteq> 0 then b OR 0x80 else b)"

lemma add_base128_loop_eq:
  "add_base128_loop v k d = add_u8s (map (base128_out v) (rev [0..<k])) d"
proof (induction k)
  case 0
  show ?case by (simp add: add_u8s_def fun_eq_iff)
next
  case (Suc k)
  then show ?case
    by (simp add: add_u8s_def fun_eq_iff base128_out_def Let_def split: prod.splits bool.splits)
qed

lemma bit_80: "bit (0x80 :: int) n \<longleftrightarrow> n = 7"
proof -
  have "(0x80 :: int) = push_bit 7 1" by simp
  then show ?thesis by (auto simp only: bit_push_bit_iff bit_1_iff) simp_all
qed

lemma base128_out_nat:
  "base128_out v i = of_nat ((if i = 0 then 0 else 128) + unat v div 128 ^ i mod 128)"
proof -
  let ?b = "ucast (drop_bit (7 * i) v) AND 0x7f :: byte"
  have u: "unat (drop_bit (7 * i) v) = unat v div 128 ^ i"
    by (simp only: unat_drop_bit_eq drop_bit_eq_div [where 'a = nat]) (simp add: power_mult)
  have b: "unat ?b = unat v div 128 ^ i mod 128"
    unfolding unat_low7 unsigned_ucast_eq u by (simp add: take_bit_eq_mod mod_mod_cancel)
  have "?b OR 0x80 = ?b + 0x80"
    by (rule disjunctive_add [symmetric]) (auto simp: byte_low7 bit_simps bit_80)
  then show ?thesis using word_of_unat [OF b] by (auto simp: base128_out_def Let_def add.commute)
qed

lemma add_base128_integer_eq:
  "add_base128_integer v d = add_u8s (base128_bytes (unat v)) d"
proof -
  define L where "L = base128_len_loop 0 v"
  define k where "k = (if L = 0 then 1 else L)"
  note Lb = base128_len_loop_bounds [of 0 v, folded L_def, simplified]
  have k: "k = Suc (k - 1)" by (simp add: k_def)
  have lo: "unat v div 128 < 128 ^ (k - 1)" "k - 1 = 0 \<or> 128 ^ (k - 1 - 1) \<le> unat v div 128"
  proof -
    show "unat v div 128 < 128 ^ (k - 1)"
      using Lb by (cases L) (auto simp: k_def div_less_iff_less_mult mult.commute)
    show "k - 1 = 0 \<or> 128 ^ (k - 1 - 1) \<le> unat v div 128"
      using Lb by (cases L; cases "L - 1")
        (auto simp: k_def less_eq_div_iff_mult_less_eq mult.commute)
  qed
  have r: "rev [0..<k] = map Suc (rev [0..<k - 1]) @ [0]"
    by (subst k) (simp add: rev_map [symmetric] map_Suc_upt upt_conv_Cons del: upt_Suc)
  have "map (base128_out v) (rev [0..<k]) = base128_bytes (unat v)"
    unfolding base128_bytes_def base128_prefix_digits [OF lo] r
    by (simp add: base128_out_nat div_mult2_eq)
  then show ?thesis
    unfolding add_base128_integer_def add_base128_loop_eq Let_def k_def L_def by (rule arg_cong)
qed

section \<open>ASN.1 elements\<close>

lemma produces_cong: "f st = g st \<Longrightarrow> produces f st n fs \<longleftrightarrow> produces g st n fs"
  by (simp add: produces_def)

lemma produces_pair:
  "produces f st n fs \<Longrightarrow> (\<And>st'. holds fs st' \<Longrightarrow> cbb_evolves st st' \<Longrightarrow> produces g st' n gs) \<Longrightarrow>
   produces (cbb_seq [f, g]) st n gs"
  by (rule produces_seq) (auto intro: produces_seq1)

text \<open>The identifier octets, as the writer's two branches emit them.\<close>

lemma tag_bytes_produces:
  assumes "holds (pre @ [(p, xs)]) st" "length (layout (pre @ [(p, xs @ der_tag_bytes tag)])) \<le> n"
    "d = length pre" "tag_bits = ucast (drop_bit 24 tag) AND (0xe0 :: byte)" "num = tag AND 0x1fffffff"
  shows "produces (if num \<ge> 0x1f
       then cbb_seq [CBB_add_u8 (tag_bits OR 0x1f) d, add_base128_integer (ucast num) d]
       else CBB_add_u8 (tag_bits OR ucast num) d) st n (pre @ [(p, xs @ der_tag_bytes tag)])"
proof -
  have ge: "num \<ge> 0x1f \<longleftrightarrow> \<not> unat num < 31" by (simp add: word_le_nat_alt not_less)
  show ?thesis
  proof (cases "unat num < 31")
    case False
    have u: "unat (ucast num :: u64) = unat num" by (simp add: unat_ucast_up)
    have tag: "der_tag_bytes tag = (tag_bits OR 0x1f) # base128_bytes (unat num)"
      using False assms(4,5) by (simp add: der_tag_bytes_def Let_def)
    have "produces (cbb_seq [CBB_add_u8 (tag_bits OR 0x1f) d, add_base128_integer (ucast num) d]) st n
        (pre @ [(p, xs @ der_tag_bytes tag)])"
    proof (rule produces_pair)
      show "produces (CBB_add_u8 (tag_bits OR 0x1f) d) st n (pre @ [(p, xs @ [tag_bits OR 0x1f])])"
        using CBB_add_u8_produces [OF assms(1), of "[]" "tag_bits OR 0x1f" n d] assms(2,3)
        by (simp add: tag)
    next
      fix st' assume "holds (pre @ [(p, xs @ [tag_bits OR 0x1f])]) st'"
      from add_u8s_produces [OF this, of "base128_bytes (unat num)" n d] assms(2,3)
      show "produces (add_base128_integer (ucast num) d) st' n (pre @ [(p, xs @ der_tag_bytes tag)])"
        by (simp add: add_base128_integer_eq u tag)
    qed
    then show ?thesis using False ge by simp
  next
    case True
    have "(of_nat (unat num) :: byte) = ucast num" by (metis of_nat_unat)
    then have tag: "der_tag_bytes tag = [tag_bits OR ucast num]"
      using True assms(4,5) by (simp add: der_tag_bytes_def Let_def)
    show ?thesis
      using CBB_add_u8_produces [OF assms(1), of "[]" "tag_bits OR ucast num" n d] assms(2,3) True ge
      by (simp add: tag)
  qed
qed

lemma CBB_add_asn1_produces:
  assumes h: "holds (pre @ (p, xs) # post) st" "collapse post = Some ys"
    and n: "length (layout (pre @ [(p, xs @ ys @ der_tag_bytes tag), (Asn1, [])])) \<le> n" "d = length pre"
  shows "produces (CBB_add_asn1 tag d) st n (pre @ [(p, xs @ ys @ der_tag_bytes tag), (Asn1, [])])"
  unfolding CBB_add_asn1_def Let_def
proof (rule produces_seq)
  show "produces (CBB_flush d) st n (pre @ [(p, xs @ ys)])"
    using CBB_flush_produces [OF h, of n] n by simp
next
  fix st1 assume h1: "holds (pre @ [(p, xs @ ys)]) st1"
  let ?t = "der_tag_bytes tag"
  let ?open = "\<lambda>st. open_child d \<lparr>ch_offset = base_len st, ch_pending_len_len = 1, ch_pending_is_asn1 = True\<rparr>"
  have last: "produces (\<lambda>cbb. cbb_seq [CBB_add_u8 0 d, ?open cbb] cbb) st2 n
      (pre @ [(p, xs @ ys @ ?t), (Asn1, [])])"
    if h2: "holds (pre @ [(p, (xs @ ys) @ ?t)]) st2" for st2
  proof -
    have "produces (cbb_seq [CBB_add_u8 0 d, ?open st2]) st2 n (pre @ [(p, xs @ ys @ ?t), (Asn1, [])])"
    proof (rule produces_pair)
      show "produces (CBB_add_u8 0 d) st2 n (pre @ [(p, (xs @ ys @ ?t) @ [0])])"
        using CBB_add_u8_produces [OF h2, of "[]" 0 n d] n by simp
    next
      fix st3 assume "holds (pre @ [(p, (xs @ ys @ ?t) @ [0])]) st3"
      then show "produces (?open st2) st3 n (pre @ [(p, xs @ ys @ ?t), (Asn1, [])])"
        using n by (intro open_child_holds) (auto simp: child_prefix_ok_def base_len_holds [OF h2])
    qed
    then show ?thesis by (simp add: produces_def)
  qed
  show "produces (cbb_seq
     [if 0x1f \<le> tag AND CBS_ASN1_TAG_NUMBER_MASK
      then cbb_seq [CBB_add_u8 (ucast (drop_bit CBS_ASN1_TAG_SHIFT tag) AND 0xe0 OR 0x1f) d,
                    add_base128_integer (ucast (tag AND CBS_ASN1_TAG_NUMBER_MASK)) d]
      else CBB_add_u8 (ucast (drop_bit CBS_ASN1_TAG_SHIFT tag) AND 0xe0 OR
                       ucast (tag AND CBS_ASN1_TAG_NUMBER_MASK)) d,
      \<lambda>cbb. cbb_seq [CBB_add_u8 0 d, ?open cbb] cbb])
     st1 n (pre @ [(p, xs @ ys @ ?t), (Asn1, [])])"
  proof (rule produces_pair)
    show "produces (if 0x1f \<le> tag AND CBS_ASN1_TAG_NUMBER_MASK
      then cbb_seq [CBB_add_u8 (ucast (drop_bit CBS_ASN1_TAG_SHIFT tag) AND 0xe0 OR 0x1f) d,
                    add_base128_integer (ucast (tag AND CBS_ASN1_TAG_NUMBER_MASK)) d]
      else CBB_add_u8 (ucast (drop_bit CBS_ASN1_TAG_SHIFT tag) AND 0xe0 OR
                       ucast (tag AND CBS_ASN1_TAG_NUMBER_MASK)) d) st1 n (pre @ [(p, (xs @ ys) @ ?t)])"
      using n by (intro tag_bytes_produces [OF h1]) auto
  qed (rule last)
qed

text \<open>A whole element: open it, write contents that leave the frame \<open>body\<close>, flush.\<close>

lemma der_len_bytes_length: "n < 2 ^ 32 \<Longrightarrow> 1 \<le> length (der_len_bytes n)"
  by (simp add: der_len_bytes_def)

lemma element_produces:
  assumes h: "holds (pre @ (p, xs) # post) st" "collapse post = Some ys"
    and body: "length body \<le> 0xfffffffe"
    and n: "length (layout (pre @ [(p, xs @ ys @ der_element tag body)])) \<le> n" "d = length pre"
    and body_op: "\<And>st'. holds (pre @ [(p, xs @ ys @ der_tag_bytes tag), (Asn1, [])]) st' \<Longrightarrow>
      produces body_op st' n (pre @ [(p, xs @ ys @ der_tag_bytes tag), (Asn1, body)])"
  shows "produces (cbb_seq [CBB_add_asn1 tag d, body_op, CBB_flush d]) st n
      (pre @ [(p, xs @ ys @ der_element tag body)])"
proof (rule produces_seq)
  show "produces (CBB_add_asn1 tag d) st n (pre @ [(p, xs @ ys @ der_tag_bytes tag), (Asn1, [])])"
    using n body der_len_bytes_length [of "length body"]
    by (intro CBB_add_asn1_produces [OF h]) (auto simp: der_element_def)
next
  fix st1 assume h1: "holds (pre @ [(p, xs @ ys @ der_tag_bytes tag), (Asn1, [])]) st1"
  show "produces (cbb_seq [body_op, CBB_flush d]) st1 n (pre @ [(p, xs @ ys @ der_element tag body)])"
  proof (rule produces_pair)
    show "produces body_op st1 n (pre @ [(p, xs @ ys @ der_tag_bytes tag), (Asn1, body)])"
      by (rule body_op [OF h1])
  next
    fix st2 assume "holds (pre @ [(p, xs @ ys @ der_tag_bytes tag), (Asn1, body)]) st2"
    moreover have "collapse [(Asn1, body)] = Some (der_len_bytes (length body) @ body)"
      using body by (simp add: close_frame_def)
    ultimately show "produces (CBB_flush d) st2 n (pre @ [(p, xs @ ys @ der_element tag body)])"
      using CBB_flush_produces [of pre p "xs @ ys @ der_tag_bytes tag" "[(Asn1, body)]" st2] n
      by (simp add: der_element_def)
  qed
qed

lemma CBB_add_asn1_octet_string_produces:
  assumes "holds (pre @ (p, xs) # post) st" "collapse post = Some ys" "length zs \<le> 0xfffffffe"
    and "length (layout (pre @ [(p, xs @ ys @ der_element CBS_ASN1_OCTETSTRING zs)])) \<le> n" "d = length pre"
  shows "produces (CBB_add_asn1_octet_string zs d) st n
      (pre @ [(p, xs @ ys @ der_element CBS_ASN1_OCTETSTRING zs)])"
  unfolding CBB_add_asn1_octet_string_def
proof (rule element_produces [OF assms])
  fix st' assume h: "holds (pre @ [(p, xs @ ys @ der_tag_bytes CBS_ASN1_OCTETSTRING), (Asn1, [])]) st'"
  have "1 \<le> length (der_len_bytes (length zs))" using assms(3) by (intro der_len_bytes_length) simp
  then show "produces (CBB_add_bytes zs (d + 1)) st' n
      (pre @ [(p, xs @ ys @ der_tag_bytes CBS_ASN1_OCTETSTRING), (Asn1, zs)])"
    using CBB_add_bytes_produces [of "pre @ [(p, xs @ ys @ der_tag_bytes CBS_ASN1_OCTETSTRING)]" Asn1
        "[]" "[]" st' "[]" zs n "d + 1"] h assms(3-5) by (simp add: der_element_def)
qed

text \<open>Elements whose contents the writer adds byte by byte.\<close>

lemma element_u8s_produces:
  assumes "holds (pre @ (p, xs) # post) st" "collapse post = Some ys" "length body \<le> 0xfffffffe"
    and "length (layout (pre @ [(p, xs @ ys @ der_element tag body)])) \<le> n" "d = length pre"
    and "\<And>st'. body_op st' = add_u8s body (d + 1) st'"
  shows "produces (cbb_seq [CBB_add_asn1 tag d, body_op, CBB_flush d]) st n
      (pre @ [(p, xs @ ys @ der_element tag body)])"
proof (rule element_produces [OF assms(1-5)])
  fix st' assume h: "holds (pre @ [(p, xs @ ys @ der_tag_bytes tag), (Asn1, [])]) st'"
  have "1 \<le> length (der_len_bytes (length body))" using assms(3) by (intro der_len_bytes_length) simp
  then have "produces (add_u8s body (d + 1)) st' n (pre @ [(p, xs @ ys @ der_tag_bytes tag), (Asn1, body)])"
    using add_u8s_produces [of "pre @ [(p, xs @ ys @ der_tag_bytes tag)]" Asn1 "[]" st' body n "d + 1"]
      h assms(3-5) by (simp add: der_element_def)
  then show "produces body_op st' n (pre @ [(p, xs @ ys @ der_tag_bytes tag), (Asn1, body)])"
    using produces_cong [of body_op st' "add_u8s body (d + 1)"] assms(6) by simp
qed

lemma CBB_add_asn1_bool_produces:
  assumes "holds (pre @ (p, xs) # post) st" "collapse post = Some ys"
    and "length (layout (pre @ [(p, xs @ ys @ der_element CBS_ASN1_BOOLEAN [if v \<noteq> 0 then 0xff else 0])])) \<le> n"
      "d = length pre"
  shows "produces (CBB_add_asn1_bool v d) st n
      (pre @ [(p, xs @ ys @ der_element CBS_ASN1_BOOLEAN [if v \<noteq> 0 then 0xff else 0])])"
  unfolding CBB_add_asn1_bool_def
  by (rule element_u8s_produces [OF assms(1,2) _ assms(3,4)])
    (auto simp: add_u8s_def split: prod.splits bool.splits)

section \<open>INTEGER elements\<close>

lemma be_bytes_Cons: "be_bytes (Suc k) v = ucast (drop_bit (8 * k) v) # be_bytes k v"
proof (induction k arbitrary: v)
  case (Suc k)
  have "be_bytes (Suc (Suc k)) v = be_bytes (Suc k) (drop_bit 8 v) @ [ucast v]" by simp
  also have "\<dots> = ucast (drop_bit (8 * Suc k) v) # be_bytes (Suc k) v"
    unfolding Suc.IH [of "drop_bit 8 v"] by (simp add: drop_bit_drop_bit add.commute)
  finally show ?case .
qed simp

lemma add_u8s_simps:
  "add_u8s [] d cbb = (True, cbb)"
  "add_u8s (x # xs) d cbb =
     (case CBB_add_u8 x d cbb of (False, cbb') \<Rightarrow> (False, cbb') | (True, cbb') \<Rightarrow> add_u8s xs d cbb')"
  by (simp_all add: add_u8s_def split: prod.split bool.split)

lemma byte_and_ff: "(ucast (w AND 0xff :: u64) :: byte) = ucast w"
proof -
  have "w AND 0xff = take_bit 8 w" by (simp add: take_bit_eq_mask mask_eq_exp_minus_1)
  then show ?thesis by (intro bit_word_eqI) (auto simp: bit_simps)
qed

lemma asn1_put_uint64_started:
  "asn1_put_uint64_loop v k True d cbb =
     (case add_u8s (be_bytes k v) d cbb of (ok, cbb') \<Rightarrow> (ok, True, cbb'))"
proof (induction k arbitrary: cbb)
  case (Suc k)
  show ?case
    by (simp only: be_bytes_Cons asn1_put_uint64_loop.simps Let_def byte_and_ff add_u8s_simps)
      (simp add: Suc split: prod.split bool.split)
qed (simp add: add_u8s_simps)

fun strip_zeros :: "bytes \<Rightarrow> bytes" where
  "strip_zeros [] = []"
| "strip_zeros (b # bs) =
     (if b = 0 then strip_zeros bs else if b AND 0x80 \<noteq> 0 then 0 # b # bs else b # bs)"

lemma asn1_put_uint64_not_started:
  "asn1_put_uint64_loop v k False d cbb =
     (case add_u8s (strip_zeros (be_bytes k v)) d cbb of
        (ok, cbb') \<Rightarrow> (ok, strip_zeros (be_bytes k v) \<noteq> [], cbb'))"
proof (induction k arbitrary: cbb)
  case (Suc k)
  show ?case
    by (simp only: be_bytes_Cons asn1_put_uint64_loop.simps Let_def byte_and_ff strip_zeros.simps)
      (simp add: Suc asn1_put_uint64_started add_u8s_simps split: prod.split bool.split)
qed (simp add: add_u8s_simps)

lemma strip_zeros_int_strip:
  "int_strip (0 # bs) = (if strip_zeros bs = [] then [0] else strip_zeros bs)"
proof (induction bs)
  case (Cons b bs)
  have "b AND 0x80 = 0 \<Longrightarrow> b \<noteq> 0 \<Longrightarrow> int_strip (b # bs) = b # bs"
    by (cases bs) auto
  with Cons show ?case by auto
qed simp

lemma uint64_contents_eq:
  "(case asn1_put_uint64_loop v 8 False d cbb of
      (False, _, cbb') \<Rightarrow> (False, cbb')
    | (True, True, cbb') \<Rightarrow> (True, cbb')
    | (True, False, cbb') \<Rightarrow> CBB_add_u8 0 d cbb') = add_u8s (der_uint_body v) d cbb"
  unfolding der_uint_body_def strip_zeros_int_strip asn1_put_uint64_not_started
  by (auto simp: add_u8s_simps split: prod.split bool.split)

lemma CBB_add_asn1_uint64_produces:
  assumes "holds (pre @ (p, xs) # post) st" "collapse post = Some ys"
    and "length (layout (pre @ [(p, xs @ ys @ der_element CBS_ASN1_INTEGER (der_uint_body v))])) \<le> n"
      "d = length pre"
  shows "produces (CBB_add_asn1_uint64 v d) st n
      (pre @ [(p, xs @ ys @ der_element CBS_ASN1_INTEGER (der_uint_body v))])"
  unfolding CBB_add_asn1_uint64_def
  by (rule element_u8s_produces [OF assms(1,2) _ assms(3,4)])
    (simp add: length_der_uint_body le_trans [OF length_der_uint_body(1)], rule uint64_contents_eq)

lemma int64_bytes_loop_eq:
  "n \<le> length u \<Longrightarrow> int64_bytes_loop u n d cbb = add_u8s (rev (take n u)) d cbb"
proof (induction n arbitrary: cbb)
  case (Suc n)
  then have "rev (take (Suc n) u) = u ! n # rev (take n u)"
    by (simp add: take_Suc_conv_app_nth)
  with Suc show ?case by (simp add: add_u8s_simps split: prod.split bool.split del: take_Suc)
qed (simp add: add_u8s_simps)

lemma int64_start_loop_le: "int64_start_loop u n \<le> n"
  by (induction n) auto

lemma int64_start_loop_strip:
  "n < length u \<Longrightarrow> u ! n AND 0x80 \<noteq> 0 \<Longrightarrow>
   rev (take (Suc (int64_start_loop u n)) u) = int_strip (rev (take (Suc n) u))"
proof (induction n)
  case 0
  then show ?case by (cases u) auto
next
  case (Suc n)
  have r: "rev (take (Suc (Suc n)) u) = u ! Suc n # u ! n # rev (take n u)"
    "rev (take (Suc n) u) = u ! n # rev (take n u)"
    using Suc.prems(1) by (simp_all add: take_Suc_conv_app_nth)
  have "u ! Suc n \<noteq> 0" using Suc.prems(2) by auto
  with Suc r show ?case by simp
qed

lemma sint_negative_byte: "sint v < 0 \<Longrightarrow> ucast (drop_bit 56 (v :: u64)) AND (0x80 :: byte) \<noteq> 0"
proof -
  assume "sint v < 0"
  then have "bit v 63" using bit_last_iff [of v] by simp
  then show ?thesis by (simp add: byte_high_bit bit_simps)
qed

lemma CBB_add_asn1_int64_produces:
  assumes "holds (pre @ (p, xs) # post) st" "collapse post = Some ys"
    and "length (layout (pre @ [(p, xs @ ys @ der_element CBS_ASN1_INTEGER (der_int_body v))])) \<le> n"
      "d = length pre"
  shows "produces (CBB_add_asn1_int64 v d) st n
      (pre @ [(p, xs @ ys @ der_element CBS_ASN1_INTEGER (der_int_body v))])"
proof (cases "sint v \<ge> 0")
  case True
  then have "\<not> bit v 63" using bit_last_iff [of v] by auto
  then have "hd (be_bytes 8 v) AND 0x80 = 0" by (simp only: hd_be_bytes_8 byte_high_bit) (simp add: bit_simps)
  then have "sign_byte (be_bytes 8 v) = 0" by (simp only: sign_byte_def) simp
  moreover have "be_bytes 8 v \<noteq> []" by (metis length_be_bytes list.size(3) zero_neq_numeral)
  ultimately have "der_uint_body v = der_int_body v"
    unfolding der_uint_body_def der_int_body_def
    using int_strip_extend [of "be_bytes 8 v" 1] by simp
  with True show ?thesis
    using CBB_add_asn1_uint64_produces [OF assms(1,2), of v n d] assms(3,4)
    by (simp add: CBB_add_asn1_int64_def)
next
  case False
  let ?u = "rev (be_bytes 8 v)" and ?s = "int64_start_loop (rev (be_bytes 8 v)) 7"
  have "be_bytes 8 v = ucast (drop_bit 56 v) # be_bytes 7 v" using be_bytes_Cons [of 7 v] by simp
  then have hi: "?u ! 7 AND 0x80 \<noteq> 0"
    using sint_negative_byte [of v] False by (simp add: nth_append)
  have c: "rev (take (?s + 1) ?u) = der_int_body v"
    using int64_start_loop_strip [OF _ hi] by (simp add: der_int_body_def)
  have "int64_bytes_loop ?u (?s + 1) (d + 1) st' = add_u8s (der_int_body v) (d + 1) st'" for st'
    using int64_bytes_loop_eq [of "?s + 1" ?u "d + 1" st'] int64_start_loop_le [of ?u 7] c by simp
  then have "produces (cbb_seq [CBB_add_asn1 CBS_ASN1_INTEGER d, int64_bytes_loop ?u (?s + 1) (d + 1), CBB_flush d])
      st n (pre @ [(p, xs @ ys @ der_element CBS_ASN1_INTEGER (der_int_body v))])"
    by (intro element_u8s_produces [OF assms(1,2) _ assms(3,4)])
      (use length_der_uint_body(2) [of v] in simp_all)
  with False show ?thesis by (simp add: CBB_add_asn1_int64_def Let_def)
qed

section \<open>Starting and finishing\<close>

lemma CBB_init_holds:
  "CBB_init al c = (True, st) \<Longrightarrow> c < SIZE_MODULUS \<Longrightarrow> holds [(Fixed 0, [])] st"
  by (auto simp: CBB_init_def cbb_init_def CBB_zero_def holds_def buffer_ok_def split: if_splits)

lemma CBB_init_fixed_holds:
  "CBB_init_fixed al c = (True, st) \<Longrightarrow> c < SIZE_MODULUS \<Longrightarrow>
   holds [(Fixed 0, [])] st \<and> (can_grow st n \<longleftrightarrow> n \<le> c)"
  by (auto simp: CBB_init_fixed_def cbb_init_def CBB_zero_def holds_def buffer_ok_def can_grow_def
      grows_def split: if_splits)

lemma CBB_init_total:
  assumes "\<forall>m < 2 ^ 63. al (m + 8)" "c < 2 ^ 62"
  obtains st where "CBB_init al c = (True, st)" "holds [(Fixed 0, [])] st" "\<And>n. n < 2 ^ 62 \<Longrightarrow> can_grow st n"
proof -
  have "al 40" using assms(1) spec [of "\<lambda>m. m < 2 ^ 63 \<longrightarrow> al (m + 8)" 32] by simp
  moreover have "al (c + 8)" using assms by simp
  ultimately have "CBB_init al c = (True, snd (CBB_init al c))"
    using assms(2) by (simp add: CBB_init_def cbb_init_def OPENSSL_malloc_def)
  then show thesis
  proof (rule that)
    show "holds [(Fixed 0, [])] (snd (CBB_init al c))"
      using CBB_init_holds [OF \<open>CBB_init al c = _\<close>] assms(2) by simp
    show "can_grow (snd (CBB_init al c)) n" if "n < 2 ^ 62" for n
      using \<open>al 40\<close> \<open>al (c + 8)\<close> assms that
      by (simp add: CBB_init_def cbb_init_def OPENSSL_malloc_def can_grow_def grows_def)
  qed
qed

lemma CBB_finish_Some:
  assumes h: "holds ((Fixed 0, xs) # post) st" and "collapse post = Some ys"
    and out: "out_ok \<or> (\<exists>b. cbb_base st = Some b \<and> \<not> bb_can_resize b)"
  shows "fst (CBB_finish out_ok 0 st) = Some (xs @ ys) \<or>
    fst (CBB_finish out_ok 0 st) = None \<and> \<not> can_grow st (length (xs @ ys))"
proof -
  have "produces (CBB_flush 0) st (length (xs @ ys)) [(Fixed 0, xs @ ys)]"
    using CBB_flush_produces [of "[]" "Fixed 0" xs post st ys] assms by simp
  then show ?thesis using out
    by (auto simp: produces_def CBB_finish_def holds_def cbb_evolves_def evolves_def
        split: prod.splits bool.splits option.splits)
qed

lemma CBB_finish_None:
  assumes "holds ((Fixed 0, xs) # post) st" "collapse post = None"
  shows "fst (CBB_finish out_ok 0 st) = None"
  using CBB_flush_too_long [of "[]" "Fixed 0" xs post st] assms
  by (auto simp: CBB_finish_def)

text \<open>A program that produces frames, then \<open>CBB_finish\<close>.\<close>

lemma finish_produces:
  assumes p: "produces f st n ((Fixed 0, xs) # post)" and c: "collapse post = Some ys"
    and g: "can_grow st n" "can_grow st (length (xs @ ys))"
  shows "\<exists>st'. f st = (True, st') \<and> fst (CBB_finish True 0 st') = Some (xs @ ys)"
proof -
  from p g(1) obtain st' where st': "f st = (True, st')" "holds ((Fixed 0, xs) # post) st'" "cbb_evolves st st'"
    by (auto simp: produces_def split: prod.splits bool.splits)
  from CBB_finish_Some [OF st'(2) c, of True] cbb_evolves_grow [OF st'(3) g(2)] st'(1) show ?thesis by auto
qed

section \<open>SET OF\<close>

lemma compare_set_of_Nil [simp]:
  "compare_set_of_element [] [] = 0"
  "compare_set_of_element [] (y # b) = -1"
  "compare_set_of_element (x # a) [] = 1"
  by (simp_all add: compare_set_of_element_def CBS_len_def CBS_data_def)

lemma compare_set_of_Cons [simp]:
  "compare_set_of_element (x # a) (y # b) =
     (if x < y then -1 else if y < x then 1 else compare_set_of_element a b)"
  by (auto simp: compare_set_of_element_def CBS_len_def CBS_data_def Let_def)

lemma compare_set_of_values: "compare_set_of_element a b \<in> {-1, 0, 1}"
  by (induction a b rule: list_induct2') auto

lemma compare_set_of_eq_0: "compare_set_of_element a b = 0 \<longleftrightarrow> a = b"
  by (induction a b rule: list_induct2') auto

lemma compare_set_of_flip: "compare_set_of_element b a = - compare_set_of_element a b"
  by (induction a b rule: list_induct2') auto

lemma compare_set_of_trans:
  "compare_set_of_element a b \<le> 0 \<Longrightarrow> compare_set_of_element b c \<le> 0 \<Longrightarrow> compare_set_of_element a c \<le> 0"
proof (induction a arbitrary: b c)
  case Nil
  then show ?case by (cases c) auto
next
  case (Cons x a)
  then obtain y b' z c' where "b = y # b'" "c = z # c'"
    by (cases b; cases c) auto
  with Cons show ?case by (auto split: if_splits)
qed

text \<open>The order of DER's SET OF: the encodings compared as byte strings.\<close>

text \<open>The order of X.690, 11.6, by itself: the first octet in which two encodings differ decides, and
  an encoding comes before its extensions.\<close>

fun der_before :: "bytes \<Rightarrow> bytes \<Rightarrow> bool" where
  "der_before [] ys = True"
| "der_before (x # xs) [] = False"
| "der_before (x # xs) (y # ys) = (unat x < unat y \<or> x = y \<and> der_before xs ys)"

lemma compare_set_of_der_before: "compare_set_of_element a b \<le> 0 \<longleftrightarrow> der_before a b"
  by (induction a b rule: list_induct2') (auto simp: word_less_nat_alt word_unat_eq_iff)

interpretation set_of: comparator compare_set_of_element
proof
  show "compare_set_of_element a b < 0 \<longleftrightarrow> 0 < compare_set_of_element b a" for a b
    by (simp add: compare_set_of_flip [of b a])
qed (rule compare_set_of_trans)

definition is_der_element :: "bytes \<Rightarrow> bool" where
  "is_der_element e \<longleftrightarrow>
     (case CBS_get_any_asn1_element e of (Some x, rest) \<Rightarrow> rest = [] | (None, _) \<Rightarrow> False)"

lemma is_der_element_iff:
  "is_der_element e \<longleftrightarrow> (\<exists>tag body. length body < 2 ^ 32 \<and> e = der_element tag body)"
proof
  assume "is_der_element e"
  then obtain x where "CBS_get_any_asn1_element e = (Some x, [])"
    by (auto simp: is_der_element_def split: prod.splits option.splits)
  then show "\<exists>tag body. length body < 2 ^ 32 \<and> e = der_element tag body"
    by (rule CBS_get_any_asn1_element_sound) auto
next
  assume "\<exists>tag body. length body < 2 ^ 32 \<and> e = der_element tag body"
  then obtain tag body where e: "length body < 2 ^ 32" "e = der_element tag body" by blast
  then show "is_der_element e"
    using CBS_get_any_asn1_element_bytes [of body tag "[]"] by (simp add: is_der_element_def)
qed


definition der_encoding :: "bytes \<Rightarrow> bool" where
  "der_encoding e \<longleftrightarrow> (\<exists>tag body. length body < 2 ^ 32 \<and> e = der_element tag body)"

lemma is_der_element_encoding: "is_der_element = der_encoding"
  by (simp add: fun_eq_iff is_der_element_iff der_encoding_def)

lemma CBS_get_any_asn1_element_split:
  "CBS_get_any_asn1_element s = (Some x, rest) \<Longrightarrow> is_der_element (el_out x) \<and> s = el_out x @ rest"
  unfolding is_der_element_iff
  by (erule CBS_get_any_asn1_element_sound) (metis asn1_element.select_convs(1) der_element_result_def)

lemma CBS_get_any_asn1_element_der:
  "is_der_element e \<Longrightarrow> \<exists>x. CBS_get_any_asn1_element (e @ rest) = (Some x, rest) \<and> el_out x = e"
  using CBS_get_any_asn1_element_bytes by (auto simp: is_der_element_iff der_element_result_def)

lemma is_der_element_nonempty: "is_der_element e \<Longrightarrow> e \<noteq> []"
  by (auto simp: is_der_element_iff der_element_def der_tag_bytes_length)

lemma set_of_count_concat:
  "list_all is_der_element es \<Longrightarrow> set_of_count k (concat es) = Some (k + length es)"
proof (induction es arbitrary: k)
  case Nil
  show ?case by (simp add: set_of_count.simps CBS_len_def)
next
  case (Cons e es)
  then obtain x where "CBS_get_any_asn1_element (e @ concat es) = (Some x, concat es)" "e \<noteq> []"
    using CBS_get_any_asn1_element_der [of e "concat es"] is_der_element_nonempty by auto
  with Cons show ?case by (simp add: set_of_count.simps [of k] CBS_len_def)
qed

lemma set_of_count_sound:
  "set_of_count k s = Some m \<Longrightarrow> \<exists>es. list_all is_der_element es \<and> s = concat es \<and> m = k + length es"
proof (induction k s rule: set_of_count.induct)
  case (1 k s)
  show ?case
  proof (cases "s = []")
    case True
    with "1.prems" show ?thesis by (intro exI [of _ "[]"]) (simp add: set_of_count.simps CBS_len_def)
  next
    case False
    with "1.prems" obtain x rest where x: "CBS_get_any_asn1_element s = (Some x, rest)"
      "set_of_count (k + 1) rest = Some m"
      by (auto simp: set_of_count.simps [of k] CBS_len_def split: prod.splits option.splits)
    from "1.IH" [OF _ x(1) [symmetric] refl x(2)] False obtain es where
      "list_all is_der_element es" "rest = concat es" "m = k + 1 + length es"
      by (auto simp: CBS_len_def)
    with CBS_get_any_asn1_element_split [OF x(1)] show ?thesis
      by (intro exI [of _ "el_out x # es"]) simp
  qed
qed

lemma set_of_children_concat:
  "list_all is_der_element es \<Longrightarrow> set_of_children (length es) (concat es) = Some es"
proof (induction es)
  case (Cons e es)
  then show ?case using CBS_get_any_asn1_element_der [of e "concat es"] by auto
qed simp

lemma CBB_data_holds:
  assumes "holds (pre @ [(p, xs)]) st" "d = length pre"
  shows "CBB_data d st = xs" "CBB_len d st = length xs"
    and "holds (pre @ [(p, [])]) (cbb_rewind d st)" "cbb_evolves st (cbb_rewind d st)"
    and "pre \<noteq> [] \<Longrightarrow> d \<le> length (cbb_children st)"
proof -
  from assms(1) obtain b where st: "st = \<lparr>cbb_base = Some b, cbb_children = tl (chain 0 (pre @ [(p, xs)]))\<rparr>"
    and w: "fst (hd (pre @ [(p, xs)])) = Fixed 0" "list_all child_prefix_ok (tl (pre @ [(p, xs)]))"
      "bb_buf b = layout (pre @ [(p, xs)])" "buffer_ok b"
    by (rule holdsD)
  have self: "cbb_self d st = length (layout pre) + prefix_len p"
  proof (cases pre)
    case Nil
    with w(1) assms(2) show ?thesis by (simp add: cbb_self_def)
  next
    case (Cons f fs)
    then show ?thesis
      by (simp add: cbb_self_def st assms(2) chain_append nth_append)
  qed
  show "CBB_data d st = xs" "CBB_len d st = length xs"
    unfolding CBB_data_def CBB_len_def self by (simp_all add: st w(3))
  have b: "take (cbb_self d st) (bb_buf b) = layout (pre @ [(p, [])])" unfolding self w(3) by simp
  have w': "fst (hd (pre @ [(p, [])])) = Fixed 0" "list_all child_prefix_ok (tl (pre @ [(p, [])]))"
    using w(1,2) hd_last [of pre p xs "[]" "[]"] child_prefix_ok_last [of pre p xs "[]"] by simp_all
  have ok: "buffer_ok (b\<lparr>bb_buf := layout (pre @ [(p, [])])\<rparr>)" using w(3,4) by (simp add: buffer_ok_def)
  have r: "cbb_rewind d st = \<lparr>cbb_base = Some (b\<lparr>bb_buf := layout (pre @ [(p, [])])\<rparr>),
      cbb_children = tl (chain 0 (pre @ [(p, [])]))\<rparr>"
    using b by (simp add: cbb_rewind_def st chain_last [of 0 pre p xs "[]"])
  show "holds (pre @ [(p, [])]) (cbb_rewind d st)" using w' ok unfolding r by (simp add: holds_def)
  show "cbb_evolves st (cbb_rewind d st)" unfolding r by (simp add: cbb_evolves_def st)
  show "pre \<noteq> [] \<Longrightarrow> d \<le> length (cbb_children st)" by (simp add: st assms(2))
qed

lemma add_all_produces:
  "holds (pre @ [(p, xs)]) st \<Longrightarrow> length (concat zss) < SIZE_MODULUS \<Longrightarrow>
   length (layout (pre @ [(p, xs @ concat zss)])) \<le> n \<Longrightarrow> d = length pre \<Longrightarrow>
   produces (cbb_seq (map (\<lambda>zs. CBB_add_bytes zs d) zss)) st n (pre @ [(p, xs @ concat zss)])"
proof (induction zss arbitrary: xs st)
  case Nil
  then show ?case using produces_Nil [of _ st n] by (simp del: cbb_seq.simps)
next
  case (Cons zs zss)
  show ?case unfolding list.map
  proof (rule produces_seq)
    show "produces (CBB_add_bytes zs d) st n (pre @ [(p, xs @ zs)])"
      using CBB_add_bytes_produces [OF Cons.prems(1), of "[]" zs n d] Cons.prems(2-4) by simp
  next
    fix st' assume "holds (pre @ [(p, xs @ zs)]) st'"
    then show "produces (cbb_seq (map (\<lambda>zs. CBB_add_bytes zs d) zss)) st' n
        (pre @ [(p, xs @ concat (zs # zss))])"
      using Cons.IH [of "xs @ zs" st'] Cons.prems(2-4) by simp
  qed
qed

lemma sorted_concat_length: "length (concat (qsort cmp es)) = length (concat es)"
  by (simp only: length_concat sum_list_qsort)

text \<open>On a frame whose contents are the elements \<open>es\<close>, success means that they are now
  sorted; on other contents the call fails.\<close>

lemma CBB_flush_set_of_sound:
  assumes h: "holds (pre @ (p, xs) # post) st" "collapse post = Some ys" "d = length pre"
    and run: "CBB_flush_asn1_set_of d st = (True, st')"
  shows "\<exists>es. list_all is_der_element es \<and> xs @ ys = concat es \<and>
    holds (pre @ [(p, concat (qsort compare_set_of_element es))]) st'"
proof -
  let ?fs = "pre @ [(p, xs @ ys)]"
  have "produces (CBB_flush d) st (length (layout ?fs)) ?fs"
    unfolding h(3) by (rule CBB_flush_produces [OF h(1,2)]) simp
  moreover from run obtain st1 where f: "CBB_flush d st = (True, st1)"
    by (auto simp: CBB_flush_asn1_set_of_def split: prod.splits bool.splits)
  ultimately have h1: "holds ?fs st1" by (simp add: produces_def)
  note data = CBB_data_holds [OF h1 h(3)]
  have init: "CBS_init (xs @ ys) (length (xs @ ys)) = xs @ ys" by (simp add: CBS_init_def)
  from run obtain k where k: "set_of_count 0 (xs @ ys) = Some k"
    using init by (auto simp: CBB_flush_asn1_set_of_def f data split: option.splits)
  then obtain es where es: "list_all is_der_element es" "xs @ ys = concat es" "k = length es"
    using set_of_count_sound by fastforce
  show ?thesis
  proof (cases "k < 2")
    case True
    with run have "st' = st1" using init k by (simp add: CBB_flush_asn1_set_of_def f data)
    with es True h1 show ?thesis by (intro exI [of _ es]) (simp add: qsort_short)
  next
    case False
    have ne: "xs @ ys \<noteq> []" using es False is_der_element_nonempty by (cases es) auto
    have memdup: "OPENSSL_memdup a (xs @ ys) (length (xs @ ys)) \<in> {None, Some (xs @ ys)}" for a
      by (simp add: OPENSSL_memdup_def)
    have ch: "set_of_children k (xs @ ys) = Some es" unfolding es(2,3) by (rule set_of_children_concat [OF es(1)])
    have run': "cbb_seq (map (\<lambda>c. CBB_add_bytes c d) (qsort compare_set_of_element es)) (cbb_rewind d st1) =
        (True, st')"
      using run False memdup [of "cbb_alloc st1"] ch init k
      by (auto simp: CBB_flush_asn1_set_of_def f data CBS_data_def split: if_splits option.splits)
    have "holds (pre @ [(p, [])]) (cbb_rewind d st1)" by (rule data(3))
    from add_all_produces [OF this, of "qsort compare_set_of_element es" _ d] h1
    have "produces (cbb_seq (map (\<lambda>c. CBB_add_bytes c d) (qsort compare_set_of_element es))) (cbb_rewind d st1)
        (length (layout ?fs)) (pre @ [(p, concat (qsort compare_set_of_element es))])"
      using es(2) h(3) sorted_concat_length [of compare_set_of_element es]
      by (auto simp: holds_def buffer_ok_def simp del: length_concat split: option.splits)
    with run' have "holds (pre @ [(p, concat (qsort compare_set_of_element es))]) st'"
      by (simp add: produces_def)
    with es show ?thesis by blast
  qed
qed

section \<open>Nested elements\<close>

text \<open>Any tree of elements, its encoding, and the calls that write it: open the element, write
  its contents or its children one level down, flush.\<close>

datatype asn1_tree = Leaf u32 bytes | Node u32 "asn1_tree list"

fun encode_tree :: "asn1_tree \<Rightarrow> bytes" where
  "encode_tree (Leaf tag body) = der_element tag body"
| "encode_tree (Node tag ts) = der_element tag (concat (map encode_tree ts))"

fun build_tree :: "asn1_tree \<Rightarrow> nat \<Rightarrow> cbb_op" where
  "build_tree (Leaf tag body) d = cbb_seq [CBB_add_asn1 tag d, CBB_add_bytes body (d + 1), CBB_flush d]"
| "build_tree (Node tag ts) d =
     cbb_seq [CBB_add_asn1 tag d, cbb_seq (map (\<lambda>t. build_tree t (d + 1)) ts), CBB_flush d]"

lemma der_element_length: "length body \<le> length (der_element tag body)"
  by (simp add: der_element_def)

lemma element_room:
  "length (layout (pre @ [(p, xs @ der_element tag body)])) \<le> n \<Longrightarrow> length body \<le> 0xfffffffe \<Longrightarrow>
   length (layout ((pre @ [(p, xs @ der_tag_bytes tag)]) @ [(Asn1, body)])) \<le> n"
  using der_len_bytes_length [of "length body"] by (simp add: der_element_def)

lemma encode_tree_member: "t \<in> set ts \<Longrightarrow> length (encode_tree t) \<le> length (concat (map encode_tree ts))"
  by (induction ts) auto

lemma build_trees_produces:
  assumes "\<And>t pre p xs st d. t \<in> set ts \<Longrightarrow> holds (pre @ [(p, xs)]) st \<Longrightarrow>
      length (encode_tree t) \<le> 0xfffffffe \<Longrightarrow>
      length (layout (pre @ [(p, xs @ encode_tree t)])) \<le> n \<Longrightarrow> d = length pre \<Longrightarrow>
      produces (build_tree t d) st n (pre @ [(p, xs @ encode_tree t)])"
    and "holds (pre @ [(p, xs)]) st" "length (concat (map encode_tree ts)) \<le> 0xfffffffe"
    and "length (layout (pre @ [(p, xs @ concat (map encode_tree ts))])) \<le> n" "d = length pre"
  shows "produces (cbb_seq (map (\<lambda>t. build_tree t d) ts)) st n (pre @ [(p, xs @ concat (map encode_tree ts))])"
  using assms
proof (induction ts arbitrary: xs st)
  case Nil
  then show ?case using produces_Nil [of _ st n] by (simp del: cbb_seq.simps)
next
  case (Cons t ts)
  show ?case unfolding list.map
  proof (rule produces_seq)
    show "produces (build_tree t d) st n (pre @ [(p, xs @ encode_tree t)])"
      using Cons.prems(3-5) by (intro Cons.prems(1) Cons.prems(2)) auto
  next
    fix st' assume h: "holds (pre @ [(p, xs @ encode_tree t)]) st'"
    have "produces (cbb_seq (map (\<lambda>t. build_tree t d) ts)) st' n
        (pre @ [(p, (xs @ encode_tree t) @ concat (map encode_tree ts))])"
    proof (rule Cons.IH [OF _ h])
      show "produces (build_tree u d') st'' n (pre' @ [(p', xs' @ encode_tree u)])"
        if "u \<in> set ts" "holds (pre' @ [(p', xs')]) st''" "length (encode_tree u) \<le> 0xfffffffe"
          "length (layout (pre' @ [(p', xs' @ encode_tree u)])) \<le> n" "d' = length pre'"
        for u pre' p' xs' st'' d' using Cons.prems(1) [of u] that by simp
    qed (use Cons.prems(3-5) in auto)
    then show "produces (cbb_seq (map (\<lambda>t. build_tree t d) ts)) st' n
        (pre @ [(p, xs @ concat (encode_tree t # map encode_tree ts))])" by simp
  qed
qed

lemma build_tree_produces:
  "holds (pre @ [(p, xs)]) st \<Longrightarrow> length (encode_tree t) \<le> 0xfffffffe \<Longrightarrow>
   length (layout (pre @ [(p, xs @ encode_tree t)])) \<le> n \<Longrightarrow> d = length pre \<Longrightarrow>
   produces (build_tree t d) st n (pre @ [(p, xs @ encode_tree t)])"
proof (induction t arbitrary: pre p xs st d)
  case (Leaf tag body)
  have b: "length body \<le> 0xfffffffe" using Leaf.prems(2) der_element_length [of body tag] by simp
  have n: "length (layout (pre @ [(p, xs @ [] @ der_element tag body)])) \<le> n" using Leaf.prems(3) by simp
  have "produces (cbb_seq [CBB_add_asn1 tag d, CBB_add_bytes body (d + 1), CBB_flush d]) st n
      (pre @ [(p, xs @ [] @ der_element tag body)])"
  proof (rule element_produces [OF Leaf.prems(1) _ b n Leaf.prems(4)])
    fix st' assume h: "holds (pre @ [(p, xs @ [] @ der_tag_bytes tag), (Asn1, [])]) st'"
    show "produces (CBB_add_bytes body (d + 1)) st' n (pre @ [(p, xs @ [] @ der_tag_bytes tag), (Asn1, body)])"
      using CBB_add_bytes_produces [of "pre @ [(p, xs @ der_tag_bytes tag)]" Asn1 "[]" "[]" st' "[]" body n "d + 1"]
        h b element_room [of pre p xs tag body n] n Leaf.prems(4) by simp
  qed simp
  then show ?case by (simp del: cbb_seq.simps)
next
  case (Node tag ts)
  let ?body = "concat (map encode_tree ts)"
  have b: "length ?body \<le> 0xfffffffe"
    using Node.prems(2) der_element_length [of ?body tag] by simp
  have n: "length (layout (pre @ [(p, xs @ [] @ der_element tag ?body)])) \<le> n" using Node.prems(3) by simp
  have "produces (cbb_seq [CBB_add_asn1 tag d, cbb_seq (map (\<lambda>t. build_tree t (d + 1)) ts), CBB_flush d]) st n
      (pre @ [(p, xs @ [] @ der_element tag ?body)])"
  proof (rule element_produces [OF Node.prems(1) _ b n Node.prems(4)])
    fix st' assume h: "holds (pre @ [(p, xs @ [] @ der_tag_bytes tag), (Asn1, [])]) st'"
    show "produces (cbb_seq (map (\<lambda>t. build_tree t (d + 1)) ts)) st' n
        (pre @ [(p, xs @ [] @ der_tag_bytes tag), (Asn1, ?body)])"
      using build_trees_produces [of ts n "pre @ [(p, xs @ der_tag_bytes tag)]" Asn1 "[]" st' "d + 1"]
        Node.IH h b element_room [of pre p xs tag ?body n] n Node.prems(4) by simp
  qed simp
  then show ?case by (simp del: cbb_seq.simps)
qed

section \<open>A failed builder stays failed\<close>

lemma CBB_flush_failed: "cbb_failed st \<Longrightarrow> \<exists>st'. CBB_flush d st = (False, st') \<and> cbb_failed st'"
proof -
  have "bb_error b \<Longrightarrow> cbb_flush_chain b cs = (False, b, cs)" for b cs by (cases cs) auto
  then show "cbb_failed st \<Longrightarrow> ?thesis"
    by (auto simp: cbb_failed_def CBB_flush_def split: option.splits)
qed

lemma flush_first_failed:
  "cbb_failed st \<Longrightarrow> \<exists>st'. cbb_seq (CBB_flush d # fs) st = (False, st') \<and> cbb_failed st'"
  using CBB_flush_failed [of st d] by auto

lemma seq_first_failed:
  "\<exists>st'. f st = (False, st') \<and> cbb_failed st' \<Longrightarrow> \<exists>st'. cbb_seq (f # fs) st = (False, st') \<and> cbb_failed st'"
  by auto


lemma CBB_finish_failed: "cbb_failed st \<Longrightarrow> fst (CBB_finish out_ok 0 st) = None"
  using CBB_flush_failed [of st 0] by (auto simp: CBB_finish_def)

lemma on_base_room:
  assumes "\<forall>m < 2 ^ 63. al (m + 8)" "c < 2 ^ 62" "length xs < 2 ^ 62"
    and "\<And>st. holds [(Fixed 0, [])] st \<Longrightarrow> produces f st (length xs) [(Fixed 0, xs)]"
  shows "\<exists>st st'. CBB_init al c = (True, st) \<and> f st = (True, st') \<and> fst (CBB_finish True 0 st') = Some xs"
proof -
  from CBB_init_total [OF assms(1,2)] obtain st where st: "CBB_init al c = (True, st)"
    "holds [(Fixed 0, [])] st" "\<And>n. n < 2 ^ 62 \<Longrightarrow> can_grow st n" by blast
  from finish_produces [OF assms(4) [OF st(2)], of "[]"] st(3) [OF assms(3)] st(1) show ?thesis by auto
qed

lemma der_element_length_le: "length (der_element tag body) \<le> 11 + length body"
  using der_tag_bytes_length(1) [of tag]
  by (auto simp: der_element_def der_len_bytes_def der_len_len_def)

lemma cbb_alloc_evolves: "cbb_evolves st st' \<Longrightarrow> cbb_alloc st' = cbb_alloc st"
  by (auto simp: cbb_evolves_def cbb_alloc_def evolves_def split: option.splits)

lemma holds_can_grow: "holds fs st \<Longrightarrow> n \<le> length (layout fs) \<Longrightarrow> can_grow st n"
  by (auto simp: holds_def can_grow_def grows_def buffer_ok_def split: option.splits)

lemma der_elements_length: "list_all is_der_element es \<Longrightarrow> length es \<le> length (concat es)"
proof (induction es)
  case (Cons e es)
  then show ?case using is_der_element_nonempty [of e] by (cases e) auto
qed simp

lemma CBB_flush_set_of_complete:
  assumes h: "holds (pre @ [(p, concat es)]) st" and es: "list_all is_der_element es"
    and al: "\<forall>m < 2 ^ 63. cbb_alloc st (m + 8)" "length (concat es) < 2 ^ 59"
  shows "fst (CBB_flush_asn1_set_of (length pre) st)"
proof -
  let ?xs = "concat es" and ?d = "length pre"
  let ?fs = "pre @ [(p, ?xs)]"
  have "produces (CBB_flush ?d) st (length (layout ?fs)) ?fs"
    by (rule CBB_flush_last [OF h]) simp
  then obtain st1 where f: "CBB_flush ?d st = (True, st1)" and h1: "holds ?fs st1" and ev: "cbb_evolves st st1"
    using holds_can_grow [OF h order_refl] by (auto simp: produces_def split: prod.splits bool.splits)
  note data = CBB_data_holds [OF h1 refl]
  have init: "CBS_init ?xs (length ?xs) = ?xs" by (simp add: CBS_init_def)
  have k: "set_of_count 0 ?xs = Some (length es)" using set_of_count_concat [OF es, of 0] by simp
  have le: "length es \<le> length ?xs" by (rule der_elements_length [OF es])
  show ?thesis
  proof (cases "length es < 2")
    case True
    then show ?thesis using init k by (simp add: CBB_flush_asn1_set_of_def f data)
  next
    case False
    let ?al = "cbb_alloc st1"
    have alloc: "?al (length ?xs + 8)" "?al (length es * 16 + 8)"
      using al le by (auto simp: cbb_alloc_evolves [OF ev])
    have ne: "?xs \<noteq> []" using le False by (metis list.size(3) not_less_eq_eq numeral_2_eq_2 le_trans le0 not_less le_zero_eq zero_less_Suc)
    have m: "OPENSSL_memdup ?al ?xs (length ?xs) = Some ?xs" "OPENSSL_malloc ?al (length es * 16)"
      using alloc al(2) le ne by (simp_all add: OPENSSL_memdup_def OPENSSL_malloc_def)
    have small: "\<not> (SIZE_MODULUS - 1) div sizeof_CBS < length es" using al(2) le by simp
    have "produces (cbb_seq (map (\<lambda>c. CBB_add_bytes c ?d) (qsort compare_set_of_element es))) (cbb_rewind ?d st1)
        (length (layout ?fs)) (pre @ [(p, [] @ concat (qsort compare_set_of_element es))])"
      using al(2) sorted_concat_length [of compare_set_of_element es]
      by (intro add_all_produces [OF data(3)]) (auto simp del: length_concat)
    moreover have "can_grow (cbb_rewind ?d st1) (length (layout ?fs))"
      by (rule cbb_evolves_grow [OF data(4)]) (rule holds_can_grow [OF h1 order_refl])
    ultimately have "fst (cbb_seq (map (\<lambda>c. CBB_add_bytes c ?d) (qsort compare_set_of_element es)) (cbb_rewind ?d st1))"
      by (auto simp: produces_def split: prod.splits bool.splits)
    then show ?thesis
      using False m small init k set_of_children_concat [OF es]
      by (simp add: CBB_flush_asn1_set_of_def f data CBS_data_def)
  qed
qed

section \<open>Properties\<close>

text \<open>C1: Writing any tree of ASN.1 elements through nested children of a growable builder and
  finishing gives the DER encoding of the tree, whatever the initial capacity: the length
  prefixes are computed afterwards, and contents move when they turn out longer than a byte.\<close>

theorem CBB_build_tree:
  assumes "\<forall>m < 2 ^ 63. al (m + 8)" "c < 2 ^ 62" "length (encode_tree t) \<le> 0xfffffffe"
  shows "\<exists>st st'. CBB_init al c = (True, st) \<and> build_tree t 0 st = (True, st') \<and>
    fst (CBB_finish True 0 st') = Some (encode_tree t)"
  using build_tree_produces [of "[]" "Fixed 0" "[]" _ t] assms(3)
  by (intro on_base_room [OF assms(1,2)]) auto

lemma CBB_build_tree_witness:
  "\<exists>st st'. CBB_init (\<lambda>_. True) 1 = (True, st) \<and>
     build_tree (Node 0x20000010 [Leaf 2 [5], Node 0xbfffffff [], Leaf 4 (replicate 200 7)]) 0 st = (True, st') \<and>
     fst (CBB_finish True 0 st') =
       Some (encode_tree (Node 0x20000010 [Leaf 2 [5], Node 0xbfffffff [], Leaf 4 (replicate 200 7)]))"
  by (rule CBB_build_tree) (use der_element_length_le [of 2 "[5]"] der_element_length_le [of "0xbfffffff" "[]"]
    der_element_length_le [of 4 "replicate 200 7"] in \<open>auto intro: order_trans [OF der_element_length_le]\<close>)

text \<open>C19: The INTEGER writer and the INTEGER reader are inverse on every 64-bit signed value.\<close>

theorem CBB_asn1_int64_roundtrip:
  assumes "\<forall>m < 2 ^ 63. al (m + 8)" "c < 2 ^ 62"
  shows "\<exists>st st' out. CBB_init al c = (True, st) \<and> CBB_add_asn1_int64 v 0 st = (True, st') \<and>
    fst (CBB_finish True 0 st') = Some out \<and> CBS_get_asn1_int64 (out @ rest) = (Some (sint v), rest)"
proof -
  let ?e = "der_element CBS_ASN1_INTEGER (der_int_body v)"
  have "length ?e < 2 ^ 62" using der_element_length_le [of 2 "der_int_body v"] length_der_uint_body(2) [of v] by simp
  from on_base_room [OF assms this, of "CBB_add_asn1_int64 v 0"]
    CBB_add_asn1_int64_produces [of "[]" "Fixed 0" "[]" "[]" _ "[]" v "length ?e" 0]
  show ?thesis by (auto simp: CBS_get_asn1_int64_iff)
qed

lemma CBB_asn1_int64_roundtrip_witness:
  "\<exists>st st' out. CBB_init (\<lambda>_. True) 0 = (True, st) \<and> CBB_add_asn1_int64 (- 129) 0 st = (True, st') \<and>
    fst (CBB_finish True 0 st') = Some out \<and>
    CBS_get_asn1_int64 (out @ [1]) = (Some (sint (- 129 :: u64)), [1])"
  by (rule CBB_asn1_int64_roundtrip) simp_all

text \<open>C20: A length-prefixed child with a prefix of one to three bytes: if the contents fit the
  prefix, the finished buffer is read back by the reader of that prefix; if they do not, the
  builder reports failure when it is finished.\<close>

theorem CBB_length_prefixed_roundtrip:
  assumes "\<forall>m < 2 ^ 63. al (m + 8)" "c < 2 ^ 62" "1 \<le> k" "k \<le> 3" "length zs < 2 ^ 61"
  shows "\<exists>st st'. CBB_init al c = (True, st) \<and>
    cbb_seq [cbb_add_length_prefixed k 0, CBB_add_bytes zs 1] st = (True, st') \<and>
    (case fst (CBB_finish True 0 st') of
       None \<Rightarrow> 256 ^ k \<le> length zs
     | Some out \<Rightarrow> length zs < 256 ^ k \<and> cbs_get_length_prefixed k (out @ rest) = (Some zs, rest))"
proof -
  let ?n = "length zs + 3"
  from CBB_init_total [OF assms(1,2)] obtain st where st: "CBB_init al c = (True, st)"
    "holds [(Fixed 0, [])] st" "\<And>n. n < 2 ^ 62 \<Longrightarrow> can_grow st n" by blast
  have "produces (cbb_seq [cbb_add_length_prefixed k 0, CBB_add_bytes zs 1]) st ?n
      [(Fixed 0, []), (Fixed k, zs)]"
  proof (rule produces_pair)
    show "produces (cbb_add_length_prefixed k 0) st ?n [(Fixed 0, []), (Fixed k, [])]"
      using cbb_add_length_prefixed_produces [of "[]" "Fixed 0" "[]" "[]" st "[]" k ?n 0] st(2) assms(3,4) by simp
  next
    fix st1 assume "holds [(Fixed 0, []), (Fixed k, [])] st1"
    then show "produces (CBB_add_bytes zs 1) st1 ?n [(Fixed 0, []), (Fixed k, zs)]"
      using CBB_add_bytes_produces [of "[(Fixed 0, [])]" "Fixed k" "[]" "[]" st1 "[]" zs ?n 1] assms(4,5) by simp
  qed
  with st(3) [of ?n] assms(5) obtain st' where st': "holds [(Fixed 0, []), (Fixed k, zs)] st'" "cbb_evolves st st'"
    "cbb_seq [cbb_add_length_prefixed k 0, CBB_add_bytes zs 1] st = (True, st')"
    by (auto simp: produces_def simp del: cbb_seq.simps split: prod.splits bool.splits)
  have "case fst (CBB_finish True 0 st') of
       None \<Rightarrow> 256 ^ k \<le> length zs
     | Some out \<Rightarrow> length zs < 256 ^ k \<and> cbs_get_length_prefixed k (out @ rest) = (Some zs, rest)"
  proof (cases "length zs < 256 ^ k")
    case True
    let ?pre = "be_bytes k (of_nat (length zs)) @ zs"
    have "can_grow st' (length ?pre)"
      using cbb_evolves_grow [OF st'(2)] st(3) assms(4,5) by simp
    then have "fst (CBB_finish True 0 st') = Some ?pre"
      using CBB_finish_Some [OF st'(1), of ?pre True] True by (auto simp: close_frame_def)
    then show ?thesis using length_prefixed_bytes [of zs k rest] True assms(4) by (simp add: pow_256)
  next
    case False
    then show ?thesis using CBB_finish_None [OF st'(1), of True] by (simp add: close_frame_def)
  qed
  with st(1) st'(3) show ?thesis by blast
qed

lemma CBB_length_prefixed_roundtrip_witness:
  "\<exists>st st'. CBB_init (\<lambda>_. True) 0 = (True, st) \<and>
    cbb_seq [cbb_add_length_prefixed 1 0, CBB_add_bytes [7, 8] 1] st = (True, st') \<and>
    (case fst (CBB_finish True 0 st') of
       None \<Rightarrow> 256 ^ 1 \<le> length [7 :: byte, 8]
     | Some out \<Rightarrow> length [7 :: byte, 8] < 256 ^ 1 \<and>
         cbs_get_length_prefixed 1 (out @ [9]) = (Some [7, 8], [9]))"
  by (rule CBB_length_prefixed_roundtrip) simp_all

text \<open>C32: A builder over a fixed buffer of \<open>c\<close> bytes accepts exactly the byte strings that
  fit, and never moves or exceeds the buffer.\<close>

theorem CBB_fixed_bounds:
  assumes "CBB_init_fixed al c = (True, st)" "c < SIZE_MODULUS" "length xs < SIZE_MODULUS"
  shows "(case CBB_add_bytes xs 0 st of
      (True, st') \<Rightarrow> length xs \<le> c \<and> fst (CBB_finish False 0 st') = Some xs
    | (False, st') \<Rightarrow> length xs > c \<and> fst (CBB_finish False 0 st') = None)"
proof -
  from CBB_init_fixed_holds [OF assms(1,2)]
  have h: "holds [(Fixed 0, [])] st" and g: "\<And>n. can_grow st n \<longleftrightarrow> n \<le> c" by auto
  have fixed: "\<exists>b. cbb_base st = Some b \<and> \<not> bb_can_resize b \<and> bb_cap b = c"
    using assms(1) by (auto simp: CBB_init_fixed_def cbb_init_def split: if_splits)
  have p: "produces (CBB_add_bytes xs 0) st (length xs) [(Fixed 0, xs)]"
    using CBB_add_bytes_produces [of "[]" "Fixed 0" "[]" "[]" st "[]" xs "length xs" 0] h assms(3) by simp
  obtain ok st' where run: "CBB_add_bytes xs 0 st = (ok, st')" by (cases "CBB_add_bytes xs 0 st")
  show ?thesis
  proof (cases ok)
    case True
    with p run have h': "holds ((Fixed 0, xs) # []) st'" and ev: "cbb_evolves st st'"
      by (auto simp: produces_def)
    from ev fixed obtain b' where b': "cbb_base st' = Some b'" "\<not> bb_can_resize b'" "bb_cap b' = c"
      by (auto simp: cbb_evolves_def evolves_def split: option.splits)
    with h' have len: "length xs \<le> c" by (auto simp: holds_def buffer_ok_def)
    have "can_grow st' (length xs)" using cbb_evolves_grow [OF ev] g len by simp
    with CBB_finish_Some [OF h', of "[]" False] b' have "fst (CBB_finish False 0 st') = Some xs" by auto
    with run True len show ?thesis by simp
  next
    case False
    with p run have f: "cbb_failed st'" "\<not> length xs \<le> c" by (auto simp: produces_def g)
    with run False CBB_finish_failed [OF f(1)] show ?thesis by simp
  qed
qed

lemma CBB_fixed_bounds_witness:
  "(case CBB_add_bytes [1, 2, 3] 0 (snd (CBB_init_fixed (\<lambda>_. True) 2)) of
      (True, st') \<Rightarrow> length [1 :: byte, 2, 3] \<le> 2 \<and> fst (CBB_finish False 0 st') = Some [1, 2, 3]
    | (False, st') \<Rightarrow> length [1 :: byte, 2, 3] > 2 \<and> fst (CBB_finish False 0 st') = None)"
  by (rule CBB_fixed_bounds [of "\<lambda>_. True"])
    (simp_all add: CBB_init_fixed_def cbb_init_def OPENSSL_malloc_def)

text \<open>C34: \<open>CBB_flush_asn1_set_of\<close> succeeds exactly when the frame's contents are a sequence
  of DER elements; it then holds the same elements in ascending order of their encodings, and
  nothing else of the builder changes.  Ascending is the order of DER, defined by itself.\<close>

theorem CBB_flush_set_of_sorts:
  assumes "holds (pre @ [(p, xs)]) st" "\<forall>m < 2 ^ 63. cbb_alloc st (m + 8)" "length xs < 2 ^ 59"
  shows "case CBB_flush_asn1_set_of (length pre) st of
      (True, st') \<Rightarrow> \<exists>es fs. list_all der_encoding es \<and> xs = concat es \<and> mset fs = mset es \<and>
        sorted_wrt der_before fs \<and> holds (pre @ [(p, concat fs)]) st'
    | (False, st') \<Rightarrow> \<nexists>es. list_all der_encoding es \<and> xs = concat es"
proof (cases "CBB_flush_asn1_set_of (length pre) st")
  case (Pair ok st')
  show ?thesis
  proof (cases ok)
    case True
    with Pair CBB_flush_set_of_sound [OF assms(1) _ refl, of "[]" st', unfolded is_der_element_encoding] obtain es where
      "list_all der_encoding es" "xs = concat es"
      "holds (pre @ [(p, concat (qsort compare_set_of_element es))]) st'" by auto
    moreover have "sorted_wrt der_before (qsort compare_set_of_element es)"
      using set_of.sorted_qsort [of es] unfolding set_of.le_def compare_set_of_der_before .
    ultimately have "\<exists>es fs. list_all der_encoding es \<and> xs = concat es \<and> mset fs = mset es \<and>
        sorted_wrt der_before fs \<and> holds (pre @ [(p, concat fs)]) st'"
      by (intro exI [of _ es] exI [of _ "qsort compare_set_of_element es"] conjI) simp_all
    with Pair True show ?thesis by simp
  next
    case False
    with Pair CBB_flush_set_of_complete [of pre p _ st, unfolded is_der_element_encoding] assms show ?thesis by auto
  qed
qed

definition set_of_sample :: cbb where
  "set_of_sample =
     \<lparr>cbb_base = Some \<lparr>bb_buf = [4, 1, 9, 2, 1, 5, 4, 0], bb_cap = 10, bb_can_resize = True,
                       bb_error = False, bb_alloc = \<lambda>_. True\<rparr>, cbb_children = []\<rparr>"

lemma CBB_flush_set_of_sorts_witness:
  "case CBB_flush_asn1_set_of (length ([] :: frame list)) set_of_sample of
      (True, st') \<Rightarrow> \<exists>es fs. list_all der_encoding es \<and> [4, 1, 9, 2, 1, 5, 4, 0] = concat es \<and> mset fs = mset es \<and>
        sorted_wrt der_before fs \<and> holds ([] @ [(Fixed 0, concat fs)]) st'
    | (False, st') \<Rightarrow> \<nexists>es. list_all der_encoding es \<and> [4, 1, 9, 2, 1, 5, 4, 0] = concat es"
  by (rule CBB_flush_set_of_sorts) (simp_all add: holds_def set_of_sample_def buffer_ok_def cbb_alloc_def)

end
