(* ===== verification/Codec.thy ===== *)
theory Codec
  imports DER
begin

text \<open>
  The contract of a reader and the encoding it accepts: one item is read exactly when its
  encoding, which is never empty, starts the input.  The readers of DER elements, base-128
  numbers and the character encodings of \<open>crypto/bytestring/unicode.c\<close> all keep it; what
  follows from it alone is proved once here.
\<close>

locale byte_codec =
  fixes enc :: "'a \<Rightarrow> bytes option"
    and dec :: "(bytes, 'a) op"
  assumes dec_iff: "dec s = (Some x, rest) \<longleftrightarrow> (\<exists>e. enc x = Some e \<and> s = e @ rest)"
    and enc_nonempty: "enc x \<noteq> Some []"

text \<open>All items of an input, one after the other; the fuel bounds the number of items.\<close>

fun decode_all :: "(bytes, 'a) op \<Rightarrow> nat \<Rightarrow> bytes \<Rightarrow> 'a list option" where
  "decode_all dec n s =
     (if s = [] then Some []
      else case n of
             0 \<Rightarrow> None
           | Suc m \<Rightarrow>
               (case dec s of
                  (None, _) \<Rightarrow> None
                | (Some x, s') \<Rightarrow> map_option (Cons x) (decode_all dec m s')))"

fun encode_all :: "('a \<Rightarrow> bytes option) \<Rightarrow> 'a list \<Rightarrow> bytes option" where
  "encode_all enc [] = Some []"
| "encode_all enc (x # xs) =
     (case (enc x, encode_all enc xs) of (Some e, Some es) \<Rightarrow> Some (e @ es) | _ \<Rightarrow> None)"

declare decode_all.simps [simp del]

lemma decode_all_Nil [simp]: "decode_all dec n [] = Some []"
  by (simp add: decode_all.simps)

lemma encode_all_append:
  "encode_all enc (xs @ ys) =
     (case (encode_all enc xs, encode_all enc ys) of (Some a, Some b) \<Rightarrow> Some (a @ b) | _ \<Rightarrow> None)"
  by (induction xs) (auto split: option.splits)

lemma encode_all_total: "(\<And>x. enc x = Some (e x)) \<Longrightarrow> encode_all enc xs = Some (concat (map e xs))"
  by (induction xs) auto

context byte_codec
begin

lemma dec_enc: "enc x = Some e \<Longrightarrow> dec (e @ rest) = (Some x, rest)"
  using dec_iff by blast

lemma dec_shorter: "dec s = (Some x, rest) \<Longrightarrow> length rest < length s"
  using enc_nonempty [of x] by (auto simp: dec_iff)

lemma enc_inj: "enc x = Some e \<Longrightarrow> enc y = Some e \<Longrightarrow> x = y"
  using dec_enc [of x e "[]"] dec_enc [of y e "[]"] by simp

text \<open>No encoding is a proper prefix of another.\<close>

lemma enc_prefix_free: "enc x = Some e \<Longrightarrow> enc y = Some (e @ r) \<Longrightarrow> r = [] \<and> x = y"
  using dec_enc [of x e r] dec_enc [of y "e @ r" "[]"] by simp

lemma decode_all_enc:
  "encode_all enc xs = Some s \<Longrightarrow> length s \<le> n \<Longrightarrow> decode_all dec n s = Some xs"
proof (induction xs arbitrary: s n)
  case (Cons x xs)
  then obtain e es where e: "enc x = Some e" "encode_all enc xs = Some es" "s = e @ es"
    by (auto split: option.splits)
  with enc_nonempty [of x] have ne: "s \<noteq> []" "length es < length s" by auto
  then obtain m where n: "n = Suc m" using Cons.prems(2) by (cases n) auto
  with ne Cons.prems(2) have "length es \<le> m" by simp
  with Cons.IH [OF e(2)] ne n e dec_enc [OF e(1)] show ?case
    by (subst decode_all.simps) simp
qed simp

lemma decode_all_sound: "decode_all dec n s = Some xs \<Longrightarrow> encode_all enc xs = Some s"
proof (induction n arbitrary: s xs)
  case 0
  then show ?case by (auto simp: decode_all.simps split: if_splits)
next
  case (Suc n)
  show ?case
  proof (cases "s = []")
    case True
    with Suc.prems show ?thesis by simp
  next
    case False
    with Suc.prems obtain x s' ys where x: "dec s = (Some x, s')" "decode_all dec n s' = Some ys" "xs = x # ys"
      by (auto simp: decode_all.simps [of _ "Suc n"] split: prod.splits option.splits)
    from x(1) dec_iff obtain e where "enc x = Some e" "s = e @ s'" by blast
    with Suc.IH [OF x(2)] x(3) show ?thesis by simp
  qed
qed

text \<open>A string is a sequence of encodings in at most one way.\<close>

lemma decode_all_iff: "decode_all dec (length s) s = Some xs \<longleftrightarrow> encode_all enc xs = Some s"
  using decode_all_enc decode_all_sound by blast

lemma encode_all_inj: "encode_all enc xs = Some s \<Longrightarrow> encode_all enc ys = Some s \<Longrightarrow> xs = ys"
  using decode_all_iff by (metis option.inject)

lemma encode_all_length: "encode_all enc xs = Some s \<Longrightarrow> length xs \<le> length s"
proof (induction xs arbitrary: s)
  case (Cons x xs)
  then obtain e es where e: "enc x = Some e" "encode_all enc xs = Some es" "s = e @ es"
    by (auto split: option.splits)
  with enc_nonempty [of x] have "1 \<le> length e" by (cases e) auto
  with Cons.IH [OF e(2)] e(3) show ?case by simp
qed simp

lemma decode_all_length: "decode_all dec (length s) s = Some xs \<Longrightarrow> length xs \<le> length s"
  using encode_all_length by (simp only: decode_all_iff)

text \<open>More fuel than bytes changes nothing.\<close>

lemma decode_all_fuel:
  assumes "length s \<le> n"
  shows "decode_all dec n s = decode_all dec (length s) s"
proof (cases "decode_all dec (length s) s")
  case (Some ys)
  then have "decode_all dec n s = Some ys"
    by (intro decode_all_enc assms) (simp only: decode_all_iff)
  with Some show ?thesis by simp
next
  case None
  have "decode_all dec n s \<noteq> Some ys" for ys
  proof
    assume "decode_all dec n s = Some ys"
    then have "encode_all enc ys = Some s" by (rule decode_all_sound)
    then have "decode_all dec (length s) s = Some ys" by (simp only: decode_all_iff)
    with None show False by simp
  qed
  with None show ?thesis by (cases "decode_all dec n s") auto
qed

lemma decode_all_step:
  "s \<noteq> [] \<Longrightarrow>
   decode_all dec (length s) s =
     (case dec s of
        (None, _) \<Rightarrow> None
      | (Some x, s') \<Rightarrow> map_option (Cons x) (decode_all dec (length s') s'))"
proof -
  assume ne: "s \<noteq> []"
  then obtain m where m: "length s = Suc m" by (cases s) auto
  show ?thesis
  proof (cases "dec s")
    case (Pair r s')
    show ?thesis
    proof (cases r)
      case None
      with Pair ne m show ?thesis by (subst decode_all.simps) simp
    next
      case (Some x)
      with Pair dec_shorter [of s x s'] m have "length s' \<le> m" by simp
      from decode_all_fuel [OF this] Pair Some ne m show ?thesis
        by (subst decode_all.simps) simp
    qed
  qed
qed

end

text \<open>The DER element reader and the base-128 reader keep the contract.\<close>

definition der_enc :: "bytes \<times> u32 \<Rightarrow> bytes option" where
  "der_enc x = (if length (fst x) < 2 ^ 32 then Some (der_element (snd x) (fst x)) else None)"

interpretation der: byte_codec der_enc CBS_get_any_asn1
proof
  show "CBS_get_any_asn1 s = (Some x, rest) \<longleftrightarrow> (\<exists>e. der_enc x = Some e \<and> s = e @ rest)" for s x rest
    by (cases x) (auto simp: der_enc_def CBS_get_any_asn1_iff)
  show "der_enc x \<noteq> Some []" for x
    by (auto simp: der_enc_def der_element_def der_tag_bytes_length)
qed

definition base128_enc :: "u64 \<Rightarrow> bytes option" where
  "base128_enc v = Some (base128_bytes (unat v))"

interpretation base128: byte_codec base128_enc parse_base128_integer
proof
  show "parse_base128_integer s = (Some x, rest) \<longleftrightarrow> (\<exists>e. base128_enc x = Some e \<and> s = e @ rest)" for s x rest
    by (auto simp: base128_enc_def parse_base128_integer_iff)
  show "base128_enc x \<noteq> Some []" for x
    by (simp add: base128_enc_def base128_bytes_def)
qed

end
