(* ===== verification/Oid.thy ===== *)
theory Oid
  imports CBB_Spec Codec
begin

text \<open>
  Object identifiers as text: \<open>CBS_asn1_oid_to_text\<close> of \<open>crypto/bytestring/cbs.c\<close> and
  \<open>CBB_add_asn1_oid_from_text\<close> of \<open>crypto/bytestring/cbb.c\<close>.  The contents of an OBJECT
  IDENTIFIER are base-128 numbers, the first of which carries two components.
\<close>

section \<open>Printing\<close>

text \<open>The digits \<open>BIO_snprintf\<close> writes for the conversion \<open>PRIu64\<close>, cut to the buffer of
  \<open>DECIMAL_SIZE(uint64_t) + 1\<close> characters with its terminating NUL.\<close>

fun decimal :: "nat \<Rightarrow> bytes" where
  "decimal n = (if n < 10 then [of_nat (48 + n)] else decimal (n div 10) @ [of_nat (48 + n mod 10)])"

declare decimal.simps [simp del]

abbreviation (input) DECIMAL_SIZE_u64 :: nat where "DECIMAL_SIZE_u64 \<equiv> (8 * 8 + 2) div 3 + 1"

definition add_decimal :: "u64 \<Rightarrow> nat \<Rightarrow> cbb_op" where
  "add_decimal v d = CBB_add_bytes (take DECIMAL_SIZE_u64 (decimal (unat v))) d"

abbreviation (input) chr_dot :: byte where "chr_dot \<equiv> 0x2e"
abbreviation (input) chr_0 :: byte where "chr_0 \<equiv> 0x30"
abbreviation (input) chr_9 :: byte where "chr_9 \<equiv> 0x39"

text \<open>The loop over the remaining components.\<close>

lemma parse_base128_integer_shorter:
  "parse_base128_integer s = (Some v, rest) \<Longrightarrow> length rest < length s"
  by (rule base128.dec_shorter)

function oid_text_loop :: "cbs \<Rightarrow> cbb_op" where
  "oid_text_loop copy cbb =
     (if CBS_len copy \<noteq> 0
      then (case parse_base128_integer copy of
              (None, _) \<Rightarrow> (False, cbb)
            | (Some v, copy') \<Rightarrow>
                (case cbb_seq [CBB_add_u8 chr_dot 0, add_decimal v 0] cbb of
                   (False, cbb') \<Rightarrow> (False, cbb')
                 | (True, cbb') \<Rightarrow> oid_text_loop copy' cbb'))
      else (True, cbb))"
  by pat_completeness auto
termination
  by (relation "measure (\<lambda>(s, _). length s)") (auto dest: parse_base128_integer_shorter [OF sym])

declare oid_text_loop.simps [simp del]

text \<open>The text with its terminating NUL, or \<open>None\<close> for a NULL result.\<close>

definition CBS_asn1_oid_to_text :: "allocator \<Rightarrow> cbs \<Rightarrow> bytes option" where
  "CBS_asn1_oid_to_text al cbs =
     (case CBB_init al 32 of
        (False, _) \<Rightarrow> None
      | (True, cbb) \<Rightarrow>
          (case parse_base128_integer cbs of
             (None, _) \<Rightarrow> None
           | (Some v, copy) \<Rightarrow>
               (case (if v \<ge> 80
                      then cbb_seq [CBB_add_bytes [0x32, chr_dot] 0, add_decimal (v - 80) 0] cbb
                      else cbb_seq [add_decimal (v div 40) 0, CBB_add_u8 chr_dot 0, add_decimal (v mod 40) 0] cbb) of
                  (False, _) \<Rightarrow> None
                | (True, cbb) \<Rightarrow>
                    (case oid_text_loop copy cbb of
                       (False, _) \<Rightarrow> None
                     | (True, cbb) \<Rightarrow>
                         (case CBB_add_u8 0 0 cbb of
                            (False, _) \<Rightarrow> None
                          | (True, cbb) \<Rightarrow> fst (CBB_finish True 0 cbb))))))"

section \<open>Parsing\<close>

fun parse_dotted_loop :: "u64 \<Rightarrow> bool \<Rightarrow> (cbs, u64) op" where
  "parse_dotted_loop out seen_digit [] = ((if seen_digit then Some out else None), [])"
| "parse_dotted_loop out seen_digit (u # s) =
     (if u = chr_dot \<and> CBS_len s > 0 then ((if seen_digit then Some out else None), s)
      else if u < chr_0 \<or> u > chr_9 \<or> (seen_digit \<and> out = 0) \<or>
              out > (- 1) div 10 \<or> out * 10 > (- 1) - ucast (u - chr_0)
      then (None, s)
      else parse_dotted_loop (out * 10 + ucast (u - chr_0)) True s)"

definition parse_dotted_decimal :: "(cbs, u64) op" where
  "parse_dotted_decimal s = parse_dotted_loop 0 False s"

lemma parse_dotted_loop_length: "length (snd (parse_dotted_loop out seen s)) \<le> length s"
  by (induction out seen s rule: parse_dotted_loop.induct) auto

lemma parse_dotted_decimal_shorter:
  "s \<noteq> [] \<Longrightarrow> parse_dotted_decimal s = (r, rest) \<Longrightarrow> length rest < length s"
proof (cases s)
  case (Cons u t)
  assume r: "parse_dotted_decimal s = (r, rest)"
  have "length (snd (parse_dotted_decimal s)) \<le> length t"
    using parse_dotted_loop_length [of "ucast (u - chr_0)" True t]
    by (auto simp: parse_dotted_decimal_def Cons simp del: parse_dotted_loop.simps(1))
  then show ?thesis by (simp add: Cons r [unfolded Cons])
qed simp

function oid_bytes_loop :: "cbs \<Rightarrow> nat \<Rightarrow> cbb_op" where
  "oid_bytes_loop s d cbb =
     (if CBS_len s > 0
      then (case parse_dotted_decimal s of
              (None, _) \<Rightarrow> (False, cbb)
            | (Some a, s') \<Rightarrow>
                (case add_base128_integer a d cbb of
                   (False, cbb') \<Rightarrow> (False, cbb')
                 | (True, cbb') \<Rightarrow> oid_bytes_loop s' d cbb'))
      else (True, cbb))"
  by pat_completeness auto
termination
  by (relation "measure (\<lambda>(s, _, _). length s)")
    (auto simp: CBS_len_def dest: parse_dotted_decimal_shorter [OF _ sym])

declare oid_bytes_loop.simps [simp del]

definition CBB_add_asn1_oid_from_text :: "bytes \<Rightarrow> nat \<Rightarrow> nat \<Rightarrow> cbb_op" where
  "CBB_add_asn1_oid_from_text text len d cbb =
     (case CBB_flush d cbb of
        (False, cbb) \<Rightarrow> (False, cbb)
      | (True, cbb) \<Rightarrow>
          (case parse_dotted_decimal (CBS_init text len) of
             (None, _) \<Rightarrow> (False, cbb)
           | (Some a, s) \<Rightarrow>
               (case parse_dotted_decimal s of
                  (None, _) \<Rightarrow> (False, cbb)
                | (Some b, s) \<Rightarrow>
                    if a > 2 \<or> (a < 2 \<and> b > 39) \<or> b > (- 1) - 80 then (False, cbb)
                    else (case add_base128_integer (40 * a + b) d cbb of
                            (False, cbb) \<Rightarrow> (False, cbb)
                          | (True, cbb) \<Rightarrow> oid_bytes_loop s d cbb))))"

section \<open>Decimal numbers\<close>

lemma decimal_nonempty [simp]: "decimal n \<noteq> []"
  by (simp add: decimal.simps [of n])

lemma decimal_10: "0 < m \<Longrightarrow> k < 10 \<Longrightarrow> decimal (10 * m + k) = decimal m @ [of_nat (48 + k)]"
  by (subst decimal.simps) simp

lemma decimal_small: "k < 10 \<Longrightarrow> decimal k = [of_nat (48 + k)]"
  by (simp add: decimal.simps)

lemma decimal_length: "n < 10 ^ Suc k \<Longrightarrow> length (decimal n) \<le> Suc k"
proof (induction k arbitrary: n)
  case 0
  then show ?case by (simp add: decimal.simps [of n])
next
  case (Suc k)
  then have "n div 10 < 10 ^ Suc k" by (simp add: less_mult_imp_div_less mult.commute)
  from Suc.IH [OF this] show ?case by (subst decimal.simps) simp
qed

lemma decimal_length_u64: "length (decimal (unat (v :: u64))) \<le> 20"
proof -
  have "unat v < 2 ^ 64" using unsigned_less [of v, where 'a = nat] by simp
  then show ?thesis using decimal_length [of "unat v" 19] by simp
qed

text \<open>One digit: the parser's overflow test is exact.\<close>

lemma digit_byte:
  assumes "k < 10" "u = (of_nat (48 + k) :: byte)"
  shows "u \<noteq> chr_dot" "\<not> u < chr_0" "\<not> u > chr_9" "ucast (u - chr_0) = (of_nat k :: u64)"
proof -
  have u: "unat u = 48 + k" unfolding assms(2) using assms(1) by (subst unat_of_nat) simp
  show "u \<noteq> chr_dot" "\<not> u < chr_0" "\<not> u > chr_9"
    using u assms(1) by (auto simp: word_less_nat_alt)
  have "u - chr_0 = of_nat k" by (simp add: assms(2))
  then have "unat (u - chr_0) = k" using assms(1) by (simp add: unat_of_nat)
  then show "ucast (u - chr_0) = (of_nat k :: u64)"
    by (intro word_of_unat) (simp add: unat_ucast_up)
qed

lemma byte_is_digit:
  assumes "\<not> u < chr_0" "\<not> u > chr_9"
  obtains k where "k < 10" "u = (of_nat (48 + k) :: byte)"
proof
  have u: "48 \<le> unat u" "unat u \<le> 57" using assms by (auto simp: word_less_nat_alt)
  then show "unat u - 48 < 10" by simp
  show "u = of_nat (48 + (unat u - 48))" using u by (intro word_of_unat) simp
qed

lemma unat_max_u64: "unat (- 1 :: u64) = 2 ^ 64 - 1"
  by (simp add: unsigned_minus_1_eq_mask mask_eq_exp_minus_1)

lemma digit_overflow:
  assumes "k < 10"
  shows "out > (- 1) div 10 \<or> out * 10 > (- 1) - of_nat k \<longleftrightarrow> \<not> 10 * unat (out :: u64) + k < 2 ^ 64"
proof -
  have m: "unat ((- 1) div 10 :: u64) = (2 ^ 64 - 1) div 10"
    by (simp only: unat_div_distrib unat_max_u64) simp
  have k: "unat (of_nat k :: u64) = k" using assms by (intro unat_of_nat_u64) simp
  have s: "unat ((- 1) - of_nat k :: u64) = 2 ^ 64 - 1 - k"
    using k assms unat_max_u64 by (subst unat_sub) (auto simp: word_le_nat_alt)
  show ?thesis
  proof (cases "out > (- 1) div 10")
    case True
    then have "unat out > (2 ^ 64 - 1) div 10" by (simp only: word_less_nat_alt m)
    then show ?thesis using True by simp
  next
    case False
    then have "unat out \<le> (2 ^ 64 - 1) div 10" by (simp only: word_less_nat_alt m not_less)
    then have o: "unat out * 10 < 2 ^ 64" by simp
    then have "unat (out * 10) = unat out * 10" using unat_mult_lem [of out 10] by simp
    then have "out * 10 > (- 1) - of_nat k \<longleftrightarrow> unat out * 10 > 2 ^ 64 - 1 - k"
      by (simp only: word_less_nat_alt s)
    then show ?thesis using False assms by auto
  qed
qed

lemma digit_step:
  "k < 10 \<Longrightarrow> 10 * unat (out :: u64) + k < 2 ^ 64 \<Longrightarrow> unat (out * 10 + of_nat k) = 10 * unat out + k"
proof -
  assume a: "k < 10" "10 * unat out + k < 2 ^ 64"
  have "out * 10 + of_nat k = of_nat (10 * unat out + k)" by simp
  then show ?thesis using a(2) unat_of_nat_u64 by metis
qed

lemma parse_dotted_digit:
  assumes "k < 10" "\<not> (seen \<and> out = 0)" "10 * unat out + k < 2 ^ 64"
  shows "parse_dotted_loop out seen (of_nat (48 + k) # s) = parse_dotted_loop (out * 10 + of_nat k) True s"
  using digit_byte [OF assms(1) refl] digit_overflow [OF assms(1), of out] assms(2,3)
  by (simp only: parse_dotted_loop.simps) auto

lemma parse_dotted_decimal_digits:
  "n < 2 ^ 64 \<Longrightarrow> parse_dotted_loop 0 False (decimal n @ t) = parse_dotted_loop (of_nat n) True t"
proof (induction n arbitrary: t rule: decimal.induct)
  case (1 n)
  show ?case
  proof (cases "n < 10")
    case True
    then show ?thesis using parse_dotted_digit [of n False 0 t] by (simp add: decimal_small del: parse_dotted_loop.simps)
  next
    case False
    let ?m = "n div 10" and ?k = "n mod 10"
    have n: "n = 10 * ?m + ?k" by simp
    have u: "unat (of_nat ?m :: u64) = ?m" using "1.prems" by (intro unat_of_nat_u64) simp
    have "parse_dotted_loop 0 False (decimal n @ t) =
        parse_dotted_loop 0 False (decimal ?m @ of_nat (48 + ?k) # t)"
      using False by (subst decimal.simps) simp
    also have "\<dots> = parse_dotted_loop (of_nat ?m) True (of_nat (48 + ?k) # t)"
      using False "1.prems" by (intro "1.IH") simp_all
    also have "\<dots> = parse_dotted_loop (of_nat ?m * 10 + of_nat ?k) True t"
    proof (rule parse_dotted_digit)
      show "\<not> (True \<and> (of_nat ?m :: u64) = 0)" using u False by auto
      show "10 * unat (of_nat ?m :: u64) + ?k < 2 ^ 64" using u "1.prems" by simp
    qed simp
    also have "of_nat ?m * 10 + of_nat ?k = (of_nat n :: u64)"
      by (metis n of_nat_add of_nat_mult of_nat_numeral mult.commute)
    finally show ?thesis .
  qed
qed

definition dotted_end :: "bytes \<Rightarrow> bytes \<Rightarrow> bool" where
  "dotted_end t rest \<longleftrightarrow> t = [] \<and> rest = [] \<or> t = chr_dot # rest \<and> rest \<noteq> []"

lemma parse_dotted_loop_sound:
  "parse_dotted_loop out seen s = (Some w, rest) \<Longrightarrow> seen \<or> out = 0 \<Longrightarrow>
   \<exists>p t. s = p @ t \<and> dotted_end t rest \<and> (if seen then decimal (unat out) @ p else p) = decimal (unat w)"
proof (induction out seen s rule: parse_dotted_loop.induct)
  case (1 out seen)
  then show ?case by (intro exI [of _ "[]"]) (auto simp: dotted_end_def split: if_splits)
next
  case (2 out seen u s)
  show ?case
  proof (cases "u = chr_dot \<and> CBS_len s > 0")
    case True
    with "2.prems"(1) show ?thesis
      by (intro exI [of _ "[]"] exI [of _ "u # s"]) (auto simp: dotted_end_def CBS_len_def split: if_splits)
  next
    case False
    with "2.prems"(1) have ok: "\<not> u < chr_0" "\<not> u > chr_9" "\<not> (seen \<and> out = 0)"
        "\<not> (out > (- 1) div 10 \<or> out * 10 > (- 1) - ucast (u - chr_0))"
      and run: "parse_dotted_loop (out * 10 + ucast (u - chr_0)) True s = (Some w, rest)"
      by (auto split: if_splits)
    from ok(1,2) obtain k where k: "k < 10" "u = of_nat (48 + k)" by (rule byte_is_digit)
    note uk = digit_byte(4) [OF k]
    from ok(4) digit_overflow [OF k(1), of out] have lt: "10 * unat out + k < 2 ^ 64" by (simp add: uk)
    have un: "unat (out * 10 + ucast (u - chr_0)) = 10 * unat out + k"
      unfolding uk by (rule digit_step [OF k(1) lt])
    obtain p t where p: "s = p @ t" "dotted_end t rest" "decimal (10 * unat out + k) @ p = decimal (unat w)"
      using "2.IH" [OF False _ run] ok un by (auto simp: uk)
    have "(if seen then decimal (unat out) @ (u # p) else u # p) = decimal (unat w)"
    proof (cases seen)
      case True
      with ok(3) have "0 < unat out" by (simp add: unat_gt_0)
      from decimal_10 [OF this k(1)] p(3) True show ?thesis by (simp add: k(2))
    next
      case False
      with "2.prems"(2) have "out = 0" by simp
      with p(3) False k show ?thesis by (simp add: decimal_small)
    qed
    with p(1,2) show ?thesis by (intro exI [of _ "u # p"] exI [of _ t]) simp
  qed
qed

lemma parse_dotted_decimal_iff:
  "parse_dotted_decimal s = (Some v, rest) \<longleftrightarrow> (\<exists>t. s = decimal (unat v) @ t \<and> dotted_end t rest)"
proof
  assume "parse_dotted_decimal s = (Some v, rest)"
  then show "\<exists>t. s = decimal (unat v) @ t \<and> dotted_end t rest"
    using parse_dotted_loop_sound [of 0 False s v rest] by (auto simp: parse_dotted_decimal_def)
next
  assume "\<exists>t. s = decimal (unat v) @ t \<and> dotted_end t rest"
  then obtain t where t: "s = decimal (unat v) @ t" "dotted_end t rest" by blast
  have "parse_dotted_loop 0 False s = parse_dotted_loop v True t"
    unfolding t(1) using unsigned_less [of v, where 'a = nat]
    by (subst parse_dotted_decimal_digits) simp_all
  then show "parse_dotted_decimal s = (Some v, rest)"
    using t(2) by (auto simp: parse_dotted_decimal_def dotted_end_def CBS_len_def)
qed

section \<open>Contents and text of an object identifier\<close>

text \<open>An identifier is the number that carries its first two components and the list of the
  others.\<close>

definition oid_contents :: "u64 \<Rightarrow> u64 list \<Rightarrow> bytes" where
  "oid_contents v vs = concat (map (\<lambda>w. base128_bytes (unat w)) (v # vs))"

definition oid_first :: "u64 \<Rightarrow> u64" where
  "oid_first v = (if v \<ge> 80 then 2 else v div 40)"

definition oid_second :: "u64 \<Rightarrow> u64" where
  "oid_second v = (if v \<ge> 80 then v - 80 else v mod 40)"

definition oid_rest_text :: "u64 list \<Rightarrow> bytes" where
  "oid_rest_text vs = concat (map (\<lambda>w. chr_dot # decimal (unat w)) vs)"

definition oid_text :: "u64 \<Rightarrow> u64 list \<Rightarrow> bytes" where
  "oid_text v vs =
     decimal (unat (oid_first v)) @ chr_dot # decimal (unat (oid_second v)) @ oid_rest_text vs"

lemma add_decimal_produces:
  assumes "holds [(Fixed 0, xs)] st" "length (xs @ decimal (unat v)) \<le> n"
  shows "produces (add_decimal v 0) st n [(Fixed 0, xs @ decimal (unat v))]"
proof -
  have "take DECIMAL_SIZE_u64 (decimal (unat v)) = decimal (unat v)"
    using decimal_length_u64 [of v] by simp
  then show ?thesis
    using CBB_add_bytes_produces [of "[]" "Fixed 0" xs "[]" st "[]" "decimal (unat v)" n 0] assms
      decimal_length_u64 [of v] by (simp add: add_decimal_def)
qed

lemma add_dot_produces:
  "holds [(Fixed 0, xs)] st \<Longrightarrow> length (xs @ [x]) \<le> n \<Longrightarrow>
   produces (CBB_add_u8 x 0) st n [(Fixed 0, xs @ [x])]"
  using CBB_add_u8_produces [of "[]" "Fixed 0" xs "[]" st "[]" x n 0] by simp

lemma oid_rest_text_length: "length (oid_rest_text vs) \<le> 21 * length vs"
proof (induction vs)
  case (Cons v vs)
  then show ?case using decimal_length_u64 [of v] by (simp add: oid_rest_text_def)
qed (simp add: oid_rest_text_def)

lemma oid_text_loop_produces:
  "holds [(Fixed 0, xs)] st \<Longrightarrow> decode_all parse_base128_integer (length s) s = Some vs \<Longrightarrow>
   length (xs @ oid_rest_text vs) \<le> n \<Longrightarrow>
   produces (oid_text_loop s) st n [(Fixed 0, xs @ oid_rest_text vs)]"
proof (induction vs arbitrary: xs st s)
  case Nil
  then have "s = []"
    using base128.decode_all_iff [of s "[]"] by simp
  with Nil produces_Nil [OF Nil.prems(1), of n] show ?case
    by (simp add: oid_rest_text_def oid_text_loop.simps CBS_len_def produces_def)
next
  case (Cons v vs)
  from Cons.prems(2) have "s \<noteq> []" by auto
  with Cons.prems(2) base128.decode_all_step obtain s' where s':
    "parse_base128_integer s = (Some v, s')" "decode_all parse_base128_integer (length s') s' = Some vs"
    by (auto split: prod.splits option.splits)
  let ?ys = "xs @ chr_dot # decimal (unat v)"
  have len: "length (?ys @ oid_rest_text vs) \<le> n" using Cons.prems(3) by (simp add: oid_rest_text_def)
  have step: "produces (cbb_seq [CBB_add_u8 chr_dot 0, add_decimal v 0]) st n [(Fixed 0, ?ys)]"
  proof (rule produces_pair)
    show "produces (CBB_add_u8 chr_dot 0) st n [(Fixed 0, xs @ [chr_dot])]"
      using len by (intro add_dot_produces [OF Cons.prems(1)]) simp
  next
    fix st' assume "holds [(Fixed 0, xs @ [chr_dot])] st'"
    from add_decimal_produces [OF this, of v n] len
    show "produces (add_decimal v 0) st' n [(Fixed 0, ?ys)]" by simp
  qed
  have "produces (cbb_seq [cbb_seq [CBB_add_u8 chr_dot 0, add_decimal v 0], oid_text_loop s']) st n
      [(Fixed 0, ?ys @ oid_rest_text vs)]"
    by (rule produces_pair [OF step]) (rule Cons.IH [OF _ s'(2) len])
  moreover have "oid_text_loop s st =
      cbb_seq [cbb_seq [CBB_add_u8 chr_dot 0, add_decimal v 0], oid_text_loop s'] st"
    using \<open>s \<noteq> []\<close> s'(1) by (subst oid_text_loop.simps) (auto simp: CBS_len_def split: prod.split bool.split)
  ultimately show ?case by (simp add: produces_def oid_rest_text_def)
qed

lemma oid_text_loop_fails:
  "decode_all parse_base128_integer (length s) s = None \<Longrightarrow> fst (oid_text_loop s st) = False"
proof (induction s st rule: oid_text_loop.induct)
  case (1 s st)
  then have ne: "s \<noteq> []" by auto
  show ?case
  proof (cases "parse_base128_integer s")
    case (Pair r s')
    show ?thesis
    proof (cases r)
      case None
      with Pair ne show ?thesis by (subst oid_text_loop.simps) (simp add: CBS_len_def)
    next
      case (Some v)
      with 1 ne Pair base128.decode_all_step [OF ne]
      have "decode_all parse_base128_integer (length s') s' = None" by simp
      with 1 ne Pair Some show ?thesis
        by (subst oid_text_loop.simps) (auto simp: CBS_len_def split: prod.split bool.split)
    qed
  qed
qed

text \<open>The first two components.\<close>

definition oid_head :: "u64 \<Rightarrow> cbb_op" where
  "oid_head v =
     (if v \<ge> 80 then cbb_seq [CBB_add_bytes [0x32, chr_dot] 0, add_decimal (v - 80) 0]
      else cbb_seq [add_decimal (v div 40) 0, CBB_add_u8 chr_dot 0, add_decimal (v mod 40) 0])"

lemma oid_head_fold:
  "(if v \<ge> 80 then cbb_seq [CBB_add_bytes [0x32, chr_dot] 0, add_decimal (v - 80) 0] cbb
    else cbb_seq [add_decimal (v div 40) 0, CBB_add_u8 chr_dot 0, add_decimal (v mod 40) 0] cbb) = oid_head v cbb"
  by (simp add: oid_head_def del: cbb_seq.simps)

lemma oid_head_produces:
  assumes h: "holds [(Fixed 0, [])] st" and n: "41 \<le> n"
  shows "produces (oid_head v) st n
     [(Fixed 0, decimal (unat (oid_first v)) @ chr_dot # decimal (unat (oid_second v)))]"
    (is "produces _ _ _ [(Fixed 0, ?h)]")
proof (cases "v \<ge> 80")
  case True
  have two: "decimal 2 = [0x32]" by (simp add: decimal.simps)
  have "produces (cbb_seq [CBB_add_bytes [0x32, chr_dot] 0, add_decimal (v - 80) 0]) st n [(Fixed 0, ?h)]"
  proof (rule produces_pair)
    show "produces (CBB_add_bytes [0x32, chr_dot] 0) st n [(Fixed 0, [0x32, chr_dot])]"
      using CBB_add_bytes_produces [of "[]" "Fixed 0" "[]" "[]" st "[]" "[0x32, chr_dot]" n 0] h n by simp
  next
    fix st' assume "holds [(Fixed 0, [0x32, chr_dot])] st'"
    from add_decimal_produces [OF this, of "v - 80" n] decimal_length_u64 [of "v - 80"] n
    show "produces (add_decimal (v - 80) 0) st' n [(Fixed 0, ?h)]"
      using True two by (simp add: oid_first_def oid_second_def)
  qed
  with True show ?thesis by (simp add: oid_head_def del: cbb_seq.simps)
next
  case False
  let ?a = "decimal (unat (v div 40))"
  have l: "length ?a \<le> 20" "length (decimal (unat (v mod 40))) \<le> 20" by (rule decimal_length_u64)+
  have "produces (cbb_seq [add_decimal (v div 40) 0, CBB_add_u8 chr_dot 0, add_decimal (v mod 40) 0]) st n
      [(Fixed 0, ?h)]"
  proof (rule produces_seq)
    show "produces (add_decimal (v div 40) 0) st n [(Fixed 0, ?a)]"
      using add_decimal_produces [OF h, of "v div 40" n] l n by simp
  next
    fix st1 assume h1: "holds [(Fixed 0, ?a)] st1"
    show "produces (cbb_seq [CBB_add_u8 chr_dot 0, add_decimal (v mod 40) 0]) st1 n [(Fixed 0, ?h)]"
    proof (rule produces_pair)
      show "produces (CBB_add_u8 chr_dot 0) st1 n [(Fixed 0, ?a @ [chr_dot])]"
        using l n by (intro add_dot_produces [OF h1]) simp
    next
      fix st2 assume "holds [(Fixed 0, ?a @ [chr_dot])] st2"
      from add_decimal_produces [OF this, of "v mod 40" n] l n False
      show "produces (add_decimal (v mod 40) 0) st2 n [(Fixed 0, ?h)]"
        by (simp add: oid_first_def oid_second_def)
    qed
  qed
  with False show ?thesis by (simp add: oid_head_def del: cbb_seq.simps)
qed

text \<open>The printer as one sequence of calls on the builder.\<close>

lemma CBS_asn1_oid_to_text_seq:
  "CBS_asn1_oid_to_text al s =
     (case (CBB_init al 32, parse_base128_integer s) of
        ((True, cbb), (Some v, copy)) \<Rightarrow>
          (case cbb_seq [oid_head v, oid_text_loop copy, CBB_add_u8 0 0] cbb of
             (False, _) \<Rightarrow> None
           | (True, cbb') \<Rightarrow> fst (CBB_finish True 0 cbb'))
      | _ \<Rightarrow> None)"
  unfolding CBS_asn1_oid_to_text_def oid_head_fold
  by (cases "CBB_init al 32"; cases "parse_base128_integer s"; cases "fst (parse_base128_integer s)";
      cases "fst (CBB_init al 32)") (auto split: prod.split bool.split)

lemma oid_print_produces:
  assumes h: "holds [(Fixed 0, [])] st" and d: "decode_all parse_base128_integer (length s) s = Some vs"
    and n: "length (oid_text v vs @ [0]) \<le> n" "41 \<le> n"
  shows "produces (cbb_seq [oid_head v, oid_text_loop s, CBB_add_u8 0 0]) st n [(Fixed 0, oid_text v vs @ [0])]"
proof (rule produces_seq)
  let ?h = "decimal (unat (oid_first v)) @ chr_dot # decimal (unat (oid_second v))"
  show "produces (oid_head v) st n [(Fixed 0, ?h)]"
    by (rule oid_head_produces [OF h n(2)])
  fix st1 assume h1: "holds [(Fixed 0, ?h)] st1"
  show "produces (cbb_seq [oid_text_loop s, CBB_add_u8 0 0]) st1 n [(Fixed 0, oid_text v vs @ [0])]"
  proof (rule produces_pair)
    show "produces (oid_text_loop s) st1 n [(Fixed 0, oid_text v vs)]"
      using oid_text_loop_produces [OF h1 d, of n] n by (simp add: oid_text_def)
  next
    fix st2 assume "holds [(Fixed 0, oid_text v vs)] st2"
    then show "produces (CBB_add_u8 0 0) st2 n [(Fixed 0, oid_text v vs @ [0])]"
      using n by (intro add_dot_produces) simp_all
  qed
qed

lemma oid_text_length: "length (oid_text v vs) \<le> 41 + 21 * length vs"
  using decimal_length_u64 [of "oid_first v"] decimal_length_u64 [of "oid_second v"] oid_rest_text_length [of vs]
  by (simp add: oid_text_def)

text \<open>The printer on any contents, with a granting allocator.\<close>

lemma CBS_asn1_oid_to_text_spec:
  assumes al: "\<forall>m < 2 ^ 63. al (m + 8)" and len: "length s < 2 ^ 55"
  shows "CBS_asn1_oid_to_text al s =
    (case decode_all parse_base128_integer (length s) s of
       Some (v # vs) \<Rightarrow> Some (oid_text v vs @ [0])
     | _ \<Rightarrow> None)"
proof -
  have "(32 :: nat) < 2 ^ 62" by simp
  from CBB_init_total [OF al this] obtain st where st: "CBB_init al 32 = (True, st)"
    "holds [(Fixed 0, [])] st" "\<And>n. n < 2 ^ 62 \<Longrightarrow> can_grow st n" by blast
  show ?thesis
  proof (cases "s = []")
    case True
    then show ?thesis using st by (simp add: CBS_asn1_oid_to_text_seq parse_base128_integer_def)
  next
    case False
    obtain r s' where p: "parse_base128_integer s = (r, s')" by (cases "parse_base128_integer s")
    note step = base128.decode_all_step [OF False, unfolded p]
    show ?thesis
    proof (cases r)
      case None
      then show ?thesis using st step p by (simp add: CBS_asn1_oid_to_text_seq)
    next
      case (Some v)
      show ?thesis
      proof (cases "decode_all parse_base128_integer (length s') s'")
        case None
        obtain ok st1 where "oid_head v st = (ok, st1)" by (cases "oid_head v st")
        moreover obtain st2 where "oid_text_loop s' st1 = (False, st2)"
          using oid_text_loop_fails [OF None, of st1] by (cases "oid_text_loop s' st1") auto
        ultimately show ?thesis using st(1) p Some None step
          by (simp add: CBS_asn1_oid_to_text_seq split: bool.split)
      next
        case vs: (Some vs)
        have "length vs \<le> length s"
          using base128.decode_all_length [OF vs] base128.dec_shorter [of s v s'] p Some by simp
        then have ol: "length (oid_text v vs @ [0]) < 2 ^ 61" using oid_text_length [of v vs] len by simp
        let ?n = "2 ^ 62 - 1 :: nat"
        have "produces (cbb_seq [oid_head v, oid_text_loop s', CBB_add_u8 0 0]) st ?n
            ((Fixed 0, oid_text v vs @ [0]) # [])"
          using ol by (intro oid_print_produces [OF st(2) vs]) simp_all
        from finish_produces [OF this, of "[]"] st(3) [of ?n] st(3) [of "length (oid_text v vs @ [0])"] ol
        obtain st' where "cbb_seq [oid_head v, oid_text_loop s', CBB_add_u8 0 0] st = (True, st')"
          "fst (CBB_finish True 0 st') = Some (oid_text v vs @ [0])" by auto
        then show ?thesis using st(1) p Some vs step
          by (simp add: CBS_asn1_oid_to_text_seq del: cbb_seq.simps)
      qed
    qed
  qed
qed

section \<open>The parser\<close>

lemma oid_rest_text_simps [simp]:
  "oid_rest_text [] = []" "oid_rest_text (v # vs) = chr_dot # decimal (unat v) @ oid_rest_text vs"
  by (simp_all add: oid_rest_text_def)

lemma dotted_end_rest: "\<exists>s. dotted_end (oid_rest_text vs) s"
  by (cases vs) (auto simp: dotted_end_def)

lemma oid_number_split:
  "oid_first v \<le> 2" "oid_first v < 2 \<Longrightarrow> oid_second v \<le> 39" "oid_second v \<le> (- 1) - 80"
  "40 * oid_first v + oid_second v = v"
proof -
  have m: "unat ((- 1) - 80 :: u64) = 2 ^ 64 - 1 - 80"
    using unat_max_u64 by (subst unat_sub) (auto simp: word_le_nat_alt)
  show "oid_first v \<le> 2" "oid_first v < 2 \<Longrightarrow> oid_second v \<le> 39"
    by (auto simp: oid_first_def oid_second_def word_le_nat_alt word_less_nat_alt unat_div_distrib unat_mod_distrib)
  show "oid_second v \<le> (- 1) - 80"
    using unsigned_less [of v, where 'a = nat]
    by (auto simp: oid_second_def word_le_nat_alt m unat_sub unat_mod_distrib)
  show "40 * oid_first v + oid_second v = v"
    using word_mod_div_equality [of v 40] by (simp add: oid_first_def oid_second_def mult.commute)
qed

lemma oid_number_join:
  assumes "a \<le> 2" "a < 2 \<longrightarrow> b \<le> 39" "b \<le> (- 1) - (80 :: u64)"
  shows "oid_first (40 * a + b) = a" "oid_second (40 * a + b) = b"
proof -
  have m: "unat ((- 1) - 80 :: u64) = 2 ^ 64 - 1 - 80"
    using unat_max_u64 by (subst unat_sub) (auto simp: word_le_nat_alt)
  have a: "unat a \<le> 2" and b: "unat b \<le> 2 ^ 64 - 1 - 80" using assms(1,3) by (simp_all add: word_le_nat_alt m)
  have "40 * a + b = of_nat (40 * unat a + unat b)" by simp
  then have v: "unat (40 * a + b) = 40 * unat a + unat b"
    using a b unat_of_nat_u64 [of "40 * unat a + unat b"] by simp
  consider "a = 2" | "a < 2" using assms(1) by (metis order_le_less)
  then have "oid_first (40 * a + b) = a \<and> oid_second (40 * a + b) = b"
  proof cases
    case 1
    then have "unat a = 2" by simp
    with v have "\<not> unat (40 * a + b) < 80" by simp
    then show ?thesis using 1 by (simp add: oid_first_def oid_second_def word_le_nat_alt)
  next
    case 2
    then have ab: "unat a < 2" "unat b \<le> 39" using assms(2) by (auto simp: word_less_nat_alt word_le_nat_alt)
    then have "unat (40 * a + b) < 80" using v by simp
    moreover have "unat ((40 * a + b) div 40) = unat a" "unat ((40 * a + b) mod 40) = unat b"
      using v ab by (simp_all add: unat_div_distrib unat_mod_distrib)
    ultimately show ?thesis
      by (simp add: oid_first_def oid_second_def word_le_nat_alt word_unat_eq_iff)
  qed
  then show "oid_first (40 * a + b) = a" "oid_second (40 * a + b) = b" by blast+
qed

lemma add_base128_integer_produces:
  "holds (pre @ [(p, xs)]) st \<Longrightarrow> length (layout (pre @ [(p, xs @ base128_bytes (unat v))])) \<le> n \<Longrightarrow>
   d = length pre \<Longrightarrow>
   produces (add_base128_integer v d) st n (pre @ [(p, xs @ base128_bytes (unat v))])"
  unfolding add_base128_integer_eq by (rule add_u8s_produces)

lemma oid_bytes_loop_produces:
  "holds (pre @ [(p, xs)]) st \<Longrightarrow> dotted_end (oid_rest_text vs) s \<Longrightarrow>
   length (layout (pre @ [(p, xs @ concat (map (\<lambda>w. base128_bytes (unat w)) vs))])) \<le> n \<Longrightarrow> d = length pre \<Longrightarrow>
   produces (oid_bytes_loop s d) st n (pre @ [(p, xs @ concat (map (\<lambda>w. base128_bytes (unat w)) vs))])"
proof (induction vs arbitrary: xs s st)
  case Nil
  then show ?case using produces_Nil [OF Nil.prems(1), of n]
    by (simp add: dotted_end_def oid_bytes_loop.simps CBS_len_def produces_def)
next
  case (Cons v vs)
  obtain s' where s': "dotted_end (oid_rest_text vs) s'" using dotted_end_rest by blast
  from Cons.prems(2) have s: "s = decimal (unat v) @ oid_rest_text vs" by (auto simp: dotted_end_def)
  with s' have p: "parse_dotted_decimal s = (Some v, s')" by (auto simp: parse_dotted_decimal_iff)
  have "produces (cbb_seq [add_base128_integer v d, oid_bytes_loop s' d]) st n
      (pre @ [(p, (xs @ base128_bytes (unat v)) @ concat (map (\<lambda>w. base128_bytes (unat w)) vs))])"
  proof (rule produces_pair)
    show "produces (add_base128_integer v d) st n (pre @ [(p, xs @ base128_bytes (unat v))])"
      using Cons.prems by (intro add_base128_integer_produces) auto
  next
    fix st' assume "holds (pre @ [(p, xs @ base128_bytes (unat v))]) st'"
    from Cons.IH [OF this s'] Cons.prems(3,4)
    show "produces (oid_bytes_loop s' d) st' n
      (pre @ [(p, (xs @ base128_bytes (unat v)) @ concat (map (\<lambda>w. base128_bytes (unat w)) vs))])" by simp
  qed
  moreover have "oid_bytes_loop s d st = cbb_seq [add_base128_integer v d, oid_bytes_loop s' d] st"
    using s p by (subst oid_bytes_loop.simps) (auto simp: CBS_len_def split: prod.split bool.split)
  ultimately show ?case by (simp add: produces_def)
qed

lemma oid_bytes_loop_sound:
  "oid_bytes_loop s d st = (True, st') \<Longrightarrow> t = [] \<and> s = [] \<or> t = chr_dot # s \<and> s \<noteq> [] \<Longrightarrow> \<exists>vs. t = oid_rest_text vs"
proof (induction s d st arbitrary: t rule: oid_bytes_loop.induct)
  case (1 s d st)
  show ?case
  proof (cases "s = []")
    case True
    then show ?thesis using "1.prems"(2) by (intro exI [of _ "[]"]) simp
  next
    case False
    with "1.prems"(1) obtain a s' st1 where r: "parse_dotted_decimal s = (Some a, s')"
      "add_base128_integer a d st = (True, st1)" "oid_bytes_loop s' d st1 = (True, st')"
      by (subst (asm) oid_bytes_loop.simps) (auto simp: CBS_len_def split: prod.splits option.splits bool.splits)
    from r(1) obtain t' where t': "s = decimal (unat a) @ t'" "dotted_end t' s'"
      unfolding parse_dotted_decimal_iff by blast
    have "CBS_len s > 0" using False by (simp add: CBS_len_def)
    with "1.IH" [OF _ r(1) [symmetric] refl r(2) [symmetric] refl r(3)] t'(2) obtain vs where "t' = oid_rest_text vs"
      by (auto simp: dotted_end_def)
    with "1.prems"(2) t'(1) False show ?thesis by (intro exI [of _ "a # vs"]) simp
  qed
qed

lemma CBS_init_all: "CBS_init t (length t) = t"
  by (simp add: CBS_init_def)

text \<open>The text of any identifier is accepted, and its contents are appended.\<close>

lemma CBB_add_asn1_oid_from_text_produces:
  assumes h: "holds (pre @ (p, xs) # post) st" "collapse post = Some ys" and d: "d = length pre"
    and n: "length (layout (pre @ [(p, xs @ ys @ oid_contents v vs)])) \<le> n"
  shows "produces (CBB_add_asn1_oid_from_text (oid_text v vs) (length (oid_text v vs)) d) st n
    (pre @ [(p, xs @ ys @ oid_contents v vs)])"
proof -
  let ?a = "oid_first v" and ?b = "oid_second v" and ?t = "oid_text v vs"
  obtain s where s: "dotted_end (oid_rest_text vs) s" using dotted_end_rest by blast
  let ?s = "decimal (unat ?b) @ oid_rest_text vs"
  have pa: "parse_dotted_decimal ?t = (Some ?a, ?s)"
    unfolding parse_dotted_decimal_iff oid_text_def
    by (intro exI [of _ "chr_dot # ?s"]) (simp add: dotted_end_def)
  have pb: "parse_dotted_decimal ?s = (Some ?b, s)"
    using s by (auto simp: parse_dotted_decimal_iff)
  have ok: "\<not> (?a > 2 \<or> (?a < 2 \<and> ?b > 39) \<or> ?b > (- 1) - 80)"
    using oid_number_split(1-3) [of v] by (metis not_le)
  have run: "CBB_add_asn1_oid_from_text ?t (length ?t) d st' =
      cbb_seq [CBB_flush d, add_base128_integer v d, oid_bytes_loop s d] st'" for st'
    using ok by (auto simp add: CBB_add_asn1_oid_from_text_def CBS_init_all pa pb oid_number_split(4)
        split: prod.split bool.split)
  have "produces (cbb_seq [CBB_flush d, add_base128_integer v d, oid_bytes_loop s d]) st n
     (pre @ [(p, xs @ ys @ oid_contents v vs)])"
  proof (rule produces_seq)
    show "produces (CBB_flush d) st n (pre @ [(p, xs @ ys)])"
      using CBB_flush_produces [OF h, of n] n d by simp
  next
    fix st1 assume h1: "holds (pre @ [(p, xs @ ys)]) st1"
    show "produces (cbb_seq [add_base128_integer v d, oid_bytes_loop s d]) st1 n
       (pre @ [(p, xs @ ys @ oid_contents v vs)])"
    proof (rule produces_pair)
      show "produces (add_base128_integer v d) st1 n (pre @ [(p, (xs @ ys) @ base128_bytes (unat v))])"
        using n by (intro add_base128_integer_produces [OF h1 _ d]) (simp add: oid_contents_def)
    next
      fix st2 assume "holds (pre @ [(p, (xs @ ys) @ base128_bytes (unat v))]) st2"
      from oid_bytes_loop_produces [OF this s _ d, of n] n
      show "produces (oid_bytes_loop s d) st2 n (pre @ [(p, xs @ ys @ oid_contents v vs)])"
        by (simp add: oid_contents_def)
    qed
  qed
  then show ?thesis using run by (simp add: produces_def)
qed

text \<open>Any other text is refused.\<close>

lemma CBB_add_asn1_oid_from_text_sound:
  assumes "CBB_add_asn1_oid_from_text t (length t) d st = (True, st')"
  shows "\<exists>v vs. t = oid_text v vs"
proof -
  from assms obtain a s b s' st1 st2 where r: "parse_dotted_decimal t = (Some a, s)"
    "parse_dotted_decimal s = (Some b, s')" "\<not> (a > 2 \<or> (a < 2 \<and> b > 39) \<or> b > (- 1) - 80)"
    "add_base128_integer (40 * a + b) d st1 = (True, st2)" "oid_bytes_loop s' d st2 = (True, st')"
    by (auto simp: CBB_add_asn1_oid_from_text_def CBS_init_all split: prod.splits option.splits bool.splits if_splits)
  from r(1,2) obtain t1 t2 where t: "t = decimal (unat a) @ t1" "dotted_end t1 s"
      "s = decimal (unat b) @ t2" "dotted_end t2 s'"
    unfolding parse_dotted_decimal_iff by blast
  from oid_bytes_loop_sound [OF r(5), of t2] t(4) obtain vs where "t2 = oid_rest_text vs"
    by (auto simp: dotted_end_def)
  moreover have "t1 = chr_dot # s" using t(2,3) by (auto simp: dotted_end_def)
  moreover have "oid_first (40 * a + b) = a" "oid_second (40 * a + b) = b"
    using r(3) by (auto intro!: oid_number_join simp: not_less)
  ultimately have "t = oid_text (40 * a + b) vs" using t by (simp add: oid_text_def)
  then show ?thesis by blast
qed

lemma base128_bytes_length_u64: "length (base128_bytes (unat (v :: u64))) \<le> 10"
proof -
  have "unat v div 128 < 128 ^ 9" using unsigned_less [of v, where 'a = nat] by simp
  then show ?thesis using base128_prefix_length [of "unat v div 128" 9] by (simp add: base128_bytes_def)
qed

lemma oid_contents_length: "length (oid_contents v vs) \<le> 10 * Suc (length vs)"
proof -
  have "length (concat (map (\<lambda>w. base128_bytes (unat w)) ws)) \<le> 10 * length ws" for ws :: "u64 list"
  proof (induction ws)
    case (Cons w ws)
    then show ?case using base128_bytes_length_u64 [of w] by simp
  qed simp
  from this [of "v # vs"] show ?thesis by (simp add: oid_contents_def)
qed

lemma oid_text_length_ge: "length vs \<le> length (oid_text v vs)"
  by (induction vs) (auto simp: oid_text_def)

lemma oid_contents_encode: "encode_all base128_enc (v # vs) = Some (oid_contents v vs)"
  unfolding oid_contents_def by (rule encode_all_total) (simp add: base128_enc_def)

lemma oid_to_text_contents:
  "\<forall>m < 2 ^ 63. al (m + 8) \<Longrightarrow> length (oid_contents v vs) < 2 ^ 55 \<Longrightarrow>
   CBS_asn1_oid_to_text al (oid_contents v vs) = Some (oid_text v vs @ [0])"
  using oid_contents_encode [of v vs] unfolding base128.decode_all_iff [symmetric]
  by (simp add: CBS_asn1_oid_to_text_spec)

lemma oid_from_text_run:
  assumes "\<forall>m < 2 ^ 63. al (m + 8)" "c < 2 ^ 62" "length (oid_contents v vs) < 2 ^ 62"
  shows "\<exists>st st'. CBB_init al c = (True, st) \<and>
    CBB_add_asn1_oid_from_text (oid_text v vs) (length (oid_text v vs)) 0 st = (True, st') \<and>
    fst (CBB_finish True 0 st') = Some (oid_contents v vs)"
  using CBB_add_asn1_oid_from_text_produces [of "[]" "Fixed 0" "[]" "[]" _ "[]" 0 v vs]
  by (intro on_base_room [OF assms]) simp

section \<open>Properties\<close>

text \<open>C21: Whatever text the OID printer gives for some contents, the OID parser accepts it and
  writes the same contents.\<close>

theorem oid_print_parse:
  assumes "\<forall>m < 2 ^ 63. al (m + 8)" "c < 2 ^ 62" "length s < 2 ^ 55" "CBS_asn1_oid_to_text al s = Some t"
  shows "\<exists>st st' u. t = u @ [0] \<and> CBB_init al c = (True, st) \<and>
    CBB_add_asn1_oid_from_text u (length u) 0 st = (True, st') \<and> fst (CBB_finish True 0 st') = Some s"
proof -
  from assms(4) obtain v vs where d: "decode_all parse_base128_integer (length s) s = Some (v # vs)"
    and t: "t = oid_text v vs @ [0]"
    unfolding CBS_asn1_oid_to_text_spec [OF assms(1,3)] by (auto split: option.splits list.splits)
  then have "s = oid_contents v vs"
    using oid_contents_encode [of v vs] by (simp add: base128.decode_all_iff del: encode_all.simps)
  with oid_from_text_run [OF assms(1,2), of v vs] assms(3) t show ?thesis by auto
qed

lemma oid_print_parse_witness:
  "\<exists>st st' u. oid_text 42 [840, 113549] @ [0] = u @ [0] \<and> CBB_init (\<lambda>_. True) 0 = (True, st) \<and>
    CBB_add_asn1_oid_from_text u (length u) 0 st = (True, st') \<and>
    fst (CBB_finish True 0 st') = Some (oid_contents 42 [840, 113549])"
  using oid_contents_length [of 42 "[840, 113549]"]
  by (intro oid_print_parse [of "\<lambda>_. True"] oid_to_text_contents) simp_all

text \<open>C22: Whatever text the OID parser accepts, the printer gives it back for the contents the
  parser wrote: there is one text for an identifier, without leading zeros, stray dots or
  numbers beyond 64 bits.\<close>

theorem oid_parse_print:
  assumes "\<forall>m < 2 ^ 63. al (m + 8)" "c < 2 ^ 62" "length t < 2 ^ 50" "CBB_init al c = (True, st)"
    and "CBB_add_asn1_oid_from_text t (length t) 0 st = (True, st')"
  shows "\<exists>s. fst (CBB_finish True 0 st') = Some s \<and> CBS_asn1_oid_to_text al s = Some (t @ [0])"
proof -
  from CBB_add_asn1_oid_from_text_sound [OF assms(5)] obtain v vs where t: "t = oid_text v vs" by blast
  have len: "length (oid_contents v vs) < 2 ^ 55"
    using oid_contents_length [of v vs] oid_text_length_ge [of vs v] assms(3) t by simp
  from oid_from_text_run [OF assms(1,2), of v vs] len assms(4,5) t
  have "fst (CBB_finish True 0 st') = Some (oid_contents v vs)" by auto
  with oid_to_text_contents [OF assms(1) len] t show ?thesis by blast
qed

lemma oid_parse_print_witness:
  "\<exists>s. fst (CBB_finish True 0
         (snd (CBB_add_asn1_oid_from_text [0x31, 0x2e, 0x32] (length [0x31 :: byte, 0x2e, 0x32]) 0
                 (snd (CBB_init (\<lambda>_. True) 0))))) = Some s \<and>
     CBS_asn1_oid_to_text (\<lambda>_. True) s = Some ([0x31, 0x2e, 0x32] @ [0])"
proof (rule oid_parse_print)
  have t: "[0x31, 0x2e, 0x32] = oid_text 42 []"
    by (simp add: oid_text_def oid_first_def oid_second_def decimal.simps)
  have "length (oid_contents 42 []) < 2 ^ 62" using oid_contents_length [of 42 "[]"] by simp
  from oid_from_text_run [OF _ _ this, of "\<lambda>_. True" 0, folded t]
  show "CBB_init (\<lambda>_. True) 0 = (True, snd (CBB_init (\<lambda>_. True) 0))"
    "CBB_add_asn1_oid_from_text [0x31, 0x2e, 0x32] (length [0x31 :: byte, 0x2e, 0x32]) 0 (snd (CBB_init (\<lambda>_. True) 0)) =
     (True, snd (CBB_add_asn1_oid_from_text [0x31, 0x2e, 0x32] (length [0x31 :: byte, 0x2e, 0x32]) 0
        (snd (CBB_init (\<lambda>_. True) 0))))"
    by (auto simp: prod_eq_iff)
qed simp_all

text \<open>C33: Once a builder has an error (or has been cleaned up), every operation that writes reports
  failure and leaves the builder failed, and finishing returns nothing.  \<open>CBB_did_write\<close> is the
  exception: it does not look at the error and may report success; but it, too, and
  \<open>CBB_discard_child\<close>, which reports nothing, leave the builder failed, so that nothing written
  after an error is ever returned.\<close>

theorem CBB_failure_sticks:
  assumes "cbb_failed st"
    and "f \<in> {CBB_flush d, CBB_add_u8 x d, CBB_add_bytes xs d, CBB_add_space xs d, CBB_add_asn1 tag d,
      CBB_add_u8_length_prefixed d, CBB_add_u16_length_prefixed d, CBB_add_u24_length_prefixed d,
      CBB_reserve n d, CBB_add_zeros n d, CBB_add_u16 y d, CBB_add_u16le y d, CBB_add_u24 z d,
      CBB_add_u32 z d, CBB_add_u32le z d, CBB_add_u64 v d, CBB_add_u64le v d,
      CBB_add_asn1_uint64 v d, CBB_add_asn1_int64 v d, CBB_add_asn1_octet_string xs d, CBB_add_asn1_bool i d,
      CBB_add_asn1_oid_from_text xs n d, CBB_flush_asn1_set_of d}"
  shows "(\<exists>st'. f st = (False, st') \<and> cbb_failed st' \<and> fst (CBB_finish out_ok 0 st') = None) \<and>
    fst (CBB_finish out_ok 0 st) = None \<and>
    (case CBB_did_write xs d st of
       None \<Rightarrow> True
     | Some (ok, st') \<Rightarrow> cbb_failed st' \<and> fst (CBB_finish out_ok 0 st') = None) \<and>
    cbb_failed (CBB_discard_child d st)"
proof -
  note ops = CBB_add_bytes_def cbb_add_length_prefixed_def CBB_reserve_def CBB_add_zeros_def CBB_add_space_def
    CBB_add_u8_def CBB_add_u16_def CBB_add_u24_def CBB_add_u32_def CBB_add_u64_def
    CBB_add_u16le_def CBB_add_u32le_def CBB_add_u64le_def CBB_add_u8_length_prefixed_def
    CBB_add_u16_length_prefixed_def CBB_add_u24_length_prefixed_def
  have asn1: "\<exists>st'. CBB_add_asn1 tag d st = (False, st') \<and> cbb_failed st'" for tag
    unfolding CBB_add_asn1_def Let_def by (rule flush_first_failed [OF assms(1)])
  have elem: "\<exists>st'. cbb_seq (CBB_add_asn1 tag d # fs) st = (False, st') \<and> cbb_failed st'" for tag fs
    using asn1 by (intro seq_first_failed [where f = "CBB_add_asn1 tag d" for tag])
  have uint: "\<exists>st'. CBB_add_asn1_uint64 v d st = (False, st') \<and> cbb_failed st'"
    unfolding CBB_add_asn1_uint64_def by (rule elem)
  have "\<exists>st'. CBB_add_asn1_int64 v d st = (False, st') \<and> cbb_failed st'"
    unfolding CBB_add_asn1_int64_def Let_def by (cases "0 \<le> sint v") (simp_all only: if_True if_False uint elem)
  moreover have "\<exists>st'. CBB_flush_asn1_set_of d st = (False, st') \<and> cbb_failed st'"
    using CBB_flush_failed [OF assms(1), of d] by (auto simp: CBB_flush_asn1_set_of_def)
  moreover have "\<exists>st'. CBB_add_asn1_oid_from_text xs n d st = (False, st') \<and> cbb_failed st'"
    using CBB_flush_failed [OF assms(1), of d] by (auto simp: CBB_add_asn1_oid_from_text_def)
  ultimately have "\<exists>st'. f st = (False, st') \<and> cbb_failed st'"
    using assms(2) asn1 uint elem flush_first_failed [OF assms(1)] CBB_flush_failed [OF assms(1), of d]
    by (auto simp only: ops CBB_add_asn1_octet_string_def CBB_add_asn1_bool_def insert_iff empty_iff Let_def)
  moreover have "cbb_failed (CBB_discard_child d st)"
    using assms(1) by (auto simp: CBB_discard_child_def cbb_failed_def split: option.splits)
  moreover have "cbb_failed st'" if "CBB_did_write xs d st = Some (ok, st')" for ok st'
    using that assms(1) by (auto simp: CBB_did_write_def cbb_failed_def Let_def split: option.splits if_splits)
  ultimately show ?thesis using CBB_finish_failed assms(1) by (auto split: option.splits)
qed

lemma CBB_failure_sticks_witness:
  "\<exists>st st'. CBB_add_bytes [1, 2, 3] 0 (snd (CBB_init_fixed (\<lambda>_. True) 2)) = (False, st) \<and>
     CBB_add_u8 7 0 st = (False, st') \<and> cbb_failed st' \<and> fst (CBB_finish True 0 st') = None"
proof -
  note defs = CBB_init_fixed_def cbb_init_def OPENSSL_malloc_def CBB_add_bytes_def CBB_zero_def
    CBB_flush_def on_base_def cbb_buffer_add_def cbb_buffer_reserve_def cbb_failed_def
  obtain st where st: "CBB_add_bytes [1, 2, 3] 0 (snd (CBB_init_fixed (\<lambda>_. True) 2)) = (False, st)" "cbb_failed st"
    by (simp add: defs)
  have "\<exists>st'. CBB_add_u8 7 0 st = (False, st') \<and> cbb_failed st' \<and> fst (CBB_finish True 0 st') = None"
    by (rule CBB_failure_sticks [where d = 0 and x = 7, OF st(2), THEN conjunct1]) simp
  with st show ?thesis by blast
qed

text \<open>What \<open>CBB_did_write\<close> does after an error: with room left it writes and reports success.\<close>

lemma CBB_did_write_ignores_error:
  assumes "cbb_base st = Some b" "length (bb_buf b) + length xs \<le> bb_cap b" "bb_cap b < SIZE_MODULUS"
  shows "CBB_did_write xs (length (cbb_children st)) st =
    Some (True, st\<lparr>cbb_base := Some (b\<lparr>bb_buf := bb_buf b @ xs\<rparr>)\<rparr>)"
  using assms by (simp add: CBB_did_write_def Let_def)

end
