(* ===== verification/Unicode.thy ===== *)
theory Unicode
  imports CBB_Spec Codec
begin

text \<open>
  Character encodings: the UTF-8, Latin-1, UCS-2 and UTF-32 readers and writers of
  \<open>crypto/bytestring/unicode.c\<close>.  Each reader keeps the contract \<open>byte_codec\<close> with the encoding
  it accepts, and each writer the contract \<open>char_writer\<close> with the encoding it appends.
\<close>

section \<open>Code points\<close>

definition is_valid_code_point :: "u32 \<Rightarrow> bool" where
  "is_valid_code_point v \<longleftrightarrow>
     \<not> (v > 0x10ffff \<or> v AND 0xfffe = 0xfffe \<or> (v \<ge> 0xfdd0 \<and> v \<le> 0xfdef) \<or>
        (v \<ge> 0xd800 \<and> v \<le> 0xdfff))"

definition BOTTOM_BITS :: "nat \<Rightarrow> byte" where
  "BOTTOM_BITS n = push_bit n 1 - 1"

definition TOP_BITS :: "nat \<Rightarrow> byte" where
  "TOP_BITS n = NOT (BOTTOM_BITS (8 - n))"

section \<open>Readers\<close>

text \<open>The loop over the \<open>len\<close> continuation bytes.\<close>

fun utf8_tail_loop :: "nat \<Rightarrow> u32 \<Rightarrow> (cbs, u32) op" where
  "utf8_tail_loop 0 v s = (Some v, s)"
| "utf8_tail_loop (Suc len) v s =
     (case CBS_get_u8 s of
        (None, s') \<Rightarrow> (None, s')
      | (Some c, s') \<Rightarrow>
          if c AND TOP_BITS 2 \<noteq> TOP_BITS 1 then (None, s')
          else utf8_tail_loop len (push_bit 6 v OR ucast (c AND BOTTOM_BITS 6)) s')"

definition cbs_get_utf8 :: "(cbs, u32) op" where
  "cbs_get_utf8 s =
     (case CBS_get_u8 s of
        (None, s') \<Rightarrow> (None, s')
      | (Some c, s') \<Rightarrow>
          if c \<le> 0x7f then (Some (ucast c), s')
          else let rest = (\<lambda>v len lower_bound.
                 case utf8_tail_loop len (ucast v) s' of
                   (None, s'') \<Rightarrow> (None, s'')
                 | (Some v, s'') \<Rightarrow>
                     if \<not> is_valid_code_point v \<or> v < lower_bound then (None, s'') else (Some v, s''))
               in if c AND TOP_BITS 3 = TOP_BITS 2 then rest (c AND BOTTOM_BITS 5) 1 0x80
                  else if c AND TOP_BITS 4 = TOP_BITS 3 then rest (c AND BOTTOM_BITS 4) 2 0x800
                  else if c AND TOP_BITS 5 = TOP_BITS 4 then rest (c AND BOTTOM_BITS 3) 3 0x10000
                  else (None, s'))"

definition cbs_get_latin1 :: "(cbs, u32) op" where
  "cbs_get_latin1 s = (case CBS_get_u8 s of (None, s') \<Rightarrow> (None, s') | (Some c, s') \<Rightarrow> (Some (ucast c), s'))"

definition cbs_get_ucs2_be :: "(cbs, u32) op" where
  "cbs_get_ucs2_be s =
     (case CBS_get_u16 s of
        (None, s') \<Rightarrow> (None, s')
      | (Some c, s') \<Rightarrow> if \<not> is_valid_code_point (ucast c) then (None, s') else (Some (ucast c), s'))"

definition cbs_get_utf32_be :: "(cbs, u32) op" where
  "cbs_get_utf32_be s =
     (case CBS_get_u32 s of
        (None, s') \<Rightarrow> (None, s')
      | (Some c, s') \<Rightarrow> if is_valid_code_point c then (Some c, s') else (None, s'))"

section \<open>Writers\<close>

definition cbb_get_utf8_len :: "u32 \<Rightarrow> nat" where
  "cbb_get_utf8_len u = (if u \<le> 0x7f then 1 else if u \<le> 0x7ff then 2 else if u \<le> 0xffff then 3 else 4)"

definition cbb_add_utf8 :: "u32 \<Rightarrow> nat \<Rightarrow> cbb_op" where
  "cbb_add_utf8 u d =
     (let lead = (\<lambda>n shift. ucast (ucast (TOP_BITS n) OR drop_bit shift u));
          tail = (\<lambda>shift. ucast (ucast (TOP_BITS 1) OR (drop_bit shift u AND ucast (BOTTOM_BITS 6))))
      in if \<not> is_valid_code_point u then (\<lambda>cbb. (False, cbb))
         else if u \<le> 0x7f then CBB_add_u8 (ucast u) d
         else if u \<le> 0x7ff then cbb_seq [CBB_add_u8 (lead 2 6) d, CBB_add_u8 (tail 0) d]
         else if u \<le> 0xffff
         then cbb_seq [CBB_add_u8 (lead 3 12) d, CBB_add_u8 (tail 6) d, CBB_add_u8 (tail 0) d]
         else if u \<le> 0x10ffff
         then cbb_seq [CBB_add_u8 (lead 4 18) d, CBB_add_u8 (tail 12) d, CBB_add_u8 (tail 6) d,
                       CBB_add_u8 (tail 0) d]
         else (\<lambda>cbb. (False, cbb)))"

definition cbb_add_latin1 :: "u32 \<Rightarrow> nat \<Rightarrow> cbb_op" where
  "cbb_add_latin1 u d = (if u \<le> 0xff then CBB_add_u8 (ucast u) d else (\<lambda>cbb. (False, cbb)))"

definition cbb_add_ucs2_be :: "u32 \<Rightarrow> nat \<Rightarrow> cbb_op" where
  "cbb_add_ucs2_be u d =
     (if u \<le> 0xffff \<and> is_valid_code_point u then CBB_add_u16 (ucast u) d else (\<lambda>cbb. (False, cbb)))"

definition cbb_add_utf32_be :: "u32 \<Rightarrow> nat \<Rightarrow> cbb_op" where
  "cbb_add_utf32_be u d = (if is_valid_code_point u then CBB_add_u32 u d else (\<lambda>cbb. (False, cbb)))"

section \<open>What the writers append\<close>

fun utf8_nat :: "nat \<Rightarrow> nat list" where
  "utf8_nat n =
     (if n < 0x80 then [n]
      else if n < 0x800 then [192 + n div 64, 128 + n mod 64]
      else if n < 0x10000 then [224 + n div 64 div 64, 128 + n div 64 mod 64, 128 + n mod 64]
      else [240 + n div 64 div 64 div 64, 128 + n div 64 div 64 mod 64, 128 + n div 64 mod 64, 128 + n mod 64])"

definition utf8_enc :: "u32 \<Rightarrow> bytes option" where
  "utf8_enc u = (if is_valid_code_point u then Some (map of_nat (utf8_nat (unat u))) else None)"

definition latin1_enc :: "u32 \<Rightarrow> bytes option" where
  "latin1_enc u = (if u \<le> 0xff then Some [ucast u] else None)"

definition ucs2_enc :: "u32 \<Rightarrow> bytes option" where
  "ucs2_enc u = (if u \<le> 0xffff \<and> is_valid_code_point u then Some (be_bytes 2 (ucast u)) else None)"

definition utf32_enc :: "u32 \<Rightarrow> bytes option" where
  "utf32_enc u = (if is_valid_code_point u then Some (be_bytes 4 (ucast u)) else None)"

declare utf8_nat.simps [simp del]

text \<open>Leading bits and payload of a byte, read as numbers.\<close>

lemma top_bits:
  "TOP_BITS 1 = 0x80" "TOP_BITS 2 = 0xc0" "TOP_BITS 3 = 0xe0" "TOP_BITS 4 = 0xf0" "TOP_BITS 5 = 0xf8"
  and bottom_bits:
  "BOTTOM_BITS 3 = 0x07" "BOTTOM_BITS 4 = 0x0f" "BOTTOM_BITS 5 = 0x1f" "BOTTOM_BITS 6 = 0x3f"
  and top_bits_Suc: "TOP_BITS (Suc 0) = 0x80"
  by (simp_all add: TOP_BITS_def BOTTOM_BITS_def)

lemma and_push_mask:
  "c AND push_bit k (mask (8 - k)) = push_bit k (drop_bit k (c :: byte))"
  by (rule bit_word_eqI) (auto simp: bit_simps)

lemma push_drop_eq_iff:
  "k \<le> 8 \<Longrightarrow> unat t < 2 ^ (8 - k) \<Longrightarrow> push_bit k (drop_bit k c) = push_bit k (t :: byte) \<longleftrightarrow> unat c div 2 ^ k = unat t"
proof -
  assume k: "k \<le> 8" and t: "unat t < 2 ^ (8 - k)"
  have "push_bit k (drop_bit k c) = push_bit k t \<longleftrightarrow> drop_bit k c = t"
  proof
    assume e: "push_bit k (drop_bit k c) = push_bit k t"
    have "t = take_bit (8 - k) t" using unat_take_bit_self [OF t] .
    moreover have "drop_bit k (push_bit k t) = take_bit (8 - k) t"
      by (rule bit_word_eqI) (auto simp: bit_simps)
    moreover have "drop_bit k (push_bit k (drop_bit k c)) = drop_bit k c"
      by (rule bit_word_eqI) (auto simp: bit_simps dest: bit_imp_le_length)
    ultimately show "drop_bit k c = t" using e by simp
  qed simp
  also have "\<dots> \<longleftrightarrow> unat (drop_bit k c) = unat t" by (simp add: word_unat_eq_iff)
  also have "unat (drop_bit k c) = unat c div 2 ^ k"
    by (simp only: unat_drop_bit_eq drop_bit_eq_div [where 'a = nat])
  finally show ?thesis .
qed

lemma lead_tests:
  "c AND TOP_BITS 2 = TOP_BITS 1 \<longleftrightarrow> unat c div 64 = 2"
  "c AND TOP_BITS 3 = TOP_BITS 2 \<longleftrightarrow> unat c div 32 = 6"
  "c AND TOP_BITS 4 = TOP_BITS 3 \<longleftrightarrow> unat c div 16 = 14"
  "c AND TOP_BITS 5 = TOP_BITS 4 \<longleftrightarrow> unat c div 8 = 30"
  using and_push_mask [of c 6] and_push_mask [of c 5] and_push_mask [of c 4] and_push_mask [of c 3]
    push_drop_eq_iff [of 6 2 c] push_drop_eq_iff [of 5 6 c] push_drop_eq_iff [of 4 14 c] push_drop_eq_iff [of 3 30 c]
  by (simp_all add: top_bits top_bits_Suc mask_eq_exp_minus_1)

lemma payload:
  "unat (c AND BOTTOM_BITS 3) = unat c mod 8" "unat (c AND BOTTOM_BITS 4) = unat c mod 16"
  "unat (c AND BOTTOM_BITS 5) = unat c mod 32" "unat (c AND BOTTOM_BITS 6) = unat c mod 64"
proof -
  have m: "c AND mask k = take_bit k c" for k by (simp add: take_bit_eq_mask)
  show "unat (c AND BOTTOM_BITS 3) = unat c mod 8" "unat (c AND BOTTOM_BITS 4) = unat c mod 16"
    "unat (c AND BOTTOM_BITS 5) = unat c mod 32" "unat (c AND BOTTOM_BITS 6) = unat c mod 64"
    using m [of 3] m [of 4] m [of 5] m [of 6]
    by (simp_all add: bottom_bits mask_eq_exp_minus_1 unsigned_take_bit_eq take_bit_eq_mod unat_mod_distrib)
qed

lemma utf8_tail_step:
  assumes "unat v < 2 ^ 26"
  shows "unat (push_bit 6 v OR ucast (c AND BOTTOM_BITS 6) :: u32) = unat v * 64 + unat c mod 64"
proof -
  let ?x = "ucast (c AND BOTTOM_BITS 6) :: u32"
  have x: "unat ?x = unat c mod 64" by (simp add: unat_ucast_up payload)
  then have t: "?x = take_bit 6 ?x" by (intro unat_take_bit_self) simp
  have "push_bit 6 v OR ?x = push_bit 6 v + ?x"
    by (rule disjunctive_add [symmetric]) (subst t, auto simp: bit_simps)
  also have "\<dots> = of_nat (unat v * 64 + unat c mod 64)"
    using x by (simp add: push_bit_eq_mult word_unat_eq_iff [of _ "of_nat _"]) (metis of_nat_unat ucast_id)
  finally show ?thesis using assms by (simp only: unat_of_nat) (simp add: mod_less_eq_dividend)
qed

lemma utf8_tail_loop_Cons:
  "utf8_tail_loop (Suc n) v (c # s) =
     (if unat c div 64 = 2 then utf8_tail_loop n (push_bit 6 v OR ucast (c AND BOTTOM_BITS 6)) s else (None, s))"
  by (simp add: get_simps lead_tests(1) [unfolded One_nat_def])

lemma utf8_tail_loop_Nil: "utf8_tail_loop (Suc n) v [] = (None, [])"
  by (simp add: get_simps)

lemmas utf8_tail_simps = utf8_tail_loop_Cons utf8_tail_loop_Nil utf8_tail_loop.simps(1)

lemma byte_bound: "unat (c :: byte) < 256"
  using unsigned_less [of c, where 'a = nat] by simp

lemma valid_code_point_bound: "is_valid_code_point u \<Longrightarrow> unat u \<le> 0x10ffff"
  by (auto simp: is_valid_code_point_def word_less_nat_alt)

lemma continuation_byte: "unat c div 64 = 2 \<Longrightarrow> c = of_nat (128 + unat (c :: byte) mod 64)"
proof (rule word_of_unat)
  assume "unat c div 64 = 2"
  then show "unat c = 128 + unat c mod 64" using div_mult_mod_eq [of "unat c" 64] by linarith
qed

lemma lead_byte: "0 < k \<Longrightarrow> unat c div k = t \<Longrightarrow> c = of_nat (t * k + unat (c :: byte) mod k)"
  by (rule word_of_unat) (metis div_mult_mod_eq)

lemma unat_small: "n < 256 \<Longrightarrow> unat (of_nat n :: byte) = n"
  by (simp add: unat_of_nat)

text \<open>The UTF-8 reader on numbers: which bytes it accepts and what it makes of them.\<close>

lemma cbs_get_utf8_Cons:
  "cbs_get_utf8 (c # s) =
     (if unat c < 128 then (Some (ucast c), s)
      else let rest = (\<lambda>v len lower_bound.
             case utf8_tail_loop len (ucast v) s of
               (None, s'') \<Rightarrow> (None, s'')
             | (Some v, s'') \<Rightarrow>
                 if \<not> is_valid_code_point v \<or> v < lower_bound then (None, s'') else (Some v, s''))
           in if unat c div 32 = 6 then rest (c AND BOTTOM_BITS 5) 1 0x80
              else if unat c div 16 = 14 then rest (c AND BOTTOM_BITS 4) 2 0x800
              else if unat c div 8 = 30 then rest (c AND BOTTOM_BITS 3) 3 0x10000
              else (None, s))"
proof -
  have "c \<le> 0x7f \<longleftrightarrow> unat c < 128" by (simp add: word_le_nat_alt less_Suc_eq_le [symmetric])
  then show ?thesis by (simp only: cbs_get_utf8_def get_simps lead_tests prod.case option.case)
qed

lemma ucast_payload:
  "unat (ucast (c AND BOTTOM_BITS 3) :: u32) = unat c mod 8"
  "unat (ucast (c AND BOTTOM_BITS 4) :: u32) = unat c mod 16"
  "unat (ucast (c AND BOTTOM_BITS 5) :: u32) = unat c mod 32"
  by (simp_all add: unat_ucast_up payload)

text \<open>The continuation bytes of the digits \<open>ds\<close> in base 64.\<close>

definition tail_bytes :: "nat list \<Rightarrow> bytes" where
  "tail_bytes ds = map (\<lambda>k. of_nat (128 + k)) ds"

lemma tail_bytes_simps [simp]:
  "tail_bytes [] = []" "tail_bytes (k # ds) = of_nat (128 + k) # tail_bytes ds"
  by (simp_all add: tail_bytes_def)

lemma utf8_tail_loop_iff:
  "unat v < 2 ^ (32 - 6 * n) \<Longrightarrow> n \<le> 5 \<Longrightarrow>
   utf8_tail_loop n v s = (Some w, rest) \<longleftrightarrow>
     (\<exists>ds. length ds = n \<and> list_all (\<lambda>k. k < 64) ds \<and> s = tail_bytes ds @ rest \<and>
           unat w = foldl (\<lambda>a k. a * 64 + k) (unat v) ds)"
proof (induction n arbitrary: v s)
  case 0
  then show ?case by (auto simp: word_unat_eq_iff)
next
  case (Suc n)
  have e: "32 - 6 * n = (32 - 6 * Suc n) + 6" using Suc.prems(2) by simp
  have "(2 :: nat) ^ (32 - 6 * Suc n) \<le> 2 ^ 26" by (intro power_increasing) auto
  then have v: "unat v < 2 ^ 26" using Suc.prems(1) by linarith
  show ?case
  proof (cases s)
    case Nil
    then show ?thesis by (auto simp: utf8_tail_loop_Nil length_Suc_conv simp del: utf8_tail_loop.simps)
  next
    case (Cons c t)
    let ?v = "push_bit 6 v OR ucast (c AND BOTTOM_BITS 6) :: u32"
    have u: "unat ?v = unat v * 64 + unat c mod 64" by (rule utf8_tail_step [OF v])
    have b: "unat ?v < 2 ^ (32 - 6 * n)"
    proof -
      have "unat v + 1 \<le> 2 ^ (32 - 6 * Suc n)" using Suc.prems(1) by simp
      then have "(unat v + 1) * 64 \<le> 2 ^ (32 - 6 * n)" unfolding e power_add by simp
      then have "unat v * 64 + 64 \<le> 2 ^ (32 - 6 * n)" by (simp only: add_mult_distrib mult_1)
      moreover have "unat c mod 64 < 64" by simp
      ultimately show ?thesis unfolding u by linarith
    qed
    note IH = Suc.IH [OF b, of t, unfolded u]
    show ?thesis
    proof (cases "unat c div 64 = 2")
      case True
      then have c: "c = of_nat (128 + unat c mod 64)" by (rule continuation_byte)
      have "utf8_tail_loop (Suc n) v s = (Some w, rest) \<longleftrightarrow> utf8_tail_loop n ?v t = (Some w, rest)"
        using True Cons by (simp add: utf8_tail_loop_Cons del: utf8_tail_loop.simps)
      also have "\<dots> \<longleftrightarrow> (\<exists>ds. length ds = Suc n \<and> list_all (\<lambda>k. k < 64) ds \<and> s = tail_bytes ds @ rest \<and>
           unat w = foldl (\<lambda>a k. a * 64 + k) (unat v) ds)" (is "_ \<longleftrightarrow> ?R")
      proof
        assume "utf8_tail_loop n ?v t = (Some w, rest)"
        with IH Suc.prems(2) obtain ds where "length ds = n" "list_all (\<lambda>k. k < 64) ds" "t = tail_bytes ds @ rest"
          "unat w = foldl (\<lambda>a k. a * 64 + k) (unat v * 64 + unat c mod 64) ds" by auto
        then show ?R using c Cons by (intro exI [of _ "(unat c mod 64) # ds"]) simp
      next
        assume ?R
        then obtain k ds where "length ds = n" "k < 64" "list_all (\<lambda>k. k < 64) ds" "c = of_nat (128 + k)"
          "t = tail_bytes ds @ rest" "unat w = foldl (\<lambda>a k. a * 64 + k) (unat v * 64 + k) ds"
          using Cons by (auto simp: length_Suc_conv)
        moreover from this(2,4) have "unat c = 128 + k" by (simp only: unat_small)
        with \<open>k < 64\<close> have "unat c mod 64 = k" using mod_mult_self4 [of 64 2 k] by simp
        ultimately show "utf8_tail_loop n ?v t = (Some w, rest)" using IH Suc.prems(2) by auto
      qed
      finally show ?thesis .
    next
      case False
      have "unat (of_nat (128 + k) :: byte) div 64 = 2" if "k < 64" for k
        using that by (simp only: unat_small)
      with False Cons show ?thesis
        by (auto simp: utf8_tail_loop_Cons length_Suc_conv simp del: utf8_tail_loop.simps of_nat_add)
    qed
  qed
qed


text \<open>Two, three and four byte forms.\<close>

lemma list_of_2: "length ds = 2 \<longleftrightarrow> (\<exists>a b. ds = [a, b])"
  by (auto simp: numeral_eq_Suc length_Suc_conv)

lemma list_of_3: "length ds = 3 \<longleftrightarrow> (\<exists>a b c. ds = [a, b, c])"
  by (auto simp: numeral_eq_Suc length_Suc_conv)

definition utf8_form :: "bytes \<Rightarrow> nat \<Rightarrow> bool" where
  "utf8_form e n \<longleftrightarrow>
     (\<exists>k. k < 128 \<and> e = [of_nat k] \<and> n = k) \<or>
     (\<exists>k a. k < 32 \<and> a < 64 \<and> e = of_nat (192 + k) # tail_bytes [a] \<and> n = k * 64 + a \<and> 0x80 \<le> n) \<or>
     (\<exists>k a b. k < 16 \<and> a < 64 \<and> b < 64 \<and> e = of_nat (224 + k) # tail_bytes [a, b] \<and>
        n = (k * 64 + a) * 64 + b \<and> 0x800 \<le> n) \<or>
     (\<exists>k a b c. k < 8 \<and> a < 64 \<and> b < 64 \<and> c < 64 \<and> e = of_nat (240 + k) # tail_bytes [a, b, c] \<and>
        n = ((k * 64 + a) * 64 + b) * 64 + c \<and> 0x10000 \<le> n)"

lemma base64_digit: "a < 64 \<Longrightarrow> (m * 64 + a) div 64 = m \<and> (m * 64 + a) mod 64 = (a :: nat)"
  by simp

lemma utf8_form_iff: "n < 0x200000 \<Longrightarrow> utf8_form e n \<longleftrightarrow> e = map of_nat (utf8_nat n)"
proof
  assume n: "n < 0x200000" and "utf8_form e n"
  then show "e = map of_nat (utf8_nat n)"
    unfolding utf8_form_def
  proof (elim disjE exE conjE)
    fix k a b assume k: "k < 16" "a < 64" "b < 64" "e = of_nat (224 + k) # tail_bytes [a, b]"
      "n = (k * 64 + a) * 64 + b" "0x800 \<le> n"
    have "k * 64 + a \<le> 1023" using k(1,2) by simp
    then have "(k * 64 + a) * 64 \<le> 1023 * 64" by (rule mult_le_mono1)
    then have "n < 0x10000" unfolding k(5) using k(3) by linarith
    moreover have "n div 64 = k * 64 + a" "n mod 64 = b"
      unfolding k(5) using base64_digit [OF k(3)] by blast+
    ultimately show ?thesis using k(2,4,6) base64_digit [of a k] by (simp add: utf8_nat.simps [of n])
  next
    fix k a b c assume k: "k < 8" "a < 64" "b < 64" "c < 64" "e = of_nat (240 + k) # tail_bytes [a, b, c]"
      "n = ((k * 64 + a) * 64 + b) * 64 + c" "0x10000 \<le> n"
    have "n div 64 = (k * 64 + a) * 64 + b" "n mod 64 = c"
      unfolding k(6) using base64_digit [OF k(4)] by blast+
    moreover have "((k * 64 + a) * 64 + b) div 64 = k * 64 + a" "((k * 64 + a) * 64 + b) mod 64 = b"
      using base64_digit [OF k(3)] by blast+
    ultimately show ?thesis using k(2,5,7) base64_digit [of a k] by (simp add: utf8_nat.simps [of n])
  qed (auto simp: utf8_nat.simps)
next
  assume n: "n < 0x200000" and e: "e = map of_nat (utf8_nat n)"
  have s: "m = m div 64 * 64 + m mod 64" "m mod 64 < 64" for m :: nat by simp_all
  consider "n < 0x80" | "0x80 \<le> n" "n < 0x800" | "0x800 \<le> n" "n < 0x10000" | "0x10000 \<le> n" by linarith
  then show "utf8_form e n"
  proof cases
    case 1
    then show ?thesis by (simp add: utf8_form_def e utf8_nat.simps [of n])
  next
    case 2
    show ?thesis unfolding utf8_form_def e utf8_nat.simps [of n]
      by (rule disjI2, rule disjI1, intro exI [of _ "n div 64"] exI [of _ "n mod 64"]) (use 2 in simp)
  next
    case 3
    show ?thesis unfolding utf8_form_def e utf8_nat.simps [of n]
      by (rule disjI2, rule disjI2, rule disjI1, intro exI [of _ "n div 64 div 64"] exI [of _ "n div 64 mod 64"] exI [of _ "n mod 64"]) (use 3 in simp)
  next
    case 4
    have top: "n div 64 div 64 div 64 < 8" using n by (intro less_mult_imp_div_less) simp
    show ?thesis unfolding utf8_form_def e utf8_nat.simps [of n]
      by (rule disjI2, rule disjI2, rule disjI2, intro exI [of _ "n div 64 div 64 div 64"] exI [of _ "n div 64 div 64 mod 64"]
          exI [of _ "n div 64 mod 64"] exI [of _ "n mod 64"])
        (simp only: mod_less_divisor top(1) zero_less_numeral 4 n tail_bytes_simps list.map simp_thms if_False
          not_less [THEN iffD2] div_mult_mod_eq, use 4 in simp)
  qed
qed

lemma lead_byte_iff:
  assumes "0 < m" "t * m + m \<le> 256"
  shows "(\<exists>k < m. c = of_nat (t * m + k) \<and> P k) \<longleftrightarrow> unat (c :: byte) div m = t \<and> P (unat c mod m)"
proof
  assume "\<exists>k < m. c = of_nat (t * m + k) \<and> P k"
  then obtain k where k: "k < m" "c = of_nat (t * m + k)" "P k" by blast
  then have "unat c = t * m + k" using assms by (simp only: unat_small)
  with k show "unat c div m = t \<and> P (unat c mod m)" by simp
next
  assume "unat c div m = t \<and> P (unat c mod m)"
  then show "\<exists>k < m. c = of_nat (t * m + k) \<and> P k"
    using lead_byte [OF assms(1), of c t] assms(1) by (intro exI [of _ "unat c mod m"]) simp
qed

lemma div_range: "0 < m \<Longrightarrow> x div m = t \<longleftrightarrow> t * m \<le> x \<and> x < t * m + (m :: nat)"
proof
  assume "0 < m" "x div m = t"
  then show "t * m \<le> x \<and> x < t * m + m"
    using div_times_less_eq_dividend [of x m] dividend_less_div_times [of m x] by auto
next
  assume "0 < m" "t * m \<le> x \<and> x < t * m + m"
  then show "x div m = t" by (intro div_nat_eqI) (auto simp: mult.commute)
qed

text \<open>The forms that start with a given byte.\<close>

lemma utf8_form_Cons:
  "utf8_form (c # e) n \<longleftrightarrow>
     unat c < 128 \<and> e = [] \<and> n = unat c \<or>
     unat c div 32 = 6 \<and> (\<exists>a < 64. e = tail_bytes [a] \<and> n = (unat c mod 32) * 64 + a \<and> 0x80 \<le> n) \<or>
     unat c div 16 = 14 \<and> (\<exists>a b. a < 64 \<and> b < 64 \<and> e = tail_bytes [a, b] \<and>
       n = ((unat c mod 16) * 64 + a) * 64 + b \<and> 0x800 \<le> n) \<or>
     unat c div 8 = 30 \<and> (\<exists>a b d. a < 64 \<and> b < 64 \<and> d < 64 \<and> e = tail_bytes [a, b, d] \<and>
       n = (((unat c mod 8) * 64 + a) * 64 + b) * 64 + d \<and> 0x10000 \<le> n)"
proof -
  have 1: "(\<exists>k < 128. c = of_nat k \<and> P k) \<longleftrightarrow> unat c < 128 \<and> P (unat c)" for P
    using lead_byte_iff [of 128 0 c P] by (cases "unat c < 128") (simp_all add: div_range)
  have 2: "(\<exists>k < 32. c = of_nat (192 + k) \<and> P k) \<longleftrightarrow> unat c div 32 = 6 \<and> P (unat c mod 32)" for P
    using lead_byte_iff [of 32 6 c P] by simp
  have 3: "(\<exists>k < 16. c = of_nat (224 + k) \<and> P k) \<longleftrightarrow> unat c div 16 = 14 \<and> P (unat c mod 16)" for P
    using lead_byte_iff [of 16 14 c P] by simp
  have 4: "(\<exists>k < 8. c = of_nat (240 + k) \<and> P k) \<longleftrightarrow> unat c div 8 = 30 \<and> P (unat c mod 8)" for P
    using lead_byte_iff [of 8 30 c P] by simp
  have d1: "(\<exists>k < 128. c = of_nat k \<and> e = [] \<and> n = k) \<longleftrightarrow> unat c < 128 \<and> e = [] \<and> n = unat c"
    using 1 [of "\<lambda>k. e = [] \<and> n = k"] by auto
  have d2: "(\<exists>k a. k < 32 \<and> a < 64 \<and> c = of_nat (192 + k) \<and> e = tail_bytes [a] \<and> n = k * 64 + a \<and> 0x80 \<le> n) \<longleftrightarrow>
      unat c div 32 = 6 \<and> (\<exists>a < 64. e = tail_bytes [a] \<and> n = (unat c mod 32) * 64 + a \<and> 0x80 \<le> n)"
    unfolding 2 [of "\<lambda>k. \<exists>a < 64. e = tail_bytes [a] \<and> n = k * 64 + a \<and> 0x80 \<le> n", symmetric] by blast
  have d3: "(\<exists>k a b. k < 16 \<and> a < 64 \<and> b < 64 \<and> c = of_nat (224 + k) \<and> e = tail_bytes [a, b] \<and>
        n = (k * 64 + a) * 64 + b \<and> 0x800 \<le> n) \<longleftrightarrow>
      unat c div 16 = 14 \<and> (\<exists>a b. a < 64 \<and> b < 64 \<and> e = tail_bytes [a, b] \<and>
        n = ((unat c mod 16) * 64 + a) * 64 + b \<and> 0x800 \<le> n)"
    unfolding 3 [of "\<lambda>k. \<exists>a b. a < 64 \<and> b < 64 \<and> e = tail_bytes [a, b] \<and> n = (k * 64 + a) * 64 + b \<and> 0x800 \<le> n",
        symmetric] by blast
  have d4: "(\<exists>k a b d. k < 8 \<and> a < 64 \<and> b < 64 \<and> d < 64 \<and> c = of_nat (240 + k) \<and> e = tail_bytes [a, b, d] \<and>
        n = ((k * 64 + a) * 64 + b) * 64 + d \<and> 0x10000 \<le> n) \<longleftrightarrow>
      unat c div 8 = 30 \<and> (\<exists>a b d. a < 64 \<and> b < 64 \<and> d < 64 \<and> e = tail_bytes [a, b, d] \<and>
        n = (((unat c mod 8) * 64 + a) * 64 + b) * 64 + d \<and> 0x10000 \<le> n)"
    unfolding 4 [of "\<lambda>k. \<exists>a b d. a < 64 \<and> b < 64 \<and> d < 64 \<and> e = tail_bytes [a, b, d] \<and>
        n = ((k * 64 + a) * 64 + b) * 64 + d \<and> 0x10000 \<le> n", symmetric] by blast
  show ?thesis
    unfolding d1 [symmetric] d2 [symmetric] d3 [symmetric] d4 [symmetric] utf8_form_def list.inject
    by (simp only: conj_assoc)
qed

lemma utf8_form_nonempty: "\<not> utf8_form [] n"
  by (auto simp: utf8_form_def)

lemma utf8_tail_iffs:
  assumes "unat v < 32"
  shows "utf8_tail_loop 1 v s = (Some w, rest) \<longleftrightarrow>
      (\<exists>a. a < 64 \<and> s = tail_bytes [a] @ rest \<and> unat w = unat v * 64 + a)"
    and "utf8_tail_loop 2 v s = (Some w, rest) \<longleftrightarrow>
      (\<exists>a b. a < 64 \<and> b < 64 \<and> s = tail_bytes [a, b] @ rest \<and> unat w = (unat v * 64 + a) * 64 + b)"
    and "utf8_tail_loop 3 v s = (Some w, rest) \<longleftrightarrow>
      (\<exists>a b c. a < 64 \<and> b < 64 \<and> c < 64 \<and> s = tail_bytes [a, b, c] @ rest \<and>
         unat w = ((unat v * 64 + a) * 64 + b) * 64 + c)"
proof -
  have v: "unat v < 2 ^ (32 - 6 * n)" if "n \<le> 3" for n
  proof -
    have "(2 :: nat) ^ 5 \<le> 2 ^ (32 - 6 * n)" using that by (intro power_increasing) auto
    then show ?thesis using assms by simp
  qed
  have 1: "(\<exists>ds. length ds = 1 \<and> P ds) \<longleftrightarrow> (\<exists>a. P [a])" for P :: "nat list \<Rightarrow> bool"
    by (auto simp: length_Suc_conv)
  have 2: "(\<exists>ds. length ds = 2 \<and> P ds) \<longleftrightarrow> (\<exists>a b. P [a, b])" for P :: "nat list \<Rightarrow> bool"
    unfolding list_of_2 by auto
  have 3: "(\<exists>ds. length ds = 3 \<and> P ds) \<longleftrightarrow> (\<exists>a b c. P [a, b, c])" for P :: "nat list \<Rightarrow> bool"
    unfolding list_of_3 by auto
  show "utf8_tail_loop 1 v s = (Some w, rest) \<longleftrightarrow>
      (\<exists>a. a < 64 \<and> s = tail_bytes [a] @ rest \<and> unat w = unat v * 64 + a)"
    using utf8_tail_loop_iff [OF v [of 1], of s w rest] unfolding 1 list.pred_inject foldl.simps by simp
  show "utf8_tail_loop 2 v s = (Some w, rest) \<longleftrightarrow>
      (\<exists>a b. a < 64 \<and> b < 64 \<and> s = tail_bytes [a, b] @ rest \<and> unat w = (unat v * 64 + a) * 64 + b)"
    using utf8_tail_loop_iff [OF v [of 2], of s w rest] unfolding 2 list.pred_inject foldl.simps by simp
  show "utf8_tail_loop 3 v s = (Some w, rest) \<longleftrightarrow>
      (\<exists>a b c. a < 64 \<and> b < 64 \<and> c < 64 \<and> s = tail_bytes [a, b, c] @ rest \<and>
         unat w = ((unat v * 64 + a) * 64 + b) * 64 + c)"
    using utf8_tail_loop_iff [OF v [of 3], of s w rest] unfolding 3 list.pred_inject foldl.simps by simp
qed

text \<open>The reader with its case distinction stated on numbers.\<close>

definition utf8_finish :: "nat \<Rightarrow> byte \<Rightarrow> u32 \<Rightarrow> cbs \<Rightarrow> u32 option \<times> cbs" where
  "utf8_finish len v lower_bound s =
     (case utf8_tail_loop len (ucast v) s of
        (None, s'') \<Rightarrow> (None, s'')
      | (Some v, s'') \<Rightarrow>
          if \<not> is_valid_code_point v \<or> v < lower_bound then (None, s'') else (Some v, s''))"

lemma utf8_finish_Some:
  "utf8_finish len v lb s = (Some w, rest) \<longleftrightarrow>
     utf8_tail_loop len (ucast v) s = (Some w, rest) \<and> is_valid_code_point w \<and> lb \<le> w"
  by (auto simp: utf8_finish_def not_less split: prod.splits option.splits if_splits)

lemma cbs_get_utf8_Cons':
  "cbs_get_utf8 (c # s) =
     (if unat c < 128 then (Some (ucast c), s)
      else if unat c div 32 = 6 then utf8_finish 1 (c AND BOTTOM_BITS 5) 0x80 s
      else if unat c div 16 = 14 then utf8_finish 2 (c AND BOTTOM_BITS 4) 0x800 s
      else if unat c div 8 = 30 then utf8_finish 3 (c AND BOTTOM_BITS 3) 0x10000 s
      else (None, s))"
  by (simp only: cbs_get_utf8_Cons utf8_finish_def Let_def)

lemma small_valid: "unat u < 128 \<Longrightarrow> is_valid_code_point u"
proof -
  assume u: "unat u < 128"
  have "u AND 0xfffe \<noteq> 0xfffe"
  proof
    assume "u AND 0xfffe = 0xfffe"
    then have "0xfffe \<le> u" by (metis word_and_le2)
    then show False using u by (simp add: word_le_nat_alt)
  qed
  with u show ?thesis by (auto simp: is_valid_code_point_def word_le_nat_alt word_less_nat_alt)
qed

lemma cbs_get_utf8_iff:
  "cbs_get_utf8 s = (Some v, rest) \<longleftrightarrow> is_valid_code_point v \<and> (\<exists>e. utf8_form e (unat v) \<and> s = e @ rest)"
proof (cases s)
  case Nil
  then show ?thesis by (auto simp: cbs_get_utf8_def get_simps utf8_form_def)
next
  case (Cons c t)
  have lb: "(0x80 \<le> v) = (0x80 \<le> unat v)" "(0x800 \<le> v) = (0x800 \<le> unat v)" "(0x10000 \<le> v) = (0x10000 \<le> unat v)"
    by (simp_all add: word_le_nat_alt)
  have b: "unat (ucast (c AND BOTTOM_BITS 5) :: u32) < 32" "unat (ucast (c AND BOTTOM_BITS 4) :: u32) < 32"
    "unat (ucast (c AND BOTTOM_BITS 3) :: u32) < 32"
    unfolding ucast_payload by (rule order.strict_trans2 [OF mod_less_divisor], simp, simp)+
  have f: "(\<exists>e. utf8_form e n \<and> s = e @ rest) \<longleftrightarrow> (\<exists>e. utf8_form (c # e) n \<and> t = e @ rest)" for n
    unfolding Cons using utf8_form_nonempty [of n] by (auto simp: append_eq_Cons_conv Cons_eq_append_conv)
  have one: "ucast c = v \<longleftrightarrow> unat v = unat c" by (auto simp: word_unat_eq_iff unat_ucast_up)
  note tails = utf8_tail_iffs [OF b(1)] utf8_tail_iffs [OF b(2)] utf8_tail_iffs [OF b(3)]
  consider (one) "unat c < 128" | (two) "unat c div 32 = 6" | (three) "unat c div 16 = 14"
    | (four) "unat c div 8 = 30"
    | (bad) "\<not> unat c < 128" "unat c div 32 \<noteq> 6" "unat c div 16 \<noteq> 14" "unat c div 8 \<noteq> 30" by blast
  then show ?thesis
  proof cases
    case one
    then have "unat c div 32 \<noteq> 6" "unat c div 16 \<noteq> 14" "unat c div 8 \<noteq> 30" by (auto simp: div_range)
    then show ?thesis using one small_valid [of v] unfolding f utf8_form_Cons
      by (auto simp: Cons cbs_get_utf8_Cons' \<open>ucast c = v \<longleftrightarrow> unat v = unat c\<close>)
  next
    case two
    then have n: "\<not> unat c < 128" "unat c div 16 \<noteq> 14" "unat c div 8 \<noteq> 30" by (auto simp: div_range)
    show ?thesis unfolding f utf8_form_Cons
      by (simp only: Cons cbs_get_utf8_Cons' two n if_True if_False simp_thms utf8_finish_Some tails lb ucast_payload) blast
  next
    case three
    then have n: "\<not> unat c < 128" "unat c div 32 \<noteq> 6" "unat c div 8 \<noteq> 30" by (auto simp: div_range)
    show ?thesis unfolding f utf8_form_Cons
      by (simp only: Cons cbs_get_utf8_Cons' three n if_True if_False simp_thms utf8_finish_Some tails lb ucast_payload) blast
  next
    case four
    then have n: "\<not> unat c < 128" "unat c div 32 \<noteq> 6" "unat c div 16 \<noteq> 14" by (auto simp: div_range)
    show ?thesis unfolding f utf8_form_Cons
      by (simp only: Cons cbs_get_utf8_Cons' four n if_True if_False simp_thms utf8_finish_Some tails lb ucast_payload) blast
  next
    case bad
    then show ?thesis unfolding f utf8_form_Cons by (simp add: Cons cbs_get_utf8_Cons')
  qed
qed

section \<open>The encodings as codecs\<close>

interpretation utf8: byte_codec utf8_enc cbs_get_utf8
proof
  show "cbs_get_utf8 s = (Some v, rest) \<longleftrightarrow> (\<exists>e. utf8_enc v = Some e \<and> s = e @ rest)" for s v rest
  proof (cases "is_valid_code_point v")
    case True
    then have "unat v < 0x200000" using valid_code_point_bound [of v] by simp
    with True show ?thesis by (simp add: cbs_get_utf8_iff utf8_enc_def utf8_form_iff)
  qed (simp add: cbs_get_utf8_iff utf8_enc_def)
  show "utf8_enc v \<noteq> Some []" for v
    by (simp add: utf8_enc_def utf8_nat.simps)
qed

interpretation latin1: byte_codec latin1_enc cbs_get_latin1
proof
  have u: "ucast c = v \<longleftrightarrow> v \<le> 0xff \<and> c = ucast v" for c :: byte and v :: u32
  proof -
    have "v \<le> 0xff \<longleftrightarrow> unat v < 256" by (simp add: word_le_nat_alt less_Suc_eq_le [symmetric])
    moreover have "unat (ucast v :: byte) = unat v mod 256" by (simp add: unsigned_ucast_eq take_bit_eq_mod)
    ultimately show ?thesis using unsigned_less [of c, where 'a = nat] by (auto simp: word_unat_eq_iff unat_ucast_up)
  qed
  show "cbs_get_latin1 s = (Some v, rest) \<longleftrightarrow> (\<exists>e. latin1_enc v = Some e \<and> s = e @ rest)" for s v rest
    by (cases s) (auto simp: cbs_get_latin1_def get_simps latin1_enc_def u)
  show "latin1_enc v \<noteq> Some []" for v
    by (simp add: latin1_enc_def)
qed

lemma CBS_get_u16_iff: "CBS_get_u16 s = (Some c, rest) \<longleftrightarrow> s = be_bytes 2 (ucast c) @ rest"
proof
  assume a: "CBS_get_u16 s = (Some c, rest)"
  then have s: "2 \<le> length s" "rest = drop 2 s" "c = ucast (be_word (take 2 s))"
    by (auto simp: CBS_get_u16_def cbs_get_u_alt split: if_splits)
  have "(ucast c :: u64) = take_bit 16 (be_word (take 2 s))"
    unfolding s(3) by (rule bit_word_eqI) (auto simp: bit_simps)
  then have "be_bytes 2 (ucast c) = be_bytes 2 (take_bit 16 (be_word (take 2 s)))" by simp
  also have "\<dots> = be_bytes 2 (be_word (take 2 s))" by (rule be_bytes_take) simp
  also have "\<dots> = take 2 s" using be_bytes_be_word [of "take 2 s"] s(1) by simp
  finally show "s = be_bytes 2 (ucast c) @ rest" by (simp add: s(2))
qed (simp add: get_simps)

lemma CBS_get_u32_iff: "CBS_get_u32 s = (Some c, rest) \<longleftrightarrow> s = be_bytes 4 (ucast c) @ rest"
proof
  assume a: "CBS_get_u32 s = (Some c, rest)"
  then have s: "4 \<le> length s" "rest = drop 4 s" "c = ucast (be_word (take 4 s))"
    by (auto simp: CBS_get_u32_def cbs_get_u_alt split: if_splits)
  have "(ucast c :: u64) = take_bit 32 (be_word (take 4 s))"
    unfolding s(3) by (rule bit_word_eqI) (auto simp: bit_simps)
  then have "be_bytes 4 (ucast c) = be_bytes 4 (take_bit 32 (be_word (take 4 s)))" by simp
  also have "\<dots> = be_bytes 4 (be_word (take 4 s))" by (rule be_bytes_take) simp
  also have "\<dots> = take 4 s" using be_bytes_be_word [of "take 4 s"] s(1) by simp
  finally show "s = be_bytes 4 (ucast c) @ rest" by (simp add: s(2))
qed (simp add: get_simps)

lemma be_bytes_nonempty: "0 < k \<Longrightarrow> be_bytes k v \<noteq> []"
  by (metis length_be_bytes list.size(3) less_irrefl)

interpretation ucs2: byte_codec ucs2_enc cbs_get_ucs2_be
proof
  have u: "(ucast c :: u32) = v \<longleftrightarrow> v \<le> 0xffff \<and> c = ucast v" for c :: u16 and v :: u32
  proof -
    have "v \<le> 0xffff \<longleftrightarrow> unat v < 65536" by (simp add: word_le_nat_alt less_Suc_eq_le [symmetric])
    moreover have "unat (ucast v :: u16) = unat v mod 65536" by (simp add: unsigned_ucast_eq take_bit_eq_mod)
    ultimately show ?thesis using unsigned_less [of c, where 'a = nat] by (auto simp: word_unat_eq_iff unat_ucast_up)
  qed
  have w: "(ucast (ucast c :: u32) :: u64) = ucast c" for c :: u16
    by (rule bit_word_eqI) (auto simp: bit_simps dest: bit_imp_le_length)
  show "cbs_get_ucs2_be s = (Some v, rest) \<longleftrightarrow> (\<exists>e. ucs2_enc v = Some e \<and> s = e @ rest)" for s v rest
  proof -
    have "cbs_get_ucs2_be s = (Some v, rest) \<longleftrightarrow>
        (\<exists>c. CBS_get_u16 s = (Some c, rest) \<and> is_valid_code_point v \<and> ucast c = v)"
      by (auto simp: cbs_get_ucs2_be_def split: prod.splits option.splits)
    also have "\<dots> \<longleftrightarrow> is_valid_code_point v \<and> (\<exists>c :: u16. ucast c = v \<and> s = be_bytes 2 (ucast v) @ rest)"
    proof -
      have "ucast c = v \<Longrightarrow> (s = be_bytes 2 (ucast c) @ rest) = (s = be_bytes 2 (ucast v) @ rest)" for c :: u16
        using w [of c] by auto
      then show ?thesis unfolding CBS_get_u16_iff by blast
    qed
    also have "\<dots> \<longleftrightarrow> (\<exists>e. ucs2_enc v = Some e \<and> s = e @ rest)"
      by (auto simp: u ucs2_enc_def)
    finally show ?thesis .
  qed
  show "ucs2_enc v \<noteq> Some []" for v
    by (simp add: ucs2_enc_def be_bytes_nonempty)
qed

interpretation utf32: byte_codec utf32_enc cbs_get_utf32_be
proof
  show "cbs_get_utf32_be s = (Some v, rest) \<longleftrightarrow> (\<exists>e. utf32_enc v = Some e \<and> s = e @ rest)" for s v rest
  proof -
    have "cbs_get_utf32_be s = (Some v, rest) \<longleftrightarrow> CBS_get_u32 s = (Some v, rest) \<and> is_valid_code_point v"
      by (auto simp: cbs_get_utf32_be_def split: prod.splits option.splits)
    then show ?thesis by (auto simp: CBS_get_u32_iff utf32_enc_def)
  qed
  show "utf32_enc v \<noteq> Some []" for v
    by (simp add: utf32_enc_def be_bytes_nonempty)
qed


section \<open>The writers\<close>

text \<open>A writer implements an encoding: it appends the encoding of a character, or refuses the
  character and leaves the builder as it was.\<close>

locale char_writer =
  fixes enc :: "u32 \<Rightarrow> bytes option" and add :: "u32 \<Rightarrow> nat \<Rightarrow> cbb_op"
  assumes add_produces:
      "enc u = Some e \<Longrightarrow> holds (pre @ [(p, xs)]) st \<Longrightarrow> length (layout (pre @ [(p, xs @ e)])) \<le> n \<Longrightarrow>
       d = length pre \<Longrightarrow> produces (add u d) st n (pre @ [(p, xs @ e)])"
    and add_refuses: "enc u = None \<Longrightarrow> add u d st = (False, st)"
begin

text \<open>Writing a list of characters.\<close>

lemma add_all_chars:
  "encode_all enc us = Some e \<Longrightarrow> holds (pre @ [(p, xs)]) st \<Longrightarrow>
   length (layout (pre @ [(p, xs @ e)])) \<le> n \<Longrightarrow> d = length pre \<Longrightarrow>
   produces (cbb_seq (map (\<lambda>u. add u d) us)) st n (pre @ [(p, xs @ e)])"
proof (induction us arbitrary: xs st e)
  case Nil
  then show ?case using produces_Nil [of _ st n] by (simp del: cbb_seq.simps)
next
  case (Cons u us)
  then obtain a b where ab: "enc u = Some a" "encode_all enc us = Some b" "e = a @ b"
    by (auto split: option.splits)
  show ?case unfolding list.map
  proof (rule produces_seq)
    show "produces (add u d) st n (pre @ [(p, xs @ a)])"
      using Cons.prems(3,4) ab by (intro add_produces [OF ab(1) Cons.prems(2)]) simp_all
  next
    fix st' assume "holds (pre @ [(p, xs @ a)]) st'"
    from Cons.IH [OF ab(2) this] Cons.prems(3,4) ab(3)
    show "produces (cbb_seq (map (\<lambda>u. add u d) us)) st' n (pre @ [(p, xs @ e)])" by simp
  qed
qed

lemma add_all_refuses:
  "encode_all enc us = None \<Longrightarrow> fst (cbb_seq (map (\<lambda>u. add u d) us) st) = False"
proof (induction us arbitrary: st)
  case (Cons u us)
  then show ?case
    using add_refuses [of u d st] by (cases "enc u") (auto split: prod.split bool.split option.splits)
qed simp

end


interpretation latin1: char_writer latin1_enc cbb_add_latin1
proof
  show "produces (cbb_add_latin1 u d) st n (pre @ [(p, xs @ e)])"
    if "latin1_enc u = Some e" "holds (pre @ [(p, xs)]) st" "length (layout (pre @ [(p, xs @ e)])) \<le> n" "d = length pre"
    for u e pre p xs st n d
    using CBB_add_u8_produces [OF that(2), of "[]" "ucast u" n d] that(1,3,4)
    by (auto simp: latin1_enc_def cbb_add_latin1_def split: if_splits)
  show "latin1_enc u = None \<Longrightarrow> cbb_add_latin1 u d st = (False, st)" for u d st
    by (simp add: latin1_enc_def cbb_add_latin1_def split: if_splits)
qed

lemma CBB_add_u16_produces:
  assumes "holds (pre @ [(p, xs)]) st" "length (layout (pre @ [(p, xs @ be_bytes 2 (ucast v))])) \<le> n" "d = length pre"
  shows "produces (CBB_add_u16 v d) st n (pre @ [(p, xs @ be_bytes 2 (ucast v))])"
proof -
  have "drop_bit (8 * 2) (ucast v :: u64) = 0"
    by (rule bit_word_eqI) (auto simp: bit_simps dest: bit_imp_le_length)
  then show ?thesis
    using CBB_add_u_produces [OF assms(1), of "[]" 2 "ucast v" n d] assms(2,3) by (simp add: CBB_add_u16_def)
qed

lemma CBB_add_u32_produces:
  assumes "holds (pre @ [(p, xs)]) st" "length (layout (pre @ [(p, xs @ be_bytes 4 (ucast v))])) \<le> n" "d = length pre"
  shows "produces (CBB_add_u32 v d) st n (pre @ [(p, xs @ be_bytes 4 (ucast v))])"
proof -
  have "drop_bit (8 * 4) (ucast v :: u64) = 0"
    by (rule bit_word_eqI) (auto simp: bit_simps dest: bit_imp_le_length)
  then show ?thesis
    using CBB_add_u_produces [OF assms(1), of "[]" 4 "ucast v" n d] assms(2,3) by (simp add: CBB_add_u32_def)
qed

lemma be_bytes_2_ucast: "be_bytes 2 (ucast (ucast (u :: u32) :: u16)) = be_bytes 2 (ucast u)"
proof -
  have "(ucast (ucast u :: u16) :: u64) = take_bit 16 (ucast u)"
    by (rule bit_word_eqI) (auto simp: bit_simps)
  then show ?thesis using be_bytes_take [of 2 16 "ucast u"] by simp
qed

interpretation ucs2: char_writer ucs2_enc cbb_add_ucs2_be
proof
  show "produces (cbb_add_ucs2_be u d) st n (pre @ [(p, xs @ e)])"
    if "ucs2_enc u = Some e" "holds (pre @ [(p, xs)]) st" "length (layout (pre @ [(p, xs @ e)])) \<le> n" "d = length pre"
    for u e pre p xs st n d
    using CBB_add_u16_produces [OF that(2), of "ucast u" n d] that(1,3,4)
    by (auto simp: ucs2_enc_def cbb_add_ucs2_be_def be_bytes_2_ucast split: if_splits)
  show "ucs2_enc u = None \<Longrightarrow> cbb_add_ucs2_be u d st = (False, st)" for u d st
    by (auto simp add: ucs2_enc_def cbb_add_ucs2_be_def split: if_splits)
qed

interpretation utf32: char_writer utf32_enc cbb_add_utf32_be
proof
  show "produces (cbb_add_utf32_be u d) st n (pre @ [(p, xs @ e)])"
    if "utf32_enc u = Some e" "holds (pre @ [(p, xs)]) st" "length (layout (pre @ [(p, xs @ e)])) \<le> n" "d = length pre"
    for u e pre p xs st n d
    using CBB_add_u32_produces [OF that(2), of u n d] that(1,3,4)
    by (auto simp: utf32_enc_def cbb_add_utf32_be_def split: if_splits)
  show "utf32_enc u = None \<Longrightarrow> cbb_add_utf32_be u d st = (False, st)" for u d st
    by (simp add: utf32_enc_def cbb_add_utf32_be_def split: if_splits)
qed

text \<open>The bytes of the UTF-8 writer.\<close>

lemma or_low: "unat x < 2 ^ k \<Longrightarrow> push_bit k t OR x = push_bit k t + (x :: u32)"
  by (rule disjunctive_add [symmetric]) (subst unat_take_bit_self, assumption, auto simp: bit_simps)

lemma byte_of_sum: "(ucast (of_nat a + x :: u32) :: byte) = of_nat (a + unat x)"
proof -
  have "of_nat a + x = (of_nat (a + unat x) :: u32)" by simp
  moreover have "(ucast (of_nat n :: u32) :: byte) = of_nat n" for n
    by (simp add: word_unat_eq_iff unsigned_ucast_eq unat_of_nat take_bit_eq_mod mod_mod_cancel)
  ultimately show ?thesis by (simp only:)
qed

lemma unat_drop_u32: "unat (drop_bit k (u :: u32)) = unat u div 2 ^ k"
  by (simp only: unat_drop_bit_eq drop_bit_eq_div [where 'a = nat])

lemma utf8_lead:
  assumes "unat (u :: u32) div 2 ^ s < 2 ^ k"
  shows "ucast (push_bit k t OR drop_bit s u) = (of_nat (unat t * 2 ^ k + unat u div 2 ^ s) :: byte)"
proof -
  have "push_bit k t = of_nat (unat t * 2 ^ k)" by (simp add: push_bit_eq_mult)
  then show ?thesis
    using or_low [of "drop_bit s u" k t] byte_of_sum [of "unat t * 2 ^ k" "drop_bit s u"] assms
    by (simp only: unat_drop_u32)
qed

lemma lead_bits:
  "ucast (TOP_BITS 2) = push_bit 5 (6 :: u32)" "ucast (TOP_BITS 3) = push_bit 4 (14 :: u32)"
  "ucast (TOP_BITS 4) = push_bit 3 (30 :: u32)"
  by (simp_all add: top_bits)

lemma lead_values:
  "unat (6 :: u32) * 2 ^ 5 = 192" "unat (14 :: u32) * 2 ^ 4 = 224" "unat (30 :: u32) * 2 ^ 3 = 240"
  by simp_all

lemma lead_shifts: "(2 :: nat) ^ 6 = 64" "(2 :: nat) ^ 12 = 64 * 64" "(2 :: nat) ^ 18 = 64 * 64 * 64"
  by simp_all

lemma utf8_leads:
  "unat (u :: u32) < 0x800 \<Longrightarrow> ucast (ucast (TOP_BITS 2) OR drop_bit 6 u) = (of_nat (192 + unat u div 64) :: byte)"
  "unat u < 0x10000 \<Longrightarrow> ucast (ucast (TOP_BITS 3) OR drop_bit 12 u) = (of_nat (224 + unat u div 64 div 64) :: byte)"
  "unat u < 0x200000 \<Longrightarrow> ucast (ucast (TOP_BITS 4) OR drop_bit 18 u) = (of_nat (240 + unat u div 64 div 64 div 64) :: byte)"
  subgoal premises p
    using utf8_lead [of u 6 5 6, unfolded lead_values lead_shifts] less_mult_imp_div_less [of "unat u" 32 64] p
    unfolding lead_bits by simp
  subgoal premises p
    using utf8_lead [of u 12 4 14, unfolded lead_values lead_shifts div_mult2_eq]
      less_mult_imp_div_less [of "unat u" 16 "64 * 64", unfolded div_mult2_eq] p
    unfolding lead_bits by simp
  subgoal premises p
    using utf8_lead [of u 18 3 30, unfolded lead_values lead_shifts div_mult2_eq]
      less_mult_imp_div_less [of "unat u" 8 "64 * 64 * 64", unfolded div_mult2_eq] p
    unfolding lead_bits by simp
  done

lemma utf8_tail:
  "ucast (ucast (TOP_BITS 1) OR (drop_bit k (u :: u32) AND ucast (BOTTOM_BITS 6))) =
     (of_nat (128 + unat u div 2 ^ k mod 64) :: byte)"
proof -
  let ?x = "drop_bit k u AND 0x3f"
  have x: "?x = take_bit 6 (drop_bit k u)" by (simp add: take_bit_eq_mask mask_eq_exp_minus_1)
  then have u: "unat ?x = unat u div 2 ^ k mod 64"
    by (simp only: unsigned_take_bit_eq unat_drop_u32 take_bit_eq_mod [where 'a = nat]) simp
  show ?thesis using or_low [of ?x 7 1] byte_of_sum [of 128 ?x] u by (simp add: top_bits_Suc bottom_bits less_trans [of _ 64])
qed

lemma cbb_add_utf8_eq:
  assumes "is_valid_code_point u"
  shows "cbb_add_utf8 u d = add_u8s (map of_nat (utf8_nat (unat u))) d"
proof -
  have le: "u \<le> 0x7f \<longleftrightarrow> unat u < 0x80" "u \<le> 0x7ff \<longleftrightarrow> unat u < 0x800" "u \<le> 0xffff \<longleftrightarrow> unat u < 0x10000"
    "u \<le> 0x10ffff"
    using valid_code_point_bound [OF assms] by (simp_all add: word_le_nat_alt less_Suc_eq_le [symmetric])
  have lt: "unat u < 0x200000" using valid_code_point_bound [OF assms] by simp
  have one: "(ucast u :: byte) = of_nat (unat u)"
    by (simp add: word_unat_eq_iff unsigned_ucast_eq unat_of_nat take_bit_eq_mod)
  have tail: "ucast (ucast (TOP_BITS 1) OR (drop_bit 0 u AND ucast (BOTTOM_BITS 6))) = (of_nat (128 + unat u mod 64) :: byte)"
    "ucast (ucast (TOP_BITS 1) OR (drop_bit 6 u AND ucast (BOTTOM_BITS 6))) = (of_nat (128 + unat u div 64 mod 64) :: byte)"
    "ucast (ucast (TOP_BITS 1) OR (drop_bit 12 u AND ucast (BOTTOM_BITS 6))) =
       (of_nat (128 + unat u div 64 div 64 mod 64) :: byte)"
    using utf8_tail [of 0 u] utf8_tail [of 6 u] utf8_tail [of 12 u] by (simp_all add: div_mult2_eq [symmetric])
  consider "unat u < 0x80" | "\<not> unat u < 0x80" "unat u < 0x800" | "\<not> unat u < 0x80" "\<not> unat u < 0x800" "unat u < 0x10000"
    | "\<not> unat u < 0x80" "\<not> unat u < 0x800" "\<not> unat u < 0x10000" by blast
  then show ?thesis
  proof cases
    case 1
    have "cbb_seq [CBB_add_u8 x d] = CBB_add_u8 x d" for x
      by (auto simp: fun_eq_iff split: prod.split bool.split)
    then show ?thesis using 1
      by (simp only: cbb_add_utf8_def assms le Let_def not_True_eq_False if_True if_False utf8_nat.simps [of "unat u"]
          list.map one add_u8s_def)
  next
    case 2
    with utf8_leads(1) [of u] show ?thesis
      by (simp only: cbb_add_utf8_def assms le Let_def not_True_eq_False if_True if_False utf8_nat.simps [of "unat u"]
          list.map tail add_u8s_def)
  next
    case 3
    with utf8_leads(2) [of u] show ?thesis
      by (simp only: cbb_add_utf8_def assms le Let_def not_True_eq_False if_True if_False utf8_nat.simps [of "unat u"]
          list.map tail add_u8s_def)
  next
    case 4
    with utf8_leads(3) [OF lt] show ?thesis
      by (simp only: cbb_add_utf8_def assms le Let_def not_True_eq_False if_True if_False utf8_nat.simps [of "unat u"]
          list.map tail add_u8s_def)
  qed
qed

interpretation utf8: char_writer utf8_enc cbb_add_utf8
proof
  show "produces (cbb_add_utf8 u d) st n (pre @ [(p, xs @ e)])"
    if "utf8_enc u = Some e" "holds (pre @ [(p, xs)]) st" "length (layout (pre @ [(p, xs @ e)])) \<le> n" "d = length pre"
    for u e pre p xs st n d
    using add_u8s_produces [OF that(2-4)] that(1)
    by (auto simp: utf8_enc_def cbb_add_utf8_eq split: if_splits)
  show "utf8_enc u = None \<Longrightarrow> cbb_add_utf8 u d st = (False, st)" for u d st
    by (auto simp: utf8_enc_def cbb_add_utf8_def Let_def split: if_splits)
qed

text \<open>The size the first pass of the converter adds up.\<close>

lemma cbb_get_utf8_len_enc: "utf8_enc u = Some e \<Longrightarrow> length e = cbb_get_utf8_len u"
proof -
  assume e: "utf8_enc u = Some e"
  have "u \<le> 0x7f \<longleftrightarrow> unat u < 0x80" "u \<le> 0x7ff \<longleftrightarrow> unat u < 0x800" "u \<le> 0xffff \<longleftrightarrow> unat u < 0x10000"
    by (simp_all add: word_le_nat_alt less_Suc_eq_le [symmetric])
  with e show ?thesis
    by (auto simp: utf8_enc_def cbb_get_utf8_len_def utf8_nat.simps [of "unat u"] split: if_splits)
qed

text \<open>Which code points are valid, in numbers.\<close>

lemma and_fffe: "n AND 0xfffe = (0xfffe :: nat) \<longleftrightarrow> 0xfffe \<le> n mod 0x10000"
proof -
  have "n div 2 AND mask 15 = n div 2 mod 2 ^ 15" by (simp only: take_bit_eq_mask [symmetric] take_bit_eq_mod)
  then have "n AND 0xfffe = 2 * (n div 2 mod 0x8000)"
    by (simp add: and_rec [of n "0xfffe"] mask_eq_exp_minus_1)
  moreover have "n mod 0x10000 = 2 * (n div 2 mod 0x8000) + n mod 2" using mod_mult2_eq [of n 2 "0x8000"] by simp
  moreover have "2 * m = 0xfffe \<longleftrightarrow> 0xfffe \<le> 2 * m + r" if "r < 2" "m < 0x8000" for m r :: nat
    using that by auto
  ultimately show ?thesis by simp
qed

lemma noncharacter_bits: "v AND 0xfffe = (0xfffe :: u32) \<longleftrightarrow> 0xfffe \<le> unat v mod 0x10000"
proof -
  have "v AND 0xfffe = (0xfffe :: u32) \<longleftrightarrow> unat (v AND 0xfffe) = 0xfffe" by (simp add: word_unat_eq_iff)
  then show ?thesis by (simp only: unsigned_and_eq and_fffe [symmetric]) simp
qed

lemma valid_code_points:
  "is_valid_code_point v \<longleftrightarrow> unat v \<le> 0x10ffff \<and> unat v mod 0x10000 < 0xfffe \<and> unat v \<notin> {0xfdd0..0xfdef} \<and> unat v \<notin> {0xd800..0xdfff}"
proof -
  have "v > 0x10ffff \<longleftrightarrow> \<not> unat v \<le> 0x10ffff" "v \<ge> 0xfdd0 \<and> v \<le> 0xfdef \<longleftrightarrow> unat v \<in> {0xfdd0..0xfdef}"
    "v \<ge> 0xd800 \<and> v \<le> 0xdfff \<longleftrightarrow> unat v \<in> {0xd800..0xdfff}"
    by (simp_all add: word_le_nat_alt word_less_nat_alt not_le)
  then show ?thesis unfolding is_valid_code_point_def noncharacter_bits by auto
qed

section \<open>Properties\<close>

text \<open>C17: The UTF-8 reader accepts exactly the shortest encoding of each valid code point, which
  is what the UTF-8 writer appends: surrogates, noncharacters, values beyond U+10FFFF, overlong
  forms, stray continuation bytes and truncated sequences are refused.\<close>

theorem utf8_reader_writer:
  "(is_valid_code_point u \<longleftrightarrow> unat u \<le> 0x10ffff \<and> unat u mod 0x10000 < 0xfffe \<and>
      unat u \<notin> {0xfdd0..0xfdef} \<and> unat u \<notin> {0xd800..0xdfff}) \<and>
   (cbs_get_utf8 s = (Some u, rest) \<longleftrightarrow>
      is_valid_code_point u \<and> s = map of_nat (utf8_nat (unat u)) @ rest) \<and>
   cbb_add_utf8 u d =
     (if is_valid_code_point u then add_u8s (map of_nat (utf8_nat (unat u))) d else (\<lambda>cbb. (False, cbb)))"
  using utf8.dec_iff [of s u rest] cbb_add_utf8_eq [of u d] valid_code_points [of u]
  by (auto simp: utf8_enc_def cbb_add_utf8_def Let_def split: if_splits)

text \<open>C38: A byte string is the encoding of at most one list of characters in each of the four
  encodings, and reading it to the end gives that list.\<close>

theorem character_strings_unambiguous:
  "(decode_all cbs_get_utf8 (length s) s = Some us \<longleftrightarrow> encode_all utf8_enc us = Some s) \<and>
   (decode_all cbs_get_latin1 (length s) s = Some us \<longleftrightarrow> encode_all latin1_enc us = Some s) \<and>
   (decode_all cbs_get_ucs2_be (length s) s = Some us \<longleftrightarrow> encode_all ucs2_enc us = Some s) \<and>
   (decode_all cbs_get_utf32_be (length s) s = Some us \<longleftrightarrow> encode_all utf32_enc us = Some s)"
  using utf8.decode_all_iff latin1.decode_all_iff ucs2.decode_all_iff utf32.decode_all_iff by blast

end
