(* ===== verification/Ber.thy ===== *)
theory Ber
  imports CBB_Spec
begin

text \<open>
  The converter from BER to DER of \<open>crypto/bytestring/ber.c\<close>.  A first walk
  (\<open>cbs_find_ber\<close>) looks for a form DER does not have; only when one is found is the input
  rebuilt through a \<open>CBB\<close> (\<open>cbs_convert_ber\<close>).  The converter is verified against a
  datatype of BER values: it writes the distinguished encoding of whatever forest it reads.
  The walk is shown to lose what it found when another element follows in the same parent.
\<close>

section \<open>BER headers\<close>

text \<open>The length octets BER allows for a definite length; DER allows only the shortest.\<close>

definition ber_len :: "nat \<Rightarrow> bytes \<Rightarrow> bool" where
  "ber_len n lb \<longleftrightarrow>
     n < 128 \<and> lb = [of_nat n] \<or>
     (let L = tl lb in lb = of_nat (128 + length L) # L \<and> 1 \<le> length L \<and> length L \<le> 4 \<and> unat (be_word L) = n)"

lemma ber_len_iff:
  "ber_len n lb \<longleftrightarrow>
     n < 128 \<and> lb = [of_nat n] \<or>
     (\<exists>L. lb = of_nat (128 + length L) # L \<and> 1 \<le> length L \<and> length L \<le> 4 \<and> unat (be_word L) = n)"
  unfolding ber_len_def Let_def by (auto intro: exI [of _ "tl lb"])

definition ber_result :: "u32 \<Rightarrow> bytes \<Rightarrow> bytes \<Rightarrow> bool \<Rightarrow> asn1_element" where
  "ber_result tag lb body found =
     \<lparr>el_out = der_tag_bytes tag @ lb @ body, el_tag = tag,
      el_header_len = length (der_tag_bytes tag) + length lb, el_ber_found = found\<rparr>"

lemma ber_result_sel [simp]:
  "el_out (ber_result tag lb body found) = der_tag_bytes tag @ lb @ body"
  "el_tag (ber_result tag lb body found) = tag"
  "el_header_len (ber_result tag lb body found) = length (der_tag_bytes tag) + length lb"
  "el_ber_found (ber_result tag lb body found) = found"
  by (simp_all add: ber_result_def)

text \<open>A long form is the distinguished one exactly when neither of the two tests of the reader
  finds it wasteful.\<close>

lemma long_form_minimal:
  assumes "1 \<le> length L" "length L \<le> 4"
  shows "of_nat (128 + length L) # L = der_len_bytes (unat (be_word L)) \<longleftrightarrow>
    \<not> (unat (be_word L) < 128 \<or> unat (be_word L) < 2 ^ (8 * (length L - 1)))"
    (is "?lb = der_len_bytes ?n \<longleftrightarrow> \<not> (_ \<or> ?n < ?b)")
proof -
  have n: "?n < 2 ^ (8 * length L)" using assms be_word_bound [of L] by simp
  have L: "be_bytes (length L) (of_nat ?n) = L" using assms be_bytes_be_word [of L] by simp
  have k: "length L \<in> {1, 2, 3, 4}" using assms by auto
  show ?thesis
  proof
    assume eq: "?lb = der_len_bytes ?n"
    then have "128 \<le> ?n" using assms by (auto simp: der_len_bytes_def split: if_splits)
    moreover from this eq have "length L = der_len_len ?n"
      by (auto simp: der_len_bytes_def dest!: arg_cong [of _ _ length])
    moreover have "?n < 2 ^ 32"
      using n assms power_increasing [of "8 * length L" 32 "2 :: nat"] by simp
    ultimately show "\<not> (?n < 128 \<or> ?n < ?b)" using der_len_len_bounds(4) [of ?n] by simp
  next
    assume "\<not> (?n < 128 \<or> ?n < ?b)"
    then show "?lb = der_len_bytes ?n"
      using der_len_len_unique [of "length L" ?n] n assms L by (simp add: der_len_bytes_def)
  qed
qed

lemma ber_element_long:
  assumes "parse_asn1_tag s = (Some tag, lb # t)" "128 \<le> unat lb" "s = T @ lb # t"
    and T: "length T \<le> 6"
    and k: "k = unat (lb AND 0x7f)"
  shows "cbs_get_any_asn1_element True s =
    (if tag AND CBS_ASN1_CONSTRUCTED \<noteq> 0 \<and> k = 0
     then (Some \<lparr>el_out = T @ [lb], el_tag = tag, el_header_len = length T + 1, el_ber_found = True\<rparr>, t)
     else if k = 0 \<or> k > 4 \<or> length t < k then (None, s)
     else let n = unat (be_word (take k t)) in
       if length t - k < n then (None, s)
       else (Some \<lparr>el_out = T @ lb # take (k + n) t, el_tag = tag,
                   el_header_len = length T + 1 + k,
                   el_ber_found = (n < 128 \<or> n < 2 ^ (8 * (k - 1)))\<rparr>, drop (k + n) t))"
proof (cases "k = 0 \<or> k > 4 \<or> length t < k")
  case True
  then show ?thesis
    using assms(2) unfolding cbs_get_any_asn1_element_def
    by (simp only: assms(1) Let_def prod.case option.case get_simps high_bit_iff k [symmetric])
       (auto simp: cbs_get_u_alt CBS_len_def CBS_get_bytes_alt assms(3))
next
  case False
  let ?L = "be_word (take k t)"
  have bound: "unat ?L < 2 ^ 32"
  proof -
    have "unat ?L < 2 ^ (8 * k)" using be_word_bound [of "take k t"] False by (simp add: min_absorb2)
    also have "(2::nat) ^ (8 * k) \<le> 2 ^ 32" using False by (intro power_increasing) auto
    finally show ?thesis .
  qed
  have get: "cbs_get_u k t = (Some ?L, drop k t)" using False by (simp add: cbs_get_u_alt)
  have lt: "?L < 128 \<longleftrightarrow> unat ?L < 128" by (simp add: word_less_nat_alt)
  have hl: "length s - length t = length T + 1" using assms(3) by simp
  have ds: "drop (unat ?L + (length T + 1) + k) s = drop (k + unat ?L) t"
    "take (unat ?L + (length T + 1) + k) s = T @ lb # take (k + unat ?L) t"
    using assms(3) by (simp_all add: add.commute)
  have c: "\<not> (k = 0 \<or> k > 4)" "k \<noteq> 0" "\<not> unat lb < 128" using False assms(2) by auto
  have len: "length s < unat ?L + (length T + 1) + k \<longleftrightarrow> length t - k < unat ?L"
    using assms(3) False by auto
  have c8: "(k - 1) * 8 = 8 * (k - 1)" by simp
  have nov: "\<not> (unat ?L + (length T + 1) + k) mod 2 ^ 64 < unat ?L"
    using T bound False by (subst mod_less) simp_all
  show ?thesis
    using False unfolding cbs_get_any_asn1_element_def
    by (simp only: assms(1) Let_def prod.case option.case get_simps high_bit_iff k [symmetric]
        CBS_len_def get hl c simp_thms if_False lt drop_bit_0_iff CBS_get_bytes_alt ds len nov c8) auto
qed

lemma ber_element_definite:
  assumes "ber_len (length body) lb"
  shows "CBS_get_any_ber_asn1_element (der_tag_bytes tag @ lb @ body @ rest) =
    (Some (ber_result tag lb body (lb \<noteq> der_len_bytes (length body))), rest)"
  using assms unfolding ber_len_iff
proof (elim disjE conjE exE)
  let ?b = "of_nat (length body) :: byte"
  assume n: "length body < 128" and lb: "lb = [?b]"
  have b: "unat ?b = length body" using n by (simp only: unat_of_nat) simp
  let ?s = "der_tag_bytes tag @ ?b # body @ rest"
  have "parse_asn1_tag ?s = (Some tag, ?b # body @ rest)" by (simp only: parse_asn1_tag_iff)
  from element_short [OF this _ refl] n b show ?thesis
    by (simp add: CBS_get_any_ber_asn1_element_def ber_result_def lb der_len_bytes_def)
next
  fix L assume lb: "lb = of_nat (128 + length L) # L" and k: "1 \<le> length L" "length L \<le> 4"
    and n: "unat (be_word L) = length body"
  let ?b = "of_nat (128 + length L) :: byte"
  have b: "unat ?b = 128 + length L" using k by (simp only: unat_of_nat) simp
  then have b7: "length L = unat (?b AND 0x7f)" using k by (simp only: unat_low7) simp
  let ?s = "der_tag_bytes tag @ ?b # L @ body @ rest"
  have p: "parse_asn1_tag ?s = (Some tag, ?b # L @ body @ rest)" by (simp only: parse_asn1_tag_iff)
  have hi: "128 \<le> unat ?b" and ne: "L \<noteq> []" using b k by auto
  from ber_element_long [OF p hi refl der_tag_bytes_length(1) b7] long_form_minimal [OF k] k n ne
  show ?thesis
    by (simp add: CBS_get_any_ber_asn1_element_def ber_result_def lb Let_def del: of_nat_add)
qed

lemma ber_element_indefinite:
  assumes "tag AND CBS_ASN1_CONSTRUCTED \<noteq> 0"
  shows "CBS_get_any_ber_asn1_element (der_tag_bytes tag @ 0x80 # rest) =
    (Some (ber_result tag [0x80] [] True), rest)"
proof -
  have p: "parse_asn1_tag (der_tag_bytes tag @ 0x80 # rest) = (Some tag, 0x80 # rest)"
    by (simp only: parse_asn1_tag_iff)
  show ?thesis
    using ber_element_long [OF p _ refl der_tag_bytes_length(1) refl] assms
    by (simp add: CBS_get_any_ber_asn1_element_def ber_result_def)
qed

lemma ber_element_cases:
  assumes "CBS_get_any_ber_asn1_element s = (Some e, rest)"
  obtains (definite) tag lb body where "ber_len (length body) lb"
      "s = der_tag_bytes tag @ lb @ body @ rest"
      "e = ber_result tag lb body (lb \<noteq> der_len_bytes (length body))"
  | (indefinite) tag where "tag AND CBS_ASN1_CONSTRUCTED \<noteq> 0" "s = der_tag_bytes tag @ 0x80 # rest"
      "e = ber_result tag [0x80] [] True"
proof -
  from assms obtain tag header where p: "parse_asn1_tag s = (Some tag, header)"
    by (auto simp: CBS_get_any_ber_asn1_element_def cbs_get_any_asn1_element_def Let_def
        split: prod.splits option.splits)
  then have s0: "s = der_tag_bytes tag @ header" by (simp only: parse_asn1_tag_iff)
  from assms p obtain b t where h: "header = b # t"
    by (cases header) (auto simp: CBS_get_any_ber_asn1_element_def cbs_get_any_asn1_element_def Let_def get_simps)
  note s = s0 [unfolded h] and p = p [unfolded h]
  show thesis
  proof (cases "unat b < 128")
    case True
    with assms element_short [OF p True s, of True] have "unat b \<le> length t" "rest = drop (unat b) t"
      by (auto simp: CBS_get_any_ber_asn1_element_def split: if_splits)
    with True have l: "ber_len (length (take (unat b) t)) [b]" and s': "s = der_tag_bytes tag @ [b] @ take (unat b) t @ rest"
      by (simp_all add: ber_len_iff min_absorb2 s)
    from ber_element_definite [OF l, of tag rest] assms show thesis
      by (intro definite [OF l s']) (simp add: s')
  next
    case False
    then have hi: "128 \<le> unat b" by simp
    define k where k: "k = unat (b AND 0x7f)"
    have b: "b = of_nat (128 + k)" using byte_low7_split [OF hi] by (simp only: k)
    note r = ber_element_long [OF p hi s der_tag_bytes_length(1) k]
    show thesis
    proof (cases "tag AND CBS_ASN1_CONSTRUCTED \<noteq> 0 \<and> k = 0")
      case True
      with assms r b have "rest = t" "b = 0x80" "s = der_tag_bytes tag @ 0x80 # rest"
        by (auto simp: CBS_get_any_ber_asn1_element_def s)
      with ber_element_indefinite [of tag rest] assms True show thesis
        by (intro indefinite [of tag]) auto
    next
      case False
      define n where n: "n = unat (be_word (take k t))"
      from assms r False have kb: "1 \<le> k" "k \<le> 4" "k \<le> length t" "n \<le> length t - k"
        and rest: "rest = drop (k + n) t"
        by (auto simp: CBS_get_any_ber_asn1_element_def Let_def n not_less split: if_splits)
      have t: "take k t @ take n (drop k t) @ rest = t"
        by (metis append.assoc append_take_drop_id take_add rest)
      have l: "ber_len (length (take n (drop k t))) (b # take k t)"
        using kb by (simp add: ber_len_iff b n [symmetric] min_absorb2 del: of_nat_add)
      have s': "s = der_tag_bytes tag @ (b # take k t) @ take n (drop k t) @ rest" by (simp add: s t)
      from ber_element_definite [OF l, of tag rest] assms show thesis
        by (intro definite [OF l s']) (simp add: s')
    qed
  qed
qed

lemma ber_len_nonempty: "ber_len n lb \<Longrightarrow> 0 < length lb"
  by (auto simp: ber_len_iff)

lemma CBS_get_any_ber_split:
  assumes "CBS_get_any_ber_asn1_element s = (Some e, s')"
  shows "s = el_out e @ s' \<and> 0 < el_header_len e \<and> el_header_len e \<le> length (el_out e)"
  using assms by (rule ber_element_cases) (auto simp: der_tag_bytes_length)

lemma CBS_get_any_ber_stuck: "CBS_get_any_ber_asn1_element s = (None, s') \<Longrightarrow> s' = s"
  by (auto simp: CBS_get_any_ber_asn1_element_def cbs_get_any_asn1_element_def Let_def CBS_get_bytes_alt
      split: prod.splits option.splits if_splits)

lemma CBS_get_any_ber_shorter:
  assumes "(Some e, s') = CBS_get_any_ber_asn1_element s"
  shows "length s' < length s" "length (el_out e) \<le> length s" "0 < el_header_len e"
    "el_header_len e \<le> length (el_out e)"
  using CBS_get_any_ber_split [OF assms [symmetric]] by auto

section \<open>The code\<close>

definition kMaxDepth :: nat where
  "kMaxDepth = 2048"

definition is_string_type :: "u32 \<Rightarrow> bool" where
  "is_string_type tag \<longleftrightarrow>
     tag AND NOT CBS_ASN1_CONSTRUCTED \<in>
       {CBS_ASN1_OCTETSTRING, 0x0c, 0x12, 0x13, 0x14, 0x15, 0x16, 0x19, 0x1a, 0x1b, 0x1c, 0x1e}"

lemma CBS_skip_split: "(Some u, s') = CBS_skip n s \<longleftrightarrow> n \<le> length s \<and> s' = drop n s"
  by (auto simp: CBS_skip_def cbs_get_def)

lemma CBS_skip_Some: "CBS_skip n s = (Some u, s') \<longleftrightarrow> n \<le> length s \<and> s' = drop n s"
  using CBS_skip_split [of u s' n s] by (simp only: eq_commute)

lemma CBS_get_any_ber_less:
  "CBS_get_any_ber_asn1_element s = (Some e, s') \<Longrightarrow>
   length s' < length s \<and> length (el_out e) \<le> length s \<and> 0 < el_header_len e"
  using CBS_get_any_ber_shorter [of e s' s] by simp

lemma contents_shorter:
  "(Some e, s') = CBS_get_any_ber_asn1_element s \<Longrightarrow> (Some u, c) = CBS_skip (el_header_len e) (el_out e) \<Longrightarrow>
   length c < length s"
  using CBS_get_any_ber_shorter [of e s' s] by (auto simp: CBS_skip_split)

text \<open>\<open>None\<close> is the return value 0, \<open>Some\<close> the value of \<open>*ber_found\<close>.  The parameter
  \<open>ber_found\<close> is what the flag holds when the loop is entered again.\<close>

function cbs_find_ber_loop :: "nat \<Rightarrow> bool \<Rightarrow> cbs \<Rightarrow> bool option" where
  "cbs_find_ber_loop depth ber_found s =
     (if CBS_len s = 0 then Some ber_found
      else case CBS_get_any_ber_asn1_element s of
        (None, _) \<Rightarrow> None
      | (Some e, s') \<Rightarrow>
          if el_ber_found e then Some True
          else if el_tag e AND CBS_ASN1_CONSTRUCTED \<noteq> 0
          then if is_string_type (el_tag e) then Some True
               else (case CBS_skip (el_header_len e) (el_out e) of
                   (None, _) \<Rightarrow> None
                 | (Some _, contents) \<Rightarrow>
                     (case (if depth + 1 > kMaxDepth then None
                            else cbs_find_ber_loop (depth + 1) False contents) of
                        None \<Rightarrow> None
                      | Some found \<Rightarrow> cbs_find_ber_loop depth found s'))
          else cbs_find_ber_loop depth False s')"
  by pat_completeness auto
termination
  by (relation "measure (\<lambda>(_, _, s). length s)")
     (auto simp: CBS_len_def dest: CBS_get_any_ber_shorter contents_shorter)

definition cbs_find_ber :: "nat \<Rightarrow> cbs \<Rightarrow> bool option" where
  "cbs_find_ber depth s = (if depth > kMaxDepth then None else cbs_find_ber_loop depth False s)"

definition is_eoc :: "nat \<Rightarrow> cbs \<Rightarrow> bool" where
  "is_eoc header_len contents \<longleftrightarrow>
     header_len = 2 \<and> CBS_len contents = 2 \<and> OPENSSL_memcmp (CBS_data contents) [0, 0] 2 = 0"

text \<open>Where the contents of an element go: the \<open>CBB\<close> to write to and the string tag for the
  children.  \<open>d\<close> is the nesting level of \<open>out\<close>; a child opened in it has level \<open>d + 1\<close>.\<close>

definition ber_open :: "u32 \<Rightarrow> u32 \<Rightarrow> nat \<Rightarrow> cbb \<Rightarrow> (nat \<times> u32) option \<times> cbb" where
  "ber_open string_tag tag d st =
     (if string_tag \<noteq> 0
      then if tag AND NOT CBS_ASN1_CONSTRUCTED \<noteq> string_tag then (None, st)
           else (Some (d, string_tag), st)
      else let is_string = (tag AND CBS_ASN1_CONSTRUCTED \<noteq> 0 \<and> is_string_type tag);
               out_tag = (if is_string then tag AND NOT CBS_ASN1_CONSTRUCTED else tag);
               child_string_tag = (if is_string then out_tag else string_tag)
           in (case CBB_add_asn1 out_tag d st of
                 (False, st') \<Rightarrow> (None, st')
               | (True, st') \<Rightarrow> (Some (d + 1, child_string_tag), st')))"

text \<open>What one round of the loop finds: a value to return, or an element whose contents go to
  \<open>d'\<close> with the string tag \<open>c\<close>.\<close>

datatype ber_round =
    Return "bool \<times> cbs \<times> cbb"
  | Indefinite nat u32 cbs cbb
  | Constructed nat u32 cbs cbs cbb
  | Primitive nat cbs cbs cbb

definition ber_round :: "u32 \<Rightarrow> bool \<Rightarrow> nat \<Rightarrow> cbs \<Rightarrow> nat \<Rightarrow> cbb \<Rightarrow> ber_round" where
  "ber_round string_tag looking_for_eoc depth s d st =
     (if depth > kMaxDepth then Return (False, s, st)
      else if CBS_len s = 0 then Return (\<not> looking_for_eoc, s, st)
      else case CBS_get_any_ber_asn1_element s of
        (None, s1) \<Rightarrow> Return (False, s1, st)
      | (Some e, s1) \<Rightarrow>
          let contents = el_out e; header_len = el_header_len e
          in if is_eoc header_len contents then Return (looking_for_eoc, s1, st)
             else (case ber_open string_tag (el_tag e) d st of
                 (None, st1) \<Rightarrow> Return (False, s1, st1)
               | (Some (d', child_string_tag), st1) \<Rightarrow>
                   if CBS_len contents = header_len \<and> header_len > 0 \<and>
                     CBS_data contents ! (header_len - 1) = 0x80
                   then Indefinite d' child_string_tag s1 st1
                   else (case CBS_skip header_len contents of
                       (None, _) \<Rightarrow> Return (False, s1, st1)
                     | (Some _, body) \<Rightarrow>
                         if el_tag e AND CBS_ASN1_CONSTRUCTED \<noteq> 0
                         then Constructed d' child_string_tag body s1 st1
                         else Primitive d' body s1 st1)))"

text \<open>The end of a round: \<open>CBB_flush (out)\<close>, unless the contents have failed.\<close>

definition ber_close :: "bool \<Rightarrow> nat \<Rightarrow> cbb_op" where
  "ber_close ok d st = (if ok then CBB_flush d st else (False, st))"

lemma ber_round_shorter:
  "ber_round stag eoc depth s d st = Indefinite d' c s1 st1 \<Longrightarrow> length s1 < length s"
  "ber_round stag eoc depth s d st = Constructed d' c body s1 st1 \<Longrightarrow> length s1 < length s \<and> length body < length s"
  "ber_round stag eoc depth s d st = Primitive d' body s1 st1 \<Longrightarrow> length s1 < length s"
  by (auto simp: ber_round_def Let_def CBS_skip_Some CBS_len_def dest!: CBS_get_any_ber_less
      split: if_splits prod.splits option.splits)

lemma ber_round_return:
  "ber_round stag eoc depth s d st = Return (ok, s', st') \<Longrightarrow> length s' \<le> length s"
  by (auto simp: ber_round_def Let_def dest!: CBS_get_any_ber_less dest: CBS_get_any_ber_stuck
      split: if_splits prod.splits option.splits)

function cbs_convert_ber :: "u32 \<Rightarrow> bool \<Rightarrow> nat \<Rightarrow> cbs \<Rightarrow> nat \<Rightarrow> cbb \<Rightarrow> bool \<times> cbs \<times> cbb" where
  "cbs_convert_ber string_tag looking_for_eoc depth s d st =
     (case ber_round string_tag looking_for_eoc depth s d st of
        Return r \<Rightarrow> r
      | Indefinite d' c s1 st1 \<Rightarrow>
          (case cbs_convert_ber c True (depth + 1) s1 d' st1 of
             (ok, s2, st2) \<Rightarrow>
               (case ber_close ok d st2 of
                  (ok3, st3) \<Rightarrow>
                    if ok3 then cbs_convert_ber string_tag looking_for_eoc depth s2 d st3 else (False, s2, st3)))
      | Constructed d' c body s1 st1 \<Rightarrow>
          (case cbs_convert_ber c False (depth + 1) body d' st1 of
             (ok, _, st2) \<Rightarrow>
               (case ber_close ok d st2 of
                  (ok3, st3) \<Rightarrow>
                    if ok3 then cbs_convert_ber string_tag looking_for_eoc depth s1 d st3 else (False, s1, st3)))
      | Primitive d' body s1 st1 \<Rightarrow>
          (case CBB_add_bytes body d' st1 of
             (ok, st2) \<Rightarrow>
               (case ber_close ok d st2 of
                  (ok3, st3) \<Rightarrow>
                    if ok3 then cbs_convert_ber string_tag looking_for_eoc depth s1 d st3 else (False, s1, st3))))"
  by pat_completeness auto
termination
proof -
  have shrinks: "length (fst (snd (cbs_convert_ber string_tag eoc depth s d st))) \<le> length s"
    if "cbs_convert_ber_dom (string_tag, eoc, depth, s, d, st)" for string_tag eoc depth s d st
    using that
  proof (induction rule: cbs_convert_ber.pinduct)
    case (1 string_tag eoc depth s d st)
    note step = cbs_convert_ber.psimps [OF 1(1)]
    show ?case
    proof (cases "ber_round string_tag eoc depth s d st")
      case (Return r)
      then show ?thesis using ber_round_return [of string_tag eoc depth s d st "fst r" "fst (snd r)" "snd (snd r)"]
        by (simp add: step)
    next
      case (Indefinite d' c s1 st1)
      note IH = 1(2,3) [OF Indefinite]
      show ?thesis
        using IH(1) IH(2) [OF sym refl sym] ber_round_shorter(1) [OF Indefinite]
        by (fastforce simp: step Indefinite split: prod.split)
    next
      case (Constructed d' c body s1 st1)
      note IH = 1(5) [OF Constructed]
      show ?thesis
        using IH [OF sym refl sym] ber_round_shorter(2) [OF Constructed]
        by (fastforce simp: step Constructed split: prod.split)
    next
      case (Primitive d' body s1 st1)
      note IH = 1(6) [OF Primitive]
      show ?thesis
        using IH [OF sym sym] ber_round_shorter(3) [OF Primitive]
        by (fastforce simp: step Primitive split: prod.split)
    qed
  qed
  show ?thesis
  proof (relation "measure (\<lambda>(_, _, _, s, _, _). length s)", goal_cases)
    case 1
    then show ?case by simp
  next
    case 2
    then show ?case by (simp add: ber_round_shorter)
  next
    case prems: (3 string_tag eoc depth s d st)
    note inner = shrinks [OF prems(6), folded prems(2) prems(3)]
    show ?case using inner ber_round_shorter(1) [OF prems(1)] by simp
  next
    case 4
    then show ?case by (simp add: ber_round_shorter)
  next
    case 5
    then show ?case by (simp add: ber_round_shorter)
  next
    case 6
    then show ?case by (simp add: ber_round_shorter)
  qed
qed

declare cbs_find_ber_loop.simps [simp del] cbs_convert_ber.simps [simp del]

text \<open>The result, \<open>*out_storage\<close> (\<open>None\<close> for NULL) and what is left of \<open>in\<close>.\<close>

definition CBS_asn1_ber_to_der :: "allocator \<Rightarrow> cbs \<Rightarrow> (cbs \<times> bytes option) option \<times> cbs" where
  "CBS_asn1_ber_to_der al s =
     (case cbs_find_ber 0 s of
        None \<Rightarrow> (None, s)
      | Some False \<Rightarrow>
          (case CBS_get_any_asn1_element s of
             (None, s') \<Rightarrow> (None, s') | (Some e, s') \<Rightarrow> (Some (el_out e, None), s'))
      | Some True \<Rightarrow>
          (case CBB_init al (CBS_len s) of
             (False, _) \<Rightarrow> (None, s)
           | (True, cbb) \<Rightarrow>
               (case cbs_convert_ber 0 False 0 s 0 cbb of
                  (False, s', _) \<Rightarrow> (None, s')
                | (True, s', cbb') \<Rightarrow>
                    (case fst (CBB_finish True 0 cbb') of
                       None \<Rightarrow> (None, s')
                     | Some d \<Rightarrow> (Some (CBS_init d (length d), Some d), s')))))"

text \<open>The chunks of a constructed string.\<close>

function implicit_string_loop :: "u32 \<Rightarrow> cbs \<Rightarrow> cbb_op" where
  "implicit_string_loop inner_tag child st =
     (if CBS_len child = 0 then (True, st)
      else case CBS_get_asn1 inner_tag child of
        (None, _) \<Rightarrow> (False, st)
      | (Some chunk, child') \<Rightarrow>
          (case CBB_add_bytes chunk 0 st of
             (False, st') \<Rightarrow> (False, st')
           | (True, st') \<Rightarrow> implicit_string_loop inner_tag child' st'))"
  by pat_completeness auto
termination
  by (relation "measure (\<lambda>(_, child, _). length child)")
     (auto simp: CBS_get_asn1_iff der_element_def der_tag_bytes_length dest!: sym [of "(Some _, _)"])

text \<open>\<open>None\<close> is a failed assertion.\<close>

definition CBS_get_asn1_implicit_string ::
  "allocator \<Rightarrow> u32 \<Rightarrow> u32 \<Rightarrow> cbs \<Rightarrow> ((cbs \<times> bytes option) option \<times> cbs) option" where
  "CBS_get_asn1_implicit_string al outer_tag inner_tag s =
     (if outer_tag AND CBS_ASN1_CONSTRUCTED \<noteq> 0 \<or> inner_tag AND CBS_ASN1_CONSTRUCTED \<noteq> 0 \<or> \<not> is_string_type inner_tag
      then None
      else Some
        (if CBS_peek_asn1_tag s outer_tag
         then (case CBS_get_asn1 outer_tag s of
                 (None, s') \<Rightarrow> (None, s') | (Some out, s') \<Rightarrow> (Some (out, None), s'))
         else case CBB_init al (CBS_len s) of
           (False, _) \<Rightarrow> (None, s)
         | (True, result) \<Rightarrow>
             (case CBS_get_asn1 (outer_tag OR CBS_ASN1_CONSTRUCTED) s of
                (None, s') \<Rightarrow> (None, s')
              | (Some child, s') \<Rightarrow>
                  (case implicit_string_loop inner_tag child result of
                     (False, _) \<Rightarrow> (None, s')
                   | (True, result') \<Rightarrow>
                       (case fst (CBB_finish True 0 result') of
                          None \<Rightarrow> (None, s')
                        | Some d \<Rightarrow> (Some (CBS_init d (length d), Some d), s'))))))"

section \<open>BER values\<close>

text \<open>A BER value with its encoding choices: the length octets of a definite form, and whether a
  constructed value has the indefinite form.\<close>

datatype ber = Prim u32 bytes bytes | Def u32 bytes "ber list" | Indef u32 "ber list"

fun ber_bytes :: "ber \<Rightarrow> bytes" where
  "ber_bytes (Prim tag lb body) = der_tag_bytes tag @ lb @ body"
| "ber_bytes (Def tag lb us) = der_tag_bytes tag @ lb @ concat (map ber_bytes us)"
| "ber_bytes (Indef tag us) = der_tag_bytes tag @ [0x80] @ concat (map ber_bytes us) @ [0, 0]"

abbreviation bers_bytes :: "ber list \<Rightarrow> bytes" where
  "bers_bytes ts \<equiv> concat (map ber_bytes ts)"

definition clear_constructed :: "u32 \<Rightarrow> u32" where
  "clear_constructed tag = tag AND NOT CBS_ASN1_CONSTRUCTED"

text \<open>The string type the children of a constructed value are fragments of, 0 for none.\<close>

definition child_tag :: "u32 \<Rightarrow> u32 \<Rightarrow> u32" where
  "child_tag st tag =
     (if st \<noteq> 0 then st else if is_string_type tag then clear_constructed tag else 0)"

definition wrap :: "u32 \<Rightarrow> u32 \<Rightarrow> bytes \<Rightarrow> bytes" where
  "wrap st tag body =
     (if st \<noteq> 0 then body
      else der_element (if is_string_type tag then clear_constructed tag else tag) body)"

text \<open>The distinguished encoding a forest stands for, below a constructed string of type \<open>st\<close>.\<close>

fun ber_der :: "u32 \<Rightarrow> ber list \<Rightarrow> bytes" where
  "ber_der st [] = []"
| "ber_der st (Prim tag lb body # ts) = (if st \<noteq> 0 then body else der_element tag body) @ ber_der st ts"
| "ber_der st (Def tag lb us # ts) = wrap st tag (ber_der (child_tag st tag) us) @ ber_der st ts"
| "ber_der st (Indef tag us # ts) = wrap st tag (ber_der (child_tag st tag) us) @ ber_der st ts"

text \<open>Well-formed forests of at most \<open>k\<close> levels: legal length octets, no value that looks like
  an end of contents, and fragments of the type of their string.\<close>

fun ber_ok :: "u32 \<Rightarrow> nat \<Rightarrow> ber list \<Rightarrow> bool" where
  "ber_ok st k [] \<longleftrightarrow> 0 < k"
| "ber_ok st k (Prim tag lb body # ts) \<longleftrightarrow>
     ber_len (length body) lb \<and> tag AND CBS_ASN1_CONSTRUCTED = 0 \<and> (st \<noteq> 0 \<longrightarrow> tag = st) \<and>
     (tag, lb, body) \<noteq> (0, [0], []) \<and> ber_ok st k ts"
| "ber_ok st k (Def tag lb us # ts) \<longleftrightarrow>
     ber_len (length (bers_bytes us)) lb \<and> tag AND CBS_ASN1_CONSTRUCTED \<noteq> 0 \<and>
     (st \<noteq> 0 \<longrightarrow> clear_constructed tag = st) \<and> ber_ok (child_tag st tag) (k - 1) us \<and> ber_ok st k ts"
| "ber_ok st k (Indef tag us # ts) \<longleftrightarrow>
     tag AND CBS_ASN1_CONSTRUCTED \<noteq> 0 \<and> (st \<noteq> 0 \<longrightarrow> clear_constructed tag = st) \<and>
     ber_ok (child_tag st tag) (k - 1) us \<and> ber_ok st k ts"


section \<open>The converter writes the distinguished encoding\<close>

text \<open>Opening the element, writing its contents and closing it, for any operation that writes
  contents.\<close>

definition wrap_op :: "u32 \<Rightarrow> u32 \<Rightarrow> nat \<Rightarrow> (nat \<Rightarrow> u32 \<Rightarrow> cbb_op) \<Rightarrow> cbb_op" where
  "wrap_op stag tag d body_op st =
     (case ber_open stag tag d st of
        (None, st1) \<Rightarrow> (False, st1)
      | (Some (d', c), st1) \<Rightarrow> cbb_seq [body_op d' c, CBB_flush d] st1)"

lemma wrap_op_produces:
  assumes "holds (pre @ [(p, xs)]) st" "length body \<le> 0xfffffffe" "d = length pre"
    and n: "length (layout (pre @ [(p, xs @ (if stag \<noteq> 0 then body else der_element out_tag body))])) \<le> n"
    and stag: "stag \<noteq> 0 \<longrightarrow> clear_constructed tag = stag"
    and out: "out_tag = (if tag AND CBS_ASN1_CONSTRUCTED \<noteq> 0 \<and> is_string_type tag then clear_constructed tag else tag)"
    and child: "child = (if stag \<noteq> 0 then stag
        else if tag AND CBS_ASN1_CONSTRUCTED \<noteq> 0 \<and> is_string_type tag then clear_constructed tag else 0)"
    and body_op: "\<And>pre' p' xs' st'. holds (pre' @ [(p', xs')]) st' \<Longrightarrow>
      length (layout (pre' @ [(p', xs' @ body)])) \<le> n \<Longrightarrow>
      produces (body_op (length pre') child) st' n (pre' @ [(p', xs' @ body)])"
  shows "produces (wrap_op stag tag d body_op) st n
    (pre @ [(p, xs @ (if stag \<noteq> 0 then body else der_element out_tag body))])"
proof (cases "stag \<noteq> 0")
  case True
  have "wrap_op stag tag d body_op st = cbb_seq [body_op d stag, CBB_flush d] st"
    using True stag by (simp add: wrap_op_def ber_open_def clear_constructed_def del: cbb_seq.simps)
  moreover have "produces (cbb_seq [body_op d stag, CBB_flush d]) st n (pre @ [(p, xs @ body)])"
  proof (rule produces_pair)
    show "produces (body_op d stag) st n (pre @ [(p, xs @ body)])"
      using body_op [OF assms(1)] n True child assms(3) by simp
    show "produces (CBB_flush d) st' n (pre @ [(p, xs @ body)])" if "holds (pre @ [(p, xs @ body)]) st'" for st'
      using CBB_flush_produces [of pre p "xs @ body" "[]" st' "[]" n] that n True assms(3) by simp
  qed
  ultimately show ?thesis using True produces_cong [of "wrap_op stag tag d body_op" st] by (simp del: cbb_seq.simps)
next
  case False
  have "wrap_op stag tag d body_op st = cbb_seq [CBB_add_asn1 out_tag d, body_op (d + 1) child, CBB_flush d] st"
    using False out child
    by (auto simp: wrap_op_def ber_open_def clear_constructed_def Let_def split: prod.splits bool.splits)
  moreover have "produces (cbb_seq [CBB_add_asn1 out_tag d, body_op (d + 1) child, CBB_flush d]) st n
      (pre @ [(p, xs @ der_element out_tag body)])"
    using body_op [of "pre @ [(p, xs @ der_tag_bytes out_tag)]" Asn1 "[]"]
      element_produces [of pre p xs "[]" st "[]" body out_tag n d "body_op (d + 1) child"]
      element_room [of pre p xs out_tag body n] assms(1-3) n False
    by simp
  ultimately show ?thesis using False produces_cong [of "wrap_op stag tag d body_op" st] by (simp del: cbb_seq.simps)
qed

lemma is_eoc_iff:
  "is_eoc (length (der_tag_bytes tag) + length lb) (der_tag_bytes tag @ lb @ body) \<longleftrightarrow>
   (tag, lb, body) = (0, [0], [])" if "0 < length lb"
proof
  assume "is_eoc (length (der_tag_bytes tag) + length lb) (der_tag_bytes tag @ lb @ body)"
  then have "length (der_tag_bytes tag @ lb @ body) = 2" "take 2 (der_tag_bytes tag @ lb @ body) = [0, 0]"
    by (auto simp: is_eoc_def CBS_len_def CBS_data_def OPENSSL_memcmp_eq_0)
  then have s: "der_tag_bytes tag @ lb @ body = [0, 0]" by (simp only: take_all)
  then have "parse_asn1_tag [0, 0] = (Some tag, lb @ body)"
    by (simp only: parse_asn1_tag_iff)
  with s show "(tag, lb, body) = (0, [0], [])" using that
    by (auto simp: parse_asn1_tag_Cons append_eq_Cons_conv)
qed (simp add: is_eoc_def CBS_len_def CBS_data_def der_tag_bytes_def numeral_2_eq_2)


text \<open>What the converter leaves behind: \<open>rest\<close> unread and the frames \<open>fs\<close> in the builder, or
  a failed builder that could not have grown to \<open>n\<close> bytes.\<close>

definition converts :: "bool \<times> cbs \<times> cbb \<Rightarrow> cbb \<Rightarrow> nat \<Rightarrow> frame list \<Rightarrow> cbs \<Rightarrow> bool" where
  "converts r st n fs rest \<longleftrightarrow>
     (case r of
        (True, s', st') \<Rightarrow> s' = rest \<and> holds fs st' \<and> cbb_evolves st st'
      | (False, _, st') \<Rightarrow> cbb_failed st' \<and> \<not> can_grow st n)"

lemma converts_step:
  assumes w: "produces w st n fs" and eq: "r = (case w st of (False, st') \<Rightarrow> (False, s1, st') | (True, st') \<Rightarrow> f st')"
    and go: "\<And>st'. holds fs st' \<Longrightarrow> cbb_evolves st st' \<Longrightarrow> converts (f st') st' n fs' rest"
  shows "converts r st n fs' rest"
proof (cases "w st")
  case (Pair ok st')
  show ?thesis
  proof (cases ok)
    case True
    with w Pair have h: "holds fs st'" "cbb_evolves st st'" by (auto simp: produces_def)
    from go [OF this] eq Pair True show ?thesis
      by (auto simp: converts_def intro: cbb_evolves_trans [OF h(2)] cbb_evolves_grow [OF h(2)] split: prod.splits bool.splits)
  qed (use w Pair eq in \<open>auto simp: converts_def produces_def\<close>)
qed

text \<open>One round of the loop on a definite element, and on an indefinite one.\<close>

definition convert_body :: "bytes \<Rightarrow> u32 \<Rightarrow> nat \<Rightarrow> nat \<Rightarrow> u32 \<Rightarrow> cbb_op" where
  "convert_body body tag depth d c st =
     (if tag AND CBS_ASN1_CONSTRUCTED \<noteq> 0
      then (case cbs_convert_ber c False (depth + 1) body d st of (ok, _, st2) \<Rightarrow> (ok, st2))
      else CBB_add_bytes body d st)"

lemma be_bytes_0: "be_bytes k 0 = replicate k 0"
  by (induction k) (simp_all flip: replicate_append_same)

lemma ber_len_last:
  assumes "ber_len n lb"
  shows "\<not> (n = 0 \<and> last lb = 0x80)"
proof (clarify)
  assume "n = 0" "last lb = 0x80"
  with assms obtain L where "last L = 0x80" "1 \<le> length L" "length L \<le> 4" "be_word L = 0"
    by (auto simp: ber_len_iff unat_eq_0 split: if_splits)
  then have "L = replicate (length L) 0" using be_bytes_be_word [of L] by (simp add: be_bytes_0)
  then have "last L = 0" using \<open>1 \<le> length L\<close> last_replicate [of "length L" 0] by (metis not_one_le_zero)
  with \<open>last L = 0x80\<close> show False by simp
qed

lemma convert_definite:
  assumes l: "ber_len (length body) lb" and eoc: "(tag, lb, body) \<noteq> (0, [0], [])" and depth: "depth \<le> kMaxDepth"
  shows "cbs_convert_ber stag eoc depth (der_tag_bytes tag @ lb @ body @ s1) d st =
    (case wrap_op stag tag d (convert_body body tag depth) st of
       (False, st') \<Rightarrow> (False, s1, st') | (True, st') \<Rightarrow> cbs_convert_ber stag eoc depth s1 d st')"
proof -
  let ?s = "der_tag_bytes tag @ lb @ body @ s1" and ?c = "der_tag_bytes tag @ lb @ body"
  let ?hl = "length (der_tag_bytes tag) + length lb"
  have lb: "lb \<noteq> []" using ber_len_nonempty [OF l] by simp
  have ne: "CBS_len ?s \<noteq> 0" "\<not> depth > kMaxDepth" using depth lb by (simp_all add: CBS_len_def)
  have marker: "\<not> (CBS_len ?c = ?hl \<and> 0 < ?hl \<and> CBS_data ?c ! (?hl - 1) = 0x80)"
  proof (clarify)
    assume "CBS_len ?c = ?hl" "CBS_data ?c ! (?hl - 1) = 0x80"
    then have "body = []" "(der_tag_bytes tag @ lb) ! (length (der_tag_bytes tag @ lb) - 1) = 0x80"
      by (simp_all add: CBS_len_def CBS_data_def)
    then have "last (der_tag_bytes tag @ lb) = 0x80" using lb last_conv_nth [of "der_tag_bytes tag @ lb"] by simp
    with ber_len_last [OF l] lb \<open>body = []\<close> show False by simp
  qed
  have neoc: "\<not> is_eoc ?hl ?c" using is_eoc_iff [of lb tag body] eoc lb by simp
  have skip: "CBS_skip ?hl ?c = (Some (), body)"
    using CBS_skip_append [of "der_tag_bytes tag @ lb" ?hl body] by simp
  have "ber_round stag eoc depth ?s d st =
    (case ber_open stag tag d st of
       (None, st1) \<Rightarrow> Return (False, s1, st1)
     | (Some (d', c), st1) \<Rightarrow>
         if tag AND CBS_ASN1_CONSTRUCTED \<noteq> 0 then Constructed d' c body s1 st1 else Primitive d' body s1 st1)"
    unfolding ber_round_def
    by (simp only: ne if_False ber_element_definite [OF l] prod.case option.case Let_def ber_result_sel neoc marker skip)
  then show ?thesis
    unfolding cbs_convert_ber.simps [of stag eoc depth ?s] wrap_op_def convert_body_def
    by (auto simp: ber_close_def split: prod.split option.split bool.split)
qed

lemma convert_indefinite:
  assumes tag: "tag AND CBS_ASN1_CONSTRUCTED \<noteq> 0" and depth: "depth \<le> kMaxDepth"
    and inner: "\<And>d' c st1 s' st2. ber_open stag tag d st = (Some (d', c), st1) \<Longrightarrow>
      cbs_convert_ber c True (depth + 1) s1 d' st1 = (True, s', st2) \<Longrightarrow> s' = s2"
  shows "\<exists>s'. cbs_convert_ber stag eoc depth (der_tag_bytes tag @ 0x80 # s1) d st =
    (case wrap_op stag tag d
        (\<lambda>d' c st1. case cbs_convert_ber c True (depth + 1) s1 d' st1 of (ok, _, st2) \<Rightarrow> (ok, st2)) st of
       (False, st') \<Rightarrow> (False, s', st') | (True, st') \<Rightarrow> cbs_convert_ber stag eoc depth s2 d st')"
proof -
  let ?s = "der_tag_bytes tag @ 0x80 # s1" and ?c = "der_tag_bytes tag @ [0x80]"
  let ?hl = "length (der_tag_bytes tag) + 1"
  have ne: "CBS_len ?s \<noteq> 0" "\<not> depth > kMaxDepth" using depth by (simp_all add: CBS_len_def)
  have marker: "CBS_len ?c = ?hl \<and> 0 < ?hl \<and> CBS_data ?c ! (?hl - 1) = 0x80"
    by (simp add: CBS_len_def CBS_data_def)
  have neoc: "\<not> is_eoc ?hl ?c" using is_eoc_iff [of "[0x80]" tag "[]"] by simp
  have hl: "length (der_tag_bytes tag) + length [0x80 :: byte] = ?hl" by simp
  have step: "cbs_convert_ber stag eoc depth ?s d st =
    (case ber_open stag tag d st of
       (None, st1) \<Rightarrow> (False, s1, st1)
     | (Some (d', c), st1) \<Rightarrow>
         (case cbs_convert_ber c True (depth + 1) s1 d' st1 of
            (False, s', st2) \<Rightarrow> (False, s', st2)
          | (True, s', st2) \<Rightarrow>
              (case CBB_flush d st2 of
                 (False, st3) \<Rightarrow> (False, s', st3)
               | (True, st3) \<Rightarrow> cbs_convert_ber stag eoc depth s' d st3)))"
  proof -
    have "ber_round stag eoc depth ?s d st =
      (case ber_open stag tag d st of
         (None, st1) \<Rightarrow> Return (False, s1, st1)
       | (Some (d', c), st1) \<Rightarrow> Indefinite d' c s1 st1)"
      unfolding ber_round_def
      by (simp only: ne if_False ber_element_indefinite [OF tag] prod.case option.case Let_def ber_result_sel
          append_Nil2 hl neoc marker simp_thms if_True)
    then show ?thesis
      unfolding cbs_convert_ber.simps [of stag eoc depth ?s]
      by (simp add: ber_close_def split: prod.split option.split bool.split)
  qed
  show ?thesis
  proof (cases "ber_open stag tag d st")
    case (Pair o1 st1)
    show ?thesis
    proof (cases o1)
      case None
      then show ?thesis unfolding step using Pair by (simp add: wrap_op_def)
    next
      case (Some dc)
      obtain d' c where open1: "ber_open stag tag d st = (Some (d', c), st1)"
        using Pair Some by (cases dc) simp
      obtain ok s' st2 where conv: "cbs_convert_ber c True (depth + 1) s1 d' st1 = (ok, s', st2)"
        by (metis prod_cases3)
      obtain ok3 st3 where flush: "CBB_flush d st2 = (ok3, st3)" by fastforce
      show ?thesis unfolding step using open1 conv flush inner [OF open1, of s' st2]
        by (cases ok; cases ok3) (auto simp: wrap_op_def)
    qed
  qed
qed

lemma converts_produces:
  assumes "converts (cbs_convert_ber c eoc depth s d st) st n fs rest"
  shows "produces (\<lambda>st. case cbs_convert_ber c eoc depth s d st of (ok, _, st2) \<Rightarrow> (ok, st2)) st n fs"
  using assms by (auto simp: converts_def produces_def split: prod.splits bool.splits)

abbreviation end_marker :: "bool \<Rightarrow> bytes \<Rightarrow> bytes" where
  "end_marker eoc rest \<equiv> (if eoc then [0, 0] @ rest else [])"

lemma convert_end:
  assumes "depth \<le> kMaxDepth"
  shows "cbs_convert_ber stag eoc depth (end_marker eoc rest) d st = (True, (if eoc then rest else []), st)"
proof (cases eoc)
  case True
  have "ber_len (length ([] :: bytes)) [0]" by (simp add: ber_len_iff)
  from ber_element_definite [OF this, of 0 rest]
  have get: "CBS_get_any_ber_asn1_element ([0, 0] @ rest) = (Some (ber_result 0 [0] [] False), rest)"
    by (simp add: der_tag_bytes_def der_len_bytes_def)
  have "is_eoc (length (der_tag_bytes 0) + length [0 :: byte]) (der_tag_bytes 0 @ [0] @ [])"
    using is_eoc_iff [of "[0]" 0 "[]"] by simp
  moreover have "\<not> depth > kMaxDepth" "CBS_len ([0, 0] @ rest) \<noteq> 0" using assms by (simp_all add: CBS_len_def)
  ultimately show ?thesis using True
    by (simp only: cbs_convert_ber.simps [of stag True depth "[0, 0] @ rest"] ber_round_def ber_round.case
        get Let_def prod.case option.case if_True if_False ber_result_sel)
next
  case False
  then show ?thesis using assms by (simp add: cbs_convert_ber.simps [of stag False depth "[]"] ber_round_def CBS_len_def)
qed

lemma ber_ok_pos: "ber_ok st k ts \<Longrightarrow> 0 < k"
  by (induction st k ts rule: ber_ok.induct) auto

lemma child_wrap:
  "tag AND CBS_ASN1_CONSTRUCTED \<noteq> 0 \<Longrightarrow>
   child_tag stag tag = (if stag \<noteq> 0 then stag
     else if tag AND CBS_ASN1_CONSTRUCTED \<noteq> 0 \<and> is_string_type tag then clear_constructed tag else 0)"
  by (simp add: child_tag_def)

lemma and_not_self: "x AND m = 0 \<Longrightarrow> x AND NOT m = (x :: 'a::len word)"
proof (rule bit_word_eqI)
  fix n assume "x AND m = 0"
  then have "\<not> (bit x n \<and> bit m n)" by (simp add: bit_and_iff [symmetric])
  then show "bit (x AND NOT m) n = bit x n" if "n < LENGTH('a)" using that by (auto simp: bit_simps)
qed

lemma ber_open_holds:
  assumes "ber_open stag tag (length pre) st = (Some (d', c), st1)" "holds (pre @ [(p, xs)]) st"
    and tag: "tag AND CBS_ASN1_CONSTRUCTED \<noteq> 0" and body: "length body \<le> 0xfffffffe"
    and out: "out = (if is_string_type tag then clear_constructed tag else tag)"
    and n: "length (layout (pre @ [(p, xs @ (if stag \<noteq> 0 then body else der_element out body))])) \<le> n"
  shows "\<exists>pre' p' xs'. holds (pre' @ [(p', xs')]) st1 \<and> d' = length pre' \<and> c = child_tag stag tag \<and>
    length (layout (pre' @ [(p', xs' @ body)])) \<le> n"
proof (cases "stag \<noteq> 0")
  case True
  with assms(1) have "d' = length pre" "c = child_tag stag tag" "st1 = st"
    by (auto simp: ber_open_def child_tag_def split: if_splits)
  with assms(2) n True show ?thesis by (intro exI [of _ pre] exI [of _ p] exI [of _ xs]) simp
next
  case False
  with assms(1) out tag have add: "CBB_add_asn1 out (length pre) st = (True, st1)"
    and dc: "d' = Suc (length pre)" "c = child_tag stag tag"
    by (auto simp: ber_open_def child_tag_def clear_constructed_def Let_def split: prod.splits bool.splits)
  have "produces (CBB_add_asn1 out (length pre)) st n (pre @ [(p, xs @ der_tag_bytes out), (Asn1, [])])"
    using CBB_add_asn1_produces [of pre p xs "[]" st "[]" out n "length pre"] assms(2)
      element_room [of pre p xs out body n] body n False by simp
  with add have "holds ((pre @ [(p, xs @ der_tag_bytes out)]) @ [(Asn1, [])]) st1" by (simp add: produces_def)
  with dc element_room [of pre p xs out body n] body n False show ?thesis
    by (intro exI [of _ "pre @ [(p, xs @ der_tag_bytes out)]"] exI [of _ Asn1] exI [of _ "[]"]) simp
qed

lemma wrapped_length: "length body \<le> length (if stag \<noteq> 0 then body else der_element tag body)"
  by (simp add: der_element_length)

text \<open>An element followed by a forest, given what each of them writes.\<close>

lemma converts_element:
  assumes w: "produces w st n (pre @ [(p, xs @ e)])"
    and eq: "r = (case w st of (False, st') \<Rightarrow> (False, s1, st') | (True, st') \<Rightarrow> f st')"
    and go: "\<And>st'. holds (pre @ [(p, xs @ e)]) st' \<Longrightarrow> converts (f st') st' n (pre @ [(p, (xs @ e) @ es)]) rest"
  shows "converts r st n (pre @ [(p, xs @ e @ es)]) rest"
  using converts_step [OF w eq, of "pre @ [(p, xs @ e @ es)]" rest] go by simp

lemma cbs_convert_ber_converts:
  assumes "ber_ok stag k ts" "depth + k \<le> Suc kMaxDepth" "holds (pre @ [(p, xs)]) st" "d = length pre"
    and "length (ber_der stag ts) \<le> 0xfffffffe" "length (layout (pre @ [(p, xs @ ber_der stag ts)])) \<le> n"
  shows "converts (cbs_convert_ber stag eoc depth (bers_bytes ts @ end_marker eoc rest) d st) st n
    (pre @ [(p, xs @ ber_der stag ts)]) (if eoc then rest else [])"
  using assms
proof (induction stag ts arbitrary: k depth eoc rest pre p xs st d rule: ber_der.induct)
  case (1 stag)
  then have "converts (True, (if eoc then rest else []), st) st n (pre @ [(p, xs)]) (if eoc then rest else [])"
    by (auto simp: converts_def holds_def cbb_evolves_def split: option.splits)
  then show ?case using convert_end [of depth stag eoc rest d st] 1 by simp
next
  case (2 stag tag lb body ts)
  let ?e = "if stag \<noteq> 0 then body else der_element tag body"
  have depth: "depth \<le> kMaxDepth" using 2(2,3) ber_ok_pos by fastforce
  have ok: "ber_len (length body) lb" "tag AND CBS_ASN1_CONSTRUCTED = 0" "(tag, lb, body) \<noteq> (0, [0], [])"
    "stag \<noteq> 0 \<longrightarrow> tag = stag" "ber_ok stag k ts" using 2(2) by simp_all
  have len: "length ?e + length (ber_der stag ts) \<le> 0xfffffffe"
    "length (layout (pre @ [(p, (xs @ ?e) @ ber_der stag ts)])) \<le> n"
    using 2(6,7) by simp_all
  note bl = wrapped_length [of body stag tag]
  have "length body \<le> 0xfffffffe" using len(1) bl by linarith
  moreover have "length (layout (pre @ [(p, xs @ ?e)])) \<le> n" using len(2) by simp
  ultimately have w: "produces (wrap_op stag tag d (convert_body body tag depth)) st n (pre @ [(p, xs @ ?e)])"
  proof (rule wrap_op_produces [OF 2(4) _ 2(5), where child = "if stag \<noteq> 0 then stag else 0"])
    show "stag \<noteq> 0 \<longrightarrow> clear_constructed tag = stag"
      using ok(4) and_not_self [OF ok(2)] by (simp only: clear_constructed_def)
    fix pre' p' xs' st'
    assume "holds (pre' @ [(p', xs')]) st'" "length (layout (pre' @ [(p', xs' @ body)])) \<le> n"
    with CBB_add_bytes_produces [of pre' p' xs' "[]" st' "[]" body n "length pre'"] \<open>length body \<le> 0xfffffffe\<close>
    have "produces (CBB_add_bytes body (length pre')) st' n (pre' @ [(p', xs' @ body)])" by simp
    then show "produces (convert_body body tag depth (length pre') (if stag \<noteq> 0 then stag else 0)) st' n
        (pre' @ [(p', xs' @ body)])"
      using ok(2) by (simp add: convert_body_def produces_def)
  qed (use ok(2) in simp_all)
  have "converts (cbs_convert_ber stag eoc depth (bers_bytes ts @ end_marker eoc rest) d st') st' n
      (pre @ [(p, (xs @ ?e) @ ber_der stag ts)]) (if eoc then rest else [])"
    if "holds (pre @ [(p, xs @ ?e)]) st'" for st'
    using len by (intro 2(1) [OF ok(5) 2(3) that 2(5)]) simp_all
  from converts_element [OF w _ this] convert_definite [OF ok(1,3) depth]
  show ?case by simp
next
  case (3 stag tag lb us ts)
  let ?c = "child_tag stag tag" and ?b = "bers_bytes us"
  let ?body = "ber_der ?c us" and ?out = "if is_string_type tag then clear_constructed tag else tag"
  let ?e = "if stag \<noteq> 0 then ?body else der_element ?out ?body"
  have depth: "depth \<le> kMaxDepth" using 3(3,4) ber_ok_pos by fastforce
  have ok: "ber_len (length ?b) lb" "tag AND CBS_ASN1_CONSTRUCTED \<noteq> 0"
    "stag \<noteq> 0 \<longrightarrow> clear_constructed tag = stag" "ber_ok ?c (k - 1) us" "ber_ok stag k ts"
    using 3(3) by simp_all
  then have eoc: "(tag, lb, ?b) \<noteq> (0, [0], [])" by auto
  have k: "depth + 1 + (k - 1) \<le> Suc kMaxDepth" using 3(4) ber_ok_pos [OF ok(5)] by simp
  have len: "length ?e + length (ber_der stag ts) \<le> 0xfffffffe"
    "length (layout (pre @ [(p, (xs @ ?e) @ ber_der stag ts)])) \<le> n"
    using 3(7,8) by (simp_all add: wrap_def)
  have body: "length ?body \<le> 0xfffffffe" using len(1) wrapped_length [of ?body stag ?out] by linarith
  moreover have "length (layout (pre @ [(p, xs @ ?e)])) \<le> n" using len(2) by simp
  ultimately have w: "produces (wrap_op stag tag d (convert_body ?b tag depth)) st n (pre @ [(p, xs @ ?e)])"
  proof (rule wrap_op_produces [OF 3(5) _ 3(6) _ ok(3) _ child_wrap [OF ok(2)]])
    fix pre' p' xs' st'
    assume h: "holds (pre' @ [(p', xs')]) st'" and l: "length (layout (pre' @ [(p', xs' @ ?body)])) \<le> n"
    have "converts (cbs_convert_ber ?c False (depth + 1) ?b (length pre') st') st' n (pre' @ [(p', xs' @ ?body)]) []"
      using 3(1) [OF ok(4) k h refl body l, of False] by simp
    from converts_produces [OF this] ok(2)
    show "produces (convert_body ?b tag depth (length pre') ?c) st' n (pre' @ [(p', xs' @ ?body)])"
      by (simp add: convert_body_def produces_def)
  qed (use ok(2) in simp_all)
  have "converts (cbs_convert_ber stag eoc depth (bers_bytes ts @ end_marker eoc rest) d st') st' n
      (pre @ [(p, (xs @ ?e) @ ber_der stag ts)]) (if eoc then rest else [])"
    if "holds (pre @ [(p, xs @ ?e)]) st'" for st'
    using len by (intro 3(2) [OF ok(5) 3(4) that 3(6)]) simp_all
  from converts_element [OF w _ this] convert_definite [OF ok(1) eoc depth]
  show ?case by (simp add: wrap_def)
next
  case (4 stag tag us ts)
  let ?c = "child_tag stag tag" and ?s2 = "bers_bytes ts @ end_marker eoc rest"
  let ?s1 = "bers_bytes us @ end_marker True ?s2"
  let ?body = "ber_der ?c us" and ?out = "if is_string_type tag then clear_constructed tag else tag"
  let ?e = "if stag \<noteq> 0 then ?body else der_element ?out ?body"
  let ?inner = "\<lambda>d' c st1. case cbs_convert_ber c True (depth + 1) ?s1 d' st1 of (ok, _, st2) \<Rightarrow> (ok, st2)"
  have depth: "depth \<le> kMaxDepth" using 4(3,4) ber_ok_pos by fastforce
  have ok: "tag AND CBS_ASN1_CONSTRUCTED \<noteq> 0"
    "stag \<noteq> 0 \<longrightarrow> clear_constructed tag = stag" "ber_ok ?c (k - 1) us" "ber_ok stag k ts"
    using 4(3) by simp_all
  have k: "depth + 1 + (k - 1) \<le> Suc kMaxDepth" using 4(4) ber_ok_pos [OF ok(4)] by simp
  have len: "length ?e + length (ber_der stag ts) \<le> 0xfffffffe"
    "length (layout (pre @ [(p, (xs @ ?e) @ ber_der stag ts)])) \<le> n"
    using 4(7,8) by (simp_all add: wrap_def)
  have body: "length ?body \<le> 0xfffffffe" using len(1) wrapped_length [of ?body stag ?out] by linarith
  have fits: "length (layout (pre @ [(p, xs @ ?e)])) \<le> n" using len(2) by simp
  have inner: "converts (cbs_convert_ber ?c True (depth + 1) ?s1 (length pre') st') st' n (pre' @ [(p', xs' @ ?body)]) ?s2"
    if "holds (pre' @ [(p', xs')]) st'" "length (layout (pre' @ [(p', xs' @ ?body)])) \<le> n" for pre' p' xs' st'
    using 4(1) [OF ok(3) k that(1) refl body that(2), of True ?s2] by simp
  have w: "produces (wrap_op stag tag d ?inner) st n (pre @ [(p, xs @ ?e)])"
    using len(2) converts_produces [OF inner]
    by (intro wrap_op_produces [OF 4(5) body 4(6) _ ok(2) _ child_wrap [OF ok(1)]]) (use ok(1) in simp_all)
  have "s' = ?s2"
    if open1: "ber_open stag tag d st = (Some (d', c), st1)"
      and conv: "cbs_convert_ber c True (depth + 1) ?s1 d' st1 = (True, s', st2)" for d' c st1 s' st2
  proof -
    obtain pre' p' xs' where "holds (pre' @ [(p', xs')]) st1" "d' = length pre'" "c = ?c"
        "length (layout (pre' @ [(p', xs' @ ?body)])) \<le> n"
      using ber_open_holds [OF open1 [unfolded 4(6)] 4(5) ok(1) body refl fits] by blast
    with inner [of pre' p' xs' st1] conv show ?thesis by (simp add: converts_def)
  qed
  then have "\<exists>s'. cbs_convert_ber stag eoc depth (der_tag_bytes tag @ 0x80 # ?s1) d st =
      (case wrap_op stag tag d ?inner st of
         (False, st') \<Rightarrow> (False, s', st') | (True, st') \<Rightarrow> cbs_convert_ber stag eoc depth ?s2 d st')"
    by (rule convert_indefinite [OF ok(1) depth])
  then obtain s' where eq: "cbs_convert_ber stag eoc depth (der_tag_bytes tag @ 0x80 # ?s1) d st =
      (case wrap_op stag tag d ?inner st of
         (False, st') \<Rightarrow> (False, s', st') | (True, st') \<Rightarrow> cbs_convert_ber stag eoc depth ?s2 d st')" by blast
  have "converts (cbs_convert_ber stag eoc depth ?s2 d st') st' n
      (pre @ [(p, (xs @ ?e) @ ber_der stag ts)]) (if eoc then rest else [])"
    if "holds (pre @ [(p, xs @ ?e)]) st'" for st'
    using len by (intro 4(2) [OF ok(4) 4(4) that 4(6)]) simp_all
  from converts_element [OF w eq this] show ?case by (simp add: wrap_def)
qed


section \<open>The walk over the input\<close>

text \<open>Forests in distinguished encoding without constructed strings, of at most \<open>k\<close> nested levels.\<close>

fun der_plain :: "nat \<Rightarrow> asn1_tree list \<Rightarrow> bool" where
  "der_plain k [] \<longleftrightarrow> True"
| "der_plain k (Leaf tag body # ts) \<longleftrightarrow>
     tag AND CBS_ASN1_CONSTRUCTED = 0 \<and> length body < 2 ^ 32 \<and> der_plain k ts"
| "der_plain k (Node tag us # ts) \<longleftrightarrow>
     tag AND CBS_ASN1_CONSTRUCTED \<noteq> 0 \<and> \<not> is_string_type tag \<and> 0 < k \<and>
     length (concat (map encode_tree us)) < 2 ^ 32 \<and> der_plain (k - 1) us \<and> der_plain k ts"

lemma ber_len_der: "n < 2 ^ 32 \<Longrightarrow> ber_len n (der_len_bytes n)"
proof (cases "n < 128")
  case False
  assume n: "n < 2 ^ 32"
  note b = der_len_len_bounds [OF n]
  have "unat (be_word (be_bytes (der_len_len n) (of_nat n))) = n"
    using n b be_word_be_bytes [of "der_len_len n" "of_nat n"]
    by (simp add: unsigned_take_bit_eq unat_of_nat_u64 take_bit_nat_eq_self)
  then show ?thesis using False b
    unfolding ber_len_iff by (intro disjI2 exI [of _ "be_bytes (der_len_len n) (of_nat n)"]) (simp add: der_len_bytes_def)
qed (simp add: ber_len_iff der_len_bytes_def)

lemma ber_reader_der:
  assumes "length body < 2 ^ 32"
  shows "CBS_get_any_ber_asn1_element (der_element tag body @ rest) =
    (Some (ber_result tag (der_len_bytes (length body)) body False), rest)"
  using ber_element_definite [OF ber_len_der [OF assms], of tag rest] by (simp add: der_element_def)

lemma skip_header:
  "CBS_skip (length (der_tag_bytes tag) + length lb) (der_tag_bytes tag @ lb @ body) = (Some (), body)"
  using CBS_skip_append [of "der_tag_bytes tag @ lb" _ body] by simp

lemma der_element_nonempty: "CBS_len (der_element tag body @ rest) \<noteq> 0"
  by (simp add: CBS_len_def der_element_def der_tag_bytes_length)

text \<open>One round of the walk on an element in distinguished form.\<close>

lemma cbs_find_ber_der:
  assumes "length body < 2 ^ 32"
  shows "cbs_find_ber_loop depth found (der_element tag body @ rest) =
    (if tag AND CBS_ASN1_CONSTRUCTED \<noteq> 0
     then if is_string_type tag then Some True
          else (case (if depth + 1 > kMaxDepth then None else cbs_find_ber_loop (depth + 1) False body) of
                  None \<Rightarrow> None | Some found' \<Rightarrow> cbs_find_ber_loop depth found' rest)
     else cbs_find_ber_loop depth False rest)"
  unfolding cbs_find_ber_loop.simps [of depth found "der_element tag body @ rest"]
  by (simp only: der_element_nonempty ber_reader_der [OF assms] skip_header prod.case option.case if_False ber_result_sel)

lemma cbs_find_ber_loop_plain:
  "der_plain k ts \<Longrightarrow> depth + k \<le> kMaxDepth \<Longrightarrow>
   cbs_find_ber_loop depth False (concat (map encode_tree ts)) = Some False"
proof (induction k ts arbitrary: depth rule: der_plain.induct)
  case (1 k)
  then show ?case by (simp add: cbs_find_ber_loop.simps [of depth] CBS_len_def)
next
  case (2 k tag body ts)
  then show ?case by (simp add: cbs_find_ber_der)
next
  case (3 k tag us ts)
  then show ?case by (simp add: cbs_find_ber_der)
qed

lemma cbs_find_ber_indefinite:
  "tag AND CBS_ASN1_CONSTRUCTED \<noteq> 0 \<Longrightarrow> cbs_find_ber_loop depth found (der_tag_bytes tag @ 0x80 # rest) = Some True"
  unfolding cbs_find_ber_loop.simps [of depth found "der_tag_bytes tag @ 0x80 # rest"]
  by (simp add: ber_element_indefinite CBS_len_def)

text \<open>Values at the tags of the examples: SEQUENCE, constructed OCTET STRING, INTEGER, OCTET STRING, NULL.\<close>

lemma sample_tags:
  "der_tag_bytes 0x20000010 = [0x30]" "der_tag_bytes 0x20000004 = [0x24]" "der_tag_bytes 2 = [2]"
  "der_tag_bytes 4 = [4]" "der_tag_bytes 5 = [5]"
  by (simp_all add: der_tag_bytes_def)

lemmas sample_values = sample_tags child_tag_def is_string_type_def clear_constructed_def wrap_def

section \<open>Properties\<close>

text \<open>C9: An input with a BER form that the walk sees is converted: whatever encoding choices (definite
  or indefinite, short or long lengths, fragmented strings) its values use, the result is their
  distinguished encoding.  For one value this is what \<open>internal.h\<close> promises.  It promises no more:
  when the input holds several values, the code converts all of them and consumes the whole input,
  where the declaration says that it reads one element and advances over it (and where an input
  that needs no conversion is treated that way).\<close>

theorem ber_to_der_converts:
  assumes "\<forall>m < 2 ^ 63. al (m + 8)" "ber_ok 0 k ts" "k \<le> Suc kMaxDepth" "cbs_find_ber 0 (bers_bytes ts) = Some True"
    and "length (bers_bytes ts) < 2 ^ 62" "length (ber_der 0 ts) \<le> 0xfffffffe"
  shows "CBS_asn1_ber_to_der al (bers_bytes ts) = (Some (ber_der 0 ts, Some (ber_der 0 ts)), [])"
proof -
  let ?xs = "ber_der 0 ts"
  from CBB_init_total [OF assms(1,5)] obtain st where st: "CBB_init al (length (bers_bytes ts)) = (True, st)"
    "holds [(Fixed 0, [])] st" "\<And>n. n < 2 ^ 62 \<Longrightarrow> can_grow st n" by blast
  have "converts (cbs_convert_ber 0 False 0 (bers_bytes ts) 0 st) st (length ?xs) [(Fixed 0, ?xs)] []"
    using cbs_convert_ber_converts [of 0 k ts 0 "[]" "Fixed 0" "[]" st 0 "length ?xs" False] assms st(2) by simp
  moreover have grow: "can_grow st (length ?xs)" using assms(6) by (intro st(3)) simp
  ultimately obtain st' where st': "cbs_convert_ber 0 False 0 (bers_bytes ts) 0 st = (True, [], st')"
    "holds [(Fixed 0, ?xs)] st'" "cbb_evolves st st'"
    by (auto simp: converts_def split: prod.splits bool.splits)
  have "fst (CBB_finish True 0 st') = Some ?xs"
    using CBB_finish_Some [OF st'(2), of "[]" True] cbb_evolves_grow [OF st'(3) grow] by auto
  with st st' assms(4) show ?thesis
    by (simp add: CBS_asn1_ber_to_der_def CBS_len_def CBS_init_def)
qed

lemma ber_to_der_converts_witness:
  "CBS_asn1_ber_to_der (\<lambda>_. True)
     (bers_bytes [Indef 0x20000010 [Def 0x20000004 [0x81, 6] [Prim 4 [1] [7], Prim 4 [1] [8]], Prim 2 [1] [5]]]) =
   (Some (der_element 0x20000010 (der_element 4 [7, 8] @ der_element 2 [5]),
     Some (der_element 0x20000010 (der_element 4 [7, 8] @ der_element 2 [5]))), [])"
proof -
  let ?ts = "[Indef 0x20000010 [Def 0x20000004 [0x81, 6] [Prim 4 [1] [7], Prim 4 [1] [8]], Prim 2 [1] [5]]]"
  have ok: "ber_ok 0 3 ?ts" by (simp add: sample_values ber_len_def Let_def be_word_def)
  have der: "ber_der 0 ?ts = der_element 0x20000010 (der_element 4 [7, 8] @ der_element 2 [5])"
    by (simp add: sample_values)
  have found: "cbs_find_ber 0 (bers_bytes ?ts) = Some True"
    by (simp add: cbs_find_ber_def cbs_find_ber_indefinite)
  have len: "length (bers_bytes ?ts) < 2 ^ 62" "length (ber_der 0 ?ts) \<le> 0xfffffffe"
    unfolding der by (simp_all add: sample_values der_element_def der_len_bytes_def)
  from ber_to_der_converts [OF _ ok _ found len, of "\<lambda>_. True"] show ?thesis
    by (simp only: der kMaxDepth_def) simp
qed

text \<open>C35: Elements that are already in distinguished encoding, without constructed strings and not
  nested beyond the limit, are returned as they stand, without a copy, and only the first one is
  consumed.\<close>

theorem ber_to_der_keeps_der:
  assumes "der_plain k (t # ts)" "k \<le> kMaxDepth"
  shows "CBS_asn1_ber_to_der al (concat (map encode_tree (t # ts))) =
    (Some (encode_tree t, None), concat (map encode_tree ts))"
proof -
  have "cbs_find_ber 0 (concat (map encode_tree (t # ts))) = Some False"
    using cbs_find_ber_loop_plain [of k "t # ts" 0] assms by (simp add: cbs_find_ber_def)
  moreover obtain tag body where t: "encode_tree t = der_element tag body" "length body < 2 ^ 32"
    using assms(1) by (cases t) auto
  ultimately show ?thesis
    using CBS_get_any_asn1_element_bytes [OF t(2), of tag "concat (map encode_tree ts)"]
    by (simp add: CBS_asn1_ber_to_der_def der_element_result_def)
qed

lemma ber_to_der_keeps_der_witness:
  "CBS_asn1_ber_to_der (\<lambda>_. False) (concat (map encode_tree [Node 0x20000010 [Leaf 2 [5]], Leaf 4 [7]])) =
    (Some (encode_tree (Node 0x20000010 [Leaf 2 [5]]), None), encode_tree (Leaf 4 [7]))"
proof -
  have "der_plain 1 (Node 0x20000010 [Leaf 2 [5]] # [Leaf 4 [7]])"
    by (simp add: sample_values der_element_def der_len_bytes_def)
  from ber_to_der_keeps_der [OF this, of "\<lambda>_. False"] show ?thesis by (simp add: kMaxDepth_def)
qed

text \<open>C36: The walk forgets a BER form it has found when an element follows the one that contains it.  A
  constructed value that begins with an indefinite length is found in a larger value as long as it
  comes last there; with elements in distinguished encoding after it the walk answers "not found",
  and the larger value is returned as it stands, the indefinite length included, without a
  conversion.\<close>

theorem find_ber_forgets:
  assumes "outer AND CBS_ASN1_CONSTRUCTED \<noteq> 0" "\<not> is_string_type outer" "tag AND CBS_ASN1_CONSTRUCTED \<noteq> 0" "\<not> is_string_type tag"
    and "itag AND CBS_ASN1_CONSTRUCTED \<noteq> 0" "inner = der_element tag (der_tag_bytes itag @ 0x80 # xs)"
    and "der_plain k (t # ts)" "k < kMaxDepth"
    and "length (inner @ concat (map encode_tree (t # ts))) < 2 ^ 32"
  shows "cbs_find_ber 0 (der_element outer inner) = Some True \<and>
    CBS_asn1_ber_to_der al (der_element outer (inner @ concat (map encode_tree (t # ts)))) =
      (Some (der_element outer (inner @ concat (map encode_tree (t # ts))), None), [])"
proof -
  let ?body = "der_tag_bytes itag @ 0x80 # xs" and ?rest = "concat (map encode_tree (t # ts))"
  have len: "length ?body < 2 ^ 32" "length inner < 2 ^ 32"
    using assms(9) der_element_length [of ?body tag] unfolding assms(6) by simp_all
  have depth: "\<not> kMaxDepth < 1" "\<not> kMaxDepth < 2" by (simp_all add: kMaxDepth_def)
  have inner: "cbs_find_ber_loop 1 False (inner @ ys) = cbs_find_ber_loop 1 True ys" for ys
    using cbs_find_ber_der [OF len(1), of 1 False tag ys] cbs_find_ber_indefinite [OF assms(5), of 2 False xs] assms(3,4) depth
    unfolding assms(6) by (simp add: numeral_2_eq_2)
  have wrap: "cbs_find_ber 0 (der_element outer b) =
      (case cbs_find_ber_loop 1 False b of None \<Rightarrow> None | Some found \<Rightarrow> cbs_find_ber_loop 0 found [])"
    if "length b < 2 ^ 32" for b
    using cbs_find_ber_der [OF that, of 0 False outer "[]"] assms(1,2) depth by (simp add: cbs_find_ber_def)
  have nil: "cbs_find_ber_loop d found [] = Some found" for d found
    by (simp add: cbs_find_ber_loop.simps [of d found "[]"] CBS_len_def)
  have "cbs_find_ber_loop 1 True ?rest = cbs_find_ber_loop 1 False ?rest"
  proof (cases t)
    case (Leaf tag' b)
    then have "length b < 2 ^ 32" using assms(7) by simp
    from cbs_find_ber_der [OF this, of 1 _ tag' "concat (map encode_tree ts)"] show ?thesis by (simp add: Leaf)
  next
    case (Node tag' us)
    then have "length (concat (map encode_tree us)) < 2 ^ 32" using assms(7) by simp
    from cbs_find_ber_der [OF this, of 1 _ tag' "concat (map encode_tree ts)"] show ?thesis by (simp add: Node)
  qed
  with cbs_find_ber_loop_plain [OF assms(7), of 1] assms(8) have rest: "cbs_find_ber_loop 1 True ?rest = Some False" by simp
  have "cbs_find_ber 0 (der_element outer inner) = Some True" using wrap [OF len(2)] inner [of "[]"] nil by simp
  moreover have "cbs_find_ber 0 (der_element outer (inner @ ?rest)) = Some False"
    using wrap [OF assms(9)] inner [of ?rest] rest nil by simp
  ultimately show ?thesis
    using CBS_get_any_asn1_element_bytes [OF assms(9), of outer "[]"]
    by (simp only: CBS_asn1_ber_to_der_def option.case bool.case prod.case append_Nil2 der_element_result_def
        asn1_element.select_convs)
qed

lemma find_ber_forgets_witness:
  "cbs_find_ber 0 (der_element 0x20000010 (der_element 0x20000010 [0x30, 0x80, 0, 0])) = Some True \<and>
   CBS_asn1_ber_to_der (\<lambda>_. True) (der_element 0x20000010 (der_element 0x20000010 [0x30, 0x80, 0, 0] @ der_element 5 [])) =
     (Some (der_element 0x20000010 (der_element 0x20000010 [0x30, 0x80, 0, 0] @ der_element 5 []), None), [])"
proof -
  have "der_plain 0 (Leaf 5 [] # [])" by simp
  from find_ber_forgets [where outer = "0x20000010" and tag = "0x20000010" and itag = "0x20000010" and xs = "[0, 0]" and
      al = "\<lambda>_. True", OF _ _ _ _ _ refl this]
  show ?thesis by (simp add: sample_values kMaxDepth_def der_element_def der_len_bytes_def)
qed

section \<open>Implicitly tagged strings\<close>

declare implicit_string_loop.simps [simp del]

lemma implicit_string_loop_produces:
  assumes "list_all (\<lambda>c. length c < 2 ^ 32) cs" "holds [(Fixed 0, xs)] st" "length (xs @ concat cs) \<le> n"
  shows "produces (implicit_string_loop tag (concat (map (der_element tag) cs))) st n [(Fixed 0, xs @ concat cs)]"
  using assms
proof (induction cs arbitrary: xs st)
  case Nil
  then show ?case
    by (auto simp: implicit_string_loop.simps [of tag "[]"] CBS_len_def produces_def holds_def cbb_evolves_def
        split: option.splits)
next
  case (Cons c cs)
  let ?s = "der_element tag c @ concat (map (der_element tag) cs)"
  have get: "CBS_get_asn1 tag ?s = (Some c, concat (map (der_element tag) cs))"
    using Cons.prems(1) by (intro CBS_get_asn1_bytes) simp
  have step: "implicit_string_loop tag ?s st =
      cbb_seq [CBB_add_bytes c 0, implicit_string_loop tag (concat (map (der_element tag) cs))] st"
    unfolding implicit_string_loop.simps [of tag ?s]
    by (simp only: der_element_nonempty if_False get prod.case option.case)
      (simp split: prod.split bool.split)
  have "produces (cbb_seq [CBB_add_bytes c 0, implicit_string_loop tag (concat (map (der_element tag) cs))]) st n
      [(Fixed 0, (xs @ c) @ concat cs)]"
  proof (rule produces_pair)
    show "produces (CBB_add_bytes c 0) st n [(Fixed 0, xs @ c)]"
      using CBB_add_bytes_produces [of "[]" "Fixed 0" xs "[]" st "[]" c n 0] Cons.prems by simp
    show "produces (implicit_string_loop tag (concat (map (der_element tag) cs))) st' n [(Fixed 0, (xs @ c) @ concat cs)]"
      if "holds [(Fixed 0, xs @ c)] st'" for st'
      using Cons.prems(1,3) by (intro Cons.IH that) simp_all
  qed
  then show ?case
    using produces_cong [of "implicit_string_loop tag ?s" st
        "cbb_seq [CBB_add_bytes c 0, implicit_string_loop tag (concat (map (der_element tag) cs))]", OF step]
    by (simp del: cbb_seq.simps)
qed

lemma peek_der_element: "CBS_peek_asn1_tag (der_element tag body @ rest) tag' \<longleftrightarrow> tag' = tag"
proof -
  have "parse_asn1_tag (der_element tag body @ rest) = (Some tag, der_len_bytes (length body) @ body @ rest)"
    by (simp only: parse_asn1_tag_iff der_element_def append.assoc)
  then show ?thesis using der_element_nonempty [of tag body rest] by (simp add: CBS_peek_asn1_tag_def)
qed

text \<open>An implicitly tagged string is read in both of its forms: the primitive one is returned in
  place, and the fragments of a constructed one are joined in order.  The assertions on the tags
  are hypotheses.\<close>

lemma implicit_string_reads:
  assumes "\<forall>m < 2 ^ 63. al (m + 8)" "outer AND CBS_ASN1_CONSTRUCTED = 0" "inner AND CBS_ASN1_CONSTRUCTED = 0" "is_string_type inner"
    and "length body < 2 ^ 32" "list_all (\<lambda>c. length c < 2 ^ 32) cs"
    and "length (concat (map (der_element inner) cs)) < 2 ^ 32" "length rest < 2 ^ 61"
  shows "CBS_get_asn1_implicit_string al outer inner (der_element outer body @ rest) = Some (Some (body, None), rest) \<and>
    CBS_get_asn1_implicit_string al outer inner
      (der_element (outer OR CBS_ASN1_CONSTRUCTED) (concat (map (der_element inner) cs)) @ rest) =
        Some (Some (concat cs, Some (concat cs)), rest)"
proof (rule conjI)
  show "CBS_get_asn1_implicit_string al outer inner (der_element outer body @ rest) = Some (Some (body, None), rest)"
    using assms(2,3,4,5) by (simp add: CBS_get_asn1_implicit_string_def peek_der_element CBS_get_asn1_bytes)
next
  let ?body = "concat (map (der_element inner) cs)" and ?tag = "outer OR CBS_ASN1_CONSTRUCTED"
  let ?s = "der_element ?tag ?body @ rest"
  have "outer \<noteq> ?tag"
  proof
    assume "outer = ?tag"
    then have "bit outer 29 = bit ?tag 29" by simp
    moreover have "bit (outer AND CBS_ASN1_CONSTRUCTED) 29 = False" unfolding assms(2) by simp
    ultimately show False by (simp add: bit_simps)
  qed
  then have peek: "\<not> CBS_peek_asn1_tag ?s outer" by (simp add: peek_der_element)
  have get: "CBS_get_asn1 ?tag ?s = (Some ?body, rest)" using assms(7) by (rule CBS_get_asn1_bytes)
  have len: "length ?s < 2 ^ 62" using assms(7,8) der_element_length_le [of ?tag ?body] by simp
  have "length (concat cs) \<le> length ?body"
    by (induction cs) (auto intro: add_mono der_element_length)
  then have "length (concat cs) < 2 ^ 62" using assms(7) by simp
  from on_base_room [OF assms(1) len this, of "implicit_string_loop inner ?body"]
    implicit_string_loop_produces [OF assms(6), of "[]" _ "length (concat cs)" inner]
  obtain st st' where "CBB_init al (length ?s) = (True, st)" "implicit_string_loop inner ?body st = (True, st')"
    "fst (CBB_finish True 0 st') = Some (concat cs)" by auto
  then show "CBS_get_asn1_implicit_string al outer inner ?s = Some (Some (concat cs, Some (concat cs)), rest)"
    using peek get assms(2,3,4) by (simp add: CBS_get_asn1_implicit_string_def CBS_len_def CBS_init_def)
qed

end
