(* ===== verification/Stack.thy ===== *)
theory Stack
  imports Mem
begin

text \<open>
  The pointer stacks of \<open>crypto/stack/stack.c\<close>: growable arrays with an optional comparison
  function and a flag that says whether the elements are in its order.  Every operation is
  shown to be an operation on the list of the valid elements, and searching to return the
  first match whether or not the flag is set.
\<close>

section \<open>The code\<close>

text \<open>A \<open>void *\<close> is an \<open>'a option\<close> with \<open>None\<close> for NULL, a comparison function pointer a
  value of \<open>'c\<close>, called through the parameter \<open>call_cmp\<close>.  The array \<open>st_data\<close> has
  \<open>num_alloc\<close> slots; slots \<open>realloc\<close> leaves uninitialised hold \<open>None\<close>, and the properties
  show that only the first \<open>num\<close> slots matter.\<close>

record ('a, 'c) stack =
  st_num :: nat
  st_data :: "'a option list"
  st_sorted :: bool
  st_num_alloc :: nat
  st_comp :: "'c option"

definition kMinSize :: nat where
  "kMinSize = 4"

abbreviation (input) sizeof_stack :: nat where "sizeof_stack \<equiv> 40"
abbreviation (input) sizeof_ptr :: nat where "sizeof_ptr \<equiv> 8"

definition sk_new :: "allocator \<Rightarrow> 'c option \<Rightarrow> ('a, 'c) stack option" where
  "sk_new al cmpf =
     (if \<not> OPENSSL_malloc al sizeof_stack then None
      else if \<not> OPENSSL_malloc al (sizeof_ptr * kMinSize) then None
      else Some \<lparr>st_num = 0, st_data = replicate kMinSize None, st_sorted = False,
                 st_num_alloc = kMinSize, st_comp = cmpf\<rparr>)"

definition sk_new_null :: "allocator \<Rightarrow> ('a, 'c) stack option" where
  "sk_new_null al = sk_new al None"

definition sk_num :: "('a, 'c) stack option \<Rightarrow> nat" where
  "sk_num sk = (case sk of None \<Rightarrow> 0 | Some s \<Rightarrow> st_num s)"

definition sk_zero :: "('a, 'c) stack option \<Rightarrow> ('a, 'c) stack option" where
  "sk_zero sk =
     (case sk of
        None \<Rightarrow> None
      | Some s \<Rightarrow>
          if st_num s = 0 then Some s
          else Some (s\<lparr>st_data := replicate (st_num s) None @ drop (st_num s) (st_data s),
                       st_num := 0, st_sorted := False\<rparr>))"

definition sk_value :: "('a, 'c) stack option \<Rightarrow> nat \<Rightarrow> 'a option" where
  "sk_value sk i =
     (case sk of None \<Rightarrow> None | Some s \<Rightarrow> if i \<ge> st_num s then None else st_data s ! i)"

definition sk_set :: "('a, 'c) stack option \<Rightarrow> nat \<Rightarrow> 'a option \<Rightarrow> 'a option \<times> ('a, 'c) stack option" where
  "sk_set sk i v =
     (case sk of
        None \<Rightarrow> (None, None)
      | Some s \<Rightarrow> if i \<ge> st_num s then (None, sk) else (v, Some (s\<lparr>st_data := (st_data s)[i := v]\<rparr>)))"

text \<open>The pointers handed to the free function, in order; the stack itself is gone afterwards.\<close>

definition sk_pop_free_ex :: "('a, 'c) stack option \<Rightarrow> 'a list" where
  "sk_pop_free_ex sk =
     (case sk of
        None \<Rightarrow> []
      | Some s \<Rightarrow> List.map_filter (\<lambda>i. st_data s ! i) [0..<st_num s])"

definition sk_pop_free :: "('a, 'c) stack option \<Rightarrow> 'a list" where
  "sk_pop_free sk = sk_pop_free_ex sk"

text \<open>The new capacity, or \<open>None\<close> when neither doubling nor incrementing fits \<open>size_t\<close>.\<close>

definition sk_new_alloc :: "nat \<Rightarrow> nat option" where
  "sk_new_alloc num_alloc =
     (let new_alloc = (num_alloc * 2) mod SIZE_MODULUS;
          alloc_size = (new_alloc * sizeof_ptr) mod SIZE_MODULUS;
          (new_alloc, alloc_size) =
            (if new_alloc < num_alloc \<or> alloc_size div sizeof_ptr \<noteq> new_alloc
             then ((num_alloc + 1) mod SIZE_MODULUS,
                   ((num_alloc + 1) mod SIZE_MODULUS * sizeof_ptr) mod SIZE_MODULUS)
             else (new_alloc, alloc_size))
      in if new_alloc < num_alloc \<or> alloc_size div sizeof_ptr \<noteq> new_alloc then None
         else Some new_alloc)"

definition sk_grow :: "allocator \<Rightarrow> ('a, 'c) stack \<Rightarrow> ('a, 'c) stack option" where
  "sk_grow al s =
     (if st_num_alloc s \<le> st_num s + 1
      then (case sk_new_alloc (st_num_alloc s) of
              None \<Rightarrow> None
            | Some new_alloc \<Rightarrow>
                if \<not> OPENSSL_malloc al (new_alloc * sizeof_ptr) then None
                else Some (s\<lparr>st_data := take new_alloc (st_data s @ replicate (new_alloc - st_num_alloc s) None),
                             st_num_alloc := new_alloc\<rparr>))
      else Some s)"

definition sk_insert ::
  "allocator \<Rightarrow> ('a, 'c) stack option \<Rightarrow> 'a option \<Rightarrow> nat \<Rightarrow> nat \<times> ('a, 'c) stack option" where
  "sk_insert al sk p pos =
     (case sk of
        None \<Rightarrow> (0, None)
      | Some s0 \<Rightarrow>
          (case sk_grow al s0 of
             None \<Rightarrow> (0, sk)
           | Some s \<Rightarrow>
               let d = (if pos \<ge> st_num s then (st_data s)[st_num s := p]
                        else (memmove (pos + 1) pos (st_num s - pos) (st_data s))[pos := p])
               in (st_num s + 1, Some (s\<lparr>st_data := d, st_num := st_num s + 1, st_sorted := False\<rparr>))))"

definition sk_delete :: "('a, 'c) stack option \<Rightarrow> nat \<Rightarrow> 'a option \<times> ('a, 'c) stack option" where
  "sk_delete sk pos =
     (case sk of
        None \<Rightarrow> (None, None)
      | Some s \<Rightarrow>
          if pos \<ge> st_num s then (None, sk)
          else let ret = st_data s ! pos;
                   d = (if pos \<noteq> st_num s - 1
                        then memmove pos (pos + 1) (st_num s - pos - 1) (st_data s) else st_data s)
               in (ret, Some (s\<lparr>st_data := d, st_num := st_num s - 1\<rparr>)))"

text \<open>The index of the first of the \<open>n\<close> slots from \<open>i\<close> on that satisfies \<open>P\<close>.\<close>

fun sk_scan :: "('a option \<Rightarrow> bool) \<Rightarrow> 'a option list \<Rightarrow> nat \<Rightarrow> nat \<Rightarrow> nat option" where
  "sk_scan P d i 0 = None"
| "sk_scan P d i (Suc n) = (if P (d ! i) then Some i else sk_scan P d (i + 1) n)"

definition sk_delete_ptr :: "('a, 'c) stack option \<Rightarrow> 'a option \<Rightarrow> 'a option \<times> ('a, 'c) stack option" where
  "sk_delete_ptr sk p =
     (case sk of
        None \<Rightarrow> (None, None)
      | Some s \<Rightarrow>
          (case sk_scan (\<lambda>e. e = p) (st_data s) 0 (st_num s) of
             None \<Rightarrow> (None, sk)
           | Some i \<Rightarrow> sk_delete sk i))"

definition sk_is_sorted :: "('a, 'c) stack option \<Rightarrow> bool" where
  "sk_is_sorted sk = (case sk of None \<Rightarrow> True | Some s \<Rightarrow> st_sorted s)"

text \<open>The binary search; \<open>lo\<close> and \<open>hi\<close> bound the half-open interval of candidates.\<close>

function sk_bsearch :: "('a option \<Rightarrow> int) \<Rightarrow> 'a option list \<Rightarrow> nat \<Rightarrow> nat \<Rightarrow> nat option" where
  "sk_bsearch cmp d lo hi =
     (if lo < hi
      then let mid = lo + (hi - lo - 1) div 2; r = cmp (d ! mid)
           in if r > 0 then sk_bsearch cmp d (mid + 1) hi
              else if r < 0 then sk_bsearch cmp d lo mid
              else if hi - lo = 1 then Some mid
              else sk_bsearch cmp d lo (mid + 1)
      else None)"
  by pat_completeness auto
termination
  by (relation "measure (\<lambda>(_, _, lo, hi). hi - lo)") (auto simp: Let_def)

definition sk_find :: "('c \<Rightarrow> 'a option \<Rightarrow> 'a option \<Rightarrow> int) \<Rightarrow> ('a, 'c) stack option \<Rightarrow> 'a option \<Rightarrow> nat option" where
  "sk_find call_cmp sk p =
     (case sk of
        None \<Rightarrow> None
      | Some s \<Rightarrow>
          (case st_comp s of
             None \<Rightarrow> sk_scan (\<lambda>e. e = p) (st_data s) 0 (st_num s)
           | Some cmpf \<Rightarrow>
               if p = None then None
               else if \<not> sk_is_sorted sk
               then sk_scan (\<lambda>e. call_cmp cmpf p e = 0) (st_data s) 0 (st_num s)
               else sk_bsearch (call_cmp cmpf p) (st_data s) 0 (st_num s)))"

definition sk_shift :: "('a, 'c) stack option \<Rightarrow> 'a option \<times> ('a, 'c) stack option" where
  "sk_shift sk =
     (case sk of None \<Rightarrow> (None, None) | Some s \<Rightarrow> if st_num s = 0 then (None, sk) else sk_delete sk 0)"

text \<open>\<open>sk_push\<close> reads \<open>sk->num\<close> before any check: its caller must not pass NULL, where the
  model, like \<open>sk_insert\<close>, answers 0.\<close>

definition sk_push :: "allocator \<Rightarrow> ('a, 'c) stack option \<Rightarrow> 'a option \<Rightarrow> nat \<times> ('a, 'c) stack option" where
  "sk_push al sk p = sk_insert al sk p (case sk of None \<Rightarrow> 0 | Some s \<Rightarrow> st_num s)"

definition sk_pop :: "('a, 'c) stack option \<Rightarrow> 'a option \<times> ('a, 'c) stack option" where
  "sk_pop sk =
     (case sk of
        None \<Rightarrow> (None, None)
      | Some s \<Rightarrow> if st_num s = 0 then (None, sk) else sk_delete sk (st_num s - 1))"

definition sk_dup :: "allocator \<Rightarrow> ('a, 'c) stack option \<Rightarrow> ('a, 'c) stack option" where
  "sk_dup al sk =
     (case sk of
        None \<Rightarrow> None
      | Some s \<Rightarrow>
          if \<not> OPENSSL_malloc al sizeof_stack then None
          else if \<not> OPENSSL_malloc al ((sizeof_ptr * st_num_alloc s) mod SIZE_MODULUS) then None
          else Some \<lparr>st_num = st_num s,
                     st_data = take (st_num s) (st_data s) @ replicate (st_num_alloc s - st_num s) None,
                     st_sorted = st_sorted s, st_num_alloc = st_num_alloc s, st_comp = st_comp s\<rparr>)"

definition sk_sort :: "('c \<Rightarrow> 'a option \<Rightarrow> 'a option \<Rightarrow> int) \<Rightarrow> ('a, 'c) stack option \<Rightarrow> ('a, 'c) stack option" where
  "sk_sort call_cmp sk =
     (case sk of
        None \<Rightarrow> None
      | Some s \<Rightarrow>
          (case st_comp s of
             None \<Rightarrow> sk
           | Some cmpf \<Rightarrow>
               if st_sorted s then sk
               else let d = (if st_num s \<ge> 2
                             then qsort (call_cmp cmpf) (take (st_num s) (st_data s)) @ drop (st_num s) (st_data s)
                             else st_data s)
                    in Some (s\<lparr>st_data := d, st_sorted := True\<rparr>)))"

definition sk_set_cmp_func :: "('a, 'c) stack \<Rightarrow> 'c option \<Rightarrow> 'c option \<times> ('a, 'c) stack" where
  "sk_set_cmp_func s cmpf =
     (st_comp s,
      (if st_comp s \<noteq> cmpf then s\<lparr>st_sorted := False\<rparr> else s)\<lparr>st_comp := cmpf\<rparr>)"

text \<open>The copying loop over slots \<open>i, i + 1, \<dots>\<close>: the array, or the copies released when a copy
  failed.\<close>

fun sk_copy_loop ::
  "('a \<Rightarrow> 'a option) \<Rightarrow> 'a option list \<Rightarrow> nat \<Rightarrow> nat \<Rightarrow> 'a list + 'a option list" where
  "sk_copy_loop copy d i 0 = Inr d"
| "sk_copy_loop copy d i (Suc n) =
     (case d ! i of
        None \<Rightarrow> sk_copy_loop copy d (i + 1) n
      | Some x \<Rightarrow>
          (case copy x of
             None \<Rightarrow> Inl (List.map_filter (\<lambda>j. d ! j) [0..<i])
           | Some y \<Rightarrow> sk_copy_loop copy (d[i := Some y]) (i + 1) n))"

text \<open>The copy, and the copies that were freed on the way.\<close>

definition sk_deep_copy ::
  "allocator \<Rightarrow> ('a \<Rightarrow> 'a option) \<Rightarrow> ('a, 'c) stack option \<Rightarrow> ('a, 'c) stack option \<times> 'a list" where
  "sk_deep_copy al copy sk =
     (case sk_dup al sk of
        None \<Rightarrow> (None, [])
      | Some r \<Rightarrow>
          (case sk_copy_loop copy (st_data r) 0 (st_num r) of
             Inl freed \<Rightarrow> (None, freed)
           | Inr d \<Rightarrow> (Some (r\<lparr>st_data := d\<rparr>), [])))"


declare sk_bsearch.simps [simp del]

section \<open>Stacks as lists\<close>

definition sk_list :: "('a, 'c) stack \<Rightarrow> 'a option list" where
  "sk_list s = take (st_num s) (st_data s)"

definition stack_ok :: "('a, 'c) stack \<Rightarrow> bool" where
  "stack_ok s \<longleftrightarrow> length (st_data s) = st_num_alloc s \<and> st_num s < st_num_alloc s \<and>
     st_num_alloc s * 8 < 2 ^ 64"

text \<open>What the flag promises.\<close>

definition sorted_ok :: "('c \<Rightarrow> 'a option \<Rightarrow> 'a option \<Rightarrow> int) \<Rightarrow> ('a, 'c) stack \<Rightarrow> bool" where
  "sorted_ok call_cmp s \<longleftrightarrow>
     (st_sorted s \<longrightarrow>
       (case st_comp s of
          None \<Rightarrow> False
        | Some c \<Rightarrow> sorted_wrt (\<lambda>a b. call_cmp c a b \<le> 0) (sk_list s)))"

fun first_index :: "('b \<Rightarrow> bool) \<Rightarrow> 'b list \<Rightarrow> nat option" where
  "first_index P [] = None"
| "first_index P (x # xs) = (if P x then Some 0 else map_option Suc (first_index P xs))"

lemma length_sk_list: "stack_ok s \<Longrightarrow> length (sk_list s) = st_num s"
  by (simp add: stack_ok_def sk_list_def)

lemma sk_list_update [simp]:
  "sk_list (s\<lparr>st_sorted := b\<rparr>) = sk_list s" "sk_list (s\<lparr>st_comp := c\<rparr>) = sk_list s"
  "sk_list (s\<lparr>st_num_alloc := n\<rparr>) = sk_list s"
  by (simp_all add: sk_list_def)

lemma size_check: "(a * 8) mod SIZE_MODULUS div 8 = a \<longleftrightarrow> a * 8 < 2 ^ 64"
proof
  assume eq: "(a * 8) mod SIZE_MODULUS div 8 = a"
  have "(a * 8) mod SIZE_MODULUS div 8 < 2 ^ 61" by (intro less_mult_imp_div_less) simp
  then show "a * 8 < 2 ^ 64" using eq by simp
qed simp

lemma sk_new_alloc_eq:
  assumes "n * 8 < 2 ^ 64"
  shows "sk_new_alloc n = (if 2 * n * 8 < 2 ^ 64 then Some (2 * n)
     else if (n + 1) * 8 < 2 ^ 64 then Some (n + 1) else None)"
proof -
  have m: "n * 2 mod SIZE_MODULUS = 2 * n" "(n + 1) mod SIZE_MODULUS = n + 1" using assms by simp_all
  show ?thesis
    unfolding sk_new_alloc_def m Let_def size_check
    using size_check [of "2 * n"] size_check [of "n + 1"] by (auto simp del: mult_Suc)
qed

lemma sk_grow_ok:
  assumes "stack_ok s" "sk_grow al s = Some s'"
  shows "stack_ok s' \<and> st_num s' + 1 < st_num_alloc s' \<and> sk_list s' = sk_list s \<and> st_num s' = st_num s \<and>
    st_comp s' = st_comp s"
proof (cases "st_num_alloc s \<le> st_num s + 1")
  case True
  from assms(1) have ok: "length (st_data s) = st_num_alloc s" "st_num s < st_num_alloc s" "st_num_alloc s * 8 < 2 ^ 64"
    by (simp_all add: stack_ok_def)
  from assms(2) True obtain n where n: "sk_new_alloc (st_num_alloc s) = Some n"
    and s': "s' = s\<lparr>st_data := take n (st_data s @ replicate (n - st_num_alloc s) None), st_num_alloc := n\<rparr>"
    by (auto simp: sk_grow_def split: option.splits if_splits)
  from n sk_new_alloc_eq [OF ok(3)] ok(2) have "st_num_alloc s < n" "n * 8 < 2 ^ 64"
    by (auto split: if_splits)
  with s' ok show ?thesis by (simp add: stack_ok_def sk_list_def)
next
  case False
  with assms show ?thesis by (auto simp: sk_grow_def)
qed

text \<open>Growing fails only when the allocator refuses or the array has reached its limit.\<close>

lemma sk_grow_total:
  assumes "stack_ok s" "\<forall>m. al m" "st_num s < 2 ^ 59"
  shows "\<exists>s'. sk_grow al s = Some s'"
proof (cases "st_num_alloc s \<le> st_num s + 1")
  case True
  then have n: "st_num_alloc s < 2 ^ 59 + 2" "st_num_alloc s * 8 < 2 ^ 64" using assms by (auto simp: stack_ok_def)
  then have "sk_new_alloc (st_num_alloc s) = Some (2 * st_num_alloc s)" by (simp add: sk_new_alloc_eq)
  moreover have "OPENSSL_malloc al (2 * st_num_alloc s * 8)" using assms(2) n by (simp add: OPENSSL_malloc_def)
  ultimately show ?thesis by (auto simp: sk_grow_def)
qed (simp add: sk_grow_def)

lemma insert_slots:
  assumes "pos < n" "n < length d"
  shows "take (Suc n) ((memmove (pos + 1) pos (n - pos) d)[pos := p]) = take pos (take n d) @ p # drop pos (take n d)"
    and "length ((memmove (pos + 1) pos (n - pos) d)[pos := p]) = length d"
proof -
  have "memmove (pos + 1) pos (n - pos) d = take pos d @ d ! pos # drop pos (take n d) @ drop (Suc n) d"
    using assms by (simp add: memmove_def take_Suc_conv_app_nth drop_take)
  then show "take (Suc n) ((memmove (pos + 1) pos (n - pos) d)[pos := p]) = take pos (take n d) @ p # drop pos (take n d)"
    "length ((memmove (pos + 1) pos (n - pos) d)[pos := p]) = length d"
    using assms by (simp_all add: list_update_append min_def Suc_diff_le)
qed

lemma sk_insert_list:
  assumes "stack_ok s" "sk_insert al (Some s) p pos = (n, r)" "n \<noteq> 0"
  shows "\<exists>s'. r = Some s' \<and> stack_ok s' \<and> n = length (sk_list s') \<and> \<not> st_sorted s' \<and> st_comp s' = st_comp s \<and>
    sk_list s' = take pos (sk_list s) @ p # drop pos (sk_list s)"
proof -
  from assms(2,3) obtain s1 where g: "sk_grow al s = Some s1" by (auto simp: sk_insert_def split: option.splits)
  note ok = sk_grow_ok [OF assms(1) g]
  define d where "d = (if pos \<ge> st_num s1 then (st_data s1)[st_num s1 := p]
                        else (memmove (pos + 1) pos (st_num s1 - pos) (st_data s1))[pos := p])"
  let ?s' = "s1\<lparr>st_data := d, st_num := st_num s1 + 1, st_sorted := False\<rparr>"
  have len: "st_num s1 < length (st_data s1)" using ok by (simp add: stack_ok_def)
  have d: "length d = length (st_data s1)"
    "take (Suc (st_num s1)) d = take pos (sk_list s1) @ p # drop pos (sk_list s1)"
    using len insert_slots [of pos "st_num s1" "st_data s1" p]
    by (auto simp: d_def sk_list_def take_Suc_conv_app_nth)
  have "r = Some ?s'" "n = Suc (st_num s)" using assms(2) g ok by (auto simp: sk_insert_def d_def Let_def)
  moreover have "sk_list ?s' = take (Suc (st_num s1)) d" by (simp add: sk_list_def)
  with d(2) ok have "sk_list ?s' = take pos (sk_list s) @ p # drop pos (sk_list s)" by (simp only:)
  moreover have "stack_ok ?s'" using ok d(1) by (simp add: stack_ok_def)
  ultimately show ?thesis using ok length_sk_list [of ?s'] by simp
qed

lemma sk_insert_fails:
  "sk_insert al (Some s) p pos = (0, r) \<Longrightarrow> r = Some s \<and> sk_grow al s = None"
  by (auto simp: sk_insert_def Let_def split: option.splits)

lemma sk_delete_list:
  assumes "stack_ok s"
  shows "sk_delete (Some s) pos =
    (if pos < length (sk_list s)
     then (sk_list s ! pos,
           Some (s\<lparr>st_data := (if pos \<noteq> st_num s - 1 then memmove pos (pos + 1) (st_num s - pos - 1) (st_data s) else st_data s),
                   st_num := st_num s - 1\<rparr>))
     else (None, Some s))"
  using assms by (auto simp: sk_delete_def length_sk_list Let_def) (auto simp: sk_list_def)

lemma sk_delete_state:
  assumes "stack_ok s" "sk_delete (Some s) pos = (x, Some s')" "pos < length (sk_list s)"
  shows "x = sk_list s ! pos \<and> stack_ok s' \<and> sk_list s' = take pos (sk_list s) @ drop (Suc pos) (sk_list s) \<and>
    st_sorted s' = st_sorted s \<and> st_comp s' = st_comp s"
proof -
  let ?n = "st_num s" and ?d = "st_data s"
  have n: "pos < ?n" "?n < length ?d" using assms(1,3) by (auto simp: stack_ok_def length_sk_list)
  let ?L = "take pos ?d @ take (?n - pos - 1) (drop (pos + 1) ?d)"
  have L: "length ?L = ?n - 1" "?L = take pos (sk_list s) @ drop (Suc pos) (sk_list s)"
    using n by (auto simp: sk_list_def drop_take min_def)
  have mv: "memmove pos (pos + 1) (?n - pos - 1) ?d = ?L @ drop (?n - 1) ?d"
    using n by (simp add: memmove_def)
  have "take (?n - 1) (memmove pos (pos + 1) (?n - pos - 1) ?d) = take pos (sk_list s) @ drop (Suc pos) (sk_list s)"
    unfolding mv using L by (metis append_eq_conv_conj)
  moreover have "length (memmove pos (pos + 1) (?n - pos - 1) ?d) = length ?d"
    unfolding mv length_append [of ?L] L(1) using n by simp
  moreover have "take (?n - 1) ?d = take pos (sk_list s) @ drop (Suc pos) (sk_list s)" if "pos = ?n - 1"
    using n that by (simp add: sk_list_def)
  ultimately show ?thesis
    using assms n by (auto simp: sk_delete_list stack_ok_def sk_list_def)
qed

lemma sk_delete_some:
  assumes "stack_ok s" "pos < length (sk_list s)"
  shows "\<exists>s'. sk_delete (Some s) pos = (sk_list s ! pos, Some s') \<and> stack_ok s' \<and>
    sk_list s' = take pos (sk_list s) @ drop (Suc pos) (sk_list s)"
proof -
  obtain s' where e: "sk_delete (Some s) pos = (sk_list s ! pos, Some s')"
    using sk_delete_list [OF assms(1), of pos] assms(2) by simp
  from sk_delete_state [OF assms(1) e assms(2)] e show ?thesis by blast
qed

section \<open>Searching\<close>

lemma sk_scan_append:
  "sk_scan P d i (m + n) = (case sk_scan P d i m of None \<Rightarrow> sk_scan P d (i + m) n | Some k \<Rightarrow> Some k)"
proof (induction m arbitrary: i)
  case (Suc m)
  show ?case using Suc [of "Suc i"] by (simp split: option.split)
qed simp

lemma sk_scan_None: "sk_scan P d i n = None \<longleftrightarrow> (\<forall>j. i \<le> j \<and> j < i + n \<longrightarrow> \<not> P (d ! j))"
proof (induction n arbitrary: i)
  case (Suc n)
  have "(\<forall>j. i \<le> j \<and> j < i + Suc n \<longrightarrow> \<not> P (d ! j)) \<longleftrightarrow> \<not> P (d ! i) \<and> (\<forall>j. Suc i \<le> j \<and> j < Suc i + n \<longrightarrow> \<not> P (d ! j))"
    by (metis Suc_leD Suc_leI add_Suc add_Suc_right le_add1 le_eq_less_or_eq less_add_Suc1)
  with Suc show ?case by simp
qed auto

lemma sk_scan_first_index: "n + i \<le> length d \<Longrightarrow> sk_scan P d i n = map_option ((+) i) (first_index P (take n (drop i d)))"
proof (induction n arbitrary: i)
  case (Suc n)
  then have "take (Suc n) (drop i d) = d ! i # take n (drop (Suc i) d)"
    by (simp add: Cons_nth_drop_Suc [symmetric])
  with Suc show ?case by (auto simp: option.map_comp comp_def intro!: option.map_cong)
qed simp

text \<open>On an interval where the sign of the comparison never decreases to the left, binary search
  is the linear scan.\<close>

definition signs_ok :: "('b \<Rightarrow> int) \<Rightarrow> 'b list \<Rightarrow> nat \<Rightarrow> nat \<Rightarrow> bool" where
  "signs_ok f d lo hi \<longleftrightarrow>
     (\<forall>i j. lo \<le> i \<and> i \<le> j \<and> j < hi \<longrightarrow>
        (f (d ! j) > 0 \<longrightarrow> f (d ! i) > 0) \<and> (f (d ! i) < 0 \<longrightarrow> f (d ! j) < 0))"

lemma signs_ok_sub: "signs_ok f d lo hi \<Longrightarrow> lo \<le> lo' \<Longrightarrow> hi' \<le> hi \<Longrightarrow> signs_ok f d lo' hi'"
  unfolding signs_ok_def by (meson le_trans less_le_trans)

lemma signs_okD:
  assumes "signs_ok f d lo hi" "lo \<le> i" "i \<le> j" "j < hi"
  shows "f (d ! j) > 0 \<Longrightarrow> f (d ! i) > 0" "f (d ! i) < 0 \<Longrightarrow> f (d ! j) < 0"
  using assms unfolding signs_ok_def by blast+

lemma sk_bsearch_scan:
  "signs_ok f d lo hi \<Longrightarrow> sk_bsearch f d lo hi = sk_scan (\<lambda>e. f e = 0) d lo (hi - lo)"
proof (induction f d lo hi rule: sk_bsearch.induct)
  case (1 f d lo hi)
  show ?case
  proof (cases "lo < hi")
    case True
    define mid where "mid = lo + (hi - lo - 1) div 2"
    have mid: "lo \<le> mid" "mid < hi" using True by (auto simp: mid_def)
    note step = sk_bsearch.simps [of f d lo hi, folded mid_def] and IH = 1(1-3) [OF True mid_def refl]
    have split: "sk_scan P d lo (hi - lo) =
        (case sk_scan P d lo (k - lo) of None \<Rightarrow> sk_scan P d k (hi - k) | Some m \<Rightarrow> Some m)"
      if "lo \<le> k" "k \<le> hi" for k P
    proof -
      have k: "k - lo + (hi - k) = hi - lo" "lo + (k - lo) = k" using that by simp_all
      show ?thesis using sk_scan_append [of P d lo "k - lo" "hi - k"] by (simp only: k)
    qed
    consider (low) "f (d ! mid) > 0" | (high) "f (d ! mid) < 0" | (hit) "f (d ! mid) = 0" by linarith
    then show ?thesis
    proof cases
      case low
      have none: "sk_scan (\<lambda>e. f e = 0) d lo (mid + 1 - lo) = None"
        unfolding sk_scan_None using signs_okD(1) [OF "1.prems", of _ mid] mid low by fastforce
      have "sk_bsearch f d (mid + 1) hi = sk_scan (\<lambda>e. f e = 0) d (mid + 1) (hi - (mid + 1))"
        using low signs_ok_sub [OF "1.prems"] mid by (intro IH(1)) auto
      then show ?thesis using split [of "mid + 1"] none mid True low by (simp add: step Let_def)
    next
      case high
      have none: "sk_scan (\<lambda>e. f e = 0) d mid (hi - mid) = None"
        unfolding sk_scan_None using signs_okD(2) [OF "1.prems", of mid] mid high by fastforce
      have "sk_bsearch f d lo mid = sk_scan (\<lambda>e. f e = 0) d lo (mid - lo)"
        using high signs_ok_sub [OF "1.prems"] mid by (intro IH(2)) auto
      then show ?thesis using split [of mid] none mid True high by (simp add: step Let_def split: option.split)
    next
      case hit
      show ?thesis
      proof (cases "hi - lo = 1")
        case one: True
        then have "mid = lo" by (simp add: mid_def)
        then show ?thesis using hit one True by (simp add: step Let_def)
      next
        case False
        have "sk_scan (\<lambda>e. f e = 0) d lo (mid + 1 - lo) \<noteq> None" using mid hit by (auto simp: sk_scan_None)
        moreover have "sk_bsearch f d lo (mid + 1) = sk_scan (\<lambda>e. f e = 0) d lo (mid + 1 - lo)"
          using hit False signs_ok_sub [OF "1.prems"] mid by (intro IH(3)) auto
        ultimately show ?thesis using split [of "mid + 1"] mid True hit False by (auto simp: step Let_def)
      qed
    qed
  qed (simp add: sk_bsearch.simps)
qed

context comparator
begin

lemma le_fun: "le = (\<lambda>a b. cmp a b \<le> 0)"
  by (intro ext) (rule le_def)

lemma qsort_in_order: "sorted_wrt (\<lambda>a b. cmp a b \<le> 0) (qsort cmp xs)"
  using sorted_qsort unfolding le_fun .

lemma sorted_signs:
  assumes "sorted_wrt (\<lambda>a b. cmp a b \<le> 0) xs" "i \<le> j" "j < length xs"
  shows "cmp p (xs ! j) > 0 \<Longrightarrow> cmp p (xs ! i) > 0" "cmp p (xs ! i) < 0 \<Longrightarrow> cmp p (xs ! j) < 0"
proof -
  have ij: "cmp (xs ! i) (xs ! j) \<le> 0"
    using assms le_total [of "xs ! i" "xs ! i"] sorted_wrt_nth_less [OF assms(1), of i j] by (cases "i = j") (auto simp: le_def)
  show "cmp p (xs ! j) > 0 \<Longrightarrow> cmp p (xs ! i) > 0"
    using cmp_trans [OF _ ij, of p] by fastforce
  show "cmp p (xs ! i) < 0 \<Longrightarrow> cmp p (xs ! j) < 0"
    using cmp_trans [OF ij, of p] cmp_flip [of p "xs ! i"] cmp_flip [of p "xs ! j"] by fastforce
qed

end

section \<open>Every operation keeps the invariants\<close>

lemma sorted_wrt_delete: "sorted_wrt P xs \<Longrightarrow> sorted_wrt P (take i xs @ drop (Suc i) xs)"
proof (cases "i < length xs")
  case True
  assume "sorted_wrt P xs"
  then have "sorted_wrt P (take i xs @ xs ! i # drop (Suc i) xs)" using id_take_nth_drop [OF True] by simp
  then show ?thesis by (auto simp: sorted_wrt_append)
qed simp

lemma sk_insert_keeps:
  assumes "stack_ok s" "sorted_ok call_cmp s" "sk_insert al (Some s) p pos = (n, Some s')"
  shows "stack_ok s' \<and> sorted_ok call_cmp s'"
proof (cases "n = 0")
  case True
  then show ?thesis using sk_insert_fails [of al s p pos "Some s'"] assms by simp
next
  case False
  with sk_insert_list [OF assms(1,3)] show ?thesis by (auto simp: sorted_ok_def)
qed

lemma sk_delete_keeps:
  assumes "stack_ok s" "sorted_ok call_cmp s" "sk_delete (Some s) pos = (x, Some s')"
  shows "stack_ok s' \<and> sorted_ok call_cmp s'"
proof (cases "pos < length (sk_list s)")
  case True
  from sk_delete_state [OF assms(1,3) True] assms(2) show ?thesis
    by (auto simp: sorted_ok_def sorted_wrt_delete split: option.splits)
next
  case False
  with assms show ?thesis by (simp add: sk_delete_list)
qed

lemma sk_zero_keeps:
  assumes "stack_ok s" "sorted_ok call_cmp s" "sk_zero (Some s) = Some s'"
  shows "stack_ok s' \<and> sorted_ok call_cmp s'"
  using assms by (auto simp: sk_zero_def stack_ok_def sorted_ok_def split: if_splits)

lemma sk_sort_list:
  assumes "stack_ok s" "st_comp s = Some c" "\<not> st_sorted s"
  shows "\<exists>s'. sk_sort call_cmp (Some s) = Some s' \<and> stack_ok s' \<and> st_sorted s' \<and> st_comp s' = Some c \<and>
    sk_list s' = qsort (call_cmp c) (sk_list s)"
proof -
  have "st_num s < 2 \<Longrightarrow> qsort (call_cmp c) (sk_list s) = sk_list s"
    using length_sk_list [OF assms(1)] by (intro qsort_short) simp
  with assms show ?thesis by (auto simp: sk_sort_def sk_list_def stack_ok_def)
qed

lemma sk_sort_keeps:
  assumes "stack_ok s" "sorted_ok call_cmp s" "sk_sort call_cmp (Some s) = Some s'" "\<forall>c. comparator (call_cmp c)"
  shows "stack_ok s' \<and> sorted_ok call_cmp s'"
proof (cases "st_comp s")
  case None
  then show ?thesis using assms by (simp add: sk_sort_def)
next
  case (Some c)
  have c: "comparator (call_cmp c)" using assms(4) by simp
  show ?thesis
  proof (cases "st_sorted s")
    case True
    then show ?thesis using assms Some by (simp add: sk_sort_def)
  next
    case False
    from sk_sort_list [OF assms(1) Some False, of call_cmp] assms(3) comparator.qsort_in_order [OF c, of "sk_list s"]
    show ?thesis by (auto simp: sorted_ok_def)
  qed
qed

text \<open>Searching a stack whose flag can be trusted gives the first match, by either method.\<close>

definition matches :: "('c \<Rightarrow> 'a option \<Rightarrow> 'a option \<Rightarrow> int) \<Rightarrow> 'c option \<Rightarrow> 'a option \<Rightarrow> 'a option \<Rightarrow> bool" where
  "matches call_cmp c p e \<longleftrightarrow>
     (case c of None \<Rightarrow> e = p | Some cmpf \<Rightarrow> p \<noteq> None \<and> call_cmp cmpf p e = 0)"

lemma first_index_False: "\<forall>x \<in> set xs. \<not> P x \<Longrightarrow> first_index P xs = None"
  by (induction xs) auto

lemma sk_scan_list: "stack_ok s \<Longrightarrow> sk_scan P (st_data s) 0 (st_num s) = first_index P (sk_list s)"
  by (simp add: sk_scan_first_index stack_ok_def sk_list_def option.map_ident_strong)

lemma sk_bsearch_list:
  assumes "stack_ok s" "comparator (call_cmp c)" "sorted_wrt (\<lambda>a b. call_cmp c a b \<le> 0) (sk_list s)"
  shows "sk_bsearch (call_cmp c p) (st_data s) 0 (st_num s) = first_index (\<lambda>e. call_cmp c p e = 0) (sk_list s)"
proof -
  have nth: "sk_list s ! i = st_data s ! i" if "i < st_num s" for i using that by (simp add: sk_list_def)
  have "signs_ok (call_cmp c p) (st_data s) 0 (st_num s)"
    unfolding signs_ok_def
    using comparator.sorted_signs [OF assms(2,3)] nth length_sk_list [OF assms(1)]
    by (metis le_less_trans)
  from sk_bsearch_scan [OF this] sk_scan_list [OF assms(1)] show ?thesis by simp
qed

lemma sk_find_first_match:
  assumes "stack_ok s" "sorted_ok call_cmp s" "\<forall>c. comparator (call_cmp c)"
  shows "sk_find call_cmp (Some s) p = first_index (matches call_cmp (st_comp s) p) (sk_list s)"
proof (cases "st_comp s")
  case None
  then have "matches call_cmp (st_comp s) p = (\<lambda>e. e = p)" by (simp add: matches_def fun_eq_iff)
  then show ?thesis using assms(1) None by (simp add: sk_find_def sk_scan_list)
next
  case (Some c)
  show ?thesis
  proof (cases "p = None")
    case True
    then show ?thesis using Some by (simp add: sk_find_def matches_def first_index_False)
  next
    case False
    have m: "matches call_cmp (st_comp s) p = (\<lambda>e. call_cmp c p e = 0)"
      using Some False by (simp add: matches_def fun_eq_iff)
    show ?thesis
    proof (cases "st_sorted s")
      case True
      then show ?thesis using assms False Some sk_bsearch_list [of s call_cmp c p]
        unfolding m by (auto simp: sk_find_def sk_is_sorted_def sorted_ok_def)
    next
      case ns: False
      then show ?thesis using assms False Some unfolding m by (auto simp: sk_find_def sk_is_sorted_def sk_scan_list)
    qed
  qed
qed

section \<open>Copies\<close>

text \<open>The slots copied one by one, or the copies made before the first one that failed.\<close>

fun copy_slots :: "('a \<Rightarrow> 'a option) \<Rightarrow> 'a option list \<Rightarrow> 'a list + 'a option list" where
  "copy_slots copy [] = Inr []"
| "copy_slots copy (None # xs) =
     (case copy_slots copy xs of Inl made \<Rightarrow> Inl made | Inr ys \<Rightarrow> Inr (None # ys))"
| "copy_slots copy (Some x # xs) =
     (case copy x of
        None \<Rightarrow> Inl []
      | Some y \<Rightarrow>
          (case copy_slots copy xs of Inl made \<Rightarrow> Inl (y # made) | Inr ys \<Rightarrow> Inr (Some y # ys)))"

abbreviation non_null :: "'a option list \<Rightarrow> 'a list" where
  "non_null xs \<equiv> List.map_filter id xs"

lemma map_filter_prefix: "List.map_filter (\<lambda>j. (us @ ys) ! j) [0..<length us] = non_null us"
proof -
  have "List.map_filter (\<lambda>j. (us @ ys) ! j) [0..<length us] = List.map_filter id (map (\<lambda>j. (us @ ys) ! j) [0..<length us])"
    by (simp add: List.map_filter_def filter_map comp_def)
  also have "map (\<lambda>j. (us @ ys) ! j) [0..<length us] = us"
    by (rule nth_equalityI) (auto simp: nth_append)
  finally show ?thesis .
qed

lemma sk_copy_loop_slots:
  "sk_copy_loop copy (us @ xs @ ys) (length us) (length xs) =
     (case copy_slots copy xs of Inl made \<Rightarrow> Inl (non_null us @ made) | Inr zs \<Rightarrow> Inr (us @ zs @ ys))"
proof (induction xs arbitrary: us)
  case (Cons x xs)
  have app: "us @ (x # xs) @ ys = (us @ [x]) @ xs @ ys" for x by simp
  show ?case
  proof (cases x)
    case None
    then show ?thesis using Cons [of "us @ [x]"]
      by (simp add: List.map_filter_def split: sum.split)
  next
    case (Some a)
    show ?thesis
    proof (cases "copy a")
      case None
      then show ?thesis using Some map_filter_prefix [of us "x # xs @ ys"] by simp
    next
      case c: (Some b)
      then show ?thesis using Some Cons [of "us @ [Some b]"]
        by (simp add: List.map_filter_def split: sum.split)
    qed
  qed
qed simp

lemma sk_dup_list:
  assumes "stack_ok s" "sk_dup al (Some s) = Some s'"
  shows "stack_ok s' \<and> sk_list s' = sk_list s \<and> st_num s' = st_num s \<and> st_sorted s' = st_sorted s \<and>
    st_comp s' = st_comp s \<and> st_data s' = sk_list s @ replicate (st_num_alloc s - st_num s) None"
  using assms by (auto simp: sk_dup_def stack_ok_def sk_list_def split: if_splits)

text \<open>The slots of a copy correspond one by one; a copy function keeps the order when elements
  in order have copies in order, for every comparison function and NULL included.\<close>

definition copy_of :: "('a \<Rightarrow> 'a option) \<Rightarrow> 'a option \<Rightarrow> 'a option \<Rightarrow> bool" where
  "copy_of copy p q \<longleftrightarrow> (case p of None \<Rightarrow> q = None | Some x \<Rightarrow> q = copy x \<and> q \<noteq> None)"

definition copy_keeps_order ::
  "('c \<Rightarrow> 'a option \<Rightarrow> 'a option \<Rightarrow> int) \<Rightarrow> ('a \<Rightarrow> 'a option) \<Rightarrow> bool" where
  "copy_keeps_order call_cmp copy \<longleftrightarrow>
     (\<forall>c p q p' q'. copy_of copy p p' \<and> copy_of copy q q' \<and> call_cmp c p q \<le> 0 \<longrightarrow> call_cmp c p' q' \<le> 0)"

lemma copy_slots_all2: "copy_slots copy xs = Inr zs \<Longrightarrow> list_all2 (copy_of copy) xs zs"
  by (induction copy xs arbitrary: zs rule: copy_slots.induct)
    (auto simp: copy_of_def split: sum.splits option.splits)

lemma copy_slots_sorted:
  assumes "copy_slots copy xs = Inr zs" "copy_keeps_order call_cmp copy"
    "sorted_wrt (\<lambda>a b. call_cmp c a b \<le> 0) xs"
  shows "sorted_wrt (\<lambda>a b. call_cmp c a b \<le> 0) zs"
proof -
  from copy_slots_all2 [OF assms(1)] have l: "length zs = length xs"
    and n: "\<And>i. i < length xs \<Longrightarrow> copy_of copy (xs ! i) (zs ! i)" by (auto simp: list_all2_conv_all_nth)
  show ?thesis
    unfolding sorted_wrt_iff_nth_less
  proof (intro allI impI)
    fix i j assume ij: "i < j" "j < length zs"
    then have "call_cmp c (xs ! i) (xs ! j) \<le> 0" using assms(3) l by (auto simp: sorted_wrt_iff_nth_less)
    with n [of i] n [of j] ij l assms(2) show "call_cmp c (zs ! i) (zs ! j) \<le> 0"
      unfolding copy_keeps_order_def by (metis less_trans)
  qed
qed

lemma sk_deep_copy_list:
  assumes "stack_ok s" "sk_deep_copy al copy (Some s) = (Some s', freed)"
  shows "stack_ok s' \<and> copy_slots copy (sk_list s) = Inr (sk_list s') \<and> freed = [] \<and>
    st_comp s' = st_comp s \<and> st_sorted s' = st_sorted s"
proof -
  let ?pad = "replicate (st_num_alloc s - st_num s) None"
  from assms(2) obtain r where d: "sk_dup al (Some s) = Some r"
    by (auto simp: sk_deep_copy_def split: option.splits)
  note r = sk_dup_list [OF assms(1) d]
  have loop: "sk_copy_loop copy (st_data r) 0 (st_num r) =
      (case copy_slots copy (sk_list s) of Inl made \<Rightarrow> Inl made | Inr zs \<Rightarrow> Inr (zs @ ?pad))"
    using sk_copy_loop_slots [of copy "[]" "sk_list s" ?pad] r length_sk_list [OF assms(1)]
    by (simp add: List.map_filter_def split: sum.split)
  obtain zs where zs: "copy_slots copy (sk_list s) = Inr zs"
    using assms(2) d loop by (cases "copy_slots copy (sk_list s)") (auto simp: sk_deep_copy_def)
  have "length zs = st_num s"
    using list_all2_lengthD [OF copy_slots_all2 [OF zs]] length_sk_list [OF assms(1)] by simp
  with assms d loop r zs show ?thesis by (auto simp: sk_deep_copy_def stack_ok_def sk_list_def)
qed

section \<open>Reachable stacks\<close>

text \<open>A call on a stack, as the client sees it; after \<open>sk_dup\<close> and \<open>sk_deep_copy\<close> the client
  goes on with the copy.  \<open>sk_set\<close> and a deep copy that changes the order leave the flag as it
  was, so they are steps only while the flag is clear.\<close>

inductive sk_step :: "('c \<Rightarrow> 'a option \<Rightarrow> 'a option \<Rightarrow> int) \<Rightarrow> ('a, 'c) stack \<Rightarrow> ('a, 'c) stack \<Rightarrow> bool"
  for call_cmp where
  step_insert: "sk_insert al (Some s) p pos = (n, Some s') \<Longrightarrow> sk_step call_cmp s s'"
| step_push: "sk_push al (Some s) p = (n, Some s') \<Longrightarrow> sk_step call_cmp s s'"
| step_delete: "sk_delete (Some s) pos = (x, Some s') \<Longrightarrow> sk_step call_cmp s s'"
| step_delete_ptr: "sk_delete_ptr (Some s) p = (x, Some s') \<Longrightarrow> sk_step call_cmp s s'"
| step_shift: "sk_shift (Some s) = (x, Some s') \<Longrightarrow> sk_step call_cmp s s'"
| step_pop: "sk_pop (Some s) = (x, Some s') \<Longrightarrow> sk_step call_cmp s s'"
| step_zero: "sk_zero (Some s) = Some s' \<Longrightarrow> sk_step call_cmp s s'"
| step_sort: "sk_sort call_cmp (Some s) = Some s' \<Longrightarrow> sk_step call_cmp s s'"
| step_set_cmp: "sk_set_cmp_func s c = (old, s') \<Longrightarrow> sk_step call_cmp s s'"
| step_dup: "sk_dup al (Some s) = Some s' \<Longrightarrow> sk_step call_cmp s s'"
| step_deep_copy: "sk_deep_copy al copy (Some s) = (Some s', freed) \<Longrightarrow>
    copy_keeps_order call_cmp copy \<or> \<not> sk_is_sorted (Some s) \<Longrightarrow> sk_step call_cmp s s'"
| step_set: "sk_set (Some s) i v = (x, Some s') \<Longrightarrow> \<not> sk_is_sorted (Some s) \<Longrightarrow> sk_step call_cmp s s'"

lemma sk_step_keeps:
  assumes "sk_step call_cmp s s'" "\<forall>c. comparator (call_cmp c)" "stack_ok s" "sorted_ok call_cmp s"
  shows "stack_ok s' \<and> sorted_ok call_cmp s'"
  using assms
proof (induction rule: sk_step.induct)
  case (step_insert al s p pos n s')
  show ?case by (rule sk_insert_keeps [OF step_insert(3,4,1)])
next
  case (step_push al s p n s')
  then show ?case using sk_insert_keeps [OF step_push(3,4)] by (simp add: sk_push_def)
next
  case (step_delete s pos x s')
  show ?case by (rule sk_delete_keeps [OF step_delete(3,4,1)])
next
  case (step_delete_ptr s p x s')
  then show ?case using sk_delete_keeps [OF step_delete_ptr(3,4)]
    by (auto simp: sk_delete_ptr_def split: option.splits)
next
  case (step_shift s x s')
  then show ?case using sk_delete_keeps [OF step_shift(3,4)] by (auto simp: sk_shift_def split: if_splits)
next
  case (step_pop s x s')
  then show ?case using sk_delete_keeps [OF step_pop(3,4)] by (auto simp: sk_pop_def split: if_splits)
next
  case (step_zero s s')
  show ?case by (rule sk_zero_keeps [OF step_zero(3,4,1)])
next
  case (step_sort s s')
  show ?case by (rule sk_sort_keeps [OF step_sort(3,4,1,2)])
next
  case (step_set_cmp s c old s')
  then show ?case
    by (auto simp: sk_set_cmp_func_def stack_ok_def sorted_ok_def sk_list_def split: if_splits option.splits)
next
  case (step_dup al s s')
  then show ?case using sk_dup_list [of s al s'] by (auto simp: sorted_ok_def split: option.splits)
next
  case (step_deep_copy al copy s s' freed)
  note d = sk_deep_copy_list [OF step_deep_copy(4,1)]
  have "sorted_ok call_cmp s'"
  proof (cases "st_sorted s")
    case True
    with step_deep_copy(2,5) obtain c where "copy_keeps_order call_cmp copy" "st_comp s = Some c"
      "sorted_wrt (\<lambda>a b. call_cmp c a b \<le> 0) (sk_list s)"
      by (auto simp: sk_is_sorted_def sorted_ok_def split: option.splits)
    with d copy_slots_sorted [of copy "sk_list s" "sk_list s'" call_cmp c] show ?thesis by (simp add: sorted_ok_def)
  qed (use d in \<open>simp add: sorted_ok_def\<close>)
  with d show ?case by simp
next
  case (step_set s i v x s')
  then show ?case
    by (auto simp: sk_set_def sk_is_sorted_def stack_ok_def sorted_ok_def split: if_splits)
qed

lemma sk_reachable_keeps:
  assumes "(sk_step call_cmp)\<^sup>*\<^sup>* s0 s" "sk_new al c = Some s0" "\<forall>c. comparator (call_cmp c)"
  shows "stack_ok s \<and> sorted_ok call_cmp s"
  using assms(1)
proof (induction rule: rtranclp_induct)
  case base
  then show ?case using assms(2) by (auto simp: sk_new_def stack_ok_def sorted_ok_def kMinSize_def split: if_splits)
next
  case (step s s')
  then show ?case using sk_step_keeps [OF step(2) assms(3)] by simp
qed

section \<open>Operations on the list of the elements\<close>

text \<open>The call returned \<open>x\<close> and left a stack of the elements \<open>l\<close>.\<close>

definition becomes :: "'x \<times> ('a, 'c) stack option \<Rightarrow> 'x \<Rightarrow> 'a option list \<Rightarrow> bool" where
  "becomes r x l \<longleftrightarrow> fst r = x \<and> (case snd r of None \<Rightarrow> False | Some s \<Rightarrow> stack_ok s \<and> sk_list s = l)"

lemma sk_insert_becomes:
  assumes "stack_ok s"
  shows "sk_insert al (Some s) p pos = (0, Some s) \<and> \<not> ((\<forall>m. al m) \<and> length (sk_list s) < 2 ^ 59) \<or>
    becomes (sk_insert al (Some s) p pos) (length (sk_list s) + 1) (take pos (sk_list s) @ p # drop pos (sk_list s))"
proof -
  obtain n r where e: "sk_insert al (Some s) p pos = (n, r)" by fastforce
  show ?thesis
  proof (cases "n = 0")
    case True
    with sk_insert_fails [of al s p pos r] e sk_grow_total [OF assms, of al] length_sk_list [OF assms]
    show ?thesis by auto
  next
    case False
    from sk_insert_list [OF assms e this] show ?thesis by (auto simp: e becomes_def)
  qed
qed

lemma sk_push_becomes:
  assumes "stack_ok s"
  shows "sk_push al (Some s) p = (0, Some s) \<and> \<not> ((\<forall>m. al m) \<and> length (sk_list s) < 2 ^ 59) \<or>
    becomes (sk_push al (Some s) p) (length (sk_list s) + 1) (sk_list s @ [p])"
  using sk_insert_becomes [OF assms, of al p "st_num s"] length_sk_list [OF assms] by (simp add: sk_push_def)

lemma sk_delete_becomes:
  assumes "stack_ok s"
  shows "if pos < length (sk_list s)
    then becomes (sk_delete (Some s) pos) (sk_list s ! pos) (take pos (sk_list s) @ drop (Suc pos) (sk_list s))
    else sk_delete (Some s) pos = (None, Some s)"
  using sk_delete_some [OF assms, of pos] sk_delete_list [OF assms, of pos] by (auto simp: becomes_def)

lemma first_index_remove1:
  "first_index (\<lambda>e. e = p) xs = None \<and> p \<notin> set xs \<or>
   (\<exists>i. first_index (\<lambda>e. e = p) xs = Some i \<and> i < length xs \<and> xs ! i = p \<and> p \<in> set xs \<and>
     remove1 p xs = take i xs @ drop (Suc i) xs)"
  by (induction xs) auto

lemma sk_delete_ptr_becomes:
  assumes "stack_ok s"
  shows "if p \<in> set (sk_list s) then becomes (sk_delete_ptr (Some s) p) p (remove1 p (sk_list s))
    else sk_delete_ptr (Some s) p = (None, Some s)"
proof -
  have d: "sk_delete_ptr (Some s) p =
      (case first_index (\<lambda>e. e = p) (sk_list s) of None \<Rightarrow> (None, Some s) | Some i \<Rightarrow> sk_delete (Some s) i)"
    by (simp add: sk_delete_ptr_def sk_scan_list [OF assms])
  from first_index_remove1 [of p "sk_list s"] show ?thesis
    using sk_delete_becomes [OF assms] by (auto simp: d split: if_splits)
qed

lemma sk_pop_becomes:
  assumes "stack_ok s"
  shows "if sk_list s = [] then sk_pop (Some s) = (None, Some s)
    else becomes (sk_pop (Some s)) (last (sk_list s)) (butlast (sk_list s))"
  using sk_delete_becomes [OF assms, of "st_num s - 1"] length_sk_list [OF assms]
  by (auto simp: sk_pop_def last_conv_nth butlast_conv_take)

lemma sk_shift_becomes:
  assumes "stack_ok s"
  shows "if sk_list s = [] then sk_shift (Some s) = (None, Some s)
    else becomes (sk_shift (Some s)) (hd (sk_list s)) (tl (sk_list s))"
  using sk_delete_becomes [OF assms, of 0] length_sk_list [OF assms]
  by (auto simp: sk_shift_def hd_conv_nth drop_Suc)

lemma sk_index_becomes:
  assumes "stack_ok s"
  shows "sk_value (Some s) pos = (if pos < length (sk_list s) then sk_list s ! pos else None)"
    and "if pos < length (sk_list s) then becomes (sk_set (Some s) pos p) p ((sk_list s)[pos := p])
      else sk_set (Some s) pos p = (None, Some s)"
    and "sk_num (Some s) = length (sk_list s)"
    and "\<exists>s'. sk_zero (Some s) = Some s' \<and> stack_ok s' \<and> sk_list s' = []"
proof -
  note l = length_sk_list [OF assms]
  show "sk_value (Some s) pos = (if pos < length (sk_list s) then sk_list s ! pos else None)"
    by (simp add: sk_value_def l) (simp add: sk_list_def)
  show "if pos < length (sk_list s) then becomes (sk_set (Some s) pos p) p ((sk_list s)[pos := p])
      else sk_set (Some s) pos p = (None, Some s)"
    using assms by (auto simp: sk_set_def l becomes_def stack_ok_def) (simp add: sk_list_def take_update_swap)
  show "sk_num (Some s) = length (sk_list s)" by (simp add: sk_num_def l)
  show "\<exists>s'. sk_zero (Some s) = Some s' \<and> stack_ok s' \<and> sk_list s' = []"
    using assms by (auto simp: sk_zero_def stack_ok_def sk_list_def)
qed

section \<open>Properties\<close>

text \<open>C10: On every stack reached from a new one by any of the calls of stack.c, searching returns the
  index of the first element that matches, whether the stack is flagged as sorted (binary search)
  or not (linear scan), and with or without a comparison function.  The exceptions are written
  into the steps: on a stack flagged as sorted, \<open>sk_set\<close> and a deep copy whose copies do not
  compare like the originals leave the flag set on elements out of order, and are not steps.\<close>

theorem sk_find_reachable:
  assumes "sk_new al c = Some s0" "(sk_step call_cmp)\<^sup>*\<^sup>* s0 s" "\<forall>c. comparator (call_cmp c)"
  shows "sk_find call_cmp (Some s) p = first_index (matches call_cmp (st_comp s) p) (sk_list s)"
  using sk_find_first_match [of s call_cmp p] sk_reachable_keeps [OF assms(2,1,3)] assms(3) by simp

text \<open>Integers compared by absolute value, NULL first, as an example of a comparison function.\<close>

definition int_key :: "int option \<Rightarrow> int" where
  "int_key p = (case p of None \<Rightarrow> -1 | Some x \<Rightarrow> \<bar>x\<bar>)"

definition int_cmp :: "unit \<Rightarrow> int option \<Rightarrow> int option \<Rightarrow> int" where
  "int_cmp c p q = int_key p - int_key q"

lemma int_cmp_comparator: "comparator (int_cmp c)"
  by unfold_locales (auto simp: int_cmp_def)

lemma sk_find_reachable_witness:
  "sk_find int_cmp
     (sk_sort int_cmp (snd (sk_push (\<lambda>_. True) (snd (sk_push (\<lambda>_. True) (sk_new (\<lambda>_. True) (Some ())) (Some 5))) (Some (-3)))))
     (Some 3) = Some 0"
proof -
  let ?al = "\<lambda>_ :: nat. True"
  define s1 :: "(int, unit) stack" where
    "s1 = \<lparr>st_num = 1, st_data = [Some 5, None, None, None], st_sorted = False, st_num_alloc = 4, st_comp = Some ()\<rparr>"
  define s2 :: "(int, unit) stack" where
    "s2 = \<lparr>st_num = 2, st_data = [Some 5, Some (-3), None, None], st_sorted = False, st_num_alloc = 4, st_comp = Some ()\<rparr>"
  define s3 :: "(int, unit) stack" where
    "s3 = \<lparr>st_num = 2, st_data = [Some (-3), Some 5, None, None], st_sorted = True, st_num_alloc = 4, st_comp = Some ()\<rparr>"
  define s0 :: "(int, unit) stack" where
    s0: "s0 = \<lparr>st_num = 0, st_data = [None, None, None, None], st_sorted = False, st_num_alloc = 4, st_comp = Some ()\<rparr>"
  have "replicate 4 None = [None, None, None, None :: int option]" by (simp add: eval_nat_numeral)
  then have new: "sk_new ?al (Some ()) = Some s0" by (simp add: sk_new_def OPENSSL_malloc_def kMinSize_def s0)
  have p1: "sk_push ?al (Some s0) (Some 5) = (1, Some s1)"
    by (simp add: s0 s1_def sk_push_def sk_insert_def sk_grow_def)
  have p2: "sk_push ?al (Some s1) (Some (-3)) = (2, Some s2)"
    by (simp add: s1_def s2_def sk_push_def sk_insert_def sk_grow_def)
  have p3: "sk_sort int_cmp (Some s2) = Some s3"
    by (simp add: s2_def s3_def sk_sort_def int_cmp_def int_key_def numeral_2_eq_2)
  have "(sk_step int_cmp)\<^sup>*\<^sup>* s0 s3"
    using step_push [OF p1] step_push [OF p2] step_sort [OF p3] by (meson r_into_rtranclp rtranclp_trans)
  from sk_find_reachable [OF new this, of "Some 3"] int_cmp_comparator
  have "sk_find int_cmp (Some s3) (Some 3) = Some 0"
    by (simp add: s3_def sk_list_def matches_def int_cmp_def int_key_def)
  then show ?thesis by (simp add: new p1 p2 p3)
qed

text \<open>C27: On the list of its elements a stack is a list.  Insertion puts the pointer at the given index,
  or at the end when the index is larger, and push puts it at the end; either returns the new
  length, or 0 with the stack unchanged, and that only for want of memory.  Deletion at any
  index, deletion of a pointer, pop and shift remove and return the element there, and return
  NULL with the stack unchanged when there is none.  Indexing, replacing (which returns the
  pointer stored), counting and emptying are those of lists, NULL being the answer out of
  range.\<close>

theorem sk_refines_list:
  assumes "stack_ok s"
  shows "(sk_insert al (Some s) p pos = (0, Some s) \<and> \<not> ((\<forall>m. al m) \<and> length (sk_list s) < 2 ^ 59) \<or>
      becomes (sk_insert al (Some s) p pos) (length (sk_list s) + 1) (take pos (sk_list s) @ p # drop pos (sk_list s))) \<and>
    (sk_push al (Some s) p = (0, Some s) \<and> \<not> ((\<forall>m. al m) \<and> length (sk_list s) < 2 ^ 59) \<or>
      becomes (sk_push al (Some s) p) (length (sk_list s) + 1) (sk_list s @ [p])) \<and>
    (if pos < length (sk_list s)
      then becomes (sk_delete (Some s) pos) (sk_list s ! pos) (take pos (sk_list s) @ drop (Suc pos) (sk_list s))
      else sk_delete (Some s) pos = (None, Some s)) \<and>
    (if p \<in> set (sk_list s) then becomes (sk_delete_ptr (Some s) p) p (remove1 p (sk_list s))
      else sk_delete_ptr (Some s) p = (None, Some s)) \<and>
    (if sk_list s = [] then sk_pop (Some s) = (None, Some s)
      else becomes (sk_pop (Some s)) (last (sk_list s)) (butlast (sk_list s))) \<and>
    (if sk_list s = [] then sk_shift (Some s) = (None, Some s)
      else becomes (sk_shift (Some s)) (hd (sk_list s)) (tl (sk_list s))) \<and>
    sk_value (Some s) pos = (if pos < length (sk_list s) then sk_list s ! pos else None) \<and>
    (if pos < length (sk_list s) then becomes (sk_set (Some s) pos p) p ((sk_list s)[pos := p])
      else sk_set (Some s) pos p = (None, Some s)) \<and>
    sk_num (Some s) = length (sk_list s) \<and>
    (\<exists>s'. sk_zero (Some s) = Some s' \<and> stack_ok s' \<and> sk_list s' = [])"
  by (intro conjI sk_insert_becomes [OF assms] sk_push_becomes [OF assms] sk_delete_becomes [OF assms]
      sk_delete_ptr_becomes [OF assms] sk_pop_becomes [OF assms] sk_shift_becomes [OF assms]
      sk_index_becomes [OF assms])

lemma sk_refines_list_witness:
  "let s = \<lparr>st_num = 2, st_data = [Some 5, Some 6, None, None], st_sorted = True, st_num_alloc = 4, st_comp = None\<rparr>
     :: (int, unit) stack
   in becomes (sk_push (\<lambda>_. True) (Some s) (Some 7)) 3 [Some 5, Some 6, Some 7] \<and>
     becomes (sk_delete (Some s) 0) (Some 5) [Some 6] \<and> sk_delete (Some s) 2 = (None, Some s) \<and>
     becomes (sk_pop (Some s)) (Some 6) [Some 5] \<and> becomes (sk_delete_ptr (Some s) (Some 6)) (Some 6) [Some 5]"
proof -
  let ?s = "\<lparr>st_num = 2, st_data = [Some 5, Some 6, None, None], st_sorted = True, st_num_alloc = 4, st_comp = None\<rparr>
     :: (int, unit) stack"
  have ok: "stack_ok ?s" by (simp add: stack_ok_def)
  have l: "sk_list ?s = [Some 5, Some 6]" by (simp add: sk_list_def numeral_2_eq_2)
  note r = sk_refines_list [OF ok, unfolded l]
  have "becomes (sk_push (\<lambda>_. True) (Some ?s) (Some 7)) 3 [Some 5, Some 6, Some 7]"
    using r [of "\<lambda>_. True" "Some 7"] by (simp add: numeral_3_eq_3)
  moreover have "becomes (sk_delete (Some ?s) 0) (Some 5) [Some 6]" "sk_delete (Some ?s) 2 = (None, Some ?s)"
    using r [of "\<lambda>_. True" "Some 7" 0] r [of "\<lambda>_. True" "Some 7" 2] by (simp_all add: numeral_2_eq_2)
  moreover have "becomes (sk_pop (Some ?s)) (Some 6) [Some 5]" "becomes (sk_delete_ptr (Some ?s) (Some 6)) (Some 6) [Some 5]"
    using r [of "\<lambda>_. True" "Some 6"] by simp_all
  ultimately show ?thesis unfolding Let_def by blast
qed

text \<open>Sorting a stack that has a comparison function leaves the same elements in order and sets the
  flag; a stack already flagged, or without a comparison function, is left alone.\<close>

theorem sk_sort_sorts:
  assumes "stack_ok s" "sorted_ok call_cmp s" "\<forall>c. comparator (call_cmp c)"
  shows "\<exists>s'. sk_sort call_cmp (Some s) = Some s' \<and> mset (sk_list s') = mset (sk_list s) \<and>
    (st_comp s = None \<or> st_sorted s \<longrightarrow> s' = s) \<and>
    (\<forall>c. st_comp s = Some c \<longrightarrow> st_sorted s' \<and> sorted_wrt (\<lambda>a b. call_cmp c a b \<le> 0) (sk_list s'))"
proof (cases "st_comp s")
  case None
  then show ?thesis by (simp add: sk_sort_def)
next
  case (Some c)
  show ?thesis
  proof (cases "st_sorted s")
    case True
    then show ?thesis using Some assms(2) by (auto simp: sk_sort_def sorted_ok_def)
  next
    case False
    have "comparator (call_cmp c)" using assms(3) by simp
    from comparator.qsort_in_order [OF this, of "sk_list s"] sk_sort_list [OF assms(1) Some False, of call_cmp]
    show ?thesis using Some False by auto
  qed
qed

lemma sk_sort_sorts_witness:
  "\<exists>s'. sk_sort int_cmp (Some \<lparr>st_num = 2, st_data = [Some 5, Some (-3), None, None], st_sorted = False,
       st_num_alloc = 4, st_comp = Some ()\<rparr>) = Some s' \<and> st_sorted s' \<and> sk_list s' = [Some (-3), Some 5]"
proof -
  let ?s = "\<lparr>st_num = 2, st_data = [Some 5, Some (-3), None, None], st_sorted = False, st_num_alloc = 4, st_comp = Some ()\<rparr>"
  have "stack_ok ?s" "sorted_ok int_cmp ?s" by (simp_all add: stack_ok_def sorted_ok_def)
  from sk_sort_sorts [OF this] int_cmp_comparator show ?thesis
    by (auto simp: sk_sort_def int_cmp_def int_key_def sk_list_def numeral_2_eq_2)
qed

text \<open>C28: A deep copy either copies every element, NULL staying NULL, or fails; it fails after a failed
  allocation with nothing to release, or at the first element whose copy fails, and then it has
  released exactly the copies made before.\<close>

theorem sk_deep_copy_spec:
  assumes "stack_ok s"
  shows "case sk_deep_copy al copy (Some s) of
      (Some s', freed) \<Rightarrow> freed = [] \<and> stack_ok s' \<and> copy_slots copy (sk_list s) = Inr (sk_list s') \<and>
        st_comp s' = st_comp s \<and> st_sorted s' = st_sorted s
    | (None, freed) \<Rightarrow> sk_dup al (Some s) = None \<and> freed = [] \<or> copy_slots copy (sk_list s) = Inl freed"
proof (cases "sk_dup al (Some s)")
  case None
  then show ?thesis by (simp add: sk_deep_copy_def)
next
  case (Some r)
  note r = sk_dup_list [OF assms Some]
  let ?pad = "replicate (st_num_alloc s - st_num s) None"
  have loop: "sk_copy_loop copy (st_data r) 0 (st_num r) =
      (case copy_slots copy (sk_list s) of Inl made \<Rightarrow> Inl made | Inr zs \<Rightarrow> Inr (zs @ ?pad))"
    using sk_copy_loop_slots [of copy "[]" "sk_list s" ?pad] r length_sk_list [OF assms]
    by (simp add: List.map_filter_def split: sum.split)
  have len: "length zs = length xs" if "copy_slots copy xs = Inr zs" for xs zs
    using that by (induction copy xs arbitrary: zs rule: copy_slots.induct) (auto split: sum.splits option.splits)
  show ?thesis
  proof (cases "copy_slots copy (sk_list s)")
    case (Inl made)
    then show ?thesis using Some loop by (simp add: sk_deep_copy_def)
  next
    case (Inr zs)
    then show ?thesis using Some loop r len [OF Inr] length_sk_list [OF assms] assms
      by (auto simp: sk_deep_copy_def stack_ok_def sk_list_def)
  qed
qed

lemma sk_deep_copy_spec_witness:
  "sk_deep_copy (\<lambda>_. True) (\<lambda>x. if x = 3 then None else Some (x + 1)) (Some (\<lparr>st_num = 3,
     st_data = [Some 1, None, Some 3, None], st_sorted = False, st_num_alloc = 4, st_comp = None\<rparr> :: (int, unit) stack)) =
   (None, [2])"
proof -
  let ?s = "\<lparr>st_num = 3, st_data = [Some 1, None, Some 3, None], st_sorted = False, st_num_alloc = 4, st_comp = None\<rparr> :: (int, unit) stack"
  let ?f = "\<lambda>x. if x = 3 then None else Some (x + 1 :: int)"
  have "stack_ok ?s" by (simp add: stack_ok_def)
  note c = sk_deep_copy_spec [OF this, of "\<lambda>_. True" ?f]
  have "copy_slots ?f (sk_list ?s) = Inl [2]" by (simp add: sk_list_def numeral_3_eq_3)
  moreover have "sk_dup (\<lambda>_. True) (Some ?s) \<noteq> None" by (simp add: sk_dup_def OPENSSL_malloc_def)
  ultimately show ?thesis using c by (auto split: prod.splits option.splits)
qed

end
