(* ===== verification/Lhash.thy ===== *)
theory Lhash
  imports Mem
begin

text \<open>
  The hash tables of \<open>crypto/lhash/lhash.c\<close>: an array of chains that grows and shrinks with
  the number of items.  A chain is the list of its items; the pointer to a pointer that
  \<open>get_next_ptr_and_hash\<close> returns is the split of a chain at the item it points to.  The
  contract of the hash and comparison functions is the locale \<open>hash_contract\<close>, under which
  the table is a finite set of elements that are pairwise different for the comparison.
  \<open>crypto/conf/conf.c\<close> provides the functions the locale is interpreted on.
\<close>

section \<open>The code\<close>

text \<open>\<open>'d\<close> is the type of the data pointers; \<open>hash\<close> and \<open>cmp\<close> below stand for
  \<open>call_hash_func (lh->hash, \<cdot>)\<close> and \<open>call_cmp_func (lh->comp, \<cdot>, \<cdot>)\<close>.\<close>

record 'd lhash_item =
  it_data :: 'd
  it_hash :: u32

record 'd lhash =
  lh_items :: nat
  lh_buckets :: "'d lhash_item list list"
  lh_num_buckets :: nat
  lh_callback_depth :: nat

definition kMinNumBuckets :: nat where "kMinNumBuckets = 16"
definition kMaxAverageChainLength :: nat where "kMaxAverageChainLength = 2"
definition kMinAverageChainLength :: nat where "kMinAverageChainLength = 1"

abbreviation (input) sizeof_lhash :: nat where "sizeof_lhash \<equiv> 48"
abbreviation (input) sizeof_lhash_item :: nat where "sizeof_lhash_item \<equiv> 24"
abbreviation (input) sizeof_item_ptr :: nat where "sizeof_item_ptr \<equiv> 8"
abbreviation (input) UINT_MAX :: nat where "UINT_MAX \<equiv> 0xffffffff"

definition OPENSSL_lh_new :: "allocator \<Rightarrow> 'd lhash option" where
  "OPENSSL_lh_new al =
     (if \<not> OPENSSL_malloc al sizeof_lhash then None
      else if \<not> OPENSSL_malloc al (sizeof_item_ptr * kMinNumBuckets) then None
      else Some \<lparr>lh_items = 0, lh_buckets = replicate kMinNumBuckets [],
                 lh_num_buckets = kMinNumBuckets, lh_callback_depth = 0\<rparr>)"

definition OPENSSL_lh_num_items :: "'d lhash \<Rightarrow> nat" where
  "OPENSSL_lh_num_items lh = lh_items lh"

text \<open>The walk along a chain: the items before the match, and the match with what follows it.\<close>

fun chain_split :: "('d \<Rightarrow> bool) \<Rightarrow> 'd lhash_item list \<Rightarrow> 'd lhash_item list \<times> 'd lhash_item list" where
  "chain_split matches [] = ([], [])"
| "chain_split matches (cur # rest) =
     (if matches (it_data cur) then ([], cur # rest)
      else case chain_split matches rest of (before, found) \<Rightarrow> (cur # before, found))"

text \<open>The bucket, the items before \<open>*next_ptr\<close> and the chain \<open>*next_ptr\<close> points to.\<close>

type_synonym 'd next_ptr = "nat \<times> 'd lhash_item list \<times> 'd lhash_item list"

definition get_next_ptr_and_hash ::
  "('d \<Rightarrow> u32) \<Rightarrow> ('d \<Rightarrow> 'd \<Rightarrow> int) \<Rightarrow> 'd lhash \<Rightarrow> 'd \<Rightarrow> 'd next_ptr \<times> u32" where
  "get_next_ptr_and_hash hash cmp lh d =
     (let h = hash d; i = unat h mod lh_num_buckets lh
      in ((i, chain_split (\<lambda>x. cmp x d = 0) (lh_buckets lh ! i)), h))"

definition get_next_ptr_by_key :: "'d lhash \<Rightarrow> 'k \<Rightarrow> u32 \<Rightarrow> ('k \<Rightarrow> 'd \<Rightarrow> int) \<Rightarrow> 'd next_ptr" where
  "get_next_ptr_by_key lh key key_hash cmp_key =
     (let i = unat key_hash mod lh_num_buckets lh
      in (i, chain_split (\<lambda>x. cmp_key key x = 0) (lh_buckets lh ! i)))"

definition OPENSSL_lh_retrieve :: "('d \<Rightarrow> u32) \<Rightarrow> ('d \<Rightarrow> 'd \<Rightarrow> int) \<Rightarrow> 'd lhash \<Rightarrow> 'd \<Rightarrow> 'd option" where
  "OPENSSL_lh_retrieve hash cmp lh d =
     (case get_next_ptr_and_hash hash cmp lh d of
        ((_, _, []), _) \<Rightarrow> None | ((_, _, item # _), _) \<Rightarrow> Some (it_data item))"

definition OPENSSL_lh_retrieve_key :: "'d lhash \<Rightarrow> 'k \<Rightarrow> u32 \<Rightarrow> ('k \<Rightarrow> 'd \<Rightarrow> int) \<Rightarrow> 'd option" where
  "OPENSSL_lh_retrieve_key lh key key_hash cmp_key =
     (case get_next_ptr_by_key lh key key_hash cmp_key of
        (_, _, []) \<Rightarrow> None | (_, _, item # _) \<Rightarrow> Some (it_data item))"

text \<open>The two nested loops: each item is pushed to the front of its new chain.\<close>

definition rebucket_item :: "nat \<Rightarrow> 'd lhash_item list list \<Rightarrow> 'd lhash_item \<Rightarrow> 'd lhash_item list list" where
  "rebucket_item n new_buckets cur =
     (let new_bucket = unat (it_hash cur) mod n
      in new_buckets[new_bucket := cur # new_buckets ! new_bucket])"

definition lh_rebucket :: "allocator \<Rightarrow> nat \<Rightarrow> 'd lhash \<Rightarrow> 'd lhash" where
  "lh_rebucket al new_num_buckets lh =
     (let alloc_size = (sizeof_item_ptr * new_num_buckets) mod SIZE_MODULUS
      in if alloc_size div sizeof_item_ptr \<noteq> new_num_buckets then lh
         else if \<not> OPENSSL_malloc al alloc_size then lh
         else lh\<lparr>lh_num_buckets := new_num_buckets,
                 lh_buckets := foldl (foldl (rebucket_item new_num_buckets))
                                 (replicate new_num_buckets []) (lh_buckets lh)\<rparr>)"

definition lh_maybe_resize :: "allocator \<Rightarrow> 'd lhash \<Rightarrow> 'd lhash" where
  "lh_maybe_resize al lh =
     (if lh_callback_depth lh > 0 then lh
      else let avg_chain_length = lh_items lh div lh_num_buckets lh
           in if avg_chain_length > kMaxAverageChainLength
              then let new_num_buckets = (lh_num_buckets lh * 2) mod SIZE_MODULUS
                   in if new_num_buckets > lh_num_buckets lh then lh_rebucket al new_num_buckets lh else lh
              else if avg_chain_length < kMinAverageChainLength \<and> lh_num_buckets lh > kMinNumBuckets
              then let new_num_buckets = lh_num_buckets lh div 2
                   in lh_rebucket al (if new_num_buckets < kMinNumBuckets then kMinNumBuckets else new_num_buckets) lh
              else lh)"

text \<open>The return value, \<open>*old_data\<close> and the table; the allocator answers for the new item and
  for the array of a resize.\<close>

definition OPENSSL_lh_insert ::
  "allocator \<Rightarrow> ('d \<Rightarrow> u32) \<Rightarrow> ('d \<Rightarrow> 'd \<Rightarrow> int) \<Rightarrow> 'd \<Rightarrow> 'd lhash \<Rightarrow> bool \<times> 'd option \<times> 'd lhash" where
  "OPENSSL_lh_insert al hash cmp d lh =
     (case get_next_ptr_and_hash hash cmp lh d of
        ((i, before, item # rest), _) \<Rightarrow>
          (True, Some (it_data item),
           lh\<lparr>lh_buckets := (lh_buckets lh)[i := before @ item\<lparr>it_data := d\<rparr> # rest]\<rparr>)
      | ((i, before, []), h) \<Rightarrow>
          if \<not> OPENSSL_malloc al sizeof_lhash_item then (False, None, lh)
          else (True, None,
                lh_maybe_resize al
                  (lh\<lparr>lh_buckets := (lh_buckets lh)[i := before @ [\<lparr>it_data = d, it_hash = h\<rparr>]],
                      lh_items := lh_items lh + 1\<rparr>)))"

definition OPENSSL_lh_delete ::
  "allocator \<Rightarrow> ('d \<Rightarrow> u32) \<Rightarrow> ('d \<Rightarrow> 'd \<Rightarrow> int) \<Rightarrow> 'd \<Rightarrow> 'd lhash \<Rightarrow> 'd option \<times> 'd lhash" where
  "OPENSSL_lh_delete al hash cmp d lh =
     (case get_next_ptr_and_hash hash cmp lh d of
        ((i, before, []), _) \<Rightarrow> (None, lh)
      | ((i, before, item # rest), _) \<Rightarrow>
          (Some (it_data item),
           lh_maybe_resize al
             (lh\<lparr>lh_buckets := (lh_buckets lh)[i := before @ rest], lh_items := lh_items lh - 1\<rparr>)))"

text \<open>The callback as a function on the caller's own state: one that does not change the table it
  iterates over.\<close>

definition OPENSSL_lh_doall_arg :: "allocator \<Rightarrow> ('d \<Rightarrow> 's \<Rightarrow> 's) \<Rightarrow> 'd lhash option \<Rightarrow> 's \<Rightarrow> 's \<times> 'd lhash option" where
  "OPENSSL_lh_doall_arg al func lh st =
     (case lh of
        None \<Rightarrow> (st, None)
      | Some t \<Rightarrow>
          let t1 = (if lh_callback_depth t < UINT_MAX then t\<lparr>lh_callback_depth := lh_callback_depth t + 1\<rparr> else t);
              st' = foldl (foldl (\<lambda>s cur. func (it_data cur) s)) st (lh_buckets t1);
              t2 = (if lh_callback_depth t1 < UINT_MAX then t1\<lparr>lh_callback_depth := lh_callback_depth t1 - 1\<rparr> else t1)
          in (st', Some (lh_maybe_resize al t2)))"

section \<open>The contract of the functions\<close>

locale hash_contract =
  fixes hash :: "'d \<Rightarrow> u32" and cmp :: "'d \<Rightarrow> 'd \<Rightarrow> int"
  assumes cmp_refl: "cmp x x = 0"
    and cmp_sym: "cmp x y = 0 \<Longrightarrow> cmp y x = 0"
    and cmp_trans: "cmp x y = 0 \<Longrightarrow> cmp y z = 0 \<Longrightarrow> cmp x z = 0"
    and cmp_hash: "cmp x y = 0 \<Longrightarrow> hash x = hash y"

text \<open>\<open>strcmp\<close> of the C library, on strings given without their terminating NUL.\<close>

fun strcmp :: "bytes \<Rightarrow> bytes \<Rightarrow> int" where
  "strcmp [] [] = 0"
| "strcmp [] (b # bs) = -1"
| "strcmp (a # as) [] = 1"
| "strcmp (a # as) (b # bs) = (if a < b then -1 else if b < a then 1 else strcmp as bs)"

lemma strcmp_eq_0: "strcmp a b = 0 \<longleftrightarrow> a = b"
  by (induction a b rule: strcmp.induct) auto

text \<open>The entries of a configuration; \<open>section\<close> is set on every entry \<open>conf.c\<close> creates.\<close>

record conf_value =
  cv_section :: bytes
  cv_name :: "bytes option"
  cv_value :: "bytes option"

definition conf_value_hash :: "conf_value \<Rightarrow> u32" where
  "conf_value_hash v =
     (let section_hash = OPENSSL_strhash (cv_section v);
          name_hash = (case cv_name v of None \<Rightarrow> 0 | Some n \<Rightarrow> OPENSSL_strhash n)
      in push_bit 2 section_hash XOR name_hash)"

definition conf_value_cmp :: "conf_value \<Rightarrow> conf_value \<Rightarrow> int" where
  "conf_value_cmp a b =
     (let i = (if cv_section a \<noteq> cv_section b then strcmp (cv_section a) (cv_section b) else 0)
      in if i \<noteq> 0 then i
         else (case (cv_name a, cv_name b) of
                 (Some m, Some n) \<Rightarrow> strcmp m n
               | (None, None) \<Rightarrow> 0
               | (None, Some _) \<Rightarrow> -1
               | (Some _, None) \<Rightarrow> 1))"

lemma conf_value_cmp_eq_0: "conf_value_cmp a b = 0 \<longleftrightarrow> cv_section a = cv_section b \<and> cv_name a = cv_name b"
  by (auto simp: conf_value_cmp_def strcmp_eq_0 split: option.splits)

interpretation conf_values: hash_contract conf_value_hash conf_value_cmp
  by unfold_locales (auto simp: conf_value_cmp_eq_0 conf_value_hash_def)

section \<open>Tables as bags of elements\<close>

definition chain_data :: "'d lhash_item list \<Rightarrow> 'd multiset" where
  "chain_data c = image_mset it_data (mset c)"

definition lh_bag :: "'d lhash \<Rightarrow> 'd multiset" where
  "lh_bag lh = chain_data (concat (lh_buckets lh))"

lemma chain_data_simps [simp]:
  "chain_data [] = {#}" "chain_data (x # c) = add_mset (it_data x) (chain_data c)"
  "chain_data (c @ c') = chain_data c + chain_data c'"
  by (simp_all add: chain_data_def)

text \<open>The items of bucket \<open>i\<close> of \<open>n\<close> have their hash cached and belong there.\<close>

definition chain_ok :: "('d \<Rightarrow> u32) \<Rightarrow> nat \<Rightarrow> nat \<Rightarrow> 'd lhash_item list \<Rightarrow> bool" where
  "chain_ok hash n i c \<longleftrightarrow> (\<forall>x \<in> set c. it_hash x = hash (it_data x) \<and> unat (hash (it_data x)) mod n = i)"

definition buckets_ok :: "('d \<Rightarrow> u32) \<Rightarrow> nat \<Rightarrow> 'd lhash_item list list \<Rightarrow> bool" where
  "buckets_ok hash n bs \<longleftrightarrow> length bs = n \<and> (\<forall>i < n. chain_ok hash n i (bs ! i))"

definition lh_ok :: "('d \<Rightarrow> u32) \<Rightarrow> ('d \<Rightarrow> 'd \<Rightarrow> int) \<Rightarrow> 'd lhash \<Rightarrow> bool" where
  "lh_ok hash cmp lh \<longleftrightarrow>
     kMinNumBuckets \<le> lh_num_buckets lh \<and> buckets_ok hash (lh_num_buckets lh) (lh_buckets lh) \<and>
     lh_items lh = size (lh_bag lh) \<and>
     (\<forall>d. size {#x \<in># lh_bag lh. cmp x d = 0#} \<le> 1)"

lemma mset_concat_update:
  "i < length bs \<Longrightarrow> chain_data (concat (bs[i := c])) + chain_data (bs ! i) = chain_data (concat bs) + chain_data c"
proof (induction bs arbitrary: i)
  case (Cons b bs)
  then show ?case by (cases i) (auto simp: ac_simps)
qed simp

lemma chain_split_append: "chain_split P c = (b, r) \<Longrightarrow> c = b @ r"
  by (induction c arbitrary: b r) (auto split: if_splits prod.splits)

lemma chain_split_before: "chain_split P c = (b, r) \<Longrightarrow> x \<in> set b \<Longrightarrow> \<not> P (it_data x)"
  by (induction c arbitrary: b r) (auto split: if_splits prod.splits)

lemma chain_split_found: "chain_split P c = (b, x # r) \<Longrightarrow> P (it_data x)"
  by (induction c arbitrary: b) (auto split: if_splits prod.splits)

lemma buckets_ok_update:
  "buckets_ok hash n bs \<Longrightarrow> chain_ok hash n i c \<Longrightarrow> buckets_ok hash n (bs[i := c])"
  by (cases "i < length bs") (auto simp: buckets_ok_def nth_list_update)

lemma rebucket_item_ok:
  assumes "buckets_ok hash n nb" "0 < n" "it_hash cur = hash (it_data cur)"
  shows "buckets_ok hash n (rebucket_item n nb cur) \<and>
    chain_data (concat (rebucket_item n nb cur)) = add_mset (it_data cur) (chain_data (concat nb))"
proof -
  let ?i = "unat (it_hash cur) mod n"
  have i: "?i < length nb" using assms by (simp add: buckets_ok_def)
  have "chain_ok hash n ?i (nb ! ?i)" using assms(1) i by (auto simp: buckets_ok_def)
  then have "chain_ok hash n ?i (cur # nb ! ?i)" using assms(3) by (auto simp: chain_ok_def)
  moreover have "chain_data (concat (nb[?i := cur # nb ! ?i])) = add_mset (it_data cur) (chain_data (concat nb))"
    using mset_concat_update [OF i, of "cur # nb ! ?i"] by simp
  ultimately show ?thesis using buckets_ok_update [OF assms(1)] by (simp add: rebucket_item_def Let_def)
qed

lemma rebucket_chain_ok:
  assumes "buckets_ok hash n nb" "0 < n" "\<forall>x \<in> set c. it_hash x = hash (it_data x)"
  shows "buckets_ok hash n (foldl (rebucket_item n) nb c) \<and>
    chain_data (concat (foldl (rebucket_item n) nb c)) = chain_data (concat nb) + chain_data c"
  using assms
proof (induction c arbitrary: nb)
  case (Cons x c)
  then show ?case using rebucket_item_ok [of hash n nb x] by simp
qed simp

lemma rebucket_all_ok:
  assumes "buckets_ok hash n nb" "0 < n" "\<forall>c \<in> set bs. \<forall>x \<in> set c. it_hash x = hash (it_data x)"
  shows "buckets_ok hash n (foldl (foldl (rebucket_item n)) nb bs) \<and>
    chain_data (concat (foldl (foldl (rebucket_item n)) nb bs)) = chain_data (concat nb) + chain_data (concat bs)"
  using assms
proof (induction bs arbitrary: nb)
  case (Cons c bs)
  then show ?case using rebucket_chain_ok [of hash n nb c] by (simp add: ac_simps)
qed simp

lemma buckets_ok_item: "buckets_ok hash n bs \<Longrightarrow> c \<in> set bs \<Longrightarrow> x \<in> set c \<Longrightarrow> it_hash x = hash (it_data x)"
  unfolding buckets_ok_def chain_ok_def by (metis in_set_conv_nth)

lemma lh_rebucket_keeps:
  assumes "lh_ok hash cmp lh" "kMinNumBuckets \<le> n"
  shows "lh_ok hash cmp (lh_rebucket al n lh) \<and> lh_bag (lh_rebucket al n lh) = lh_bag lh \<and>
    lh_items (lh_rebucket al n lh) = lh_items lh"
proof -
  have n: "0 < n" using assms(2) by (simp add: kMinNumBuckets_def)
  have "buckets_ok hash n (replicate n [])" by (simp add: buckets_ok_def chain_ok_def)
  moreover have "\<forall>c \<in> set (lh_buckets lh). \<forall>x \<in> set c. it_hash x = hash (it_data x)"
    using assms(1) buckets_ok_item by (fastforce simp: lh_ok_def)
  ultimately have "buckets_ok hash n (foldl (foldl (rebucket_item n)) (replicate n []) (lh_buckets lh)) \<and>
      chain_data (concat (foldl (foldl (rebucket_item n)) (replicate n []) (lh_buckets lh))) = lh_bag lh"
    using rebucket_all_ok [OF _ n] by (fastforce simp: lh_bag_def)
  then show ?thesis using assms by (simp add: lh_rebucket_def Let_def lh_ok_def lh_bag_def)
qed

lemma lh_maybe_resize_keeps:
  assumes "lh_ok hash cmp lh"
  shows "lh_ok hash cmp (lh_maybe_resize al lh) \<and> lh_bag (lh_maybe_resize al lh) = lh_bag lh"
proof -
  have "kMinNumBuckets \<le> lh_num_buckets lh" using assms by (simp add: lh_ok_def)
  then have "kMinNumBuckets \<le> n" if "lh_num_buckets lh < n" for n using that by simp
  then show ?thesis
    using lh_rebucket_keeps [OF assms] assms by (simp add: lh_maybe_resize_def Let_def)
qed

lemma size_filter_add: "size {#y \<in># M. P y#} \<le> size {#y \<in># add_mset x M. P y#}"
  by simp

lemma size_filter_replace:
  assumes "y \<in># M" "P y \<longleftrightarrow> P d"
  shows "size {#x \<in># M - {#y#} + {#d#}. P x#} = size {#x \<in># M. P x#}"
proof -
  obtain N where "M = add_mset y N" using assms(1) by (metis insert_DiffM)
  with assms(2) show ?thesis by simp
qed

context hash_contract
begin

abbreviation ok :: "'d lhash \<Rightarrow> bool" where "ok \<equiv> lh_ok hash cmp"

lemma cmp_cong: "cmp x y = 0 \<Longrightarrow> cmp x z = 0 \<longleftrightarrow> cmp y z = 0"
  using cmp_sym cmp_trans by blast

text \<open>What the search for \<open>d\<close> returns.\<close>

lemma search:
  assumes "ok lh" "get_next_ptr_and_hash hash cmp lh d = ((i, b, r), h)"
  shows "i < length (lh_buckets lh)" "lh_buckets lh ! i = b @ r" "h = hash d" "i = unat (hash d) mod lh_num_buckets lh"
    "chain_ok hash (lh_num_buckets lh) i (b @ r)"
    "r = [] \<Longrightarrow> \<forall>x \<in># lh_bag lh. cmp x d \<noteq> 0"
    "r = item # r' \<Longrightarrow> it_data item \<in># lh_bag lh \<and> cmp (it_data item) d = 0"
proof -
  let ?n = "lh_num_buckets lh"
  from assms(2) have i: "i = unat (hash d) mod ?n" and h: "h = hash d"
    and split: "chain_split (\<lambda>x. cmp x d = 0) (lh_buckets lh ! i) = (b, r)"
    by (auto simp: get_next_ptr_and_hash_def Let_def split: prod.splits)
  have bs: "buckets_ok hash ?n (lh_buckets lh)" and n: "0 < ?n"
    using assms(1) by (auto simp: lh_ok_def kMinNumBuckets_def)
  then show il: "i < length (lh_buckets lh)" by (simp add: i buckets_ok_def)
  show c: "lh_buckets lh ! i = b @ r" by (rule chain_split_append [OF split])
  show "h = hash d" "i = unat (hash d) mod ?n" by (fact h i)+
  show "chain_ok hash ?n i (b @ r)" using bs il c unfolding buckets_ok_def by metis
  show "r = [] \<Longrightarrow> \<forall>x \<in># lh_bag lh. cmp x d \<noteq> 0"
  proof (rule ballI, rule notI)
    fix x assume r: "r = []" and "x \<in># lh_bag lh" and x: "cmp x d = 0"
    then obtain c' it where it: "c' \<in> set (lh_buckets lh)" "it \<in> set c'" "it_data it = x"
      by (auto simp: lh_bag_def chain_data_def)
    then obtain j where "j < ?n" "c' = lh_buckets lh ! j" using bs by (auto simp: in_set_conv_nth buckets_ok_def)
    then have "j = unat (hash x) mod ?n" using bs it by (auto simp: buckets_ok_def chain_ok_def)
    then have "it \<in> set b" using cmp_hash [OF x] it c r \<open>c' = lh_buckets lh ! j\<close> by (simp add: i)
    with chain_split_before [OF split] it x show False by auto
  qed
  show "r = item # r' \<Longrightarrow> it_data item \<in># lh_bag lh \<and> cmp (it_data item) d = 0"
    using chain_split_found [of "\<lambda>x. cmp x d = 0" "lh_buckets lh ! i" b item r'] split c il
      nth_mem [OF il] by (auto simp: lh_bag_def chain_data_def intro!: image_eqI [of _ it_data] bexI [of _ "lh_buckets lh ! i"])
qed

lemma unique:
  assumes "ok lh" "x \<in># lh_bag lh" "y \<in># lh_bag lh" "cmp x d = 0" "cmp y d = 0"
  shows "x = y"
proof (rule ccontr)
  assume "x \<noteq> y"
  with assms(2,3) obtain M where "lh_bag lh = add_mset x (add_mset y M)"
    by (metis insert_DiffM insert_noteq_member)
  with assms(4,5) have "2 \<le> size {#z \<in># lh_bag lh. cmp z d = 0#}" by simp
  moreover have "size {#z \<in># lh_bag lh. cmp z d = 0#} \<le> 1" using assms(1) by (simp only: lh_ok_def)
  ultimately show False by simp
qed

lemma retrieve_iff:
  assumes "ok lh"
  shows "OPENSSL_lh_retrieve hash cmp lh d = Some x \<longleftrightarrow> x \<in># lh_bag lh \<and> cmp x d = 0"
proof -
  obtain i b r h where g: "get_next_ptr_and_hash hash cmp lh d = ((i, b, r), h)" by (metis prod_cases3 surj_pair)
  note s = search [OF assms g]
  show ?thesis
    using g s(6,7) unique [OF assms] by (cases r) (auto simp: OPENSSL_lh_retrieve_def)
qed

lemma insert_keeps:
  assumes "ok lh"
  shows "case OPENSSL_lh_insert al hash cmp d lh of
      (True, Some y, lh') \<Rightarrow> ok lh' \<and> y \<in># lh_bag lh \<and> cmp y d = 0 \<and> lh_bag lh' = lh_bag lh - {#y#} + {#d#}
    | (True, None, lh') \<Rightarrow> ok lh' \<and> (\<forall>x \<in># lh_bag lh. cmp x d \<noteq> 0) \<and> lh_bag lh' = add_mset d (lh_bag lh)
    | (False, y, lh') \<Rightarrow> y = None \<and> lh' = lh \<and> (\<forall>x \<in># lh_bag lh. cmp x d \<noteq> 0) \<and> \<not> (\<forall>m. al m)"
proof -
  obtain i b r h where g: "get_next_ptr_and_hash hash cmp lh d = ((i, b, r), h)" by (metis prod_cases3 surj_pair)
  note s = search [OF assms g]
  have lh: "kMinNumBuckets \<le> lh_num_buckets lh" "buckets_ok hash (lh_num_buckets lh) (lh_buckets lh)"
    "lh_items lh = size (lh_bag lh)" "\<And>e. size {#x \<in># lh_bag lh. cmp x e = 0#} \<le> 1"
    using assms by (auto simp: lh_ok_def)
  show ?thesis
  proof (cases r)
    case Nil
    let ?c = "b @ [\<lparr>it_data = d, it_hash = h\<rparr>]"
    let ?t = "lh\<lparr>lh_buckets := (lh_buckets lh)[i := ?c], lh_items := lh_items lh + 1\<rparr>"
    have bag: "lh_bag ?t = add_mset d (lh_bag lh)"
      using mset_concat_update [OF s(1), of ?c] Nil s(2) by (simp add: lh_bag_def)
    have "size {#x \<in># add_mset d (lh_bag lh). cmp x e = 0#} \<le> 1" for e
    proof (cases "cmp d e = 0")
      case True
      then have "\<forall>x \<in># lh_bag lh. cmp x e \<noteq> 0"
        using s(6) [OF Nil] cmp_sym cmp_trans by blast
      then have "{#x \<in># lh_bag lh. cmp x e = 0#} = {#}" by simp
      then show ?thesis using True by simp
    qed (use lh(4) in simp)
    then have "ok ?t"
      using lh bag s Nil buckets_ok_update [OF lh(2), of i ?c] by (simp add: lh_ok_def chain_ok_def)
    with lh_maybe_resize_keeps [OF this, of al] bag s(6) [OF Nil] g Nil show ?thesis
      by (auto simp: OPENSSL_lh_insert_def OPENSSL_malloc_def)
  next
    case (Cons item r')
    let ?y = "it_data item"
    let ?c = "b @ item\<lparr>it_data := d\<rparr> # r'"
    let ?t = "lh\<lparr>lh_buckets := (lh_buckets lh)[i := ?c]\<rparr>"
    have y: "?y \<in># lh_bag lh" "cmp ?y d = 0" using s(7) [OF Cons] by auto
    have "add_mset ?y (lh_bag ?t) = add_mset d (lh_bag lh)"
      using mset_concat_update [OF s(1), of ?c] Cons s(2) by (simp add: lh_bag_def)
    then have bag: "lh_bag ?t = lh_bag lh - {#?y#} + {#d#}"
      using y(1) by (metis add_mset_add_single add_mset_remove_trivial diff_union_swap2 insert_DiffM)
    have "chain_ok hash (lh_num_buckets lh) i ?c" using s(5) Cons cmp_hash [OF y(2)] by (auto simp: chain_ok_def)
    moreover have "size (lh_bag ?t) = size (lh_bag lh)" using y(1) unfolding bag by (simp add: size_Suc_Diff1)
    moreover have "size {#x \<in># lh_bag ?t. cmp x e = 0#} \<le> 1" for e
      unfolding bag using size_filter_replace [OF y(1), of "\<lambda>x. cmp x e = 0" d] cmp_cong [OF y(2)] lh(4) by simp
    ultimately have "ok ?t" using lh buckets_ok_update [OF lh(2), of i ?c] by (simp add: lh_ok_def)
    with bag y g Cons show ?thesis by (simp add: OPENSSL_lh_insert_def)
  qed
qed

lemma delete_keeps:
  assumes "ok lh"
  shows "case OPENSSL_lh_delete al hash cmp d lh of
      (Some y, lh') \<Rightarrow> ok lh' \<and> y \<in># lh_bag lh \<and> cmp y d = 0 \<and> lh_bag lh' = lh_bag lh - {#y#}
    | (None, lh') \<Rightarrow> lh' = lh \<and> (\<forall>x \<in># lh_bag lh. cmp x d \<noteq> 0)"
proof -
  obtain i b r h where g: "get_next_ptr_and_hash hash cmp lh d = ((i, b, r), h)" by (metis prod_cases3 surj_pair)
  note s = search [OF assms g]
  have lh: "kMinNumBuckets \<le> lh_num_buckets lh" "buckets_ok hash (lh_num_buckets lh) (lh_buckets lh)"
    "lh_items lh = size (lh_bag lh)" "\<And>e. size {#x \<in># lh_bag lh. cmp x e = 0#} \<le> 1"
    using assms by (auto simp: lh_ok_def)
  show ?thesis
  proof (cases r)
    case Nil
    then show ?thesis using g s(6) [OF Nil] by (simp add: OPENSSL_lh_delete_def)
  next
    case (Cons item r')
    let ?y = "it_data item"
    let ?t = "lh\<lparr>lh_buckets := (lh_buckets lh)[i := b @ r'], lh_items := lh_items lh - 1\<rparr>"
    have y: "?y \<in># lh_bag lh" "cmp ?y d = 0" using s(7) [OF Cons] by auto
    have "add_mset ?y (lh_bag ?t) = lh_bag lh"
      using mset_concat_update [OF s(1), of "b @ r'"] Cons s(2) by (simp add: lh_bag_def)
    then have bag: "lh_bag ?t = lh_bag lh - {#?y#}" "lh_bag lh = add_mset ?y (lh_bag ?t)" by (metis add_mset_remove_trivial)+
    have "chain_ok hash (lh_num_buckets lh) i (b @ r')" using s(5) Cons by (auto simp: chain_ok_def)
    moreover have "size {#x \<in># lh_bag ?t. cmp x e = 0#} \<le> 1" for e
      using le_trans [OF size_filter_add lh(4) [of e, unfolded bag(2)]] .
    moreover have "lh_items ?t = size (lh_bag ?t)" using lh(3) bag(2) by simp
    ultimately have "ok ?t" using lh buckets_ok_update [OF lh(2), of i "b @ r'"] by (simp add: lh_ok_def)
    with lh_maybe_resize_keeps [OF this, of al] bag(1) y g Cons show ?thesis by (simp add: OPENSSL_lh_delete_def)
  qed
qed


lemma foldl_foldl: "foldl (foldl f) s xss = foldl f s (concat xss)"
  by (induction xss arbitrary: s) simp_all

lemma doall_keeps:
  assumes "ok lh"
  shows "\<exists>lh'. (\<forall>(func :: 'd \<Rightarrow> 's \<Rightarrow> 's) st. OPENSSL_lh_doall_arg al func (Some lh) st =
      (foldl (\<lambda>s d. func d s) st (map it_data (concat (lh_buckets lh))), Some lh')) \<and>
    ok lh' \<and> lh_bag lh' = lh_bag lh"
proof -
  let ?lh = "if lh_callback_depth lh < UINT_MAX \<and> lh_callback_depth lh + 1 = UINT_MAX
             then lh\<lparr>lh_callback_depth := lh_callback_depth lh + 1\<rparr> else lh"
  have "ok ?lh" "lh_bag ?lh = lh_bag lh" using assms by (auto simp: lh_ok_def lh_bag_def)
  moreover have "OPENSSL_lh_doall_arg al func (Some lh) st =
      (foldl (\<lambda>s d. func d s) st (map it_data (concat (lh_buckets lh))), Some (lh_maybe_resize al ?lh))"
    for func :: "'d \<Rightarrow> 's \<Rightarrow> 's" and st by (auto simp: OPENSSL_lh_doall_arg_def Let_def foldl_foldl foldl_map)
  ultimately obtain t where t: "ok t" "lh_bag t = lh_bag lh"
    "\<forall>(func :: 'd \<Rightarrow> 's \<Rightarrow> 's) st. OPENSSL_lh_doall_arg al func (Some lh) st =
      (foldl (\<lambda>s d. func d s) st (map it_data (concat (lh_buckets lh))), Some (lh_maybe_resize al t))" by blast
  show ?thesis by (rule exI [of _ "lh_maybe_resize al t"]) (simp only: t lh_maybe_resize_keeps [OF t(1), of al] simp_thms)
qed

end

text \<open>Searching by a key, with the key's own hash and comparison, is searching by an element that has
  this key.\<close>

lemma retrieve_key_eq:
  assumes "key_hash = hash d" "\<forall>x. cmp_key key x = 0 \<longleftrightarrow> cmp x d = 0"
  shows "OPENSSL_lh_retrieve_key lh key key_hash cmp_key = OPENSSL_lh_retrieve hash cmp lh d"
proof -
  have p: "(\<lambda>x. cmp_key key x = 0) = (\<lambda>x. cmp x d = 0)" using assms(2) by blast
  have k: "get_next_ptr_by_key lh key key_hash cmp_key = fst (get_next_ptr_and_hash hash cmp lh d)"
    unfolding get_next_ptr_by_key_def get_next_ptr_and_hash_def Let_def assms(1) p fst_conv by (rule refl)
  obtain i b r h where g: "get_next_ptr_and_hash hash cmp lh d = ((i, b, r), h)" by (metis prod_cases3 surj_pair)
  show ?thesis unfolding OPENSSL_lh_retrieve_key_def OPENSSL_lh_retrieve_def k g by (cases r) simp_all
qed

lemma lh_rebucket_items: "lh_items (lh_rebucket al n lh) = lh_items lh"
  unfolding lh_rebucket_def Let_def by (simp split: if_split)

lemma lh_maybe_resize_items: "lh_items (lh_maybe_resize al lh) = lh_items lh"
  unfolding lh_maybe_resize_def Let_def by (simp only: if_distrib [of lh_items] lh_rebucket_items if_cancel)

section \<open>Reachable tables\<close>

text \<open>The calls that change a table; each has the answers of the allocator for that call.\<close>

inductive lh_step :: "(allocator \<Rightarrow> bool) \<Rightarrow> ('d \<Rightarrow> u32) \<Rightarrow> ('d \<Rightarrow> 'd \<Rightarrow> int) \<Rightarrow> 'd lhash \<Rightarrow> 'd lhash \<Rightarrow> bool"
  for allowed hash cmp where
  step_insert: "allowed al \<Longrightarrow> OPENSSL_lh_insert al hash cmp d lh = (r, old, lh') \<Longrightarrow> lh_step allowed hash cmp lh lh'"
| step_delete: "allowed al \<Longrightarrow> OPENSSL_lh_delete al hash cmp d lh = (old, lh') \<Longrightarrow> lh_step allowed hash cmp lh lh'"

lemma lh_new_ok: "OPENSSL_lh_new al = Some lh \<Longrightarrow> lh_ok hash cmp lh \<and> lh_bag lh = {#} \<and> lh_callback_depth lh = 0"
  by (auto simp: OPENSSL_lh_new_def lh_ok_def lh_bag_def buckets_ok_def chain_ok_def kMinNumBuckets_def split: if_splits)

context hash_contract
begin

lemma step_ok:
  assumes "lh_step allowed hash cmp lh lh'" "ok lh"
  shows "ok lh'"
  using assms
proof (induction rule: lh_step.induct)
  case (step_insert al d lh r old lh')
  then show ?case using insert_keeps [OF step_insert(3), where d = d and al = al] by (auto split: bool.splits option.splits)
next
  case (step_delete al d lh old lh')
  then show ?case using delete_keeps [OF step_delete(3), where d = d and al = al] by (auto split: option.splits)
qed

lemma reachable_ok:
  assumes "(lh_step allowed hash cmp)\<^sup>*\<^sup>* lh0 lh" "OPENSSL_lh_new al = Some lh0"
  shows "ok lh"
  using assms(1)
  by (induction rule: rtranclp_induct) (use lh_new_ok [OF assms(2)] step_ok in auto)

lemma bag_distinct:
  assumes "ok lh" "mset xs = lh_bag lh"
  shows "sorted_wrt (\<lambda>x y. cmp x y \<noteq> 0) xs"
proof -
  have "\<forall>d. size {#x \<in># mset xs. cmp x d = 0#} \<le> 1" using assms by (simp add: lh_ok_def)
  then show ?thesis
  proof (induction xs)
    case (Cons x xs)
    have "size {#y \<in># mset xs. cmp y x = 0#} = 0" using spec [OF Cons.prems, of x] by (simp add: cmp_refl)
    then have "\<forall>y \<in> set xs. cmp x y \<noteq> 0" using cmp_sym by auto
    moreover have "size {#y \<in># mset xs. cmp y d = 0#} \<le> 1" for d
      using le_trans [OF size_filter_add spec [OF Cons.prems, of d, unfolded mset.simps]] .
    ultimately show ?case using Cons.IH by simp
  qed simp
qed

text \<open>The table as a partial map from what is looked up to what is found.\<close>

lemma retrieve_eqI:
  assumes "ok lh" "ok lh'" "\<And>x. x \<in># lh_bag lh' \<and> cmp x e = 0 \<longleftrightarrow> x \<in># lh_bag lh \<and> cmp x e = 0"
  shows "OPENSSL_lh_retrieve hash cmp lh' e = OPENSSL_lh_retrieve hash cmp lh e"
  using retrieve_iff [OF assms(1), of e] retrieve_iff [OF assms(2), of e] assms(3) by (metis option.exhaust)

lemma retrieve_None_iff: "ok lh \<Longrightarrow> OPENSSL_lh_retrieve hash cmp lh d = None \<longleftrightarrow> (\<forall>x \<in># lh_bag lh. cmp x d \<noteq> 0)"
  using retrieve_iff [of lh d] by (metis not_None_eq)

lemma insert_retrieve:
  assumes "ok lh" "OPENSSL_lh_insert al hash cmp d lh = (True, old, lh')"
  shows "old = OPENSSL_lh_retrieve hash cmp lh d \<and>
    OPENSSL_lh_retrieve hash cmp lh' e = (if cmp d e = 0 then Some d else OPENSSL_lh_retrieve hash cmp lh e)"
proof (cases old)
  case None
  with insert_keeps [OF assms(1), where d = d and al = al] assms(2)
  have k: "ok lh'" "\<forall>x \<in># lh_bag lh. cmp x d \<noteq> 0" "lh_bag lh' = add_mset d (lh_bag lh)" by simp_all
  have "OPENSSL_lh_retrieve hash cmp lh d = None" using retrieve_None_iff [OF assms(1)] k(2) by simp
  moreover have "OPENSSL_lh_retrieve hash cmp lh' e = OPENSSL_lh_retrieve hash cmp lh e" if "cmp d e \<noteq> 0"
    using k(3) that by (intro retrieve_eqI [OF assms(1) k(1)]) auto
  moreover have "OPENSSL_lh_retrieve hash cmp lh' e = Some d" if "cmp d e = 0"
    using retrieve_iff [OF k(1)] k(3) that by simp
  ultimately show ?thesis using None by simp
next
  case (Some y)
  with insert_keeps [OF assms(1), where d = d and al = al] assms(2)
  have k: "ok lh'" "y \<in># lh_bag lh" "cmp y d = 0" and b: "lh_bag lh' = lh_bag lh - {#y#} + {#d#}" by simp_all
  obtain N where N: "lh_bag lh = add_mset y N" using k(2) by (metis insert_DiffM)
  with b have b: "lh_bag lh' = add_mset d N" by simp
  have "OPENSSL_lh_retrieve hash cmp lh d = Some y" using retrieve_iff [OF assms(1)] k(2,3) by simp
  moreover have "OPENSSL_lh_retrieve hash cmp lh' e = OPENSSL_lh_retrieve hash cmp lh e" if "cmp d e \<noteq> 0"
    using N b that cmp_cong [OF k(3), of e] by (intro retrieve_eqI [OF assms(1) k(1)]) auto
  moreover have "OPENSSL_lh_retrieve hash cmp lh' e = Some d" if "cmp d e = 0"
    using retrieve_iff [OF k(1)] b that by simp
  ultimately show ?thesis using Some by simp
qed

lemma delete_retrieve:
  assumes "ok lh" "OPENSSL_lh_delete al hash cmp d lh = (old, lh')"
  shows "old = OPENSSL_lh_retrieve hash cmp lh d \<and>
    OPENSSL_lh_retrieve hash cmp lh' e = (if cmp d e = 0 then None else OPENSSL_lh_retrieve hash cmp lh e)"
proof (cases old)
  case None
  with delete_keeps [OF assms(1), where d = d and al = al] assms(2) have k: "lh' = lh" "\<forall>x \<in># lh_bag lh. cmp x d \<noteq> 0" by simp_all
  have "\<forall>x \<in># lh_bag lh. cmp x e \<noteq> 0" if "cmp d e = 0" using k(2) that cmp_sym cmp_trans by blast
  moreover have "OPENSSL_lh_retrieve hash cmp lh d = None" using retrieve_None_iff [OF assms(1), of d] k(2) by simp
  ultimately show ?thesis using None k(1) retrieve_None_iff [OF assms(1), of e] by auto
next
  case (Some y)
  with delete_keeps [OF assms(1), where d = d and al = al] assms(2)
  have k: "ok lh'" "y \<in># lh_bag lh" "cmp y d = 0" and b: "lh_bag lh' = lh_bag lh - {#y#}" by simp_all
  obtain N where N: "lh_bag lh = add_mset y N" using k(2) by (metis insert_DiffM)
  with b have b: "lh_bag lh' = N" by simp
  have y: "OPENSSL_lh_retrieve hash cmp lh d = Some y" using retrieve_iff [OF assms(1)] k(2,3) by simp
  moreover have "OPENSSL_lh_retrieve hash cmp lh' e = OPENSSL_lh_retrieve hash cmp lh e" if "cmp d e \<noteq> 0"
    using N b that cmp_cong [OF k(3), of e] by (intro retrieve_eqI [OF assms(1) k(1)]) auto
  moreover have "OPENSSL_lh_retrieve hash cmp lh' e = None" if de: "cmp d e = 0"
  proof -
    have "cmp y e = 0" by (rule cmp_trans [OF k(3) de])
    moreover have "size {#x \<in># add_mset y N. cmp x e = 0#} \<le> 1" using assms(1) unfolding N [symmetric] lh_ok_def by blast
    ultimately have "\<forall>x \<in># N. cmp x e \<noteq> 0" by simp
    then show ?thesis unfolding retrieve_None_iff [OF k(1)] b .
  qed
  ultimately show ?thesis using Some by simp
qed

end


section \<open>The load of a table\<close>

text \<open>Fewer than three items per bucket, and no more buckets than the minimum or the number of items.\<close>

definition balanced :: "'d lhash \<Rightarrow> bool" where
  "balanced lh \<longleftrightarrow> lh_callback_depth lh = 0 \<and> kMinNumBuckets \<le> lh_num_buckets lh \<and>
     lh_items lh < 3 * lh_num_buckets lh \<and> (lh_num_buckets lh = kMinNumBuckets \<or> lh_num_buckets lh \<le> lh_items lh)"

lemma lh_rebucket_sizes:
  assumes "\<forall>m. al m" "n < 2 ^ 60"
  shows "lh_num_buckets (lh_rebucket al n lh) = n \<and> lh_items (lh_rebucket al n lh) = lh_items lh \<and>
    lh_callback_depth (lh_rebucket al n lh) = lh_callback_depth lh"
  using assms by (simp add: lh_rebucket_def Let_def OPENSSL_malloc_def)

lemma balanced_resize_up:
  assumes "\<forall>m. al m" "balanced lh" "lh_items lh < 2 ^ 59" "lh_items t = lh_items lh + 1"
    "lh_num_buckets t = lh_num_buckets lh" "lh_callback_depth t = 0"
  shows "balanced (lh_maybe_resize al t)"
proof -
  let ?n = "lh_num_buckets lh"
  have n: "16 \<le> ?n" "?n < 2 ^ 59" "lh_items t \<le> 3 * ?n"
    using assms(2,3,4) by (auto simp: balanced_def kMinNumBuckets_def)
  show ?thesis
  proof (cases "2 < lh_items t div ?n")
    case True
    then have i: "lh_items t = 3 * ?n" using n less_mult_imp_div_less [of "lh_items t" 3 ?n] by linarith
    have "lh_maybe_resize al t = lh_rebucket al (2 * ?n) t"
      using assms(5,6) True n by (simp add: lh_maybe_resize_def Let_def kMaxAverageChainLength_def mult.commute)
    then show ?thesis using lh_rebucket_sizes [OF assms(1), of "2 * ?n" t] n i assms(6)
      by (simp add: balanced_def kMinNumBuckets_def)
  next
    case False
    then have "lh_items t \<noteq> 3 * ?n" using n(1) by auto
    then have "lh_items t < 3 * ?n" using n(3) by simp
    moreover have "?n = 16 \<or> ?n \<le> lh_items t" using assms(2,4) by (auto simp: balanced_def kMinNumBuckets_def)
    moreover from this have "\<not> (lh_items t div ?n < 1 \<and> 16 < ?n)" using n by (auto simp: div_eq_0_iff)
    ultimately show ?thesis using False assms(5,6) n
      by (auto simp: lh_maybe_resize_def Let_def balanced_def kMaxAverageChainLength_def kMinAverageChainLength_def kMinNumBuckets_def)
  qed
qed

lemma balanced_resize_down:
  assumes "\<forall>m. al m" "balanced lh" "lh_items lh < 2 ^ 59" "lh_items t = lh_items lh - 1"
    "lh_num_buckets t = lh_num_buckets lh" "lh_callback_depth t = 0"
  shows "balanced (lh_maybe_resize al t)"
proof -
  let ?n = "lh_num_buckets lh"
  have n: "16 \<le> ?n" "?n < 2 ^ 59" "lh_items t < 3 * ?n" "?n = 16 \<or> ?n \<le> lh_items t + 1"
    using assms(2,3,4) by (auto simp: balanced_def kMinNumBuckets_def)
  then have a: "\<not> 2 < lh_items t div ?n" using less_mult_imp_div_less [of "lh_items t" 3 ?n] by linarith
  show ?thesis
  proof (cases "lh_items t < ?n \<and> 16 < ?n")
    case True
    let ?m = "if ?n div 2 < 16 then 16 else ?n div 2"
    have "lh_maybe_resize al t = lh_rebucket al ?m t"
      using assms(5,6) True a
      by (simp add: lh_maybe_resize_def Let_def kMaxAverageChainLength_def kMinAverageChainLength_def kMinNumBuckets_def)
    moreover have "?m < 2 ^ 60" "16 \<le> ?m" "lh_items t < 3 * ?m" "?m = 16 \<or> ?m \<le> lh_items t"
      using True n by auto
    ultimately show ?thesis using lh_rebucket_sizes [OF assms(1), of ?m t] assms(6)
      by (simp add: balanced_def kMinNumBuckets_def)
  next
    case False
    then have "\<not> (lh_items t div ?n < 1 \<and> 16 < ?n)" using n(1) by (auto simp: div_eq_0_iff)
    then show ?thesis using False a assms(5,6) n
      by (auto simp: lh_maybe_resize_def Let_def balanced_def kMaxAverageChainLength_def kMinAverageChainLength_def kMinNumBuckets_def)
  qed
qed

lemma lh_step_balanced:
  assumes "lh_step (\<lambda>al. \<forall>m. al m) hash cmp lh lh'" "balanced lh" "lh_items lh < 2 ^ 59"
  shows "balanced lh'"
  using assms
proof (induction rule: lh_step.induct)
  case (step_insert al d lh r old lh')
  obtain i b c h where g: "get_next_ptr_and_hash hash cmp lh d = ((i, b, c), h)" by (metis prod_cases3 surj_pair)
  have "lh_callback_depth lh = 0" using step_insert(3) by (simp add: balanced_def)
  then have "balanced (lh_maybe_resize al (lh\<lparr>lh_buckets := bs, lh_items := lh_items lh + 1\<rparr>))" for bs
    by (intro balanced_resize_up [OF step_insert(1,3,4)]) simp_all
  then show ?case using step_insert(2,3) g
    by (auto simp: OPENSSL_lh_insert_def balanced_def split: list.splits if_splits)
next
  case (step_delete al d lh old lh')
  obtain i b c h where g: "get_next_ptr_and_hash hash cmp lh d = ((i, b, c), h)" by (metis prod_cases3 surj_pair)
  have "lh_callback_depth lh = 0" using step_delete(3) by (simp add: balanced_def)
  then have "balanced (lh_maybe_resize al (lh\<lparr>lh_buckets := bs, lh_items := lh_items lh - 1\<rparr>))" for bs
    by (intro balanced_resize_down [OF step_delete(1,3,4)]) simp_all
  then show ?case using step_delete(2,3) g
    by (auto simp: OPENSSL_lh_delete_def split: list.splits)
qed


section \<open>Properties\<close>

text \<open>C8: On every table reached from a new one, \<open>OPENSSL_lh_retrieve\<close> is a partial map that the calls
  update: an insertion answers with the element it replaces, makes every equal key find the new
  element and leaves every other key alone, or it changes nothing and says so; a deletion answers
  with the element found and makes exactly the equal keys find nothing.\<close>

theorem lh_refines_map:
  assumes "hash_contract hash cmp" "OPENSSL_lh_new al0 = Some lh0" "(lh_step (\<lambda>_. True) hash cmp)\<^sup>*\<^sup>* lh0 lh"
  shows "OPENSSL_lh_retrieve hash cmp lh0 e = None \<and>
    (case OPENSSL_lh_insert al hash cmp d lh of
      (r, old, lh') \<Rightarrow>
        if r then old = OPENSSL_lh_retrieve hash cmp lh d \<and>
          OPENSSL_lh_retrieve hash cmp lh' e = (if cmp d e = 0 then Some d else OPENSSL_lh_retrieve hash cmp lh e)
        else lh' = lh \<and> old = None \<and> OPENSSL_lh_retrieve hash cmp lh d = None \<and> \<not> (\<forall>m. al m)) \<and>
    (case OPENSSL_lh_delete al hash cmp d lh of
      (old, lh') \<Rightarrow> old = OPENSSL_lh_retrieve hash cmp lh d \<and>
        OPENSSL_lh_retrieve hash cmp lh' e = (if cmp d e = 0 then None else OPENSSL_lh_retrieve hash cmp lh e))"
proof -
  note ok = hash_contract.reachable_ok [OF assms(1,3,2)]
  note new = lh_new_ok [OF assms(2), of hash cmp]
  have "OPENSSL_lh_retrieve hash cmp lh0 e = None"
    using hash_contract.retrieve_None_iff [OF assms(1), of lh0 e] new by simp
  moreover obtain r old lh' where ins: "OPENSSL_lh_insert al hash cmp d lh = (r, old, lh')" by (metis prod_cases3)
  moreover obtain old' lh'' where del: "OPENSSL_lh_delete al hash cmp d lh = (old', lh'')" by (metis surj_pair)
  moreover have "\<not> r \<Longrightarrow> lh' = lh \<and> old = None \<and> OPENSSL_lh_retrieve hash cmp lh d = None \<and> \<not> (\<forall>m. al m)"
    using hash_contract.insert_keeps [OF assms(1) ok, where d = d and al = al] hash_contract.retrieve_None_iff [OF assms(1) ok, of d] ins
    by simp
  ultimately show ?thesis
    using hash_contract.insert_retrieve [OF assms(1) ok, of al d old lh' e]
      hash_contract.delete_retrieve [OF assms(1) ok del, of e] by auto
qed

text \<open>Two entries of a configuration, in a table that conf.c's functions hash and compare.\<close>

definition conf_entry :: "byte \<Rightarrow> byte \<Rightarrow> conf_value" where
  "conf_entry n v = \<lparr>cv_section = [97], cv_name = Some [n], cv_value = Some [v]\<rparr>"

definition two_entries :: "conf_value lhash" where
  "two_entries = snd (snd (OPENSSL_lh_insert (\<lambda>_. True) conf_value_hash conf_value_cmp (conf_entry 2 8)
     (snd (snd (OPENSSL_lh_insert (\<lambda>_. True) conf_value_hash conf_value_cmp (conf_entry 1 7)
        (the (OPENSSL_lh_new (\<lambda>_. True))))))))"

lemma two_entries_reached:
  "\<exists>lh0. OPENSSL_lh_new (\<lambda>_. True) = Some lh0 \<and>
     (lh_step (\<lambda>al. \<forall>m. al m) conf_value_hash conf_value_cmp)\<^sup>*\<^sup>* lh0 two_entries"
proof -
  let ?ins = "OPENSSL_lh_insert (\<lambda>_. True) conf_value_hash conf_value_cmp"
  obtain lh0 :: "conf_value lhash" where new: "OPENSSL_lh_new (\<lambda>_. True) = Some lh0"
    by (simp add: OPENSSL_lh_new_def OPENSSL_malloc_def kMinNumBuckets_def)
  have "lh_step (\<lambda>al. \<forall>m. al m) conf_value_hash conf_value_cmp lh (snd (snd (?ins d lh)))" for d lh
    by (rule lh_step.step_insert [of _ "\<lambda>_. True" _ _ d lh "fst (?ins d lh)" "fst (snd (?ins d lh))"]) simp_all
  then have "(lh_step (\<lambda>al. \<forall>m. al m) conf_value_hash conf_value_cmp)\<^sup>*\<^sup>* lh0 two_entries"
    unfolding two_entries_def new option.sel by (meson rtranclp.rtrancl_into_rtrancl r_into_rtranclp)
  with new show ?thesis by blast
qed

lemma lh_step_mono: "(lh_step P hash cmp)\<^sup>*\<^sup>* a b \<Longrightarrow> (\<And>al. P al \<Longrightarrow> Q al) \<Longrightarrow> (lh_step Q hash cmp)\<^sup>*\<^sup>* a b"
  by (erule rtranclp_mono [THEN predicate2D, rotated]) (auto elim!: lh_step.cases intro: lh_step.intros)

lemma lh_refines_map_witness:
  "OPENSSL_lh_retrieve conf_value_hash conf_value_cmp
     (snd (snd (OPENSSL_lh_insert (\<lambda>_. True) conf_value_hash conf_value_cmp (conf_entry 2 9) two_entries)))
     (conf_entry 2 0) = Some (conf_entry 2 9)"
proof -
  obtain lh0 where new: "OPENSSL_lh_new (\<lambda>_. True) = Some lh0"
    and "(lh_step (\<lambda>al. \<forall>m. al m) conf_value_hash conf_value_cmp)\<^sup>*\<^sup>* lh0 two_entries"
    using two_entries_reached by blast
  from lh_step_mono [OF this(2), of "\<lambda>_. True"]
  have "(lh_step (\<lambda>_. True) conf_value_hash conf_value_cmp)\<^sup>*\<^sup>* lh0 two_entries" by simp
  note p = lh_refines_map [OF conf_values.hash_contract_axioms new this, where e = "conf_entry 2 0" and al = "\<lambda>_. True" and d = "conf_entry 2 9"]
  have "conf_value_cmp (conf_entry 2 9) (conf_entry 2 0) = 0" by (simp add: conf_value_cmp_eq_0 conf_entry_def)
  with p show ?thesis by (auto split: prod.splits if_splits)
qed

text \<open>C29: Walking a table that was reached from a new one calls the function once for every element:
  the calls are those of a list of pairwise different elements, as many as the table counts, and
  an element is in it when and only when a lookup finds it.  The walk changes no answer of the table.\<close>

theorem lh_doall_visits:
  assumes "hash_contract hash cmp" "OPENSSL_lh_new al0 = Some lh0" "(lh_step (\<lambda>_. True) hash cmp)\<^sup>*\<^sup>* lh0 lh"
  shows "\<exists>xs lh'. (\<forall>(func :: 'd \<Rightarrow> 's \<Rightarrow> 's) st. OPENSSL_lh_doall_arg al func (Some lh) st = (foldl (\<lambda>s d. func d s) st xs, Some lh')) \<and>
    length xs = OPENSSL_lh_num_items lh \<and> sorted_wrt (\<lambda>x y. cmp x y \<noteq> 0) xs \<and>
    (\<forall>x. x \<in> set xs \<longleftrightarrow> OPENSSL_lh_retrieve hash cmp lh x = Some x) \<and>
    (\<forall>d. OPENSSL_lh_retrieve hash cmp lh' d = OPENSSL_lh_retrieve hash cmp lh d)"
proof -
  note ok = hash_contract.reachable_ok [OF assms(1,3,2)]
  let ?xs = "map it_data (concat (lh_buckets lh))"
  have bag: "mset ?xs = lh_bag lh" by (simp add: lh_bag_def chain_data_def)
  obtain lh' where lh': "\<forall>(func :: 'd \<Rightarrow> 's \<Rightarrow> 's) st. OPENSSL_lh_doall_arg al func (Some lh) st = (foldl (\<lambda>s d. func d s) st ?xs, Some lh')"
      "lh_ok hash cmp lh'" "lh_bag lh' = lh_bag lh"
    using hash_contract.doall_keeps [OF assms(1) ok, of al] by blast
  have "length ?xs = OPENSSL_lh_num_items lh"
    using ok arg_cong [OF bag, of size] unfolding OPENSSL_lh_num_items_def lh_ok_def size_mset by simp
  moreover have "sorted_wrt (\<lambda>x y. cmp x y \<noteq> 0) ?xs"
    by (rule hash_contract.bag_distinct [OF assms(1) ok bag])
  moreover have "x \<in> set ?xs \<longleftrightarrow> OPENSSL_lh_retrieve hash cmp lh x = Some x" for x
    using hash_contract.retrieve_iff [OF assms(1) ok, of x x] hash_contract.cmp_refl [OF assms(1), of x]
    unfolding set_mset_mset [symmetric] bag by blast
  moreover have "OPENSSL_lh_retrieve hash cmp lh' d = OPENSSL_lh_retrieve hash cmp lh d" for d
    by (rule hash_contract.retrieve_eqI [OF assms(1) ok lh'(2)]) (simp add: lh'(3))
  ultimately show ?thesis using lh'(1) by blast
qed


lemma lh_doall_visits_witness:
  "fst (OPENSSL_lh_doall_arg (\<lambda>_. True) (\<lambda>d n. n + 1) (Some two_entries) 0) = OPENSSL_lh_num_items two_entries"
proof -
  obtain lh0 where new: "OPENSSL_lh_new (\<lambda>_. True) = Some lh0"
    and "(lh_step (\<lambda>al. \<forall>m. al m) conf_value_hash conf_value_cmp)\<^sup>*\<^sup>* lh0 two_entries"
    using two_entries_reached by blast
  from lh_step_mono [OF this(2), of "\<lambda>_. True"]
  have "(lh_step (\<lambda>_. True) conf_value_hash conf_value_cmp)\<^sup>*\<^sup>* lh0 two_entries" by simp
  from lh_doall_visits [OF conf_values.hash_contract_axioms new this, where al = "\<lambda>_. True" and 's = nat]
  obtain xs lh' where all: "\<forall>(func :: _ \<Rightarrow> nat \<Rightarrow> nat) st. OPENSSL_lh_doall_arg (\<lambda>_. True) func (Some two_entries) st =
      (foldl (\<lambda>s d. func d s) st xs, Some lh')"
    and "length xs = OPENSSL_lh_num_items two_entries" by blast
  note xs = spec [OF spec [OF all, of "\<lambda>d n. n + 1"], of 0]
  have "foldl (\<lambda>s d. s + 1) n xs = n + length xs" for n :: nat by (induction xs arbitrary: n) simp_all
  with xs \<open>length xs = _\<close> show ?thesis by simp
qed

text \<open>While allocations succeed and fewer than 2^59 elements are stored, a table keeps fewer than
  three elements per bucket on average, and no more buckets than sixteen or one per element.\<close>

theorem lh_load_bounded:
  assumes "OPENSSL_lh_new al0 = Some lh0"
    "(\<lambda>t t'. lh_step (\<lambda>al. \<forall>m. al m) hash cmp t t' \<and> OPENSSL_lh_num_items t < 2 ^ 59)\<^sup>*\<^sup>* lh0 lh"
  shows "OPENSSL_lh_num_items lh < 3 * lh_num_buckets lh \<and>
    16 \<le> lh_num_buckets lh \<and> lh_num_buckets lh \<le> max 16 (OPENSSL_lh_num_items lh)"
proof -
  have "balanced lh0" using assms(1) by (auto simp: OPENSSL_lh_new_def balanced_def kMinNumBuckets_def split: if_splits)
  with assms(2) have "balanced lh"
    by (induction rule: rtranclp_induct) (auto simp: OPENSSL_lh_num_items_def intro: lh_step_balanced)
  then show ?thesis by (auto simp: balanced_def OPENSSL_lh_num_items_def kMinNumBuckets_def)
qed

lemma lh_load_bounded_witness: "lh_num_buckets two_entries = 16"
proof -
  let ?ins = "OPENSSL_lh_insert (\<lambda>_. True) conf_value_hash conf_value_cmp"
  obtain lh0 :: "conf_value lhash" where new: "OPENSSL_lh_new (\<lambda>_. True) = Some lh0" and n0: "lh_items lh0 = 0"
    by (simp add: OPENSSL_lh_new_def OPENSSL_malloc_def kMinNumBuckets_def)
  have items: "lh_items (snd (snd (?ins d lh))) \<le> lh_items lh + 1" for d lh
  proof -
    obtain i b c h where g: "get_next_ptr_and_hash conf_value_hash conf_value_cmp lh d = ((i, b, c), h)" by (metis prod_cases3 surj_pair)
    then show ?thesis
      by (cases c) (auto simp: OPENSSL_lh_insert_def lh_maybe_resize_items)
  qed
  have step: "lh_step (\<lambda>al. \<forall>m. al m) conf_value_hash conf_value_cmp lh (snd (snd (?ins d lh)))" for d lh
    by (rule lh_step.step_insert [of _ "\<lambda>_. True" _ _ d lh "fst (?ins d lh)" "fst (snd (?ins d lh))"]) simp_all
  let ?t1 = "snd (snd (?ins (conf_entry 1 7) lh0))"
  have two: "two_entries = snd (snd (?ins (conf_entry 2 8) ?t1))" by (simp add: two_entries_def new)
  have n: "lh_items ?t1 \<le> 1" "lh_items two_entries \<le> 2" using items [of "conf_entry 1 7" lh0] items [of "conf_entry 2 8" ?t1] n0 two by auto
  let ?R = "\<lambda>t t'. lh_step (\<lambda>al. \<forall>m. al m) conf_value_hash conf_value_cmp t t' \<and> OPENSSL_lh_num_items t < 2 ^ 59"
  have r1: "?R lh0 ?t1" using step [of lh0] n0 by (simp add: OPENSSL_lh_num_items_def)
  have r2: "?R ?t1 two_entries" using step [of ?t1 "conf_entry 2 8", folded two] n by (simp add: OPENSSL_lh_num_items_def)
  have "?R\<^sup>*\<^sup>* lh0 two_entries" by (rule rtranclp.rtrancl_into_rtrancl [OF r_into_rtranclp [of ?R, OF r1] r2])
  from lh_load_bounded [OF new this] n show ?thesis by (simp add: OPENSSL_lh_num_items_def)
qed

end
