(* ===== verification/ConstTime.thy ===== *)
theory ConstTime
  imports Prelude
begin

text \<open>
  The constant-time selection functions of \<open>crypto/internal.h\<close>: masks that are all ones for
  true and zero for false, computed without a branch.  \<open>crypto_word_t\<close> is the 64-bit word;
  the value barriers only stop the compiler and are identities.  The lemmas state each
  function as the comparison it stands for.
\<close>

definition CONSTTIME_TRUE_W :: u64 where "CONSTTIME_TRUE_W = NOT 0"
definition CONSTTIME_FALSE_W :: u64 where "CONSTTIME_FALSE_W = 0"
definition CONSTTIME_TRUE_8 :: byte where "CONSTTIME_TRUE_8 = 0xff"
definition CONSTTIME_FALSE_8 :: byte where "CONSTTIME_FALSE_8 = 0"

definition value_barrier_w :: "u64 \<Rightarrow> u64" where
  "value_barrier_w a = a"

definition constant_time_msb_w :: "u64 \<Rightarrow> u64" where
  "constant_time_msb_w a = 0 - drop_bit (8 * 8 - 1) a"

definition constant_time_lt_w :: "u64 \<Rightarrow> u64 \<Rightarrow> u64" where
  "constant_time_lt_w a b = constant_time_msb_w (a XOR ((a XOR b) OR ((a - b) XOR a)))"

definition constant_time_lt_8 :: "u64 \<Rightarrow> u64 \<Rightarrow> byte" where
  "constant_time_lt_8 a b = ucast (constant_time_lt_w a b)"

definition constant_time_ge_w :: "u64 \<Rightarrow> u64 \<Rightarrow> u64" where
  "constant_time_ge_w a b = NOT (constant_time_lt_w a b)"

definition constant_time_ge_8 :: "u64 \<Rightarrow> u64 \<Rightarrow> byte" where
  "constant_time_ge_8 a b = ucast (constant_time_ge_w a b)"

definition constant_time_is_zero_w :: "u64 \<Rightarrow> u64" where
  "constant_time_is_zero_w a = constant_time_msb_w (NOT a AND (a - 1))"

definition constant_time_is_zero_8 :: "u64 \<Rightarrow> byte" where
  "constant_time_is_zero_8 a = ucast (constant_time_is_zero_w a)"

definition constant_time_eq_w :: "u64 \<Rightarrow> u64 \<Rightarrow> u64" where
  "constant_time_eq_w a b = constant_time_is_zero_w (a XOR b)"

definition constant_time_eq_8 :: "u64 \<Rightarrow> u64 \<Rightarrow> byte" where
  "constant_time_eq_8 a b = ucast (constant_time_eq_w a b)"

text \<open>The conversion of an \<open>int\<close> to \<open>crypto_word_t\<close> extends its sign.\<close>

definition constant_time_eq_int :: "32 word \<Rightarrow> 32 word \<Rightarrow> u64" where
  "constant_time_eq_int a b = constant_time_eq_w (scast a) (scast b)"

definition constant_time_eq_int_8 :: "32 word \<Rightarrow> 32 word \<Rightarrow> byte" where
  "constant_time_eq_int_8 a b = constant_time_eq_8 (scast a) (scast b)"

definition constant_time_select_w :: "u64 \<Rightarrow> u64 \<Rightarrow> u64 \<Rightarrow> u64" where
  "constant_time_select_w msk a b = (value_barrier_w msk AND a) OR (value_barrier_w (NOT msk) AND b)"

definition constant_time_select_8 :: "byte \<Rightarrow> byte \<Rightarrow> byte \<Rightarrow> byte" where
  "constant_time_select_8 msk a b = ucast (constant_time_select_w (ucast msk) (ucast a) (ucast b))"

definition constant_time_select_int :: "u64 \<Rightarrow> 32 word \<Rightarrow> 32 word \<Rightarrow> 32 word" where
  "constant_time_select_int msk a b = ucast (constant_time_select_w msk (scast a) (scast b))"

section \<open>Masks\<close>

lemma bit_63_iff: "bit (w :: u64) 63 \<longleftrightarrow> 2 ^ 63 \<le> unat w"
proof -
  have "unat w < 2 * 2 ^ 63" using unsigned_less [of w] by simp
  then have "unat w div 2 ^ 63 = (if 2 ^ 63 \<le> unat w then 1 else 0)"
    by (auto simp: div_eq_0_iff intro: div_nat_eqI)
  then have "bit (unat w) 63 \<longleftrightarrow> 2 ^ 63 \<le> unat w" by (simp add: bit_iff_odd)
  then show ?thesis by (simp add: bit_unsigned_iff)
qed

lemma msb_mask: "constant_time_msb_w a = (if bit a 63 then - 1 else 0)"
proof -
  have "drop_bit 63 a = (if bit a 63 then 1 else 0)"
  proof (rule bit_word_eqI)
    fix n
    have "bit a (63 + n) \<longleftrightarrow> bit a 63 \<and> n = 0" using bit_imp_le_length [of a "63 + n"] by (cases n) auto
    then show "bit (drop_bit 63 a) n \<longleftrightarrow> bit (if bit a 63 then 1 else 0 :: u64) n" by (simp add: bit_simps)
  qed
  then show ?thesis by (simp add: constant_time_msb_w_def)
qed

lemma lt_bit: "bit (a XOR ((a XOR b) OR ((a - b) XOR a))) 63 \<longleftrightarrow> a < (b :: u64)"
proof -
  have "bit (a - b) 63 \<longleftrightarrow> a < b" if "bit a 63 = bit b 63"
  proof -
    have "unat a < 2 * 2 ^ 63" "unat b < 2 * 2 ^ 63" using unsigned_less [of a] unsigned_less [of b] by simp_all
    with that show ?thesis
      by (auto simp: bit_63_iff unat_sub_if' word_less_nat_alt)
  qed
  moreover have "a < b \<longleftrightarrow> bit b 63" if "bit a 63 \<noteq> bit b 63"
    using that by (auto simp: bit_63_iff word_less_nat_alt)
  ultimately show ?thesis by (auto simp: bit_simps)
qed

lemma is_zero_bit: "bit (NOT a AND (a - 1)) 63 \<longleftrightarrow> a = (0 :: u64)"
proof -
  have "bit (a - 1) 63 \<Longrightarrow> \<not> bit a 63 \<Longrightarrow> a = 0"
    by (auto simp: bit_63_iff unat_sub_if' word_unat_eq_iff split: if_splits)
  then show ?thesis by (auto simp: bit_simps)
qed

lemma constant_time_lt_w_mask: "constant_time_lt_w a b = (if a < b then CONSTTIME_TRUE_W else CONSTTIME_FALSE_W)"
  by (simp add: constant_time_lt_w_def msb_mask lt_bit CONSTTIME_TRUE_W_def CONSTTIME_FALSE_W_def)

lemma constant_time_is_zero_w_mask:
  "constant_time_is_zero_w a = (if a = 0 then CONSTTIME_TRUE_W else CONSTTIME_FALSE_W)"
  by (simp add: constant_time_is_zero_w_def msb_mask is_zero_bit CONSTTIME_TRUE_W_def CONSTTIME_FALSE_W_def)

lemma constant_time_eq_w_mask:
  "constant_time_eq_w a b = (if a = b then CONSTTIME_TRUE_W else CONSTTIME_FALSE_W)"
proof -
  have "a XOR b = 0 \<longleftrightarrow> a = b" by (metis bit.xor_left_self bit.xor_self xor.right_neutral)
  then show ?thesis by (simp add: constant_time_eq_w_def constant_time_is_zero_w_mask)
qed

lemma TRUE_8: "CONSTTIME_TRUE_8 = - 1"
  by (simp add: CONSTTIME_TRUE_8_def)

lemma ucast_mask_8:
  "ucast CONSTTIME_TRUE_W = CONSTTIME_TRUE_8" "ucast CONSTTIME_FALSE_W = CONSTTIME_FALSE_8"
  by (rule bit_word_eqI, auto simp: CONSTTIME_TRUE_W_def CONSTTIME_FALSE_W_def TRUE_8 CONSTTIME_FALSE_8_def bit_simps)

lemma constant_time_eq_8_mask: "constant_time_eq_8 a b = (if a = b then CONSTTIME_TRUE_8 else CONSTTIME_FALSE_8)"
  by (simp add: constant_time_eq_8_def constant_time_eq_w_mask ucast_mask_8)

lemma constant_time_select_8_mask:
  "constant_time_select_8 (if c then CONSTTIME_TRUE_8 else CONSTTIME_FALSE_8) a b = (if c then a else b)"
  by (rule bit_word_eqI)
    (auto simp: constant_time_select_8_def constant_time_select_w_def value_barrier_w_def
      TRUE_8 CONSTTIME_FALSE_8_def bit_simps)

lemma ucast_scast_32: "ucast (scast (a :: 32 word) :: u64) = a"
  by (rule bit_word_eqI) (auto simp: bit_simps)

lemma constant_time_select_w_mask:
  "constant_time_select_w (if c then CONSTTIME_TRUE_W else CONSTTIME_FALSE_W) x y = (if c then x else y)"
  by (simp add: constant_time_select_w_def value_barrier_w_def CONSTTIME_TRUE_W_def CONSTTIME_FALSE_W_def)

lemma constant_time_select_int_mask:
  "constant_time_select_int (if c then CONSTTIME_TRUE_W else CONSTTIME_FALSE_W) i j = (if c then i else j)"
  by (simp add: constant_time_select_int_def constant_time_select_w_mask ucast_scast_32)

lemma scast_32_eq_iff: "(scast (a :: 32 word) :: u64) = scast b \<longleftrightarrow> a = b"
  by (metis ucast_scast_32)

section \<open>Properties\<close>

text \<open>C37: Each mask is the comparison it stands for, on every pair of words, and selecting by a mask is
  a conditional.\<close>

theorem constant_time_masks:
  "constant_time_lt_w a b = (if a < b then CONSTTIME_TRUE_W else CONSTTIME_FALSE_W) \<and>
   constant_time_ge_w a b = (if b \<le> a then CONSTTIME_TRUE_W else CONSTTIME_FALSE_W) \<and>
   constant_time_eq_w a b = (if a = b then CONSTTIME_TRUE_W else CONSTTIME_FALSE_W) \<and>
   constant_time_is_zero_w a = (if a = 0 then CONSTTIME_TRUE_W else CONSTTIME_FALSE_W) \<and>
   constant_time_lt_8 a b = (if a < b then CONSTTIME_TRUE_8 else CONSTTIME_FALSE_8) \<and>
   constant_time_ge_8 a b = (if b \<le> a then CONSTTIME_TRUE_8 else CONSTTIME_FALSE_8) \<and>
   constant_time_eq_8 a b = (if a = b then CONSTTIME_TRUE_8 else CONSTTIME_FALSE_8) \<and>
   constant_time_is_zero_8 a = (if a = 0 then CONSTTIME_TRUE_8 else CONSTTIME_FALSE_8) \<and>
   constant_time_eq_int i j = (if i = j then CONSTTIME_TRUE_W else CONSTTIME_FALSE_W) \<and>
   constant_time_eq_int_8 i j = (if i = j then CONSTTIME_TRUE_8 else CONSTTIME_FALSE_8) \<and>
   constant_time_select_w (constant_time_lt_w a b) x y = (if a < b then x else y) \<and>
   constant_time_select_8 (constant_time_eq_8 a b) u v = (if a = b then u else v) \<and>
   constant_time_select_int (constant_time_is_zero_w a) i j = (if a = 0 then i else j)"
proof -
  have ge: "constant_time_ge_w a b = (if b \<le> a then CONSTTIME_TRUE_W else CONSTTIME_FALSE_W)"
    by (simp add: constant_time_ge_w_def constant_time_lt_w_mask CONSTTIME_TRUE_W_def CONSTTIME_FALSE_W_def not_le)
  show ?thesis
    using ge constant_time_select_8_mask [of "a = b" u v] constant_time_select_w_mask [of "a < b" x y]
      constant_time_select_int_mask [of "a = 0"]
    unfolding constant_time_lt_8_def constant_time_ge_8_def constant_time_is_zero_8_def
      constant_time_eq_int_def constant_time_eq_int_8_def constant_time_lt_w_mask constant_time_eq_w_mask
      constant_time_eq_8_mask constant_time_is_zero_w_mask scast_32_eq_iff
    by (simp add: ucast_mask_8)
qed

end
