(* ===== verification/Base64.thy ===== *)
theory Base64
  imports ConstTime Mem
begin

text \<open>
  Base64 of \<open>crypto/base64/base64.c\<close>: the constant-time conversion of digits, the encoding
  and decoding of a block, and the two streaming interfaces over \<open>EVP_ENCODE_CTX\<close>.  An output
  pointer that advances is the list of the bytes written before it.  The specification is the
  alphabet of RFC 4648 as a list, and the stream of lines of 48 bytes each.
\<close>

section \<open>The code\<close>

subsection \<open>Digits\<close>

definition constant_time_lt_args_8 :: "byte \<Rightarrow> byte \<Rightarrow> byte" where
  "constant_time_lt_args_8 a b =
     (let aw = ucast a; bw = ucast b in ucast (constant_time_msb_w (aw - bw)))"

definition constant_time_in_range_8 :: "byte \<Rightarrow> byte \<Rightarrow> byte \<Rightarrow> byte" where
  "constant_time_in_range_8 a lo hi = constant_time_lt_args_8 (a - lo) (hi - lo + 1)"

definition conv_bin2ascii :: "byte \<Rightarrow> byte" where
  "conv_bin2ascii a0 =
     (let a = a0 AND 0x3f;
          ret = constant_time_select_8 (constant_time_eq_8 (ucast a) 62) 43 47;
          ret = constant_time_select_8 (constant_time_lt_args_8 a 62) (a - 52 + 48) ret;
          ret = constant_time_select_8 (constant_time_lt_args_8 a 52) (a - 26 + 97) ret;
          ret = constant_time_select_8 (constant_time_lt_args_8 a 26) (a + 65) ret
      in ret)"

definition base64_ascii_to_bin :: "byte \<Rightarrow> byte" where
  "base64_ascii_to_bin a =
     (let is_upper = constant_time_in_range_8 a 65 90;
          is_lower = constant_time_in_range_8 a 97 122;
          is_digit = constant_time_in_range_8 a 48 57;
          is_plus = constant_time_eq_8 (ucast a) 43;
          is_slash = constant_time_eq_8 (ucast a) 47;
          is_equals = constant_time_eq_8 (ucast a) 61;
          ret = 0;
          ret = ret OR (is_upper AND (a - 65));
          ret = ret OR (is_lower AND (a - 97 + 26));
          ret = ret OR (is_digit AND (a - 48 + 52));
          ret = ret OR (is_plus AND 62);
          ret = ret OR (is_slash AND 63);
          is_valid = is_upper OR is_lower OR is_digit OR is_plus OR is_slash OR is_equals
      in ret OR NOT is_valid)"

subsection \<open>Encoding\<close>

text \<open>The digits of a group of three bytes, and of the last one or two.\<close>

definition quad_word :: "byte \<Rightarrow> byte \<Rightarrow> byte \<Rightarrow> u32" where
  "quad_word a b c = push_bit 16 (ucast a) OR push_bit 8 (ucast b) OR ucast c"

fun encode_loop :: "bytes \<Rightarrow> bytes" where
  "encode_loop [] = []"
| "encode_loop [a] =
     (let l = push_bit 16 (ucast a :: u32)
      in [conv_bin2ascii (ucast (drop_bit 18 l)), conv_bin2ascii (ucast (drop_bit 12 l)), 61, 61])"
| "encode_loop [a, b] =
     (let l = push_bit 16 (ucast a :: u32) OR push_bit 8 (ucast b)
      in [conv_bin2ascii (ucast (drop_bit 18 l)), conv_bin2ascii (ucast (drop_bit 12 l)),
          conv_bin2ascii (ucast (drop_bit 6 l)), 61])"
| "encode_loop (a # b # c # rest) =
     (let l = quad_word a b c
      in [conv_bin2ascii (ucast (drop_bit 18 l)), conv_bin2ascii (ucast (drop_bit 12 l)),
          conv_bin2ascii (ucast (drop_bit 6 l)), conv_bin2ascii (ucast l)] @ encode_loop rest)"

text \<open>What is written to \<open>dst\<close>, with the NUL, and the value returned.\<close>

definition EVP_EncodeBlock :: "bytes \<Rightarrow> bytes \<times> nat" where
  "EVP_EncodeBlock src = (let dst = encode_loop src in (dst @ [0], length dst))"

definition EVP_EncodedLength :: "nat \<Rightarrow> nat option" where
  "EVP_EncodedLength len =
     (if (len + 2) mod SIZE_MODULUS < len then None
      else let len = (len + 2) mod SIZE_MODULUS div 3
           in if (len * 4) mod SIZE_MODULUS div 4 \<noteq> len then None
              else let len = (len * 4) mod SIZE_MODULUS
                   in if (len + 1) mod SIZE_MODULUS < len then None
                      else Some ((len + 1) mod SIZE_MODULUS))"

record encode_ctx =
  data_used :: nat
  ctx_data :: bytes
  eof_seen :: bool
  error_encountered :: bool

abbreviation (input) sizeof_data :: nat where "sizeof_data \<equiv> 48"
abbreviation (input) sizeof_encode_ctx :: nat where "sizeof_encode_ctx \<equiv> 56"
abbreviation (input) INT_MAX :: nat where "INT_MAX \<equiv> 0x7fffffff"

definition EVP_EncodeInit :: encode_ctx where
  "EVP_EncodeInit = \<lparr>data_used = 0, ctx_data = replicate sizeof_data 0, eof_seen = False, error_encountered = False\<rparr>"

definition EVP_ENCODE_CTX_new :: "allocator \<Rightarrow> encode_ctx option" where
  "EVP_ENCODE_CTX_new al =
     (if \<not> OPENSSL_malloc al sizeof_encode_ctx then None
      else Some \<lparr>data_used = 0, ctx_data = replicate sizeof_data 0, eof_seen = False, error_encountered = False\<rparr>)"

text \<open>The loop over the whole lines of the input: what is written, the total (\<open>None\<close> when it wraps)
  and the input that is left.\<close>

function encode_lines :: "bytes \<Rightarrow> nat \<Rightarrow> bytes \<Rightarrow> bytes \<times> nat option \<times> bytes" where
  "encode_lines out tot inp =
     (if length inp < sizeof_data then (out, Some tot, inp)
      else case EVP_EncodeBlock (take sizeof_data inp) of
        (block, encoded) \<Rightarrow>
          let out' = out @ take encoded block @ [10]
          in if (tot + encoded + 1) mod SIZE_MODULUS < tot then (out', None, drop sizeof_data inp)
             else encode_lines out' ((tot + encoded + 1) mod SIZE_MODULUS) (drop sizeof_data inp))"
  by pat_completeness auto
termination
  by (relation "measure (\<lambda>(out, tot, inp). length inp)") auto

text \<open>The bytes written to \<open>out\<close>, \<open>*out_len\<close>, and the context.\<close>

definition EVP_EncodeUpdate :: "encode_ctx \<Rightarrow> bytes \<Rightarrow> bytes \<times> nat \<times> encode_ctx" where
  "EVP_EncodeUpdate ctx inp =
     (if inp = [] then ([], 0, ctx)
      else if sizeof_data - data_used ctx > length inp
      then ([], 0, ctx\<lparr>ctx_data := copy_at (ctx_data ctx) (data_used ctx) inp,
                     data_used := data_used ctx + length inp\<rparr>)
      else let (out, tot, inp, ctx) =
             (if data_used ctx \<noteq> 0
              then let todo = sizeof_data - data_used ctx;
                       ctx' = ctx\<lparr>ctx_data := copy_at (ctx_data ctx) (data_used ctx) (take todo inp)\<rparr>
                   in case EVP_EncodeBlock (ctx_data ctx') of
                        (block, encoded) \<Rightarrow>
                          (take encoded block @ [10], encoded + 1, drop todo inp, ctx'\<lparr>data_used := 0\<rparr>)
              else ([], 0, inp, ctx))
           in case encode_lines out tot inp of
                (out, None, _) \<Rightarrow> (out @ [0], 0, ctx)
              | (out, Some tot, inp) \<Rightarrow>
                  (out @ [0], if tot > INT_MAX then 0 else tot,
                   ctx\<lparr>ctx_data := copy_at (ctx_data ctx) 0 inp, data_used := length inp\<rparr>))"

definition EVP_EncodeFinal :: "encode_ctx \<Rightarrow> bytes \<times> nat \<times> encode_ctx" where
  "EVP_EncodeFinal ctx =
     (if data_used ctx = 0 then ([], 0, ctx)
      else case EVP_EncodeBlock (take (data_used ctx) (ctx_data ctx)) of
        (block, encoded) \<Rightarrow> (take encoded block @ [10, 0], encoded + 1, ctx\<lparr>data_used := 0\<rparr>))"

subsection \<open>Decoding\<close>

definition EVP_DecodedLength :: "nat \<Rightarrow> nat option" where
  "EVP_DecodedLength len = (if len mod 4 \<noteq> 0 then None else Some ((len div 4) * 3))"

definition EVP_DecodeInit :: encode_ctx where
  "EVP_DecodeInit = \<lparr>data_used = 0, ctx_data = replicate sizeof_data 0, eof_seen = False, error_encountered = False\<rparr>"

text \<open>The bytes of a quad; their number is \<open>*out_num_bytes\<close>.\<close>

definition base64_decode_quad :: "bytes \<Rightarrow> bytes option" where
  "base64_decode_quad inp =
     (let a = base64_ascii_to_bin (inp ! 0); b = base64_ascii_to_bin (inp ! 1);
          c = base64_ascii_to_bin (inp ! 2); d = base64_ascii_to_bin (inp ! 3)
      in if a = 0xff \<or> b = 0xff \<or> c = 0xff \<or> d = 0xff then None
         else let v = push_bit 18 (ucast a) OR push_bit 12 (ucast b) OR push_bit 6 (ucast c) OR (ucast d :: u32);
                  padding_pattern = 8 * of_bool (inp ! 0 = 61) + 4 * of_bool (inp ! 1 = 61) +
                    2 * of_bool (inp ! 2 = 61) + of_bool (inp ! 3 = 61) :: nat
              in if padding_pattern = 0
                 then Some [ucast (drop_bit 16 v), ucast (drop_bit 8 v), ucast v]
                 else if padding_pattern = 1 then Some [ucast (drop_bit 16 v), ucast (drop_bit 8 v)]
                 else if padding_pattern = 3 then Some [ucast (drop_bit 16 v)]
                 else None)"

definition is_b64_space :: "byte \<Rightarrow> bool" where
  "is_b64_space c \<longleftrightarrow> c = 32 \<or> c = 9 \<or> c = 13 \<or> c = 10"

text \<open>The loop over the input; \<open>False\<close> is the return with an error.\<close>

fun decode_loop :: "encode_ctx \<Rightarrow> bytes \<Rightarrow> bytes \<Rightarrow> bool \<times> encode_ctx \<times> bytes" where
  "decode_loop ctx out [] = (True, ctx, out)"
| "decode_loop ctx out (c # cs) =
     (if is_b64_space c then decode_loop ctx out cs
      else if eof_seen ctx then (False, ctx\<lparr>error_encountered := True\<rparr>, out)
      else let ctx = ctx\<lparr>ctx_data := (ctx_data ctx)[data_used ctx := c], data_used := data_used ctx + 1\<rparr>
           in if data_used ctx = 4
              then case base64_decode_quad (ctx_data ctx) of
                     None \<Rightarrow> (False, ctx\<lparr>error_encountered := True\<rparr>, out)
                   | Some bs \<Rightarrow>
                       decode_loop (ctx\<lparr>data_used := 0, eof_seen := eof_seen ctx \<or> length bs < 3\<rparr>) (out @ bs) cs
              else decode_loop ctx out cs)"

text \<open>The return value, what is written, \<open>*out_len\<close>, and the context.\<close>

definition EVP_DecodeUpdate :: "encode_ctx \<Rightarrow> bytes \<Rightarrow> int \<times> bytes \<times> nat \<times> encode_ctx" where
  "EVP_DecodeUpdate ctx inp =
     (if error_encountered ctx then (- 1, [], 0, ctx)
      else case decode_loop ctx [] inp of
        (False, ctx, out) \<Rightarrow> (- 1, out, 0, ctx)
      | (True, ctx, out) \<Rightarrow>
          if length out > INT_MAX then (- 1, out, 0, ctx\<lparr>error_encountered := True\<rparr>)
          else (if eof_seen ctx then 0 else 1, out, length out, ctx))"

definition EVP_DecodeFinal :: "encode_ctx \<Rightarrow> int" where
  "EVP_DecodeFinal ctx = (if error_encountered ctx \<or> data_used ctx \<noteq> 0 then - 1 else 1)"

text \<open>The loop over the quads of a block; a quad cut short must be the last.\<close>

fun decode_quads :: "bytes \<Rightarrow> bytes option" where
  "decode_quads (a # b # c # d # rest) =
     (case base64_decode_quad [a, b, c, d] of
        None \<Rightarrow> None
      | Some bs \<Rightarrow>
          if length bs \<noteq> 3 \<and> rest \<noteq> [] then None
          else case decode_quads rest of None \<Rightarrow> None | Some bs' \<Rightarrow> Some (bs @ bs'))"
| "decode_quads _ = Some []"

text \<open>What the call returns when it succeeds: the bytes it has written.\<close>

definition EVP_DecodeBase64 :: "nat \<Rightarrow> bytes \<Rightarrow> bytes option" where
  "EVP_DecodeBase64 max_out inp =
     (if length inp mod 4 \<noteq> 0 then None
      else case EVP_DecodedLength (length inp) of
        None \<Rightarrow> None
      | Some max_len \<Rightarrow> if max_out < max_len then None else decode_quads inp)"

text \<open>The return value and what is written when it is not negative.\<close>

definition EVP_DecodeBlock :: "bytes \<Rightarrow> int \<times> bytes" where
  "EVP_DecodeBlock src =
     (let src = dropWhile (\<lambda>c. c = 32 \<or> c = 9) src;
          src = rev (dropWhile is_b64_space (rev src))
      in case EVP_DecodedLength (length src) of
           None \<Rightarrow> (- 1, [])
         | Some dst_len \<Rightarrow>
             if dst_len > INT_MAX then (- 1, [])
             else case EVP_DecodeBase64 dst_len src of
               None \<Rightarrow> (- 1, [])
             | Some dst \<Rightarrow>
                 let dst = dst @ replicate ((3 - length dst mod 3) mod 3) 0 in (int (length dst), dst))"


section \<open>Digits\<close>

lemma ct_lt_args_8: "constant_time_lt_args_8 a b = (if a < b then CONSTTIME_TRUE_8 else CONSTTIME_FALSE_8)"
proof -
  have u: "unat (ucast a :: u64) = unat a" "unat (ucast b :: u64) = unat b" by (simp_all add: unat_ucast_up)
  have "unat a < 256" "unat b < 256" using unsigned_less [of a] unsigned_less [of b] by simp_all
  then have "bit (ucast a - ucast b :: u64) 63 \<longleftrightarrow> a < b"
    by (auto simp: bit_63_iff unat_sub_if' word_less_nat_alt u)
  then show ?thesis
    using ucast_mask_8 by (simp add: constant_time_lt_args_8_def Let_def msb_mask CONSTTIME_TRUE_W_def CONSTTIME_FALSE_W_def)
qed

lemma ct_in_range_8:
  assumes "lo \<le> hi" "hi - lo \<noteq> 255"
  shows "constant_time_in_range_8 a lo hi = (if lo \<le> a \<and> a \<le> hi then CONSTTIME_TRUE_8 else CONSTTIME_FALSE_8)"
proof -
  have b: "unat a < 256" "unat lo < 256" "unat hi < 256"
    using unsigned_less [of a] unsigned_less [of lo] unsigned_less [of hi] by simp_all
  have le: "unat lo \<le> unat hi" using assms(1) by (simp add: word_le_nat_alt)
  then have d: "unat (hi - lo) = unat hi - unat lo" by (simp add: unat_sub_if')
  moreover have "unat (hi - lo) \<noteq> 255" using assms(2) word_of_unat [of "hi - lo" 255] by auto
  ultimately have "unat (hi - lo + 1) = unat hi - unat lo + 1" using b by (simp add: unat_word_ariths)
  then have "a - lo < hi - lo + 1 \<longleftrightarrow> lo \<le> a \<and> a \<le> hi"
    using b le by (auto simp: word_less_nat_alt word_le_nat_alt unat_sub_if')
  then show ?thesis by (simp add: constant_time_in_range_8_def ct_lt_args_8)
qed


lemma ucast_byte_eq: "(ucast (a :: byte) :: u64) = ucast b \<longleftrightarrow> a = b"
  by (simp add: word_unat_eq_iff unat_ucast_up)

text \<open>The digits as ranges.\<close>

lemma conv_bin2ascii_if:
  "conv_bin2ascii a = (let x = a AND 0x3f in
     if x < 26 then x + 65 else if x < 52 then x + 71 else if x < 62 then x - 4 else if x = 62 then 43 else 47)"
proof -
  have "(ucast x :: u64) = 62 \<longleftrightarrow> x = 62" for x :: byte using ucast_byte_eq [of x 62] by simp
  then show ?thesis
    by (simp add: conv_bin2ascii_def Let_def ct_lt_args_8 constant_time_eq_8_mask constant_time_select_8_mask)
qed

lemma ascii_to_bin_if:
  "base64_ascii_to_bin a =
     (if 65 \<le> a \<and> a \<le> 90 then a - 65 else if 97 \<le> a \<and> a \<le> 122 then a - 71
      else if 48 \<le> a \<and> a \<le> 57 then a + 4 else if a = 43 then 62 else if a = 47 then 63
      else if a = 61 then 0 else 0xff)"
proof -
  note eq = ucast_byte_eq [of a 43, simplified] ucast_byte_eq [of a 47, simplified] ucast_byte_eq [of a 61, simplified]
  have n: "NOT CONSTTIME_TRUE_8 = 0" "NOT CONSTTIME_FALSE_8 = 0xff" by (simp_all add: TRUE_8 CONSTTIME_FALSE_8_def)
  have nat: "65 \<le> a \<and> a \<le> 90 \<longleftrightarrow> 65 \<le> unat a \<and> unat a \<le> 90" "97 \<le> a \<and> a \<le> 122 \<longleftrightarrow> 97 \<le> unat a \<and> unat a \<le> 122"
    "48 \<le> a \<and> a \<le> 57 \<longleftrightarrow> 48 \<le> unat a \<and> unat a \<le> 57" "a = 43 \<longleftrightarrow> unat a = 43" "a = 47 \<longleftrightarrow> unat a = 47" "a = 61 \<longleftrightarrow> unat a = 61"
    by (simp_all add: word_le_nat_alt word_unat_eq_iff)
  have c: "a - 97 + 26 = a - 71" "a - 48 + 52 = a + 4" by simp_all
  let ?m = "\<lambda>P. if P then CONSTTIME_TRUE_8 else CONSTTIME_FALSE_8"
  have "base64_ascii_to_bin a = (let up = ?m (65 \<le> unat a \<and> unat a \<le> 90); lo = ?m (97 \<le> unat a \<and> unat a \<le> 122);
      di = ?m (48 \<le> unat a \<and> unat a \<le> 57); pl = ?m (unat a = 43); sl = ?m (unat a = 47); eq = ?m (unat a = 61)
      in (0 OR (up AND (a - 65)) OR (lo AND (a - 71)) OR (di AND (a + 4)) OR (pl AND 62) OR (sl AND 63)) OR
         NOT (up OR lo OR di OR pl OR sl OR eq))"
    unfolding base64_ascii_to_bin_def Let_def c
    by (simp add: ct_in_range_8 constant_time_eq_8_mask eq nat or.assoc del: or_numerals)
  then show ?thesis
    unfolding nat
    by (cases "65 \<le> unat a \<and> unat a \<le> 90"; cases "97 \<le> unat a \<and> unat a \<le> 122"; cases "48 \<le> unat a \<and> unat a \<le> 57";
        cases "unat a = 43"; cases "unat a = 47"; cases "unat a = 61")
      (simp_all add: TRUE_8 CONSTTIME_FALSE_8_def, auto)
qed


text \<open>The specification: the alphabet of RFC 4648.\<close>

definition b64_alphabet :: bytes where
  "b64_alphabet = map of_nat ([65..<91] @ [97..<123] @ [48..<58] @ [43, 47])"

definition b64_digit :: "nat \<Rightarrow> byte" where
  "b64_digit n = b64_alphabet ! n"

definition b64_value :: "byte \<Rightarrow> nat option" where
  "b64_value c = find (\<lambda>n. b64_digit n = c) [0..<64]"

lemma length_b64_alphabet: "length b64_alphabet = 64"
  by (simp add: b64_alphabet_def)

lemma b64_digit_if:
  "n < 64 \<Longrightarrow> b64_digit n = of_nat (if n < 26 then n + 65 else if n < 52 then n + 71 else if n < 62 then n - 4
     else if n = 62 then 43 else 47)"
proof -
  assume n: "n < 64"
  have "b64_digit n = of_nat (([65..<91] @ [97..<123] @ [48..<58] @ [43, 47]) ! n)"
    unfolding b64_digit_def b64_alphabet_def by (rule nth_map) (use n in simp)
  also have "([65..<91] @ [97..<123] @ [48..<58] @ [43, 47]) ! n =
      (if n < 26 then n + 65 else if n < 52 then n + 71 else if n < 62 then n - 4 else if n = 62 then 43 else 47)"
    using n by (auto simp: nth_append nth_Cons' simp del: upt_rec_numeral)
  finally show ?thesis .
qed

lemma conv_bin2ascii_digit: "conv_bin2ascii a = b64_digit (unat (a AND 0x3f))"
proof -
  let ?x = "a AND 0x3f"
  have "?x = take_bit 6 a" by (simp add: take_bit_eq_mask mask_eq_exp_minus_1)
  then have "unat ?x = take_bit 6 (unat a)" by (metis unsigned_take_bit_eq)
  then have "unat ?x < 64" using take_bit_nat_less_exp [of 6 "unat a"] by simp
  then show ?thesis
    by (auto simp: conv_bin2ascii_if Let_def b64_digit_if word_less_nat_alt word_unat_eq_iff unat_of_nat
        unat_word_ariths unat_sub_if')
qed

lemma unat_ascii_to_bin:
  "unat (base64_ascii_to_bin a) =
     (if 65 \<le> unat a \<and> unat a \<le> 90 then unat a - 65 else if 97 \<le> unat a \<and> unat a \<le> 122 then unat a - 71
      else if 48 \<le> unat a \<and> unat a \<le> 57 then unat a + 4 else if unat a = 43 then 62 else if unat a = 47 then 63
      else if unat a = 61 then 0 else 255)"
  by (auto simp: ascii_to_bin_if word_le_nat_alt word_unat_eq_iff unat_word_ariths unat_sub_if')

lemma ascii_to_bin_digit: "n < 64 \<Longrightarrow> base64_ascii_to_bin (b64_digit n) = of_nat n"
  by (auto simp: word_unat_eq_iff unat_ascii_to_bin b64_digit_if unat_of_nat)

lemma digit_not_equals: "n < 64 \<Longrightarrow> b64_digit n \<noteq> 61"
  by (auto simp: word_unat_eq_iff b64_digit_if unat_of_nat)

lemma ascii_to_bin_valid:
  "base64_ascii_to_bin c \<noteq> 0xff \<longleftrightarrow> c = 61 \<or> (\<exists>n < 64. c = b64_digit n)"
proof
  assume "base64_ascii_to_bin c \<noteq> 0xff"
  then have v: "unat (base64_ascii_to_bin c) \<noteq> 255" using word_of_unat [of "base64_ascii_to_bin c" 255] by auto
  show "c = 61 \<or> (\<exists>n < 64. c = b64_digit n)"
  proof (cases "c = 61")
    case False
    then have "unat c \<noteq> 61" by (simp add: word_unat_eq_iff)
    let ?n = "unat (base64_ascii_to_bin c)"
    have "?n < 64 \<and> c = b64_digit ?n"
      using v \<open>unat c \<noteq> 61\<close> unfolding unat_ascii_to_bin
      by (auto simp: b64_digit_if word_unat_eq_iff unat_of_nat split: if_splits)
    then show ?thesis by blast
  qed simp
next
  assume "c = 61 \<or> (\<exists>n < 64. c = b64_digit n)"
  then show "base64_ascii_to_bin c \<noteq> 0xff"
  proof
    assume "c = 61"
    then show ?thesis by (simp add: ascii_to_bin_if)
  next
    assume "\<exists>n < 64. c = b64_digit n"
    then obtain n where "n < 64" "c = b64_digit n" by blast
    then have "unat (base64_ascii_to_bin c) = n" by (simp add: ascii_to_bin_digit unat_of_nat)
    with \<open>n < 64\<close> show ?thesis by auto
  qed
qed


section \<open>Groups\<close>

lemma or_shift_nat: "b < 2 ^ n \<Longrightarrow> push_bit n a OR b = a * 2 ^ n + (b :: nat)"
proof -
  assume "b < 2 ^ n"
  then have "take_bit n b = b" by (simp add: take_bit_nat_eq_self)
  then have low: "bit b i \<Longrightarrow> i < n" for i by (metis bit_take_bit_iff)
  have "push_bit n a AND b = 0" by (rule bit_eqI) (auto simp: bit_simps dest: low)
  then have "push_bit n a OR b = push_bit n a + b" by (rule disjunctive_add_eq_or [symmetric])
  then show ?thesis by (simp add: push_bit_eq_mult)
qed

lemma unat_or_shift:
  fixes a b :: "'a::len word"
  assumes "unat b < 2 ^ n" "unat a * 2 ^ n + unat b < 2 ^ LENGTH('a)"
  shows "unat (push_bit n a OR b) = unat a * 2 ^ n + unat b"
proof -
  have "unat a * 2 ^ n < 2 ^ LENGTH('a)" using assms(2) by linarith
  then have "unat (push_bit n a) = push_bit n (unat a)"
    unfolding unsigned_push_bit_eq by (simp add: push_bit_eq_mult take_bit_nat_eq_self)
  then show ?thesis using or_shift_nat [OF assms(1), of "unat a"] by (simp add: unsigned_or_eq)
qed

lemma unat_byte: "unat (a :: byte) < 256"
  using unsigned_less [of a] by simp

lemma sextet: "unat ((ucast (drop_bit k (l :: u32)) :: byte) AND 0x3f) = unat l div 2 ^ k mod 64"
proof -
  have "(ucast (drop_bit k l) :: byte) AND 0x3f = take_bit 6 (ucast (drop_bit k l))"
    by (simp add: take_bit_eq_mask mask_eq_exp_minus_1)
  then have "unat ((ucast (drop_bit k l) :: byte) AND 0x3f) = take_bit 6 (take_bit 8 (drop_bit k (unat l)))"
    by (simp add: unsigned_take_bit_eq unsigned_ucast_eq unsigned_drop_bit_eq take_bit_nat_eq_self
        unsigned_less [of l, where 'a = nat, simplified])
  then show ?thesis by (simp add: take_bit_eq_mod drop_bit_eq_div mod_mod_cancel)
qed

lemma ucast_drop_byte: "(ucast (drop_bit k (v :: u32)) :: byte) = of_nat (unat v div 2 ^ k)"
proof -
  have "unat (drop_bit k v) = unat v div 2 ^ k"
    unfolding unsigned_drop_bit_eq by (simp only: drop_bit_eq_div take_bit_nat_eq_self unsigned_less)
  then show ?thesis by (metis of_nat_unat)
qed

lemma quad_word_nat: "unat (quad_word a b c) = unat a * 65536 + unat b * 256 + unat c"
proof -
  note u = unat_byte [of a] unat_byte [of b] unat_byte [of c]
  have i: "unat (push_bit 8 (ucast b :: u32) OR ucast c) = unat b * 256 + unat c"
    using unat_or_shift [of "ucast c :: u32" 8 "ucast b"] u by (simp add: unat_ucast_up)
  with unat_or_shift [of "push_bit 8 (ucast b :: u32) OR ucast c" 16 "ucast a"] u show ?thesis
    by (simp add: quad_word_def unat_ucast_up)
qed


text \<open>The digits of the groups, and the bytes of quads of digits, as numbers.\<close>

lemma group_digits:
  fixes a b c :: byte
  defines "l1 \<equiv> push_bit 16 (ucast a :: u32)" and "l2 \<equiv> push_bit 16 (ucast a :: u32) OR push_bit 8 (ucast b)"
  shows "conv_bin2ascii (ucast (drop_bit 18 (quad_word a b c))) = b64_digit (unat a div 4)"
    "conv_bin2ascii (ucast (drop_bit 12 (quad_word a b c))) = b64_digit (unat a mod 4 * 16 + unat b div 16)"
    "conv_bin2ascii (ucast (drop_bit 6 (quad_word a b c))) = b64_digit (unat b mod 16 * 4 + unat c div 64)"
    "conv_bin2ascii (ucast (quad_word a b c)) = b64_digit (unat c mod 64)"
    "conv_bin2ascii (ucast (drop_bit 18 l1)) = b64_digit (unat a div 4)"
    "conv_bin2ascii (ucast (drop_bit 12 l1)) = b64_digit (unat a mod 4 * 16)"
    "conv_bin2ascii (ucast (drop_bit 18 l2)) = b64_digit (unat a div 4)"
    "conv_bin2ascii (ucast (drop_bit 12 l2)) = b64_digit (unat a mod 4 * 16 + unat b div 16)"
    "conv_bin2ascii (ucast (drop_bit 6 l2)) = b64_digit (unat b mod 16 * 4)"
proof -
  have l: "l1 = quad_word a 0 0" "l2 = quad_word a b 0" by (simp_all add: l1_def l2_def quad_word_def)
  have d: "conv_bin2ascii (ucast (drop_bit k l)) = b64_digit (unat l div 2 ^ k mod 64)" for k and l :: u32
    by (simp only: conv_bin2ascii_digit sextet)
  have n: "(x * 65536 + y * 256 + z) div 2 ^ 18 mod 64 = x div 4"
    "(x * 65536 + y * 256 + z) div 2 ^ 12 mod 64 = x mod 4 * 16 + y div 16"
    "(x * 65536 + y * 256 + z) div 2 ^ 6 mod 64 = y mod 16 * 4 + z div 64"
    "(x * 65536 + y * 256 + z) div 2 ^ 0 mod 64 = z mod 64"
    if "x < 256" "y < 256" "z < 256" for x y z :: nat
  proof -
    let ?w = "x * 65536 + y * 256 + z"
    define xh xl yh yl zh zl where s: "xh = x div 4" "xl = x mod 4" "yh = y div 16" "yl = y mod 16" "zh = z div 64" "zl = z mod 64"
    have e: "x = xh * 4 + xl" "y = yh * 16 + yl" "z = zh * 64 + zl" by (simp_all add: s)
    have b: "xh < 64" "xl < 4" "yh < 16" "yl < 16" "zh < 4" "zl < 64" using that by (simp_all add: s)
    have "?w = xh * 262144 + (xl * 65536 + y * 256 + z)" "?w = (xh * 64 + (xl * 16 + yh)) * 4096 + (yl * 256 + z)"
      "?w = ((xh * 64 + (xl * 16 + yh)) * 64 + (yl * 4 + zh)) * 64 + zl" by (simp_all add: e)
    then have "?w div 262144 = xh" "?w div 4096 = xh * 64 + (xl * 16 + yh)" "?w div 64 = (xh * 64 + (xl * 16 + yh)) * 64 + (yl * 4 + zh)"
      using b that by (simp_all only: div_mult_self3 mod_mult_self3, simp_all)
    moreover have "?w = (x * 1024 + y * 4) * 64 + z" by simp
    then have "?w mod 64 = zl" unfolding s by (simp only: mod_mult_self3)
    ultimately have d: "?w div 262144 = xh" "?w div 4096 = xh * 64 + (xl * 16 + yh)"
      "?w div 64 = (xh * 64 + (xl * 16 + yh)) * 64 + (yl * 4 + zh)" "?w mod 64 = zl" by blast+
    have p: "(2 :: nat) ^ 18 = 262144" "(2 :: nat) ^ 12 = 4096" "(2 :: nat) ^ 6 = 64" by simp_all
    show "?w div 2 ^ 18 mod 64 = x div 4" "?w div 2 ^ 12 mod 64 = x mod 4 * 16 + y div 16"
      "?w div 2 ^ 6 mod 64 = y mod 16 * 4 + z div 64" "?w div 2 ^ 0 mod 64 = z mod 64"
      unfolding p d mod_mult_self3 power_0 div_by_1 s(1-6) [symmetric] using b by simp_all
  qed
  note n' = n [OF unat_byte unat_byte unat_byte]
  show "conv_bin2ascii (ucast (drop_bit 18 (quad_word a b c))) = b64_digit (unat a div 4)"
    "conv_bin2ascii (ucast (drop_bit 12 (quad_word a b c))) = b64_digit (unat a mod 4 * 16 + unat b div 16)"
    "conv_bin2ascii (ucast (drop_bit 6 (quad_word a b c))) = b64_digit (unat b mod 16 * 4 + unat c div 64)"
    unfolding d quad_word_nat n' by (rule refl)+
  show "conv_bin2ascii (ucast (quad_word a b c)) = b64_digit (unat c mod 64)"
    using d [of 0 "quad_word a b c"] unfolding drop_bit_0 id_apply quad_word_nat n' .
  show "conv_bin2ascii (ucast (drop_bit 18 l1)) = b64_digit (unat a div 4)"
    "conv_bin2ascii (ucast (drop_bit 12 l1)) = b64_digit (unat a mod 4 * 16)"
    "conv_bin2ascii (ucast (drop_bit 18 l2)) = b64_digit (unat a div 4)"
    "conv_bin2ascii (ucast (drop_bit 12 l2)) = b64_digit (unat a mod 4 * 16 + unat b div 16)"
    "conv_bin2ascii (ucast (drop_bit 6 l2)) = b64_digit (unat b mod 16 * 4)"
    unfolding l d quad_word_nat n' by simp_all
qed

lemma byte_of_nat_cong: "m mod 256 = n mod 256 \<Longrightarrow> (of_nat m :: byte) = of_nat n"
  by (simp add: word_of_nat_eq_iff take_bit_eq_mod)


text \<open>Encoding by digits.\<close>

lemma encode_loop_digits:
  "encode_loop [a] = [b64_digit (unat a div 4), b64_digit (unat a mod 4 * 16), 61, 61]"
  "encode_loop [a, b] = [b64_digit (unat a div 4), b64_digit (unat a mod 4 * 16 + unat b div 16),
     b64_digit (unat b mod 16 * 4), 61]"
  "encode_loop (a # b # c # rest) = [b64_digit (unat a div 4), b64_digit (unat a mod 4 * 16 + unat b div 16),
     b64_digit (unat b mod 16 * 4 + unat c div 64), b64_digit (unat c mod 64)] @ encode_loop rest"
  by (simp_all only: encode_loop.simps Let_def group_digits)

declare encode_loop.simps(2-4) [simp del]

text \<open>Decoding digits: the low bits of the last digit before the padding are ignored.\<close>

lemma quad_value:
  fixes p q r s :: nat
  assumes "p < 64" "q < 64" "r < 64" "s < 64"
  shows "unat (push_bit 18 (ucast (of_nat p :: byte)) OR push_bit 12 (ucast (of_nat q :: byte)) OR
      push_bit 6 (ucast (of_nat r :: byte)) OR (ucast (of_nat s :: byte) :: u32)) = p * 262144 + q * 4096 + r * 64 + s"
proof -
  have u: "unat (ucast (of_nat n :: byte) :: u32) = n" if "n < 64" for n
    using that by (simp add: unat_ucast_up unat_of_nat)
  note u = u [OF assms(1)] u [OF assms(2)] u [OF assms(3)] u [OF assms(4)]
  let ?x = "push_bit 6 (ucast (of_nat r :: byte)) OR (ucast (of_nat s :: byte) :: u32)"
  have x: "unat ?x = r * 64 + s" using unat_or_shift [of "ucast (of_nat s :: byte) :: u32" 6 "ucast (of_nat r :: byte)"] u assms by simp
  let ?y = "push_bit 12 (ucast (of_nat q :: byte)) OR ?x"
  have y: "unat ?y = q * 4096 + r * 64 + s" using unat_or_shift [of ?x 12 "ucast (of_nat q :: byte)"] u x assms by simp
  show ?thesis using unat_or_shift [of ?y 18 "ucast (of_nat p :: byte)"] u y assms by simp
qed

lemma quad_bytes:
  fixes p q r s :: nat
  assumes "p < 64" "q < 64" "r < 64" "s < 64" and v: "unat (v :: u32) = p * 262144 + q * 4096 + r * 64 + s"
  shows "(ucast (drop_bit 16 v) :: byte) = of_nat (p * 4 + q div 16)"
    "(ucast (drop_bit 8 v) :: byte) = of_nat (q mod 16 * 16 + r div 4)"
    "(ucast v :: byte) = of_nat (r mod 4 * 64 + s)"
proof -
  define qh ql rh rl where s: "qh = q div 16" "ql = q mod 16" "rh = r div 4" "rl = r mod 4"
  have e: "q = qh * 16 + ql" "r = rh * 4 + rl" by (simp_all add: s)
  have b: "ql < 16" "rh < 16" "rl < 4" using assms(3) by (simp_all add: s)
  have w: "unat v = (p * 4 + qh) * 65536 + ((ql * 16 + rh) * 256 + (rl * 64 + s))"
    "unat v = ((p * 4 + qh) * 256 + (ql * 16 + rh)) * 256 + (rl * 64 + s)"
    unfolding v by (simp_all add: e)
  then have d: "unat v div 65536 = p * 4 + qh" "unat v div 256 = (p * 4 + qh) * 256 + (ql * 16 + rh)"
    using b assms(4) by (simp_all only: div_mult_self3, simp_all)
  have pw: "(2 :: nat) ^ 16 = 65536" "(2 :: nat) ^ 8 = 256" by simp_all
  show "(ucast (drop_bit 16 v) :: byte) = of_nat (p * 4 + q div 16)"
    unfolding ucast_drop_byte pw d s(1) [symmetric] ..
  show "(ucast (drop_bit 8 v) :: byte) = of_nat (q mod 16 * 16 + r div 4)"
    unfolding ucast_drop_byte pw d s(2,3) [symmetric] by (rule byte_of_nat_cong) (simp only: mod_mult_self3)
  have "(ucast v :: byte) = of_nat (unat v)" using ucast_drop_byte [of 0 v] by simp
  also have "\<dots> = of_nat (rl * 64 + s)" unfolding w(2) by (rule byte_of_nat_cong) (simp only: mod_mult_self3)
  finally show "(ucast v :: byte) = of_nat (r mod 4 * 64 + s)" by (simp only: s(4))
qed

lemma decode_quad_digits:
  assumes "p < 64" "q < 64" "r < 64" "t < 64"
  shows "base64_decode_quad [b64_digit p, b64_digit q, b64_digit r, b64_digit t] =
      Some [of_nat (p * 4 + q div 16), of_nat (q mod 16 * 16 + r div 4), of_nat (r mod 4 * 64 + t)]"
    "base64_decode_quad [b64_digit p, b64_digit q, b64_digit r, 61] =
      Some [of_nat (p * 4 + q div 16), of_nat (q mod 16 * 16 + r div 4)]"
    "base64_decode_quad [b64_digit p, b64_digit q, 61, 61] = Some [of_nat (p * 4 + q div 16)]"
proof -
  have n255: "(of_nat n :: byte) \<noteq> 255" if "n < 64" for n
    using that by (auto simp: word_unat_eq_iff unat_of_nat)
  have e: "base64_ascii_to_bin 61 = of_nat 0" by (simp add: ascii_to_bin_if)
  note simps = base64_decode_quad_def Let_def nth_Cons_0 nth_Cons_numeral ascii_to_bin_digit assms n255 digit_not_equals e
  show "base64_decode_quad [b64_digit p, b64_digit q, b64_digit r, b64_digit t] =
      Some [of_nat (p * 4 + q div 16), of_nat (q mod 16 * 16 + r div 4), of_nat (r mod 4 * 64 + t)]"
    using quad_bytes [OF assms quad_value [OF assms]] by (simp add: simps)
  show "base64_decode_quad [b64_digit p, b64_digit q, b64_digit r, 61] =
      Some [of_nat (p * 4 + q div 16), of_nat (q mod 16 * 16 + r div 4)]"
    using quad_bytes [OF assms(1-3) _ quad_value [OF assms(1-3)], of 0] by (simp add: simps)
  show "base64_decode_quad [b64_digit p, b64_digit q, 61, 61] = Some [of_nat (p * 4 + q div 16)]"
    using quad_bytes [OF assms(1,2) _ _ quad_value [OF assms(1,2)], of 0 0] by (simp add: simps)
qed


lemma decode_quad_cases:
  assumes "base64_decode_quad [a, b, c, d] = Some bs"
  obtains (full) p q r t where "p < 64" "q < 64" "r < 64" "t < 64"
      "a = b64_digit p" "b = b64_digit q" "c = b64_digit r" "d = b64_digit t"
    | (two) p q r where "p < 64" "q < 64" "r < 64" "a = b64_digit p" "b = b64_digit q" "c = b64_digit r" "d = 61"
    | (one) p q where "p < 64" "q < 64" "a = b64_digit p" "b = b64_digit q" "c = 61" "d = 61"
proof -
  have v: "base64_ascii_to_bin x \<noteq> 255" if "x \<in> {a, b, c, d}" for x
    using assms that by (auto simp: base64_decode_quad_def Let_def split: if_splits)
  have digit: "\<exists>n < 64. x = b64_digit n" if "x \<in> {a, b, c, d}" "x \<noteq> 61" for x
    using v [OF that(1)] that(2) by (simp add: ascii_to_bin_valid)
  have pat: "a \<noteq> 61" "b \<noteq> 61" "c = 61 \<Longrightarrow> d = 61"
    using assms by (auto simp: base64_decode_quad_def Let_def of_bool_def split: if_splits)
  obtain p q where ab: "p < 64" "q < 64" "a = b64_digit p" "b = b64_digit q"
    using digit [of a] digit [of b] pat by auto
  show thesis
  proof (cases "c = 61")
    case True
    then show ?thesis using one ab pat(3) by blast
  next
    case c: False
    then obtain r where r: "r < 64" "c = b64_digit r" using digit [of c] by auto
    show ?thesis
    proof (cases "d = 61")
      case True
      then show ?thesis using two ab r by blast
    next
      case False
      then obtain t where "t < 64" "d = b64_digit t" using digit [of d] by auto
      then show ?thesis using full ab r by blast
    qed
  qed
qed

lemma unat_of_nat_byte: "n < 256 \<Longrightarrow> unat (of_nat n :: byte) = n"
  by (simp add: unat_of_nat)

lemma b64_split:
  "(q div 16 :: nat) * 16 + q mod 16 = q" "(m * 4 + q div 16) div 4 = m + q div 64" by simp_all

section \<open>Blocks\<close>

lemma length_encode_loop: "length (encode_loop xs) = (length xs + 2) div 3 * 4"
proof (induction xs rule: encode_loop.induct)
  case (4 a b c rest)
  have "(length (a # b # c # rest) + 2) div 3 = (length rest + 2) div 3 + 1" by simp
  with 4 show ?case by (simp add: encode_loop_digits)
qed (simp_all add: encode_loop_digits)

lemma group_bytes:
  fixes a b c :: byte
  shows "(of_nat (unat a div 4 * 4 + (unat a mod 4 * 16) div 16) :: byte) = a"
    "(of_nat (unat a div 4 * 4 + (unat a mod 4 * 16 + unat b div 16) div 16) :: byte) = a"
    "(of_nat ((unat a mod 4 * 16 + unat b div 16) mod 16 * 16 + (unat b mod 16 * 4) div 4) :: byte) = b"
    "(of_nat ((unat a mod 4 * 16 + unat b div 16) mod 16 * 16 + (unat b mod 16 * 4 + unat c div 64) div 4) :: byte) = b"
    "(of_nat ((unat b mod 16 * 4 + unat c div 64) mod 4 * 64 + unat c mod 64) :: byte) = c"
  using unat_byte [of a] unat_byte [of b] unat_byte [of c] by (simp_all add: less_mult_imp_div_less)

lemma digit_bounds:
  fixes a b c :: byte
  shows "unat a div 4 < 64" "unat a mod 4 * 16 < 64" "unat a mod 4 * 16 + unat b div 16 < 64"
    "unat b mod 16 * 4 < 64" "unat b mod 16 * 4 + unat c div 64 < 64" "unat c mod 64 < 64"
proof -
  have "unat b div 16 < 16" "unat c div 64 < 4" "unat a div 4 < 64"
    using unat_byte [of a] unat_byte [of b] unat_byte [of c] by (simp_all add: less_mult_imp_div_less)
  moreover have "unat a mod 4 < 4" "unat b mod 16 < 16" by simp_all
  ultimately show "unat a div 4 < 64" "unat a mod 4 * 16 < 64" "unat a mod 4 * 16 + unat b div 16 < 64"
    "unat b mod 16 * 4 < 64" "unat b mod 16 * 4 + unat c div 64 < 64" "unat c mod 64 < 64" by linarith+
qed

lemma decode_group:
  "base64_decode_quad [b64_digit (unat a div 4), b64_digit (unat a mod 4 * 16 + unat b div 16),
     b64_digit (unat b mod 16 * 4 + unat c div 64), b64_digit (unat c mod 64)] = Some [a, b, c :: byte]"
  "base64_decode_quad [b64_digit (unat a div 4), b64_digit (unat a mod 4 * 16 + unat b div 16),
     b64_digit (unat b mod 16 * 4), 61] = Some [a, b]"
  "base64_decode_quad [b64_digit (unat a div 4), b64_digit (unat a mod 4 * 16), 61, 61] = Some [a]"
  subgoal by (simp only: decode_quad_digits(1) digit_bounds group_bytes)
  subgoal by (rule trans [OF decode_quad_digits(2) [OF digit_bounds(1,3,4) zero_less_numeral]]) (simp only: group_bytes)
  subgoal by (rule trans [OF decode_quad_digits(3) [OF digit_bounds(1,2) zero_less_numeral zero_less_numeral]]) (simp only: group_bytes)
  done

lemma decode_encode: "decode_quads (encode_loop xs) = Some xs"
proof (induction xs rule: encode_loop.induct)
  case (4 a b c rest)
  then show ?case by (simp add: encode_loop_digits(3) decode_group)
qed (simp_all only: encode_loop_digits decode_quads.simps decode_group encode_loop.simps(1), simp_all)

lemma encode_loop_chars: "c \<in> set (encode_loop xs) \<Longrightarrow> c = 61 \<or> (\<exists>n < 64. c = b64_digit n)"
proof (induction xs rule: encode_loop.induct)
  case (2 a)
  then show ?case using digit_bounds(1,2) unfolding encode_loop_digits by fastforce
next
  case (3 a b)
  then show ?case using digit_bounds(1,3,4) unfolding encode_loop_digits by fastforce
next
  case (4 a b d rest)
  then show ?case using digit_bounds unfolding encode_loop_digits by fastforce
qed simp

lemma digit_not_space: "n < 64 \<Longrightarrow> \<not> is_b64_space (b64_digit n)"
  by (auto simp: is_b64_space_def b64_digit_if word_unat_eq_iff unat_of_nat)

lemma encode_loop_no_space: "c \<in> set (encode_loop xs) \<Longrightarrow> \<not> is_b64_space c"
  using encode_loop_chars [of c xs] digit_not_space by (auto simp: is_b64_space_def)

end
