(* ===== verification/Base64_Spec.thy ===== *)
theory Base64_Spec
  imports Base64
begin

text \<open>
  What base64.c promises: a block of digits decodes to what was encoded, exactly the strings of
  the base64 grammar are accepted, the computed lengths are the lengths needed, and the two
  streaming interfaces are the block functions on the whole stream, however it is cut into calls.
\<close>

section \<open>Accepted blocks\<close>

text \<open>Digits followed by at most two padding characters, a whole number of quads in all.\<close>

definition b64_text :: "bytes \<Rightarrow> bool" where
  "b64_text inp \<longleftrightarrow> (\<exists>ds pad. inp = map b64_digit ds @ replicate pad 61 \<and> (\<forall>n \<in> set ds. n < 64) \<and> pad \<le> 2 \<and>
     length inp mod 4 = 0)"

lemma b64_textI:
  "inp = map b64_digit ds @ replicate pad 61 \<Longrightarrow> \<forall>n \<in> set ds. n < 64 \<Longrightarrow> pad \<le> 2 \<Longrightarrow> length inp mod 4 = 0 \<Longrightarrow> b64_text inp"
  unfolding b64_text_def by (intro exI [of _ ds] exI [of _ pad] conjI) assumption+

lemma decode_quads_text:
  "length inp mod 4 = 0 \<Longrightarrow> decode_quads inp = Some xs \<Longrightarrow> b64_text inp"
proof (induction inp arbitrary: xs rule: decode_quads.induct)
  case (1 a b c d rest)
  from "1.prems" obtain bs ys where q: "base64_decode_quad [a, b, c, d] = Some bs" "length bs = 3 \<or> rest = []"
      "decode_quads rest = Some ys" by (auto split: option.splits if_splits)
  have len: "length rest mod 4 = 0" using "1.prems"(1) by (simp add: mod_Suc split: if_splits)
  from q(1) show ?case
  proof (cases rule: decode_quad_cases)
    case (full p qq r t)
    have "length bs = 3" using q(1) full decode_quad_digits(1) [of p qq r t] by auto
    then obtain ds pad where r: "rest = map b64_digit ds @ replicate pad 61" "\<forall>n \<in> set ds. n < 64" "pad \<le> 2"
      using "1.IH" [OF q(1)] q(3) len unfolding b64_text_def by auto
    have "a # b # c # d # rest = map b64_digit (p # qq # r # t # ds) @ replicate pad 61" using full r by simp
    moreover have "\<forall>n \<in> set (p # qq # r # t # ds). n < 64" using full r by simp
    ultimately show ?thesis by (rule b64_textI [OF _ _ r(3) "1.prems"(1)])
  next
    case (two p qq r)
    have "length bs = 2" using q(1) two decode_quad_digits(2) [of p qq r 0] by auto
    then have "a # b # c # d # rest = map b64_digit [p, qq, r] @ replicate 1 61" using two q(2) by simp
    moreover have "\<forall>n \<in> set [p, qq, r]. n < 64" using two by simp
    ultimately show ?thesis by (rule b64_textI [OF _ _ one_le_numeral "1.prems"(1)])
  next
    case (one p qq)
    have "length bs = 1" using q(1) one decode_quad_digits(3) [of p qq 0 0] by auto
    then have "a # b # c # d # rest = map b64_digit [p, qq] @ replicate 2 61" using one q(2) by (simp add: numeral_2_eq_2)
    moreover have "\<forall>n \<in> set [p, qq]. n < 64" using one by simp
    ultimately show ?thesis by (rule b64_textI [OF _ _ order_refl "1.prems"(1)])
  qed
qed (auto simp: b64_text_def intro: exI [of _ "[]"] exI [of _ 0])

lemma text_decode_quads:
  "\<forall>n \<in> set ds. n < 64 \<Longrightarrow> pad \<le> 2 \<Longrightarrow> (length ds + pad) mod 4 = 0 \<Longrightarrow>
   decode_quads (map b64_digit ds @ replicate pad 61) \<noteq> None"
proof (induction "length ds" arbitrary: ds rule: less_induct)
  case less
  consider "ds = []" | p where "ds = [p]" | p q where "ds = [p, q]" | p q r where "ds = [p, q, r]"
    | p q r t es where "ds = p # q # r # t # es"
    by (metis neq_Nil_conv)
  then show ?case
  proof cases
    case 1
    then have "pad mod 4 = 0" using less.prems(3) by simp
    then have "pad = 0" using less.prems(2) by presburger
    then show ?thesis using 1 by simp
  next
    case 2
    then have "(1 + pad) mod 4 = 0" using less.prems(3) by simp
    then show ?thesis using less.prems(2) by presburger
  next
    case 3
    then have "(2 + pad) mod 4 = 0" using less.prems(3) by simp
    then have "pad = 2" using less.prems(2) by presburger
    then show ?thesis using 3 less.prems(1) by (simp add: numeral_2_eq_2 decode_quad_digits(3) [OF _ _ zero_less_numeral zero_less_numeral])
  next
    case 4
    then have "(3 + pad) mod 4 = 0" using less.prems(3) by simp
    then have "pad = 1" using less.prems(2) by presburger
    then show ?thesis using 4 less.prems(1) by (simp add: decode_quad_digits(2) [OF _ _ _ zero_less_numeral])
  next
    case 5
    then have "decode_quads (map b64_digit es @ replicate pad 61) \<noteq> None"
      using less.prems by (intro less.hyps) (auto simp: mod_Suc split: if_splits)
    then show ?thesis using 5 less.prems(1) by (auto simp: decode_quad_digits(1))
  qed
qed

lemma decode_quads_iff:
  assumes "length inp mod 4 = 0"
  shows "decode_quads inp \<noteq> None \<longleftrightarrow> b64_text inp"
  using decode_quads_text [OF assms] text_decode_quads assms unfolding b64_text_def by force

text \<open>Without padding no bit is dropped: encoding the result gives the block back.\<close>

lemma quad_digits_of_bytes:
  fixes p q r t :: nat
  assumes "p < 64" "q < 64" "r < 64" "t < 64"
  defines "x \<equiv> (of_nat (p * 4 + q div 16) :: byte)" and "y \<equiv> (of_nat (q mod 16 * 16 + r div 4) :: byte)"
    and "z \<equiv> (of_nat (r mod 4 * 64 + t) :: byte)"
  shows "unat x div 4 = p" "unat x mod 4 * 16 + unat y div 16 = q" "unat y mod 16 * 4 + unat z div 64 = r" "unat z mod 64 = t"
proof -
  have b: "q div 16 < 4" "q mod 16 < 16" "r div 4 < 16" "r mod 4 < 4" using assms(1-4) by (simp_all add: less_mult_imp_div_less)
  have "p * 4 + q div 16 < 256" "q mod 16 * 16 + r div 4 < 256" "r mod 4 * 64 + t < 256" using b assms(1-4) by linarith+
  then have u: "unat x = p * 4 + q div 16" "unat y = q mod 16 * 16 + r div 4" "unat z = r mod 4 * 64 + t"
    unfolding x_def y_def z_def by (simp_all only: unat_of_nat_byte)
  show "unat x div 4 = p" "unat x mod 4 * 16 + unat y div 16 = q" "unat y mod 16 * 4 + unat z div 64 = r" "unat z mod 64 = t"
    unfolding u div_mult_self3 mod_mult_self3 using b assms(4) by simp_all
qed

lemma reencode:
  "length inp mod 4 = 0 \<Longrightarrow> decode_quads inp = Some xs \<Longrightarrow> 61 \<notin> set inp \<Longrightarrow> encode_loop xs = inp"
proof (induction inp arbitrary: xs rule: decode_quads.induct)
  case (1 a b c d rest)
  from "1.prems" obtain bs ys where q: "base64_decode_quad [a, b, c, d] = Some bs" "length bs = 3 \<or> rest = []"
      "decode_quads rest = Some ys" "xs = bs @ ys" by (auto split: option.splits if_splits)
  have len: "length rest mod 4 = 0" using "1.prems"(1) by (simp add: mod_Suc split: if_splits)
  from q(1) show ?case
  proof (cases rule: decode_quad_cases)
    case (full p qq r t)
    have bs: "bs = [of_nat (p * 4 + qq div 16), of_nat (qq mod 16 * 16 + r div 4), of_nat (r mod 4 * 64 + t)]"
      using q(1) full decode_quad_digits(1) [of p qq r t] by simp
    then have "encode_loop ys = rest" using "1.IH" [OF q(1)] q(3) len "1.prems"(3) by simp
    then show ?thesis
      using quad_digits_of_bytes [OF full(1-4)] full(5-8) unfolding q(4) bs by (simp add: encode_loop_digits(3))
  qed (use "1.prems"(3) in auto)
qed auto


section \<open>The stream of lines\<close>

function b64_lines :: "bytes \<Rightarrow> bytes" where
  "b64_lines xs = (if xs = [] then [] else encode_loop (take 48 xs) @ [10] @ b64_lines (drop 48 xs))"
  by pat_completeness auto
termination
  by (relation "measure length") auto

declare b64_lines.simps [simp del] encode_lines.simps [simp del]

lemma b64_lines_Nil [simp]: "b64_lines [] = []"
  by (simp add: b64_lines.simps)

lemma b64_lines_step: "xs \<noteq> [] \<Longrightarrow> b64_lines xs = encode_loop (take 48 xs) @ [10] @ b64_lines (drop 48 xs)"
  by (subst b64_lines.simps) simp

lemma b64_lines_line: "length xs = 48 \<Longrightarrow> b64_lines (xs @ ys) = encode_loop xs @ [10] @ b64_lines ys"
  by (subst b64_lines_step) auto

lemma b64_lines_append: "length xs mod 48 = 0 \<Longrightarrow> b64_lines (xs @ ys) = b64_lines xs @ b64_lines ys"
proof (induction "length xs" arbitrary: xs rule: less_induct)
  case less
  show ?case
  proof (cases "xs = []")
    case False
    then have len: "48 \<le> length xs" using less.prems by (metis length_0_conv mod_less not_le)
    let ?a = "take 48 xs" and ?b = "drop 48 xs"
    have "b64_lines (?b @ ys) = b64_lines ?b @ b64_lines ys"
      using len less.prems False by (intro less.hyps) (auto simp: le_mod_geq)
    moreover have "b64_lines (xs @ ys) = encode_loop ?a @ [10] @ b64_lines (?b @ ys)"
      using b64_lines_line [of ?a "?b @ ys"] len by (simp flip: append_assoc)
    moreover have "b64_lines xs = encode_loop ?a @ [10] @ b64_lines ?b"
      using b64_lines_line [of ?a ?b] len by simp
    ultimately show ?thesis by simp
  qed simp
qed

lemma length_b64_lines: "48 * length (b64_lines xs) \<le> 65 * length xs + 65 * 48"
proof (induction xs rule: b64_lines.induct)
  case (1 xs)
  show ?case
  proof (cases "48 \<le> length xs")
    case True
    then have "xs \<noteq> []" by auto
    then show ?thesis using 1 True b64_lines_step [of xs] by (simp add: length_encode_loop)
  next
    case False
    then show ?thesis
      by (cases "xs = []") (auto simp: b64_lines_step length_encode_loop)
  qed
qed

definition whole :: "bytes \<Rightarrow> nat" where
  "whole xs = length xs div 48 * 48"

lemma whole_step: "48 \<le> length xs \<Longrightarrow> whole xs = 48 + whole (drop 48 xs)"
  by (simp add: whole_def le_div_geq)

lemma whole_le: "whole xs \<le> length xs" "length xs - whole xs < 48"
  by (simp_all add: whole_def minus_div_mult_eq_mod)

lemma encode_lines_eq:
  "tot + length (b64_lines (take (whole inp) inp)) < SIZE_MODULUS \<Longrightarrow>
   encode_lines out tot inp = (out @ b64_lines (take (whole inp) inp),
     Some (tot + length (b64_lines (take (whole inp) inp))), drop (whole inp) inp)"
proof (induction out tot inp rule: encode_lines.induct)
  case (1 out tot inp)
  show ?case
  proof (cases "length inp < 48")
    case True
    then show ?thesis by (subst encode_lines.simps) (simp add: whole_def)
  next
    case False
    let ?a = "take 48 inp" and ?b = "drop 48 inp"
    have w: "take (whole inp) inp = ?a @ take (whole ?b) ?b" "drop (whole inp) inp = drop (whole ?b) ?b"
      using False whole_step [of inp] by (simp_all add: take_add add.commute)
    have l: "b64_lines (take (whole inp) inp) = encode_loop ?a @ [10] @ b64_lines (take (whole ?b) ?b)"
      using b64_lines_line [of ?a] False unfolding w by simp
    have blk: "EVP_EncodeBlock ?a = (encode_loop ?a @ [0], length (encode_loop ?a))" by (simp add: EVP_EncodeBlock_def Let_def)
    let ?n = "tot + length (encode_loop ?a) + 1"
    have n: "?n + length (b64_lines (take (whole ?b) ?b)) < SIZE_MODULUS" using "1.prems" unfolding l by simp
    then have m: "?n mod SIZE_MODULUS = ?n" by simp
    have "encode_lines out tot inp = encode_lines (out @ encode_loop ?a @ [10]) ?n ?b"
      using False m by (subst encode_lines.simps) (simp add: blk)
    also have "\<dots> = (out @ b64_lines (take (whole inp) inp), Some (tot + length (b64_lines (take (whole inp) inp))), drop (whole inp) inp)"
      using "1.IH" [OF False blk [symmetric] refl] n m unfolding l w(2) by simp
    finally show ?thesis .
  qed
qed


text \<open>A context that holds the bytes \<open>p\<close> of a line that is not complete.\<close>

definition enc_ctx :: "encode_ctx \<Rightarrow> bytes \<Rightarrow> bool" where
  "enc_ctx ctx p \<longleftrightarrow> data_used ctx = length p \<and> length p < 48 \<and> length (ctx_data ctx) = 48 \<and>
     take (length p) (ctx_data ctx) = p"

lemma whole_append: "length a = 48 \<Longrightarrow> whole (a @ b) = 48 + whole b"
  using whole_step [of "a @ b"] by simp

lemma enc_ctx_restart:
  "length (ctx_data ctx) = 48 \<Longrightarrow> length r < 48 \<Longrightarrow>
   enc_ctx (ctx\<lparr>ctx_data := copy_at (ctx_data ctx) 0 r, data_used := length r\<rparr>) r"
  using copy_at_take [of 0 "ctx_data ctx" r] by (simp add: enc_ctx_def copy_at_fits)

lemma encode_update:
  assumes ctx: "enc_ctx ctx p" and len: "length inp < 2 ^ 62"
  defines "ws \<equiv> p @ inp"
  defines "out \<equiv> b64_lines (take (whole ws) ws)"
  obtains ctx' where "EVP_EncodeUpdate ctx inp =
      (if out = [] then [] else out @ [0], if length out > INT_MAX then 0 else length out, ctx')"
    "enc_ctx ctx' (drop (whole ws) ws)"
proof -
  have u: "data_used ctx = length p" "length p < 48" "length (ctx_data ctx) = 48" "take (length p) (ctx_data ctx) = p"
    using ctx by (simp_all add: enc_ctx_def)
  have bound: "length out < 2 ^ 63"
    using length_b64_lines [of "take (whole ws) ws"] len u(2) whole_le [of ws] by (simp add: out_def ws_def)
  consider (none) "inp = []" | (short) "inp \<noteq> []" "length ws < 48" | (long) "inp \<noteq> []" "48 \<le> length ws" by linarith
  then show thesis
  proof cases
    case none
    then have "whole ws = 0" "out = []" using u(2) by (simp_all add: ws_def whole_def out_def)
    then show thesis using that [of ctx] none ctx by (simp add: EVP_EncodeUpdate_def ws_def)
  next
    case short
    then have w: "whole ws = 0" "out = []" by (simp_all add: whole_def out_def)
    let ?c = "ctx\<lparr>ctx_data := copy_at (ctx_data ctx) (length p) inp, data_used := length p + length inp\<rparr>"
    have "48 - data_used ctx > length inp" using short(2) u(1) by (simp add: ws_def)
    then have "EVP_EncodeUpdate ctx inp = ([], 0, ?c)"
      using short(1) u(1) by (simp add: EVP_EncodeUpdate_def)
    moreover have "enc_ctx ?c ws"
      using short u copy_at_take [of "length p" "ctx_data ctx" inp]
      by (simp add: enc_ctx_def ws_def copy_at_fits)
    ultimately show thesis using that w by simp
  next
    case long
    let ?todo = "48 - length p"
    let ?d = "copy_at (ctx_data ctx) (length p) (take ?todo inp)"
    have "0 < whole ws" using whole_step [OF long(2)] by simp
    then have "take (whole ws) ws \<noteq> []" using long(2) by auto
    then have "out \<noteq> []" unfolding out_def by (subst b64_lines_step) auto
    have long': "\<not> 48 - data_used ctx > length inp" using long u(1) by (simp add: ws_def)
    define start where "start = (if p = [] then ([], 0, inp, ctx)
      else (encode_loop (take 48 ws) @ [10], length (encode_loop (take 48 ws)) + 1, drop ?todo inp,
            ctx\<lparr>ctx_data := ?d, data_used := 0\<rparr>))"
    obtain o1 t1 i1 c1 where st: "start = (o1, t1, i1, c1)" by (metis prod_cases4)
    have d: "?d = take 48 ws" using u long by (simp add: copy_at_def ws_def)
    have upd: "EVP_EncodeUpdate ctx inp = (case encode_lines o1 t1 i1 of
        (o2, None, _) \<Rightarrow> (o2 @ [0], 0, c1)
      | (o2, Some t2, i2) \<Rightarrow> (o2 @ [0], if t2 > INT_MAX then 0 else t2,
          c1\<lparr>ctx_data := copy_at (ctx_data c1) 0 i2, data_used := length i2\<rparr>))"
      using long(1) long' u(1) st d
      by (auto simp: EVP_EncodeUpdate_def start_def EVP_EncodeBlock_def Let_def split: if_splits)
    have parts: "o1 @ b64_lines (take (whole i1) i1) = out" "t1 = length o1" "drop (whole i1) i1 = drop (whole ws) ws"
      "length (ctx_data c1) = 48"
    proof -
      have "o1 @ b64_lines (take (whole i1) i1) = out \<and> t1 = length o1 \<and> drop (whole i1) i1 = drop (whole ws) ws \<and>
          length (ctx_data c1) = 48"
      proof (cases "p = []")
        case True
        then show ?thesis using st u(3) by (simp add: start_def out_def ws_def)
      next
        case False
        have i1: "i1 = drop 48 ws" "o1 = encode_loop (take 48 ws) @ [10]" "t1 = length (encode_loop (take 48 ws)) + 1"
          "ctx_data c1 = ?d"
          using st False u(2) by (auto simp: start_def ws_def)
        have w: "whole ws = 48 + whole i1" using whole_step [OF long(2)] by (simp add: i1)
        have "take (whole ws) ws = take 48 ws @ take (whole i1) i1" by (simp add: w take_add i1)
        then have "out = o1 @ b64_lines (take (whole i1) i1)"
          using b64_lines_line [of "take 48 ws"] long(2) by (simp add: out_def i1(2))
        moreover have "drop (whole i1) i1 = drop (whole ws) ws" by (simp add: w i1 add.commute)
        ultimately show ?thesis using i1(2,3,4) d long(2) by simp
      qed
      then show "o1 @ b64_lines (take (whole i1) i1) = out" "t1 = length o1" "drop (whole i1) i1 = drop (whole ws) ws"
        "length (ctx_data c1) = 48" by blast+
    qed
    have t: "t1 + length (b64_lines (take (whole i1) i1)) = length out" using parts(2) by (simp flip: parts(1))
    then have "encode_lines o1 t1 i1 = (out, Some (length out), drop (whole ws) ws)"
      using encode_lines_eq [of t1 i1 o1] bound parts by simp
    then show thesis
      using that upd \<open>out \<noteq> []\<close> enc_ctx_restart [OF parts(4), of "drop (whole ws) ws"] whole_le [of ws] by simp
  qed
qed

lemma encode_final:
  assumes "enc_ctx ctx p"
  shows "\<exists>ctx'. EVP_EncodeFinal ctx = (if p = [] then [] else b64_lines p @ [0], length (b64_lines p), ctx') \<and> enc_ctx ctx' []"
proof (cases "p = []")
  case True
  then show ?thesis using assms by (simp add: EVP_EncodeFinal_def enc_ctx_def)
next
  case False
  then have "b64_lines p = encode_loop p @ [10]" using assms b64_lines_step [of p] by (simp add: enc_ctx_def)
  then show ?thesis
    using assms False by (simp add: EVP_EncodeFinal_def EVP_EncodeBlock_def Let_def enc_ctx_def)
qed


text \<open>What a caller collects that encodes the pieces \<open>cs\<close> one after the other.\<close>

fun encode_stream :: "encode_ctx \<Rightarrow> bytes list \<Rightarrow> bytes" where
  "encode_stream ctx [] = (case EVP_EncodeFinal ctx of (w, n, _) \<Rightarrow> take n w)"
| "encode_stream ctx (c # cs) = (case EVP_EncodeUpdate ctx c of (w, n, ctx') \<Rightarrow> take n w @ encode_stream ctx' cs)"

lemma encode_stream_lines:
  "enc_ctx ctx p \<Longrightarrow> \<forall>c \<in> set cs. length c \<le> 2 ^ 30 \<Longrightarrow> encode_stream ctx cs = b64_lines (p @ concat cs)"
proof (induction cs arbitrary: ctx p)
  case Nil
  with encode_final [of ctx p] show ?case by auto
next
  case (Cons c cs)
  let ?ws = "p @ c"
  let ?out = "b64_lines (take (whole ?ws) ?ws)"
  have c: "length c \<le> 2 ^ 30" using Cons.prems(2) by simp
  obtain ctx' where u: "EVP_EncodeUpdate ctx c =
      (if ?out = [] then [] else ?out @ [0], if length ?out > INT_MAX then 0 else length ?out, ctx')"
      "enc_ctx ctx' (drop (whole ?ws) ?ws)"
    by (rule encode_update [OF Cons.prems(1), of c]) (use c in auto)
  have "48 * length ?out \<le> 65 * whole ?ws + 65 * 48" using length_b64_lines [of "take (whole ?ws) ?ws"] whole_le(1) [of ?ws] by simp
  moreover have "whole ?ws \<le> 48 + 2 ^ 30" using whole_le(1) [of ?ws] Cons.prems(1) c by (simp add: enc_ctx_def)
  ultimately have "\<not> length ?out > INT_MAX" by simp
  then have "encode_stream ctx (c # cs) = ?out @ encode_stream ctx' cs" using u(1) by simp
  also have "encode_stream ctx' cs = b64_lines (drop (whole ?ws) ?ws @ concat cs)"
    using Cons.IH [OF u(2)] Cons.prems(2) by simp
  also have "?out @ \<dots> = b64_lines (take (whole ?ws) ?ws @ drop (whole ?ws) ?ws @ concat cs)"
  proof (rule b64_lines_append [symmetric])
    have "length (take (whole ?ws) ?ws) = whole ?ws" using whole_le(1) [of ?ws] by simp
    then show "length (take (whole ?ws) ?ws) mod 48 = 0" by (simp only: whole_def mod_mult_self2_is_0)
  qed
  also have "take (whole ?ws) ?ws @ drop (whole ?ws) ?ws @ concat cs = p @ concat (c # cs)"
    by (metis append_assoc append_take_drop_id concat.simps(2))
  finally show ?case .
qed

lemma enc_ctx_init: "enc_ctx EVP_EncodeInit []"
  by (simp add: enc_ctx_def EVP_EncodeInit_def)

section \<open>Decoding a stream\<close>

text \<open>The decoder on the characters that are not white space: the padding seen and the digits of
  a quad that is not complete.\<close>

fun dec :: "bool \<Rightarrow> bytes \<Rightarrow> bytes \<Rightarrow> (bytes \<times> bool \<times> bytes) option" where
  "dec e p [] = Some ([], e, p)"
| "dec e p (c # cs) =
     (if e then None
      else if length p = 3
      then case base64_decode_quad (p @ [c]) of
             None \<Rightarrow> None
           | Some bs \<Rightarrow> (case dec (length bs < 3) [] cs of None \<Rightarrow> None | Some (out, r) \<Rightarrow> Some (bs @ out, r))
      else dec e (p @ [c]) cs)"

definition dec_ctx :: "encode_ctx \<Rightarrow> bool \<Rightarrow> bytes \<Rightarrow> bool" where
  "dec_ctx ctx e p \<longleftrightarrow> data_used ctx = length p \<and> length p < 4 \<and> length (ctx_data ctx) = 48 \<and>
     take (length p) (ctx_data ctx) = p \<and> eof_seen ctx = e \<and> (e \<longrightarrow> p = []) \<and> \<not> error_encountered ctx"

lemma decode_quad_take: "4 \<le> length xs \<Longrightarrow> base64_decode_quad xs = base64_decode_quad (take 4 xs)"
  unfolding base64_decode_quad_def Let_def by simp

lemma dec_ctx_put:
  assumes "dec_ctx ctx e p" "\<not> e"
  shows "take (length p + 1) ((ctx_data ctx)[length p := c]) = p @ [c]"
proof -
  have "length p < length (ctx_data ctx)" "take (length p) (ctx_data ctx) = p" using assms by (auto simp: dec_ctx_def)
  then show ?thesis by (simp add: take_Suc_conv_app_nth)
qed

lemma decode_loop_dec:
  "dec_ctx ctx e p \<Longrightarrow>
   (case dec e p (filter (\<lambda>c. \<not> is_b64_space c) inp) of
      None \<Rightarrow> \<exists>ctx' w. decode_loop ctx out inp = (False, ctx', w) \<and> error_encountered ctx'
    | Some (w, e', p') \<Rightarrow> \<exists>ctx'. decode_loop ctx out inp = (True, ctx', out @ w) \<and> dec_ctx ctx' e' p')"
proof (induction inp arbitrary: ctx e p out)
  case Nil
  then show ?case by simp
next
  case (Cons c cs)
  show ?case
  proof (cases "is_b64_space c \<or> e")
    case True
    show ?thesis
    proof (cases "is_b64_space c")
      case sp: True
      then have "decode_loop ctx out (c # cs) = decode_loop ctx out cs"
        "filter (\<lambda>c. \<not> is_b64_space c) (c # cs) = filter (\<lambda>c. \<not> is_b64_space c) cs" by simp_all
      then show ?thesis using Cons.IH [OF Cons.prems, of out] by (simp only:)
    next
      case False
      then show ?thesis using True Cons.prems by (simp add: dec_ctx_def)
    qed
  next
    case False
    then have "\<not> e" "\<not> is_b64_space c" by auto
    note put = dec_ctx_put [OF Cons.prems \<open>\<not> e\<close>, of c]
    have u: "data_used ctx = length p" "length p < 4" "length (ctx_data ctx) = 48" "\<not> eof_seen ctx" "\<not> error_encountered ctx"
      using Cons.prems \<open>\<not> e\<close> by (auto simp: dec_ctx_def)
    let ?d = "(ctx_data ctx)[length p := c]"
    let ?c = "ctx\<lparr>ctx_data := ?d, data_used := length p + 1\<rparr>"
    show ?thesis
    proof (cases "length p = 3")
      case True
      have q: "base64_decode_quad ?d = base64_decode_quad (p @ [c])"
        using decode_quad_take [of ?d] put True u(3) by simp
      show ?thesis
      proof (cases "base64_decode_quad (p @ [c])")
        case None
        then show ?thesis using False True u q by simp
      next
        case (Some bs)
        let ?c' = "?c\<lparr>data_used := 0, eof_seen := length bs < 3\<rparr>"
        have "dec_ctx ?c' (length bs < 3) []" using u by (simp add: dec_ctx_def)
        from Cons.IH [OF this, of "out @ bs"]
        show ?thesis using False True u q Some by (auto split: option.splits)
      qed
    next
      case F: False
      have "dec_ctx ?c e (p @ [c])" using put u F \<open>\<not> e\<close> by (simp add: dec_ctx_def)
      moreover have "decode_loop ctx out (c # cs) = decode_loop ?c out cs" using False F u by simp
      moreover have "dec e p (filter (\<lambda>c. \<not> is_b64_space c) (c # cs)) = dec e (p @ [c]) (filter (\<lambda>c. \<not> is_b64_space c) cs)"
        using False F by simp
      ultimately show ?thesis using Cons.IH [of ?c e "p @ [c]" out] by (simp only:)
    qed
  qed
qed


lemma dec_append:
  "dec e p (xs @ ys) =
     (case dec e p xs of
        None \<Rightarrow> None
      | Some (out, e', p') \<Rightarrow>
          (case dec e' p' ys of None \<Rightarrow> None | Some (out', r) \<Rightarrow> Some (out @ out', r)))"
  by (induction e p xs rule: dec.induct) (auto split: option.splits)

lemma decode_quad_length: "base64_decode_quad xs = Some bs \<Longrightarrow> 0 < length bs \<and> length bs \<le> 3"
  by (auto simp: base64_decode_quad_def Let_def split: if_splits)

lemma dec_length: "dec e p xs = Some (out, e', p') \<Longrightarrow> length p < 4 \<Longrightarrow> 4 * length out \<le> 3 * (length p + length xs)"
proof (induction e p xs arbitrary: out e' p' rule: dec.induct)
  case (2 e p c cs)
  show ?case
  proof (cases "length p = 3")
    case True
    with "2.prems"(1) obtain bs w where q: "base64_decode_quad (p @ [c]) = Some bs" "dec (length bs < 3) [] cs = Some (w, e', p')"
      "out = bs @ w" "\<not> e" by (auto split: option.splits if_splits)
    then have "4 * length w \<le> 3 * length cs" using "2.IH"(1) [OF _ True q(1)] by simp
    then show ?thesis using True q(3) decode_quad_length [OF q(1)] by simp
  next
    case False
    then show ?thesis using 2 by (auto split: if_splits)
  qed
qed simp

lemma dec_done: "dec True [] xs = (if xs = [] then Some ([], True, []) else None)"
  by (cases xs) auto

text \<open>On a whole text the stream decoder is the block decoder.\<close>

lemma dec_decode_quads:
  "(\<exists>e. dec False [] xs = Some (out, e, [])) \<longleftrightarrow> length xs mod 4 = 0 \<and> decode_quads xs = Some out"
proof (induction xs arbitrary: out rule: decode_quads.induct)
  case (1 a b c d rest)
  have "length (a # b # c # d # rest) = length rest + 4" by simp
  then have len: "length (a # b # c # d # rest) mod 4 = 0 \<longleftrightarrow> length rest mod 4 = 0" by (simp only: mod_add_self2)
  show ?case
  proof (cases "base64_decode_quad [a, b, c, d]")
    case None
    then show ?thesis by simp
  next
    case (Some bs)
    have step: "dec False [] (a # b # c # d # rest) =
        (case dec (length bs < 3) [] rest of None \<Rightarrow> None | Some (out, r) \<Rightarrow> Some (bs @ out, r))"
      using Some by simp
    have bs: "length bs \<le> 3" using decode_quad_length [OF Some] by simp
    show ?thesis
    proof (cases "length bs = 3")
      case True
      have "(\<exists>e. dec False [] (a # b # c # d # rest) = Some (out, e, [])) \<longleftrightarrow>
          (\<exists>w. out = bs @ w \<and> (\<exists>e. dec False [] rest = Some (w, e, [])))"
        unfolding step using True by (auto split: option.splits)
      also have "\<dots> \<longleftrightarrow> (\<exists>w. out = bs @ w \<and> length rest mod 4 = 0 \<and> decode_quads rest = Some w)"
        using "1.IH" [OF Some] True by simp
      also have "\<dots> \<longleftrightarrow> length (a # b # c # d # rest) mod 4 = 0 \<and> decode_quads (a # b # c # d # rest) = Some out"
        unfolding len using Some True by (auto split: option.splits)
      finally show ?thesis .
    next
      case False
      have "(\<exists>e. dec False [] (a # b # c # d # rest) = Some (out, e, [])) \<longleftrightarrow> rest = [] \<and> out = bs"
        unfolding step using False bs by (auto simp: dec_done)
      also have "\<dots> \<longleftrightarrow> length (a # b # c # d # rest) mod 4 = 0 \<and> decode_quads (a # b # c # d # rest) = Some out"
        unfolding len using Some False by auto
      finally show ?thesis .
    qed
  qed
qed auto

text \<open>What a caller collects that decodes the pieces \<open>cs\<close> one after the other.\<close>

fun decode_stream :: "encode_ctx \<Rightarrow> bytes list \<Rightarrow> bytes option" where
  "decode_stream ctx [] = (if EVP_DecodeFinal ctx = 1 then Some [] else None)"
| "decode_stream ctx (c # cs) =
     (case EVP_DecodeUpdate ctx c of
        (r, w, n, ctx') \<Rightarrow>
          if r < 0 then None
          else case decode_stream ctx' cs of None \<Rightarrow> None | Some ws \<Rightarrow> Some (take n w @ ws))"

lemma fits_aux: "a \<le> c \<Longrightarrow> 4 * w \<le> 3 * (p + a) \<Longrightarrow> c \<le> INT_MAX \<Longrightarrow> p < 4 \<Longrightarrow> \<not> w > INT_MAX" for w :: nat
  by simp

lemma decode_stream_dec:
  "dec_ctx ctx e p \<Longrightarrow> \<forall>c \<in> set cs. length c \<le> INT_MAX \<Longrightarrow>
   decode_stream ctx cs =
     (case dec e p (filter (\<lambda>c. \<not> is_b64_space c) (concat cs)) of
        Some (out, e', []) \<Rightarrow> Some out | _ \<Rightarrow> None)"
proof (induction cs arbitrary: ctx e p)
  case Nil
  then show ?case by (auto simp: EVP_DecodeFinal_def dec_ctx_def split: list.split)
next
  case (Cons c cs)
  let ?f = "filter (\<lambda>c. \<not> is_b64_space c)"
  have err: "\<not> error_encountered ctx" "length p < 4" using Cons.prems(1) by (simp_all add: dec_ctx_def)
  have app: "dec e p (?f (concat (c # cs))) = (case dec e p (?f c) of None \<Rightarrow> None
      | Some (out, e', p') \<Rightarrow> (case dec e' p' (?f (concat cs)) of None \<Rightarrow> None | Some (out', r) \<Rightarrow> Some (out @ out', r)))"
    by (simp add: dec_append)
  show ?case
  proof (cases "dec e p (?f c)")
    case None
    with decode_loop_dec [OF Cons.prems(1), where inp = c and out = "[]"] obtain ctx' w where "decode_loop ctx [] c = (False, ctx', w)" by auto
    then show ?thesis unfolding app None by (simp add: EVP_DecodeUpdate_def err)
  next
    case (Some r)
    obtain w e' p' where r: "r = (w, e', p')" by (metis prod_cases3)
    obtain ctx' where ctx': "decode_loop ctx [] c = (True, ctx', w)" "dec_ctx ctx' e' p'"
      using decode_loop_dec [OF Cons.prems(1), where inp = c and out = "[]"] Some r by auto
    have "length (?f c) \<le> length c" by (rule length_filter_le)
    moreover have "4 * length w \<le> 3 * (length p + length (?f c))"
      using dec_length [of e p "?f c" w e' p'] Some r err(2) by simp
    moreover have "length c \<le> INT_MAX" using Cons.prems(2) by simp
    ultimately have "\<not> length w > INT_MAX" using err(2) by (rule fits_aux)
    then have u: "EVP_DecodeUpdate ctx c = (if eof_seen ctx' then 0 else 1, w, length w, ctx')"
      using ctx'(1) err(1) by (simp add: EVP_DecodeUpdate_def)
    have "decode_stream ctx (c # cs) = (case decode_stream ctx' cs of None \<Rightarrow> None | Some ws \<Rightarrow> Some (w @ ws))"
      using u by (simp split: option.split)
    also have "\<dots> = (case dec e p (?f (concat (c # cs))) of Some (out, e', []) \<Rightarrow> Some out | _ \<Rightarrow> None)"
      unfolding app Some r using Cons.IH [OF ctx'(2)] Cons.prems(2)
      by (simp split: option.split list.split)
    finally show ?thesis .
  qed
qed

lemma option_eqI: "(\<And>x. a = Some x \<longleftrightarrow> b = Some x) \<Longrightarrow> a = b"
  by (cases a; cases b) auto

lemma dec_ctx_init: "dec_ctx EVP_DecodeInit False []"
  by (simp add: dec_ctx_def EVP_DecodeInit_def)

lemma decode_stream_quads:
  assumes "\<forall>c \<in> set cs. length c \<le> INT_MAX"
  shows "decode_stream EVP_DecodeInit cs =
    (let t = filter (\<lambda>c. \<not> is_b64_space c) (concat cs) in if length t mod 4 = 0 then decode_quads t else None)"
proof -
  let ?t = "filter (\<lambda>c. \<not> is_b64_space c) (concat cs)"
  have "decode_stream EVP_DecodeInit cs = (case dec False [] ?t of Some (out, e', []) \<Rightarrow> Some out | _ \<Rightarrow> None)"
    by (rule decode_stream_dec [OF dec_ctx_init assms])
  also have "\<dots> = Some out \<longleftrightarrow> (\<exists>e. dec False [] ?t = Some (out, e, []))" for out
    by (auto split: option.split list.split prod.split)
  finally have "decode_stream EVP_DecodeInit cs = Some out \<longleftrightarrow> length ?t mod 4 = 0 \<and> decode_quads ?t = Some out" for out
    unfolding dec_decode_quads .
  then have "decode_stream EVP_DecodeInit cs = Some out \<longleftrightarrow> (if length ?t mod 4 = 0 then decode_quads ?t else None) = Some out" for out
    by simp
  then show ?thesis unfolding Let_def by (rule option_eqI)
qed

section \<open>Lines are blocks with white space\<close>

lemma encode_loop_append: "length xs mod 3 = 0 \<Longrightarrow> encode_loop (xs @ ys) = encode_loop xs @ encode_loop ys"
proof (induction xs rule: encode_loop.induct)
  case (4 a b c rest)
  then have "length rest mod 3 = 0" by (simp add: mod_Suc split: if_splits)
  with 4 show ?case by (simp add: encode_loop_digits(3))
qed simp_all

lemma b64_lines_filter: "filter (\<lambda>c. \<not> is_b64_space c) (b64_lines xs) = encode_loop xs"
proof (induction xs rule: b64_lines.induct)
  case (1 xs)
  show ?case
  proof (cases "xs = []")
    case False
    have id: "filter (\<lambda>c. \<not> is_b64_space c) (encode_loop (take 48 xs)) = encode_loop (take 48 xs)"
      using encode_loop_no_space by (auto intro: filter_True)
    have nl: "is_b64_space 10" by (simp add: is_b64_space_def)
    have "encode_loop xs = encode_loop (take 48 xs @ drop 48 xs)" by simp
    also have "\<dots> = encode_loop (take 48 xs) @ encode_loop (drop 48 xs)"
    proof (cases "48 \<le> length xs")
      case True
      then show ?thesis by (intro encode_loop_append) simp
    qed simp
    finally show ?thesis using 1 [OF False] b64_lines_step [OF False] id nl by simp
  qed simp
qed


section \<open>Properties\<close>

lemma pad_to_3:
  "(3 - n mod 3) mod 3 = (n + 2) div 3 * 3 - n" "n + (3 - n mod 3) mod 3 = (n + 2) div 3 * 3" for n :: nat
proof -
  obtain q r where n: "n = 3 * q + r" "r < 3" using mult_div_mod_eq [of 3 n] mod_less_divisor [of 3 n] by (metis zero_less_numeral)
  then have "r = 0 \<or> r = 1 \<or> r = 2" by linarith
  then have d: "(n + 2) div 3 = q + (if r = 0 then 0 else 1)" using n(1) by auto
  have m: "n mod 3 = r" using n by simp
  have "(3 - n mod 3) mod 3 = (n + 2) div 3 * 3 - n \<and> n + (3 - n mod 3) mod 3 = (n + 2) div 3 * 3"
    unfolding m d using n(1) \<open>r = 0 \<or> r = 1 \<or> r = 2\<close> by auto
  then show "(3 - n mod 3) mod 3 = (n + 2) div 3 * 3 - n" "n + (3 - n mod 3) mod 3 = (n + 2) div 3 * 3" by blast+
qed

text \<open>C23: What \<open>EVP_EncodeBlock\<close> writes decodes to the bytes that were encoded, with
  \<open>EVP_DecodeBase64\<close> exactly and with \<open>EVP_DecodeBlock\<close> padded with zeros to a multiple of three.\<close>

theorem base64_block_roundtrip:
  assumes "EVP_EncodeBlock xs = (dst, n)" "(length xs + 2) div 3 * 3 \<le> max_out"
  shows "EVP_DecodeBase64 max_out (take n dst) = Some xs \<and>
    (max_out \<le> INT_MAX \<longrightarrow> EVP_DecodeBlock (take n dst) =
      (int ((length xs + 2) div 3 * 3), xs @ replicate ((length xs + 2) div 3 * 3 - length xs) 0))"
proof -
  let ?e = "encode_loop xs"
  have t: "take n dst = ?e" using assms(1) by (auto simp: EVP_EncodeBlock_def Let_def)
  have len: "length ?e mod 4 = 0" "EVP_DecodedLength (length ?e) = Some ((length xs + 2) div 3 * 3)"
    by (simp_all add: length_encode_loop EVP_DecodedLength_def)
  have dec: "EVP_DecodeBase64 m ?e = Some xs" if "(length xs + 2) div 3 * 3 \<le> m" for m
    using that len by (simp add: EVP_DecodeBase64_def decode_encode)
  have sp: "\<not> is_b64_space c" if "c \<in> set ?e" for c by (rule encode_loop_no_space [OF that])
  have "dropWhile is_b64_space (rev ?e) = rev ?e"
    using sp hd_in_set [of "rev ?e"] by (cases "rev ?e") (auto simp: dropWhile_eq_self_iff)
  moreover have "dropWhile (\<lambda>c. c = 32 \<or> c = 9) ?e = ?e"
    using sp hd_in_set [of ?e] by (cases ?e) (auto simp: dropWhile_eq_self_iff is_b64_space_def)
  moreover have pad: "(3 - length xs mod 3) mod 3 = (length xs + 2) div 3 * 3 - length xs"
    "length xs + (3 - length xs mod 3) mod 3 = (length xs + 2) div 3 * 3" by (rule pad_to_3)+
  ultimately show ?thesis unfolding t
    using dec assms(2) by (simp add: EVP_DecodeBlock_def Let_def len(2))
qed

lemma base64_block_roundtrip_witness:
  "EVP_DecodeBase64 3 (take 4 (encode_loop [102] @ [0])) = Some [102]"
proof -
  have "EVP_EncodeBlock [102] = (encode_loop [102] @ [0], 4)" by (simp add: EVP_EncodeBlock_def encode_loop_digits)
  from base64_block_roundtrip [OF this, of 3] show ?thesis by simp
qed

text \<open>C24: A block is accepted when and only when it is made of base64 digits, at the end at most two of
  the characters \<open>=\<close>, a multiple of four in all (and the output buffer has room); a block
  without padding is the encoding of the result.\<close>

theorem base64_accepts:
  "(EVP_DecodeBase64 max_out inp \<noteq> None \<longleftrightarrow>
      length inp div 4 * 3 \<le> max_out \<and> length inp mod 4 = 0 \<and>
      (\<exists>ds pad. inp = map (\<lambda>n. b64_alphabet ! n) ds @ replicate pad 61 \<and> (\<forall>n \<in> set ds. n < 64) \<and> pad \<le> 2)) \<and>
   (EVP_DecodeBase64 max_out inp = Some xs \<and> 61 \<notin> set inp \<longrightarrow> EVP_EncodeBlock xs = (inp @ [0], length inp))"
proof -
  have d: "(\<lambda>n. b64_alphabet ! n) = b64_digit" by (simp add: b64_digit_def fun_eq_iff)
  have base: "EVP_DecodeBase64 max_out inp = (if length inp mod 4 = 0 \<and> length inp div 4 * 3 \<le> max_out then decode_quads inp else None)"
    by (simp add: EVP_DecodeBase64_def EVP_DecodedLength_def)
  show ?thesis
    unfolding base d using decode_quads_iff [of inp] reencode [of inp xs]
    by (auto simp: b64_text_def EVP_EncodeBlock_def Let_def)
qed

lemma base64_accepts_witness: "EVP_EncodeBlock [0, 16, 131] = (map b64_digit [0, 1, 2, 3] @ [0], 4)"
proof -
  let ?inp = "map b64_digit [0, 1, 2, 3]"
  have "EVP_DecodeBase64 3 ?inp = Some [0, 16, 131]"
    using decode_quad_digits(1) [of 0 1 2 3] by (simp add: EVP_DecodeBase64_def EVP_DecodedLength_def)
  moreover have "61 \<notin> set ?inp" using digit_not_equals [of 0] digit_not_equals [of 1] digit_not_equals [of 2] digit_not_equals [of 3] by simp
  ultimately show ?thesis using base64_accepts [of 3 ?inp "[0, 16, 131]"] by simp
qed

lemma div_times_3_le: "\<not> (n :: nat) < n div 4 * 3"
  by presburger

text \<open>C7: Encoding a stream yields its lines (48 bytes each, the last perhaps shorter, each followed by
  a newline), whatever the pieces it is passed in; decoding any stream, in whatever pieces, is
  decoding the block without its white space, errors included; so the encoded stream decodes to
  the bytes that went in.\<close>

theorem base64_streams:
  assumes "\<forall>c \<in> set cs. length c \<le> 2 ^ 30" "\<forall>d \<in> set ds. length d \<le> INT_MAX"
  shows "encode_stream EVP_EncodeInit cs = b64_lines (concat cs) \<and>
    (decode_stream EVP_DecodeInit ds =
      (let t = filter (\<lambda>c. \<not> is_b64_space c) (concat ds) in EVP_DecodeBase64 (length t) t)) \<and>
    (concat ds = encode_stream EVP_EncodeInit cs \<longrightarrow> decode_stream EVP_DecodeInit ds = Some (concat cs))"
proof (intro conjI impI)
  show e: "encode_stream EVP_EncodeInit cs = b64_lines (concat cs)"
    using encode_stream_lines [OF enc_ctx_init assms(1)] by simp
  show "decode_stream EVP_DecodeInit ds =
      (let t = filter (\<lambda>c. \<not> is_b64_space c) (concat ds) in EVP_DecodeBase64 (length t) t)"
    unfolding decode_stream_quads [OF assms(2)] Let_def EVP_DecodeBase64_def EVP_DecodedLength_def
    using div_times_3_le by simp
  assume "concat ds = encode_stream EVP_EncodeInit cs"
  then show "decode_stream EVP_DecodeInit ds = Some (concat cs)"
    unfolding decode_stream_quads [OF assms(2)] e by (simp add: b64_lines_filter decode_encode length_encode_loop)
qed

lemma base64_streams_witness:
  "decode_stream EVP_DecodeInit [encode_stream EVP_EncodeInit [[1, 2], [3]]] = Some [1, 2, 3]"
proof -
  define S where "S = encode_stream EVP_EncodeInit [[1, 2], [3]]"
  have "S = b64_lines [1, 2, 3]"
    using base64_streams [of "[[1, 2], [3]]" "[]"] unfolding S_def [symmetric] by simp
  then have "length S \<le> INT_MAX" using length_b64_lines [of "[1, 2, 3]"] by simp
  then show ?thesis
    using base64_streams [of "[[1, 2], [3]]" "[S]"] unfolding S_def [symmetric] by (auto simp del: decode_stream.simps)
qed

text \<open>\<open>EVP_EncodedLength\<close> is the number of bytes \<open>EVP_EncodeBlock\<close> writes, the NUL included, and fails
  exactly when that number does not fit in a \<open>size_t\<close>.\<close>

theorem base64_encoded_length:
  assumes "length xs < SIZE_MODULUS"
  shows "EVP_EncodedLength (length xs) =
    (if length (fst (EVP_EncodeBlock xs)) < SIZE_MODULUS then Some (length (fst (EVP_EncodeBlock xs))) else None)"
proof -
  let ?n = "length xs"
  have w: "length (fst (EVP_EncodeBlock xs)) = (?n + 2) div 3 * 4 + 1"
    by (simp add: EVP_EncodeBlock_def Let_def length_encode_loop)
  show ?thesis
  proof (cases "?n + 2 < SIZE_MODULUS")
    case False
    then have "(?n + 2) mod SIZE_MODULUS < ?n" using assms by (simp add: le_mod_geq)
    moreover have "\<not> (?n + 2) div 3 * 4 + 1 < SIZE_MODULUS" using False by simp
    ultimately show ?thesis unfolding w by (simp add: EVP_EncodedLength_def)
  next
    case True
    let ?m = "(?n + 2) div 3"
    have m: "?m < SIZE_MODULUS" using True by simp
    show ?thesis
    proof (cases "?m * 4 < SIZE_MODULUS")
      case T2: True
      have "?m * 4 + 1 < SIZE_MODULUS"
      proof -
        have "?m * 4 mod 4 \<noteq> (SIZE_MODULUS - 1) mod 4" by simp
        then have "?m * 4 \<noteq> SIZE_MODULUS - 1" by metis
        with T2 show ?thesis by simp
      qed
      then show ?thesis unfolding w using True T2 by (simp add: EVP_EncodedLength_def Let_def)
    next
      case False
      have "?m * 4 mod SIZE_MODULUS < ?m * 4" using False by (intro less_le_trans [OF mod_less_divisor]) auto
      then have "?m * 4 mod SIZE_MODULUS div 4 < ?m" by (rule less_mult_imp_div_less)
      then show ?thesis unfolding w using True False by (simp add: EVP_EncodedLength_def Let_def)
    qed
  qed
qed

lemma base64_encoded_length_witness: "EVP_EncodedLength 3 = Some 5"
proof -
  let ?xs = "[1, 2, 3 :: byte]"
  have l: "length ?xs = 3" by simp
  have w: "length (fst (EVP_EncodeBlock ?xs)) = 5"
    by (simp add: EVP_EncodeBlock_def Let_def encode_loop_digits)
  have "length ?xs < SIZE_MODULUS" by simp
  from base64_encoded_length [OF this] show ?thesis unfolding l w by simp
qed

end
