(* ===== verification/BioPair.thy ===== *)
theory BioPair
  imports Mem
begin

text \<open>
  The BIO pairs of \<open>crypto/bio/pair.c\<close> with the calls of \<open>crypto/bio/bio.c\<close> that reach them: two
  BIOs, each with a ring buffer for what it writes, which the other end reads.  BIOs live in a
  store and name their peer by its address.  A failed \<open>assert\<close>, the dereference of a missing
  pointer and a loop that does not end are the value \<open>None\<close>; the lemmas show that none of them
  happens on a pair that was made by \<open>BIO_new_bio_pair\<close>.
\<close>

section \<open>The code\<close>

subsection \<open>The state\<close>

type_synonym bio_id = nat

text \<open>\<open>buf\<close> is \<open>NULL\<close> or has \<open>size\<close> elements.  Of \<open>struct bio_st\<close>, the method table, which is
  always that of \<open>pair.c\<close> here, \<open>num\<close>, and the chain \<open>next_bio\<close> are left out.\<close>

record bio_bio =
  peer :: "bio_id option"
  closed :: bool
  blen :: nat
  offset :: nat
  bsize :: nat
  buf :: "bytes option"
  request :: nat

record bio =
  init :: bool
  shutdown :: int
  flags :: u32
  retry_reason :: int
  references :: nat
  ptr :: "bio_bio option"
  num_read :: nat
  num_write :: nat

type_synonym store = "bio_id \<Rightarrow> bio option"

abbreviation (input) sizeof_bio :: nat where "sizeof_bio \<equiv> 72"
abbreviation (input) sizeof_bio_bio :: nat where "sizeof_bio_bio \<equiv> 56"
abbreviation (input) INT_MAX :: nat where "INT_MAX \<equiv> 0x7fffffff"

definition BIO_FLAGS_READ :: u32 where "BIO_FLAGS_READ = 0x01"
definition BIO_FLAGS_WRITE :: u32 where "BIO_FLAGS_WRITE = 0x02"
definition BIO_FLAGS_IO_SPECIAL :: u32 where "BIO_FLAGS_IO_SPECIAL = 0x04"
definition BIO_FLAGS_RWS :: u32 where
  "BIO_FLAGS_RWS = BIO_FLAGS_READ OR BIO_FLAGS_WRITE OR BIO_FLAGS_IO_SPECIAL"
definition BIO_FLAGS_SHOULD_RETRY :: u32 where "BIO_FLAGS_SHOULD_RETRY = 0x08"
definition kRetryFlags :: u32 where "kRetryFlags = BIO_FLAGS_RWS OR BIO_FLAGS_SHOULD_RETRY"

text \<open>\<open>x\<rightarrow>f = v\<close> on a BIO and on its \<open>bio_bio_st\<close>.\<close>

definition upd_bio :: "bio_id \<Rightarrow> (bio \<Rightarrow> bio) \<Rightarrow> store \<Rightarrow> store" where
  "upd_bio i f s = s(i := map_option f (s i))"

definition upd_ptr :: "bio_id \<Rightarrow> (bio_bio \<Rightarrow> bio_bio) \<Rightarrow> store \<Rightarrow> store" where
  "upd_ptr i f s = upd_bio i (\<lambda>x. x\<lparr>ptr := map_option f (ptr x)\<rparr>) s"

definition bio_ptr :: "store \<Rightarrow> bio_id \<Rightarrow> bio_bio option" where
  "bio_ptr s i = Option.bind (s i) ptr"

definition BIO_set_flags :: "u32 \<Rightarrow> bio \<Rightarrow> bio" where
  "BIO_set_flags fl x = x\<lparr>flags := flags x OR fl\<rparr>"

definition BIO_test_flags :: "bio \<Rightarrow> u32 \<Rightarrow> u32" where
  "BIO_test_flags x fl = flags x AND fl"

definition BIO_should_read :: "bio \<Rightarrow> bool" where
  "BIO_should_read x \<longleftrightarrow> BIO_test_flags x BIO_FLAGS_READ \<noteq> 0"

definition BIO_should_write :: "bio \<Rightarrow> bool" where
  "BIO_should_write x \<longleftrightarrow> BIO_test_flags x BIO_FLAGS_WRITE \<noteq> 0"

definition BIO_should_retry :: "bio \<Rightarrow> bool" where
  "BIO_should_retry x \<longleftrightarrow> BIO_test_flags x BIO_FLAGS_SHOULD_RETRY \<noteq> 0"

definition BIO_set_retry_read :: "bio \<Rightarrow> bio" where
  "BIO_set_retry_read x = x\<lparr>flags := flags x OR (BIO_FLAGS_READ OR BIO_FLAGS_SHOULD_RETRY)\<rparr>"

definition BIO_set_retry_write :: "bio \<Rightarrow> bio" where
  "BIO_set_retry_write x = x\<lparr>flags := flags x OR (BIO_FLAGS_WRITE OR BIO_FLAGS_SHOULD_RETRY)\<rparr>"

definition BIO_get_retry_flags :: "bio \<Rightarrow> u32" where
  "BIO_get_retry_flags x = flags x AND kRetryFlags"

definition BIO_clear_retry_flags :: "bio \<Rightarrow> bio" where
  "BIO_clear_retry_flags x = x\<lparr>flags := flags x AND NOT kRetryFlags, retry_reason := 0\<rparr>"

subsection \<open>Creation and destruction\<close>

definition pair_bio_new :: "allocator \<Rightarrow> bio_id \<Rightarrow> store \<Rightarrow> bool \<times> store" where
  "pair_bio_new al i s =
     (if \<not> OPENSSL_malloc al sizeof_bio_bio then (False, s)
      else (True, upd_bio i (\<lambda>x. x\<lparr>ptr := Some \<lparr>peer = None, closed = False, blen = 0, offset = 0,
              bsize = 17 * 1024, buf = None, request = 0\<rparr>\<rparr>) s))"

text \<open>\<open>BIO_new (bio_s_bio ())\<close>; \<open>i\<close> is the address \<open>malloc\<close> returns.\<close>

definition BIO_new_pair_end :: "allocator \<Rightarrow> bio_id \<Rightarrow> store \<Rightarrow> bio_id option \<times> store" where
  "BIO_new_pair_end al i s =
     (if \<not> OPENSSL_malloc al sizeof_bio then (None, s)
      else let s1 = s(i \<mapsto> \<lparr>init = False, shutdown = 1, flags = 0, retry_reason = 0, references = 1,
                          ptr = None, num_read = 0, num_write = 0\<rparr>)
           in case pair_bio_new al i s1 of
                (False, s2) \<Rightarrow> (None, s2(i := None))
              | (True, s2) \<Rightarrow> (Some i, s2))"

definition bio_destroy_pair :: "bio_id \<Rightarrow> store \<Rightarrow> store option" where
  "bio_destroy_pair i s =
     (case bio_ptr s i of
        None \<Rightarrow> Some s
      | Some b \<Rightarrow>
          (case peer b of
             None \<Rightarrow> Some s
           | Some j \<Rightarrow>
               (case bio_ptr s j of
                  None \<Rightarrow> None
                | Some peer_b \<Rightarrow>
                    if peer peer_b \<noteq> Some i \<or> buf peer_b = None \<or> buf b = None then None
                    else let s = upd_ptr j (\<lambda>b. b\<lparr>peer := None\<rparr>) s;
                             s = upd_bio j (\<lambda>x. x\<lparr>init := False\<rparr>) s;
                             s = upd_ptr j (\<lambda>b. b\<lparr>blen := 0, offset := 0\<rparr>) s;
                             s = upd_ptr i (\<lambda>b. b\<lparr>peer := None\<rparr>) s;
                             s = upd_bio i (\<lambda>x. x\<lparr>init := False\<rparr>) s
                         in Some (upd_ptr i (\<lambda>b. b\<lparr>blen := 0, offset := 0\<rparr>) s))))"

definition pair_bio_free :: "bio_id \<Rightarrow> store \<Rightarrow> store option" where
  "pair_bio_free i s =
     (case bio_ptr s i of
        None \<Rightarrow> None
      | Some b \<Rightarrow>
          (case (if peer b \<noteq> None then bio_destroy_pair i s else Some s) of
             None \<Rightarrow> None
           | Some s \<Rightarrow> Some (upd_bio i (\<lambda>x. x\<lparr>ptr := None\<rparr>) s)))"

text \<open>Reference counts saturate; \<open>None\<close> is \<open>abort ()\<close>.\<close>

abbreviation (input) CRYPTO_REFCOUNT_MAX :: nat where "CRYPTO_REFCOUNT_MAX \<equiv> 0xffffffff"

definition CRYPTO_refcount_inc :: "nat \<Rightarrow> nat" where
  "CRYPTO_refcount_inc cnt = (if cnt < CRYPTO_REFCOUNT_MAX then cnt + 1 else cnt)"

definition CRYPTO_refcount_dec_and_test_zero :: "nat \<Rightarrow> (bool \<times> nat) option" where
  "CRYPTO_refcount_dec_and_test_zero cnt =
     (if cnt = 0 then None
      else let cnt = (if cnt < CRYPTO_REFCOUNT_MAX then cnt - 1 else cnt) in Some (cnt = 0, cnt))"

text \<open>\<open>BIO_free\<close> of one end; nothing was pushed on it, so its chain ends here.\<close>

definition BIO_free_pair_end :: "bio_id option \<Rightarrow> store \<Rightarrow> (int \<times> store) option" where
  "BIO_free_pair_end bio s =
     (case bio of
        None \<Rightarrow> Some (1, s)
      | Some i \<Rightarrow>
          (case s i of
             None \<Rightarrow> None
           | Some x \<Rightarrow>
               (case CRYPTO_refcount_dec_and_test_zero (references x) of
                  None \<Rightarrow> None
                | Some (zero, cnt) \<Rightarrow>
                    let s = upd_bio i (\<lambda>x. x\<lparr>references := cnt\<rparr>) s
                    in if \<not> zero then Some (0, s)
                       else (case pair_bio_free i s of
                               None \<Rightarrow> None | Some s \<Rightarrow> Some (1, s(i := None))))))"

definition BIO_up_ref :: "bio_id \<Rightarrow> store \<Rightarrow> int \<times> store" where
  "BIO_up_ref i s = (1, upd_bio i (\<lambda>x. x\<lparr>references := CRYPTO_refcount_inc (references x)\<rparr>) s)"

text \<open>One half of \<open>bio_make_pair\<close>: the buffer of one end.  Its bytes are not read before they are
  written.\<close>

definition make_buffer :: "allocator \<Rightarrow> nat \<Rightarrow> bio_bio \<Rightarrow> bio_bio option" where
  "make_buffer al writebuf_len b =
     (if buf b \<noteq> None then Some b
      else let b = (if writebuf_len \<noteq> 0 then b\<lparr>bsize := writebuf_len\<rparr> else b)
           in if \<not> OPENSSL_malloc al (bsize b) then None
              else Some (b\<lparr>buf := Some (replicate (bsize b) 0), blen := 0, offset := 0\<rparr>))"

definition bio_make_pair :: "allocator \<Rightarrow> allocator \<Rightarrow> bio_id \<Rightarrow> bio_id \<Rightarrow> nat \<Rightarrow> nat \<Rightarrow> store \<Rightarrow> (bool \<times> store) option" where
  "bio_make_pair al1 al2 i j len1 len2 s =
     (case (bio_ptr s i, bio_ptr s j) of
        (Some b1, Some b2) \<Rightarrow>
          if peer b1 \<noteq> None \<or> peer b2 \<noteq> None then Some (False, s)
          else (case make_buffer al1 len1 b1 of
             None \<Rightarrow> Some (False, upd_ptr i (\<lambda>b. if len1 \<noteq> 0 then b\<lparr>bsize := len1\<rparr> else b) s)
           | Some b1' \<Rightarrow>
               let s1 = upd_ptr i (\<lambda>_. b1') s
               in (case make_buffer al2 len2 b2 of
                     None \<Rightarrow> Some (False, upd_ptr j (\<lambda>b. if len2 \<noteq> 0 then b\<lparr>bsize := len2\<rparr> else b) s1)
                   | Some b2' \<Rightarrow>
                       let s2 = upd_ptr j (\<lambda>_. b2') s1;
                           s3 = upd_ptr i (\<lambda>b. b\<lparr>peer := Some j, closed := False, request := 0\<rparr>) s2;
                           s4 = upd_ptr j (\<lambda>b. b\<lparr>peer := Some i, closed := False, request := 0\<rparr>) s3
                       in Some (True, upd_bio j (\<lambda>x. x\<lparr>init := True\<rparr>) (upd_bio i (\<lambda>x. x\<lparr>init := True\<rparr>) s4))))
      | _ \<Rightarrow> None)"

text \<open>The two addresses \<open>malloc\<close> would return are arguments.  The four calls that allocate, two of which
  ask for equal sizes, are answered independently by \<open>als 0\<close> to \<open>als 3\<close>.\<close>

definition BIO_new_bio_pair ::
  "(nat \<Rightarrow> allocator) \<Rightarrow> bio_id \<Rightarrow> bio_id \<Rightarrow> nat \<Rightarrow> nat \<Rightarrow> store \<Rightarrow> ((bio_id \<times> bio_id) option \<times> store) option" where
  "BIO_new_bio_pair als i j writebuf1_len writebuf2_len s =
     (case BIO_new_pair_end (als 0) i s of
        (bio1, s1) \<Rightarrow>
      case BIO_new_pair_end (als 1) j s1 of
        (bio2, s2) \<Rightarrow>
          let free = (\<lambda>s. case BIO_free_pair_end bio1 s of
                             None \<Rightarrow> None
                           | Some (_, s) \<Rightarrow> (case BIO_free_pair_end bio2 s of
                                None \<Rightarrow> None | Some (_, s) \<Rightarrow> Some (None, s)))
          in (case (bio1, bio2) of
                (Some a, Some b) \<Rightarrow>
                  (case bio_make_pair (als 2) (als 3) a b writebuf1_len writebuf2_len s2 of
                     None \<Rightarrow> None
                   | Some (False, s3) \<Rightarrow> free s3
                   | Some (True, s3) \<Rightarrow> Some (Some (a, b), s3))
              | _ \<Rightarrow> free s2))"

subsection \<open>Reading and writing\<close>

text \<open>The loop of \<open>bio_read\<close> on the ring of the peer: the ring and the bytes copied out.\<close>

partial_function (option) read_loop :: "bio_bio \<Rightarrow> bytes \<Rightarrow> nat \<Rightarrow> bytes \<Rightarrow> (bio_bio \<times> bytes) option" where
  "read_loop b ring rest out =
     (if \<not> rest \<le> blen b then None
      else let chunk = (if offset b + rest \<le> bsize b then rest else bsize b - offset b)
           in if \<not> offset b + chunk \<le> bsize b then None
              else let out' = out @ take chunk (drop (offset b) ring);
                       b' = b\<lparr>blen := blen b - chunk\<rparr>
                   in if blen b' \<noteq> 0
                      then if \<not> offset b' + chunk \<le> bsize b' then None
                           else let b'' = b'\<lparr>offset := (if offset b' + chunk = bsize b' then 0 else offset b' + chunk)\<rparr>
                                in if rest - chunk \<noteq> 0 then read_loop b'' ring (rest - chunk) out' else Some (b'', out')
                      else if chunk \<noteq> rest then None
                           else Some (b'\<lparr>offset := 0\<rparr>, out'))"

text \<open>\<open>dst\<close> says that the caller's buffer is not \<open>NULL\<close>; the result is the value returned, the bytes
  copied to the buffer, and the store.\<close>

definition bio_read :: "bio_id \<Rightarrow> bool \<Rightarrow> nat \<Rightarrow> store \<Rightarrow> (int \<times> bytes \<times> store) option" where
  "bio_read i dst size0 s0 =
     (let s = upd_bio i BIO_clear_retry_flags s0
      in case s i of
           None \<Rightarrow> None
         | Some x \<Rightarrow>
             if \<not> init x then Some (0, [], s)
             else (case ptr x of
                None \<Rightarrow> None
              | Some b \<Rightarrow>
                  (case peer b of
                     None \<Rightarrow> None
                   | Some j \<Rightarrow>
                       (case bio_ptr s j of
                          None \<Rightarrow> None
                        | Some peer_b \<Rightarrow>
                            (case buf peer_b of
                               None \<Rightarrow> None
                             | Some ring \<Rightarrow>
                                 let s = upd_ptr j (\<lambda>b. b\<lparr>request := 0\<rparr>) s
                                 in if \<not> dst \<or> size0 = 0 then Some (0, [], s)
                                    else if blen peer_b = 0
                                    then if closed peer_b then Some (0, [], s)
                                         else Some (- 1, [],
                                                upd_ptr j (\<lambda>b. b\<lparr>request := (if size0 \<le> bsize b then size0 else bsize b)\<rparr>)
                                                  (upd_bio i BIO_set_retry_read s))
                                    else let size = (if blen peer_b < size0 then blen peer_b else size0)
                                         in (case read_loop (peer_b\<lparr>request := 0\<rparr>) ring size [] of
                                               None \<Rightarrow> None
                                             | Some (b', out) \<Rightarrow> Some (int size, out, upd_ptr j (\<lambda>_. b') s)))))))"

partial_function (option) write_loop :: "bio_bio \<Rightarrow> bytes \<Rightarrow> nat \<Rightarrow> bytes \<Rightarrow> (bio_bio \<times> bytes) option" where
  "write_loop b ring rest data =
     (if \<not> blen b + rest \<le> bsize b then None
      else let write_offset = (if offset b + blen b \<ge> bsize b then offset b + blen b - bsize b else offset b + blen b);
               chunk = (if write_offset + rest \<le> bsize b then rest else bsize b - write_offset);
               ring' = copy_at ring write_offset (take chunk data);
               b' = b\<lparr>blen := blen b + chunk\<rparr>
           in if \<not> blen b' \<le> bsize b' then None
              else if rest - chunk \<noteq> 0 then write_loop b' ring' (rest - chunk) (drop chunk data)
              else Some (b', ring'))"

text \<open>\<open>src\<close> is the caller's data, or \<open>None\<close> for \<open>NULL\<close>.\<close>

definition bio_write :: "bio_id \<Rightarrow> bytes option \<Rightarrow> store \<Rightarrow> (int \<times> store) option" where
  "bio_write i src s0 =
     (let s = upd_bio i BIO_clear_retry_flags s0
      in case s i of
           None \<Rightarrow> None
         | Some x \<Rightarrow>
             if \<not> init x \<or> src = None \<or> src = Some [] then Some (0, s)
             else (case ptr x of
                None \<Rightarrow> None
              | Some b \<Rightarrow>
                  (case (peer b, buf b, src) of
                     (Some _, Some ring, Some data) \<Rightarrow>
                       let s = upd_ptr i (\<lambda>b. b\<lparr>request := 0\<rparr>) s
                       in if closed b then Some (- 1, s)
                          else if \<not> blen b \<le> bsize b then None
                          else if blen b = bsize b then Some (- 1, upd_bio i BIO_set_retry_write s)
                          else let num = (if length data > bsize b - blen b then bsize b - blen b else length data)
                               in (case write_loop (b\<lparr>request := 0\<rparr>) ring num data of
                                     None \<Rightarrow> None
                                   | Some (b', ring') \<Rightarrow>
                                       Some (int num, upd_ptr i (\<lambda>_. b'\<lparr>buf := Some ring'\<rparr>) s))
                   | _ \<Rightarrow> None)))"

definition BIO_read :: "bio_id option \<Rightarrow> bool \<Rightarrow> int \<Rightarrow> store \<Rightarrow> (int \<times> bytes \<times> store) option" where
  "BIO_read bio dst len s =
     (case bio of
        None \<Rightarrow> Some (- 2, [], s)
      | Some i \<Rightarrow>
          (case s i of
             None \<Rightarrow> None
           | Some x \<Rightarrow>
               if \<not> init x then Some (- 2, [], s)
               else if len \<le> 0 then Some (0, [], s)
               else (case bio_read i dst (nat len) s of
                       None \<Rightarrow> None
                     | Some (ret, out, s) \<Rightarrow>
                         Some (ret, out, if ret > 0 then upd_bio i (\<lambda>x. x\<lparr>num_read := (num_read x + nat ret) mod SIZE_MODULUS\<rparr>) s else s))))"

text \<open>The length passed is that of the data.\<close>

definition BIO_write :: "bio_id option \<Rightarrow> bytes option \<Rightarrow> store \<Rightarrow> (int \<times> store) option" where
  "BIO_write bio src s =
     (case bio of
        None \<Rightarrow> Some (- 2, s)
      | Some i \<Rightarrow>
          (case s i of
             None \<Rightarrow> None
           | Some x \<Rightarrow>
               if \<not> init x then Some (- 2, s)
               else if src = Some [] then Some (0, s)
               else (case bio_write i src s of
                       None \<Rightarrow> None
                     | Some (ret, s) \<Rightarrow>
                         Some (ret, if ret > 0 then upd_bio i (\<lambda>x. x\<lparr>num_write := (num_write x + nat ret) mod SIZE_MODULUS\<rparr>) s else s))))"

partial_function (option) BIO_write_all :: "bio_id option \<Rightarrow> bytes \<Rightarrow> store \<Rightarrow> (bool \<times> store) option" where
  "BIO_write_all bio data s =
     (if data = [] then Some (True, s)
      else case BIO_write bio (Some (take INT_MAX data)) s of
             None \<Rightarrow> None
           | Some (ret, s') \<Rightarrow>
               if ret \<le> 0 then Some (False, s') else BIO_write_all bio (drop (nat ret) data) s')"


subsection \<open>Control calls\<close>

abbreviation (input) BIO_CTRL_EOF :: int where "BIO_CTRL_EOF \<equiv> 2"
abbreviation (input) BIO_CTRL_GET_CLOSE :: int where "BIO_CTRL_GET_CLOSE \<equiv> 8"
abbreviation (input) BIO_CTRL_SET_CLOSE :: int where "BIO_CTRL_SET_CLOSE \<equiv> 9"
abbreviation (input) BIO_CTRL_PENDING :: int where "BIO_CTRL_PENDING \<equiv> 10"
abbreviation (input) BIO_CTRL_FLUSH :: int where "BIO_CTRL_FLUSH \<equiv> 11"
abbreviation (input) BIO_CTRL_WPENDING :: int where "BIO_CTRL_WPENDING \<equiv> 13"
abbreviation (input) BIO_C_GET_WRITE_BUF_SIZE :: int where "BIO_C_GET_WRITE_BUF_SIZE \<equiv> 137"
abbreviation (input) BIO_C_GET_WRITE_GUARANTEE :: int where "BIO_C_GET_WRITE_GUARANTEE \<equiv> 140"
abbreviation (input) BIO_C_GET_READ_REQUEST :: int where "BIO_C_GET_READ_REQUEST \<equiv> 141"
abbreviation (input) BIO_C_SHUTDOWN_WR :: int where "BIO_C_SHUTDOWN_WR \<equiv> 142"
abbreviation (input) BIO_C_RESET_READ_REQUEST :: int where "BIO_C_RESET_READ_REQUEST \<equiv> 147"

text \<open>\<open>other\<close> is the pointer argument, a BIO or \<open>NULL\<close>.\<close>

text \<open>The conversion of a \<open>long\<close> to \<open>int\<close>.\<close>

definition int_of_long :: "int \<Rightarrow> int" where
  "int_of_long num = (num + 2 ^ 31) mod 2 ^ 32 - 2 ^ 31"

definition bio_ctrl :: "bio_id \<Rightarrow> int \<Rightarrow> int \<Rightarrow> bio_id option \<Rightarrow> store \<Rightarrow> (int \<times> store) option" where
  "bio_ctrl i cmd num other s =
     (case (s i, bio_ptr s i) of
        (Some x, Some b) \<Rightarrow>
          if cmd = BIO_C_GET_WRITE_BUF_SIZE then Some (int (bsize b), s)
          else if cmd = BIO_C_GET_WRITE_GUARANTEE
          then Some (if peer b = None \<or> closed b then 0 else int (bsize b) - int (blen b), s)
          else if cmd = BIO_C_GET_READ_REQUEST then Some (int (request b), s)
          else if cmd = BIO_C_RESET_READ_REQUEST then Some (1, upd_ptr i (\<lambda>b. b\<lparr>request := 0\<rparr>) s)
          else if cmd = BIO_C_SHUTDOWN_WR then Some (1, upd_ptr i (\<lambda>b. b\<lparr>closed := True\<rparr>) s)
          else if cmd = BIO_CTRL_GET_CLOSE then Some (shutdown x, s)
          else if cmd = BIO_CTRL_SET_CLOSE then Some (1, upd_bio i (\<lambda>x. x\<lparr>shutdown := int_of_long num\<rparr>) s)
          else if cmd = BIO_CTRL_PENDING
          then (case peer b of
                  None \<Rightarrow> Some (0, s)
                | Some j \<Rightarrow> (case bio_ptr s j of None \<Rightarrow> None | Some peer_b \<Rightarrow> Some (int (blen peer_b), s)))
          else if cmd = BIO_CTRL_WPENDING then Some (if buf b \<noteq> None then int (blen b) else 0, s)
          else if cmd = BIO_CTRL_FLUSH then Some (1, s)
          else if cmd = BIO_CTRL_EOF
          then (case other of
                  None \<Rightarrow> Some (1, s)
                | Some k \<Rightarrow>
                    (case bio_ptr s k of
                       None \<Rightarrow> None
                     | Some other_b \<Rightarrow> Some (of_bool (blen other_b = 0 \<and> closed other_b), s)))
          else Some (0, s)
      | _ \<Rightarrow> None)"

definition BIO_ctrl :: "bio_id option \<Rightarrow> int \<Rightarrow> int \<Rightarrow> bio_id option \<Rightarrow> store \<Rightarrow> (int \<times> store) option" where
  "BIO_ctrl bio cmd larg parg s =
     (case bio of None \<Rightarrow> Some (0, s) | Some i \<Rightarrow> bio_ctrl i cmd larg parg s)"

definition BIO_pending :: "bio_id option \<Rightarrow> store \<Rightarrow> int option" where
  "BIO_pending bio s =
     (case BIO_ctrl bio BIO_CTRL_PENDING 0 None s of
        None \<Rightarrow> None | Some (r, _) \<Rightarrow> if \<not> r \<ge> 0 then None else Some r)"

definition BIO_wpending :: "bio_id option \<Rightarrow> store \<Rightarrow> int option" where
  "BIO_wpending bio s =
     (case BIO_ctrl bio BIO_CTRL_WPENDING 0 None s of
        None \<Rightarrow> None | Some (r, _) \<Rightarrow> if \<not> r \<ge> 0 then None else Some r)"

definition BIO_ctrl_pending :: "bio_id option \<Rightarrow> store \<Rightarrow> int option" where
  "BIO_ctrl_pending bio s = BIO_pending bio s"

definition BIO_eof :: "bio_id option \<Rightarrow> store \<Rightarrow> (int \<times> store) option" where
  "BIO_eof bio s = BIO_ctrl bio BIO_CTRL_EOF 0 None s"

definition BIO_flush :: "bio_id option \<Rightarrow> store \<Rightarrow> (int \<times> store) option" where
  "BIO_flush bio s = BIO_ctrl bio BIO_CTRL_FLUSH 0 None s"

definition BIO_set_close :: "bio_id option \<Rightarrow> int \<Rightarrow> store \<Rightarrow> (int \<times> store) option" where
  "BIO_set_close bio close_flag s = BIO_ctrl bio BIO_CTRL_SET_CLOSE close_flag None s"

definition BIO_ctrl_get_read_request :: "bio_id option \<Rightarrow> store \<Rightarrow> (int \<times> store) option" where
  "BIO_ctrl_get_read_request bio s = BIO_ctrl bio BIO_C_GET_READ_REQUEST 0 None s"

definition BIO_ctrl_get_write_guarantee :: "bio_id option \<Rightarrow> store \<Rightarrow> (int \<times> store) option" where
  "BIO_ctrl_get_write_guarantee bio s = BIO_ctrl bio BIO_C_GET_WRITE_GUARANTEE 0 None s"

definition BIO_shutdown_wr :: "bio_id option \<Rightarrow> store \<Rightarrow> (int \<times> store) option" where
  "BIO_shutdown_wr bio s = BIO_ctrl bio BIO_C_SHUTDOWN_WR 0 None s"

definition BIO_number_read :: "bio \<Rightarrow> nat" where "BIO_number_read x = num_read x"
definition BIO_number_written :: "bio \<Rightarrow> nat" where "BIO_number_written x = num_write x"

section \<open>Rings\<close>

text \<open>The queue in a ring: \<open>n\<close> bytes from \<open>off\<close> on, around the end.\<close>

definition ring_list :: "'a list \<Rightarrow> nat \<Rightarrow> nat \<Rightarrow> 'a list" where
  "ring_list ring off n = take n (rotate off ring)"

lemma length_ring_list: "n \<le> length ring \<Longrightarrow> length (ring_list ring off n) = n"
  by (simp add: ring_list_def)

lemma ring_list_rotate: "off \<le> length ring \<Longrightarrow> ring_list ring off n = take n (drop off ring @ take off ring)"
  by (cases "off = length ring") (simp_all add: ring_list_def rotate_drop_take)

lemma ring_list_take: "off + n \<le> length ring \<Longrightarrow> ring_list ring off n = take n (drop off ring)"
  by (simp add: ring_list_rotate)

lemma take_ring_list: "k \<le> n \<Longrightarrow> take k (ring_list ring off n) = ring_list ring off k"
  by (simp add: ring_list_def)

lemma drop_ring_list:
  assumes "k \<le> n" "n \<le> length ring"
  shows "drop k (ring_list ring off n) = ring_list ring (off + k) (n - k)"
proof (cases "k = length ring")
  case True
  then show ?thesis using assms by (simp add: ring_list_def)
next
  case False
  then have k: "k < length ring" using assms by simp
  have "rotate (off + k) ring = rotate k (rotate off ring)" by (simp add: rotate_rotate add.commute)
  also have "\<dots> = drop k (rotate off ring) @ take k (rotate off ring)"
    using k by (simp add: rotate_drop_take)
  finally show ?thesis using assms by (simp add: ring_list_def drop_take)
qed

lemma ring_list_mod: "ring_list ring (off mod length ring) n = ring_list ring off n"
  by (simp add: ring_list_def rotate_conv_mod [symmetric])

lemma ring_list_wrap: "ring_list ring (length ring) n = ring_list ring 0 n"
  using ring_list_mod [of ring "length ring" n] by simp

text \<open>Writing behind the queue.\<close>

lemma ring_list_write:
  assumes "off < length ring" "n + length d \<le> length ring"
    "wo = (if off + n \<ge> length ring then off + n - length ring else off + n)" "wo + length d \<le> length ring"
  shows "ring_list (copy_at ring wo d) off (n + length d) = ring_list ring off n @ d"
proof -
  let ?r = "copy_at ring wo d"
  have len: "length ?r = length ring" using assms(4) by (rule copy_at_fits)
  show ?thesis
  proof (cases "off + n < length ring")
    case True
    then have "wo = off + n" using assms(3) by simp
    moreover have "take n (drop off ring) = drop off (take (off + n) ring)" by (simp add: drop_take)
    ultimately show ?thesis using True assms(1,2) len
      by (simp add: ring_list_rotate copy_at_def)
  next
    case False
    then have wo: "wo = off + n - length ring" "wo + length d \<le> off" using assms by auto
    have "drop off ?r = drop off ring" using wo(2) assms(4) by (simp add: copy_at_def min_def)
    moreover have "take (wo + length d) (take off ?r) = take wo ring @ d"
      using wo(2) copy_at_take [of wo ring d] assms(4) by (simp add: min_def)
    moreover have "n = length (drop off ring) + wo" using wo False assms(1) by simp
    ultimately show ?thesis using assms(1) len wo(2) by (simp add: ring_list_rotate add.assoc)
  qed
qed


text \<open>What holds of the ring of either end between calls.\<close>

definition ring_ok :: "bio_bio \<Rightarrow> bool" where
  "ring_ok b \<longleftrightarrow> (\<exists>ring. buf b = Some ring \<and> length ring = bsize b) \<and> 0 < bsize b \<and> blen b \<le> bsize b \<and>
     offset b < bsize b \<and> (blen b = 0 \<longrightarrow> offset b = 0) \<and> (blen b \<noteq> 0 \<longrightarrow> request b = 0) \<and> request b \<le> bsize b"

definition contents :: "bio_bio \<Rightarrow> bytes" where
  "contents b = (case buf b of None \<Rightarrow> [] | Some ring \<Rightarrow> ring_list ring (offset b) (blen b))"

lemma length_contents: "ring_ok b \<Longrightarrow> length (contents b) = blen b"
  by (auto simp: ring_ok_def contents_def length_ring_list)

text \<open>The state of the ring after \<open>k\<close> bytes were taken.\<close>

definition took :: "nat \<Rightarrow> bio_bio \<Rightarrow> bio_bio" where
  "took k b = b\<lparr>blen := blen b - k, offset := (if blen b = k then 0 else (offset b + k) mod bsize b)\<rparr>"

lemma read_loop_once:
  assumes "length ring = bsize b" "offset b < bsize b" "0 < rest" "rest \<le> blen b" "blen b \<le> bsize b" "offset b + rest \<le> bsize b"
  shows "read_loop b ring rest out = Some (took rest b, out @ ring_list ring (offset b) rest)"
proof -
  have "(offset b + rest) mod bsize b = (if offset b + rest = bsize b then 0 else offset b + rest)" using assms by auto
  then show ?thesis
    using assms by (subst read_loop.simps) (auto simp: Let_def took_def ring_list_take)
qed

lemma read_loop_takes:
  assumes "length ring = bsize b" "offset b < bsize b" "0 < rest" "rest \<le> blen b" "blen b \<le> bsize b"
  shows "read_loop b ring rest out = Some (took rest b, out @ ring_list ring (offset b) rest)"
proof (cases "offset b + rest \<le> bsize b")
  case True
  then show ?thesis using read_loop_once assms by blast
next
  case False
  let ?chunk = "bsize b - offset b"
  let ?b = "b\<lparr>blen := blen b - ?chunk, offset := 0\<rparr>"
  have "read_loop b ring rest out = read_loop ?b ring (rest - ?chunk) (out @ take ?chunk (drop (offset b) ring))"
    using False assms by (subst read_loop.simps) (auto simp: Let_def)
  also have "\<dots> = Some (took (rest - ?chunk) ?b, (out @ take ?chunk (drop (offset b) ring)) @ ring_list ring 0 (rest - ?chunk))"
    using False assms by (subst read_loop_once) auto
  also have "took (rest - ?chunk) ?b = took rest b"
  proof -
    have "(offset b + rest) mod bsize b = rest - ?chunk"
      using False assms by (simp add: le_mod_geq)
    moreover have "(rest - ?chunk) mod bsize b = rest - ?chunk" using False assms by simp
    ultimately show ?thesis using False assms by (auto simp: took_def)
  qed
  also have "(out @ take ?chunk (drop (offset b) ring)) @ ring_list ring 0 (rest - ?chunk) = out @ ring_list ring (offset b) rest"
  proof -
    have "ring_list ring (offset b) rest =
        take ?chunk (ring_list ring (offset b) rest) @ drop ?chunk (ring_list ring (offset b) rest)" by simp
    also have "take ?chunk (ring_list ring (offset b) rest) = take ?chunk (drop (offset b) ring)"
      using False assms by (simp add: take_ring_list ring_list_take)
    also have "drop ?chunk (ring_list ring (offset b) rest) = ring_list ring 0 (rest - ?chunk)"
      using False assms ring_list_wrap [of ring] by (subst drop_ring_list) auto
    finally show ?thesis by simp
  qed
  finally show ?thesis .
qed

lemma took_ok:
  assumes "ring_ok b" "0 < k" "k \<le> blen b"
  shows "ring_ok (took k b)" "contents (took k b) = drop k (contents b)" "take k (contents b) = ring_list (the (buf b)) (offset b) k"
proof -
  obtain ring where r: "buf b = Some ring" "length ring = bsize b" using assms(1) by (auto simp: ring_ok_def)
  show "ring_ok (took k b)" using assms by (auto simp: ring_ok_def took_def)
  show "take k (contents b) = ring_list (the (buf b)) (offset b) k" using assms(3) r by (simp add: contents_def take_ring_list)
  have "drop k (contents b) = ring_list ring (offset b + k) (blen b - k)"
    using assms r by (simp add: contents_def drop_ring_list ring_ok_def)
  moreover have "\<dots> = ring_list ring (offset (took k b)) (blen b - k)"
    using ring_list_mod [of ring "offset b + k"] r(2) by (cases "blen b = k") (simp_all add: took_def ring_list_def)
  ultimately show "contents (took k b) = drop k (contents b)" using r by (simp add: contents_def took_def)
qed

text \<open>The state of the ring after the bytes \<open>d\<close> were put.\<close>

lemma write_loop_once:
  assumes "offset b < bsize b" "0 < rest" "blen b + rest \<le> bsize b"
    "wo = (if offset b + blen b \<ge> bsize b then offset b + blen b - bsize b else offset b + blen b)" "wo + rest \<le> bsize b"
  shows "write_loop b ring rest data = Some (b\<lparr>blen := blen b + rest\<rparr>, copy_at ring wo (take rest data))"
  using assms by (subst write_loop.simps) (simp add: Let_def)

lemma write_loop_puts:
  assumes "length ring = bsize b" "offset b < bsize b" "0 < rest" "blen b + rest \<le> bsize b" "rest \<le> length data"
  obtains ring' where "write_loop b ring rest data = Some (b\<lparr>blen := blen b + rest\<rparr>, ring')" "length ring' = bsize b"
    "ring_list ring' (offset b) (blen b + rest) = ring_list ring (offset b) (blen b) @ take rest data"
proof -
  let ?wo = "if offset b + blen b \<ge> bsize b then offset b + blen b - bsize b else offset b + blen b"
  show thesis
  proof (cases "?wo + rest \<le> bsize b")
    case True
    show thesis
    proof (rule that [OF write_loop_once [OF assms(2,3,4) refl True]])
      show "length (copy_at ring ?wo (take rest data)) = bsize b"
        using True assms(1,5) copy_at_fits [of ?wo "take rest data" ring] by simp
      show "ring_list (copy_at ring ?wo (take rest data)) (offset b) (blen b + rest) =
          ring_list ring (offset b) (blen b) @ take rest data"
      proof -
        have l: "length (take rest data) = rest" using assms(5) by simp
        show ?thesis
          by (rule ring_list_write [of "offset b" ring "blen b" "take rest data" ?wo, unfolded assms(1) l, OF assms(2,4) refl True])
      qed
    qed
  next
    case False
    have wo: "?wo = offset b + blen b" "offset b + blen b < bsize b" using False assms(4) assms(2) by (auto split: if_splits)
    let ?chunk = "bsize b - (offset b + blen b)"
    let ?b = "b\<lparr>blen := blen b + ?chunk\<rparr>"
    let ?r = "copy_at ring (offset b + blen b) (take ?chunk data)"
    have chunk: "?chunk < rest" using False wo by simp
    have r: "length ?r = bsize b" "ring_list ?r (offset b) (blen b + ?chunk) = ring_list ring (offset b) (blen b) @ take ?chunk data"
    proof -
      have l: "length (take ?chunk data) = ?chunk" using chunk assms(5) by simp
      show "length ?r = bsize b" using wo(2) assms(1) copy_at_fits [of "offset b + blen b" "take ?chunk data" ring] l by simp
      show "ring_list ?r (offset b) (blen b + ?chunk) = ring_list ring (offset b) (blen b) @ take ?chunk data"
        using ring_list_write [of "offset b" ring "blen b" "take ?chunk data" "offset b + blen b"] assms chunk wo(2) l by simp
    qed
    have "write_loop b ring rest data = write_loop ?b ?r (rest - ?chunk) (drop ?chunk data)"
      using False assms wo by (subst write_loop.simps) (simp add: Let_def)
    also have "\<dots> = Some (?b\<lparr>blen := blen ?b + (rest - ?chunk)\<rparr>, copy_at ?r 0 (take (rest - ?chunk) (drop ?chunk data)))"
      using assms chunk wo by (intro write_loop_once) auto
    also have "?b\<lparr>blen := blen ?b + (rest - ?chunk)\<rparr> = b\<lparr>blen := blen b + rest\<rparr>" using chunk by simp
    finally have w: "write_loop b ring rest data =
        Some (b\<lparr>blen := blen b + rest\<rparr>, copy_at ?r 0 (take (rest - ?chunk) (drop ?chunk data)))" .
    let ?d = "take (rest - ?chunk) (drop ?chunk data)"
    have l: "length ?d = rest - ?chunk" using assms(5) by simp
    show thesis
    proof (rule that [OF w])
      have "0 + length ?d \<le> length ?r" unfolding l r(1) using assms(4) by simp
      then show "length (copy_at ?r 0 ?d) = bsize b" using copy_at_fits r(1) by metis
      have "ring_list (copy_at ?r 0 ?d) (offset b) (blen b + ?chunk + length ?d) = ring_list ?r (offset b) (blen b + ?chunk) @ ?d"
        using assms wo l r(1) chunk by (intro ring_list_write) auto
      moreover have "take ?chunk data @ ?d = take rest data" using chunk by (simp flip: take_add)
      ultimately show "ring_list (copy_at ?r 0 ?d) (offset b) (blen b + rest) = ring_list ring (offset b) (blen b) @ take rest data"
        using r(2) l chunk by simp
    qed
  qed
qed


section \<open>Pairs\<close>

text \<open>Two ends in the store that are each other's peer.\<close>

definition pair_ok :: "bio_id \<Rightarrow> bio_id \<Rightarrow> store \<Rightarrow> bool" where
  "pair_ok i j s \<longleftrightarrow> i \<noteq> j \<and>
     (\<exists>x y bi bj. s i = Some x \<and> s j = Some y \<and> init x \<and> init y \<and> ptr x = Some bi \<and> ptr y = Some bj \<and>
        peer bi = Some j \<and> peer bj = Some i \<and> ring_ok bi \<and> ring_ok bj)"

definition end_of :: "store \<Rightarrow> bio_id \<Rightarrow> bio_bio" where
  "end_of s i = the (bio_ptr s i)"

text \<open>What the end \<open>i\<close> has written and its peer has not read.\<close>

definition queue :: "store \<Rightarrow> bio_id \<Rightarrow> bytes" where
  "queue s i = contents (end_of s i)"

lemma pair_ok_sym: "pair_ok i j s \<Longrightarrow> pair_ok j i s"
  unfolding pair_ok_def by blast

lemmas store_simps = upd_bio_def upd_ptr_def bio_ptr_def end_of_def queue_def

lemma clear_flags_simps [simp]:
  "init (BIO_clear_retry_flags x) = init x" "ptr (BIO_clear_retry_flags x) = ptr x"
  "init (BIO_set_retry_read x) = init x" "ptr (BIO_set_retry_read x) = ptr x"
  "init (BIO_set_retry_write x) = init x" "ptr (BIO_set_retry_write x) = ptr x"
  by (simp_all add: BIO_clear_retry_flags_def BIO_set_retry_read_def BIO_set_retry_write_def)

lemma contents_cong [simp]:
  "contents (b\<lparr>request := r\<rparr>) = contents b" "contents (b\<lparr>closed := c\<rparr>) = contents b"
  by (simp_all add: contents_def split: option.split)

lemmas flag_defs = BIO_should_retry_def BIO_test_flags_def BIO_set_retry_write_def BIO_set_retry_read_def
  BIO_clear_retry_flags_def BIO_FLAGS_SHOULD_RETRY_def BIO_FLAGS_WRITE_def BIO_FLAGS_READ_def kRetryFlags_def
  BIO_FLAGS_RWS_def BIO_FLAGS_IO_SPECIAL_def

text \<open>The retry flags: whether a write or a read is to be tried again.\<close>

definition retries :: "bool \<Rightarrow> bool \<Rightarrow> bio \<Rightarrow> bool" where
  "retries w r x \<longleftrightarrow> BIO_should_retry x = (w \<or> r) \<and> BIO_should_write x = w \<and> BIO_should_read x = r"

lemma retries_flags: "retries w r x \<longleftrightarrow> ((flags x AND 8 \<noteq> 0) = (w \<or> r)) \<and> ((flags x AND 2 \<noteq> 0) = w) \<and> ((flags x AND 1 \<noteq> 0) = r)"
  by (simp add: retries_def BIO_should_write_def BIO_should_read_def flag_defs)

lemma retries_cong [simp]:
  "retries w r (x\<lparr>ptr := p\<rparr>) = retries w r x" "retries w r (x\<lparr>num_write := n\<rparr>) = retries w r x"
  "retries w r (x\<lparr>num_read := n\<rparr>) = retries w r x"
  by (simp_all add: retries_flags)

lemma retry_flags:
  "retries True False (BIO_set_retry_write ((BIO_clear_retry_flags x)\<lparr>ptr := p\<rparr>))"
  "retries False True (BIO_set_retry_read (BIO_clear_retry_flags x))"
  "retries False False (BIO_clear_retry_flags x)"
  by (simp_all add: retries_flags flag_defs bit.conj_disj_distrib2 and.assoc)

text \<open>Writing: what the call returns and what it leaves at either end.\<close>

lemma write_pair:
  assumes "pair_ok i j s"
  defines "b \<equiv> end_of s i"
  obtains s' ret where "BIO_write (Some i) (Some data) s = Some (ret, s')" "pair_ok i j s'"
    "ret = (if data = [] then 0 else if closed b \<or> blen b = bsize b then - 1
            else int (min (length data) (bsize b - blen b)))"
    "queue s' i = queue s i @ take (nat ret) data" "queue s' j = queue s j"
    "closed (end_of s' i) = closed b" "bsize (end_of s' i) = bsize b"
    "closed (end_of s' j) = closed (end_of s j)" "bsize (end_of s' j) = bsize (end_of s j)"
    "data \<noteq> [] \<Longrightarrow> retries (\<not> closed b \<and> blen b = bsize b) False (the (s' i))"
proof -
  obtain x y bi bj where p: "i \<noteq> j" "s i = Some x" "s j = Some y" "init x" "init y" "ptr x = Some bi" "ptr y = Some bj"
    "peer bi = Some j" "peer bj = Some i" "ring_ok bi" "ring_ok bj"
    using assms(1) by (auto simp: pair_ok_def)
  obtain ring where r: "buf bi = Some ring" "length ring = bsize bi" "0 < bsize bi" "blen bi \<le> bsize bi" "offset bi < bsize bi"
    "blen bi = 0 \<longrightarrow> offset bi = 0" "blen bi \<noteq> 0 \<longrightarrow> request bi = 0" "request bi \<le> bsize bi"
    using p(10) by (auto simp: ring_ok_def)
  have b: "b = bi" using p by (simp add: b_def store_simps)
  note retry = retry_flags
  consider (empty) "data = []" | (closed) "data \<noteq> []" "closed bi" | (full) "data \<noteq> []" "\<not> closed bi" "blen bi = bsize bi"
    | (room) "data \<noteq> []" "\<not> closed bi" "blen bi < bsize bi" using r(4) by fastforce
  then show thesis
  proof cases
    case empty
    then show thesis using that [of 0 s] p assms(1) b [unfolded b_def] by (simp add: BIO_write_def b_def)
  next
    case closed
    let ?x = "(BIO_clear_retry_flags x)\<lparr>ptr := Some (bi\<lparr>request := 0\<rparr>)\<rparr>"
    let ?s = "s(i \<mapsto> ?x)"
    have "BIO_write (Some i) (Some data) s = Some (- 1, ?s)"
      using closed p r by (simp add: BIO_write_def bio_write_def store_simps Let_def)
    moreover have "pair_ok i j ?s" using p unfolding pair_ok_def by (auto simp: ring_ok_def)
    ultimately show thesis using that closed p b retry by (simp add: store_simps)
  next
    case full
    let ?x = "BIO_set_retry_write ((BIO_clear_retry_flags x)\<lparr>ptr := Some (bi\<lparr>request := 0\<rparr>)\<rparr>)"
    let ?s = "s(i \<mapsto> ?x)"
    have "BIO_write (Some i) (Some data) s = Some (- 1, ?s)"
      using full p r by (simp add: BIO_write_def bio_write_def store_simps Let_def)
    moreover have "pair_ok i j ?s" using p unfolding pair_ok_def by (auto simp: ring_ok_def)
    ultimately show thesis using that full p b retry by (simp add: store_simps)
  next
    case room
    define n where "n = min (length data) (bsize bi - blen bi)"
    let ?n = n
    have n: "0 < ?n" "blen bi + ?n \<le> bsize bi" "?n \<le> length data" using room r by (auto simp: n_def)
    have num: "(if length data > bsize bi - blen bi then bsize bi - blen bi else length data) = n" by (auto simp: n_def)
    obtain ring' where w: "write_loop (bi\<lparr>request := 0\<rparr>) ring ?n data = Some (bi\<lparr>request := 0, blen := blen bi + ?n\<rparr>, ring')"
      "length ring' = bsize bi" "ring_list ring' (offset bi) (blen bi + ?n) = ring_list ring (offset bi) (blen bi) @ take ?n data"
      by (rule write_loop_puts [of ring "bi\<lparr>request := 0\<rparr>" ?n data]) (use n r in auto)
    let ?b = "bi\<lparr>request := 0, blen := blen bi + ?n, buf := Some ring'\<rparr>"
    let ?x = "(BIO_clear_retry_flags x)\<lparr>ptr := Some ?b, num_write := (num_write x + ?n) mod SIZE_MODULUS\<rparr>"
    let ?s = "s(i \<mapsto> ?x)"
    have "BIO_write (Some i) (Some data) s = Some (int ?n, ?s)"
      using room p r(1,4) w(1) n(1) by (simp add: BIO_write_def bio_write_def store_simps Let_def num BIO_clear_retry_flags_def)
    moreover have "pair_ok i j ?s" using p r n w unfolding pair_ok_def by (auto simp: ring_ok_def)
    moreover have "contents ?b = contents bi @ take ?n data" using w r by (simp add: contents_def)
    ultimately show thesis using that room p b retry by (simp add: store_simps n_def)
  qed
qed


text \<open>Reading.\<close>

lemma read_pair:
  assumes "pair_ok i j s"
  defines "b \<equiv> end_of s j"
  obtains s' ret out where "BIO_read (Some i) dst len s = Some (ret, out, s')" "pair_ok i j s'"
    "ret = (if len \<le> 0 \<or> \<not> dst then 0 else if blen b = 0 then if closed b then 0 else - 1
            else int (min (nat len) (blen b)))"
    "out = take (nat ret) (queue s j)" "queue s' j = drop (nat ret) (queue s j)" "queue s' i = queue s i"
    "closed (end_of s' i) = closed (end_of s i)" "bsize (end_of s' i) = bsize (end_of s i)"
    "closed (end_of s' j) = closed b" "bsize (end_of s' j) = bsize b"
    "0 < len \<Longrightarrow> dst \<Longrightarrow> retries False (blen b = 0 \<and> \<not> closed b) (the (s' i))"
    "ret = - 1 \<Longrightarrow> request (end_of s' j) = min (nat len) (bsize b)"
proof -
  obtain x y bi bj where p: "i \<noteq> j" "s i = Some x" "s j = Some y" "init x" "init y" "ptr x = Some bi" "ptr y = Some bj"
    "peer bi = Some j" "peer bj = Some i" "ring_ok bi" "ring_ok bj"
    using assms(1) by (auto simp: pair_ok_def)
  obtain ring where r: "buf bj = Some ring" "length ring = bsize bj" "0 < bsize bj" "blen bj \<le> bsize bj" "offset bj < bsize bj"
    using p(11) by (auto simp: ring_ok_def)
  have b: "b = bj" "end_of s i = bi" using p by (simp_all add: b_def store_simps)
  let ?x = "BIO_clear_retry_flags x"
  let ?b = "bj\<lparr>request := 0\<rparr>"
  let ?y = "y\<lparr>ptr := Some ?b\<rparr>"
  note defs = BIO_read_def bio_read_def store_simps Let_def
  have okb: "ring_ok ?b" using p(11) by (auto simp: ring_ok_def)
  consider (empty) "len \<le> 0" | (null) "0 < len" "\<not> dst" | (eof) "0 < len" "dst" "blen bj = 0" "closed bj"
    | (wait) "0 < len" "dst" "blen bj = 0" "\<not> closed bj" | (some) "0 < len" "dst" "0 < blen bj" by linarith
  then show thesis
  proof cases
    case empty
    then show thesis using that [of 0 "[]" s] p assms(1) b by (simp add: BIO_read_def b_def)
  next
    case null
    let ?s = "s(i \<mapsto> ?x, j \<mapsto> ?y)"
    have "BIO_read (Some i) dst len s = Some (0, [], ?s)"
      using null p r by (simp add: defs)
    moreover have "pair_ok i j ?s" using p okb unfolding pair_ok_def by auto
    ultimately show thesis using that null p b by (simp add: store_simps)
  next
    case eof
    let ?s = "s(i \<mapsto> ?x, j \<mapsto> ?y)"
    have "BIO_read (Some i) dst len s = Some (0, [], ?s)"
      using eof p r by (simp add: defs)
    moreover have "pair_ok i j ?s" using p okb unfolding pair_ok_def by auto
    ultimately show thesis using that eof p b retry_flags by (simp add: store_simps)
  next
    case wait
    let ?r = "min (nat len) (bsize bj)"
    let ?s = "s(i \<mapsto> BIO_set_retry_read ?x, j \<mapsto> y\<lparr>ptr := Some (bj\<lparr>request := ?r\<rparr>)\<rparr>)"
    have "BIO_read (Some i) dst len s = Some (- 1, [], ?s)"
      using wait p r by (auto simp: defs min_def fun_upd_twist)
    moreover have "pair_ok i j ?s" using p wait unfolding pair_ok_def by (auto simp: ring_ok_def)
    ultimately show thesis using that wait p b retry_flags by (simp add: store_simps)
  next
    case some
    define n where "n = min (nat len) (blen bj)"
    have n: "0 < n" "n \<le> blen bj" using some by (auto simp: n_def)
    have num: "(if blen bj < nat len then blen bj else nat len) = n" by (auto simp: n_def)
    let ?s = "s(i \<mapsto> ?x\<lparr>num_read := (num_read x + n) mod SIZE_MODULUS\<rparr>, j \<mapsto> y\<lparr>ptr := Some (took n ?b)\<rparr>)"
    have "read_loop ?b ring n [] = Some (took n ?b, [] @ ring_list ring (offset ?b) n)"
      by (rule read_loop_takes) (use n r in auto)
    moreover have "ring_list ring (offset ?b) n = take n (contents bj)"
      using took_ok(3) [OF okb n(1)] n(2) r(1) by simp
    ultimately have "BIO_read (Some i) dst len s = Some (int n, take n (contents bj), ?s)"
      using some n(1) p r(1) by (simp add: defs num fun_upd_twist BIO_clear_retry_flags_def)
    moreover have t: "ring_ok (took n ?b)" "contents (took n ?b) = drop n (contents bj)"
      using took_ok(1,2) [OF okb n(1)] n(2) by simp_all
    moreover have "peer (took n ?b) = Some i" "closed (took n ?b) = closed bj" "bsize (took n ?b) = bsize bj"
      using p by (simp_all add: took_def)
    moreover from this t have "pair_ok i j ?s" using p unfolding pair_ok_def by auto
    ultimately show thesis using that some p b retry_flags by (simp add: store_simps n_def)
  qed
qed


text \<open>Control calls change no queue.\<close>

lemma ctrl_cases:
  assumes "pair_ok i j s" "e \<in> {i, j}" "other \<in> {None, Some i, Some j}"
  obtains s' ret where "BIO_ctrl (Some e) cmd num other s = Some (ret, s')"
    "s' = s \<or> s' = upd_ptr e (\<lambda>b. b\<lparr>request := 0\<rparr>) s \<or> s' = upd_ptr e (\<lambda>b. b\<lparr>closed := True\<rparr>) s \<or>
     s' = upd_bio e (\<lambda>x. x\<lparr>shutdown := int_of_long num\<rparr>) s"
proof -
  obtain x b k c where e: "s e = Some x" "bio_ptr s e = Some b" "peer b = Some k" "bio_ptr s k = Some c"
    using assms(1,2) by (auto simp: pair_ok_def bio_ptr_def)
  have o: "other = None \<or> (\<exists>d m. other = Some m \<and> bio_ptr s m = Some d)"
    using assms(1,3) by (auto simp: pair_ok_def bio_ptr_def)
  have "\<exists>ret s'. BIO_ctrl (Some e) cmd num other s = Some (ret, s') \<and>
    (s' = s \<or> s' = upd_ptr e (\<lambda>b. b\<lparr>request := 0\<rparr>) s \<or> s' = upd_ptr e (\<lambda>b. b\<lparr>closed := True\<rparr>) s \<or>
     s' = upd_bio e (\<lambda>x. x\<lparr>shutdown := int_of_long num\<rparr>) s)"
    using o e by (auto simp: BIO_ctrl_def bio_ctrl_def)
  then show thesis using that by blast
qed

lemma ctrl_pair:
  assumes "pair_ok i j s" "e \<in> {i, j}" "other \<in> {None, Some i, Some j}"
  obtains s' ret where "BIO_ctrl (Some e) cmd num other s = Some (ret, s')" "pair_ok i j s'"
    "queue s' i = queue s i" "queue s' j = queue s j"
    "bsize (end_of s' i) = bsize (end_of s i)" "bsize (end_of s' j) = bsize (end_of s j)"
proof -
  obtain x y bi bj where p: "i \<noteq> j" "s i = Some x" "s j = Some y" "init x" "init y" "ptr x = Some bi" "ptr y = Some bj"
    "peer bi = Some j" "peer bj = Some i" "ring_ok bi" "ring_ok bj"
    using assms(1) by (auto simp: pair_ok_def)
  obtain s' ret where c: "BIO_ctrl (Some e) cmd num other s = Some (ret, s')"
    "s' = s \<or> s' = upd_ptr e (\<lambda>b. b\<lparr>request := 0\<rparr>) s \<or> s' = upd_ptr e (\<lambda>b. b\<lparr>closed := True\<rparr>) s \<or>
     s' = upd_bio e (\<lambda>x. x\<lparr>shutdown := int_of_long num\<rparr>) s"
    by (rule ctrl_cases [OF assms, of cmd num])
  have ok: "ring_ok (b\<lparr>request := 0\<rparr>)" "ring_ok (b\<lparr>closed := True\<rparr>)" if "ring_ok b" for b
    using that by (auto simp: ring_ok_def)
  have "pair_ok i j s' \<and> queue s' i = queue s i \<and> queue s' j = queue s j \<and>
      bsize (end_of s' i) = bsize (end_of s i) \<and> bsize (end_of s' j) = bsize (end_of s j)"
    using c(2) assms(2) p ok unfolding pair_ok_def
    by (elim disjE insertE emptyE) (simp_all add: store_simps)
  then show thesis using that c(1) by blast
qed

section \<open>Making a pair\<close>

definition fresh_ptr :: bio_bio where
  "fresh_ptr = \<lparr>peer = None, closed = False, blen = 0, offset = 0, bsize = 17 * 1024, buf = None, request = 0\<rparr>"

definition fresh_bio :: bio where
  "fresh_bio = \<lparr>init = False, shutdown = 1, flags = 0, retry_reason = 0, references = 1, ptr = Some fresh_ptr,
     num_read = 0, num_write = 0\<rparr>"

lemma new_end:
  "BIO_new_pair_end al i s =
     (if \<not> OPENSSL_malloc al sizeof_bio \<or> \<not> OPENSSL_malloc al sizeof_bio_bio
      then (None, if OPENSSL_malloc al sizeof_bio then s(i := None) else s)
      else (Some i, s(i \<mapsto> fresh_bio)))"
  by (simp add: BIO_new_pair_end_def pair_bio_new_def Let_def upd_bio_def fresh_bio_def fresh_ptr_def)

text \<open>Freeing an end that has no peer.\<close>

lemma free_end:
  assumes "s i = Some x" "ptr x = Some b" "peer b = None" "references x = 1"
  shows "BIO_free_pair_end (Some i) s = Some (1, s(i := None))"
  using assms
  by (simp add: BIO_free_pair_end_def CRYPTO_refcount_dec_and_test_zero_def pair_bio_free_def store_simps Let_def)

definition ring_size :: "nat \<Rightarrow> nat" where
  "ring_size n = (if n = 0 then 17 * 1024 else n)"

lemma make_buffer_fresh:
  "make_buffer al n fresh_ptr =
     (if OPENSSL_malloc al (ring_size n)
      then Some (fresh_ptr\<lparr>bsize := ring_size n, buf := Some (replicate (ring_size n) 0)\<rparr>) else None)"
  by (simp add: make_buffer_def fresh_ptr_def ring_size_def)

lemma fresh_ring_ok:
  "ring_ok (fresh_ptr\<lparr>bsize := ring_size n, buf := Some (replicate (ring_size n) 0), peer := p, closed := False, request := 0\<rparr>)"
  by (simp add: ring_ok_def fresh_ptr_def ring_size_def)

lemma malloc_fails: "\<not> OPENSSL_malloc al sz \<Longrightarrow> \<not> (\<forall>m. al m) \<or> SIZE_MODULUS \<le> sz + 8"
proof -
  assume f: "\<not> OPENSSL_malloc al sz"
  have "(sz + 8) mod SIZE_MODULUS = sz + 8" if "\<not> SIZE_MODULUS \<le> sz + 8" using that by (intro mod_less) simp
  with f show ?thesis by (auto simp: OPENSSL_malloc_def split: if_splits)
qed

lemma new_pair:
  assumes "i \<noteq> j" "s0 i = None" "s0 j = None"
  shows "(\<exists>s. BIO_new_bio_pair als i j n1 n2 s0 = Some (Some (i, j), s) \<and> pair_ok i j s \<and> queue s i = [] \<and> queue s j = [] \<and>
      \<not> closed (end_of s i) \<and> \<not> closed (end_of s j) \<and> bsize (end_of s i) = ring_size n1 \<and> bsize (end_of s j) = ring_size n2) \<or>
    BIO_new_bio_pair als i j n1 n2 s0 = Some (None, s0) \<and>
      (\<not> (\<forall>k m. als k m) \<or> SIZE_MODULUS \<le> max (ring_size n1) (ring_size n2) + 8)"
proof -
  have fresh: "ptr fresh_bio = Some fresh_ptr" "references fresh_bio = 1" "peer fresh_ptr = None"
    by (simp_all add: fresh_bio_def fresh_ptr_def)
  have restored: "s0(i := None) = s0" "s0(j := None) = s0" "s0(i := None, j := None) = s0" using assms by auto
  define ok where "ok k \<longleftrightarrow> OPENSSL_malloc (als k) sizeof_bio \<and> OPENSSL_malloc (als k) sizeof_bio_bio" for k
  have ends: "BIO_new_pair_end (als k) x s = (if ok k then (Some x, s(x \<mapsto> fresh_bio)) else (None, s))" if "s x = None" for k x s
    using that by (auto simp: new_end ok_def)
  have missing: "\<not> ok k \<Longrightarrow> \<not> (\<forall>k m. als k m)" for k
    using malloc_fails [of "als k" sizeof_bio] malloc_fails [of "als k" sizeof_bio_bio] by (auto simp: ok_def)
  show ?thesis
  proof (cases "ok 0 \<and> ok 1")
    case False
    have "BIO_new_bio_pair als i j n1 n2 s0 = Some (None, s0)"
    proof (cases "ok 0")
      case True
      with False have no: "\<not> ok 1" by simp
      have "BIO_free_pair_end (Some i) (s0(i \<mapsto> fresh_bio)) = Some (1, s0)"
        using free_end [of "s0(i \<mapsto> fresh_bio)" i fresh_bio fresh_ptr] fresh restored(1) by simp
      then show ?thesis using True no ends [of s0 i 0] ends [of "s0(i \<mapsto> fresh_bio)" j 1, unfolded One_nat_def] assms
        by (simp add: BIO_new_bio_pair_def BIO_free_pair_end_def [of None])
    next
      case no: False
      have "BIO_free_pair_end (Some j) (s0(j \<mapsto> fresh_bio)) = Some (1, s0)"
        using free_end [of "s0(j \<mapsto> fresh_bio)" j fresh_bio fresh_ptr] fresh restored(2) by simp
      then show ?thesis using no ends [of s0 i 0] ends [of s0 j 1, unfolded One_nat_def] assms
        by (simp add: BIO_new_bio_pair_def BIO_free_pair_end_def [of None])
    qed
    with False missing show ?thesis by blast
  next
    case True
    let ?s = "s0(i \<mapsto> fresh_bio, j \<mapsto> fresh_bio)"
    have both: "BIO_new_pair_end (als 0) i s0 = (Some i, s0(i \<mapsto> fresh_bio))"
      "BIO_new_pair_end (als 1) j (s0(i \<mapsto> fresh_bio)) = (Some j, ?s)"
      using True ends [of s0 i 0] ends [of "s0(i \<mapsto> fresh_bio)" j 1] assms by simp_all
    have p: "bio_ptr ?s i = Some fresh_ptr" "bio_ptr ?s j = Some fresh_ptr"
      using assms(1) fresh by (simp_all add: bio_ptr_def)
    have free: "BIO_free_pair_end (Some i) t = Some (1, t(i := None)) \<and> BIO_free_pair_end (Some j) (t(i := None)) = Some (1, t(i := None, j := None))"
      if "t i = Some x" "ptr x = Some b" "peer b = None" "references x = 1"
        "t j = Some y" "ptr y = Some c" "peer c = None" "references y = 1" for t x b y c
      using free_end [of t i x b] free_end [of "t(i := None)" j y c] that assms(1) by simp
    show ?thesis
    proof (cases "OPENSSL_malloc (als 2) (ring_size n1) \<and> OPENSSL_malloc (als 3) (ring_size n2)")
      case ok: True
      let ?b = "\<lambda>n k. fresh_ptr\<lparr>bsize := ring_size n, buf := Some (replicate (ring_size n) 0), peer := Some k, closed := False, request := 0\<rparr>"
      let ?t = "s0(i \<mapsto> fresh_bio\<lparr>ptr := Some (?b n1 j), init := True\<rparr>, j \<mapsto> fresh_bio\<lparr>ptr := Some (?b n2 i), init := True\<rparr>)"
      have "bio_make_pair (als 2) (als 3) i j n1 n2 ?s = Some (True, ?t)"
        using ok p assms(1) fresh by (simp add: bio_make_pair_def make_buffer_fresh store_simps Let_def fresh_bio_def fun_upd_twist)
      then have "BIO_new_bio_pair als i j n1 n2 s0 = Some (Some (i, j), ?t)"
        by (simp add: BIO_new_bio_pair_def both [unfolded One_nat_def] Let_def)
      moreover have "pair_ok i j ?t" using assms(1) fresh_ring_ok unfolding pair_ok_def by simp
      moreover have "end_of ?t i = ?b n1 j" "end_of ?t j = ?b n2 i" using assms(1) by (simp_all add: store_simps)
      ultimately show ?thesis by (simp add: queue_def contents_def ring_list_def fresh_ptr_def)
    next
      case no: False
      have undone: "BIO_new_bio_pair als i j n1 n2 s0 = Some (None, s0)"
        if "bio_make_pair (als 2) (als 3) i j n1 n2 ?s = Some (False, s0(i \<mapsto> x, j \<mapsto> y))" "ptr x = Some b" "peer b = None" "references x = 1"
          "ptr y = Some c" "peer c = None" "references y = 1" for x b y c
        using that free [of "s0(i \<mapsto> x, j \<mapsto> y)" x b y c] restored assms(1)
        by (simp add: BIO_new_bio_pair_def both [unfolded One_nat_def] Let_def fun_upd_twist)
      have "BIO_new_bio_pair als i j n1 n2 s0 = Some (None, s0)"
      proof (cases "OPENSSL_malloc (als 2) (ring_size n1)")
        case False
        let ?b = "if n1 \<noteq> 0 then fresh_ptr\<lparr>bsize := n1\<rparr> else fresh_ptr"
        have "bio_make_pair (als 2) (als 3) i j n1 n2 ?s = Some (False, s0(i \<mapsto> fresh_bio\<lparr>ptr := Some ?b\<rparr>, j \<mapsto> fresh_bio))"
          using False p assms(1) fresh
          by (simp add: bio_make_pair_def make_buffer_fresh upd_ptr_def upd_bio_def fun_upd_twist)
        then show ?thesis by (rule undone [where b = ?b and c = fresh_ptr]) (simp_all add: fresh)
      next
        case True
        then have no2: "\<not> OPENSSL_malloc (als 3) (ring_size n2)" using no by simp
        let ?b = "fresh_ptr\<lparr>bsize := ring_size n1, buf := Some (replicate (ring_size n1) 0)\<rparr>"
        let ?c = "if n2 \<noteq> 0 then fresh_ptr\<lparr>bsize := n2\<rparr> else fresh_ptr"
        have "bio_make_pair (als 2) (als 3) i j n1 n2 ?s = Some (False, s0(i \<mapsto> fresh_bio\<lparr>ptr := Some ?b\<rparr>, j \<mapsto> fresh_bio\<lparr>ptr := Some ?c\<rparr>))"
          using True no2 p assms(1) fresh
          by (simp add: bio_make_pair_def make_buffer_fresh upd_ptr_def upd_bio_def Let_def fun_upd_twist)
        then show ?thesis by (rule undone [where b = ?b and c = ?c]) (simp_all add: fresh)
      qed
      moreover have "\<not> (\<forall>k m. als k m) \<or> SIZE_MODULUS \<le> max (ring_size n1) (ring_size n2) + 8"
        using no malloc_fails [of "als 2" "ring_size n1"] malloc_fails [of "als 3" "ring_size n2"] by (auto simp: max_def)
      ultimately show ?thesis by blast
    qed
  qed
qed

end
