(* ===== verification/BioPair_Spec.thy ===== *)
theory BioPair_Spec
  imports
    BioPair
begin

text \<open>
  What a BIO pair promises: a run of calls on its two ends, with the bytes each end sent and got
  logged beside the store, and the properties of the calls in every state of a run.
\<close>

section \<open>Runs\<close>

text \<open>\<open>sent e\<close> and \<open>got e\<close> are the bytes the calls on \<open>e\<close> accepted and handed out.\<close>

inductive pair_run ::
  "bio_id \<Rightarrow> bio_id \<Rightarrow> store \<Rightarrow> (bio_id \<Rightarrow> bytes) \<Rightarrow> (bio_id \<Rightarrow> bytes) \<Rightarrow> bool" for i j where
  made: "pair_run i j s (\<lambda>_. []) (\<lambda>_. [])"
    if "i \<noteq> j" "s0 i = None" "s0 j = None" "BIO_new_bio_pair als i j n1 n2 s0 = Some (Some (i, j), s)"
| wrote: "pair_run i j s' (sent(e := sent e @ take (nat ret) data)) got"
    if "pair_run i j s sent got" "e \<in> {i, j}" "BIO_write (Some e) (Some data) s = Some (ret, s')"
| received: "pair_run i j s' sent (got(e := got e @ out))"
    if "pair_run i j s sent got" "e \<in> {i, j}" "BIO_read (Some e) dst len s = Some (ret, out, s')"
| controlled: "pair_run i j s' sent got"
    if "pair_run i j s sent got" "e \<in> {i, j}" "other \<in> {None, Some i, Some j}"
      "BIO_ctrl (Some e) cmd num other s = Some (ret, s')"

definition peer_of :: "bio_id \<Rightarrow> bio_id \<Rightarrow> bio_id \<Rightarrow> bio_id" where
  "peer_of i j e = (if e = i then j else i)"

lemma pair_ok_end: "pair_ok i j s \<Longrightarrow> e \<in> {i, j} \<Longrightarrow> pair_ok e (peer_of i j e) s"
  using pair_ok_sym by (auto simp: peer_of_def)

lemma pair_ok_distinct: "pair_ok i j s \<Longrightarrow> i \<noteq> j"
  by (simp add: pair_ok_def)

text \<open>The invariant of a run.\<close>

definition run_inv :: "bio_id \<Rightarrow> bio_id \<Rightarrow> store \<Rightarrow> (bio_id \<Rightarrow> bytes) \<Rightarrow> (bio_id \<Rightarrow> bytes) \<Rightarrow> bool" where
  "run_inv i j s sent got \<longleftrightarrow> pair_ok i j s \<and> sent i = got j @ queue s i \<and> sent j = got i @ queue s j"

lemma run_inv_write:
  assumes "run_inv i j s sent got" "e \<in> {i, j}" "BIO_write (Some e) (Some data) s = Some (ret, s')"
  shows "run_inv i j s' (sent(e := sent e @ take (nat ret) data)) got"
proof -
  have p: "pair_ok i j s" using assms(1) by (simp add: run_inv_def)
  obtain t r where w: "BIO_write (Some e) (Some data) s = Some (r, t)" "pair_ok e (peer_of i j e) t"
    "queue t e = queue s e @ take (nat r) data" "queue t (peer_of i j e) = queue s (peer_of i j e)"
    by (rule write_pair [OF pair_ok_end [OF p assms(2)], of data])
  then show ?thesis using assms pair_ok_distinct [OF p] pair_ok_sym
    by (auto simp: run_inv_def peer_of_def split: if_splits)
qed

lemma run_inv_read:
  assumes "run_inv i j s sent got" "e \<in> {i, j}" "BIO_read (Some e) dst len s = Some (ret, out, s')"
  shows "run_inv i j s' sent (got(e := got e @ out))"
proof -
  have p: "pair_ok i j s" using assms(1) by (simp add: run_inv_def)
  obtain t r d where w: "BIO_read (Some e) dst len s = Some (r, d, t)" "pair_ok e (peer_of i j e) t"
    "d = take (nat r) (queue s (peer_of i j e))" "queue t (peer_of i j e) = drop (nat r) (queue s (peer_of i j e))"
    "queue t e = queue s e"
    by (rule read_pair [OF pair_ok_end [OF p assms(2)], of dst len])
  then have "d @ queue t (peer_of i j e) = queue s (peer_of i j e)" by simp
  with w show ?thesis using assms pair_ok_distinct [OF p] pair_ok_sym
    by (auto simp: run_inv_def peer_of_def split: if_splits)
qed

lemma run_inv_ctrl:
  assumes "run_inv i j s sent got" "e \<in> {i, j}" "other \<in> {None, Some i, Some j}"
    "BIO_ctrl (Some e) cmd num other s = Some (ret, s')"
  shows "run_inv i j s' sent got"
proof -
  have "pair_ok i j s" using assms(1) by (simp add: run_inv_def)
  then obtain t r where "BIO_ctrl (Some e) cmd num other s = Some (r, t)" "pair_ok i j t"
    "queue t i = queue s i" "queue t j = queue s j"
    by (rule ctrl_pair [OF _ assms(2,3), of s cmd num])
  then show ?thesis using assms by (simp add: run_inv_def)
qed

lemma run_inv_made:
  assumes "i \<noteq> j" "s0 i = None" "s0 j = None" "BIO_new_bio_pair als i j n1 n2 s0 = Some (Some (i, j), s)"
  shows "run_inv i j s (\<lambda>_. []) (\<lambda>_. [])"
  using new_pair [OF assms(1,2,3), of als n1 n2] assms(4) by (auto simp: run_inv_def)

lemma pair_run_inv: "pair_run i j s sent got \<Longrightarrow> run_inv i j s sent got"
proof (induction rule: pair_run.induct)
  case made
  then show ?case by (rule run_inv_made)
next
  case wrote
  then show ?case by (blast intro: run_inv_write)
next
  case received
  then show ?case by (blast intro: run_inv_read)
next
  case controlled
  then show ?case by (blast intro: run_inv_ctrl)
qed

lemma pair_run_ok: "pair_run i j s sent got \<Longrightarrow> pair_ok i j s"
  using pair_run_inv by (simp add: run_inv_def)

lemma pair_run_end: "pair_run i j s sent got \<Longrightarrow> e \<in> {i, j} \<Longrightarrow> pair_ok e (peer_of i j e) s"
  by (blast intro: pair_ok_end pair_run_ok)

lemma queue_length:
  assumes "pair_ok i j s"
  shows "length (queue s i) = blen (end_of s i)" "blen (end_of s i) \<le> bsize (end_of s i)"
  using assms length_contents by (auto simp: pair_ok_def store_simps ring_ok_def)

section \<open>Writing everything\<close>

lemma write_none:
  assumes "pair_ok i j s"
  shows "\<exists>s'. BIO_write (Some i) None s = Some (0, s')"
  using assms by (auto simp: pair_ok_def BIO_write_def bio_write_def upd_bio_def)

lemma write_all_stops:
  assumes "pair_ok i j s" "data \<noteq> []" "closed (end_of s i) \<or> blen (end_of s i) = bsize (end_of s i)"
  obtains s' where "BIO_write_all (Some i) data s = Some (False, s')" "pair_ok i j s'" "queue s' i = queue s i"
    "queue s' j = queue s j" "closed (end_of s' i) = closed (end_of s i)" "bsize (end_of s' i) = bsize (end_of s i)"
proof -
  obtain s' ret where w: "BIO_write (Some i) (Some (take INT_MAX data)) s = Some (ret, s')" "pair_ok i j s'"
    "ret = (if take INT_MAX data = [] then 0 else if closed (end_of s i) \<or> blen (end_of s i) = bsize (end_of s i) then - 1
            else int (min (length (take INT_MAX data)) (bsize (end_of s i) - blen (end_of s i))))"
    "queue s' i = queue s i @ take (nat ret) (take INT_MAX data)" "queue s' j = queue s j"
    "closed (end_of s' i) = closed (end_of s i)" "bsize (end_of s' i) = bsize (end_of s i)"
    by (rule write_pair [OF assms(1), of "take INT_MAX data"])
  have "ret = - 1" using w(3) assms(2,3) by simp
  then show thesis using that w assms(2) by (subst (asm) BIO_write_all.simps) simp
qed

text \<open>What \<open>BIO_write_all\<close> did with \<open>data\<close>: a closed end takes nothing, an open one what there is
  room for.\<close>

lemma write_all_pair:
  assumes "pair_ok i j s"
  obtains s' where
    "BIO_write_all (Some i) data s =
       Some (data = [] \<or> \<not> closed (end_of s i) \<and> length data \<le> bsize (end_of s i) - length (queue s i), s')"
    "pair_ok i j s'" "queue s' j = queue s j"
    "queue s' i = queue s i @ (if closed (end_of s i) then [] else take (bsize (end_of s i) - length (queue s i)) data)"
    "closed (end_of s' i) = closed (end_of s i)" "bsize (end_of s' i) = bsize (end_of s i)"
  using assms
proof (induction "length data" arbitrary: data s thesis rule: less_induct)
  case less
  let ?b = "end_of s i"
  let ?room = "bsize ?b - length (queue s i)"
  note q = queue_length [OF less.prems(2)]
  consider (empty) "data = []" | (stop) "data \<noteq> []" "closed ?b \<or> blen ?b = bsize ?b"
    | (go) "data \<noteq> []" "\<not> closed ?b" "blen ?b < bsize ?b" using q(2) by fastforce
  then show ?case
  proof cases
    case empty
    then show ?thesis using less.prems(1) [of s] less.prems(2) by (simp add: BIO_write_all.simps)
  next
    case stop
    obtain s' where s': "BIO_write_all (Some i) data s = Some (False, s')" "pair_ok i j s'" "queue s' i = queue s i"
      "queue s' j = queue s j" "closed (end_of s' i) = closed ?b" "bsize (end_of s' i) = bsize ?b"
      by (rule write_all_stops [OF less.prems(2) stop])
    have "\<not> (data = [] \<or> \<not> closed ?b \<and> length data \<le> ?room)" using stop q by auto
    moreover have "(if closed ?b then [] else take ?room data) = []" using stop q by auto
    ultimately show ?thesis using less.prems(1) [of s'] s' by simp
  next
    case go
    obtain t ret where w: "BIO_write (Some i) (Some (take INT_MAX data)) s = Some (ret, t)" "pair_ok i j t"
      "ret = (if take INT_MAX data = [] then 0 else if closed ?b \<or> blen ?b = bsize ?b then - 1
              else int (min (length (take INT_MAX data)) (bsize ?b - blen ?b)))"
      "queue t i = queue s i @ take (nat ret) (take INT_MAX data)" "queue t j = queue s j"
      "closed (end_of t i) = closed ?b" "bsize (end_of t i) = bsize ?b"
      by (rule write_pair [OF less.prems(2), of "take INT_MAX data"])
    define n where "n = min (min (length data) INT_MAX) ?room"
    have n: "ret = int n" "0 < n" "n \<le> length data" "n \<le> INT_MAX" "n \<le> ?room" using w(3) go q by (auto simp: n_def)
    have qt: "queue t i = queue s i @ take n data" using w(4) n by (simp add: min_def)
    obtain s' where s': "BIO_write_all (Some i) (drop n data) t =
        Some (drop n data = [] \<or> \<not> closed (end_of t i) \<and> length (drop n data) \<le> bsize (end_of t i) - length (queue t i), s')"
      "pair_ok i j s'" "queue s' j = queue t j"
      "queue s' i = queue t i @ (if closed (end_of t i) then [] else take (bsize (end_of t i) - length (queue t i)) (drop n data))"
      "closed (end_of s' i) = closed (end_of t i)" "bsize (end_of s' i) = bsize (end_of t i)"
      by (rule less.hyps [OF _ _ w(2), of "drop n data"]) (use n in auto)
    have "BIO_write_all (Some i) data s = BIO_write_all (Some i) (drop n data) t"
      using go w(1) n by (subst BIO_write_all.simps) simp
    moreover have room: "bsize (end_of t i) - length (queue t i) = ?room - n" using qt n w(7) by simp
    moreover have "(drop n data = [] \<or> \<not> closed (end_of t i) \<and> length (drop n data) \<le> ?room - n) =
        (data = [] \<or> \<not> closed ?b \<and> length data \<le> ?room)"
      using go n w(6) by auto
    moreover have "queue s' i = queue s i @ (if closed ?b then [] else take ?room data)"
    proof -
      have "take ?room data = take (n + (?room - n)) data" by (simp only: le_add_diff_inverse [OF n(5)])
      also have "\<dots> = take n data @ take (?room - n) (drop n data)" by (rule take_add)
      finally have "take ?room data = take n data @ take (?room - n) (drop n data)" .
      then show ?thesis unfolding s'(4) unfolding room unfolding qt w(6) using go(2) by (simp only: if_False append_assoc)
    qed
    ultimately show ?thesis
      by (intro less.prems(1) [of s']) (simp_all only: s' w)
  qed
qed

section \<open>Reading everything\<close>

text \<open>A reader that calls \<open>BIO_read\<close> \<open>n\<close> times with a buffer of \<open>k\<close> bytes.\<close>

primrec drain :: "nat \<Rightarrow> bio_id \<Rightarrow> nat \<Rightarrow> store \<Rightarrow> (bytes \<times> store) option" where
  "drain 0 i k s = Some ([], s)"
| "drain (Suc n) i k s =
     (case BIO_read (Some i) True (int k) s of
        None \<Rightarrow> None
      | Some (_, out, s) \<Rightarrow> map_option (\<lambda>(rest, s). (out @ rest, s)) (drain n i k s))"

lemma drain_queue:
  assumes "pair_ok i j s" "0 < k"
  obtains s' where "drain n i k s = Some (take (n * k) (queue s j), s')" "pair_ok i j s'"
    "queue s' j = drop (n * k) (queue s j)" "queue s' i = queue s i" "closed (end_of s' j) = closed (end_of s j)"
  using assms
proof (induction n arbitrary: s thesis)
  case 0
  then show ?case by simp
next
  case (Suc n)
  let ?q = "queue s j"
  obtain t ret out where r: "BIO_read (Some i) True (int k) s = Some (ret, out, t)" "pair_ok i j t"
    "ret = (if int k \<le> 0 \<or> \<not> True then 0 else if blen (end_of s j) = 0 then if closed (end_of s j) then 0 else - 1
            else int (min (nat (int k)) (blen (end_of s j))))"
    "out = take (nat ret) ?q" "queue t j = drop (nat ret) ?q" "queue t i = queue s i" "closed (end_of t j) = closed (end_of s j)"
    by (rule read_pair [OF Suc.prems(2), of True "int k"])
  have l: "length ?q = blen (end_of s j)" by (rule queue_length(1) [OF pair_ok_sym [OF Suc.prems(2)]])
  have o: "out = take k ?q" "queue t j = drop k ?q"
    using r(3,4,5) l Suc.prems(3) by (auto simp: min_def)
  obtain s' where d: "drain n i k t = Some (take (n * k) (queue t j), s')" "pair_ok i j s'"
    "queue s' j = drop (n * k) (queue t j)" "queue s' i = queue t i" "closed (end_of s' j) = closed (end_of t j)"
    by (rule Suc.IH [OF _ r(2) Suc.prems(3)])
  show ?case
  proof (rule Suc.prems(1) [of s'])
    show "drain (Suc n) i k s = Some (take (Suc n * k) ?q, s')"
      using r(1) d(1) o by (simp add: take_add)
    show "queue s' j = drop (Suc n * k) ?q" using d(3) o by (simp add: add.commute)
  qed (use d r in simp_all)
qed

section \<open>Control calls\<close>

lemma pending_pair:
  assumes "pair_ok i j s"
  shows "BIO_pending (Some i) s = Some (int (length (queue s j)))" "BIO_wpending (Some i) s = Some (int (length (queue s i)))"
    "BIO_ctrl_get_write_guarantee (Some i) s =
       Some (if closed (end_of s i) then 0 else int (bsize (end_of s i) - length (queue s i)), s)"
proof -
  note q = queue_length [OF assms] queue_length [OF pair_ok_sym [OF assms]]
  obtain x y bi bj where p: "i \<noteq> j" "s i = Some x" "s j = Some y" "ptr x = Some bi" "ptr y = Some bj" "peer bi = Some j"
    "ring_ok bi" using assms by (auto simp: pair_ok_def)
  then have e: "end_of s i = bi" "end_of s j = bj" "bio_ptr s i = Some bi" "bio_ptr s j = Some bj" "buf bi \<noteq> None"
    by (auto simp: end_of_def bio_ptr_def ring_ok_def)
  show "BIO_pending (Some i) s = Some (int (length (queue s j)))"
    using p e q by (simp add: BIO_pending_def BIO_ctrl_def bio_ctrl_def)
  show "BIO_wpending (Some i) s = Some (int (length (queue s i)))"
    using p e q by (simp add: BIO_wpending_def BIO_ctrl_def bio_ctrl_def)
  show "BIO_ctrl_get_write_guarantee (Some i) s =
      Some (if closed (end_of s i) then 0 else int (bsize (end_of s i) - length (queue s i)), s)"
    using p e q by (simp add: BIO_ctrl_get_write_guarantee_def BIO_ctrl_def bio_ctrl_def of_nat_diff)
qed

lemma shutdown_pair:
  assumes "pair_ok i j s"
  obtains s' where "BIO_shutdown_wr (Some i) s = Some (1, s')" "pair_ok i j s'" "queue s' i = queue s i" "queue s' j = queue s j"
    "closed (end_of s' i)"
proof -
  obtain t ret where c: "BIO_ctrl (Some i) BIO_C_SHUTDOWN_WR 0 None s = Some (ret, t)" "pair_ok i j t"
    "queue t i = queue s i" "queue t j = queue s j"
    by (rule ctrl_pair [OF assms, of i None BIO_C_SHUTDOWN_WR 0]) auto
  obtain x b where p: "s i = Some x" "ptr x = Some b" using assms by (auto simp: pair_ok_def)
  have "BIO_ctrl (Some i) BIO_C_SHUTDOWN_WR 0 None s = Some (1, upd_ptr i (\<lambda>b. b\<lparr>closed := True\<rparr>) s)"
    using p by (simp add: BIO_ctrl_def bio_ctrl_def bio_ptr_def)
  moreover have "closed (end_of (upd_ptr i (\<lambda>b. b\<lparr>closed := True\<rparr>) s) i)" using p by (simp add: store_simps)
  ultimately show thesis using that [of t] c by (simp add: BIO_shutdown_wr_def)
qed

section \<open>Freeing\<close>

text \<open>No call of a run touches a reference count.\<close>

definition refs :: "store \<Rightarrow> bio_id \<Rightarrow> nat option" where
  "refs s e = map_option references (s e)"

lemma refs_upd: "(\<And>x. references (f x) = references x) \<Longrightarrow> refs (upd_bio i f s) = refs s"
  by (auto simp: refs_def upd_bio_def option.map_comp comp_def intro!: ext)

lemma refs_upd_ptr [simp]: "refs (upd_ptr i f s) = refs s"
  by (simp add: upd_ptr_def refs_upd)

lemma refs_flags [simp]:
  "refs (upd_bio i BIO_clear_retry_flags s) = refs s" "refs (upd_bio i BIO_set_retry_read s) = refs s"
  "refs (upd_bio i BIO_set_retry_write s) = refs s"
  by (simp_all add: refs_upd BIO_clear_retry_flags_def BIO_set_retry_read_def BIO_set_retry_write_def)

lemma refs_write:
  assumes "BIO_write (Some e) src s = Some (ret, s')"
  shows "refs s' = refs s"
proof -
  have "bio_write e src s = Some (r, t) \<Longrightarrow> refs t = refs s" for r t
    by (auto simp: bio_write_def Let_def split: option.splits if_splits prod.splits)
  then show ?thesis using assms by (auto simp: BIO_write_def refs_upd split: option.splits if_splits prod.splits)
qed

lemma refs_read:
  assumes "BIO_read (Some e) dst len s = Some (ret, out, s')"
  shows "refs s' = refs s"
proof -
  have "bio_read e dst n s = Some (r, d, t) \<Longrightarrow> refs t = refs s" for n r d t
    by (auto simp: bio_read_def Let_def split: option.splits if_splits prod.splits)
  then show ?thesis using assms by (auto simp: BIO_read_def refs_upd split: option.splits if_splits prod.splits)
qed

lemma refs_ctrl: "BIO_ctrl (Some e) cmd num other s = Some (ret, s') \<Longrightarrow> refs s' = refs s"
  by (auto simp: BIO_ctrl_def bio_ctrl_def refs_upd split: option.splits if_splits)

lemma refs_new:
  assumes "i \<noteq> j" "s0 i = None" "s0 j = None" "BIO_new_bio_pair als i j n1 n2 s0 = Some (Some (i, j), s)"
  shows "refs s i = Some 1" "refs s j = Some 1"
proof -
  have "refs s = refs (s0(i \<mapsto> fresh_bio, j \<mapsto> fresh_bio))"
    using assms(4)
    by (auto simp: BIO_new_bio_pair_def new_end bio_make_pair_def Let_def refs_upd split: if_splits option.splits bool.splits)
  then show "refs s i = Some 1" "refs s j = Some 1" using assms(1) by (simp_all add: refs_def fresh_bio_def)
qed

lemma run_refs:
  assumes "pair_run i j s sent got" "e \<in> {i, j}"
  shows "refs s e = Some 1"
  using assms
proof (induction rule: pair_run.induct)
  case made
  then show ?case using refs_new by blast
next
  case wrote
  then show ?case using refs_write by metis
next
  case received
  then show ?case using refs_read by metis
next
  case controlled
  then show ?case using refs_ctrl by metis
qed

text \<open>After one end is freed the other is not initialised any more and has no peer.\<close>

lemma free_pair:
  assumes "pair_ok i j s" "refs s i = Some 1" "refs s j = Some 1"
  obtains t where "BIO_free_pair_end (Some i) s = Some (1, t)" "t i = None"
    "BIO_read (Some j) dst len t = Some (- 2, [], t)" "BIO_write (Some j) src t = Some (- 2, t)"
    "BIO_free_pair_end (Some j) t = Some (1, s(i := None, j := None))"
proof -
  obtain x y bi bj where p: "i \<noteq> j" "s i = Some x" "s j = Some y" "ptr x = Some bi" "ptr y = Some bj"
    "peer bi = Some j" "peer bj = Some i" "buf bi \<noteq> None" "buf bj \<noteq> None" "references x = 1" "references y = 1"
    using assms by (auto simp: pair_ok_def ring_ok_def refs_def)
  let ?y = "y\<lparr>init := False, ptr := Some (bj\<lparr>peer := None, blen := 0, offset := 0\<rparr>)\<rparr>"
  let ?t = "s(i := None, j \<mapsto> ?y)"
  have "BIO_free_pair_end (Some i) s = Some (1, ?t)"
    using p by (simp add: BIO_free_pair_end_def CRYPTO_refcount_dec_and_test_zero_def pair_bio_free_def bio_destroy_pair_def
        store_simps Let_def fun_upd_twist)
  moreover have "BIO_free_pair_end (Some j) ?t = Some (1, ?t(j := None))"
    by (rule free_end [of _ _ ?y "bj\<lparr>peer := None, blen := 0, offset := 0\<rparr>"]) (use p in simp_all)
  ultimately show thesis using that [of ?t] p(1) by (simp add: BIO_read_def BIO_write_def fun_upd_twist)
qed

section \<open>The properties\<close>

text \<open>Concrete runs for the witnesses.\<close>

abbreviation (input) no_log :: "bio_id \<Rightarrow> bytes" where "no_log \<equiv> \<lambda>_. []"

lemma demo_made:
  obtains s where "BIO_new_bio_pair (\<lambda>_ _. True) 0 1 4 3 (\<lambda>_. None) = Some (Some (0, 1), s)" "pair_run 0 1 s no_log no_log"
    "queue s 0 = []" "queue s 1 = []" "\<not> closed (end_of s 0)" "bsize (end_of s 0) = 4"
proof -
  obtain s where s: "BIO_new_bio_pair (\<lambda>_ _. True) 0 1 4 3 (\<lambda>_. None) = Some (Some (0, 1), s)"
    "queue s 0 = []" "queue s 1 = []" "\<not> closed (end_of s 0)" "bsize (end_of s 0) = 4"
    using new_pair [of 0 1 "\<lambda>_. None" "\<lambda>_ _. True" 4 3] by (auto simp: ring_size_def)
  moreover have "pair_run 0 1 s no_log no_log" by (rule pair_run.made [OF _ _ _ s(1)]) simp_all
  ultimately show thesis using that by blast
qed

lemma demo_wrote:
  obtains s where "pair_run 0 1 s (no_log(0 := [1, 2, 3, 4])) no_log" "queue s 0 = [1, 2, 3, 4]"
    "\<not> closed (end_of s 0)" "bsize (end_of s 0) = 4"
proof -
  obtain s where s: "pair_run 0 1 s no_log no_log" "queue s 0 = []" "\<not> closed (end_of s 0)" "bsize (end_of s 0) = 4"
    using demo_made by metis
  have ok: "pair_ok 0 1 s" by (rule pair_run_ok [OF s(1)])
  have "blen (end_of s 0) = 0" using queue_length(1) [OF ok] s(2) by simp
  then obtain t where t: "BIO_write (Some 0) (Some [1, 2, 3, 4, 5, 6]) s = Some (4, t)" "queue t 0 = [1, 2, 3, 4]"
    "\<not> closed (end_of t 0)" "bsize (end_of t 0) = 4"
    using write_pair [OF ok, of "[1, 2, 3, 4, 5, 6]"] s by (simp, metis)
  show thesis using that [OF _ t(2-4)] pair_run.wrote [OF s(1) _ t(1)] by simp
qed

text \<open>C4: Neither end of a pair loses, invents, duplicates or reorders a byte: whatever calls were made on
  the two ends, in whatever interleaving, the bytes \<open>BIO_write\<close> accepted on one end are those
  \<open>BIO_read\<close> handed out at the other followed by those in the ring, no ring holds more than its size, and
  the fields satisfy what the declaration of \<open>bio_bio_st\<close> says of them (\<open>pair_ok\<close>, \<open>ring_ok\<close>).\<close>

theorem bio_pair_fifo:
  assumes "pair_run i j s sent got"
  shows "sent i = got j @ queue s i \<and> sent j = got i @ queue s j \<and>
    length (queue s i) \<le> bsize (end_of s i) \<and> length (queue s j) \<le> bsize (end_of s j) \<and> pair_ok i j s"
  using pair_run_inv [OF assms] queue_length [of i j s] queue_length [of j i s] pair_ok_sym
  by (simp add: run_inv_def)

theorem bio_pair_fifo_witness:
  "\<exists>s sent got. pair_run 0 1 s sent got \<and> got 1 = [1, 2, 3] \<and> queue s 0 = [4] \<and> sent 0 = got 1 @ queue s 0"
proof -
  obtain s where s: "pair_run 0 1 s (no_log(0 := [1, 2, 3, 4])) no_log" "queue s 0 = [1, 2, 3, 4]"
    by (rule demo_wrote)
  have ok: "pair_ok 1 0 s" using pair_run_ok [OF s(1)] by (rule pair_ok_sym)
  have "blen (end_of s 0) = 4" using queue_length(1) [OF pair_ok_sym [OF ok]] s(2) by simp
  then obtain t where t: "BIO_read (Some 1) True 3 s = Some (3, [1, 2, 3], t)" "queue t 0 = [4]"
    using read_pair [OF ok, of True 3] s(2) by (simp, metis)
  have r: "pair_run 0 1 t (no_log(0 := [1, 2, 3, 4])) (no_log(1 := [1, 2, 3]))"
    using pair_run.received [OF s(1) _ t(1)] by simp
  show ?thesis by (intro exI conjI, rule r) (use t(2) bio_pair_fifo [OF r] in simp_all)
qed

text \<open>C13: Every call on an end of a pair returns: on any state of a run no assertion of \<open>pair.c\<close> fails,
  no missing pointer is followed, and the copy loops and the loop of \<open>BIO_write_all\<close> end.\<close>

theorem bio_pair_calls_return:
  assumes "pair_run i j s sent got" "e \<in> {i, j}" "other \<in> {None, Some i, Some j}"
  shows "BIO_write (Some e) src s \<noteq> None \<and> BIO_write_all (Some e) data s \<noteq> None \<and>
    BIO_read (Some e) dst len s \<noteq> None \<and> BIO_ctrl (Some e) cmd num other s \<noteq> None \<and>
    BIO_pending (Some e) s \<noteq> None \<and> BIO_wpending (Some e) s \<noteq> None \<and> BIO_free_pair_end (Some e) s \<noteq> None"
proof -
  note ok = pair_run_end [OF assms(1,2)]
  have "BIO_write (Some e) src s \<noteq> None"
    using write_none [OF ok] write_pair [OF ok] by (cases src) (simp, metis option.distinct(1))+
  moreover have "BIO_write_all (Some e) data s \<noteq> None"
    using write_all_pair [OF ok, of data] by (metis option.distinct(1))
  moreover have "BIO_read (Some e) dst len s \<noteq> None"
    using read_pair [OF ok, of dst len] by (metis option.distinct(1))
  moreover have "BIO_ctrl (Some e) cmd num other s \<noteq> None"
    using ctrl_cases [OF pair_run_ok [OF assms(1)] assms(2,3), of cmd num] by (metis option.distinct(1))
  moreover have "refs s e = Some 1" "refs s (peer_of i j e) = Some 1"
    using run_refs [OF assms(1)] by (simp_all add: peer_of_def assms(2) del: insert_iff) (simp_all)
  then have "BIO_free_pair_end (Some e) s \<noteq> None"
    using free_pair [OF ok] by (metis option.distinct(1))
  ultimately show ?thesis using pending_pair [OF ok] by simp
qed

theorem bio_pair_calls_return_witness:
  "\<exists>s. BIO_write (Some 0) None s \<noteq> None \<and> BIO_write_all (Some 0) [1, 2] s \<noteq> None \<and> BIO_read (Some 0) True 2 s \<noteq> None \<and>
     BIO_ctrl (Some 0) BIO_CTRL_EOF 0 (Some 1) s \<noteq> None"
proof -
  obtain s where s: "pair_run 0 1 s (no_log(0 := [1, 2, 3, 4])) no_log" by (rule demo_wrote)
  show ?thesis
    using bio_pair_calls_return [OF s, of 0 "Some 1" None "[1, 2]" True 2 BIO_CTRL_EOF 0] by auto
qed

text \<open>C15: The exact results of the calls in every state of a run.  \<open>BIO_write\<close> takes what there is room
  for and appends it to the ring; it is -1 on an end that was shut down, without a retry flag, and -1 with
  the retry flags for writing when the ring is full.  \<open>BIO_read\<close> hands out the front of the peer's ring; when that is empty it is 0 if
  the peer was shut down and otherwise -1 with the retry flags for reading, and the peer then sees how much was
  asked for.  \<open>BIO_pending\<close>, \<open>BIO_wpending\<close> and \<open>BIO_ctrl_get_write_guarantee\<close> are the lengths and the room
  they name.\<close>

theorem bio_pair_results:
  assumes "pair_run i j s sent got" "e \<in> {i, j}" "p = peer_of i j e" "room = bsize (end_of s e) - length (queue s e)"
  shows
    "(\<exists>ret t. BIO_write (Some e) (Some data) s = Some (ret, t) \<and>
        ret = (if data = [] then 0 else if closed (end_of s e) \<or> room = 0 then - 1 else int (min (length data) room)) \<and>
        queue t e = queue s e @ take (nat ret) data \<and> queue t p = queue s p \<and>
        (data \<noteq> [] \<longrightarrow> BIO_should_retry (the (t e)) = (\<not> closed (end_of s e) \<and> room = 0) \<and>
          BIO_should_write (the (t e)) = (\<not> closed (end_of s e) \<and> room = 0) \<and> \<not> BIO_should_read (the (t e)))) \<and>
     (\<exists>ret out t. BIO_read (Some e) dst len s = Some (ret, out, t) \<and>
        ret = (if len \<le> 0 \<or> \<not> dst then 0 else if queue s p = [] then if closed (end_of s p) then 0 else - 1
               else int (min (nat len) (length (queue s p)))) \<and>
        out = take (nat ret) (queue s p) \<and> queue t p = drop (nat ret) (queue s p) \<and> queue t e = queue s e \<and>
        (0 < len \<longrightarrow> dst \<longrightarrow> BIO_should_retry (the (t e)) = (ret = - 1) \<and>
          BIO_should_read (the (t e)) = (ret = - 1) \<and> \<not> BIO_should_write (the (t e))) \<and>
        (ret = - 1 \<longrightarrow> request (end_of t p) = min (nat len) (bsize (end_of s p)))) \<and>
     BIO_pending (Some e) s = Some (int (length (queue s p))) \<and> BIO_wpending (Some e) s = Some (int (length (queue s e))) \<and>
     BIO_ctrl_get_write_guarantee (Some e) s = Some (if closed (end_of s e) then 0 else int room, s)"
proof (intro conjI)
  have ok: "pair_ok e p s" using pair_run_end assms by blast
  note qe = queue_length [OF ok] and qp = queue_length [OF pair_ok_sym [OF ok]]
  show "\<exists>ret t. BIO_write (Some e) (Some data) s = Some (ret, t) \<and>
      ret = (if data = [] then 0 else if closed (end_of s e) \<or> room = 0 then - 1 else int (min (length data) room)) \<and>
      queue t e = queue s e @ take (nat ret) data \<and> queue t p = queue s p \<and>
      (data \<noteq> [] \<longrightarrow> BIO_should_retry (the (t e)) = (\<not> closed (end_of s e) \<and> room = 0) \<and>
          BIO_should_write (the (t e)) = (\<not> closed (end_of s e) \<and> room = 0) \<and> \<not> BIO_should_read (the (t e)))"
  proof -
    have room: "(room = 0) = (blen (end_of s e) = bsize (end_of s e))" "room = bsize (end_of s e) - blen (end_of s e)"
      using qe assms(4) by auto
    obtain t ret where w: "BIO_write (Some e) (Some data) s = Some (ret, t)"
      "ret = (if data = [] then 0 else if closed (end_of s e) \<or> blen (end_of s e) = bsize (end_of s e) then - 1
              else int (min (length data) (bsize (end_of s e) - blen (end_of s e))))"
      "queue t e = queue s e @ take (nat ret) data" "queue t p = queue s p"
      "data \<noteq> [] \<Longrightarrow> retries (\<not> closed (end_of s e) \<and> blen (end_of s e) = bsize (end_of s e)) False (the (t e))"
      by (rule write_pair [OF ok, of data]) blast
    from w(5) have "data \<noteq> [] \<longrightarrow> BIO_should_retry (the (t e)) = (\<not> closed (end_of s e) \<and> room = 0) \<and>
        BIO_should_write (the (t e)) = (\<not> closed (end_of s e) \<and> room = 0) \<and> \<not> BIO_should_read (the (t e))"
      unfolding retries_def room(1) by blast
    with w(1-4) show ?thesis unfolding room(1) unfolding room(2) by blast
  qed
  show "\<exists>ret out t. BIO_read (Some e) dst len s = Some (ret, out, t) \<and>
      ret = (if len \<le> 0 \<or> \<not> dst then 0 else if queue s p = [] then if closed (end_of s p) then 0 else - 1
             else int (min (nat len) (length (queue s p)))) \<and>
      out = take (nat ret) (queue s p) \<and> queue t p = drop (nat ret) (queue s p) \<and> queue t e = queue s e \<and>
      (0 < len \<longrightarrow> dst \<longrightarrow> BIO_should_retry (the (t e)) = (ret = - 1) \<and>
          BIO_should_read (the (t e)) = (ret = - 1) \<and> \<not> BIO_should_write (the (t e))) \<and>
      (ret = - 1 \<longrightarrow> request (end_of t p) = min (nat len) (bsize (end_of s p)))"
  proof -
    have empty: "(queue s p = []) = (blen (end_of s p) = 0)" using qp(1) by auto
    obtain t ret out where r: "BIO_read (Some e) dst len s = Some (ret, out, t)"
      "ret = (if len \<le> 0 \<or> \<not> dst then 0 else if blen (end_of s p) = 0 then if closed (end_of s p) then 0 else - 1
              else int (min (nat len) (blen (end_of s p))))"
      "out = take (nat ret) (queue s p)" "queue t p = drop (nat ret) (queue s p)" "queue t e = queue s e"
      "0 < len \<Longrightarrow> dst \<Longrightarrow> retries False (blen (end_of s p) = 0 \<and> \<not> closed (end_of s p)) (the (t e))"
      "ret = - 1 \<Longrightarrow> request (end_of t p) = min (nat len) (bsize (end_of s p))"
      by (rule read_pair [OF ok, of dst len]) blast
    moreover from r(2,6) have "BIO_should_retry (the (t e)) = (ret = - 1) \<and> BIO_should_read (the (t e)) = (ret = - 1) \<and>
        \<not> BIO_should_write (the (t e))" if "0 < len" dst using that by (simp add: retries_def)
    ultimately show ?thesis unfolding empty qp(1) by blast
  qed
  show "BIO_pending (Some e) s = Some (int (length (queue s p)))" "BIO_wpending (Some e) s = Some (int (length (queue s e)))"
    "BIO_ctrl_get_write_guarantee (Some e) s = Some (if closed (end_of s e) then 0 else int room, s)"
    using pending_pair [OF ok] assms(4) by simp_all
qed

theorem bio_pair_results_witness:
  "\<exists>s t. BIO_write (Some 0) (Some [9]) s = Some (- 1, t) \<and> BIO_should_write (the (t 0)) \<and> BIO_pending (Some 1) s = Some 4"
proof -
  obtain s where s: "pair_run 0 1 s (no_log(0 := [1, 2, 3, 4])) no_log" "queue s 0 = [1, 2, 3, 4]"
    "\<not> closed (end_of s 0)" "bsize (end_of s 0) = 4" by (rule demo_wrote)
  obtain t where "BIO_write (Some 0) (Some [9]) s = Some (- 1, t)" "BIO_should_write (the (t 0))"
    using bio_pair_results [OF s(1), of 0 1 0 "[9]" True 1] s by (auto simp: peer_of_def)
  moreover have "BIO_pending (Some 1) s = Some 4"
    using bio_pair_results [OF s(1), of 1 0 _ "[9]" True 1] s(2) by (auto simp: peer_of_def)
  ultimately show ?thesis by blast
qed

text \<open>C25: What is written arrives and the end of the stream is seen: on an end that was not shut down,
  data the write guarantee covers is taken whole by \<open>BIO_write_all\<close>; after \<open>BIO_shutdown_wr\<close> a peer that
  keeps reading with a buffer of any size gets all bytes in order within as many calls as that size
  needs, then end of file, and the end accepts no more bytes.\<close>

theorem bio_pair_delivers:
  assumes "pair_run i j s sent got" "e \<in> {i, j}" "p = peer_of i j e" "\<not> closed (end_of s e)"
    "length data \<le> bsize (end_of s e) - length (queue s e)" "0 < k" "length (queue s e) + length data \<le> n * k"
  shows "\<exists>t u v w. BIO_write_all (Some e) data s = Some (True, t) \<and> BIO_shutdown_wr (Some e) t = Some (1, u) \<and>
    drain n p k u = Some (queue s e @ data, v) \<and> BIO_read (Some p) True (int k) v = Some (0, [], w) \<and>
    (\<exists>x. BIO_write (Some e) (Some [c]) w = Some (- 1, x)) \<and> queue w p = queue s p"
proof -
  have ok: "pair_ok e p s" using pair_run_end assms by blast
  obtain t where t: "BIO_write_all (Some e) data s =
      Some (data = [] \<or> \<not> closed (end_of s e) \<and> length data \<le> bsize (end_of s e) - length (queue s e), t)"
    "pair_ok e p t" "queue t p = queue s p"
    "queue t e = queue s e @ (if closed (end_of s e) then [] else take (bsize (end_of s e) - length (queue s e)) data)"
    by (rule write_all_pair [OF ok, of data])
  have qt: "queue t e = queue s e @ data" using t(4) assms(4,5) by simp
  obtain u where u: "BIO_shutdown_wr (Some e) t = Some (1, u)" "pair_ok e p u" "queue u e = queue t e" "queue u p = queue t p"
    "closed (end_of u e)" by (rule shutdown_pair [OF t(2)])
  obtain v where v: "drain n p k u = Some (take (n * k) (queue u e), v)" "pair_ok p e v"
    "queue v e = drop (n * k) (queue u e)" "queue v p = queue u p" "closed (end_of v e) = closed (end_of u e)"
    by (rule drain_queue [OF pair_ok_sym [OF u(2)] assms(6), of n])
  have all: "take (n * k) (queue u e) = queue s e @ data" "queue v e = []" using v(3) u(3) qt assms(7) by simp_all
  have "blen (end_of v e) = 0" using queue_length(1) [OF pair_ok_sym [OF v(2)]] all(2) by simp
  obtain w ret out where r: "BIO_read (Some p) True (int k) v = Some (ret, out, w)" "pair_ok p e w"
    "ret = (if int k \<le> 0 \<or> \<not> True then 0 else if blen (end_of v e) = 0 then if closed (end_of v e) then 0 else - 1
            else int (min (nat (int k)) (blen (end_of v e))))"
    "out = take (nat ret) (queue v e)" "queue w p = queue v p" "closed (end_of w e) = closed (end_of v e)"
    by (rule read_pair [OF v(2), of True "int k"])
  then have w: "BIO_read (Some p) True (int k) v = Some (0, [], w)" "pair_ok p e w" "queue w p = queue v p" "closed (end_of w e)"
    using \<open>blen (end_of v e) = 0\<close> v(5) u(5) by simp_all
  obtain x ret where "BIO_write (Some e) (Some [c]) w = Some (ret, x)"
    "ret = (if [c] = [] then 0 else if closed (end_of w e) \<or> blen (end_of w e) = bsize (end_of w e) then - 1
            else int (min (length [c]) (bsize (end_of w e) - blen (end_of w e))))"
    by (rule write_pair [OF pair_ok_sym [OF w(2)], of "[c]"])
  then have "BIO_write (Some e) (Some [c]) w = Some (- 1, x)" using w(4) by simp
  moreover have "BIO_write_all (Some e) data s = Some (True, t)" using t(1) assms(4,5) by simp
  moreover have "drain n p k u = Some (queue s e @ data, v)" using v(1) all(1) by simp
  moreover have "queue w p = queue s p" using t(3) u(4) v(4) w(3) by simp
  ultimately show ?thesis using u(1) w(1) by blast
qed

theorem bio_pair_delivers_witness:
  "\<exists>s t u v. BIO_write_all (Some 0) [5, 6, 7] s = Some (True, t) \<and> BIO_shutdown_wr (Some 0) t = Some (1, u) \<and>
     drain 2 1 2 u = Some ([5, 6, 7], v)"
proof -
  obtain s where s: "pair_run 0 1 s no_log no_log" "queue s 0 = []" "\<not> closed (end_of s 0)" "bsize (end_of s 0) = 4"
    using demo_made by metis
  have "\<exists>t u v w. BIO_write_all (Some 0) [5, 6, 7] s = Some (True, t) \<and> BIO_shutdown_wr (Some 0) t = Some (1, u) \<and>
    drain 2 1 2 u = Some (queue s 0 @ [5, 6, 7], v) \<and> BIO_read (Some 1) True (int 2) v = Some (0, [], w) \<and>
    (\<exists>x. BIO_write (Some 0) (Some [0]) w = Some (- 1, x)) \<and> queue w 1 = queue s 1"
    by (rule bio_pair_delivers [OF s(1)]) (simp_all add: s peer_of_def)
  then show ?thesis unfolding s(2) append_Nil by blast
qed

text \<open>C26: The life of a pair.  \<open>BIO_new_bio_pair\<close> either makes two open, empty ends, or fails, which it does
  only when memory is missing, and then leaves no BIO behind, whichever of its requests for memory it is
  that fails.  Freeing one end of a pair in any state of
  a run disconnects the other, whose reads and writes give -2 from then on; freeing that one too
  leaves nothing of the pair.\<close>

theorem bio_pair_lifecycle:
  assumes "i \<noteq> j" "s0 i = None" "s0 j = None"
  shows "((\<exists>s. BIO_new_bio_pair als i j n1 n2 s0 = Some (Some (i, j), s) \<and> pair_run i j s no_log no_log \<and>
        queue s i = [] \<and> queue s j = [] \<and> \<not> closed (end_of s i) \<and> \<not> closed (end_of s j)) \<or>
      BIO_new_bio_pair als i j n1 n2 s0 = Some (None, s0) \<and>
        (\<not> (\<forall>k m. als k m) \<or> SIZE_MODULUS \<le> max (ring_size n1) (ring_size n2) + 8)) \<and>
    (pair_run i j s sent got \<longrightarrow> e \<in> {i, j} \<longrightarrow> p = peer_of i j e \<longrightarrow>
      (\<exists>t. BIO_free_pair_end (Some e) s = Some (1, t) \<and> t e = None \<and>
         BIO_read (Some p) dst len t = Some (- 2, [], t) \<and> BIO_write (Some p) src t = Some (- 2, t) \<and>
         BIO_free_pair_end (Some p) t = Some (1, s(e := None, p := None))))"
proof
  show "(\<exists>s. BIO_new_bio_pair als i j n1 n2 s0 = Some (Some (i, j), s) \<and> pair_run i j s no_log no_log \<and>
        queue s i = [] \<and> queue s j = [] \<and> \<not> closed (end_of s i) \<and> \<not> closed (end_of s j)) \<or>
      BIO_new_bio_pair als i j n1 n2 s0 = Some (None, s0) \<and>
        (\<not> (\<forall>k m. als k m) \<or> SIZE_MODULUS \<le> max (ring_size n1) (ring_size n2) + 8)"
    using new_pair [OF assms, of als n1 n2] pair_run.made [OF assms, of als n1 n2] by blast
  show "pair_run i j s sent got \<longrightarrow> e \<in> {i, j} \<longrightarrow> p = peer_of i j e \<longrightarrow>
      (\<exists>t. BIO_free_pair_end (Some e) s = Some (1, t) \<and> t e = None \<and>
         BIO_read (Some p) dst len t = Some (- 2, [], t) \<and> BIO_write (Some p) src t = Some (- 2, t) \<and>
         BIO_free_pair_end (Some p) t = Some (1, s(e := None, p := None)))"
  proof (intro impI)
    assume r: "pair_run i j s sent got" "e \<in> {i, j}" "p = peer_of i j e"
    have "refs s e = Some 1" "refs s p = Some 1" using run_refs [OF r(1)] r(2,3) by (auto simp: peer_of_def)
    then show "\<exists>t. BIO_free_pair_end (Some e) s = Some (1, t) \<and> t e = None \<and>
         BIO_read (Some p) dst len t = Some (- 2, [], t) \<and> BIO_write (Some p) src t = Some (- 2, t) \<and>
         BIO_free_pair_end (Some p) t = Some (1, s(e := None, p := None))"
      using free_pair [OF pair_run_end [OF r(1,2), folded r(3)], of dst len src] by metis
  qed
qed

theorem bio_pair_lifecycle_witness:
  "\<exists>s t. pair_run 0 1 s (no_log(0 := [1, 2, 3, 4])) no_log \<and> BIO_free_pair_end (Some 0) s = Some (1, t) \<and>
     BIO_write (Some 1) (Some [1]) t = Some (- 2, t)"
proof -
  obtain s where s: "pair_run 0 1 s (no_log(0 := [1, 2, 3, 4])) no_log" by (rule demo_wrote)
  show ?thesis
    using bio_pair_lifecycle [of 0 1 "\<lambda>_. None" "\<lambda>_ _. True" 4 3 s "no_log(0 := [1, 2, 3, 4])" no_log 0 1 True 1 "Some [1]"] s
    by (auto simp: peer_of_def)
qed

end
