(* ===== verification/Nanopb.thy ===== *)
theory Nanopb
  imports
    Mem
begin

text \<open>
  The wire format of the Protocol Buffers library in \<open>Pods/nanopb\<close> (\<open>pb_encode.c\<close>,
  \<open>pb_decode.c\<close>): buffer streams, variable-length and fixed-size integers, tags, strings,
  substreams, the integer field codecs with their range checks, and packed arrays.  Input streams
  are those of \<open>pb_istream_from_buffer\<close> (\<open>callback == buf_read\<close>), output streams those of
  \<open>pb_ostream_from_buffer\<close> and the sizing stream.  \<open>uint_fast8_t\<close> has 8 bits, and integers are
  stored with their low byte first, as on the platforms of the application.
\<close>

section \<open>Streams\<close>

text \<open>\<open>is_state\<close> is the memory from the pointer \<open>state\<close> on; \<open>is_left\<close> may be less, as in a substream.\<close>

record pb_istream =
  is_state :: bytes
  is_left :: nat
  is_errmsg :: "string option"

text \<open>\<open>os_callback\<close> tells \<open>buf_write\<close> from \<open>NULL\<close>; \<open>os_state\<close> is what was written before the pointer
  \<open>state\<close>.\<close>

record pb_ostream =
  os_callback :: bool
  os_state :: bytes
  os_max_size :: nat
  os_bytes_written :: nat
  os_errmsg :: "string option"

text \<open>The members of a field description the modelled code uses.\<close>

record pb_field =
  fld_tag :: u32
  fld_type :: byte
  fld_data_size :: nat
  fld_array_size :: nat

definition PB_SET_ERROR :: "string \<Rightarrow> string option \<Rightarrow> string option" where
  "PB_SET_ERROR msg e = (case e of None \<Rightarrow> Some msg | Some m \<Rightarrow> Some m)"

definition ierror :: "string \<Rightarrow> pb_istream \<Rightarrow> pb_istream" where
  "ierror msg s = s\<lparr>is_errmsg := PB_SET_ERROR msg (is_errmsg s)\<rparr>"

definition oerror :: "string \<Rightarrow> pb_ostream \<Rightarrow> pb_ostream" where
  "oerror msg s = s\<lparr>os_errmsg := PB_SET_ERROR msg (os_errmsg s)\<rparr>"

definition PB_WT_VARINT :: u32 where "PB_WT_VARINT = 0"
definition PB_WT_64BIT :: u32 where "PB_WT_64BIT = 1"
definition PB_WT_STRING :: u32 where "PB_WT_STRING = 2"
definition PB_WT_32BIT :: u32 where "PB_WT_32BIT = 5"

definition PB_LTYPE_BOOL :: byte where "PB_LTYPE_BOOL = 0x00"
definition PB_LTYPE_VARINT :: byte where "PB_LTYPE_VARINT = 0x01"
definition PB_LTYPE_UVARINT :: byte where "PB_LTYPE_UVARINT = 0x02"
definition PB_LTYPE_SVARINT :: byte where "PB_LTYPE_SVARINT = 0x03"
definition PB_LTYPE_FIXED32 :: byte where "PB_LTYPE_FIXED32 = 0x04"
definition PB_LTYPE_FIXED64 :: byte where "PB_LTYPE_FIXED64 = 0x05"
definition PB_LTYPE_BYTES :: byte where "PB_LTYPE_BYTES = 0x06"
definition PB_LTYPE_STRING :: byte where "PB_LTYPE_STRING = 0x07"
definition PB_LTYPE_SUBMESSAGE :: byte where "PB_LTYPE_SUBMESSAGE = 0x08"
definition PB_LTYPE_FIXED_LENGTH_BYTES :: byte where "PB_LTYPE_FIXED_LENGTH_BYTES = 0x0A"

definition PB_LTYPE :: "byte \<Rightarrow> byte" where "PB_LTYPE x = x AND 0x0F"

section \<open>Decoding\<close>

definition buf_read :: "nat \<Rightarrow> pb_istream \<Rightarrow> bytes \<times> pb_istream" where
  "buf_read n s = (take n (is_state s), s\<lparr>is_state := drop n (is_state s)\<rparr>)"

text \<open>With \<open>buf == NULL\<close> the bytes are only skipped.\<close>

definition pb_read :: "nat \<Rightarrow> (pb_istream, bytes) op" where
  "pb_read n s =
     (if n = 0 then (Some [], s)
      else if is_left s < n then (None, ierror ''end-of-stream'' s)
      else case buf_read n s of (buf, s') \<Rightarrow> (Some buf, s'\<lparr>is_left := is_left s' - n\<rparr>))"

definition pb_readbyte :: "(pb_istream, byte) op" where
  "pb_readbyte s =
     (if is_left s = 0 then (None, ierror ''end-of-stream'' s)
      else case buf_read 1 s of (buf, s') \<Rightarrow> (Some (hd buf), s'\<lparr>is_left := is_left s' - 1\<rparr>))"

definition pb_istream_from_buffer :: "bytes \<Rightarrow> nat \<Rightarrow> pb_istream" where
  "pb_istream_from_buffer buf bufsize = \<lparr>is_state = buf, is_left = bufsize, is_errmsg = None\<rparr>"

lemma pb_readbyte_left: "pb_readbyte s = (Some b, s') \<Longrightarrow> is_left s' < is_left s"
  by (auto simp: pb_readbyte_def buf_read_def split: if_splits)

text \<open>The \<open>do\<close> loop of \<open>pb_decode_varint32_eof\<close> and the check behind it.\<close>

function varint32_loop :: "byte \<Rightarrow> u32 \<Rightarrow> (pb_istream, u32) op" where
  "varint32_loop bitpos result s =
     (case pb_readbyte s of
        (None, s') \<Rightarrow> (None, s')
      | (Some b, s') \<Rightarrow>
          let sign_extension = (if bitpos < 63 then 0xFF else 0x01)
          in if bitpos \<ge> 32 \<and> b AND 0x7F \<noteq> 0 \<and> (drop_bit 31 result = 0 \<or> b \<noteq> sign_extension)
             then (None, ierror ''varint overflow'' s')
             else let result' = (if bitpos \<ge> 32 then result
                                 else result OR push_bit (unat bitpos) (ucast (b AND 0x7F)));
                      bitpos' = bitpos + 7
                  in if b AND 0x80 \<noteq> 0 then varint32_loop bitpos' result' s'
                     else if bitpos' = 35 \<and> b AND 0x70 \<noteq> 0 then (None, ierror ''varint overflow'' s')
                     else (Some result', s'))"
  by pat_completeness auto
termination
  by (relation "measure (\<lambda>(_, _, s). is_left s)") (auto dest: pb_readbyte_left [OF sym])

text \<open>The result, whether \<open>true\<close> was written to \<open>*eof\<close>, and the stream.\<close>

definition pb_decode_varint32_eof :: "pb_istream \<Rightarrow> u32 option \<times> bool \<times> pb_istream" where
  "pb_decode_varint32_eof s =
     (case pb_readbyte s of
        (None, s') \<Rightarrow> (None, is_left s' = 0, s')
      | (Some b, s') \<Rightarrow>
          if b AND 0x80 = 0 then (Some (ucast b), False, s')
          else case varint32_loop 7 (ucast (b AND 0x7F)) s' of (r, s'') \<Rightarrow> (r, False, s''))"

definition pb_decode_varint32 :: "(pb_istream, u32) op" where
  "pb_decode_varint32 s = (case pb_decode_varint32_eof s of (r, _, s') \<Rightarrow> (r, s'))"

function varint_loop :: "byte \<Rightarrow> u64 \<Rightarrow> (pb_istream, u64) op" where
  "varint_loop bitpos result s =
     (if bitpos \<ge> 64 then (None, ierror ''varint overflow'' s)
      else case pb_readbyte s of
        (None, s') \<Rightarrow> (None, s')
      | (Some b, s') \<Rightarrow>
          let result' = result OR push_bit (unat bitpos) (ucast (b AND 0x7F))
          in if b AND 0x80 \<noteq> 0 then varint_loop (bitpos + 7) result' s' else (Some result', s'))"
  by pat_completeness auto
termination
  by (relation "measure (\<lambda>(_, _, s). is_left s)") (auto dest: pb_readbyte_left [OF sym])

definition pb_decode_varint :: "(pb_istream, u64) op" where
  "pb_decode_varint = varint_loop 0 0"

lemma pb_read_left: "pb_read 1 s = (Some b, s') \<Longrightarrow> is_left s' < is_left s"
  by (auto simp: pb_read_def buf_read_def split: if_splits)

function pb_skip_varint :: "(pb_istream, unit) op" where
  "pb_skip_varint s =
     (case pb_read 1 s of
        (None, s') \<Rightarrow> (None, s')
      | (Some b, s') \<Rightarrow> if hd b AND 0x80 \<noteq> 0 then pb_skip_varint s' else (Some (), s'))"
  by pat_completeness auto
termination
  by (relation "measure is_left") (auto dest: pb_read_left [unfolded One_nat_def, OF sym])

definition pb_skip_string :: "(pb_istream, unit) op" where
  "pb_skip_string s =
     (case pb_decode_varint32 s of
        (None, s') \<Rightarrow> (None, s')
      | (Some len, s') \<Rightarrow> (case pb_read (unat len) s' of (r, s'') \<Rightarrow> (map_option (\<lambda>_. ()) r, s'')))"

declare varint32_loop.simps [simp del] varint_loop.simps [simp del] pb_skip_varint.simps [simp del]

text \<open>Whether it returned true, the wire type and the tag written, what \<open>*eof\<close> holds, and the stream.\<close>

definition pb_decode_tag :: "pb_istream \<Rightarrow> bool \<times> u32 \<times> u32 \<times> bool \<times> pb_istream" where
  "pb_decode_tag s =
     (case pb_decode_varint32_eof s of
        (None, eof, s') \<Rightarrow> (False, 0, 0, eof, s')
      | (Some temp, eof, s') \<Rightarrow>
          if temp = 0 then (False, 0, 0, True, s') else (True, temp AND 7, drop_bit 3 temp, eof, s'))"

definition pb_skip_field :: "u32 \<Rightarrow> (pb_istream, unit) op" where
  "pb_skip_field wire_type s =
     (if wire_type = PB_WT_VARINT then pb_skip_varint s
      else if wire_type = PB_WT_64BIT then (case pb_read 8 s of (r, s') \<Rightarrow> (map_option (\<lambda>_. ()) r, s'))
      else if wire_type = PB_WT_STRING then pb_skip_string s
      else if wire_type = PB_WT_32BIT then (case pb_read 4 s of (r, s') \<Rightarrow> (map_option (\<lambda>_. ()) r, s'))
      else (None, ierror ''invalid wire_type'' s))"

text \<open>The bytes put into the buffer of \<open>max_size\<close> bytes.\<close>

fun raw_varint_loop :: "nat \<Rightarrow> (pb_istream, bytes) op" where
  "raw_varint_loop 0 s = (None, s)"
| "raw_varint_loop (Suc room) s =
     (case pb_read 1 s of
        (None, s') \<Rightarrow> (None, s')
      | (Some b, s') \<Rightarrow>
          if hd b AND 0x80 \<noteq> 0
          then (case raw_varint_loop room s' of (r, s'') \<Rightarrow> (map_option (\<lambda>bs. b @ bs) r, s''))
          else (Some b, s'))"

definition read_raw_value :: "u32 \<Rightarrow> nat \<Rightarrow> (pb_istream, bytes) op" where
  "read_raw_value wire_type max_size s =
     (if wire_type = PB_WT_VARINT then raw_varint_loop max_size s
      else if wire_type = PB_WT_64BIT then pb_read 8 s
      else if wire_type = PB_WT_32BIT then pb_read 4 s
      else (None, ierror ''invalid wire_type'' s))"

definition pb_make_string_substream :: "(pb_istream, pb_istream) op" where
  "pb_make_string_substream s =
     (case pb_decode_varint32 s of
        (None, s') \<Rightarrow> (None, s')
      | (Some len, s') \<Rightarrow>
          if is_left s' < unat len then (None, ierror ''parent stream too short'' s')
          else (Some (s'\<lparr>is_left := unat len\<rparr>), s'\<lparr>is_left := is_left s' - unat len\<rparr>))"

definition pb_close_string_substream :: "pb_istream \<Rightarrow> (pb_istream, unit) op" where
  "pb_close_string_substream substream s =
     (case (if is_left substream \<noteq> 0 then pb_read (is_left substream) substream else (Some [], substream)) of
        (None, _) \<Rightarrow> (None, s)
      | (Some _, substream) \<Rightarrow> (Some (), s\<lparr>is_state := is_state substream, is_errmsg := is_errmsg substream\<rparr>))"

definition pb_decode_svarint :: "(pb_istream, u64) op" where
  "pb_decode_svarint s =
     (case pb_decode_varint s of
        (None, s') \<Rightarrow> (None, s')
      | (Some v, s') \<Rightarrow> (Some (if v AND 1 \<noteq> 0 then NOT (drop_bit 1 v) else drop_bit 1 v), s'))"

definition pb_decode_fixed32 :: "(pb_istream, u32) op" where
  "pb_decode_fixed32 s =
     (case pb_read 4 s of
        (None, s') \<Rightarrow> (None, s')
      | (Some bs, s') \<Rightarrow>
          (Some (push_bit 0 (ucast (bs ! 0)) OR push_bit 8 (ucast (bs ! 1)) OR
                 push_bit 16 (ucast (bs ! 2)) OR push_bit 24 (ucast (bs ! 3))), s'))"

definition pb_decode_fixed64 :: "(pb_istream, u64) op" where
  "pb_decode_fixed64 s =
     (case pb_read 8 s of
        (None, s') \<Rightarrow> (None, s')
      | (Some bs, s') \<Rightarrow>
          (Some (push_bit 0 (ucast (bs ! 0)) OR push_bit 8 (ucast (bs ! 1)) OR
                 push_bit 16 (ucast (bs ! 2)) OR push_bit 24 (ucast (bs ! 3)) OR
                 push_bit 32 (ucast (bs ! 4)) OR push_bit 40 (ucast (bs ! 5)) OR
                 push_bit 48 (ucast (bs ! 6)) OR push_bit 56 (ucast (bs ! 7))), s'))"

section \<open>Encoding\<close>

definition buf_write :: "bytes \<Rightarrow> pb_ostream \<Rightarrow> pb_ostream" where
  "buf_write buf s = s\<lparr>os_state := os_state s @ buf\<rparr>"

definition pb_ostream_from_buffer :: "nat \<Rightarrow> pb_ostream" where
  "pb_ostream_from_buffer bufsize =
     \<lparr>os_callback = True, os_state = [], os_max_size = bufsize, os_bytes_written = 0, os_errmsg = None\<rparr>"

definition PB_OSTREAM_SIZING :: pb_ostream where
  "PB_OSTREAM_SIZING = \<lparr>os_callback = False, os_state = [], os_max_size = 0, os_bytes_written = 0, os_errmsg = None\<rparr>"

text \<open>\<open>pb_write_n\<close> is \<open>pb_write\<close> with its \<open>count\<close>; a sizing stream is also called with no data.\<close>

definition pb_write_n :: "bytes \<Rightarrow> nat \<Rightarrow> pb_ostream \<Rightarrow> bool \<times> pb_ostream" where
  "pb_write_n buf n s =
     (if n > 0 \<and> os_callback s \<and>
         ((os_bytes_written s + n) mod SIZE_MODULUS < os_bytes_written s \<or>
          (os_bytes_written s + n) mod SIZE_MODULUS > os_max_size s)
      then (False, oerror ''stream full'' s)
      else let s' = (if n > 0 \<and> os_callback s then buf_write buf s else s)
           in (True, s'\<lparr>os_bytes_written := (os_bytes_written s' + n) mod SIZE_MODULUS\<rparr>))"

definition pb_write :: "bytes \<Rightarrow> pb_ostream \<Rightarrow> bool \<times> pb_ostream" where
  "pb_write buf = pb_write_n buf (length buf)"

lemma unat_drop_bit_7: "unat (drop_bit 7 (v :: u64)) = unat v div 128"
proof -
  have "unat (drop_bit 7 v) = drop_bit 7 (unat v)" by (rule unat_drop_bit_eq)
  then show ?thesis by (simp only: drop_bit_eq_div) simp
qed

function varint_bytes :: "u64 \<Rightarrow> bytes" where
  "varint_bytes v = (if v = 0 then [] else (ucast (v AND 0x7F) OR 0x80) # varint_bytes (drop_bit 7 v))"
  by pat_completeness auto
termination
proof (relation "measure unat")
  fix v :: u64
  assume "v \<noteq> 0"
  then have "0 < unat v" by (simp add: unat_gt_0)
  then show "(drop_bit 7 v, v) \<in> measure unat" by (simp only: in_measure unat_drop_bit_7 div_less_dividend)
qed simp

definition pb_encode_varint :: "u64 \<Rightarrow> pb_ostream \<Rightarrow> bool \<times> pb_ostream" where
  "pb_encode_varint v s =
     (if v \<le> 0x7F then pb_write [ucast v] s
      else let buffer = varint_bytes v
           in pb_write (buffer[length buffer - 1 := last buffer AND 0x7F]) s)"

definition pb_encode_svarint :: "u64 \<Rightarrow> pb_ostream \<Rightarrow> bool \<times> pb_ostream" where
  "pb_encode_svarint v s = pb_encode_varint (if v <s 0 then NOT (push_bit 1 v) else push_bit 1 v) s"

definition pb_encode_fixed32 :: "u32 \<Rightarrow> pb_ostream \<Rightarrow> bool \<times> pb_ostream" where
  "pb_encode_fixed32 v s =
     pb_write [ucast (v AND 0xFF), ucast (drop_bit 8 v AND 0xFF), ucast (drop_bit 16 v AND 0xFF),
       ucast (drop_bit 24 v AND 0xFF)] s"

definition pb_encode_fixed64 :: "u64 \<Rightarrow> pb_ostream \<Rightarrow> bool \<times> pb_ostream" where
  "pb_encode_fixed64 v s =
     pb_write [ucast (v AND 0xFF), ucast (drop_bit 8 v AND 0xFF), ucast (drop_bit 16 v AND 0xFF),
       ucast (drop_bit 24 v AND 0xFF), ucast (drop_bit 32 v AND 0xFF), ucast (drop_bit 40 v AND 0xFF),
       ucast (drop_bit 48 v AND 0xFF), ucast (drop_bit 56 v AND 0xFF)] s"

definition pb_encode_tag :: "u32 \<Rightarrow> u32 \<Rightarrow> pb_ostream \<Rightarrow> bool \<times> pb_ostream" where
  "pb_encode_tag wiretype field_number s = pb_encode_varint (push_bit 3 (ucast field_number) OR ucast wiretype) s"

definition pb_encode_tag_for_field :: "pb_field \<Rightarrow> pb_ostream \<Rightarrow> bool \<times> pb_ostream" where
  "pb_encode_tag_for_field field s =
     (let ltype = PB_LTYPE (fld_type field)
      in if ltype \<in> {PB_LTYPE_BOOL, PB_LTYPE_VARINT, PB_LTYPE_UVARINT, PB_LTYPE_SVARINT}
         then pb_encode_tag PB_WT_VARINT (fld_tag field) s
         else if ltype = PB_LTYPE_FIXED32 then pb_encode_tag PB_WT_32BIT (fld_tag field) s
         else if ltype = PB_LTYPE_FIXED64 then pb_encode_tag PB_WT_64BIT (fld_tag field) s
         else if ltype \<in> {PB_LTYPE_BYTES, PB_LTYPE_STRING, PB_LTYPE_SUBMESSAGE, PB_LTYPE_FIXED_LENGTH_BYTES}
         then pb_encode_tag PB_WT_STRING (fld_tag field) s
         else (False, oerror ''invalid field type'' s))"

definition pb_encode_string :: "bytes \<Rightarrow> pb_ostream \<Rightarrow> bool \<times> pb_ostream" where
  "pb_encode_string buffer s =
     (case pb_encode_varint (of_nat (length buffer)) s of
        (False, s') \<Rightarrow> (False, s')
      | (True, s') \<Rightarrow> pb_write buffer s')"

declare varint_bytes.simps [simp del]

section \<open>Integer fields\<close>

text \<open>The memory of an integer field is given by the word its bytes form; only \<open>fld_data_size\<close> of
  them belong to the field.  \<open>sload n v\<close> reads a signed and \<open>uload n v\<close> an unsigned integer of \<open>n\<close>
  bytes and widens it, \<open>None\<close> for a size the code does not know.\<close>

definition sload :: "nat \<Rightarrow> u64 \<Rightarrow> u64 option" where
  "sload n v =
     (if n = 1 then Some (scast (ucast v :: byte)) else if n = 2 then Some (scast (ucast v :: u16))
      else if n = 4 then Some (scast (ucast v :: u32)) else if n = 8 then Some v else None)"

definition uload :: "nat \<Rightarrow> u64 \<Rightarrow> u64 option" where
  "uload n v =
     (if n = 1 then Some (ucast (ucast v :: byte)) else if n = 2 then Some (ucast (ucast v :: u16))
      else if n = 4 then Some (ucast (ucast v :: u32)) else if n = 8 then Some v else None)"

text \<open>The field decoders return what was written to the field, as the value the written integer has.
  On \<open>integer too large\<close> the field has been written too, with the truncated value; that write is not
  part of the result.\<close>

definition pb_dec_bool :: "(pb_istream, bool) op" where
  "pb_dec_bool s =
     (case pb_decode_varint32 s of (None, s') \<Rightarrow> (None, s') | (Some v, s') \<Rightarrow> (Some (v \<noteq> 0), s'))"

definition pb_dec_varint :: "pb_field \<Rightarrow> (pb_istream, u64) op" where
  "pb_dec_varint field s =
     (case pb_decode_varint s of
        (None, s') \<Rightarrow> (None, s')
      | (Some v, s') \<Rightarrow>
          let svalue = (if fld_data_size field = 8 then v else scast (ucast v :: u32))
          in case sload (fld_data_size field) svalue of
               None \<Rightarrow> (None, ierror ''invalid data_size'' s')
             | Some clamped \<Rightarrow>
                 if clamped \<noteq> svalue then (None, ierror ''integer too large'' s') else (Some clamped, s'))"

definition pb_dec_uvarint :: "pb_field \<Rightarrow> (pb_istream, u64) op" where
  "pb_dec_uvarint field s =
     (case pb_decode_varint s of
        (None, s') \<Rightarrow> (None, s')
      | (Some v, s') \<Rightarrow>
          (case uload (fld_data_size field) v of
             None \<Rightarrow> (None, ierror ''invalid data_size'' s')
           | Some clamped \<Rightarrow> if clamped \<noteq> v then (None, ierror ''integer too large'' s') else (Some clamped, s')))"

definition pb_dec_svarint :: "pb_field \<Rightarrow> (pb_istream, u64) op" where
  "pb_dec_svarint field s =
     (case pb_decode_svarint s of
        (None, s') \<Rightarrow> (None, s')
      | (Some v, s') \<Rightarrow>
          (case sload (fld_data_size field) v of
             None \<Rightarrow> (None, ierror ''invalid data_size'' s')
           | Some clamped \<Rightarrow> if clamped \<noteq> v then (None, ierror ''integer too large'' s') else (Some clamped, s')))"

definition pb_enc_bool :: "bool \<Rightarrow> pb_ostream \<Rightarrow> bool \<times> pb_ostream" where
  "pb_enc_bool src s = pb_encode_varint (if src then 1 else 0) s"

definition pb_enc_varint :: "pb_field \<Rightarrow> u64 \<Rightarrow> pb_ostream \<Rightarrow> bool \<times> pb_ostream" where
  "pb_enc_varint field src s =
     (case sload (fld_data_size field) src of
        None \<Rightarrow> (False, oerror ''invalid data_size'' s)
      | Some v \<Rightarrow> pb_encode_varint v s)"

definition pb_enc_uvarint :: "pb_field \<Rightarrow> u64 \<Rightarrow> pb_ostream \<Rightarrow> bool \<times> pb_ostream" where
  "pb_enc_uvarint field src s =
     (case uload (fld_data_size field) src of
        None \<Rightarrow> (False, oerror ''invalid data_size'' s)
      | Some v \<Rightarrow> pb_encode_varint v s)"

definition pb_enc_svarint :: "pb_field \<Rightarrow> u64 \<Rightarrow> pb_ostream \<Rightarrow> bool \<times> pb_ostream" where
  "pb_enc_svarint field src s =
     (case sload (fld_data_size field) src of
        None \<Rightarrow> (False, oerror ''invalid data_size'' s)
      | Some v \<Rightarrow> pb_encode_svarint v s)"

definition pb_enc_fixed32 :: "u64 \<Rightarrow> pb_ostream \<Rightarrow> bool \<times> pb_ostream" where
  "pb_enc_fixed32 src s = pb_encode_fixed32 (ucast src) s"

definition pb_dec_fixed32 :: "(pb_istream, u64) op" where
  "pb_dec_fixed32 s = (case pb_decode_fixed32 s of (r, s') \<Rightarrow> (map_option ucast r, s'))"

section \<open>Packed arrays\<close>

text \<open>The two loops over the entries, for the encoder or decoder \<open>func\<close> of the field's type.\<close>

fun encode_entries :: "('v \<Rightarrow> pb_ostream \<Rightarrow> bool \<times> pb_ostream) \<Rightarrow> 'v list \<Rightarrow> pb_ostream \<Rightarrow> bool \<times> pb_ostream" where
  "encode_entries func [] s = (True, s)"
| "encode_entries func (p # ps) s =
     (case func p s of (False, s') \<Rightarrow> (False, s') | (True, s') \<Rightarrow> encode_entries func ps s')"

text \<open>\<open>encode_array\<close> for the packable types; \<open>ps\<close> are the \<open>count\<close> entries, in static or allocated
  storage.\<close>

definition encode_packed ::
  "pb_field \<Rightarrow> bool \<Rightarrow> ('v \<Rightarrow> pb_ostream \<Rightarrow> bool \<times> pb_ostream) \<Rightarrow> 'v list \<Rightarrow> pb_ostream \<Rightarrow> bool \<times> pb_ostream" where
  "encode_packed field pointer func ps s =
     (if ps = [] then (True, s)
      else if \<not> pointer \<and> length ps > fld_array_size field then (False, oerror ''array max size exceeded'' s)
      else case pb_encode_tag PB_WT_STRING (fld_tag field) s of
        (False, s1) \<Rightarrow> (False, s1)
      | (True, s1) \<Rightarrow>
          let n = (if PB_LTYPE (fld_type field) = PB_LTYPE_FIXED32 then Some (4 * length ps mod SIZE_MODULUS)
                   else if PB_LTYPE (fld_type field) = PB_LTYPE_FIXED64 then Some (8 * length ps mod SIZE_MODULUS)
                   else (case encode_entries func ps PB_OSTREAM_SIZING of
                           (False, _) \<Rightarrow> None | (True, t) \<Rightarrow> Some (os_bytes_written t)))
          in (case n of
                None \<Rightarrow> (False, s1)
              | Some n \<Rightarrow>
                  (case pb_encode_varint (of_nat n) s1 of
                     (False, s2) \<Rightarrow> (False, s2)
                   | (True, s2) \<Rightarrow> if \<not> os_callback s2 then pb_write_n [] n s2 else encode_entries func ps s2)))"

text \<open>The loop of \<open>decode_static_field\<close> on the substream: the entries stored, the room left for more,
  and whether the decoder accepted them.\<close>

fun decode_entries :: "(pb_istream, 'v) op \<Rightarrow> nat \<Rightarrow> pb_istream \<Rightarrow> bool \<times> 'v list \<times> pb_istream" where
  "decode_entries func 0 s = (True, [], s)"
| "decode_entries func (Suc room) s =
     (if is_left s = 0 then (True, [], s)
      else case func s of
        (None, s') \<Rightarrow> (False, [], s')
      | (Some v, s') \<Rightarrow> (case decode_entries func room s' of (ok, vs, s'') \<Rightarrow> (ok, v # vs, s'')))"

text \<open>The packed case of \<open>decode_static_field\<close> on an array that holds \<open>old\<close> already: the result, the
  array and the stream.\<close>

definition decode_packed ::
  "pb_field \<Rightarrow> (pb_istream, 'v) op \<Rightarrow> 'v list \<Rightarrow> pb_istream \<Rightarrow> bool \<times> 'v list \<times> pb_istream" where
  "decode_packed field func old s =
     (case pb_make_string_substream s of
        (None, s') \<Rightarrow> (False, old, s')
      | (Some sub, s') \<Rightarrow>
          (case decode_entries func (fld_array_size field - length old) sub of
             (status, vs, sub') \<Rightarrow>
               if is_left sub' \<noteq> 0 then (False, old @ vs, ierror ''array overflow'' s')
               else (case pb_close_string_substream sub' s' of
                       (None, s'') \<Rightarrow> (False, old @ vs, s'')
                     | (Some _, s'') \<Rightarrow> (status, old @ vs, s''))))"

end
