(* ===== verification/Nanopb_Varint.thy ===== *)
theory Nanopb_Varint
  imports
    Nanopb
begin

text \<open>
  The variable-length integers of nanopb: the number a byte string stands for, which byte strings the
  64-bit and the 32-bit decoder accept, what the encoder writes, and the contract (\<open>pb_codec\<close>) of
  an encoder with its decoder, which carries over to arrays of values.
\<close>

section \<open>Streams\<close>

definition istream_ok :: "pb_istream \<Rightarrow> bool" where
  "istream_ok s \<longleftrightarrow> is_left s \<le> length (is_state s)"

text \<open>The bytes that may be read, and the stream after reading some.\<close>

definition avail :: "pb_istream \<Rightarrow> bytes" where
  "avail s = take (is_left s) (is_state s)"

definition adv :: "nat \<Rightarrow> pb_istream \<Rightarrow> pb_istream" where
  "adv n s = s\<lparr>is_state := drop n (is_state s), is_left := is_left s - n\<rparr>"

lemma adv_0 [simp]: "adv 0 s = s"
  by (simp add: adv_def)

lemma adv_adv [simp]: "adv m (adv n s) = adv (n + m) s"
  by (simp add: adv_def add.commute)

lemma istream_ok_adv: "istream_ok s \<Longrightarrow> istream_ok (adv n s)"
  by (auto simp: istream_ok_def adv_def)

lemma avail_adv: "avail (adv n s) = drop n (avail s)"
  by (simp add: avail_def adv_def drop_take)

lemma length_avail: "istream_ok s \<Longrightarrow> length (avail s) = is_left s"
  by (simp add: istream_ok_def avail_def)

lemma pb_readbyte_avail:
  assumes "istream_ok s"
  shows "pb_readbyte s = (case avail s of [] \<Rightarrow> (None, ierror ''end-of-stream'' s) | b # bs \<Rightarrow> (Some b, adv 1 s))"
proof (cases "is_left s")
  case 0
  then show ?thesis by (simp add: pb_readbyte_def avail_def)
next
  case (Suc n)
  then obtain b bs where "is_state s = b # bs" using assms by (cases "is_state s") (auto simp: istream_ok_def)
  then show ?thesis using Suc by (simp add: pb_readbyte_def avail_def buf_read_def adv_def)
qed

lemma pb_read_avail:
  assumes "istream_ok s"
  shows "pb_read n s =
    (if n \<le> length (avail s) then (Some (take n (avail s)), adv n s) else (None, ierror ''end-of-stream'' s))"
  using assms by (auto simp: pb_read_def avail_def istream_ok_def buf_read_def adv_def min_def)

section \<open>Variable-length integers\<close>

text \<open>The first varint of a byte string, of at most \<open>n\<close> bytes, and the number it stands for.\<close>

fun varint_prefix :: "nat \<Rightarrow> bytes \<Rightarrow> bytes option" where
  "varint_prefix (Suc n) (b # bs) = (if unat b < 128 then Some [b] else map_option ((#) b) (varint_prefix n bs))"
| "varint_prefix _ _ = None"

lemma varint_prefix_code [code]:
  "varint_prefix n xs =
     (case xs of
        [] \<Rightarrow> None
      | b # bs \<Rightarrow>
          if n = 0 then None else if unat b < 128 then Some [b] else map_option ((#) b) (varint_prefix (n - 1) bs))"
  by (cases n; cases xs) simp_all

fun varint_value :: "bytes \<Rightarrow> nat" where
  "varint_value [] = 0"
| "varint_value (b # bs) = unat b mod 128 + 128 * varint_value bs"

lemma varint_value_bound: "varint_value xs < 128 ^ length xs"
  by (induction xs) (auto simp: less_Suc_eq_le intro!: add_less_le_mono [where b = 128, THEN order_less_le_trans])

lemma or_push_bit:
  assumes "unat (r :: 'a::len word) < 2 ^ n"
  shows "r OR push_bit n a = r + a * 2 ^ n"
proof -
  have "\<not> bit r i" if "n \<le> i" for i
    using unat_take_bit_self [OF assms] that by (metis bit_take_bit_iff not_less)
  then have "r AND push_bit n a = 0" by (intro bit_word_eqI) (auto simp: bit_simps)
  then have "r OR push_bit n a = r + push_bit n a" by (rule disjunctive_add_eq_or [symmetric])
  then show ?thesis by (simp add: push_bit_eq_mult)
qed

lemma low7_word: "(ucast (b AND 0x7f :: byte) :: 'a::len word) = of_nat (unat b mod 128)"
  by (metis unat_low7 of_nat_unat)

text \<open>One more group of seven bits.\<close>

lemma add_group:
  assumes "unat (r :: 'a::len word) < 2 ^ (7 * k)"
  shows "r OR push_bit (7 * k) (ucast (b AND 0x7f :: byte)) = r + of_nat (unat b mod 128) * 2 ^ (7 * k)"
  using or_push_bit [OF assms] by (simp add: low7_word)

lemma add_group_bound:
  assumes "unat (r :: 'a::len word) < 2 ^ (7 * k)" "7 * Suc k \<le> LENGTH('a)"
  shows "unat (r + of_nat (unat b mod 128) * 2 ^ (7 * k)) < 2 ^ (7 * Suc k)"
proof -
  let ?c = "unat b mod 128"
  have c: "unat r + ?c * 2 ^ (7 * k) < 2 ^ (7 * Suc k)"
  proof -
    have "?c * 2 ^ (7 * k) \<le> 127 * 2 ^ (7 * k)" by (rule mult_right_mono) (simp_all add: less_Suc_eq_le [symmetric])
    then have "unat r + ?c * 2 ^ (7 * k) < 128 * 2 ^ (7 * k)" using assms(1) by linarith
    then show ?thesis by (simp add: power_add)
  qed
  have "r + of_nat ?c * 2 ^ (7 * k) = of_nat (unat r + ?c * 2 ^ (7 * k))" by simp
  then have "unat (r + of_nat ?c * 2 ^ (7 * k)) = (unat r + ?c * 2 ^ (7 * k)) mod 2 ^ LENGTH('a)"
    by (simp only: unat_of_nat)
  also have "\<dots> \<le> unat r + ?c * 2 ^ (7 * k)" by (rule mod_less_eq_dividend)
  finally show ?thesis using c by linarith
qed

text \<open>The bit positions the loops count in eight bits.\<close>

lemma bitpos_word: "k \<le> 36 \<Longrightarrow> unat (of_nat (7 * k) :: byte) = 7 * k"
  unfolding unat_of_nat by simp

lemma bitpos_step: "(of_nat (7 * k) :: byte) + 7 = of_nat (7 * Suc k)"
  by simp

lemma varint_loop_prefix:
  assumes "istream_ok s" "k + n = 10" "k < 10 \<Longrightarrow> unat r < 2 ^ (7 * k)"
  shows "case varint_prefix n (avail s) of
      Some xs \<Rightarrow> varint_loop (of_nat (7 * k)) r s = (Some (r + of_nat (varint_value xs) * 2 ^ (7 * k)), adv (length xs) s)
    | None \<Rightarrow> fst (varint_loop (of_nat (7 * k)) r s) = None"
  using assms
proof (induction n arbitrary: k r s)
  case 0
  then have "(of_nat (7 * k) :: byte) \<ge> 64" by (simp add: word_le_nat_alt bitpos_word)
  then show ?case by (subst varint_loop.simps) simp
next
  case (Suc n)
  let ?p = "of_nat (7 * k) :: byte"
  have k: "k \<le> 9" "unat r < 2 ^ (7 * k)" using Suc.prems by auto
  then have p: "\<not> ?p \<ge> 64" "unat ?p = 7 * k" by (simp_all only: word_le_nat_alt bitpos_word) simp_all
  show ?case
  proof (cases "avail s")
    case Nil
    then show ?thesis using p(1) Suc.prems(1) by (subst varint_loop.simps) (simp add: pb_readbyte_avail)
  next
    case (Cons b bs)
    let ?r = "r + of_nat (unat b mod 128) * 2 ^ (7 * k)"
    have loop: "varint_loop ?p r s =
        (if b AND 0x80 \<noteq> 0 then varint_loop (of_nat (7 * Suc k)) ?r (adv 1 s) else (Some ?r, adv 1 s))"
      using p Suc.prems(1) Cons by (subst varint_loop.simps)
        (simp only: pb_readbyte_avail list.case prod.case option.case Let_def p add_group [OF k(2)] bitpos_step if_False)
    show ?thesis
    proof (cases "unat b < 128")
      case True
      then show ?thesis using loop Cons by (simp add: high_bit_iff)
    next
      case False
      have "case varint_prefix n (avail (adv 1 s)) of
          Some xs \<Rightarrow> varint_loop (of_nat (7 * Suc k)) ?r (adv 1 s) =
            (Some (?r + of_nat (varint_value xs) * 2 ^ (7 * Suc k)), adv (length xs) (adv 1 s))
        | None \<Rightarrow> fst (varint_loop (of_nat (7 * Suc k)) ?r (adv 1 s)) = None"
      proof (rule Suc.IH)
        show "istream_ok (adv 1 s)" "Suc k + n = 10" using Suc.prems by (simp_all add: istream_ok_adv)
        show "unat ?r < 2 ^ (7 * Suc k)" if "Suc k < 10"
          using add_group_bound [OF k(2), of b] that by simp
      qed
      moreover have "avail (adv 1 s) = bs" using Cons by (simp add: avail_adv)
      moreover have "?r + of_nat (varint_value xs) * 2 ^ (7 * Suc k) =
          r + of_nat (varint_value (b # xs)) * 2 ^ (7 * k)" for xs
        by (simp add: algebra_simps power_add)
      ultimately show ?thesis using loop Cons False
        by (auto simp: high_bit_iff split: option.splits)
    qed
  qed
qed

lemma pb_decode_varint_prefix:
  assumes "istream_ok s"
  shows "case varint_prefix 10 (avail s) of
      Some xs \<Rightarrow> pb_decode_varint s = (Some (of_nat (varint_value xs)), adv (length xs) s)
    | None \<Rightarrow> fst (pb_decode_varint s) = None"
  using varint_loop_prefix [OF assms, of 0 10 0] by (simp add: pb_decode_varint_def split: option.splits)

subsection \<open>The 32-bit decoder\<close>

text \<open>What it asks of the bytes behind the fifth: each adds nothing, or is the sign extension of a
  negative number.\<close>

fun tail_ok :: "nat \<Rightarrow> bool \<Rightarrow> bytes \<Rightarrow> bool" where
  "tail_ok k neg [] = True"
| "tail_ok k neg (b # bs) =
     ((unat b mod 128 = 0 \<or> neg \<and> b = (if k < 9 then 0xFF else 1)) \<and> tail_ok (Suc k) neg bs)"

lemma low7_zero: "b AND 0x7F = 0 \<longleftrightarrow> unat (b :: byte) mod 128 = 0"
  by (metis unat_low7 unsigned_0 unat_eq_zero)

lemma and_112: "b AND 0x70 = 0 \<longleftrightarrow> unat (b :: byte) mod 128 < 16"
proof -
  have "unat b AND push_bit 4 (mask 3) = push_bit 4 (drop_bit 4 (unat b) AND mask 3)"
    by (rule bit_eqI) (auto simp: bit_simps)
  also have "\<dots> = 2 ^ 4 * (unat b div 2 ^ 4 mod 2 ^ 3)"
    by (simp only: take_bit_eq_mask [symmetric] take_bit_eq_mod push_bit_eq_mult drop_bit_eq_div mult.commute)
  finally have "unat b AND 112 = 16 * (unat b div 16 mod 8)"
    by (simp add: mask_eq_exp_minus_1 push_bit_eq_mult)
  moreover have "unat (b AND 0x70) = unat b AND 112" by (simp add: unsigned_and_eq)
  ultimately have "b AND 0x70 = 0 \<longleftrightarrow> unat b div 16 mod 8 = 0" by (simp add: unat_eq_zero [symmetric])
  moreover have "unat b mod 128 = 16 * (unat b div 16 mod 8) + unat b mod 16" using mod_mult2_eq [of "unat b" 16 8] by simp
  moreover have "q = 0 \<longleftrightarrow> 16 * q + r < 16" if "r < 16" for q r :: nat using that by auto
  ultimately show ?thesis by simp
qed

lemma varint32_tail:
  assumes "istream_ok s" "varint_prefix n (avail s) = Some xs" "k + n = 10" "5 \<le> k"
  shows "if tail_ok k (drop_bit 31 r \<noteq> 0) xs then varint32_loop (of_nat (7 * k)) r s = (Some r, adv (length xs) s)
    else fst (varint32_loop (of_nat (7 * k)) r s) = None"
  using assms
proof (induction n arbitrary: k s xs)
  case 0
  then show ?case by simp
next
  case (Suc n)
  let ?p = "of_nat (7 * k) :: byte"
  define neg where "neg \<longleftrightarrow> drop_bit 31 r \<noteq> 0"
  have k: "k \<le> 9" using Suc.prems by simp
  then have p: "32 \<le> ?p" "?p < 63 \<longleftrightarrow> k < 9" "?p + 7 \<noteq> 35"
    using Suc.prems(4) by (simp_all only: word_le_nat_alt word_less_nat_alt bitpos_word bitpos_step word_unat_eq_iff) simp_all
  obtain b bs where b: "avail s = b # bs" using Suc.prems(2) by (cases "avail s") auto
  have rest: "avail (adv 1 s) = bs" using b by (simp add: avail_adv)
  define good where "good \<longleftrightarrow> unat b mod 128 = 0 \<or> neg \<and> b = (if k < 9 then 0xFF else 1)"
  have tail: "tail_ok k neg (b # ys) \<longleftrightarrow> good \<and> tail_ok (Suc k) neg ys" for ys by (simp add: good_def)
  have loop: "varint32_loop ?p r s =
      (if \<not> good then (None, ierror ''varint overflow'' (adv 1 s))
       else if b AND 0x80 \<noteq> 0 then varint32_loop (of_nat (7 * Suc k)) r (adv 1 s) else (Some r, adv 1 s))"
    unfolding bitpos_step [symmetric] using p b
    by (subst varint32_loop.simps) (simp add: pb_readbyte_avail [OF Suc.prems(1)] Let_def low7_zero good_def neg_def)
  show ?case
  proof (cases "unat b < 128")
    case True
    then have "xs = [b]" using b Suc.prems(2) by simp
    moreover have "b AND 0x80 = 0" using True by (simp add: high_bit_iff)
    moreover have "tail_ok k neg xs \<longleftrightarrow> good" using \<open>xs = [b]\<close> tail [of "[]"] by simp
    ultimately show ?thesis using loop unfolding neg_def [symmetric] by simp
  next
    case False
    then obtain ys where ys: "varint_prefix n bs = Some ys" "xs = b # ys" using b Suc.prems(2) by auto
    have "if tail_ok (Suc k) neg ys
      then varint32_loop (of_nat (7 * Suc k)) r (adv 1 s) = (Some r, adv (length ys) (adv 1 s))
      else fst (varint32_loop (of_nat (7 * Suc k)) r (adv 1 s)) = None"
      unfolding neg_def by (rule Suc.IH) (use Suc.prems ys(1) rest in \<open>simp_all add: istream_ok_adv\<close>)
    moreover have "b AND 0x80 \<noteq> 0" using False by (simp add: high_bit_iff)
    ultimately show ?thesis using loop unfolding neg_def [symmetric] ys(2) tail
      by (cases good; cases "tail_ok (Suc k) neg ys") simp_all
  qed
qed

lemma add_group_less: "m < 2 ^ (7 * k) \<Longrightarrow> m + c mod 128 * 2 ^ (7 * k) < (2 ^ (7 * Suc k) :: nat)"
proof -
  assume m: "m < 2 ^ (7 * k)"
  have "c mod 128 * 2 ^ (7 * k) \<le> 127 * 2 ^ (7 * k)" by (rule mult_right_mono) (simp_all add: less_Suc_eq_le [symmetric])
  then have "m + c mod 128 * 2 ^ (7 * k) < 128 * 2 ^ (7 * k)" using m by linarith
  then show ?thesis by (simp add: power_add)
qed

lemma varint32_head:
  assumes "istream_ok s" "varint_prefix n (avail s) = Some xs" "k + n = 10" "k \<le> 5" "m < 2 ^ (7 * k)"
  defines "v \<equiv> m + varint_value (take (5 - k) xs) * 2 ^ (7 * k)"
  shows "if (if k + length xs \<le> 5 then v < 2 ^ 32 else tail_ok 5 (drop_bit 31 (of_nat v :: u32) \<noteq> 0) (drop (5 - k) xs))
    then varint32_loop (of_nat (7 * k)) (of_nat m) s = (Some (of_nat v), adv (length xs) s)
    else fst (varint32_loop (of_nat (7 * k)) (of_nat m) s) = None"
  using assms(1-5) unfolding v_def
proof (induction n arbitrary: k s xs m)
  case 0
  then show ?case by simp
next
  case (Suc n)
  have nonempty: "xs \<noteq> []" using Suc.prems(2) by (cases "avail s") (auto split: if_splits)
  show ?case
  proof (cases "k = 5")
    case True
    then have "\<not> k + length xs \<le> 5" using nonempty by (cases xs) simp_all
    moreover have "5 + Suc n = 10" using Suc.prems(3) True by simp
    ultimately show ?thesis
      using varint32_tail [OF Suc.prems(1,2), of 5 "of_nat m"] True by (simp split: if_splits)
  next
    case False
    then have k: "k \<le> 4" using Suc.prems(4) by simp
    let ?p = "of_nat (7 * k) :: byte" and ?r = "of_nat m :: u32"
    have p: "\<not> 32 \<le> ?p" "unat ?p = 7 * k" "?p + 7 = 35 \<longleftrightarrow> k = 4"
      using k by (simp_all only: word_le_nat_alt bitpos_word bitpos_step word_unat_eq_iff) simp_all
    have "(2 :: nat) ^ (7 * k) \<le> 2 ^ 28" by (rule power_increasing) (use k in simp_all)
    then have r: "unat ?r < 2 ^ (7 * k)" using Suc.prems(5) by (simp add: unat_of_nat)
    obtain b bs where b: "avail s = b # bs" using Suc.prems(2) by (cases "avail s") auto
    have rest: "avail (adv 1 s) = bs" using b by (simp add: avail_adv)
    define m' where "m' = m + unat b mod 128 * 2 ^ (7 * k)"
    have m': "m' < 2 ^ (7 * Suc k)" unfolding m'_def by (rule add_group_less [OF Suc.prems(5)])
    have r': "?r OR push_bit (7 * k) (ucast (b AND 0x7F)) = of_nat m'"
      unfolding add_group [OF r] m'_def by simp
    have loop: "varint32_loop ?p ?r s =
        (if b AND 0x80 \<noteq> 0 then varint32_loop (of_nat (7 * Suc k)) (of_nat m') (adv 1 s)
         else if k = 4 \<and> b AND 0x70 \<noteq> 0 then (None, ierror ''varint overflow'' (adv 1 s))
         else (Some (of_nat m'), adv 1 s))"
      unfolding bitpos_step [symmetric] using p(1) b
      by (subst varint32_loop.simps) (simp only: pb_readbyte_avail [OF Suc.prems(1)] Let_def p r' list.case prod.case
          option.case if_False HOL.simp_thms)
    show ?thesis
    proof (cases "unat b < 128")
      case True
      then have xs: "xs = [b]" using b Suc.prems(2) by simp
      have v: "m + varint_value (take (5 - k) xs) * 2 ^ (7 * k) = m'" using k xs True by (simp add: m'_def)
      have "m' < 2 ^ 32 \<longleftrightarrow> \<not> (k = 4 \<and> b AND 0x70 \<noteq> 0)"
      proof (cases "k = 4")
        case True
        moreover have "x + c * 268435456 < 4294967296 \<longleftrightarrow> c < 16" if "x < 268435456" for x c :: nat
          using that by (intro iffI) linarith+
        ultimately show ?thesis using Suc.prems(5) by (simp add: m'_def and_112)
      next
        case False
        then have "(2 :: nat) ^ (7 * Suc k) \<le> 2 ^ 32" using k by (intro power_increasing) simp_all
        then show ?thesis using m' False by simp
      qed
      moreover have "b AND 0x80 = 0" using True by (simp add: high_bit_iff)
      ultimately show ?thesis unfolding v using loop k xs by (cases "k = 4 \<and> b AND 0x70 \<noteq> 0") simp_all
    next
      case big: False
      then obtain ys where ys: "varint_prefix n bs = Some ys" "xs = b # ys" using b Suc.prems(2) by auto
      have v: "m + varint_value (take (5 - k) xs) * 2 ^ (7 * k) = m' + varint_value (take (5 - Suc k) ys) * 2 ^ (7 * Suc k)"
      proof -
        have "take (5 - k) xs = b # take (5 - Suc k) ys" using k ys(2) by (cases "5 - k") (simp_all add: diff_Suc)
        then show ?thesis by (simp add: m'_def algebra_simps power_add)
      qed
      have "drop (5 - k) xs = drop (5 - Suc k) ys" using k ys(2) by (cases "5 - k") (simp_all add: diff_Suc)
      moreover have "k + length xs \<le> 5 \<longleftrightarrow> Suc k + length ys \<le> 5" using ys(2) by simp
      moreover have "adv (length ys) (adv 1 s) = adv (length xs) s" using ys(2) by simp
      moreover have "varint32_loop ?p ?r s = varint32_loop (of_nat (7 * Suc k)) (of_nat m') (adv 1 s)"
        using loop big by (simp only: high_bit_iff) simp
      moreover have ih: "Suc k + n = 10" "Suc k \<le> 5" "istream_ok (adv 1 s)" "varint_prefix n (avail (adv 1 s)) = Some ys"
        using Suc.prems(1,3) k ys(1) rest by (simp_all add: istream_ok_adv)
      moreover note Suc.IH [OF ih(3,4,1,2) m', folded v]
      ultimately show ?thesis by (simp only:)
    qed
  qed
qed

text \<open>Which varints of at most ten bytes the 32-bit decoder accepts.\<close>

definition varint32_accepts :: "bytes \<Rightarrow> bool" where
  "varint32_accepts xs \<longleftrightarrow>
     (if length xs \<le> 5 then varint_value xs < 2 ^ 32
      else tail_ok 5 (2 ^ 31 \<le> varint_value (take 5 xs) mod 2 ^ 32) (drop 5 xs))"

lemma top_bit: "drop_bit 31 (of_nat v :: u32) \<noteq> 0 \<longleftrightarrow> 2 ^ 31 \<le> v mod 2 ^ 32"
proof -
  have "unat (drop_bit 31 (of_nat v :: u32)) = drop_bit 31 (unat (of_nat v :: u32))" by (rule unat_drop_bit_eq)
  also have "\<dots> = v mod 2 ^ 32 div 2 ^ 31" by (simp only: unat_of_nat drop_bit_eq_div) simp
  finally have "drop_bit 31 (of_nat v :: u32) = 0 \<longleftrightarrow> v mod 2 ^ 32 div 2 ^ 31 = 0" by (simp add: unat_eq_zero [symmetric])
  then show ?thesis by (simp add: div_eq_0_iff not_less)
qed

lemma varint_prefix_10:
  "varint_prefix 10 (b # bs) = (if unat b < 128 then Some [b] else map_option ((#) b) (varint_prefix 9 bs))"
  using varint_prefix.simps(1) [of 9 b bs] by simp

lemma pb_decode_varint32_prefix:
  assumes "istream_ok s" "varint_prefix 10 (avail s) = Some xs"
  shows "if varint32_accepts xs then pb_decode_varint32 s = (Some (of_nat (varint_value (take 5 xs))), adv (length xs) s)
    else fst (pb_decode_varint32 s) = None"
proof -
  obtain b bs where b: "avail s = b # bs" using assms(2) by (cases "avail s") auto
  show ?thesis
  proof (cases "unat b < 128")
    case True
    have xs: "xs = [b]" using assms(2) b True by (simp add: varint_prefix_10)
    have "(ucast b :: u32) = of_nat (unat b)" by (simp only: of_nat_unat)
    then show ?thesis using True b xs
      by (simp add: varint32_accepts_def pb_decode_varint32_def pb_decode_varint32_eof_def pb_readbyte_avail [OF assms(1)] high_bit_iff)
  next
    case False
    obtain ys where ys: "varint_prefix 9 bs = Some ys" "xs = b # ys"
      using assms(2) b False by (auto simp: varint_prefix_10)
    have rest: "avail (adv 1 s) = bs" using b by (simp add: avail_adv)
    let ?v = "varint_value (take 5 xs)"
    have cut: "take 5 xs = b # take (5 - 1) ys" "drop 5 xs = drop (5 - 1) ys" "length xs = 1 + length ys"
      using ys(2) by (simp_all add: take_Cons' drop_Cons')
    have v: "unat b mod 128 + varint_value (take (5 - 1) ys) * 2 ^ (7 * 1) = ?v" by (simp add: cut(1))
    have "if (if 1 + length ys \<le> 5 then ?v < 2 ^ 32 else tail_ok 5 (drop_bit 31 (of_nat ?v :: u32) \<noteq> 0) (drop (5 - 1) ys))
      then varint32_loop (of_nat (7 * 1)) (of_nat (unat b mod 128)) (adv 1 s) = (Some (of_nat ?v), adv (length ys) (adv 1 s))
      else fst (varint32_loop (of_nat (7 * 1)) (of_nat (unat b mod 128)) (adv 1 s)) = None"
      unfolding v [symmetric] by (rule varint32_head) (use assms(1) ys(1) rest in \<open>simp_all add: istream_ok_adv\<close>)
    moreover have "(if 1 + length ys \<le> 5 then ?v < 2 ^ 32 else tail_ok 5 (drop_bit 31 (of_nat ?v :: u32) \<noteq> 0) (drop (5 - 1) ys)) \<longleftrightarrow>
        varint32_accepts xs"
      unfolding varint32_accepts_def top_bit cut(2,3) using ys(2) by (simp add: cut(1) cong: if_cong)
    moreover have "pb_decode_varint32 s = varint32_loop (of_nat (7 * 1)) (of_nat (unat b mod 128)) (adv 1 s)"
      using False b by (simp add: pb_decode_varint32_def pb_decode_varint32_eof_def pb_readbyte_avail [OF assms(1)]
          high_bit_iff low7_word split: prod.split)
    moreover have "adv (length ys) (adv 1 s) = adv (length xs) s" using ys(2) by simp
    ultimately show ?thesis by (simp only:)
  qed
qed

subsection \<open>What the encoder writes\<close>

fun vlq :: "nat \<Rightarrow> bytes" where
  "vlq n = (if n < 128 then [of_nat n] else of_nat (128 + n mod 128) # vlq (n div 128))"

declare vlq.simps [simp del]

lemma vlq_nonempty [simp]: "vlq n \<noteq> []"
  by (subst vlq.simps) simp

lemma unat_small_byte: "n < 256 \<Longrightarrow> unat (of_nat n :: byte) = n"
  by (simp add: unat_of_nat)

lemma varint_value_vlq: "varint_value (vlq n) = n"
proof (induction n rule: vlq.induct)
  case (1 n)
  show ?case
  proof (cases "n < 128")
    case True
    then show ?thesis by (subst vlq.simps) (simp add: unat_small_byte)
  next
    case False
    have "unat (of_nat (128 + n mod 128) :: byte) = 128 + n mod 128" by (rule unat_small_byte) simp
    then show ?thesis using 1 False by (subst vlq.simps) (simp del: of_nat_add)
  qed
qed

lemma varint_prefix_vlq: "length (vlq m) \<le> n \<Longrightarrow> varint_prefix n (vlq m @ rest) = Some (vlq m)"
proof (induction n arbitrary: m)
  case (Suc n)
  show ?case
  proof (cases "m < 128")
    case True
    then show ?thesis by (subst (1 2) vlq.simps) (simp add: unat_small_byte)
  next
    case False
    have "unat (of_nat (128 + m mod 128) :: byte) = 128 + m mod 128" by (rule unat_small_byte) simp
    moreover have v: "vlq m = of_nat (128 + m mod 128) # vlq (m div 128)" using False by (subst vlq.simps) simp
    moreover have "varint_prefix n (vlq (m div 128) @ rest) = Some (vlq (m div 128))"
      using Suc v by (intro Suc.IH) simp
    ultimately show ?thesis by (simp del: of_nat_add)
  qed
qed simp

lemma length_vlq: "n < 128 ^ k \<Longrightarrow> 0 < k \<Longrightarrow> length (vlq n) \<le> k"
proof (induction k arbitrary: n)
  case (Suc k)
  show ?case
  proof (cases "n < 128")
    case True
    then show ?thesis by (subst vlq.simps) simp
  next
    case False
    then have "k \<noteq> 0" using Suc.prems(1) by (cases k) simp_all
    moreover have "n div 128 < 128 ^ k" using Suc.prems(1) by (intro less_mult_imp_div_less) (simp add: mult.commute)
    ultimately have "length (vlq (n div 128)) \<le> k" using Suc.IH by simp
    then show ?thesis using False by (subst vlq.simps) simp
  qed
qed simp

lemma take_drop_vlq:
  "k < length (vlq n) \<Longrightarrow> varint_value (take k (vlq n)) = n mod 128 ^ k \<and> drop k (vlq n) = vlq (n div 128 ^ k)"
proof (induction k arbitrary: n)
  case (Suc k)
  have "\<not> n < 128" using Suc.prems by (subst (asm) vlq.simps) (auto split: if_splits)
  then have v: "vlq n = of_nat (128 + n mod 128) # vlq (n div 128)" by (subst vlq.simps) simp
  have "unat (of_nat (128 + n mod 128) :: byte) = 128 + n mod 128" by (rule unat_small_byte) simp
  moreover have "k < length (vlq (n div 128))" using Suc.prems v by simp
  moreover have "n mod (128 * 128 ^ k) = 128 * (n div 128 mod 128 ^ k) + n mod 128" by (rule mod_mult2_eq)
  ultimately show ?case using Suc.IH [of "n div 128"] v by (simp add: div_mult2_eq del: of_nat_add)
qed simp

lemma or_128: "unat (x :: byte) < 128 \<Longrightarrow> x OR 0x80 = of_nat (128 + unat x)"
proof -
  assume "unat x < 128"
  then have "x OR push_bit 7 1 = x + 1 * 2 ^ 7" by (intro or_push_bit) simp
  then show ?thesis by (simp add: push_bit_eq_mult add.commute)
qed

lemma low7_u64: "(ucast ((v :: u64) AND 0x7F) :: byte) = of_nat (unat v mod 128)" "unat (ucast (v AND 0x7F) :: byte) = unat v mod 128"
proof -
  have "v AND 0x7F = take_bit 7 v" by (simp add: take_bit_eq_mask mask_eq_exp_minus_1)
  then have "unat (v AND 0x7F) = take_bit 7 (unat v)" by (simp only: unsigned_take_bit_eq)
  then have u: "unat (v AND 0x7F) = unat v mod 128" by (simp only: take_bit_eq_mod) simp
  then show "unat (ucast (v AND 0x7F) :: byte) = unat v mod 128"
    by (simp add: unsigned_ucast_eq take_bit_eq_mod) 
  then show "(ucast (v AND 0x7F) :: byte) = of_nat (unat v mod 128)" by (metis of_nat_unat ucast_id)
qed

lemma varint_bytes_vlq:
  assumes "v \<noteq> 0"
  shows "(varint_bytes v)[length (varint_bytes v) - 1 := last (varint_bytes v) AND 0x7F] = vlq (unat v)"
  using assms
proof (induction v rule: varint_bytes.induct)
  case (1 v)
  let ?h = "ucast (v AND 0x7F) OR 0x80 :: byte"
  have h: "?h = of_nat (128 + unat v mod 128)"
    using or_128 [of "ucast (v AND 0x7F)"] by (simp add: low7_u64(2) del: of_nat_add)
  have bytes: "varint_bytes v = ?h # varint_bytes (drop_bit 7 v)" using 1 by (subst varint_bytes.simps) simp
  show ?case
  proof (cases "unat v < 128")
    case True
    then have "unat (drop_bit 7 v) = 0" by (simp only: unat_drop_bit_7 div_less)
    then have "varint_bytes (drop_bit 7 v) = []" by (subst varint_bytes.simps) (simp add: unat_eq_zero)
    moreover have "unat (?h AND 0x7F) = unat v" unfolding h unat_low7 using True by (simp add: unat_small_byte del: of_nat_add)
    then have "?h AND 0x7F = of_nat (unat v)" by (rule word_of_unat)
    ultimately show ?thesis using True bytes by (subst vlq.simps) simp
  next
    case False
    then have "0 < unat (drop_bit 7 v)" by (simp only: unat_drop_bit_7 div_greater_zero_iff) simp
    then have d: "drop_bit 7 v \<noteq> 0" by (metis unsigned_0 less_irrefl)
    then have "varint_bytes (drop_bit 7 v) \<noteq> []" by (subst varint_bytes.simps) simp
    then show ?thesis using 1 False bytes d h
      by (subst vlq.simps) (auto simp: unat_drop_bit_7 simp del: of_nat_add split: nat.split)
  qed
qed

lemma pb_encode_varint_vlq: "pb_encode_varint v = pb_write (vlq (unat v))"
proof
  fix s
  show "pb_encode_varint v s = pb_write (vlq (unat v)) s"
  proof (cases "v \<le> 0x7F")
    case True
    then have "unat v < 128" by (simp add: word_le_nat_alt)
    then show ?thesis using True by (subst vlq.simps) (simp add: pb_encode_varint_def)
  next
    case False
    then have "v \<noteq> 0" by auto
    then show ?thesis using False varint_bytes_vlq by (simp add: pb_encode_varint_def Let_def)
  qed
qed

section \<open>Writing to a buffer\<close>

definition ostream_ok :: "pb_ostream \<Rightarrow> bool" where
  "ostream_ok s \<longleftrightarrow> os_callback s \<and> os_bytes_written s \<le> os_max_size s \<and> os_max_size s < SIZE_MODULUS"

definition wrote :: "bytes \<Rightarrow> pb_ostream \<Rightarrow> pb_ostream" where
  "wrote buf s = s\<lparr>os_state := os_state s @ buf, os_bytes_written := os_bytes_written s + length buf\<rparr>"

definition room :: "pb_ostream \<Rightarrow> nat" where
  "room s = os_max_size s - os_bytes_written s"

lemma pb_write_buffer:
  assumes "ostream_ok s" "length buf < SIZE_MODULUS"
  shows "pb_write buf s = (if length buf \<le> room s then (True, wrote buf s) else (False, oerror ''stream full'' s))"
proof -
  let ?w = "os_bytes_written s" and ?n = "length buf"
  have full: "(?w + ?n) mod SIZE_MODULUS < ?w \<or> (?w + ?n) mod SIZE_MODULUS > os_max_size s \<longleftrightarrow> ?n > room s"
  proof (cases "?w + ?n < SIZE_MODULUS")
    case True
    then have "(?w + ?n) mod SIZE_MODULUS = ?w + ?n" by (rule mod_less)
    then show ?thesis using assms by (auto simp: ostream_ok_def room_def)
  next
    case False
    then have "(?w + ?n) mod SIZE_MODULUS = ?w + ?n - SIZE_MODULUS"
      using assms by (auto simp: ostream_ok_def le_mod_geq)
    then show ?thesis using False assms by (auto simp: ostream_ok_def room_def)
  qed
  have "(?w + ?n) mod SIZE_MODULUS = ?w + ?n" if "?n \<le> room s"
    using that assms by (intro mod_less) (auto simp: ostream_ok_def room_def)
  with full show ?thesis using assms
    by (auto simp: pb_write_def pb_write_n_def ostream_ok_def wrote_def buf_write_def Let_def)
qed

lemma ostream_ok_wrote [simp]: "ostream_ok s \<Longrightarrow> length buf \<le> room s \<Longrightarrow> ostream_ok (wrote buf s)"
  by (auto simp: ostream_ok_def wrote_def room_def)

lemma room_wrote [simp]: "room (wrote buf s) = room s - length buf"
  by (simp add: room_def wrote_def)

lemma wrote_wrote [simp]: "wrote b (wrote a s) = wrote (a @ b) s"
  by (simp add: wrote_def)

text \<open>The sizing stream counts.\<close>

lemma pb_write_sizing:
  assumes "\<not> os_callback s"
  shows "pb_write buf s = (True, s\<lparr>os_bytes_written := (os_bytes_written s + length buf) mod SIZE_MODULUS\<rparr>)"
  using assms by (simp add: pb_write_def pb_write_n_def Let_def)

section \<open>Codecs\<close>

text \<open>The contract of an encoder and a decoder of one kind of value: what is written, for which values,
  and that it is read back whatever follows.\<close>

locale pb_codec =
  fixes valid :: "'v \<Rightarrow> bool" and enc :: "'v \<Rightarrow> bytes" and put :: "'v \<Rightarrow> pb_ostream \<Rightarrow> bool \<times> pb_ostream"
    and get :: "(pb_istream, 'w) op" and val :: "'v \<Rightarrow> 'w"
  assumes put_enc: "valid v \<Longrightarrow> put v t = pb_write (enc v) t"
    and get_enc: "valid v \<Longrightarrow> istream_ok s \<Longrightarrow> avail s = enc v @ rest \<Longrightarrow> get s = (Some (val v), adv (length (enc v)) s)"
    and enc_nonempty: "enc v \<noteq> []"
begin

abbreviation encs :: "'v list \<Rightarrow> bytes" where
  "encs vs \<equiv> concat (map enc vs)"

lemma put_entries:
  assumes "\<forall>v\<in>set vs. valid v" "ostream_ok s" "length (encs vs) < SIZE_MODULUS"
  shows "if length (encs vs) \<le> room s then encode_entries put vs s = (True, wrote (encs vs) s)
    else fst (encode_entries put vs s) = False"
  using assms
proof (induction vs arbitrary: s)
  case Nil
  then show ?case by (simp add: wrote_def)
next
  case (Cons v vs)
  have p: "put v s = (if length (enc v) \<le> room s then (True, wrote (enc v) s) else (False, oerror ''stream full'' s))"
    using Cons.prems put_enc [of v s] pb_write_buffer [of s "enc v"] by simp
  show ?case
  proof (cases "length (enc v) \<le> room s")
    case True
    then show ?thesis using Cons.IH [of "wrote (enc v) s"] Cons.prems p by (auto split: if_splits)
  next
    case False
    then show ?thesis using p by simp
  qed
qed

lemma size_entries:
  assumes "\<forall>v\<in>set vs. valid v" "\<not> os_callback s"
  shows "encode_entries put vs s =
    (True, s\<lparr>os_bytes_written := if vs = [] then os_bytes_written s else (os_bytes_written s + length (encs vs)) mod SIZE_MODULUS\<rparr>)"
  using assms
proof (induction vs arbitrary: s)
  case (Cons v vs)
  then have "put v s = (True, s\<lparr>os_bytes_written := (os_bytes_written s + length (enc v)) mod SIZE_MODULUS\<rparr>)"
    by (simp add: put_enc pb_write_sizing)
  then show ?case using Cons by (simp add: mod_add_left_eq add.assoc)
qed simp

lemma get_entries:
  assumes "\<forall>v\<in>set vs. valid v" "istream_ok s" "avail s = encs vs" "length vs \<le> n"
  shows "decode_entries get n s = (True, map val vs, adv (length (encs vs)) s)"
  using assms
proof (induction vs arbitrary: n s)
  case Nil
  then have "is_left s = 0" using length_avail by fastforce
  then show ?case by (cases n) simp_all
next
  case (Cons v vs)
  then obtain m where n: "n = Suc m" by (cases n) auto
  have g: "get s = (Some (val v), adv (length (enc v)) s)"
    using Cons.prems by (intro get_enc [where rest = "encs vs"]) auto
  have "decode_entries get m (adv (length (enc v)) s) = (True, map val vs, adv (length (encs vs)) (adv (length (enc v)) s))"
    using Cons.prems n by (intro Cons.IH) (auto simp: istream_ok_adv avail_adv)
  moreover have "is_left s \<noteq> 0" using Cons.prems(3) enc_nonempty [of v] length_avail [OF Cons.prems(2)] by (cases "enc v") auto
  ultimately show ?case using g n by simp
qed

end

subsection \<open>Varints\<close>

lemma pow_128_10: "(2 :: nat) ^ 64 \<le> 128 ^ 10" "(2 :: nat) ^ 32 \<le> 128 ^ 5"
  by simp_all

lemma length_vlq_u64: "length (vlq (unat (v :: u64))) \<le> 10"
proof (rule length_vlq)
  have "unat v < 2 ^ 64" using unsigned_less [of v] by simp
  then show "unat v < 128 ^ 10" using pow_128_10(1) by (rule order_less_le_trans)
qed simp

lemma get_varint:
  assumes "istream_ok s" "avail s = vlq (unat v) @ rest"
  shows "pb_decode_varint s = (Some v, adv (length (vlq (unat v))) s)"
proof -
  have "varint_prefix 10 (avail s) = Some (vlq (unat v))"
    unfolding assms(2) by (rule varint_prefix_vlq [OF length_vlq_u64])
  then show ?thesis using pb_decode_varint_prefix [OF assms(1)] by (simp add: varint_value_vlq)
qed

lemma get_varint32:
  assumes "istream_ok s" "avail s = vlq (unat (v :: u32)) @ rest"
  shows "pb_decode_varint32 s = (Some v, adv (length (vlq (unat v))) s)"
proof -
  have u: "unat v < 2 ^ 32" using unsigned_less [of v] by simp
  have "unat v < 128 ^ 5" using u pow_128_10(2) by (rule order_less_le_trans)
  then have l: "length (vlq (unat v)) \<le> 5" by (rule length_vlq) simp
  then have "varint_prefix 10 (avail s) = Some (vlq (unat v))"
    unfolding assms(2) by (intro varint_prefix_vlq) simp
  moreover have "varint32_accepts (vlq (unat v))" using l u by (simp add: varint32_accepts_def varint_value_vlq)
  ultimately show ?thesis using pb_decode_varint32_prefix [OF assms(1)] l by (simp add: varint_value_vlq)
qed

text \<open>A negative 32-bit number, sign extended to 64 bits by a writer, is read by the 32-bit decoder.\<close>

lemma vlq_tail: "vlq 0x1FFFFFFF = [0xFF, 0xFF, 0xFF, 0xFF, 1]"
  by (simp add: vlq.simps)

lemma get_varint32_negative:
  assumes "istream_ok s" "2 ^ 31 \<le> w" "w < 2 ^ 32" "avail s = vlq (2 ^ 64 - 2 ^ 32 + w) @ rest"
  shows "pb_decode_varint32 s = (Some (of_nat w), adv (length (vlq (2 ^ 64 - 2 ^ 32 + w))) s)"
proof -
  let ?m = "2 ^ 64 - 2 ^ 32 + w :: nat"
  have m: "?m = 0x1FFFFFFF * 128 ^ 5 + (2 ^ 35 - 2 ^ 32 + w)" "2 ^ 35 - 2 ^ 32 + w < 128 ^ 5" using assms(3) by simp_all
  then have dm: "?m div 128 ^ 5 = 0x1FFFFFFF" "?m mod 128 ^ 5 = 2 ^ 35 - 2 ^ 32 + w"
    by (simp_all only: m(1) div_mult_self3 mod_mult_self3 mod_less div_less)
  have long: "5 < length (vlq ?m)"
  proof (rule ccontr)
    assume "\<not> 5 < length (vlq ?m)"
    then have "?m < 128 ^ length (vlq ?m)" "length (vlq ?m) \<le> 5"
      using varint_value_bound [of "vlq ?m"] by (simp_all add: varint_value_vlq)
    then have "?m < 128 ^ 5" by (meson order_less_le_trans power_increasing one_le_numeral)
    then show False using m(1) by simp
  qed
  note parts = take_drop_vlq [OF long, unfolded dm vlq_tail, THEN conjunct1] take_drop_vlq [OF long, unfolded dm vlq_tail, THEN conjunct2]
  have "length (drop 5 (vlq ?m)) = length [0xFF, 0xFF, 0xFF, 0xFF, 1 :: byte]" by (simp only: parts)
  then have l10: "length (vlq ?m) = 10" using long by simp
  have p: "varint_prefix 10 (avail s) = Some (vlq ?m)" unfolding assms(4) by (rule varint_prefix_vlq) (simp only: l10 order_refl)
  have low: "(2 ^ 35 - 2 ^ 32 + w) mod 2 ^ 32 = w" using assms(3) mod_mult_self3 [of 7 "2 ^ 32" w] by simp
  have "varint32_accepts (vlq ?m)"
    unfolding varint32_accepts_def parts low using long assms(2) by (simp add: parts)
  moreover have "(of_nat (2 ^ 35 - 2 ^ 32 + w) :: u32) = of_nat w"
    unfolding word_unat_eq_iff unat_of_nat using low assms(3) by (simp only: len_num0 len_bit0 len_num1 mod_less) simp
  ultimately show ?thesis using pb_decode_varint32_prefix [OF assms(1) p] parts by simp
qed

end
