(* ===== verification/Nanopb_Spec.thy ===== *)
theory Nanopb_Spec
  imports
    Nanopb_Varint
begin

text \<open>
  What the wire format of nanopb promises: every decoder reads back what its encoder wrote, with
  \<open>pb_skip_field\<close> in step, integer fields are checked for their range, and packed arrays come back
  as they were.
\<close>

section \<open>The other primitives\<close>

definition zigzag :: "u64 \<Rightarrow> u64" where
  "zigzag v = (if v <s 0 then NOT (push_bit 1 v) else push_bit 1 v)"

lemma negative_bit: "v <s (0 :: u64) \<longleftrightarrow> bit v 63"
  using bit_last_iff [of v] unfolding word_sless_alt by simp

lemma and_1_bit: "(v :: u64) AND 1 \<noteq> 0 \<longleftrightarrow> bit v 0"
  using and_exp_eq_0_iff_not_bit [of v 0] by simp

lemma unzigzag: "(if zigzag v AND 1 \<noteq> 0 then NOT (drop_bit 1 (zigzag v)) else drop_bit 1 (zigzag v)) = v"
proof (cases "bit v 63")
  case True
  then have z: "zigzag v = NOT (push_bit 1 v)" by (simp add: zigzag_def negative_bit)
  have "NOT (drop_bit 1 (NOT (push_bit 1 v))) = v"
  proof (rule bit_word_eqI)
    fix n assume "n < LENGTH(64)"
    then show "bit (NOT (drop_bit 1 (NOT (push_bit 1 v)))) n = bit v n"
      using True by (cases "n = 63") (simp_all only: bit_simps o_def, auto)
  qed
  moreover have "bit (NOT (push_bit 1 v)) 0" by (simp only: bit_simps) simp
  ultimately show ?thesis unfolding and_1_bit z by (simp only: if_True)
next
  case False
  then have z: "zigzag v = push_bit 1 v" by (simp add: zigzag_def negative_bit)
  have "drop_bit 1 (push_bit 1 v) = v"
  proof (rule bit_word_eqI)
    fix n assume "n < LENGTH(64)"
    then show "bit (drop_bit 1 (push_bit 1 v)) n = bit v n"
      using False by (cases "n = 63") (simp_all only: bit_simps o_def, auto)
  qed
  moreover have "\<not> bit (push_bit 1 v) 0" by (simp only: bit_simps) simp
  ultimately show ?thesis unfolding and_1_bit z by (simp only: if_False)
qed

lemma put_svarint: "pb_encode_svarint v = pb_write (vlq (unat (zigzag v)))"
  by (rule ext) (simp add: pb_encode_svarint_def zigzag_def pb_encode_varint_vlq)

lemma get_svarint:
  assumes "istream_ok s" "avail s = vlq (unat (zigzag v)) @ rest"
  shows "pb_decode_svarint s = (Some v, adv (length (vlq (unat (zigzag v)))) s)"
  unfolding pb_decode_svarint_def get_varint [OF assms] prod.case option.case unzigzag ..

definition le32 :: "u32 \<Rightarrow> bytes" where
  "le32 v = [ucast (v AND 0xFF), ucast (drop_bit 8 v AND 0xFF), ucast (drop_bit 16 v AND 0xFF), ucast (drop_bit 24 v AND 0xFF)]"

definition le64 :: "u64 \<Rightarrow> bytes" where
  "le64 v = [ucast (v AND 0xFF), ucast (drop_bit 8 v AND 0xFF), ucast (drop_bit 16 v AND 0xFF),
     ucast (drop_bit 24 v AND 0xFF), ucast (drop_bit 32 v AND 0xFF), ucast (drop_bit 40 v AND 0xFF),
     ucast (drop_bit 48 v AND 0xFF), ucast (drop_bit 56 v AND 0xFF)]"

lemma byte_of_word: "(ucast (ucast (x AND 0xFF) :: byte) :: 'a::len word) = take_bit 8 (x :: 'a word)"
proof -
  have "x AND 0xFF = take_bit 8 x" by (simp add: take_bit_eq_mask mask_eq_exp_minus_1)
  then show ?thesis by (intro bit_word_eqI) (auto simp: bit_simps)
qed

lemma split_word: "take_bit 8 w OR push_bit 8 (drop_bit 8 w) = (w :: 'a::len word)"
proof (rule bit_word_eqI)
  fix n assume "n < LENGTH('a)"
  then show "bit (take_bit 8 w OR push_bit 8 (drop_bit 8 w)) n = bit w n"
    by (cases "n < 8") (auto simp: bit_simps)
qed

lemma split_shifted:
  "push_bit k (take_bit 8 (drop_bit k w)) OR push_bit (k + 8) (drop_bit (k + 8) w) = push_bit k (drop_bit k (w :: 'a::len word))"
proof -
  have "push_bit k (drop_bit k w) = push_bit k (take_bit 8 (drop_bit k w) OR push_bit 8 (drop_bit 8 (drop_bit k w)))"
    by (simp only: split_word)
  then show ?thesis by (simp only: push_bit_or push_bit_push_bit drop_bit_drop_bit add.commute)
qed

lemma drop_last: "take_bit 8 (drop_bit 24 (v :: u32)) = drop_bit 24 v" "take_bit 8 (drop_bit 56 (w :: u64)) = drop_bit 56 w"
  by (rule bit_word_eqI; auto simp: bit_simps dest: bit_imp_le_length)+

lemma get_fixed32:
  assumes "istream_ok s" "avail s = le32 v @ rest"
  shows "pb_decode_fixed32 s = (Some v, adv 4 s)"
proof -
  have "take_bit 8 v OR push_bit 8 (take_bit 8 (drop_bit 8 v)) OR push_bit 16 (take_bit 8 (drop_bit 16 v)) OR
      push_bit 24 (take_bit 8 (drop_bit 24 v)) = v"
    using split_word [of v] split_shifted [of 8 v] split_shifted [of 16 v] by (simp only: drop_last) simp
  then show ?thesis using assms by (simp add: pb_decode_fixed32_def pb_read_avail le32_def byte_of_word numeral_eq_Suc or.assoc)
qed

lemma get_fixed64:
  assumes "istream_ok s" "avail s = le64 v @ rest"
  shows "pb_decode_fixed64 s = (Some v, adv 8 s)"
proof -
  have "take_bit 8 v OR push_bit 8 (take_bit 8 (drop_bit 8 v)) OR push_bit 16 (take_bit 8 (drop_bit 16 v)) OR
      push_bit 24 (take_bit 8 (drop_bit 24 v)) OR push_bit 32 (take_bit 8 (drop_bit 32 v)) OR
      push_bit 40 (take_bit 8 (drop_bit 40 v)) OR push_bit 48 (take_bit 8 (drop_bit 48 v)) OR
      push_bit 56 (take_bit 8 (drop_bit 56 v)) = v"
    using split_word [of v] split_shifted [of 8 v] split_shifted [of 16 v] split_shifted [of 24 v] split_shifted [of 32 v]
      split_shifted [of 40 v] split_shifted [of 48 v] by (simp only: drop_last) simp
  then show ?thesis using assms by (simp add: pb_decode_fixed64_def pb_read_avail le64_def byte_of_word numeral_eq_Suc or.assoc)
qed

lemma put_fixed: "pb_encode_fixed32 v = pb_write (le32 v)" "pb_encode_fixed64 w = pb_write (le64 w)"
  by (rule ext; simp add: pb_encode_fixed32_def pb_encode_fixed64_def le32_def le64_def)+

lemma length_le: "length (le32 v) = 4" "length (le64 w) = 8"
  by (simp_all add: le32_def le64_def)

subsection \<open>Integer fields\<close>

abbreviation (input) int_field :: "pb_field \<Rightarrow> bool" where
  "int_field f \<equiv> fld_data_size f \<in> {1, 2, 4, 8}"

text \<open>The value of a field whose bytes are those of \<open>v\<close>.\<close>

definition unsigned_field :: "pb_field \<Rightarrow> u64 \<Rightarrow> u64" where
  "unsigned_field f v = the (uload (fld_data_size f) v)"

definition signed_field :: "pb_field \<Rightarrow> u64 \<Rightarrow> u64" where
  "signed_field f v = the (sload (fld_data_size f) v)"

lemma uload_field: "int_field f \<Longrightarrow> uload (fld_data_size f) v = Some (unsigned_field f v)"
  by (auto simp: unsigned_field_def uload_def)

lemma sload_field: "int_field f \<Longrightarrow> sload (fld_data_size f) v = Some (signed_field f v)"
  by (auto simp: signed_field_def sload_def)

lemma unsigned_field_idem: "int_field f \<Longrightarrow> unsigned_field f (unsigned_field f v) = unsigned_field f v"
  by (auto simp: unsigned_field_def uload_def intro!: bit_word_eqI) (auto simp: bit_simps)

lemma signed_field_idem: "int_field f \<Longrightarrow> signed_field f (signed_field f v) = signed_field f v"
  by (auto simp: signed_field_def sload_def intro!: bit_word_eqI) (auto simp: bit_simps min_def)

lemma signed_field_32:
  "int_field f \<Longrightarrow> fld_data_size f \<noteq> 8 \<Longrightarrow> scast (ucast (signed_field f v) :: u32) = signed_field f v"
  by (auto simp: signed_field_def sload_def intro!: bit_word_eqI) (auto simp: bit_simps min_def split: if_splits)

lemma get_uvarint_field:
  assumes "int_field f" "istream_ok s" "avail s = vlq (unat (unsigned_field f v)) @ rest"
  shows "pb_dec_uvarint f s = (Some (unsigned_field f v), adv (length (vlq (unat (unsigned_field f v)))) s)"
  using uload_field [OF assms(1)] unsigned_field_idem [OF assms(1)]
  by (simp add: pb_dec_uvarint_def get_varint [OF assms(2,3)])

lemma get_varint_field:
  assumes "int_field f" "istream_ok s" "avail s = vlq (unat (signed_field f v)) @ rest"
  shows "pb_dec_varint f s = (Some (signed_field f v), adv (length (vlq (unat (signed_field f v)))) s)"
proof -
  have "(if fld_data_size f = 8 then signed_field f v else scast (ucast (signed_field f v) :: u32)) = signed_field f v"
    using signed_field_32 [OF assms(1)] by simp
  then show ?thesis using sload_field [OF assms(1)] signed_field_idem [OF assms(1)]
    by (simp only: pb_dec_varint_def get_varint [OF assms(2,3)] Let_def prod.case option.case if_False HOL.simp_thms)
qed

lemma get_svarint_field:
  assumes "int_field f" "istream_ok s" "avail s = vlq (unat (zigzag (signed_field f v))) @ rest"
  shows "pb_dec_svarint f s = (Some (signed_field f v), adv (length (vlq (unat (zigzag (signed_field f v))))) s)"
  using sload_field [OF assms(1)] signed_field_idem [OF assms(1)]
  by (simp add: pb_dec_svarint_def get_svarint [OF assms(2,3)])

lemma get_bool:
  assumes "istream_ok s" "avail s = vlq (unat (if b then 1 else 0 :: u64)) @ rest"
  shows "pb_dec_bool s = (Some b, adv (length (vlq (unat (if b then 1 else 0 :: u64)))) s)"
proof -
  have "pb_decode_varint32 s = (Some (if b then 1 else 0), adv (length (vlq (unat (if b then 1 else 0 :: u32)))) s)"
    using assms by (intro get_varint32) (auto split: if_splits)
  then show ?thesis by (simp add: pb_dec_bool_def)
qed

subsection \<open>32-bit numbers written with 64 bits\<close>

lemma unat_scast_32: "unat (scast (w :: u32) :: u64) = (if bit w 31 then 2 ^ 64 - 2 ^ 32 + unat w else unat w)"
proof (cases "bit w 31")
  case True
  let ?u = "ucast w :: u64"
  have u: "unat ?u = unat w" by (simp add: unat_ucast_up)
  have w: "unat w < 2 ^ 32" using unsigned_less [of w] by simp
  have "(scast w :: u64) = ?u OR push_bit 32 (mask 32)"
  proof (rule bit_word_eqI)
    fix n assume "n < LENGTH(64)"
    then show "bit (scast w :: u64) n = bit (?u OR push_bit 32 (mask 32)) n"
      using True by (cases "n < 31"; cases "n = 31") (auto simp: bit_simps min_def dest: bit_imp_le_length)
  qed
  also have "\<dots> = ?u + mask 32 * 2 ^ 32" by (rule or_push_bit) (use u w in simp)
  also have "\<dots> = of_nat (2 ^ 64 - 2 ^ 32 + unat w)"
  proof -
    have "?u = of_nat (unat w)" by (simp only: of_nat_unat)
    then show ?thesis by (simp add: mask_eq_exp_minus_1)
  qed
  finally have "(scast w :: u64) = of_nat (2 ^ 64 - 2 ^ 32 + unat w)" .
  then have "unat (scast w :: u64) = 2 ^ 64 - 2 ^ 32 + unat w" by (simp only:) (rule unat_of_nat_u64, use w in simp)
  then show ?thesis using True by simp
next
  case False
  have "(scast w :: u64) = ucast w"
  proof (rule bit_word_eqI)
    fix n assume "n < LENGTH(64)"
    then show "bit (scast w :: u64) n = bit (ucast w :: u64) n"
      using False by (cases "n < 31"; cases "n = 31") (auto simp: bit_simps min_def dest: bit_imp_le_length)
  qed
  then show ?thesis using False by (simp add: unat_ucast_up)
qed

lemma get_sign_extended:
  assumes "istream_ok s" "avail s = vlq (unat (scast (w :: u32) :: u64)) @ rest"
  shows "pb_decode_varint32 s = (Some w, adv (length (vlq (unat (scast w :: u64)))) s)"
proof (cases "bit w 31")
  case True
  have "drop_bit 31 (of_nat (unat w) :: u32) \<noteq> 0"
  proof
    assume "drop_bit 31 (of_nat (unat w) :: u32) = 0"
    then have "\<not> bit (drop_bit 31 w) 0" by simp
    then show False using True by (simp add: bit_simps)
  qed
  then have "2 ^ 31 \<le> unat w mod 2 ^ 32" by (simp only: top_bit)
  moreover have w: "unat w < 2 ^ 32" using unsigned_less [of w] by simp
  ultimately have "2 ^ 31 \<le> unat w" by simp
  then show ?thesis using get_varint32_negative [OF assms(1) _ w, of rest] assms(2) True by (simp only: unat_scast_32 if_True) simp
next
  case False
  then show ?thesis using get_varint32 [OF assms(1), of w rest] assms(2) by (simp add: unat_scast_32)
qed

subsection \<open>The codecs\<close>

interpretation varint32: pb_codec "\<lambda>_. True" "\<lambda>w. vlq (unat w)" "\<lambda>w. pb_encode_varint (ucast w)" pb_decode_varint32 "\<lambda>w. w"
  by unfold_locales (auto simp: pb_encode_varint_vlq get_varint32 unat_ucast_up)

interpretation extended: pb_codec "\<lambda>_. True" "\<lambda>w. vlq (unat (scast w :: u64))" "\<lambda>w. pb_encode_varint (scast w)"
  pb_decode_varint32 "\<lambda>w. w"
  by unfold_locales (simp_all only: pb_encode_varint_vlq get_sign_extended vlq_nonempty not_False_eq_True)

interpretation varint: pb_codec "\<lambda>_. True" "\<lambda>v. vlq (unat v)" pb_encode_varint pb_decode_varint "\<lambda>v. v"
  by unfold_locales (auto simp: pb_encode_varint_vlq get_varint)

interpretation svarint: pb_codec "\<lambda>_. True" "\<lambda>v. vlq (unat (zigzag v))" pb_encode_svarint pb_decode_svarint "\<lambda>v. v"
  by unfold_locales (auto simp: put_svarint get_svarint)

interpretation fixed32: pb_codec "\<lambda>_. True" le32 pb_encode_fixed32 pb_decode_fixed32 "\<lambda>v. v"
  by unfold_locales (auto simp: put_fixed get_fixed32 length_le, simp add: le32_def)

interpretation fixed64: pb_codec "\<lambda>_. True" le64 pb_encode_fixed64 pb_decode_fixed64 "\<lambda>v. v"
  by unfold_locales (auto simp: put_fixed get_fixed64 length_le, simp add: le64_def)

interpretation enc_bool: pb_codec "\<lambda>_. True" "\<lambda>b. vlq (unat (if b then 1 else 0 :: u64))" pb_enc_bool pb_dec_bool "\<lambda>b. b"
  by unfold_locales (simp_all only: pb_enc_bool_def pb_encode_varint_vlq get_bool vlq_nonempty not_False_eq_True)

interpretation uvarint_field: pb_codec "\<lambda>_. int_field f" "\<lambda>v. vlq (unat (unsigned_field f v))"
  "pb_enc_uvarint f" "pb_dec_uvarint f" "unsigned_field f" for f
  by unfold_locales (simp_all only: pb_enc_uvarint_def uload_field pb_encode_varint_vlq get_uvarint_field option.case
    vlq_nonempty not_False_eq_True)

interpretation varint_field: pb_codec "\<lambda>_. int_field f" "\<lambda>v. vlq (unat (signed_field f v))"
  "pb_enc_varint f" "pb_dec_varint f" "signed_field f" for f
  by unfold_locales (simp_all only: pb_enc_varint_def sload_field pb_encode_varint_vlq get_varint_field option.case
    vlq_nonempty not_False_eq_True)

interpretation svarint_field: pb_codec "\<lambda>_. int_field f" "\<lambda>v. vlq (unat (zigzag (signed_field f v)))"
  "pb_enc_svarint f" "pb_dec_svarint f" "signed_field f" for f
  by unfold_locales (simp_all only: pb_enc_svarint_def sload_field put_svarint get_svarint_field option.case
    vlq_nonempty not_False_eq_True)


subsection \<open>Tags, skipping and substreams\<close>

lemma tag_word:
  assumes "unat (wt :: u32) < 8" "unat (num :: u32) < 2 ^ 29"
  shows "unat (push_bit 3 (ucast num :: u64) OR ucast wt) = unat num * 8 + unat wt"
    "unat num * 8 + unat wt < 2 ^ 32"
proof -
  have u: "unat (ucast wt :: u64) = unat wt" "unat (ucast num :: u64) = unat num" by (simp_all add: unat_ucast_up)
  have "ucast wt OR push_bit 3 (ucast num :: u64) = ucast wt + ucast num * 2 ^ 3"
    by (rule or_push_bit) (use assms(1) u in simp)
  also have "\<dots> = of_nat (unat num * 8 + unat wt)"
  proof -
    have "(ucast wt :: u64) = of_nat (unat wt)" "(ucast num :: u64) = of_nat (unat num)" by (simp_all only: of_nat_unat)
    then show ?thesis by (simp only: of_nat_add of_nat_mult of_nat_numeral add.commute) simp
  qed
  finally have w: "push_bit 3 (ucast num :: u64) OR ucast wt = of_nat (unat num * 8 + unat wt)" by (simp only: or.commute)
  show b: "unat num * 8 + unat wt < 2 ^ 32" using assms by simp
  show "unat (push_bit 3 (ucast num :: u64) OR ucast wt) = unat num * 8 + unat wt"
    unfolding w by (rule unat_of_nat_u64) (use b in simp)
qed

lemma get_tag:
  assumes "unat (wt :: u32) < 8" "0 < unat (num :: u32)" "unat num < 2 ^ 29" "istream_ok s" "avail s = vlq (unat num * 8 + unat wt) @ rest"
  shows "pb_decode_tag s = (True, wt, num, False, adv (length (vlq (unat num * 8 + unat wt))) s)"
proof -
  define t where "t = (of_nat (unat num * 8 + unat wt) :: u32)"
  note b = tag_word(2) [OF assms(1,3)]
  have t: "unat t = unat num * 8 + unat wt" unfolding t_def unat_of_nat using b by simp
  have "pb_decode_varint32 s = (Some t, adv (length (vlq (unat t))) s)"
    by (rule get_varint32 [OF assms(4)]) (use assms(5) t in simp)
  moreover have "fst (snd (pb_decode_varint32_eof s)) = False"
  proof -
    obtain b bs where "avail s = b # bs" using assms(5) by (cases "vlq (unat num * 8 + unat wt)") auto
    then show ?thesis by (simp add: pb_decode_varint32_eof_def pb_readbyte_avail [OF assms(4)] split: prod.split)
  qed
  ultimately have e: "pb_decode_varint32_eof s = (Some t, False, adv (length (vlq (unat t))) s)"
    by (auto simp: pb_decode_varint32_def split: prod.splits)
  have nz: "t \<noteq> 0" using t assms(2) by auto
  have "t AND 7 = take_bit 3 t" by (simp add: take_bit_eq_mask mask_eq_exp_minus_1)
  then have "unat (t AND 7) = take_bit 3 (unat t)" by (simp only: unsigned_take_bit_eq)
  then have "unat (t AND 7) = unat wt" using assms(1) by (simp add: take_bit_eq_mod t)
  moreover have "unat (drop_bit 3 t) = drop_bit 3 (unat t)" by (rule unat_drop_bit_eq)
  then have "unat (drop_bit 3 t) = unat num" using assms(1) by (simp add: drop_bit_eq_div t)
  ultimately show ?thesis using e nz by (simp add: pb_decode_tag_def t word_unat_eq_iff)
qed

lemma put_tag:
  assumes "unat (wt :: u32) < 8" "unat (num :: u32) < 2 ^ 29"
  shows "pb_encode_tag wt num = pb_write (vlq (unat num * 8 + unat wt))"
  by (rule ext) (simp add: pb_encode_tag_def pb_encode_varint_vlq tag_word(1) [OF assms])

lemma skip_varint:
  assumes "istream_ok s" "avail s = vlq n @ rest"
  shows "pb_skip_varint s = (Some (), adv (length (vlq n)) s)"
  using assms
proof (induction n arbitrary: s rule: vlq.induct)
  case (1 n)
  have rd: "pb_read 1 s = (Some (take 1 (avail s)), adv 1 s)"
    using 1(2,3) by (cases "vlq n") (auto simp: pb_read_avail)
  show ?case
  proof (cases "n < 128")
    case True
    then have v: "vlq n = [of_nat n]" by (subst vlq.simps) simp
    have "(of_nat n :: byte) AND 0x80 = 0" using True by (simp add: high_bit_iff unat_small_byte)
    then show ?thesis using rd 1(3) v by (subst pb_skip_varint.simps) simp
  next
    case False
    then have v: "vlq n = of_nat (128 + n mod 128) # vlq (n div 128)" by (subst vlq.simps) simp
    have "unat (of_nat (128 + n mod 128) :: byte) = 128 + n mod 128" by (rule unat_small_byte) simp
    then have "(of_nat (128 + n mod 128) :: byte) AND 0x80 \<noteq> 0" by (simp add: high_bit_iff del: of_nat_add)
    moreover have "pb_skip_varint (adv 1 s) = (Some (), adv (length (vlq (n div 128))) (adv 1 s))"
      by (rule 1(1) [OF False]) (use 1(2,3) v in \<open>simp_all add: istream_ok_adv avail_adv\<close>)
    ultimately show ?thesis using rd 1(3) v by (subst pb_skip_varint.simps) (simp del: of_nat_add)
  qed
qed

lemma u32_of_length: "n < 2 ^ 32 \<Longrightarrow> unat (of_nat n :: u32) = n"
  by (simp add: unat_of_nat)

lemma skip_string:
  assumes "istream_ok s" "avail s = vlq (length b) @ b @ rest" "length b < 2 ^ 32"
  shows "pb_skip_string s = (Some (), adv (length (vlq (length b)) + length b) s)"
proof -
  have "pb_decode_varint32 s = (Some (of_nat (length b)), adv (length (vlq (length b))) s)"
    using get_varint32 [OF assms(1), of "of_nat (length b)" "b @ rest"] assms(2) u32_of_length [OF assms(3)] by simp
  then show ?thesis using assms(1,2) u32_of_length [OF assms(3)]
    by (simp add: pb_skip_string_def pb_read_avail istream_ok_adv avail_adv)
qed

lemma substream:
  assumes "istream_ok s" "avail s = vlq (length b) @ b @ rest" "length b < 2 ^ 32"
  obtains sub s1 where "pb_make_string_substream s = (Some sub, s1)" "istream_ok sub" "avail sub = b"
    "pb_close_string_substream (adv (length b) sub) s1 = (Some (), adv (length (vlq (length b)) + length b) s)"
proof -
  let ?l = "length (vlq (length b))"
  let ?sub = "(adv ?l s)\<lparr>is_left := length b\<rparr>" and ?s1 = "(adv ?l s)\<lparr>is_left := is_left (adv ?l s) - length b\<rparr>"
  have d: "pb_decode_varint32 s = (Some (of_nat (length b)), adv ?l s)"
    using get_varint32 [OF assms(1), of "of_nat (length b)" "b @ rest"] assms(2) u32_of_length [OF assms(3)] by simp
  have "length (avail s) = is_left s" by (rule length_avail [OF assms(1)])
  then have left: "is_left s = ?l + length b + length rest" unfolding assms(2) by simp
  have "pb_make_string_substream s = (Some ?sub, ?s1)"
    using d left u32_of_length [OF assms(3)] by (simp add: pb_make_string_substream_def adv_def)
  moreover have "take (length b) (drop ?l (is_state s)) = b"
  proof -
    have "take (is_left s) (is_state s) = vlq (length b) @ b @ rest" using assms(2) by (simp add: avail_def)
    then have "take (length b) (drop ?l (take (is_left s) (is_state s))) = b" by simp
    then show ?thesis using left by (simp add: drop_take min_def)
  qed
  moreover have "istream_ok ?sub" using assms(1) left by (simp add: istream_ok_def adv_def)
  moreover have "pb_close_string_substream (adv (length b) ?sub) ?s1 = (Some (), adv (?l + length b) s)"
    by (simp add: pb_close_string_substream_def adv_def add.commute)
  ultimately show thesis using that by (simp add: avail_def adv_def)
qed

section \<open>What the codecs promise together\<close>

text \<open>\<open>v\<close> written by \<open>put\<close> is read back as \<open>w\<close> by \<open>get\<close>, whatever follows; a full buffer and a sizing
  stream behave as expected; and \<open>pb_skip_field\<close> skips just what was written.\<close>

definition reads_back ::
  "u32 \<Rightarrow> ('v \<Rightarrow> pb_ostream \<Rightarrow> bool \<times> pb_ostream) \<Rightarrow> (pb_istream, 'w) op \<Rightarrow> 'v \<Rightarrow> 'w \<Rightarrow> bool" where
  "reads_back wt put get v w \<longleftrightarrow>
     (\<exists>e. e \<noteq> [] \<and>
       (\<forall>os. ostream_ok os \<longrightarrow>
          put v os = (if length e \<le> room os then (True, wrote e os) else (False, oerror ''stream full'' os))) \<and>
       (\<forall>os. \<not> os_callback os \<longrightarrow>
          put v os = (True, os\<lparr>os_bytes_written := (os_bytes_written os + length e) mod SIZE_MODULUS\<rparr>)) \<and>
       (\<forall>s rest. istream_ok s \<longrightarrow> avail s = e @ rest \<longrightarrow>
          get s = (Some w, adv (length e) s) \<and> pb_skip_field wt s = (Some (), adv (length e) s)))"

text \<open>The same of an array written with its tag in the packed form.\<close>

definition packed_reads_back ::
  "pb_field \<Rightarrow> ('v \<Rightarrow> pb_ostream \<Rightarrow> bool \<times> pb_ostream) \<Rightarrow> (pb_istream, 'w) op \<Rightarrow> 'v list \<Rightarrow> 'w list \<Rightarrow> bool" where
  "packed_reads_back f put get vs ws \<longleftrightarrow>
     (\<exists>e. (\<forall>pointer os. ostream_ok os \<longrightarrow>
          (if length e \<le> room os then encode_packed f pointer put vs os = (True, wrote e os)
           else fst (encode_packed f pointer put vs os) = False)) \<and>
       (\<forall>s rest. istream_ok s \<longrightarrow> avail s = e @ rest \<longrightarrow>
          (\<exists>t. pb_decode_tag s = (True, PB_WT_STRING, fld_tag f, False, t) \<and>
            decode_packed f get [] t = (True, ws, adv (length e) s) \<and>
            pb_skip_field PB_WT_STRING t = (Some (), adv (length e) s))))"

context pb_codec
begin

lemma reads_backI:
  assumes "valid v" "length (enc v) < SIZE_MODULUS"
    "\<And>s rest. istream_ok s \<Longrightarrow> avail s = enc v @ rest \<Longrightarrow> pb_skip_field wt s = (Some (), adv (length (enc v)) s)"
  shows "reads_back wt put get v (val v)"
  unfolding reads_back_def
  by (intro exI [of _ "enc v"] conjI allI impI)
    (simp_all add: enc_nonempty put_enc assms pb_write_buffer [OF _ assms(2)] pb_write_sizing get_enc)

lemma packed_length:
  assumes "PB_LTYPE (fld_type f) = PB_LTYPE_FIXED32 \<longrightarrow> (\<forall>v. length (enc v) = 4)"
    "PB_LTYPE (fld_type f) = PB_LTYPE_FIXED64 \<longrightarrow> (\<forall>v. length (enc v) = 8)"
    "\<forall>v\<in>set vs. valid v" "length (encs vs) < 2 ^ 32" "vs \<noteq> []"
  shows "(if PB_LTYPE (fld_type f) = PB_LTYPE_FIXED32 then Some (4 * length vs mod SIZE_MODULUS)
      else if PB_LTYPE (fld_type f) = PB_LTYPE_FIXED64 then Some (8 * length vs mod SIZE_MODULUS)
      else (case encode_entries put vs PB_OSTREAM_SIZING of
              (False, _) \<Rightarrow> None | (True, t) \<Rightarrow> Some (os_bytes_written t))) = Some (length (encs vs))"
proof -
  have l: "length (encs vs) mod SIZE_MODULUS = length (encs vs)" using assms(4) by (intro mod_less) simp
  have each: "length (encs vs) = k * length vs" if "\<forall>v. length (enc v) = k" for k
    using that by (induction vs) simp_all
  show ?thesis
  proof (cases "PB_LTYPE (fld_type f) = PB_LTYPE_FIXED32")
    case True
    then show ?thesis using l each [OF assms(1) [THEN mp, OF True]] by simp
  next
    case not32: False
    show ?thesis
    proof (cases "PB_LTYPE (fld_type f) = PB_LTYPE_FIXED64")
      case True
      then show ?thesis using l not32 each [OF assms(2) [THEN mp, OF True]] by simp
    next
      case False
      then show ?thesis using l not32 assms(5) size_entries [OF assms(3), of PB_OSTREAM_SIZING]
        by (simp add: PB_OSTREAM_SIZING_def)
    qed
  qed
qed

lemma packed_reads_backI:
  assumes "PB_LTYPE (fld_type f) = PB_LTYPE_FIXED32 \<longrightarrow> (\<forall>v. length (enc v) = 4)"
    "PB_LTYPE (fld_type f) = PB_LTYPE_FIXED64 \<longrightarrow> (\<forall>v. length (enc v) = 8)"
    "\<forall>v\<in>set vs. valid v" "length (encs vs) < 2 ^ 32" "vs \<noteq> []" "length vs \<le> fld_array_size f"
    "0 < unat (fld_tag f)" "unat (fld_tag f) < 2 ^ 29"
  shows "packed_reads_back f put get vs (map val vs)"
proof -
  let ?n = "length (encs vs)" and ?tag = "vlq (unat (fld_tag f) * 8 + 2)"
  let ?e = "?tag @ vlq ?n @ encs vs"
  have wt: "unat PB_WT_STRING = 2" "unat PB_WT_STRING < 8" by (simp_all add: PB_WT_STRING_def)
  note len = packed_length [OF assms(1-5)]
  have nword: "unat (of_nat ?n :: u64) = ?n" using assms(4) by (intro unat_of_nat_u64) simp
  have small: "length ?tag < SIZE_MODULUS" "length (vlq ?n) < SIZE_MODULUS" "?n < SIZE_MODULUS"
  proof -
    have "length (vlq m) \<le> 10" if "m < 2 ^ 32" for m
    proof (rule length_vlq)
      have "(2 :: nat) ^ 32 \<le> 128 ^ 10" by simp
      then show "m < 128 ^ 10" using that by (rule order_less_le_trans [rotated])
    qed simp
    then have "length ?tag \<le> 10" "length (vlq ?n) \<le> 10" using assms(4,8) by simp_all
    then show "length ?tag < SIZE_MODULUS" "length (vlq ?n) < SIZE_MODULUS" "?n < SIZE_MODULUS" using assms(4) by simp_all
  qed
  have enc: "if length ?e \<le> room os then encode_packed f pointer put vs os = (True, wrote ?e os)
      else fst (encode_packed f pointer put vs os) = False" if os: "ostream_ok os" for pointer os
  proof -
    have start: "encode_packed f pointer put vs os =
        (case pb_write ?tag os of
           (False, s1) \<Rightarrow> (False, s1)
         | (True, s1) \<Rightarrow>
             (case pb_write (vlq ?n) s1 of
                (False, s2) \<Rightarrow> (False, s2)
              | (True, s2) \<Rightarrow> if \<not> os_callback s2 then pb_write_n [] ?n s2 else encode_entries put vs s2))"
      unfolding encode_packed_def len Let_def option.case pb_encode_varint_vlq nword
      using assms(5,6) put_tag [OF wt(2) assms(8)] by (simp add: wt(1) pb_encode_varint_vlq nword)
    consider "length ?tag > room os" | "length ?tag \<le> room os" "length (vlq ?n) > room os - length ?tag"
      | "length ?tag \<le> room os" "length (vlq ?n) \<le> room os - length ?tag" by linarith
    then show ?thesis
    proof cases
      case 3
      let ?s = "wrote (?tag @ vlq ?n) os"
      have ok: "ostream_ok ?s" using os 3 by simp
      have "encode_packed f pointer put vs os = encode_entries put vs ?s"
        unfolding start using os 3 small ok by (simp add: pb_write_buffer) (simp add: ostream_ok_def wrote_def)
      then show ?thesis using put_entries [OF assms(3) ok small(3)] 3 by (auto split: if_splits)
    qed (use os small in \<open>simp_all add: start pb_write_buffer\<close>)
  qed
  have dec: "\<exists>t. pb_decode_tag s = (True, PB_WT_STRING, fld_tag f, False, t) \<and>
      decode_packed f get [] t = (True, map val vs, adv (length ?e) s) \<and>
      pb_skip_field PB_WT_STRING t = (Some (), adv (length ?e) s)"
    if s: "istream_ok s" "avail s = ?e @ rest" for s rest
  proof -
    let ?t = "adv (length ?tag) s"
    have t: "pb_decode_tag s = (True, PB_WT_STRING, fld_tag f, False, ?t)"
      using get_tag [OF wt(2) assms(7,8) s(1), of "vlq ?n @ encs vs @ rest"] s(2) by (simp add: wt(1))
    have tok: "istream_ok ?t" "avail ?t = vlq ?n @ encs vs @ rest" using s by (simp_all add: istream_ok_adv avail_adv)
    obtain sub s1 where sub: "pb_make_string_substream ?t = (Some sub, s1)" "istream_ok sub" "avail sub = encs vs"
      "pb_close_string_substream (adv ?n sub) s1 = (Some (), adv (length (vlq ?n) + ?n) ?t)"
      by (rule substream [OF tok assms(4)])
    have "decode_entries get (fld_array_size f) sub = (True, map val vs, adv ?n sub)"
      by (rule get_entries [OF assms(3) sub(2,3)]) (rule assms(6))
    moreover have "is_left (adv ?n sub) = 0" using length_avail [OF sub(2)] sub(3) by (simp add: adv_def)
    ultimately have "decode_packed f get [] ?t = (True, map val vs, adv (length ?e) s)"
      using sub(1,4) by (simp add: decode_packed_def add.assoc)
    moreover have "pb_skip_field PB_WT_STRING ?t = (Some (), adv (length ?e) s)"
      using skip_string [OF tok assms(4)]
      by (simp add: pb_skip_field_def PB_WT_STRING_def PB_WT_VARINT_def PB_WT_64BIT_def add.assoc)
    ultimately show ?thesis using t by blast
  qed
  show ?thesis unfolding packed_reads_back_def by (intro exI [of _ ?e] conjI allI impI enc) (use dec in blast)+
qed

end

subsection \<open>Skipping each kind\<close>

lemma skip_field_varint:
  "istream_ok s \<Longrightarrow> avail s = vlq n @ rest \<Longrightarrow> pb_skip_field PB_WT_VARINT s = (Some (), adv (length (vlq n)) s)"
  by (simp add: pb_skip_field_def skip_varint)

lemma skip_field_fixed:
  assumes "istream_ok s" "avail s = b @ rest"
  shows "length b = 4 \<Longrightarrow> pb_skip_field PB_WT_32BIT s = (Some (), adv (length b) s)"
    "length b = 8 \<Longrightarrow> pb_skip_field PB_WT_64BIT s = (Some (), adv (length b) s)"
  using assms
  by (simp_all add: pb_skip_field_def PB_WT_VARINT_def PB_WT_64BIT_def PB_WT_STRING_def PB_WT_32BIT_def pb_read_avail)

lemma short_vlq: "length (vlq (unat (v :: u64))) < SIZE_MODULUS"
  using length_vlq_u64 [of v] by (rule order_le_less_trans) simp

lemma string_codec:
  assumes "length str < 2 ^ 32" "ostream_ok os"
  shows "\<exists>e. (if length e \<le> room os then pb_encode_string str os = (True, wrote e os) else \<not> fst (pb_encode_string str os)) \<and>
    (\<forall>s rest. istream_ok s \<longrightarrow> avail s = e @ rest \<longrightarrow>
      pb_skip_field PB_WT_STRING s = (Some (), adv (length e) s) \<and>
      (\<exists>sub t. pb_make_string_substream s = (Some sub, t) \<and> istream_ok sub \<and> avail sub = str \<and>
         pb_close_string_substream (adv (length str) sub) t = (Some (), adv (length e) s)))"
proof (intro exI [of _ "vlq (length str) @ str"] conjI allI impI)
  let ?l = "vlq (length str)"
  have n: "unat (of_nat (length str) :: u64) = length str" using assms(1) by (intro unat_of_nat_u64) simp
  have small: "length ?l < SIZE_MODULUS" "length str < SIZE_MODULUS"
    using short_vlq [of "of_nat (length str)"] n assms(1) by simp_all
  have enc: "pb_encode_string str os = (case pb_write ?l os of (False, t) \<Rightarrow> (False, t) | (True, t) \<Rightarrow> pb_write str t)"
    by (simp add: pb_encode_string_def pb_encode_varint_vlq n)
  show "if length (?l @ str) \<le> room os then pb_encode_string str os = (True, wrote (?l @ str) os)
      else \<not> fst (pb_encode_string str os)"
    unfolding enc pb_write_buffer [OF assms(2) small(1)]
    using pb_write_buffer [OF ostream_ok_wrote [OF assms(2)] small(2), of ?l] by auto
  fix s rest assume s: "istream_ok s" "avail s = (?l @ str) @ rest"
  then have a: "avail s = ?l @ str @ rest" by simp
  show "pb_skip_field PB_WT_STRING s = (Some (), adv (length (?l @ str)) s)"
    using skip_string [OF s(1) a assms(1)]
    by (simp add: pb_skip_field_def PB_WT_STRING_def PB_WT_VARINT_def PB_WT_64BIT_def)
  show "\<exists>sub t. pb_make_string_substream s = (Some sub, t) \<and> istream_ok sub \<and> avail sub = str \<and>
      pb_close_string_substream (adv (length str) sub) t = (Some (), adv (length (?l @ str)) s)"
    using substream [OF s(1) a assms(1)] by (simp only: length_append) blast
qed

section \<open>The range checks of integer fields\<close>

lemma unsigned_field_fits:
  assumes "int_field f"
  shows "unsigned_field f v = v \<longleftrightarrow> unat v < 2 ^ (8 * fld_data_size f)"
proof -
  have fits: "take_bit n v = v \<longleftrightarrow> unat v < 2 ^ n" for n
  proof -
    have "take_bit n v = v \<longleftrightarrow> take_bit n (unat v) = unat v"
      by (simp only: word_unat_eq_iff unsigned_take_bit_eq)
    then show ?thesis by (simp add: take_bit_nat_eq_self_iff)
  qed
  have "(ucast (ucast v :: byte) :: u64) = take_bit 8 v" "(ucast (ucast v :: u16) :: u64) = take_bit 16 v"
    "(ucast (ucast v :: u32) :: u64) = take_bit 32 v"
    by (rule bit_word_eqI; auto simp: bit_simps)+
  moreover have "unat v < 2 ^ 64" using unsigned_less [of v] by simp
  ultimately show ?thesis using assms fits [of 8] fits [of 16] fits [of 32]
    by (auto simp: unsigned_field_def uload_def)
qed

lemma signed_field_fits:
  assumes "int_field f"
  shows "signed_field f v = v \<longleftrightarrow> - (2 ^ (8 * fld_data_size f - 1)) \<le> sint v \<and> sint v < 2 ^ (8 * fld_data_size f - 1)"
proof -
  have fits: "signed_take_bit n v = v \<longleftrightarrow> - (2 ^ n) \<le> sint v \<and> sint v < 2 ^ n" if "n < 64" for n
  proof -
    have "sint (signed_take_bit n v) = signed_take_bit n (sint v)"
    proof (rule bit_eqI)
      fix m
      show "bit (sint (signed_take_bit n v)) m = bit (signed_take_bit n (sint v)) m"
      proof (cases "n = 63")
        case False
        then have "n < 63" using that by simp
        then show ?thesis by (cases "n \<le> m"; cases "63 \<le> m") (simp_all add: bit_simps min_def)
      qed (simp add: bit_simps min_def)
    qed
    then have "signed_take_bit n v = v \<longleftrightarrow> signed_take_bit n (sint v) = sint v" by (metis signed_word_eqI)
    then show ?thesis by (simp add: signed_take_bit_int_eq_self_iff)
  qed
  have "(scast (ucast v :: byte) :: u64) = signed_take_bit 7 v" "(scast (ucast v :: u16) :: u64) = signed_take_bit 15 v"
    "(scast (ucast v :: u32) :: u64) = signed_take_bit 31 v"
    by (rule bit_word_eqI; auto simp: bit_simps min_def)+
  moreover have "- (2 ^ 63) \<le> sint v \<and> sint v < 2 ^ 63" using sint_range_size [of v] by (simp add: word_size)
  ultimately show ?thesis using assms fits [of 7] fits [of 15] fits [of 31]
    by (auto simp: signed_field_def sload_def)
qed

section \<open>The properties\<close>

text \<open>C30: The values of varints.  The 64-bit decoder accepts exactly the varints of at most ten bytes,
  gives their value modulo two to the 64 and stops behind them.  Of those the 32-bit decoder takes
  the ones of up to five bytes whose value has 32 bits; of a longer one it takes the first five bytes
  modulo two to the 32, provided each further byte adds nothing or is the sign extension of a negative
  number, so that the bits 32 to 34 are not checked when a byte follows them.\<close>

theorem pb_varint_values:
  assumes "istream_ok s"
  shows "(case varint_prefix 10 (avail s) of
       None \<Rightarrow> fst (pb_decode_varint s) = None
     | Some xs \<Rightarrow>
         pb_decode_varint s = (Some (of_nat (varint_value xs)), adv (length xs) s) \<and>
         (if varint32_accepts xs
          then pb_decode_varint32 s = (Some (of_nat (varint_value (take 5 xs))), adv (length xs) s)
          else fst (pb_decode_varint32 s) = None))"
  using pb_decode_varint_prefix [OF assms] pb_decode_varint32_prefix [OF assms] by (cases "varint_prefix 10 (avail s)") simp_all

text \<open>The number two to the 32, with one more group of zeros: the 64-bit decoder gives it, the 32-bit
  decoder gives zero instead of an overflow.\<close>

theorem pb_varint_values_witness:
  "fst (pb_decode_varint (pb_istream_from_buffer [0x80, 0x80, 0x80, 0x80, 0x90, 0] 6)) = Some (2 ^ 32) \<and>
   fst (pb_decode_varint32 (pb_istream_from_buffer [0x80, 0x80, 0x80, 0x80, 0x90, 0] 6)) = Some 0"
proof -
  let ?s = "pb_istream_from_buffer [0x80, 0x80, 0x80, 0x80, 0x90, 0] 6"
  have ok: "istream_ok ?s" by (simp add: istream_ok_def pb_istream_from_buffer_def)
  have "varint_prefix 10 (avail ?s) = Some [0x80, 0x80, 0x80, 0x80, 0x90, 0]"
    by code_simp
  moreover have "varint32_accepts [0x80, 0x80, 0x80, 0x80, 0x90, 0]" by code_simp
  ultimately show ?thesis using pb_varint_values [OF ok] by simp
qed

text \<open>C31: What each primitive encoder writes, the matching decoder reads back, whatever follows it:
  varints (a 32-bit number zero- or sign-extended to 64 bits also with the 32-bit decoder), zigzag varints, fixed-size integers, booleans, the three kinds of integer fields in every
  size, tags and strings.  A buffer without room is refused, the sizing stream counts the same
  bytes, and \<open>pb_skip_field\<close> skips exactly them.\<close>

theorem pb_primitives_roundtrip:
  "reads_back PB_WT_VARINT pb_encode_varint pb_decode_varint v v \<and>
   reads_back PB_WT_VARINT (\<lambda>w. pb_encode_varint (ucast w)) pb_decode_varint32 w w \<and>
   reads_back PB_WT_VARINT (\<lambda>w. pb_encode_varint (scast w)) pb_decode_varint32 w w \<and>
   reads_back PB_WT_VARINT pb_encode_svarint pb_decode_svarint v v \<and>
   reads_back PB_WT_32BIT pb_encode_fixed32 pb_decode_fixed32 w w \<and>
   reads_back PB_WT_64BIT pb_encode_fixed64 pb_decode_fixed64 v v \<and>
   reads_back PB_WT_VARINT pb_enc_bool pb_dec_bool b b \<and>
   (fld_data_size f \<in> {1, 2, 4, 8} \<longrightarrow>
     reads_back PB_WT_VARINT (pb_enc_uvarint f) (pb_dec_uvarint f) v (unsigned_field f v) \<and>
     reads_back PB_WT_VARINT (pb_enc_varint f) (pb_dec_varint f) v (signed_field f v) \<and>
     reads_back PB_WT_VARINT (pb_enc_svarint f) (pb_dec_svarint f) v (signed_field f v)) \<and>
   (unat wt < 8 \<longrightarrow> 0 < unat num \<longrightarrow> unat num < 2 ^ 29 \<longrightarrow>
     (\<exists>e. pb_encode_tag wt num = pb_write e \<and>
       (\<forall>s rest. istream_ok s \<longrightarrow> avail s = e @ rest \<longrightarrow> pb_decode_tag s = (True, wt, num, False, adv (length e) s)))) \<and>
   (length str < 2 ^ 32 \<longrightarrow> ostream_ok os \<longrightarrow>
     (\<exists>e. (if length e \<le> room os then pb_encode_string str os = (True, wrote e os) else \<not> fst (pb_encode_string str os)) \<and>
       (\<forall>s rest. istream_ok s \<longrightarrow> avail s = e @ rest \<longrightarrow>
         pb_skip_field PB_WT_STRING s = (Some (), adv (length e) s) \<and>
         (\<exists>sub t. pb_make_string_substream s = (Some sub, t) \<and> istream_ok sub \<and> avail sub = str \<and>
            pb_close_string_substream (adv (length str) sub) t = (Some (), adv (length e) s)))))"
proof (intro conjI impI)
  show "reads_back PB_WT_VARINT pb_encode_varint pb_decode_varint v v"
    by (rule varint.reads_backI) (simp_all only: short_vlq skip_field_varint)
  show "reads_back PB_WT_VARINT (\<lambda>w. pb_encode_varint (ucast w)) pb_decode_varint32 w w"
    by (rule varint32.reads_backI) (use short_vlq [of "ucast w"] in \<open>simp_all add: unat_ucast_up skip_field_varint\<close>)
  show "reads_back PB_WT_VARINT (\<lambda>w. pb_encode_varint (scast w)) pb_decode_varint32 w w"
    by (rule extended.reads_backI) (simp_all only: short_vlq skip_field_varint)
  show "reads_back PB_WT_VARINT pb_encode_svarint pb_decode_svarint v v"
    by (rule svarint.reads_backI) (simp_all only: short_vlq skip_field_varint)
  show "reads_back PB_WT_32BIT pb_encode_fixed32 pb_decode_fixed32 w w"
    by (rule fixed32.reads_backI) (simp_all add: length_le skip_field_fixed)
  show "reads_back PB_WT_64BIT pb_encode_fixed64 pb_decode_fixed64 v v"
    by (rule fixed64.reads_backI) (simp_all add: length_le skip_field_fixed)
  show "reads_back PB_WT_VARINT pb_enc_bool pb_dec_bool b b"
    by (rule enc_bool.reads_backI) (simp_all only: short_vlq skip_field_varint)
next
  assume f: "int_field f"
  show "reads_back PB_WT_VARINT (pb_enc_uvarint f) (pb_dec_uvarint f) v (unsigned_field f v)"
    by (rule uvarint_field.reads_backI) (simp_all only: f short_vlq skip_field_varint)
  show "reads_back PB_WT_VARINT (pb_enc_varint f) (pb_dec_varint f) v (signed_field f v)"
    by (rule varint_field.reads_backI) (simp_all only: f short_vlq skip_field_varint)
  show "reads_back PB_WT_VARINT (pb_enc_svarint f) (pb_dec_svarint f) v (signed_field f v)"
    by (rule svarint_field.reads_backI) (simp_all only: f short_vlq skip_field_varint)
next
  assume t: "unat wt < 8" "0 < unat num" "unat num < 2 ^ 29"
  show "\<exists>e. pb_encode_tag wt num = pb_write e \<and>
      (\<forall>s rest. istream_ok s \<longrightarrow> avail s = e @ rest \<longrightarrow> pb_decode_tag s = (True, wt, num, False, adv (length e) s))"
    using put_tag [OF t(1,3)] get_tag [OF t] by blast
next
  assume str: "length str < 2 ^ 32" and os: "ostream_ok os"
  show "\<exists>e. (if length e \<le> room os then pb_encode_string str os = (True, wrote e os) else \<not> fst (pb_encode_string str os)) \<and>
       (\<forall>s rest. istream_ok s \<longrightarrow> avail s = e @ rest \<longrightarrow>
         pb_skip_field PB_WT_STRING s = (Some (), adv (length e) s) \<and>
         (\<exists>sub t. pb_make_string_substream s = (Some sub, t) \<and> istream_ok sub \<and> avail sub = str \<and>
            pb_close_string_substream (adv (length str) sub) t = (Some (), adv (length e) s)))"
    by (rule string_codec [OF str os])
qed

theorem pb_primitives_roundtrip_witness:
  "\<exists>e. pb_encode_tag PB_WT_STRING 5 = pb_write e \<and>
     (\<forall>s rest. istream_ok s \<longrightarrow> avail s = e @ rest \<longrightarrow> pb_decode_tag s = (True, PB_WT_STRING, 5, False, adv (length e) s))"
proof -
  have "unat PB_WT_STRING < 8" by (simp add: PB_WT_STRING_def)
  then show ?thesis
    using pb_primitives_roundtrip [of 0 0 True "\<lparr>fld_tag = 5, fld_type = 1, fld_data_size = 4, fld_array_size = 0\<rparr>"
        PB_WT_STRING 5 "[]" PB_OSTREAM_SIZING] by simp
qed

text \<open>C12: Integer fields never hold a wrong value silently, with one exception the comments of the code
  ask for.  An unsigned field accepts exactly the values its size can hold, and a zigzag-coded one exactly the
  signed values it can hold; any other value is the error \<open>integer too large\<close>.  A plain signed field of eight
  bytes takes the value as it is, and a smaller one the sign-extended low 32 bits of it, the upper half
  being ignored, if that is in its range.\<close>

theorem pb_integer_fields_checked:
  assumes "fld_data_size f \<in> {1, 2, 4, 8}" "istream_ok s" "varint_prefix 10 (avail s) = Some xs"
    "v = of_nat (varint_value xs)" "t = adv (length xs) s" "n = 8 * fld_data_size f"
    "z = (if v AND 1 \<noteq> 0 then NOT (drop_bit 1 v) else drop_bit 1 v)"
    "p = (if fld_data_size f = 8 then v else scast (ucast v :: u32))"
  shows "pb_dec_uvarint f s = (if unat v < 2 ^ n then (Some v, t) else (None, ierror ''integer too large'' t)) \<and>
    pb_dec_svarint f s =
      (if - (2 ^ (n - 1)) \<le> sint z \<and> sint z < 2 ^ (n - 1) then (Some z, t) else (None, ierror ''integer too large'' t)) \<and>
    pb_dec_varint f s =
      (if - (2 ^ (n - 1)) \<le> sint p \<and> sint p < 2 ^ (n - 1) then (Some p, t) else (None, ierror ''integer too large'' t))"
proof (intro conjI)
  have d: "pb_decode_varint s = (Some v, t)" using pb_decode_varint_prefix [OF assms(2)] assms(3-5) by simp
  show "pb_dec_uvarint f s = (if unat v < 2 ^ n then (Some v, t) else (None, ierror ''integer too large'' t))"
    unfolding pb_dec_uvarint_def d prod.case option.case uload_field [OF assms(1)]
    using unsigned_field_fits [OF assms(1), of v] assms(6) by auto
  have z: "pb_decode_svarint s = (Some z, t)" unfolding pb_decode_svarint_def d prod.case option.case assms(7) ..
  show "pb_dec_svarint f s =
      (if - (2 ^ (n - 1)) \<le> sint z \<and> sint z < 2 ^ (n - 1) then (Some z, t) else (None, ierror ''integer too large'' t))"
    unfolding pb_dec_svarint_def z prod.case option.case sload_field [OF assms(1)]
    using signed_field_fits [OF assms(1), of z] assms(6) by auto
  show "pb_dec_varint f s =
      (if - (2 ^ (n - 1)) \<le> sint p \<and> sint p < 2 ^ (n - 1) then (Some p, t) else (None, ierror ''integer too large'' t))"
    unfolding pb_dec_varint_def d prod.case option.case Let_def assms(8) [symmetric] sload_field [OF assms(1)]
    using signed_field_fits [OF assms(1), of p] assms(6) by auto
qed

theorem pb_integer_fields_checked_witness:
  "fst (pb_dec_uvarint \<lparr>fld_tag = 1, fld_type = 2, fld_data_size = 1, fld_array_size = 0\<rparr> (pb_istream_from_buffer [0x80, 0x02] 2)) = None"
proof -
  let ?f = "\<lparr>fld_tag = 1, fld_type = 2, fld_data_size = 1, fld_array_size = 0\<rparr>"
  let ?s = "pb_istream_from_buffer [0x80, 0x02] 2"
  have f: "fld_data_size ?f \<in> {1, 2, 4, 8}" by simp
  have ok: "istream_ok ?s" by (simp add: istream_ok_def pb_istream_from_buffer_def)
  have "varint_prefix 10 (avail ?s) = Some [0x80, 0x02]" by code_simp
  from pb_integer_fields_checked [OF f ok this refl refl refl refl refl] show ?thesis by simp
qed

lemma concat_bound: "(\<And>v. length (enc v) \<le> k) \<Longrightarrow> length (concat (map enc vs)) \<le> k * length vs"
  by (induction vs) (simp_all add: add_mono)

lemma packed_bounds:
  assumes "length vs < 2 ^ 28"
  shows "length (concat (map (\<lambda>v. vlq (unat (g v :: u64))) vs)) < 2 ^ 32" "length (concat (map (\<lambda>v. le32 (h v)) vs)) < 2 ^ 32"
    "length (concat (map (\<lambda>v. le64 (g v)) vs)) < 2 ^ 32"
  using assms concat_bound [of "\<lambda>v. vlq (unat (g v))" 10 vs, OF length_vlq_u64]
    concat_bound [of "\<lambda>v. le32 (h v)" 4 vs] concat_bound [of "\<lambda>v. le64 (g v)" 8 vs]
  by (simp_all add: length_le)

lemma ltypes: "PB_LTYPE_BOOL \<noteq> PB_LTYPE_FIXED32" "PB_LTYPE_BOOL \<noteq> PB_LTYPE_FIXED64"
  "PB_LTYPE_UVARINT \<noteq> PB_LTYPE_FIXED32" "PB_LTYPE_UVARINT \<noteq> PB_LTYPE_FIXED64"
  "PB_LTYPE_VARINT \<noteq> PB_LTYPE_FIXED32" "PB_LTYPE_VARINT \<noteq> PB_LTYPE_FIXED64"
  "PB_LTYPE_SVARINT \<noteq> PB_LTYPE_FIXED32" "PB_LTYPE_SVARINT \<noteq> PB_LTYPE_FIXED64"
  "PB_LTYPE_FIXED32 \<noteq> PB_LTYPE_FIXED64" "PB_LTYPE_FIXED64 \<noteq> PB_LTYPE_FIXED32"
  by (simp_all add: PB_LTYPE_BOOL_def PB_LTYPE_VARINT_def PB_LTYPE_UVARINT_def PB_LTYPE_SVARINT_def
      PB_LTYPE_FIXED32_def PB_LTYPE_FIXED64_def)

text \<open>C16: A packed array of numbers written with its tag is read back as it was, whatever follows: for each
  kind of number, \<open>encode_array\<close> succeeds exactly when the whole fits the buffer, the size it writes in
  front (computed, or counted by a first pass over a sizing stream) is that of the data, and the loop of
  \<open>decode_static_field\<close> stores every entry and closes the substream behind the last.\<close>

theorem pb_packed_arrays_roundtrip:
  assumes "0 < unat (fld_tag f)" "unat (fld_tag f) < 2 ^ 29" "vs \<noteq> []" "length vs \<le> fld_array_size f" "length vs < 2 ^ 28"
    "bs \<noteq> []" "length bs \<le> fld_array_size f" "length bs < 2 ^ 28"
  shows "(PB_LTYPE (fld_type f) = PB_LTYPE_BOOL \<longrightarrow> packed_reads_back f pb_enc_bool pb_dec_bool bs bs) \<and>
    (PB_LTYPE (fld_type f) = PB_LTYPE_UVARINT \<longrightarrow> fld_data_size f \<in> {1, 2, 4, 8} \<longrightarrow>
      packed_reads_back f (pb_enc_uvarint f) (pb_dec_uvarint f) vs (map (unsigned_field f) vs)) \<and>
    (PB_LTYPE (fld_type f) = PB_LTYPE_VARINT \<longrightarrow> fld_data_size f \<in> {1, 2, 4, 8} \<longrightarrow>
      packed_reads_back f (pb_enc_varint f) (pb_dec_varint f) vs (map (signed_field f) vs)) \<and>
    (PB_LTYPE (fld_type f) = PB_LTYPE_SVARINT \<longrightarrow> fld_data_size f \<in> {1, 2, 4, 8} \<longrightarrow>
      packed_reads_back f (pb_enc_svarint f) (pb_dec_svarint f) vs (map (signed_field f) vs)) \<and>
    (PB_LTYPE (fld_type f) = PB_LTYPE_FIXED32 \<longrightarrow>
      packed_reads_back f pb_encode_fixed32 pb_decode_fixed32 (map ucast vs) (map ucast vs)) \<and>
    (PB_LTYPE (fld_type f) = PB_LTYPE_FIXED64 \<longrightarrow> packed_reads_back f pb_encode_fixed64 pb_decode_fixed64 vs vs)"
proof (intro conjI impI)
  note tag = assms(1,2) and bound = packed_bounds(1) [OF assms(5)] packed_bounds(1) [OF assms(8)]
  show "packed_reads_back f pb_enc_bool pb_dec_bool bs bs" if "PB_LTYPE (fld_type f) = PB_LTYPE_BOOL"
    using enc_bool.packed_reads_backI [of f bs] that tag assms(6,7) bound by (simp add: ltypes)
  show "packed_reads_back f (pb_enc_uvarint f) (pb_dec_uvarint f) vs (map (unsigned_field f) vs)"
    if "PB_LTYPE (fld_type f) = PB_LTYPE_UVARINT" "int_field f"
    by (rule uvarint_field.packed_reads_backI) (use that tag assms(3,4) bound in \<open>simp_all only: ltypes HOL.simp_thms Ball_def\<close>)
  show "packed_reads_back f (pb_enc_varint f) (pb_dec_varint f) vs (map (signed_field f) vs)"
    if "PB_LTYPE (fld_type f) = PB_LTYPE_VARINT" "int_field f"
    by (rule varint_field.packed_reads_backI) (use that tag assms(3,4) bound in \<open>simp_all only: ltypes HOL.simp_thms Ball_def\<close>)
  show "packed_reads_back f (pb_enc_svarint f) (pb_dec_svarint f) vs (map (signed_field f) vs)"
    if "PB_LTYPE (fld_type f) = PB_LTYPE_SVARINT" "int_field f"
    by (rule svarint_field.packed_reads_backI) (use that tag assms(3,4) bound in \<open>simp_all only: ltypes HOL.simp_thms Ball_def\<close>)
  show "packed_reads_back f pb_encode_fixed32 pb_decode_fixed32 (map ucast vs) (map ucast vs)"
    if "PB_LTYPE (fld_type f) = PB_LTYPE_FIXED32"
    using fixed32.packed_reads_backI [of f "map ucast vs"] that tag assms(3,4) packed_bounds(2) [OF assms(5), of ucast]
    by (simp add: ltypes length_le o_def)
  show "packed_reads_back f pb_encode_fixed64 pb_decode_fixed64 vs vs" if "PB_LTYPE (fld_type f) = PB_LTYPE_FIXED64"
    using fixed64.packed_reads_backI [of f vs] that tag assms(3,4) packed_bounds(3) [OF assms(5), of "\<lambda>v. v"]
    by (simp add: ltypes length_le)
qed

theorem pb_packed_arrays_roundtrip_witness:
  "packed_reads_back \<lparr>fld_tag = 7, fld_type = 3, fld_data_size = 4, fld_array_size = 10\<rparr>
     (pb_enc_svarint \<lparr>fld_tag = 7, fld_type = 3, fld_data_size = 4, fld_array_size = 10\<rparr>)
     (pb_dec_svarint \<lparr>fld_tag = 7, fld_type = 3, fld_data_size = 4, fld_array_size = 10\<rparr>) [1, - 2, 300] [1, - 2, 300]"
proof -
  let ?f = "\<lparr>fld_tag = 7, fld_type = 3, fld_data_size = 4, fld_array_size = 10\<rparr>"
  have "PB_LTYPE (fld_type ?f) = PB_LTYPE_SVARINT" by code_simp
  then have "packed_reads_back ?f (pb_enc_svarint ?f) (pb_dec_svarint ?f) [1, - 2, 300] (map (signed_field ?f) [1, - 2, 300])"
    using pb_packed_arrays_roundtrip [of ?f "[1, - 2, 300]" "[True]"] by simp
  moreover have "map (signed_field ?f) [1, - 2, 300] = [1, - 2, 300]" by code_simp
  ultimately show ?thesis by simp
qed

end
