(* ===== verification/MbString.thy ===== *)
theory MbString
  imports Unicode
begin

text \<open>
  The string conversions of \<open>crypto/asn1/a_mbstr.c\<close> on the character encodings of
  \<open>unicode.c\<close>, with the \<open>ASN1_STRING\<close> helpers of \<open>crypto/asn1/asn1_lib.c\<close> they call and
  \<open>ASN1_STRING_to_UTF8\<close> of \<open>crypto/asn1/a_strex.c\<close>.  The input is scanned once to find the
  smallest string type that can hold every character, and then converted character by character
  through a \<open>CBB\<close>.  Lengths are C ints, so that the sums of \<open>size_t\<close> do not wrap.
\<close>

section \<open>Strings\<close>

text \<open>\<open>as_data\<close> is the allocated block, which may be longer than \<open>as_length\<close>; its
  uninitialised end is not part of the list.\<close>

record asn1_string =
  as_length :: int
  as_type :: int
  as_data :: "bytes option"
  as_flags :: int

text \<open>A pointer to memory as the list of the bytes from there on; NULL has none.\<close>

definition mem :: "bytes option \<Rightarrow> bytes" where
  "mem p = (case p of None \<Rightarrow> [] | Some b \<Rightarrow> b)"

definition as_contents :: "asn1_string \<Rightarrow> bytes" where
  "as_contents a = take (nat (as_length a)) (mem (as_data a))"

definition strlen :: "bytes \<Rightarrow> nat" where
  "strlen b = length (takeWhile (\<lambda>c. c \<noteq> 0) b)"

abbreviation (input) sizeof_ASN1_STRING :: nat where "sizeof_ASN1_STRING \<equiv> 24"

definition ASN1_STRING_type_new :: "allocator \<Rightarrow> int \<Rightarrow> asn1_string option" where
  "ASN1_STRING_type_new al type =
     (if \<not> OPENSSL_malloc al sizeof_ASN1_STRING then None
      else Some \<lparr>as_length = 0, as_type = type, as_data = None, as_flags = 0\<rparr>)"

definition ASN1_STRING_set :: "allocator \<Rightarrow> asn1_string \<Rightarrow> bytes option \<Rightarrow> int \<Rightarrow> bool \<times> asn1_string" where
  "ASN1_STRING_set al str data len =
     (if len < 0 \<and> data = None then (False, str)
      else let len = (if len < 0 then int (strlen (mem data)) else len);
               block = (if as_length str \<le> len \<or> as_data str = None
                        then OPENSSL_realloc al (as_data str) (nat len + 1) else as_data str)
           in case block of
                None \<Rightarrow> (False, str)
              | Some b \<Rightarrow>
                  (True, str\<lparr>as_length := len,
                             as_data := Some (case data of
                                                None \<Rightarrow> b
                                              | Some d \<Rightarrow> copy_at b 0 (take (nat len) d @ [0]))\<rparr>))"

section \<open>Choosing a string type\<close>

abbreviation (input) MBSTRING_UTF8 :: int where "MBSTRING_UTF8 \<equiv> 0x1000"
abbreviation (input) MBSTRING_ASC :: int where "MBSTRING_ASC \<equiv> 0x1001"
abbreviation (input) MBSTRING_BMP :: int where "MBSTRING_BMP \<equiv> 0x1002"
abbreviation (input) MBSTRING_UNIV :: int where "MBSTRING_UNIV \<equiv> 0x1004"

abbreviation (input) V_ASN1_UTF8STRING :: int where "V_ASN1_UTF8STRING \<equiv> 12"
abbreviation (input) V_ASN1_PRINTABLESTRING :: int where "V_ASN1_PRINTABLESTRING \<equiv> 19"
abbreviation (input) V_ASN1_T61STRING :: int where "V_ASN1_T61STRING \<equiv> 20"
abbreviation (input) V_ASN1_IA5STRING :: int where "V_ASN1_IA5STRING \<equiv> 22"
abbreviation (input) V_ASN1_UNIVERSALSTRING :: int where "V_ASN1_UNIVERSALSTRING \<equiv> 28"
abbreviation (input) V_ASN1_BMPSTRING :: int where "V_ASN1_BMPSTRING \<equiv> 30"

abbreviation (input) B_ASN1_PRINTABLESTRING :: u64 where "B_ASN1_PRINTABLESTRING \<equiv> 0x0002"
abbreviation (input) B_ASN1_T61STRING :: u64 where "B_ASN1_T61STRING \<equiv> 0x0004"
abbreviation (input) B_ASN1_IA5STRING :: u64 where "B_ASN1_IA5STRING \<equiv> 0x0010"
abbreviation (input) B_ASN1_UNIVERSALSTRING :: u64 where "B_ASN1_UNIVERSALSTRING \<equiv> 0x0100"
abbreviation (input) B_ASN1_BMPSTRING :: u64 where "B_ASN1_BMPSTRING \<equiv> 0x0800"
abbreviation (input) B_ASN1_UTF8STRING :: u64 where "B_ASN1_UTF8STRING \<equiv> 0x2000"

definition DIRSTRING_TYPE :: u64 where
  "DIRSTRING_TYPE = B_ASN1_PRINTABLESTRING OR B_ASN1_T61STRING OR B_ASN1_BMPSTRING OR B_ASN1_UTF8STRING"

definition asn1_is_printable :: "u32 \<Rightarrow> bool" where
  "asn1_is_printable value \<longleftrightarrow>
     (if value > 0x7f then False
      else (97 \<le> value \<and> value \<le> 122) \<or> (65 \<le> value \<and> value \<le> 90) \<or> (48 \<le> value \<and> value \<le> 57) \<or>
           value = 32 \<or> value = 39 \<or> value = 40 \<or> value = 41 \<or> value = 43 \<or> value = 44 \<or> value = 45 \<or>
           value = 46 \<or> value = 47 \<or> value = 58 \<or> value = 61 \<or> value = 63)"

text \<open>The switch on \<open>inform\<close>.\<close>

definition mbstring_decoder :: "int \<Rightarrow> (cbs, u32) op option" where
  "mbstring_decoder inform =
     (if inform = MBSTRING_BMP then Some cbs_get_ucs2_be
      else if inform = MBSTRING_UNIV then Some cbs_get_utf32_be
      else if inform = MBSTRING_UTF8 then Some cbs_get_utf8
      else if inform = MBSTRING_ASC then Some cbs_get_latin1
      else None)"

text \<open>Which output types are still possible after the character \<open>c\<close>.\<close>

definition mbstring_narrow :: "u32 \<Rightarrow> u64 \<Rightarrow> u64" where
  "mbstring_narrow c msk =
     (let m1 = (if msk AND B_ASN1_PRINTABLESTRING \<noteq> 0 \<and> \<not> asn1_is_printable c
                then msk AND NOT B_ASN1_PRINTABLESTRING else msk);
          m2 = (if m1 AND B_ASN1_IA5STRING \<noteq> 0 \<and> c > 127 then m1 AND NOT B_ASN1_IA5STRING else m1);
          m3 = (if m2 AND B_ASN1_T61STRING \<noteq> 0 \<and> c > 0xff then m2 AND NOT B_ASN1_T61STRING else m2)
      in if m3 AND B_ASN1_BMPSTRING \<noteq> 0 \<and> c > 0xffff then m3 AND NOT B_ASN1_BMPSTRING else m3)"

text \<open>The scanning loop returns \<open>nchar\<close>, \<open>utf8_len\<close> and \<open>mask\<close>, or \<open>None\<close> for its error
  exits.  The fuel is the number of bytes left, which every read decreases.\<close>

fun mbstring_scan_loop ::
  "nat \<Rightarrow> (cbs, u32) op \<Rightarrow> bool \<Rightarrow> cbs \<Rightarrow> nat \<Rightarrow> nat \<Rightarrow> u64 \<Rightarrow> (nat \<times> nat \<times> u64) option" where
  "mbstring_scan_loop n decode wide s nchar utf8_len msk =
     (if CBS_len s = 0 then Some (nchar, utf8_len, msk)
      else case n of
             0 \<Rightarrow> None
           | Suc m \<Rightarrow>
               (case decode s of
                  (None, _) \<Rightarrow> None
                | (Some c, s') \<Rightarrow>
                    if nchar = 0 \<and> wide \<and> c = 0xfeff then None
                    else let msk' = mbstring_narrow c msk
                         in if msk' = 0 then None
                            else mbstring_scan_loop m decode wide s' (nchar + 1)
                                   (utf8_len + cbb_get_utf8_len c) msk'))"

declare mbstring_scan_loop.simps [simp del]

text \<open>The type, its format and writer, and the estimate of the size.\<close>

definition mbstring_choose ::
  "u64 \<Rightarrow> nat \<Rightarrow> nat \<Rightarrow> (int \<times> int \<times> (u32 \<Rightarrow> nat \<Rightarrow> cbb_op) \<times> nat) option" where
  "mbstring_choose msk nchar utf8_len =
     (if msk AND B_ASN1_PRINTABLESTRING \<noteq> 0
      then Some (V_ASN1_PRINTABLESTRING, MBSTRING_ASC, cbb_add_latin1, nchar)
      else if msk AND B_ASN1_IA5STRING \<noteq> 0 then Some (V_ASN1_IA5STRING, MBSTRING_ASC, cbb_add_latin1, nchar)
      else if msk AND B_ASN1_T61STRING \<noteq> 0 then Some (V_ASN1_T61STRING, MBSTRING_ASC, cbb_add_latin1, nchar)
      else if msk AND B_ASN1_BMPSTRING \<noteq> 0
      then Some (V_ASN1_BMPSTRING, MBSTRING_BMP, cbb_add_ucs2_be, 2 * nchar)
      else if msk AND B_ASN1_UNIVERSALSTRING \<noteq> 0
      then Some (V_ASN1_UNIVERSALSTRING, MBSTRING_UNIV, cbb_add_utf32_be, 4 * nchar)
      else if msk AND B_ASN1_UTF8STRING \<noteq> 0
      then Some (V_ASN1_UTF8STRING, MBSTRING_UTF8, cbb_add_utf8, utf8_len)
      else None)"

section \<open>Conversion\<close>

fun mbstring_convert_loop ::
  "nat \<Rightarrow> (cbs, u32) op \<Rightarrow> (u32 \<Rightarrow> nat \<Rightarrow> cbb_op) \<Rightarrow> cbs \<Rightarrow> cbb_op" where
  "mbstring_convert_loop n decode encode s cbb =
     (if CBS_len s = 0 then (True, cbb)
      else case n of
             0 \<Rightarrow> (False, cbb)
           | Suc m \<Rightarrow>
               (case decode s of
                  (None, _) \<Rightarrow> (False, cbb)
                | (Some c, s') \<Rightarrow>
                    (case encode c 0 cbb of
                       (False, cbb') \<Rightarrow> (False, cbb')
                     | (True, cbb') \<Rightarrow> mbstring_convert_loop m decode encode s' cbb')))"

declare mbstring_convert_loop.simps [simp del]

text \<open>What \<open>*out\<close> points to: nothing, a string, or a string that has been freed.\<close>

datatype string_ptr = NoString | String asn1_string | Freed

abbreviation (input) INT_MAX :: nat where "INT_MAX \<equiv> 0x7fffffff"

text \<open>From \<open>CBB_init\<close> to the end: the bytes with their terminating NUL, or \<open>None\<close> for \<open>goto err\<close>.\<close>

definition mbstring_convert ::
  "allocator \<Rightarrow> (cbs, u32) op \<Rightarrow> (u32 \<Rightarrow> nat \<Rightarrow> cbb_op) \<Rightarrow> nat \<Rightarrow> cbs \<Rightarrow> bytes option" where
  "mbstring_convert al decode encode size_estimate s =
     (case CBB_init al (size_estimate + 1) of
        (False, _) \<Rightarrow> None
      | (True, cbb) \<Rightarrow>
          (case mbstring_convert_loop (length s) decode encode s cbb of
             (False, _) \<Rightarrow> None
           | (True, cbb) \<Rightarrow>
               (case CBB_add_u8 0 0 cbb of
                  (False, _) \<Rightarrow> None
                | (True, cbb) \<Rightarrow>
                    (case CBB_finish True 0 cbb of
                       (None, _) \<Rightarrow> None
                     | (Some data, _) \<Rightarrow>
                         if length data < 1 \<or> length data > INT_MAX then None else Some data))))"

text \<open>The end of \<open>ASN1_mbstring_ncopy\<close>, once the type \<open>str_type\<close> is chosen: \<open>ptr\<close> is
  \<open>*out\<close>, which is given back as it is left behind.\<close>

definition mbstring_store ::
  "allocator \<Rightarrow> string_ptr \<Rightarrow> bytes option \<Rightarrow> int \<Rightarrow> int \<Rightarrow> (cbs, u32) op \<Rightarrow>
   int \<times> int \<times> (u32 \<Rightarrow> nat \<Rightarrow> cbb_op) \<times> nat \<Rightarrow> int \<times> string_ptr" where
  "mbstring_store al ptr inp len inform decode choice =
     (case choice of (str_type, outform, encode, size_estimate) \<Rightarrow>
        (case (case ptr of
                 String d \<Rightarrow>
                   Some (False, (if as_data d \<noteq> None then d\<lparr>as_length := 0, as_data := None\<rparr> else d)\<lparr>as_type := str_type\<rparr>)
               | _ \<Rightarrow> map_option (Pair True) (ASN1_STRING_type_new al str_type)) of
           None \<Rightarrow> (-1, ptr)
         | Some (free_out, dest) \<Rightarrow>
             if inform = outform
             then (case ASN1_STRING_set al dest inp len of
                     (False, dest) \<Rightarrow> (-1, String dest)
                   | (True, dest) \<Rightarrow> (str_type, String dest))
             else
               (case mbstring_convert al decode encode size_estimate (CBS_init (mem inp) (nat len)) of
                  None \<Rightarrow> (-1, if free_out then Freed else String dest)
                | Some data \<Rightarrow>
                    (str_type, String (dest\<lparr>as_length := int (length data) - 1, as_data := Some data\<rparr>)))))"

text \<open>\<open>out = None\<close> is a NULL out parameter.  The second result is what \<open>*out\<close> points to
  afterwards.\<close>

definition ASN1_mbstring_ncopy ::
  "allocator \<Rightarrow> string_ptr option \<Rightarrow> bytes option \<Rightarrow> int \<Rightarrow> int \<Rightarrow> u64 \<Rightarrow> int \<Rightarrow> int \<Rightarrow> int \<times> string_ptr option" where
  "ASN1_mbstring_ncopy al out inp len inform msk minsize maxsize =
     (let len = (if len = -1 then int (strlen (mem inp)) else len);
          msk = (if msk = 0 then DIRSTRING_TYPE else msk);
          s = CBS_init (mem inp) (nat len)
      in case mbstring_decoder inform of
           None \<Rightarrow> (-1, out)
         | Some decode \<Rightarrow>
             (case mbstring_scan_loop (length s) decode (inform = MBSTRING_BMP \<or> inform = MBSTRING_UNIV) s 0 0 msk of
                None \<Rightarrow> (-1, out)
              | Some (nchar, utf8_len, msk) \<Rightarrow>
                  if minsize > 0 \<and> int nchar < minsize then (-1, out)
                  else if maxsize > 0 \<and> int nchar > maxsize then (-1, out)
                  else
                    (case mbstring_choose msk nchar utf8_len of
                       None \<Rightarrow> (-1, out)
                     | Some choice \<Rightarrow>
                         (case out of
                            None \<Rightarrow> (fst choice, None)
                          | Some ptr \<Rightarrow> map_prod id Some (mbstring_store al ptr inp len inform decode choice)))))"

definition ASN1_mbstring_copy ::
  "allocator \<Rightarrow> string_ptr option \<Rightarrow> bytes option \<Rightarrow> int \<Rightarrow> int \<Rightarrow> u64 \<Rightarrow> int \<times> string_ptr option" where
  "ASN1_mbstring_copy al out inp len inform msk = ASN1_mbstring_ncopy al out inp len inform msk 0 0"

definition tag2nbyte :: "int list" where
  "tag2nbyte =
     [-1, -1, -1, -1, -1,  -1, -1, -1, -1, -1,  -1, -1, 0, -1,  -1, -1, -1, -1,  1, 1, 1,
      -1, 1, 1, 1,  -1, 1, -1,  4, -1, 2]"

abbreviation (input) MBSTRING_FLAG :: int where "MBSTRING_FLAG \<equiv> 0x1000"

text \<open>The result and what is stored through \<open>out\<close> when it is not negative.\<close>

definition ASN1_STRING_to_UTF8 :: "allocator \<Rightarrow> asn1_string option \<Rightarrow> int \<times> bytes option" where
  "ASN1_STRING_to_UTF8 al inp =
     (case inp of
        None \<Rightarrow> (-1, None)
      | Some a \<Rightarrow>
          let type = as_type a
          in if type < 0 \<or> type > 30 then (-1, None)
             else if tag2nbyte ! nat type = -1 then (-1, None)
             else let mbflag = tag2nbyte ! nat type OR MBSTRING_FLAG;
                      stmp = \<lparr>as_length = 0, as_type = 0, as_data = None, as_flags = 0\<rparr>
                  in case ASN1_mbstring_copy al (Some (String stmp)) (as_data a) (as_length a) mbflag B_ASN1_UTF8STRING of
                       (ret, out) \<Rightarrow>
                         if ret < 0 then (ret, None)
                         else (case out of
                                 Some (String stmp) \<Rightarrow> (as_length stmp, as_data stmp)
                               | _ \<Rightarrow> (ret, None)))"

section \<open>Scanning and converting\<close>

text \<open>The reference: the characters of the input, and the first string type, in the order of
  preference, that the mask allows and every character fits.\<close>

definition form_enc :: "int \<Rightarrow> u32 \<Rightarrow> bytes option" where
  "form_enc form =
     (if form = MBSTRING_BMP then ucs2_enc else if form = MBSTRING_UNIV then utf32_enc
      else if form = MBSTRING_UTF8 then utf8_enc else latin1_enc)"

definition string_types :: "(int \<times> nat \<times> int \<times> (u32 \<Rightarrow> bool)) list" where
  "string_types =
     [(V_ASN1_PRINTABLESTRING, 1, MBSTRING_ASC, asn1_is_printable),
      (V_ASN1_IA5STRING, 4, MBSTRING_ASC, \<lambda>c. c \<le> 127),
      (V_ASN1_T61STRING, 2, MBSTRING_ASC, \<lambda>c. c \<le> 0xff),
      (V_ASN1_BMPSTRING, 11, MBSTRING_BMP, \<lambda>c. c \<le> 0xffff),
      (V_ASN1_UNIVERSALSTRING, 8, MBSTRING_UNIV, \<lambda>_. True),
      (V_ASN1_UTF8STRING, 13, MBSTRING_UTF8, \<lambda>_. True)]"

definition smallest_type :: "u64 \<Rightarrow> u32 list \<Rightarrow> (int \<times> nat \<times> int \<times> (u32 \<Rightarrow> bool)) option" where
  "smallest_type msk us = find (\<lambda>(t, b, f, P). bit msk b \<and> list_all P us) string_types"

definition mbstring_reads :: "int \<Rightarrow> int \<Rightarrow> int \<Rightarrow> bytes \<Rightarrow> u32 list \<Rightarrow> bool" where
  "mbstring_reads inform minsize maxsize s us \<longleftrightarrow>
     encode_all (form_enc inform) us = Some s \<and>
     \<not> (inform \<in> {MBSTRING_BMP, MBSTRING_UNIV} \<and> us \<noteq> [] \<and> hd us = 0xfeff) \<and>
     (0 < minsize \<longrightarrow> minsize \<le> int (length us)) \<and> (0 < maxsize \<longrightarrow> int (length us) \<le> maxsize)"

lemma flag_bits:
  "m AND B_ASN1_PRINTABLESTRING \<noteq> 0 \<longleftrightarrow> bit m 1" "m AND B_ASN1_IA5STRING \<noteq> 0 \<longleftrightarrow> bit m 4"
  "m AND B_ASN1_T61STRING \<noteq> 0 \<longleftrightarrow> bit m 2" "m AND B_ASN1_BMPSTRING \<noteq> 0 \<longleftrightarrow> bit m 11"
  "m AND B_ASN1_UNIVERSALSTRING \<noteq> 0 \<longleftrightarrow> bit m 8" "m AND B_ASN1_UTF8STRING \<noteq> 0 \<longleftrightarrow> bit (m :: u64) 13"
  using and_exp_eq_0_iff_not_bit [of m 1] and_exp_eq_0_iff_not_bit [of m 4] and_exp_eq_0_iff_not_bit [of m 2]
    and_exp_eq_0_iff_not_bit [of m 11] and_exp_eq_0_iff_not_bit [of m 8] and_exp_eq_0_iff_not_bit [of m 13]
  by simp_all

lemma clear_bits:
  "bit (m AND NOT B_ASN1_PRINTABLESTRING) i \<longleftrightarrow> bit (m :: u64) i \<and> i \<noteq> 1"
  "bit (m AND NOT B_ASN1_IA5STRING) i \<longleftrightarrow> bit m i \<and> i \<noteq> 4"
  "bit (m AND NOT B_ASN1_T61STRING) i \<longleftrightarrow> bit m i \<and> i \<noteq> 2"
  "bit (m AND NOT B_ASN1_BMPSTRING) i \<longleftrightarrow> bit m i \<and> i \<noteq> 11"
proof -
  have "bit (m AND NOT (2 ^ k)) i \<longleftrightarrow> bit m i \<and> i \<noteq> k" for k
    by (auto simp: bit_simps dest: bit_imp_le_length)
  from this [of 1] this [of 4] this [of 2] this [of 11] show
    "bit (m AND NOT B_ASN1_PRINTABLESTRING) i \<longleftrightarrow> bit (m :: u64) i \<and> i \<noteq> 1"
    "bit (m AND NOT B_ASN1_IA5STRING) i \<longleftrightarrow> bit m i \<and> i \<noteq> 4"
    "bit (m AND NOT B_ASN1_T61STRING) i \<longleftrightarrow> bit m i \<and> i \<noteq> 2"
    "bit (m AND NOT B_ASN1_BMPSTRING) i \<longleftrightarrow> bit m i \<and> i \<noteq> 11" by simp_all
qed

lemma bit_narrow_step:
  "(\<And>j. bit m' j \<longleftrightarrow> bit (m :: u64) j \<and> j \<noteq> k) \<Longrightarrow> bit (if bit m k \<and> P then m' else m) i \<longleftrightarrow> bit m i \<and> (i = k \<longrightarrow> \<not> P)"
  by auto

lemma bit_narrow:
  "bit (mbstring_narrow c m) i \<longleftrightarrow>
     (((bit m i \<and> (i = 1 \<longrightarrow> \<not> \<not> asn1_is_printable c)) \<and> (i = 4 \<longrightarrow> \<not> c > 127)) \<and> (i = 2 \<longrightarrow> \<not> c > 0xff)) \<and>
     (i = 11 \<longrightarrow> \<not> c > 0xffff)"
  unfolding mbstring_narrow_def Let_def flag_bits
  by (subst bit_narrow_step [OF clear_bits(4)], subst bit_narrow_step [OF clear_bits(3)],
      subst bit_narrow_step [OF clear_bits(2)], subst bit_narrow_step [OF clear_bits(1)]) (rule refl)

lemma bit_fold_narrow:
  "bit (fold mbstring_narrow us m) i \<longleftrightarrow>
     bit m i \<and> (i = 1 \<longrightarrow> list_all asn1_is_printable us) \<and> (i = 4 \<longrightarrow> list_all (\<lambda>c. c \<le> 127) us) \<and>
     (i = 2 \<longrightarrow> list_all (\<lambda>c. c \<le> 0xff) us) \<and> (i = 11 \<longrightarrow> list_all (\<lambda>c. c \<le> 0xffff) us)"
  by (induction us arbitrary: m) (auto simp: bit_narrow not_less)

definition form_add :: "int \<Rightarrow> u32 \<Rightarrow> nat \<Rightarrow> cbb_op" where
  "form_add form =
     (if form = MBSTRING_BMP then cbb_add_ucs2_be else if form = MBSTRING_UNIV then cbb_add_utf32_be
      else if form = MBSTRING_UTF8 then cbb_add_utf8 else cbb_add_latin1)"

lemma mbstring_choose_smallest:
  "case smallest_type m us of
     None \<Rightarrow> mbstring_choose (fold mbstring_narrow us m) k u = None
   | Some (t, b, f, P) \<Rightarrow>
       \<exists>est. mbstring_choose (fold mbstring_narrow us m) k u = Some (t, f, form_add f, est) \<and> est \<le> max (4 * k) u"
  unfolding smallest_type_def mbstring_choose_def flag_bits bit_fold_narrow
  unfolding string_types_def find.simps
  by (auto simp: form_add_def list_all_iff simp del: bit_0 split del: if_split split: if_split_asm if_split)

lemma mbstring_scan:
  "mbstring_scan_loop n dec wide s k u m =
     (case decode_all dec n s of
        None \<Rightarrow> None
      | Some us \<Rightarrow>
          if k = 0 \<and> wide \<and> us \<noteq> [] \<and> hd us = 0xfeff \<or> us \<noteq> [] \<and> fold mbstring_narrow us m = 0 then None
          else Some (k + length us, u + sum_list (map cbb_get_utf8_len us), fold mbstring_narrow us m))"
proof (induction n arbitrary: s k u m)
  case 0
  then show ?case
    by (simp add: mbstring_scan_loop.simps [of 0] decode_all.simps [of _ 0] CBS_len_def)
next
  case (Suc n)
  have fold0: "fold mbstring_narrow us 0 = 0" for us
    by (rule bit_word_eqI) (simp add: bit_fold_narrow)
  show ?case
  proof (cases "dec s")
    case (Pair r s')
    then show ?thesis
      by (cases r; cases "decode_all dec n s'")
        (auto simp: mbstring_scan_loop.simps [of "Suc n"] decode_all.simps [of _ "Suc n"] CBS_len_def Suc.IH Let_def fold0)
  qed
qed

lemma mbstring_convert_seq:
  "decode_all dec n s = Some us \<Longrightarrow>
   mbstring_convert_loop n dec add s cbb = cbb_seq (map (\<lambda>c. add c 0) us) cbb"
proof (induction n arbitrary: s us cbb)
  case 0
  then show ?case
    by (auto simp: mbstring_convert_loop.simps [of 0] decode_all.simps [of _ 0] CBS_len_def split: if_splits)
next
  case (Suc n)
  show ?case
  proof (cases "s = []")
    case True
    with Suc.prems show ?thesis by (simp add: mbstring_convert_loop.simps [of "Suc n"] CBS_len_def)
  next
    case False
    with Suc.prems obtain c s' vs where "dec s = (Some c, s')" "decode_all dec n s' = Some vs" "us = c # vs"
      by (auto simp: decode_all.simps [of _ "Suc n"] split: prod.splits option.splits)
    with False Suc.IH show ?thesis
      by (auto simp: mbstring_convert_loop.simps [of "Suc n"] CBS_len_def split: prod.split bool.split)
  qed
qed

text \<open>Each format is read and written by the functions chosen for it.\<close>

lemma form_reads:
  assumes "mbstring_decoder form = Some dec"
  shows "decode_all dec (length s) s = Some us \<longleftrightarrow> encode_all (form_enc form) us = Some s"
  using assms utf8.decode_all_iff latin1.decode_all_iff ucs2.decode_all_iff utf32.decode_all_iff
  by (auto simp: mbstring_decoder_def form_enc_def split: if_splits)

interpretation form: char_writer "form_enc form" "form_add form" for form
  using latin1.char_writer_axioms ucs2.char_writer_axioms utf32.char_writer_axioms utf8.char_writer_axioms
  by (simp add: form_enc_def form_add_def)

lemma encode_all_Some_iff: "encode_all enc us \<noteq> None \<longleftrightarrow> (\<forall>u \<in> set us. enc u \<noteq> None)"
  by (induction us) (auto split: option.splits)

lemma form_valid: "form_enc form u = Some e \<Longrightarrow> is_valid_code_point u"
  by (auto simp: form_enc_def ucs2_enc_def utf32_enc_def utf8_enc_def latin1_enc_def valid_code_points
      word_le_nat_alt split: if_splits)

lemma smallest_type_encodes:
  assumes "smallest_type m us = Some (t, b, f, P)" "\<forall>u \<in> set us. is_valid_code_point u"
  shows "encode_all (form_enc f) us \<noteq> None"
proof -
  have *: "(t, b, f, P) \<in> set string_types" "list_all P us"
    using assms(1) by (auto simp: smallest_type_def find_Some_iff set_conv_nth)
  have "form_enc f u \<noteq> None" if "u \<in> set us" for u
    using * assms(2) that
    by (auto simp: string_types_def form_enc_def list_all_iff ucs2_enc_def utf32_enc_def utf8_enc_def
        latin1_enc_def asn1_is_printable_def word_le_nat_alt word_less_nat_alt)
  then show ?thesis by (simp only: encode_all_Some_iff) blast
qed


text \<open>Writing the characters and the terminating NUL into a fresh builder.\<close>

lemma convert_produces:
  assumes "encode_all (form_enc f) us = Some e" "holds [(Fixed 0, [])] st"
  shows "produces (cbb_seq [cbb_seq (map (\<lambda>c. form_add f c 0) us), CBB_add_u8 0 0]) st (length (e @ [0]))
    [(Fixed 0, e @ [0])]"
proof (rule produces_seq)
  show "produces (cbb_seq (map (\<lambda>c. form_add f c 0) us)) st (length (e @ [0])) [(Fixed 0, e)]"
    using form.add_all_chars [OF assms(1), of "[]" "Fixed 0" "[]" st "length (e @ [0])" 0] assms(2) by simp
  fix st' assume "holds [(Fixed 0, e)] st'"
  then show "produces (cbb_seq [CBB_add_u8 0 0]) st' (length (e @ [0])) [(Fixed 0, e @ [0])]"
    using CBB_add_u8_produces [of "[]" "Fixed 0" e "[]" st' "[]" 0 "length (e @ [0])" 0]
    by (intro produces_seq1) simp
qed

lemma mbstring_convert_eq:
  assumes "decode_all dec (length s) s = Some us"
  shows "mbstring_convert al dec add est s =
    (case CBB_init al (est + 1) of
       (False, _) \<Rightarrow> None
     | (True, st) \<Rightarrow>
         (case cbb_seq [cbb_seq (map (\<lambda>c. add c 0) us), CBB_add_u8 0 0] st of
            (False, _) \<Rightarrow> None
          | (True, st) \<Rightarrow>
              (case fst (CBB_finish True 0 st) of
                 None \<Rightarrow> None
               | Some data \<Rightarrow> if length data < 1 \<or> length data > INT_MAX then None else Some data)))"
  unfolding mbstring_convert_def mbstring_convert_seq [OF assms]
  by (auto split: prod.split bool.split option.split)

lemma mbstring_convert_Some:
  assumes dec: "decode_all dec (length s) s = Some us" and e: "encode_all (form_enc f) us = Some e"
    and size: "est + 1 < SIZE_MODULUS" and r: "mbstring_convert al dec (form_add f) est s = Some data"
  shows "data = e @ [0]"
proof -
  let ?f = "cbb_seq [cbb_seq (map (\<lambda>c. form_add f c 0) us), CBB_add_u8 0 0]"
  from r obtain st st' where st: "CBB_init al (est + 1) = (True, st)" "?f st = (True, st')"
    "fst (CBB_finish True 0 st') = Some data"
    by (auto simp: mbstring_convert_eq [OF dec] simp del: cbb_seq.simps split: prod.splits bool.splits option.splits if_splits)
  from convert_produces [OF e CBB_init_holds [OF st(1) size]] st(2)
  have h: "holds [(Fixed 0, e @ [0])] st'" by (simp add: produces_def del: cbb_seq.simps)
  from CBB_finish_Some [OF h, of "[]" True] st(3) show ?thesis by auto
qed

lemma mbstring_convert_total:
  assumes dec: "decode_all dec (length s) s = Some us" and e: "encode_all (form_enc f) us = Some e"
    and al: "\<forall>m < 2 ^ 63. al (m + 8)" and size: "est + 1 < 2 ^ 62" "length e < INT_MAX"
  shows "mbstring_convert al dec (form_add f) est s = Some (e @ [0])"
proof -
  have small: "length (e @ [0 :: byte]) < 2 ^ 62" using size(2) by simp
  obtain st st' where "CBB_init al (est + 1) = (True, st)"
    "cbb_seq [cbb_seq (map (\<lambda>c. form_add f c 0) us), CBB_add_u8 0 0] st = (True, st')"
    "fst (CBB_finish True 0 st') = Some (e @ [0])"
    using on_base_room [OF al size(1) small convert_produces [OF e]] by blast
  then show ?thesis using size(2) by (simp add: mbstring_convert_eq [OF dec] del: cbb_seq.simps)
qed

text \<open>No character takes more than four bytes.\<close>

lemma form_length: "form_enc f u = Some e \<Longrightarrow> length e \<le> 4"
  by (auto simp: utf8_nat.simps [of "unat u"] form_enc_def ucs2_enc_def utf32_enc_def utf8_enc_def latin1_enc_def split: if_splits)

lemma form_length_all: "encode_all (form_enc f) us = Some e \<Longrightarrow> length e \<le> 4 * length us"
  by (induction us arbitrary: e) (fastforce dest: form_length split: option.splits)+

lemma form_length_ge: "encode_all (form_enc f) us = Some e \<Longrightarrow> length us \<le> length e"
  using utf8.encode_all_length latin1.encode_all_length ucs2.encode_all_length utf32.encode_all_length
  by (auto simp: form_enc_def split: if_splits)

lemma utf8_len_sum: "sum_list (map cbb_get_utf8_len us) \<le> 4 * length us"
  by (induction us) (auto simp: cbb_get_utf8_len_def)


section \<open>What a call returns\<close>

text \<open>The scan and the choice of a type, against the reference.\<close>

lemma mbstring_scanned:
  assumes d: "mbstring_decoder inform = Some dec" and dir: "m = (if msk = 0 then DIRSTRING_TYPE else msk)"
    and len: "0 \<le> len" and s: "s = take (nat len) (mem inp)"
  shows "case decode_all dec (length s) s of
     None \<Rightarrow> ASN1_mbstring_ncopy al out inp len inform msk minsize maxsize = (-1, out)
   | Some us \<Rightarrow>
       (case smallest_type m us of
          None \<Rightarrow> ASN1_mbstring_ncopy al out inp len inform msk minsize maxsize = (-1, out)
        | Some (t, b, f, P) \<Rightarrow>
            \<exists>est \<le> 8 * length us. ASN1_mbstring_ncopy al out inp len inform msk minsize maxsize =
              (if \<not> mbstring_reads inform minsize maxsize s us then (-1, out)
               else case out of
                      None \<Rightarrow> (t, None)
                    | Some ptr \<Rightarrow> map_prod id Some (mbstring_store al ptr inp len inform dec (t, f, form_add f, est))))"
proof -
  have pos: "len \<noteq> -1" using len by simp
  note unf = ASN1_mbstring_ncopy_def Let_def if_not_P [OF pos] d option.case(2) mbstring_scan CBS_init_def
    s [symmetric] dir [symmetric] add_0
  show ?thesis
  proof (cases "decode_all dec (length s) s")
    case None
    then show ?thesis unfolding unf by simp
  next
    case us: (Some us)
    then have enc: "encode_all (form_enc inform) us = Some s" using form_reads [OF d] by simp
    let ?m = "fold mbstring_narrow us m" and ?u = "sum_list (map cbb_get_utf8_len us)"
    have zero: "?m = 0 \<Longrightarrow> mbstring_choose ?m (length us) ?u = None" by (simp add: mbstring_choose_def)
    show ?thesis
    proof (cases "smallest_type m us")
      case None
      then have "mbstring_choose ?m (length us) ?u = None"
        using mbstring_choose_smallest [where us = us and m = m and k = "length us" and u = ?u] by simp
      with us None show ?thesis unfolding unf by (auto split: option.split)
    next
      case (Some x)
      obtain t b f P where x: "x = (t, b, f, P)" by (metis prod_cases4)
      with Some obtain est where est: "mbstring_choose ?m (length us) ?u = Some (t, f, form_add f, est)"
          "est \<le> 4 * length us + ?u"
        using mbstring_choose_smallest [where us = us and m = m and k = "length us" and u = ?u] by auto
      then have "?m \<noteq> 0" "est \<le> 8 * length us" using zero utf8_len_sum [of us] by auto
      with us Some x est(1) enc show ?thesis unfolding unf
        by (auto simp: mbstring_reads_def intro!: exI [of _ est] split: option.split)
    qed
  qed
qed


lemma as_contents_set:
  "ASN1_STRING_set al d inp len = (True, a) \<Longrightarrow> 0 \<le> len \<Longrightarrow> nat len \<le> length (mem inp) \<Longrightarrow>
   as_type a = as_type d \<and> as_contents a = take (nat len) (mem inp)"
  by (cases inp) (auto simp: ASN1_STRING_set_def Let_def as_contents_def mem_def copy_at_def min_def
      split: if_splits option.splits)

lemma ASN1_STRING_set_total:
  assumes "\<forall>m < 2 ^ 63. al (m + 8)" "0 \<le> len" "nat len \<le> INT_MAX"
  shows "\<exists>a. ASN1_STRING_set al d inp len = (True, a)"
proof -
  have "OPENSSL_malloc al (nat len + 1)"
    using assms(1,3) spec [OF assms(1), of "nat len + 1"] by (simp add: OPENSSL_malloc_def)
  then show ?thesis using assms(2)
    by (auto simp: ASN1_STRING_set_def Let_def OPENSSL_realloc_def split: option.split)
qed

lemma mbstring_store_dest:
  "mbstring_store al ptr inp len inform dec (t, f, add, est) = (-1, ptr) \<or>
   (\<exists>free_out d. as_type d = t \<and> mbstring_store al ptr inp len inform dec (t, f, add, est) =
       (if inform = f
        then (case ASN1_STRING_set al d inp len of
                (False, dest) \<Rightarrow> (-1, String dest) | (True, dest) \<Rightarrow> (t, String dest))
        else (case mbstring_convert al dec add est (take (nat len) (mem inp)) of
                None \<Rightarrow> (-1, if free_out then Freed else String d)
              | Some data \<Rightarrow> (t, String (d\<lparr>as_length := int (length data) - 1, as_data := Some data\<rparr>)))))"
proof (cases ptr)
  case (String x)
  show ?thesis
    unfolding mbstring_store_def CBS_init_def String string_ptr.case prod.case option.case
    by (rule disjI2, intro exI [of _ False] exI [of _ "(if as_data x \<noteq> None then x\<lparr>as_length := 0, as_data := None\<rparr> else x)\<lparr>as_type := t\<rparr>"])
      simp
qed (cases "OPENSSL_malloc al sizeof_ASN1_STRING";
    auto simp: mbstring_store_def CBS_init_def ASN1_STRING_type_new_def
      intro!: exI [of _ True] exI [of _ "\<lparr>as_length = 0, as_type = t, as_data = None, as_flags = 0\<rparr>"])+

lemma mbstring_store_sound:
  assumes d: "mbstring_decoder inform = Some dec" and len: "0 \<le> len" "nat len \<le> length (mem inp)"
    and us: "encode_all (form_enc inform) us = Some (take (nat len) (mem inp))"
    and t: "smallest_type m us = Some (t, b, f, P)" and est: "est \<le> 8 * length us" "nat len < 2 ^ 32"
    and r: "mbstring_store al ptr inp len inform dec (t, f, form_add f, est) = (ret, ptr')" "ret \<noteq> -1"
  shows "\<exists>a. ret = t \<and> ptr' = String a \<and> as_type a = t \<and> encode_all (form_enc f) us = Some (as_contents a)"
proof -
  let ?s = "take (nat len) (mem inp)"
  have dec: "decode_all dec (length ?s) ?s = Some us" using us by (simp only: form_reads [OF d])
  have "\<forall>u \<in> set us. is_valid_code_point u"
    using us encode_all_Some_iff [of "form_enc inform" us] form_valid by fastforce
  from smallest_type_encodes [OF t this] obtain e where e: "encode_all (form_enc f) us = Some e" by auto
  have size: "est + 1 < SIZE_MODULUS" using est form_length_ge [OF us] by simp
  from r obtain free_out d0 where d0: "as_type d0 = t"
    "(ret, ptr') =
       (if inform = f
        then (case ASN1_STRING_set al d0 inp len of
                (False, dest) \<Rightarrow> (-1, String dest) | (True, dest) \<Rightarrow> (t, String dest))
        else (case mbstring_convert al dec (form_add f) est ?s of
                None \<Rightarrow> (-1, if free_out then Freed else String d0)
              | Some data \<Rightarrow> (t, String (d0\<lparr>as_length := int (length data) - 1, as_data := Some data\<rparr>))))"
    using mbstring_store_dest [of al ptr inp len inform dec t f "form_add f" est] by auto
  show ?thesis
  proof (cases "inform = f")
    case True
    with d0 r(2) obtain a where a: "ASN1_STRING_set al d0 inp len = (True, a)" "ret = t" "ptr' = String a"
      by (auto split: prod.splits bool.splits)
    with as_contents_set [OF a(1) len] us d0(1) True show ?thesis by simp
  next
    case False
    with d0 r(2) obtain data where data: "mbstring_convert al dec (form_add f) est ?s = Some data" "ret = t"
      "ptr' = String (d0\<lparr>as_length := int (length data) - 1, as_data := Some data\<rparr>)"
      by (auto split: option.splits)
    with mbstring_convert_Some [OF dec e size data(1)] d0(1) e show ?thesis
      by (simp add: as_contents_def mem_def)
  qed
qed

lemma mbstring_store_total:
  assumes d: "mbstring_decoder inform = Some dec" and len: "0 \<le> len" "nat len < 2 ^ 29"
    and us: "encode_all (form_enc inform) us = Some (take (nat len) (mem inp))"
    and t: "smallest_type m us = Some (t, b, f, P)" and est: "est \<le> 8 * length us"
    and al: "\<forall>m < 2 ^ 63. al (m + 8)"
  shows "fst (mbstring_store al ptr inp len inform dec (t, f, form_add f, est)) = t"
proof -
  let ?s = "take (nat len) (mem inp)"
  have dec: "decode_all dec (length ?s) ?s = Some us" using us by (simp only: form_reads [OF d])
  have "\<forall>u \<in> set us. is_valid_code_point u"
    using us encode_all_Some_iff [of "form_enc inform" us] form_valid by fastforce
  from smallest_type_encodes [OF t this] obtain e where e: "encode_all (form_enc f) us = Some e" by auto
  have n: "length us \<le> nat len" "length e \<le> 4 * length us" using form_length_ge [OF us] form_length_all [OF e] by simp_all
  have al1: "OPENSSL_malloc al sizeof_ASN1_STRING"
    using spec [OF al, of 24] by (simp add: OPENSSL_malloc_def)
  have set: "\<exists>a. ASN1_STRING_set al d inp len = (True, a)" for d
    using ASN1_STRING_set_total [OF al len(1)] len(2) by simp
  have conv: "mbstring_convert al dec (form_add f) est ?s = Some (e @ [0])"
    by (rule mbstring_convert_total [OF dec e al]) (use n est len in simp_all)
  from set obtain A where A: "\<And>d. ASN1_STRING_set al d inp len = (True, A d)" by metis
  show ?thesis using al1
    by (cases ptr; cases "inform = f") (simp_all add: mbstring_store_def CBS_init_def ASN1_STRING_type_new_def A conv)
qed

section \<open>Properties\<close>

text \<open>C3: A conversion succeeds exactly on text that is well formed in its format, has no byte-order
  mark in front, keeps the size limits and fits one of the permitted types.  It then chooses the
  first such type, and the string it stores is the encoding of the same characters.  Whatever the
  allocator does, it never stores anything else without reporting failure.\<close>

theorem ASN1_mbstring_copies:
  assumes "inform \<in> {MBSTRING_UTF8, MBSTRING_ASC, MBSTRING_BMP, MBSTRING_UNIV}"
    and "0 \<le> len" "nat len \<le> length (mem inp)" "nat len < 2 ^ 29"
    and "m = (if msk = 0 then DIRSTRING_TYPE else msk)"
  shows "(fst (ASN1_mbstring_ncopy al None inp len inform msk minsize maxsize) = t \<and> t \<noteq> -1 \<longleftrightarrow>
      (\<exists>us b f P. mbstring_reads inform minsize maxsize (take (nat len) (mem inp)) us \<and>
         smallest_type m us = Some (t, b, f, P))) \<and>
    (ASN1_mbstring_ncopy al (Some ptr) inp len inform msk minsize maxsize = (t, out) \<and> t \<noteq> -1 \<longrightarrow>
      (\<exists>us b f P a. mbstring_reads inform minsize maxsize (take (nat len) (mem inp)) us \<and>
         smallest_type m us = Some (t, b, f, P) \<and> out = Some (String a) \<and> as_type a = t \<and>
         encode_all (form_enc f) us = Some (as_contents a))) \<and>
    ((\<forall>k < 2 ^ 63. al (k + 8)) \<longrightarrow>
      fst (ASN1_mbstring_ncopy al (Some ptr) inp len inform msk minsize maxsize) =
      fst (ASN1_mbstring_ncopy al None inp len inform msk minsize maxsize))"
proof -
  define s where "s = take (nat len) (mem inp)"
  let ?call = "\<lambda>out. ASN1_mbstring_ncopy al out inp len inform msk minsize maxsize"
  obtain dec where d: "mbstring_decoder inform = Some dec" using assms(1) by (auto simp: mbstring_decoder_def)
  note sc = mbstring_scanned [OF d assms(5,2) s_def, where minsize = minsize and maxsize = maxsize and al = al]
  have type: "t \<noteq> -1" if "smallest_type m us = Some (t, b, f, P)" for us t b f P
    using that by (auto simp: smallest_type_def find_Some_iff string_types_def nth_Cons' split: if_splits)
  have dec: "decode_all dec (length s) s = Some us" if "mbstring_reads inform minsize maxsize s us" for us
    using that by (simp only: form_reads [OF d] mbstring_reads_def)
  show ?thesis
  proof (cases "\<exists>us b f P t. mbstring_reads inform minsize maxsize s us \<and> smallest_type m us = Some (t, b, f, P)")
    case True
    then obtain us b f P t' where us: "mbstring_reads inform minsize maxsize s us" "smallest_type m us = Some (t', b, f, P)"
      by blast
    obtain est where est: "est \<le> 8 * length us" "?call (Some ptr) =
        map_prod id Some (mbstring_store al ptr inp len inform dec (t', f, form_add f, est))"
      using sc [of "Some ptr"] us dec [OF us(1)] by auto
    have null: "?call None = (t', None)" using sc [of None] us dec [OF us(1)] by auto
    have enc: "encode_all (form_enc inform) us = Some (take (nat len) (mem inp))"
      using us(1) by (simp add: mbstring_reads_def s_def)
    have uniq: "us' = us" if "mbstring_reads inform minsize maxsize s us'" for us'
      using dec [OF that] dec [OF us(1)] by simp
    note sound = mbstring_store_sound [OF d assms(2,3) enc us(2) est(1)]
    note total = mbstring_store_total [OF d assms(2,4) enc us(2) est(1)]
    show ?thesis unfolding s_def [symmetric]
    proof (intro conjI impI)
      show "fst (?call None) = t \<and> t \<noteq> -1 \<longleftrightarrow>
          (\<exists>us b f P. mbstring_reads inform minsize maxsize s us \<and> smallest_type m us = Some (t, b, f, P))"
        using null us type [OF us(2)] uniq by (metis fst_conv option.inject prod.inject)
      show "fst (?call (Some ptr)) = fst (?call None)" if "\<forall>k < 2 ^ 63. al (k + 8)"
        using total [OF that, of ptr] null est(2) by simp
      assume c: "?call (Some ptr) = (t, out) \<and> t \<noteq> -1"
      obtain ptr' where "mbstring_store al ptr inp len inform dec (t', f, form_add f, est) = (t, ptr')" "out = Some ptr'"
        using c est(2) by (cases "mbstring_store al ptr inp len inform dec (t', f, form_add f, est)") auto
      with sound [of al ptr t ptr'] c us assms(4)
      show "\<exists>us b f P a. mbstring_reads inform minsize maxsize s us \<and> smallest_type m us = Some (t, b, f, P) \<and>
          out = Some (String a) \<and> as_type a = t \<and> encode_all (form_enc f) us = Some (as_contents a)"
        by auto
    qed
  next
    case False
    have none: "?call out = (-1, out)" for out
    proof (cases "decode_all dec (length s) s")
      case None
      with sc [of out] show ?thesis by simp
    next
      case (Some us)
      with sc [of out] False show ?thesis by (cases "smallest_type m us") auto
    qed
    have "\<not> (\<exists>us b f P. mbstring_reads inform minsize maxsize s us \<and> smallest_type m us = Some (t, b, f, P))"
      using False by blast
    with none show ?thesis unfolding s_def [symmetric] by (intro conjI) auto
  qed
qed


text \<open>The two BMP characters U+00E9 and U+20AC as UTF-8.\<close>

lemma ASN1_mbstring_copies_witness:
  "\<exists>a. ASN1_mbstring_ncopy (\<lambda>_. True) (Some NoString) (Some [0, 0xe9, 0x20, 0xac]) 4 MBSTRING_BMP B_ASN1_UTF8STRING 1 0 =
       (V_ASN1_UTF8STRING, Some (String a)) \<and>
     as_type a = V_ASN1_UTF8STRING \<and> as_contents a = [0xc3, 0xa9, 0xe2, 0x82, 0xac]"
proof -
  let ?us = "[0xe9, 0x20ac]" and ?s = "[0, 0xe9, 0x20, 0xac]"
  let ?call = "\<lambda>out. ASN1_mbstring_ncopy (\<lambda>_. True) out (Some ?s) 4 MBSTRING_BMP B_ASN1_UTF8STRING 1 0"
  have enc: "encode_all ucs2_enc ?us = Some ?s" "encode_all utf8_enc ?us = Some [0xc3, 0xa9, 0xe2, 0x82, 0xac]"
    by code_simp+
  have reads: "mbstring_reads MBSTRING_BMP 1 0 ?s ?us" using enc(1) by (simp add: mbstring_reads_def form_enc_def)
  have only: "us = ?us" if "mbstring_reads MBSTRING_BMP 1 0 ?s us" for us
    using that ucs2.encode_all_inj [OF _ enc(1)] by (simp add: mbstring_reads_def form_enc_def)
  have bits: "\<not> bit B_ASN1_UTF8STRING 1" "\<not> bit B_ASN1_UTF8STRING 4" "\<not> bit B_ASN1_UTF8STRING 2"
    "\<not> bit B_ASN1_UTF8STRING 11" "\<not> bit B_ASN1_UTF8STRING 8" "bit B_ASN1_UTF8STRING 13" by code_simp+
  then have type: "smallest_type B_ASN1_UTF8STRING us = Some (V_ASN1_UTF8STRING, 13, MBSTRING_UTF8, \<lambda>_. True)" for us
    unfolding smallest_type_def string_types_def by (simp add: list.pred_True)
  note copies = ASN1_mbstring_copies [of MBSTRING_BMP 4 "Some ?s" B_ASN1_UTF8STRING B_ASN1_UTF8STRING "\<lambda>_. True" 1 0 V_ASN1_UTF8STRING NoString]
  have "fst (?call None) = V_ASN1_UTF8STRING" using copies reads type by (auto simp: mem_def)
  moreover have "fst (?call (Some NoString)) = fst (?call None)" using copies by (auto simp: mem_def)
  ultimately have "?call (Some NoString) = (V_ASN1_UTF8STRING, snd (?call (Some NoString)))"
    by (metis prod.collapse)
  then obtain us a where "mbstring_reads MBSTRING_BMP 1 0 ?s us" "snd (?call (Some NoString)) = Some (String a)"
    "as_type a = V_ASN1_UTF8STRING" "encode_all (form_enc MBSTRING_UTF8) us = Some (as_contents a)"
    using copies [of "snd (?call (Some NoString))"] type by (auto simp: mem_def)
  with only enc(2) \<open>?call (Some NoString) = _\<close> show ?thesis by (auto simp: form_enc_def)
qed

end
