(* ===== verification/HostName.thy ===== *)
theory HostName
  imports MbString
begin

text \<open>
  The names in a certificate and how they are compared with the name of a host, an e-mail address
  or an IP address: \<open>crypto/x509v3/v3_utl.c\<close> from \<open>skip_prefix\<close> to \<open>X509_check_ip\<close>, with the
  name entries of \<open>crypto/x509/x509name.c\<close>.  A pointer and a length are the list of the bytes.
  Comparisons return \<open>None\<close> where the code would read beyond the bytes it was given.  The decoded
  certificate is a record: its subject, its subject alternative names as \<open>X509_get_ext_d2i\<close>
  returns them, its name constraints and its flags.
\<close>

section \<open>Names\<close>

text \<open>\<open>ASN1_OBJECT\<close>s are identified with their NIDs; \<open>kObjects\<close> has an entry for each NID used
  here, so that \<open>OBJ_nid2obj\<close> does not fail.\<close>

record x509_name_entry =
  ne_object :: int
  ne_value :: asn1_string

record x509_name =
  xn_entries :: "x509_name_entry list"
  xn_modified :: bool
  xn_canon_enc :: bytes

datatype general_name =
    OtherName
  | Rfc822Name asn1_string
  | DNSName asn1_string
  | X400Address
  | DirectoryName x509_name
  | EdiPartyName
  | URIName asn1_string
  | IPAddress asn1_string
  | RegisteredID

abbreviation (input) GEN_EMAIL :: int where "GEN_EMAIL \<equiv> 1"
abbreviation (input) GEN_DNS :: int where "GEN_DNS \<equiv> 2"
abbreviation (input) GEN_DIRNAME :: int where "GEN_DIRNAME \<equiv> 4"
abbreviation (input) GEN_URI :: int where "GEN_URI \<equiv> 6"
abbreviation (input) GEN_IPADD :: int where "GEN_IPADD \<equiv> 7"

fun gen_type :: "general_name \<Rightarrow> int" where
  "gen_type OtherName = 0"
| "gen_type (Rfc822Name _) = GEN_EMAIL"
| "gen_type (DNSName _) = GEN_DNS"
| "gen_type X400Address = 3"
| "gen_type (DirectoryName _) = GEN_DIRNAME"
| "gen_type EdiPartyName = 5"
| "gen_type (URIName _) = GEN_URI"
| "gen_type (IPAddress _) = GEN_IPADD"
| "gen_type RegisteredID = 8"

record general_subtree =
  gs_base :: general_name
  gs_minimum :: "asn1_string option"
  gs_maximum :: "asn1_string option"

record name_constraints =
  permittedSubtrees :: "general_subtree list"
  excludedSubtrees :: "general_subtree list"

text \<open>The fields of a certificate these functions read.  \<open>x_san\<close> is what
  \<open>X509_get_ext_d2i (x, NID_subject_alt_name, ...)\<close> returns, \<open>None\<close> for NULL: like the code, the
  model cannot tell a certificate without alternative names from one whose extension cannot be
  decoded or copied.\<close>

record x509 =
  x_subject :: x509_name
  x_san :: "general_name list option"
  x_nc :: "name_constraints option"
  x_ex_flags :: u32

abbreviation (input) NID_undef :: int where "NID_undef \<equiv> 0"
abbreviation (input) NID_commonName :: int where "NID_commonName \<equiv> 13"
abbreviation (input) NID_pkcs9_emailAddress :: int where "NID_pkcs9_emailAddress \<equiv> 48"

definition X509_NAME_get_index_by_NID :: "x509_name \<Rightarrow> int \<Rightarrow> int \<Rightarrow> int" where
  "X509_NAME_get_index_by_NID name nid lastpos =
     (let start = (if lastpos < 0 then 0 else nat (lastpos + 1))
      in case find (\<lambda>i. ne_object (xn_entries name ! i) = nid) [start..<length (xn_entries name)] of
           None \<Rightarrow> -1
         | Some i \<Rightarrow> int i)"

lemma X509_NAME_get_index_Some:
  assumes "X509_NAME_get_index_by_NID name nid j = k" "0 \<le> k"
  shows "j < k \<and> nat k < length (xn_entries name) \<and> ne_object (xn_entries name ! nat k) = nid"
proof -
  define start where "start = (if j < 0 then 0 else nat (j + 1))"
  have r: "X509_NAME_get_index_by_NID name nid j =
      (case find (\<lambda>i. ne_object (xn_entries name ! i) = nid) [start..<length (xn_entries name)] of
         None \<Rightarrow> -1 | Some i \<Rightarrow> int i)"
    by (simp add: X509_NAME_get_index_by_NID_def start_def)
  with assms obtain i where i: "find (\<lambda>i. ne_object (xn_entries name ! i) = nid) [start..<length (xn_entries name)] = Some i"
    "k = int i"
    by (cases "find (\<lambda>i. ne_object (xn_entries name ! i) = nid) [start..<length (xn_entries name)]") auto
  from i(1) have "i \<in> {start..<length (xn_entries name)}" "ne_object (xn_entries name ! i) = nid"
    by (auto simp: find_Some_iff)
  with i(2) show ?thesis by (auto simp: start_def split: if_splits)
qed

section \<open>Comparing\<close>

abbreviation (input) X509_CHECK_FLAG_NO_WILDCARDS :: u32 where "X509_CHECK_FLAG_NO_WILDCARDS \<equiv> 0x2"
abbreviation (input) X509_CHECK_FLAG_NO_PARTIAL_WILDCARDS :: u32 where "X509_CHECK_FLAG_NO_PARTIAL_WILDCARDS \<equiv> 0x4"
abbreviation (input) X509_CHECK_FLAG_MULTI_LABEL_WILDCARDS :: u32 where "X509_CHECK_FLAG_MULTI_LABEL_WILDCARDS \<equiv> 0x8"
abbreviation (input) X509_CHECK_FLAG_SINGLE_LABEL_SUBDOMAINS :: u32 where "X509_CHECK_FLAG_SINGLE_LABEL_SUBDOMAINS \<equiv> 0x10"
abbreviation (input) X509_CHECK_FLAG_NEVER_CHECK_SUBJECT :: u32 where "X509_CHECK_FLAG_NEVER_CHECK_SUBJECT \<equiv> 0x20"
abbreviation (input) X509_CHECK_FLAG_DOT_SUBDOMAINS :: u32 where "X509_CHECK_FLAG_DOT_SUBDOMAINS \<equiv> 0x8000"

abbreviation (input) dot :: byte where "dot \<equiv> 46"
abbreviation (input) star :: byte where "star \<equiv> 42"
abbreviation (input) hyphen :: byte where "hyphen \<equiv> 45"
abbreviation (input) at_sign :: byte where "at_sign \<equiv> 64"

fun skip_prefix_loop :: "bytes \<Rightarrow> nat \<Rightarrow> u32 \<Rightarrow> bytes" where
  "skip_prefix_loop [] subject_len flags = []"
| "skip_prefix_loop (c # pattern) subject_len flags =
     (if length (c # pattern) > subject_len \<and> c \<noteq> 0
      then if flags AND X509_CHECK_FLAG_SINGLE_LABEL_SUBDOMAINS \<noteq> 0 \<and> c = dot then c # pattern
           else skip_prefix_loop pattern subject_len flags
      else c # pattern)"

definition skip_prefix :: "bytes \<Rightarrow> bytes \<Rightarrow> u32 \<Rightarrow> bytes" where
  "skip_prefix p subject flags =
     (if flags AND X509_CHECK_FLAG_DOT_SUBDOMAINS = 0 then p
      else let pattern = skip_prefix_loop p (length subject) flags
           in if length pattern = length subject then pattern else p)"

definition ascii_lower :: "byte \<Rightarrow> byte" where
  "ascii_lower l = (if 65 \<le> l \<and> l \<le> 90 then (l - 65) + 97 else l)"

fun equal_nocase_loop :: "bytes \<Rightarrow> bytes \<Rightarrow> bool" where
  "equal_nocase_loop (l # pattern) (r # subject) =
     (if l = 0 then False
      else if l \<noteq> r \<and> ascii_lower l \<noteq> ascii_lower r then False
      else equal_nocase_loop pattern subject)"
| "equal_nocase_loop [] subject = True"
| "equal_nocase_loop pattern [] = True"

definition equal_nocase :: "bytes \<Rightarrow> bytes \<Rightarrow> u32 \<Rightarrow> bool" where
  "equal_nocase p subject flags =
     (let pattern = skip_prefix p subject flags
      in if length pattern \<noteq> length subject then False else equal_nocase_loop pattern subject)"

definition equal_case :: "bytes \<Rightarrow> bytes \<Rightarrow> u32 \<Rightarrow> bool" where
  "equal_case p subject flags =
     (let pattern = skip_prefix p subject flags
      in if length pattern \<noteq> length subject then False
         else OPENSSL_memcmp pattern subject (length pattern) = 0)"

text \<open>The backward search: the index at which the loop breaks.\<close>

fun equal_email_loop :: "bytes \<Rightarrow> bytes \<Rightarrow> nat \<Rightarrow> nat option" where
  "equal_email_loop a b 0 = None"
| "equal_email_loop a b (Suc i) =
     (if a ! i = at_sign \<or> b ! i = at_sign then Some i else equal_email_loop a b i)"

definition equal_email :: "bytes \<Rightarrow> bytes \<Rightarrow> u32 \<Rightarrow> bool" where
  "equal_email a b unused_flags =
     (if length a \<noteq> length b then False
      else case equal_email_loop a b (length a) of
             None \<Rightarrow> equal_case a b 0
           | Some i \<Rightarrow>
               if \<not> equal_nocase (drop i a) (drop i b) 0 then False
               else let i = (if i = 0 then length a else i) in equal_case (take i a) (take i b) 0)"

section \<open>Wildcards\<close>

abbreviation (input) xn_dashes :: bytes where "xn_dashes \<equiv> [120, 110, 45, 45]"

definition ldh_alnum :: "byte \<Rightarrow> bool" where
  "ldh_alnum c \<longleftrightarrow> (97 \<le> c \<and> c \<le> 122) \<or> (65 \<le> c \<and> c \<le> 90) \<or> (48 \<le> c \<and> c \<le> 57)"

definition wildcard_match :: "bytes \<Rightarrow> bytes \<Rightarrow> bytes \<Rightarrow> u32 \<Rightarrow> bool option" where
  "wildcard_match prefix suffix subject flags =
     (if length subject < length prefix + length suffix then Some False
      else if \<not> equal_nocase prefix (take (length prefix) subject) flags then Some False
      else
        let wildcard = take (length subject - length suffix - length prefix) (drop (length prefix) subject);
            wildcard_end = drop (length subject - length suffix) subject
        in if \<not> equal_nocase wildcard_end suffix flags then Some False
           else case (if prefix = [] then (case suffix of [] \<Rightarrow> None | c # _ \<Rightarrow> Some (c = dot)) else Some False) of
                  None \<Rightarrow> None
                | Some allow_idna \<Rightarrow>
                    let allow_multi = (allow_idna \<and> flags AND X509_CHECK_FLAG_MULTI_LABEL_WILDCARDS \<noteq> 0)
                    in if allow_idna \<and> wildcard = [] then Some False
                       else if \<not> allow_idna \<and> length subject \<ge> 4 \<and> OPENSSL_strncasecmp subject xn_dashes 4 = 0
                       then Some False
                       else if wildcard = [star] then Some True
                       else Some (list_all (\<lambda>c. ldh_alnum c \<or> c = hyphen \<or> allow_multi \<and> c = dot) wildcard))"

abbreviation (input) LABEL_START :: u32 where "LABEL_START \<equiv> 1"
abbreviation (input) LABEL_HYPHEN :: u32 where "LABEL_HYPHEN \<equiv> 4"
abbreviation (input) LABEL_IDNA :: u32 where "LABEL_IDNA \<equiv> 8"

text \<open>The loop of \<open>valid_star\<close>: the position \<open>i\<close>, the bytes from there on, \<open>state\<close>,
  \<open>dots\<close> and the position of \<open>star\<close>.\<close>

fun valid_star_loop :: "u32 \<Rightarrow> nat \<Rightarrow> bytes \<Rightarrow> u32 \<Rightarrow> nat \<Rightarrow> nat option \<Rightarrow> nat option" where
  "valid_star_loop flags i [] state dots st =
     (if state AND (LABEL_START OR LABEL_HYPHEN) \<noteq> 0 \<or> dots < 2 then None else st)"
| "valid_star_loop flags i (c # p) state dots st =
     (if c = star
      then let atstart = (state AND LABEL_START \<noteq> 0); atend = (p = [] \<or> hd p = dot)
           in if st \<noteq> None \<or> state AND LABEL_IDNA \<noteq> 0 \<or> dots \<noteq> 0 then None
              else if flags AND X509_CHECK_FLAG_NO_PARTIAL_WILDCARDS \<noteq> 0 \<and> (\<not> atstart \<or> \<not> atend) then None
              else if \<not> atstart \<and> \<not> atend then None
              else valid_star_loop flags (i + 1) p (state AND NOT LABEL_START) dots (Some i)
      else if ldh_alnum c
      then let state = (if state AND LABEL_START \<noteq> 0 \<and> length (c # p) \<ge> 4 \<and>
                           OPENSSL_strncasecmp (c # p) xn_dashes 4 = 0
                        then state OR LABEL_IDNA else state)
           in valid_star_loop flags (i + 1) p (state AND NOT (LABEL_HYPHEN OR LABEL_START)) dots st
      else if c = dot
      then if state AND (LABEL_HYPHEN OR LABEL_START) \<noteq> 0 then None
           else valid_star_loop flags (i + 1) p LABEL_START (dots + 1) st
      else if c = hyphen
      then if state AND LABEL_START \<noteq> 0 then None
           else valid_star_loop flags (i + 1) p (state OR LABEL_HYPHEN) dots st
      else None)"

definition valid_star :: "bytes \<Rightarrow> u32 \<Rightarrow> nat option" where
  "valid_star p flags = valid_star_loop flags 0 p LABEL_START 0 None"

definition equal_wildcard :: "bytes \<Rightarrow> bytes \<Rightarrow> u32 \<Rightarrow> bool option" where
  "equal_wildcard pattern subject flags =
     (case (if \<not> (length subject > 1 \<and> hd subject = dot) then valid_star pattern flags else None) of
        None \<Rightarrow> Some (equal_nocase pattern subject flags)
      | Some i \<Rightarrow> wildcard_match (take i pattern) (drop (i + 1) pattern) subject flags)"

fun looks_like_dns_loop :: "nat \<Rightarrow> nat \<Rightarrow> nat \<Rightarrow> bytes \<Rightarrow> bool" where
  "looks_like_dns_loop len i label_start [] = True"
| "looks_like_dns_loop len i label_start (c # p) =
     (if ldh_alnum c \<or> c = hyphen \<and> i > label_start \<or> c = 95 \<or> c = 58
      then looks_like_dns_loop len (i + 1) label_start p
      else if c = dot \<and> i > label_start \<and> i < len - 1
      then looks_like_dns_loop len (i + 1) (i + 1) p
      else False)"

definition x509v3_looks_like_dns_name :: "bytes \<Rightarrow> bool" where
  "x509v3_looks_like_dns_name s =
     (let s1 = (if length s > 0 \<and> s ! (length s - 1) = dot then take (length s - 1) s else s);
          s2 = (if length s1 \<ge> 2 \<and> s1 ! 0 = star \<and> s1 ! 1 = dot then drop 2 s1 else s1)
      in if length s2 = 0 then False else looks_like_dns_loop (length s2) 0 0 s2)"

section \<open>Checking a certificate\<close>

type_synonym equal_fn = "bytes \<Rightarrow> bytes \<Rightarrow> u32 \<Rightarrow> bool option"

text \<open>The conversion \<open>(int)len\<close>.\<close>

definition int_of_size :: "nat \<Rightarrow> int" where
  "int_of_size n = sint (of_nat n :: u32)"

text \<open>\<open>peername\<close> is the variable of the caller that a match sets, \<open>None\<close> for a NULL pointer.\<close>

definition set_peername :: "allocator \<Rightarrow> bytes \<Rightarrow> nat \<Rightarrow> bytes option option \<Rightarrow> bytes option option" where
  "set_peername al d len peername =
     (case peername of None \<Rightarrow> None | Some _ \<Rightarrow> Some (OPENSSL_strndup al d len))"

definition do_check_string ::
  "allocator \<Rightarrow> asn1_string \<Rightarrow> int \<Rightarrow> equal_fn \<Rightarrow> u32 \<Rightarrow> int \<Rightarrow> bytes \<Rightarrow> bytes option option \<Rightarrow>
   (int \<times> bytes option option) option" where
  "do_check_string al a cmp_type equal flags check_type b peername =
     (if as_data a = None \<or> as_length a = 0 then Some (0, peername)
      else if cmp_type > 0
      then if cmp_type \<noteq> as_type a then Some (0, peername)
           else case (if cmp_type = V_ASN1_IA5STRING then equal (as_contents a) b flags
                      else if as_length a \<noteq> int_of_size (length b) then Some False
                      else if length (mem (as_data a)) < length b then None
                      else Some (OPENSSL_memcmp (mem (as_data a)) b (length b) = 0)) of
                  None \<Rightarrow> None
                | Some rv \<Rightarrow>
                    Some (if rv then (1, set_peername al (mem (as_data a)) (nat (as_length a)) peername)
                          else (0, peername))
      else case ASN1_STRING_to_UTF8 al (Some a) of
             (astrlen, astr) \<Rightarrow>
               if astrlen < 0 then Some (-1, peername)
               else if check_type = GEN_DNS \<and> \<not> x509v3_looks_like_dns_name (take (nat astrlen) (mem astr))
               then Some (0, peername)
               else case equal (take (nat astrlen) (mem astr)) b flags of
                      None \<Rightarrow> None
                    | Some rv \<Rightarrow>
                        Some (if rv then (1, set_peername al (mem astr) (nat astrlen) peername) else (0, peername)))"

text \<open>The string of a name whose type is \<open>check_type\<close>.\<close>

fun gen_string :: "general_name \<Rightarrow> asn1_string option" where
  "gen_string (Rfc822Name s) = Some s"
| "gen_string (DNSName s) = Some s"
| "gen_string (IPAddress s) = Some s"
| "gen_string _ = None"

fun check_gens_loop ::
  "allocator \<Rightarrow> int \<Rightarrow> equal_fn \<Rightarrow> u32 \<Rightarrow> int \<Rightarrow> bytes \<Rightarrow> general_name list \<Rightarrow> bytes option option \<Rightarrow>
   (int \<times> bytes option option) option" where
  "check_gens_loop al alt_type equal flags check_type chk [] peername = Some (0, peername)"
| "check_gens_loop al alt_type equal flags check_type chk (gen # gens) peername =
     (if gen_type gen \<noteq> check_type
      then check_gens_loop al alt_type equal flags check_type chk gens peername
      else case gen_string gen of
             None \<Rightarrow> None
           | Some cstr \<Rightarrow>
               (case do_check_string al cstr alt_type equal flags check_type chk peername of
                  None \<Rightarrow> None
                | Some (rv, peername') \<Rightarrow>
                    if rv \<noteq> 0 then Some (rv, peername')
                    else check_gens_loop al alt_type equal flags check_type chk gens peername'))"

function check_subject_loop ::
  "allocator \<Rightarrow> x509_name \<Rightarrow> int \<Rightarrow> equal_fn \<Rightarrow> u32 \<Rightarrow> int \<Rightarrow> bytes \<Rightarrow> int \<Rightarrow> bytes option option \<Rightarrow>
   (int \<times> bytes option option) option" where
  "check_subject_loop al name cnid equal flags check_type chk j peername =
     (let j' = X509_NAME_get_index_by_NID name cnid j
      in if j' \<ge> 0
         then case do_check_string al (ne_value (xn_entries name ! nat j')) (-1) equal flags check_type chk peername of
                None \<Rightarrow> None
              | Some (rv, peername') \<Rightarrow>
                  if rv \<noteq> 0 then Some (rv, peername')
                  else check_subject_loop al name cnid equal flags check_type chk j' peername'
         else Some (0, peername))"
  by pat_completeness auto
termination
  by (relation "measure (\<lambda>(al, name, cnid, equal, flags, check_type, chk, j, peername).
        nat (int (length (xn_entries name)) - j))")
    (auto dest!: X509_NAME_get_index_Some [OF refl])

declare check_subject_loop.simps [simp del]

abbreviation (input) V_ASN1_OCTET_STRING :: int where "V_ASN1_OCTET_STRING \<equiv> 4"

definition do_x509_check ::
  "allocator \<Rightarrow> x509 \<Rightarrow> bytes \<Rightarrow> u32 \<Rightarrow> int \<Rightarrow> bytes option option \<Rightarrow> (int \<times> bytes option option) option" where
  "do_x509_check al x chk flags0 check_type peername =
     (let flags1 = flags0 AND NOT X509_CHECK_FLAG_DOT_SUBDOMAINS;
          flags = (if check_type = GEN_DNS \<and> length chk > 1 \<and> hd chk = dot
                   then flags1 OR X509_CHECK_FLAG_DOT_SUBDOMAINS else flags1);
          cnid = (if check_type = GEN_EMAIL then NID_pkcs9_emailAddress
                  else if check_type = GEN_DNS then NID_commonName else NID_undef);
          alt_type = (if check_type = GEN_EMAIL \<or> check_type = GEN_DNS then V_ASN1_IA5STRING else V_ASN1_OCTET_STRING);
          equal = (if check_type = GEN_EMAIL then (\<lambda>p s f. Some (equal_email p s f))
                   else if check_type = GEN_DNS
                   then if flags AND X509_CHECK_FLAG_NO_WILDCARDS \<noteq> 0 then (\<lambda>p s f. Some (equal_nocase p s f))
                        else equal_wildcard
                   else (\<lambda>p s f. Some (equal_case p s f)))
      in case x_san x of
           Some gens \<Rightarrow> check_gens_loop al alt_type equal flags check_type chk gens peername
         | None \<Rightarrow>
             if cnid = NID_undef \<or> flags AND X509_CHECK_FLAG_NEVER_CHECK_SUBJECT \<noteq> 0 then Some (0, peername)
             else check_subject_loop al (x_subject x) cnid equal flags check_type chk (-1) peername)"

text \<open>\<open>chk = None\<close> is a NULL name.\<close>

definition X509_check_host ::
  "allocator \<Rightarrow> x509 \<Rightarrow> bytes option \<Rightarrow> u32 \<Rightarrow> bytes option option \<Rightarrow> (int \<times> bytes option option) option" where
  "X509_check_host al x chk flags peername =
     (case chk of
        None \<Rightarrow> Some (-2, peername)
      | Some c \<Rightarrow>
          if OPENSSL_memchr c 0 (length c) \<noteq> None then Some (-2, peername)
          else do_x509_check al x c flags GEN_DNS peername)"

definition X509_check_email :: "allocator \<Rightarrow> x509 \<Rightarrow> bytes option \<Rightarrow> u32 \<Rightarrow> int option" where
  "X509_check_email al x chk flags =
     (case chk of
        None \<Rightarrow> Some (-2)
      | Some c \<Rightarrow>
          if OPENSSL_memchr c 0 (length c) \<noteq> None then Some (-2)
          else map_option fst (do_x509_check al x c flags GEN_EMAIL None))"

definition X509_check_ip :: "allocator \<Rightarrow> x509 \<Rightarrow> bytes option \<Rightarrow> u32 \<Rightarrow> int option" where
  "X509_check_ip al x chk flags =
     (case chk of
        None \<Rightarrow> Some (-2)
      | Some c \<Rightarrow> map_option fst (do_x509_check al x c flags GEN_IPADD None))"

end
