(* ===== verification/NameConstraints.thy ===== *)
theory NameConstraints
  imports
    HostName
begin

text \<open>
  Name constraints: \<open>crypto/x509v3/v3_ncons.c\<close>, which checks the names of a certificate against
  the permitted and excluded subtrees of a certificate above it, and the walk over a chain in
  \<open>crypto/x509/x509_vfy.c\<close> (\<open>check_name_constraints\<close>).  The encoder \<open>i2d_X509_NAME\<close>, which
  refreshes the canonical encoding of a directory name that was changed, is the parameter \<open>i2d\<close>
  (\<open>None\<close> is a failure); the verification callback of the caller is the parameter \<open>cb\<close>.
\<close>

section \<open>Verdicts\<close>

abbreviation (input) X509_V_OK :: int where "X509_V_OK \<equiv> 0"
abbreviation (input) X509_V_ERR_UNSPECIFIED :: int where "X509_V_ERR_UNSPECIFIED \<equiv> 1"
abbreviation (input) X509_V_ERR_OUT_OF_MEM :: int where "X509_V_ERR_OUT_OF_MEM \<equiv> 17"
abbreviation (input) X509_V_ERR_PERMITTED_VIOLATION :: int where "X509_V_ERR_PERMITTED_VIOLATION \<equiv> 47"
abbreviation (input) X509_V_ERR_EXCLUDED_VIOLATION :: int where "X509_V_ERR_EXCLUDED_VIOLATION \<equiv> 48"
abbreviation (input) X509_V_ERR_SUBTREE_MINMAX :: int where "X509_V_ERR_SUBTREE_MINMAX \<equiv> 49"
abbreviation (input) X509_V_ERR_UNSUPPORTED_CONSTRAINT_TYPE :: int where "X509_V_ERR_UNSUPPORTED_CONSTRAINT_TYPE \<equiv> 51"
abbreviation (input) X509_V_ERR_UNSUPPORTED_NAME_SYNTAX :: int where "X509_V_ERR_UNSUPPORTED_NAME_SYNTAX \<equiv> 53"
abbreviation (input) X509_V_ERR_NAME_CONSTRAINTS_WITHOUT_SANS :: int where "X509_V_ERR_NAME_CONSTRAINTS_WITHOUT_SANS \<equiv> 67"

section \<open>Matching one name\<close>

type_synonym name_encoder = "x509_name \<Rightarrow> x509_name option"

definition nc_dn :: "name_encoder \<Rightarrow> x509_name \<Rightarrow> x509_name \<Rightarrow> int" where
  "nc_dn i2d nm base =
     (case (if xn_modified nm then i2d nm else Some nm) of
        None \<Rightarrow> X509_V_ERR_OUT_OF_MEM
      | Some nm \<Rightarrow>
          (case (if xn_modified base then i2d base else Some base) of
             None \<Rightarrow> X509_V_ERR_OUT_OF_MEM
           | Some base \<Rightarrow>
               if length (xn_canon_enc base) > length (xn_canon_enc nm) then X509_V_ERR_PERMITTED_VIOLATION
               else if OPENSSL_memcmp (xn_canon_enc base) (xn_canon_enc nm) (length (xn_canon_enc base)) \<noteq> 0
               then X509_V_ERR_PERMITTED_VIOLATION
               else X509_V_OK))"

definition starts_with :: "cbs \<Rightarrow> byte \<Rightarrow> bool" where
  "starts_with cbs c \<longleftrightarrow> CBS_len cbs > 0 \<and> CBS_data cbs ! 0 = c"

text \<open>\<open>equal_case\<close> of \<open>v3_ncons.c\<close>, which ignores case; the loop runs over two strings of the
  same length.\<close>

fun nc_equal_case_loop :: "bytes \<Rightarrow> bytes \<Rightarrow> bool" where
  "nc_equal_case_loop (x # a) (y # b) =
     (if OPENSSL_tolower (uint x) \<noteq> OPENSSL_tolower (uint y) then False else nc_equal_case_loop a b)"
| "nc_equal_case_loop _ _ = True"

definition nc_equal_case :: "cbs \<Rightarrow> cbs \<Rightarrow> bool" where
  "nc_equal_case a b =
     (if CBS_len a \<noteq> CBS_len b then False else nc_equal_case_loop (CBS_data a) (CBS_data b))"

definition has_suffix_case :: "cbs \<Rightarrow> cbs \<Rightarrow> bool" where
  "has_suffix_case a b =
     (if CBS_len a < CBS_len b then False
      else nc_equal_case (snd (CBS_skip (CBS_len a - CBS_len b) a)) b)"

definition cbs_of_string :: "asn1_string \<Rightarrow> cbs" where
  "cbs_of_string s = CBS_init (mem (as_data s)) (nat (as_length s))"

definition nc_dns :: "asn1_string \<Rightarrow> asn1_string \<Rightarrow> int" where
  "nc_dns dns base =
     (let dns_cbs = cbs_of_string dns; base_cbs = cbs_of_string base
      in if CBS_len base_cbs = 0 then X509_V_OK
         else if starts_with base_cbs dot
         then if has_suffix_case dns_cbs base_cbs then X509_V_OK else X509_V_ERR_PERMITTED_VIOLATION
         else
           (case (if CBS_len dns_cbs > CBS_len base_cbs
                  then case CBS_skip (CBS_len dns_cbs - CBS_len base_cbs - 1) dns_cbs of
                         (None, _) \<Rightarrow> None
                       | (Some _, dns_cbs) \<Rightarrow>
                           (case CBS_get_u8 dns_cbs of
                              (None, _) \<Rightarrow> None
                            | (Some c, dns_cbs) \<Rightarrow> if c \<noteq> dot then None else Some dns_cbs)
                  else Some dns_cbs) of
              None \<Rightarrow> X509_V_ERR_PERMITTED_VIOLATION
            | Some dns_cbs \<Rightarrow>
                if \<not> nc_equal_case dns_cbs base_cbs then X509_V_ERR_PERMITTED_VIOLATION else X509_V_OK))"

text \<open>\<open>CBS_get_until_first\<close> leaves the reader at the character it found, which is what the
  assertions of \<open>nc_email\<close> say.\<close>

definition nc_email :: "asn1_string \<Rightarrow> asn1_string \<Rightarrow> int" where
  "nc_email eml base =
     (case CBS_get_until_first at_sign (cbs_of_string eml) of
        (None, _) \<Rightarrow> X509_V_ERR_UNSUPPORTED_NAME_SYNTAX
      | (Some eml_local, eml_cbs) \<Rightarrow>
          (case CBS_get_until_first at_sign (cbs_of_string base) of
             (base_local, base_cbs) \<Rightarrow>
               if base_local = None \<and> starts_with base_cbs dot
               then if has_suffix_case eml_cbs base_cbs then X509_V_OK else X509_V_ERR_PERMITTED_VIOLATION
               else if (case base_local of
                          None \<Rightarrow> False
                        | Some l \<Rightarrow> CBS_len l > 0 \<and> \<not> CBS_mem_equal l (CBS_data eml_local) (CBS_len eml_local))
               then X509_V_ERR_PERMITTED_VIOLATION
               else let base_cbs = (if base_local \<noteq> None then snd (CBS_skip 1 base_cbs) else base_cbs);
                        eml_cbs = snd (CBS_skip 1 eml_cbs)
                    in if \<not> nc_equal_case base_cbs eml_cbs then X509_V_ERR_PERMITTED_VIOLATION else X509_V_OK))"

text \<open>The characters after the scheme: \<open>://\<close>.\<close>

definition nc_uri_authority :: "cbs \<Rightarrow> cbs option" where
  "nc_uri_authority uri_cbs =
     (case CBS_get_until_first 58 uri_cbs of
        (None, _) \<Rightarrow> None
      | (Some _, s) \<Rightarrow>
          (case CBS_skip 1 s of
             (None, _) \<Rightarrow> None
           | (Some _, s) \<Rightarrow>
               (case CBS_get_u8 s of
                  (None, _) \<Rightarrow> None
                | (Some b, s) \<Rightarrow>
                    if b \<noteq> 47 then None
                    else case CBS_get_u8 s of
                           (None, _) \<Rightarrow> None
                         | (Some b, s) \<Rightarrow> if b \<noteq> 47 then None else Some s)))"

definition nc_uri :: "asn1_string \<Rightarrow> asn1_string \<Rightarrow> int" where
  "nc_uri uri base =
     (case nc_uri_authority (cbs_of_string uri) of
        None \<Rightarrow> X509_V_ERR_UNSUPPORTED_NAME_SYNTAX
      | Some uri_cbs \<Rightarrow>
          let host = (case CBS_get_until_first 58 uri_cbs of
                        (Some h, _) \<Rightarrow> h
                      | (None, uri_cbs) \<Rightarrow>
                          (case CBS_get_until_first 47 uri_cbs of
                             (Some h, _) \<Rightarrow> h
                           | (None, uri_cbs) \<Rightarrow> uri_cbs));
              base_cbs = cbs_of_string base
          in if CBS_len host = 0 then X509_V_ERR_UNSUPPORTED_NAME_SYNTAX
             else if starts_with base_cbs dot
             then if has_suffix_case host base_cbs then X509_V_OK else X509_V_ERR_PERMITTED_VIOLATION
             else if \<not> nc_equal_case base_cbs host then X509_V_ERR_PERMITTED_VIOLATION
             else X509_V_OK)"

text \<open>Called with two names of the same type.\<close>

fun nc_match_single :: "name_encoder \<Rightarrow> general_name \<Rightarrow> general_name \<Rightarrow> int" where
  "nc_match_single i2d (DirectoryName n) (DirectoryName b) = nc_dn i2d n b"
| "nc_match_single i2d (DNSName n) (DNSName b) = nc_dns n b"
| "nc_match_single i2d (Rfc822Name n) (Rfc822Name b) = nc_email n b"
| "nc_match_single i2d (URIName n) (URIName b) = nc_uri n b"
| "nc_match_single i2d _ _ = X509_V_ERR_UNSUPPORTED_CONSTRAINT_TYPE"

section \<open>Matching against the subtrees\<close>

text \<open>The first loop: \<open>found\<close> is the variable \<open>match\<close>; \<open>Inl\<close> is an early return.\<close>

fun nc_permitted_loop :: "name_encoder \<Rightarrow> general_name \<Rightarrow> nat \<Rightarrow> general_subtree list \<Rightarrow> int + nat" where
  "nc_permitted_loop i2d gen found [] = Inr found"
| "nc_permitted_loop i2d gen found (sub # subs) =
     (if gen_type gen \<noteq> gen_type (gs_base sub) then nc_permitted_loop i2d gen found subs
      else if gs_minimum sub \<noteq> None \<or> gs_maximum sub \<noteq> None then Inl X509_V_ERR_SUBTREE_MINMAX
      else if found = 2 then nc_permitted_loop i2d gen found subs
      else let found = (if found = 0 then 1 else found);
               r = nc_match_single i2d gen (gs_base sub)
           in if r = X509_V_OK then nc_permitted_loop i2d gen 2 subs
              else if r \<noteq> X509_V_ERR_PERMITTED_VIOLATION then Inl r
              else nc_permitted_loop i2d gen found subs)"

fun nc_excluded_loop :: "name_encoder \<Rightarrow> general_name \<Rightarrow> general_subtree list \<Rightarrow> int" where
  "nc_excluded_loop i2d gen [] = X509_V_OK"
| "nc_excluded_loop i2d gen (sub # subs) =
     (if gen_type gen \<noteq> gen_type (gs_base sub) then nc_excluded_loop i2d gen subs
      else if gs_minimum sub \<noteq> None \<or> gs_maximum sub \<noteq> None then X509_V_ERR_SUBTREE_MINMAX
      else let r = nc_match_single i2d gen (gs_base sub)
           in if r = X509_V_OK then X509_V_ERR_EXCLUDED_VIOLATION
              else if r \<noteq> X509_V_ERR_PERMITTED_VIOLATION then r
              else nc_excluded_loop i2d gen subs)"

definition nc_match :: "name_encoder \<Rightarrow> general_name \<Rightarrow> name_constraints \<Rightarrow> int" where
  "nc_match i2d gen nc =
     (case nc_permitted_loop i2d gen 0 (permittedSubtrees nc) of
        Inl r \<Rightarrow> r
      | Inr found \<Rightarrow>
          if found = 1 then X509_V_ERR_PERMITTED_VIOLATION
          else nc_excluded_loop i2d gen (excludedSubtrees nc))"

text \<open>The e-mail addresses in the subject.\<close>

function nc_email_loop :: "name_encoder \<Rightarrow> x509_name \<Rightarrow> name_constraints \<Rightarrow> int \<Rightarrow> int" where
  "nc_email_loop i2d nm nc i =
     (let i' = X509_NAME_get_index_by_NID nm NID_pkcs9_emailAddress i
      in if i' < 0 then X509_V_OK
         else let value = ne_value (xn_entries nm ! nat i')
              in if as_type value \<noteq> V_ASN1_IA5STRING then X509_V_ERR_UNSUPPORTED_NAME_SYNTAX
                 else let r = nc_match i2d (Rfc822Name value) nc
                      in if r \<noteq> X509_V_OK then r else nc_email_loop i2d nm nc i')"
  by pat_completeness auto
termination
  by (relation "measure (\<lambda>(i2d, nm, nc, i). nat (int (length (xn_entries nm)) - i))")
    (auto dest!: X509_NAME_get_index_Some [OF refl] simp: not_less)

declare nc_email_loop.simps [simp del]

fun nc_altname_loop :: "name_encoder \<Rightarrow> name_constraints \<Rightarrow> general_name list \<Rightarrow> int" where
  "nc_altname_loop i2d nc [] = X509_V_OK"
| "nc_altname_loop i2d nc (gen # gens) =
     (let r = nc_match i2d gen nc in if r \<noteq> X509_V_OK then r else nc_altname_loop i2d nc gens)"

text \<open>\<open>x->altname\<close> is what \<open>X509_get_ext_d2i\<close> returned when the extensions were cached; it
  has no elements when there are none.\<close>

definition x509_altname :: "x509 \<Rightarrow> general_name list" where
  "x509_altname x = (case x_san x of None \<Rightarrow> [] | Some gens \<Rightarrow> gens)"

definition NAME_CONSTRAINTS_check :: "name_encoder \<Rightarrow> x509 \<Rightarrow> name_constraints \<Rightarrow> int" where
  "NAME_CONSTRAINTS_check i2d x nc =
     (let nm = x_subject x;
          name_count = (length (xn_entries nm) + length (x509_altname x)) mod SIZE_MODULUS;
          constraint_count = (length (permittedSubtrees nc) + length (excludedSubtrees nc)) mod SIZE_MODULUS;
          check_count = (constraint_count * name_count) mod SIZE_MODULUS
      in if name_count < length (xn_entries nm) \<or> constraint_count < length (permittedSubtrees nc) \<or>
            (constraint_count \<noteq> 0 \<and> check_count div constraint_count \<noteq> name_count) \<or> check_count > 2 ^ 20
         then X509_V_ERR_UNSPECIFIED
         else
           let r = (if length (xn_entries nm) > 0
                    then let r = nc_match i2d (DirectoryName nm) nc
                         in if r \<noteq> X509_V_OK then r else nc_email_loop i2d nm nc (-1)
                    else X509_V_OK)
           in if r \<noteq> X509_V_OK then r else nc_altname_loop i2d nc (x509_altname x))"

section \<open>The chain\<close>

record x509_ctx =
  ctx_chain :: "x509 list"
  ctx_error :: int
  ctx_error_depth :: int
  ctx_current_cert :: nat

text \<open>The current certificate is given by its index in the chain.  The callback sees the context
  and answers whether to go on.\<close>

type_synonym verify_cb = "x509_ctx \<Rightarrow> bool"

abbreviation (input) EXFLAG_SI :: u32 where "EXFLAG_SI \<equiv> 0x20"

function reject_dns_loop :: "allocator \<Rightarrow> x509_name \<Rightarrow> int \<Rightarrow> int" where
  "reject_dns_loop al name i =
     (let i' = X509_NAME_get_index_by_NID name NID_commonName i
      in if i' < 0 then X509_V_OK
         else case ASN1_STRING_to_UTF8 al (Some (ne_value (xn_entries name ! nat i'))) of
                (idlen, idval) \<Rightarrow>
                  if idlen < 0 then X509_V_ERR_OUT_OF_MEM
                  else if x509v3_looks_like_dns_name (take (nat idlen) (mem idval))
                  then X509_V_ERR_NAME_CONSTRAINTS_WITHOUT_SANS
                  else reject_dns_loop al name i')"
  by pat_completeness auto
termination
  by (relation "measure (\<lambda>(al, name, i). nat (int (length (xn_entries name)) - i))")
    (auto dest!: X509_NAME_get_index_Some [OF refl] simp: not_less)

declare reject_dns_loop.simps [simp del]

definition reject_dns_name_in_common_name :: "allocator \<Rightarrow> x509 \<Rightarrow> int" where
  "reject_dns_name_in_common_name al x = reject_dns_loop al (x_subject x) (-1)"

text \<open>The body of the switch on the result \<open>rv\<close>, for the certificate at \<open>depth\<close>: \<open>Inl\<close>
  is \<open>return 0\<close>.\<close>

definition nc_verdict :: "verify_cb \<Rightarrow> int \<Rightarrow> int \<Rightarrow> nat \<Rightarrow> x509_ctx \<Rightarrow> x509_ctx + x509_ctx" where
  "nc_verdict cb rv depth cert ctx =
     (if rv = X509_V_OK then Inr ctx
      else if rv = X509_V_ERR_OUT_OF_MEM then Inl (ctx\<lparr>ctx_error := rv\<rparr>)
      else let ctx = ctx\<lparr>ctx_error := rv, ctx_error_depth := depth, ctx_current_cert := cert\<rparr>
           in if \<not> cb ctx then Inl ctx else Inr ctx)"

text \<open>The inner loop over the positions \<open>js\<close> above \<open>i\<close>, and the outer loop over \<open>is\<close>; both
  walk down.  The flag is \<open>has_name_constraints\<close>.\<close>

fun nc_inner_loop ::
  "name_encoder \<Rightarrow> verify_cb \<Rightarrow> nat \<Rightarrow> nat list \<Rightarrow> bool \<Rightarrow> x509_ctx \<Rightarrow> x509_ctx + (bool \<times> x509_ctx)" where
  "nc_inner_loop i2d cb i [] has ctx = Inr (has, ctx)"
| "nc_inner_loop i2d cb i (j # js) has ctx =
     (case x_nc (ctx_chain ctx ! j) of
        None \<Rightarrow> nc_inner_loop i2d cb i js has ctx
      | Some nc \<Rightarrow>
          (case nc_verdict cb (NAME_CONSTRAINTS_check i2d (ctx_chain ctx ! i) nc) (int i) i ctx of
             Inl ctx \<Rightarrow> Inl ctx
           | Inr ctx \<Rightarrow> nc_inner_loop i2d cb i js True ctx))"

fun nc_outer_loop ::
  "name_encoder \<Rightarrow> verify_cb \<Rightarrow> nat list \<Rightarrow> bool \<Rightarrow> x509_ctx \<Rightarrow> x509_ctx + (bool \<times> x509_ctx)" where
  "nc_outer_loop i2d cb [] has ctx = Inr (has, ctx)"
| "nc_outer_loop i2d cb (i # is) has ctx =
     (if i \<noteq> 0 \<and> x_ex_flags (ctx_chain ctx ! i) AND EXFLAG_SI \<noteq> 0 then nc_outer_loop i2d cb is has ctx
      else case nc_inner_loop i2d cb i (rev [i + 1..<length (ctx_chain ctx)]) has ctx of
             Inl ctx \<Rightarrow> Inl ctx
           | Inr (has, ctx) \<Rightarrow> nc_outer_loop i2d cb is has ctx)"

text \<open>After the loops the variable \<open>i\<close> is -1, which is the depth stored for the leaf.\<close>

definition check_name_constraints ::
  "allocator \<Rightarrow> name_encoder \<Rightarrow> verify_cb \<Rightarrow> x509_ctx \<Rightarrow> bool \<times> x509_ctx" where
  "check_name_constraints al i2d cb ctx =
     (case nc_outer_loop i2d cb (rev [0..<length (ctx_chain ctx)]) False ctx of
        Inl ctx \<Rightarrow> (False, ctx)
      | Inr (has, ctx) \<Rightarrow>
          let leaf = ctx_chain ctx ! 0
          in if has \<and> x_san leaf = None
             then case nc_verdict cb (reject_dns_name_in_common_name al leaf) (-1) 0 ctx of
                    Inl ctx \<Rightarrow> (False, ctx)
                  | Inr ctx \<Rightarrow> (True, ctx)
             else (True, ctx))"

end
