(* ===== verification/HostName_Spec.thy ===== *)
theory HostName_Spec
  imports
    HostName
begin

text \<open>
  What the comparison of names promises: which patterns have a wildcard, which hosts a pattern
  covers, and that no comparison reads beyond the names it is given.
\<close>

section \<open>Comparing without case\<close>

definition same_ci :: "bytes \<Rightarrow> bytes \<Rightarrow> bool" where
  "same_ci a b \<longleftrightarrow> map ascii_lower a = map ascii_lower b"

lemma same_ci_simps [simp]:
  "same_ci a a" "same_ci [] b \<longleftrightarrow> b = []" "same_ci b [] \<longleftrightarrow> b = []"
  "same_ci (x # a) (y # b) \<longleftrightarrow> ascii_lower x = ascii_lower y \<and> same_ci a b"
  by (auto simp: same_ci_def)

lemma same_ci_sym: "same_ci a b \<longleftrightarrow> same_ci b a"
  by (auto simp: same_ci_def)

lemma same_ci_trans: "same_ci a b \<Longrightarrow> same_ci b c \<Longrightarrow> same_ci a c"
  by (simp add: same_ci_def)

lemma same_ci_length: "same_ci a b \<Longrightarrow> length a = length b"
  unfolding same_ci_def by (rule map_eq_imp_length_eq)

lemma same_ci_append:
  "length a = length c \<Longrightarrow> same_ci (a @ b) (c @ d) \<longleftrightarrow> same_ci a c \<and> same_ci b d"
  by (simp add: same_ci_def)

lemma byte_range: "(l :: byte) \<in> {a..b} \<longleftrightarrow> unat a \<le> unat l \<and> unat l \<le> unat b"
  by (simp add: word_le_nat_alt)

lemma unat_ascii_lower: "unat (ascii_lower l) = (if 65 \<le> unat l \<and> unat l \<le> 90 then unat l + 32 else unat l)"
  by (auto simp: ascii_lower_def word_le_nat_alt unat_word_ariths unat_sub_if_size)

lemma ascii_lower_fix:
  "c \<notin> {65..90} \<Longrightarrow> c \<notin> {97..122} \<Longrightarrow> ascii_lower l = ascii_lower c \<longleftrightarrow> l = c"
  unfolding byte_range word_unat_eq_iff unat_ascii_lower by auto

lemma ascii_lower_signs [simp]:
  "ascii_lower l = ascii_lower 46 \<longleftrightarrow> l = 46" "ascii_lower 46 = ascii_lower l \<longleftrightarrow> l = 46"
  "ascii_lower l = ascii_lower 42 \<longleftrightarrow> l = 42" "ascii_lower 42 = ascii_lower l \<longleftrightarrow> l = 42"
  "ascii_lower l = ascii_lower 0 \<longleftrightarrow> l = 0" "ascii_lower 0 = ascii_lower l \<longleftrightarrow> l = 0"
  using ascii_lower_fix [of 46 l] ascii_lower_fix [of 42 l] ascii_lower_fix [of 0 l] by (auto simp: byte_range)

lemma same_ci_mem:
  assumes "same_ci a b" "c \<in> {0, 42, 46}"
  shows "c \<in> set a \<longleftrightarrow> c \<in> set b"
  using assms
proof (induction a arbitrary: b)
  case (Cons x a)
  then show ?case by (cases b) auto
qed simp

lemma same_ci_count: "same_ci a b \<Longrightarrow> count_list a 46 = count_list b 46"
proof (induction a arbitrary: b)
  case (Cons x a)
  then show ?case by (cases b) auto
qed simp

lemma equal_nocase_loop_iff:
  "length p = length s \<Longrightarrow> equal_nocase_loop p s \<longleftrightarrow> same_ci p s \<and> 0 \<notin> set p"
  by (induction p s rule: equal_nocase_loop.induct) auto

lemma skip_prefix_same: "length p = length s \<Longrightarrow> skip_prefix p s flags = p"
  by (cases p) (auto simp: skip_prefix_def Let_def)

lemma equal_nocase_same_length:
  "length p = length s \<Longrightarrow> equal_nocase p s flags \<longleftrightarrow> same_ci p s \<and> 0 \<notin> set p"
  by (simp add: equal_nocase_def skip_prefix_same equal_nocase_loop_iff)

lemma equal_nocase_iff:
  "flags AND X509_CHECK_FLAG_DOT_SUBDOMAINS = 0 \<Longrightarrow> equal_nocase p s flags \<longleftrightarrow> same_ci p s \<and> 0 \<notin> set p"
  by (auto simp: equal_nocase_def skip_prefix_def equal_nocase_loop_iff dest: same_ci_length)

section \<open>IDNA prefixes\<close>

definition idna :: "bytes \<Rightarrow> bool" where
  "idna l \<longleftrightarrow> 4 \<le> length l \<and> same_ci (take 4 l) xn_dashes"

lemma tolower_byte:
  assumes "unat v < 128" "v \<notin> {65..90}"
  shows "OPENSSL_tolower (sint (c :: byte)) = sint v \<longleftrightarrow> ascii_lower c = v"
    and "OPENSSL_tolower (sint v) = sint v"
proof -
  have range: "unat w < 256" for w :: byte using unsigned_less [of w] by simp
  have wrap: "n < 256 \<Longrightarrow> (int n + 128) mod 256 - 128 = (if n < 128 then int n else int n - 256)" for n
  proof (cases "n < 128")
    case False
    assume "n < 256"
    have "(int n - 128 + 256) mod 256 = (int n - 128) mod 256" by (rule mod_add_self2)
    also have "\<dots> = int n - 128" using False \<open>n < 256\<close> by (intro mod_pos_pos_trivial) simp_all
    finally show ?thesis using False by (simp add: add.commute)
  qed simp
  have sint: "sint w = (if unat w < 128 then int (unat w) else int (unat w) - 256)" for w :: byte
    using int_word_sint [where 'a = 8, of "int (unat w)"] wrap [OF range [of w]] by simp
  define n m where nm: "n = unat c" "m = unat v"
  have c: "sint c = (if n < 128 then int n else int n - 256)" "n < 256"
    using range [of c] by (simp_all only: sint nm)
  have v: "sint v = int m" "m < 128" by (simp_all only: sint nm assms(1) if_True)
  have e: "int n + 32 = int m \<longleftrightarrow> n + 32 = m" by presburger
  have m: "\<not> (65 \<le> m \<and> m \<le> 90)" using assms(2) by (simp add: word_le_nat_alt nm)
  show "OPENSSL_tolower (sint v) = sint v"
    using v m by (auto simp: OPENSSL_tolower_def)
  have "ascii_lower c = v \<longleftrightarrow> (if 65 \<le> n \<and> n \<le> 90 then n + 32 else n) = m"
    by (simp only: word_unat_eq_iff unat_ascii_lower nm)
  then show "OPENSSL_tolower (sint c) = sint v \<longleftrightarrow> ascii_lower c = v"
    unfolding OPENSSL_tolower_def c v(1) using m v(2) c(2) by (cases "n < 128"; cases "65 \<le> n"; cases "n \<le> 90") (simp_all add: e)
qed

lemma strncasecmp_step:
  assumes "unat v < 128" "v \<notin> {65..90}" "v \<noteq> 0"
  shows "OPENSSL_strncasecmp (c # s) (v # t) (Suc n) = 0 \<longleftrightarrow> ascii_lower c = v \<and> OPENSSL_strncasecmp s t n = 0"
proof -
  have "sint v \<noteq> 0" using assms(3) by (metis signed_0 sint_word_01(1) signed_word_eqI)
  then show ?thesis
    unfolding OPENSSL_strncasecmp.simps Let_def c_char_def list.case tolower_byte(2) [OF assms(1,2)]
    by (simp add: tolower_byte(1) [OF assms(1,2), of c, symmetric] not_less)
qed

lemma strncasecmp_idna:
  assumes "4 \<le> length s"
  shows "OPENSSL_strncasecmp s xn_dashes 4 = 0 \<longleftrightarrow> idna s"
proof -
  obtain a b c d r where s: "s = a # b # c # d # r"
    using assms by (auto simp: Suc_le_length_iff numeral_eq_Suc)
  have lower: "ascii_lower 120 = 120" "ascii_lower 110 = 110" "ascii_lower 45 = 45" by (simp_all add: ascii_lower_def)
  have n: "4 = Suc (Suc (Suc (Suc 0)))" by simp
  have step: "OPENSSL_strncasecmp (x # t) (120 # u) (Suc k) = 0 \<longleftrightarrow> ascii_lower x = 120 \<and> OPENSSL_strncasecmp t u k = 0"
    "OPENSSL_strncasecmp (x # t) (110 # u) (Suc k) = 0 \<longleftrightarrow> ascii_lower x = 110 \<and> OPENSSL_strncasecmp t u k = 0"
    "OPENSSL_strncasecmp (x # t) (45 # u) (Suc k) = 0 \<longleftrightarrow> ascii_lower x = 45 \<and> OPENSSL_strncasecmp t u k = 0" for x t u k
    by (rule strncasecmp_step; simp add: byte_range)+
  have "OPENSSL_strncasecmp s xn_dashes 4 = 0 \<longleftrightarrow>
      ascii_lower a = 120 \<and> ascii_lower b = 110 \<and> ascii_lower c = 45 \<and> ascii_lower d = 45"
    unfolding s n step by simp
  then show ?thesis by (simp add: idna_def s lower)
qed


section \<open>Patterns\<close>

definition ldh :: "byte \<Rightarrow> bool" where
  "ldh c \<longleftrightarrow> ldh_alnum c \<or> c = hyphen"

text \<open>A label of letters, digits and inner hyphens; labels with a dot in front of each.\<close>

definition host_label :: "bytes \<Rightarrow> bool" where
  "host_label l \<longleftrightarrow> l \<noteq> [] \<and> list_all ldh l \<and> hd l \<noteq> hyphen \<and> last l \<noteq> hyphen"

definition dotted :: "bytes list \<Rightarrow> bytes" where
  "dotted ls = concat (map ((#) dot) ls)"

lemma dotted_simps [simp]: "dotted [] = []" "dotted (l # ls) = dot # l @ dotted ls"
  by (simp_all add: dotted_def)

text \<open>The first label of a pattern, around its star.\<close>

definition star_label :: "u32 \<Rightarrow> bytes \<Rightarrow> bytes \<Rightarrow> bool" where
  "star_label flags pre post \<longleftrightarrow>
     (pre = [] \<or> post = []) \<and>
     (flags AND X509_CHECK_FLAG_NO_PARTIAL_WILDCARDS \<noteq> 0 \<longrightarrow> pre = [] \<and> post = []) \<and>
     list_all ldh pre \<and> list_all ldh post \<and>
     (pre \<noteq> [] \<longrightarrow> hd pre \<noteq> hyphen \<and> last pre \<noteq> hyphen) \<and> (post \<noteq> [] \<longrightarrow> last post \<noteq> hyphen) \<and>
     \<not> idna pre"

definition wildcard_pattern :: "u32 \<Rightarrow> bytes \<Rightarrow> bytes \<Rightarrow> bytes \<Rightarrow> bytes list \<Rightarrow> bool" where
  "wildcard_pattern flags p pre post ls \<longleftrightarrow>
     p = pre @ star # post @ dotted ls \<and> star_label flags pre post \<and> list_all host_label ls \<and> 2 \<le> length ls"

lemma char_classes:
  "\<not> ldh_alnum 42" "\<not> ldh_alnum 46" "\<not> ldh_alnum 45"
  "\<not> ldh 42" "\<not> ldh 46" "ldh 45" "ldh_alnum c \<Longrightarrow> ldh c"
  "ldh_alnum c \<Longrightarrow> c \<noteq> 42" "ldh_alnum c \<Longrightarrow> c \<noteq> 46" "ldh_alnum c \<Longrightarrow> c \<noteq> 45"
  "ldh c \<Longrightarrow> c \<noteq> 42" "ldh c \<Longrightarrow> c \<noteq> 46" "ldh c \<Longrightarrow> c \<noteq> 0"
  by (auto simp: ldh_def ldh_alnum_def)

subsection \<open>After the star\<close>

text \<open>What is left to be seen when \<open>s\<close> says that a label starts and \<open>h\<close> that the last
  character was a hyphen.\<close>

fun rest_ok :: "bool \<Rightarrow> bool \<Rightarrow> nat \<Rightarrow> bytes \<Rightarrow> bool" where
  "rest_ok s h dots [] \<longleftrightarrow> \<not> s \<and> \<not> h \<and> 2 \<le> dots"
| "rest_ok s h dots (c # p) \<longleftrightarrow>
     (if ldh_alnum c then rest_ok False False dots p
      else if c = dot then \<not> s \<and> \<not> h \<and> rest_ok True False (dots + 1) p
      else if c = hyphen then \<not> s \<and> rest_ok False True dots p
      else False)"

lemma rest_ok_iff:
  "rest_ok s h dots p \<longleftrightarrow>
     (\<exists>l ls. p = l @ dotted ls \<and> list_all ldh l \<and>
        (if l = [] then \<not> s \<and> \<not> h else last l \<noteq> hyphen \<and> (s \<longrightarrow> hd l \<noteq> hyphen)) \<and>
        list_all host_label ls \<and> 2 \<le> dots + length ls)"
  (is "_ \<longleftrightarrow> (\<exists>l ls. ?P s h dots p l ls)")
proof (induction p arbitrary: s h dots)
  case Nil
  have "?P s h dots [] l ls \<longleftrightarrow> l = [] \<and> ls = [] \<and> \<not> s \<and> \<not> h \<and> 2 \<le> dots" for l ls
    by (cases l; cases ls) auto
  then show ?case by auto
next
  case (Cons c p)
  show ?case
  proof
    assume r: "rest_ok s h dots (c # p)"
    then consider "ldh_alnum c" "rest_ok False False dots p"
      | "c = dot" "\<not> s" "\<not> h" "rest_ok True False (dots + 1) p"
      | "c = hyphen" "\<not> s" "rest_ok False True dots p"
      by (auto split: if_splits)
    then show "\<exists>l ls. ?P s h dots (c # p) l ls"
    proof cases
      case 1
      then obtain l ls where "?P False False dots p l ls" using Cons.IH by blast
      with 1 show ?thesis
        by (intro exI [of _ "c # l"] exI [of _ ls]) (auto simp: char_classes)
    next
      case 2
      then obtain l ls where "?P True False (dots + 1) p l ls" using Cons.IH by blast
      with 2 show ?thesis
        by (intro exI [of _ "[]"] exI [of _ "l # ls"]) (auto simp: host_label_def split: if_splits)
    next
      case 3
      then obtain l ls where "?P False True dots p l ls" using Cons.IH by blast
      with 3 show ?thesis
        by (intro exI [of _ "c # l"] exI [of _ ls]) (auto simp: char_classes split: if_splits)
    qed
  next
    assume "\<exists>l ls. ?P s h dots (c # p) l ls"
    then obtain l ls where P: "?P s h dots (c # p) l ls" by blast
    show "rest_ok s h dots (c # p)"
    proof (cases l)
      case Nil
      with P obtain l' ls' where ls: "ls = l' # ls'" by (cases ls) auto
      with P Nil have "?P True False (dots + 1) p l' ls'" by (auto simp: host_label_def)
      then have "rest_ok True False (dots + 1) p" using Cons.IH by blast
      with P Nil ls show ?thesis by (auto simp: char_classes)
    next
      case (Cons d l')
      with P have d: "d = c" "p = l' @ dotted ls" "ldh c" by auto
      show ?thesis
      proof (cases "c = hyphen")
        case True
        with P Cons d have "?P False True dots p l' ls" by (auto split: if_splits)
        then have "rest_ok False True dots p" using Cons.IH by blast
        with True P Cons d show ?thesis by (auto simp: char_classes)
      next
        case False
        with P Cons d have "?P False False dots p l' ls" by (auto split: if_splits)
        then have "rest_ok False False dots p" using Cons.IH by blast
        with False d show ?thesis by (auto simp: ldh_def)
      qed
    qed
  qed
qed

subsection \<open>Before the star\<close>

lemma state_bits:
  "w AND LABEL_START \<noteq> 0 \<longleftrightarrow> bit w 0" "w AND LABEL_IDNA \<noteq> 0 \<longleftrightarrow> bit w 3"
  "w AND (LABEL_START OR LABEL_HYPHEN) \<noteq> 0 \<longleftrightarrow> bit w 0 \<or> bit (w :: u32) 2"
  "w AND (LABEL_HYPHEN OR LABEL_START) \<noteq> 0 \<longleftrightarrow> bit w 0 \<or> bit w 2"
proof -
  have *: "w AND 2 ^ k \<noteq> 0 \<longleftrightarrow> bit w k" for k using and_exp_eq_0_iff_not_bit [of w k] by simp
  show "w AND LABEL_START \<noteq> 0 \<longleftrightarrow> bit w 0" "w AND LABEL_IDNA \<noteq> 0 \<longleftrightarrow> bit w 3"
    using * [of 0] * [of 3] by simp_all
  have "w AND (2 ^ 0 OR 2 ^ 2) \<noteq> 0 \<longleftrightarrow> bit w 0 \<or> bit w 2"
  proof -
    have "w AND (2 ^ 0 OR 2 ^ 2) = (w AND 2 ^ 0) OR (w AND 2 ^ 2)"
      by (rule bit_word_eqI) (simp only: bit_and_iff bit_or_iff, blast)
    then have "w AND (2 ^ 0 OR 2 ^ 2) = 0 \<longleftrightarrow> w AND 2 ^ 0 = 0 \<and> w AND 2 ^ 2 = 0"
      by (simp only: or_eq_0_iff)
    with * [of 0] * [of 2] show ?thesis by blast
  qed
  then show "w AND (LABEL_START OR LABEL_HYPHEN) \<noteq> 0 \<longleftrightarrow> bit w 0 \<or> bit w 2"
    "w AND (LABEL_HYPHEN OR LABEL_START) \<noteq> 0 \<longleftrightarrow> bit w 0 \<or> bit w 2" by simp_all
qed

lemma state_updates:
  "bit (w AND NOT LABEL_START) i \<longleftrightarrow> bit (w :: u32) i \<and> i \<noteq> 0"
  "bit (w OR LABEL_IDNA) i \<longleftrightarrow> bit w i \<or> i = 3"
  "bit (w OR LABEL_HYPHEN) i \<longleftrightarrow> bit w i \<or> i = 2"
  "bit (w AND NOT (LABEL_HYPHEN OR LABEL_START)) i \<longleftrightarrow> bit w i \<and> i \<noteq> 0 \<and> i \<noteq> 2"
  "bit LABEL_START i \<longleftrightarrow> i = 0"
proof -
  have u: "bit (w OR 2 ^ k) i \<longleftrightarrow> bit w i \<or> i = k" if "k < 32" for k
    using that by (auto simp: bit_simps)
  have c: "bit (w AND NOT (2 ^ k)) i \<longleftrightarrow> bit w i \<and> i \<noteq> k" for k
    by (auto simp: bit_simps dest: bit_imp_le_length)
  have c2: "bit (w AND NOT (2 ^ 2 OR 2 ^ 0)) i \<longleftrightarrow> bit w i \<and> i \<noteq> 0 \<and> i \<noteq> 2"
    by (simp only: bit_and_iff bit_not_iff bit_or_iff bit_exp_iff) (auto dest: bit_imp_le_length)
  have p: "bit (2 ^ 0 :: u32) i \<longleftrightarrow> i = 0" by (auto simp: bit_simps)
  from u [of 3] u [of 2] c [of 0] c2 p show
    "bit (w AND NOT LABEL_START) i \<longleftrightarrow> bit w i \<and> i \<noteq> 0"
    "bit (w OR LABEL_IDNA) i \<longleftrightarrow> bit w i \<or> i = 3"
    "bit (w OR LABEL_HYPHEN) i \<longleftrightarrow> bit w i \<or> i = 2"
    "bit (w AND NOT (LABEL_HYPHEN OR LABEL_START)) i \<longleftrightarrow> bit w i \<and> i \<noteq> 0 \<and> i \<noteq> 2"
    "bit LABEL_START i \<longleftrightarrow> i = 0" by simp_all
qed

lemmas valid_star_cases = char_classes state_bits state_updates

lemma valid_star_after:
  "valid_star_loop flags i p w dots (Some k) = (if rest_ok (bit w 0) (bit w 2) dots p then Some k else None)"
proof (induction p arbitrary: i w dots)
  case Nil
  show ?case unfolding valid_star_loop.simps rest_ok.simps state_bits by auto
next
  case (Cons c p)
  show ?case
    unfolding valid_star_loop.simps rest_ok.simps Let_def state_bits Cons.IH state_updates
    by (auto simp: char_classes state_updates)
qed

lemma valid_star_no_star:
  "0 < dots \<Longrightarrow> valid_star_loop flags i p w dots None = None"
  by (induction flags i p w dots "None :: nat option" rule: valid_star_loop.induct) (auto simp: Let_def)


text \<open>The star, with what comes before it: \<open>w\<close> says whether a label starts, ended in a hyphen or
  is an IDNA label.\<close>

lemma idna_star: "idna (pre @ star # r) \<longleftrightarrow> idna pre"
proof -
  have "\<not> same_ci (take 4 (pre @ star # r)) xn_dashes" if "length pre < 4"
  proof
    assume "same_ci (take 4 (pre @ star # r)) xn_dashes"
    from same_ci_mem [OF this, of star] that show False by (simp add: take_Cons')
  qed
  then show ?thesis by (cases "length pre < 4") (auto simp: idna_def)
qed

definition star_at :: "u32 \<Rightarrow> u32 \<Rightarrow> bytes \<Rightarrow> bytes \<Rightarrow> bool" where
  "star_at flags w pre r \<longleftrightarrow>
     list_all ldh pre \<and> (bit w 0 \<and> pre \<noteq> [] \<longrightarrow> hd pre \<noteq> hyphen) \<and> \<not> bit w 3 \<and> \<not> (bit w 0 \<and> idna pre) \<and>
     (let atstart = (bit w 0 \<and> pre = []); atend = (r = [] \<or> hd r = dot)
      in (flags AND X509_CHECK_FLAG_NO_PARTIAL_WILDCARDS \<noteq> 0 \<longrightarrow> atstart \<and> atend) \<and> (atstart \<or> atend)) \<and>
     rest_ok False (if pre = [] then bit w 2 else last pre = hyphen) 0 r"

lemma star_at_not_ldh: "\<not> ldh c \<Longrightarrow> \<not> star_at flags w (c # pre) r"
  by (simp add: star_at_def)

lemma star_at_Nil:
  "valid_star_loop flags i (star # p) w 0 None = Some k \<longleftrightarrow> k = i \<and> star_at flags w [] p"
  unfolding valid_star_loop.simps Let_def state_bits valid_star_after state_updates star_at_def
  by (cases "bit w 0"; cases "bit w 3"; cases "p = [] \<or> hd p = dot") (auto simp: idna_def)

lemma star_at_alnum:
  assumes "ldh_alnum c"
  shows "star_at flags w (c # pre) r \<longleftrightarrow> \<not> (bit w 0 \<and> idna (c # pre)) \<and>
      star_at flags (w AND NOT (LABEL_HYPHEN OR LABEL_START)) pre r"
  unfolding star_at_def Let_def state_updates
  using assms char_classes(10) [OF assms] char_classes(7) [OF assms] by (cases "pre = []") (simp_all, blast+)

lemma star_at_idna: "\<not> star_at flags ((w OR LABEL_IDNA) AND NOT (LABEL_HYPHEN OR LABEL_START)) pre r"
  unfolding star_at_def state_updates by simp

lemma star_at_hyphen:
  "star_at flags w (45 # pre) r \<longleftrightarrow> \<not> bit w 0 \<and> star_at flags (w OR LABEL_HYPHEN) pre r"
proof -
  have "\<not> idna (45 # pre)" by (simp add: idna_def ascii_lower_def)
  then show ?thesis
    unfolding star_at_def Let_def state_updates by (cases "pre = []") (auto simp: char_classes)
qed

lemma first_star:
  "(\<exists>pre r. c # p = pre @ star # r \<and> R pre r) \<longleftrightarrow> c = star \<and> R [] p \<or> (\<exists>pre r. p = pre @ star # r \<and> R (c # pre) r)"
  (is "?l \<longleftrightarrow> ?r")
proof
  assume ?l
  then obtain pre r where "c # p = pre @ star # r" "R pre r" by blast
  then show ?r by (cases pre) auto
next
  assume ?r
  then show ?l
  proof
    assume "c = star \<and> R [] p"
    then show ?l by (intro exI [of _ "[]"] exI [of _ p]) simp
  next
    assume "\<exists>pre r. p = pre @ star # r \<and> R (c # pre) r"
    then obtain pre r where "p = pre @ star # r \<and> R (c # pre) r" by blast
    then show ?l by (intro exI [of _ "c # pre"] exI [of _ r]) simp
  qed
qed

lemma valid_star_before:
  "valid_star_loop flags i p w 0 None = Some k \<longleftrightarrow>
     (\<exists>pre r. p = pre @ star # r \<and> k = i + length pre \<and> star_at flags w pre r)"
proof (induction p arbitrary: i w)
  case Nil
  then show ?case by simp
next
  case (Cons c p)
  consider "c = star" | "ldh_alnum c" | "c = dot" | "c = hyphen" | "\<not> ldh c" "c \<noteq> star" "c \<noteq> dot"
    by (auto simp: ldh_def)
  then show ?case
  proof cases
    case 1
    then show ?thesis
      unfolding first_star [where R = "\<lambda>pre r. k = i + length pre \<and> star_at flags w pre r"]
      by (simp add: star_at_Nil star_at_not_ldh char_classes del: valid_star_loop.simps)
  next
    case 3
    then show ?thesis
      unfolding first_star [where R = "\<lambda>pre r. k = i + length pre \<and> star_at flags w pre r"]
      by (simp add: star_at_not_ldh char_classes valid_star_no_star)
  next
    case 5
    then show ?thesis
      unfolding first_star [where R = "\<lambda>pre r. k = i + length pre \<and> star_at flags w pre r"]
      by (simp add: star_at_not_ldh ldh_def)
  next
    case 2
    let ?w = "if bit w 0 \<and> idna (c # p) then w OR LABEL_IDNA else w"
    have "valid_star_loop flags i (c # p) w 0 None =
        valid_star_loop flags (i + 1) p (?w AND NOT (LABEL_HYPHEN OR LABEL_START)) 0 None"
      using 2 strncasecmp_idna [of "c # p"] by (auto simp: Let_def char_classes state_bits idna_def)
    also have "\<dots> = Some k \<longleftrightarrow> (\<exists>pre r. p = pre @ star # r \<and> k = i + 1 + length pre \<and>
        star_at flags (?w AND NOT (LABEL_HYPHEN OR LABEL_START)) pre r)" by (rule Cons.IH)
    also have "\<dots> \<longleftrightarrow> (\<exists>pre r. p = pre @ star # r \<and> k = i + length (c # pre) \<and> star_at flags w (c # pre) r)"
      using idna_star [of "c # _"] by (intro iff_exI conj_cong refl) (auto simp: star_at_alnum [OF 2] star_at_idna star_at_idna [simplified])
    finally show ?thesis using 2
      unfolding first_star [where R = "\<lambda>pre r. k = i + length pre \<and> star_at flags w pre r"]
      by (simp add: char_classes del: valid_star_loop.simps)
  next
    case 4
    have "valid_star_loop flags i (c # p) w 0 None =
        (if bit w 0 then None else valid_star_loop flags (i + 1) p (w OR LABEL_HYPHEN) 0 None)"
      using 4 by (auto simp: char_classes state_bits)
    with 4 Cons.IH [of "i + 1" "w OR LABEL_HYPHEN"] show ?thesis
      unfolding first_star [where R = "\<lambda>pre r. k = i + length pre \<and> star_at flags w pre r"]
      by (simp add: star_at_hyphen del: valid_star_loop.simps)
  qed
qed


lemma post_end: "list_all ldh post \<Longrightarrow> ls \<noteq> [] \<Longrightarrow> post @ dotted ls = [] \<or> hd (post @ dotted ls) = dot \<longleftrightarrow> post = []"
  by (cases post; cases ls) (auto simp: char_classes)

lemma star_at_start:
  "star_at flags LABEL_START pre r \<longleftrightarrow>
     (\<exists>post ls. r = post @ dotted ls \<and> star_label flags pre post \<and> list_all host_label ls \<and> 2 \<le> length ls)"
proof -
  have "star_at flags LABEL_START pre r \<longleftrightarrow>
     list_all ldh pre \<and> (pre \<noteq> [] \<longrightarrow> hd pre \<noteq> hyphen) \<and> \<not> idna pre \<and>
     (flags AND X509_CHECK_FLAG_NO_PARTIAL_WILDCARDS \<noteq> 0 \<longrightarrow> pre = [] \<and> (r = [] \<or> hd r = dot)) \<and> (pre = [] \<or> r = [] \<or> hd r = dot) \<and>
     (\<exists>post ls. r = post @ dotted ls \<and> list_all ldh post \<and>
        (if post = [] then pre = [] \<or> last pre \<noteq> hyphen else last post \<noteq> hyphen) \<and>
        list_all host_label ls \<and> 2 \<le> length ls)"
    unfolding star_at_def rest_ok_iff Let_def state_updates by (cases "pre = []") auto
  moreover have "ls \<noteq> []" if "2 \<le> length ls" for ls :: "bytes list" using that by auto
  ultimately show ?thesis
    using post_end unfolding star_label_def by (smt (verit, best))
qed

lemma valid_star_iff:
  "valid_star p flags = Some k \<longleftrightarrow> (\<exists>pre post ls. wildcard_pattern flags p pre post ls \<and> k = length pre)"
  unfolding valid_star_def valid_star_before star_at_start wildcard_pattern_def by auto

text \<open>A pattern has at most one reading.\<close>

lemma wildcard_pattern_star:
  assumes "wildcard_pattern flags p pre post ls"
  shows "p = pre @ star # post @ dotted ls" "post @ dotted ls \<noteq> []" "0 \<notin> set p"
    "star \<notin> set pre" "star \<notin> set (post @ dotted ls)" "dot \<notin> set pre" "dot \<notin> set post" "list_all host_label ls" "2 \<le> length ls"
proof -
  have n: "\<not> ldh 0" by (auto simp: ldh_def ldh_alnum_def)
  have labels: "0 \<notin> set (dotted ls) \<and> star \<notin> set (dotted ls)" if "list_all host_label ls" for ls
    using that by (induction ls) (auto simp: host_label_def list_all_iff char_classes n)
  have a: "p = pre @ star # post @ dotted ls" "list_all ldh pre" "list_all ldh post" "list_all host_label ls" "2 \<le> length ls"
    using assms by (auto simp: wildcard_pattern_def star_label_def)
  have no: "c \<notin> set l" if "list_all ldh l" "\<not> ldh c" for l c
    using that by (auto simp: list_all_iff)
  show "p = pre @ star # post @ dotted ls" "list_all host_label ls" "2 \<le> length ls" by (rule a)+
  show "post @ dotted ls \<noteq> []" using a(5) by (cases ls) auto
  show "star \<notin> set pre" "dot \<notin> set pre" "dot \<notin> set post" using no [OF a(2)] no [OF a(3)] char_classes by blast+
  show "star \<notin> set (post @ dotted ls)" using no [OF a(3)] char_classes(4) labels [OF a(4)] by simp
  show "0 \<notin> set p" using no [OF a(3) n] no [OF a(2) n] labels [OF a(4)] a(1) by simp
qed

section \<open>Covering\<close>

text \<open>The part of a host that stands for the star.  A star that is a whole label may stand for
  several when the flag says so; one inside a label does not reach into IDNA names.\<close>

definition star_covers :: "u32 \<Rightarrow> bool \<Rightarrow> bytes \<Rightarrow> bytes \<Rightarrow> bool" where
  "star_covers flags whole host m \<longleftrightarrow>
     (m = [star] \<or> list_all (\<lambda>c. ldh c \<or> whole \<and> flags AND X509_CHECK_FLAG_MULTI_LABEL_WILDCARDS \<noteq> 0 \<and> c = dot) m) \<and>
     (if whole then m \<noteq> [] else \<not> idna host)"

definition pattern_covers :: "u32 \<Rightarrow> bytes \<Rightarrow> bytes \<Rightarrow> bytes list \<Rightarrow> bytes \<Rightarrow> bool" where
  "pattern_covers flags pre post ls host \<longleftrightarrow>
     (\<exists>x m y. host = x @ m @ y \<and> same_ci x pre \<and> same_ci y (post @ dotted ls) \<and>
        star_covers flags (pre = [] \<and> post = []) host m)"

lemma split_ends:
  assumes "length a + length b \<le> length s"
  shows "\<exists>x m y. s = x @ m @ y \<and> length x = length a \<and> length y = length b"
proof (intro exI conjI)
  let ?n = "length s - length a - length b"
  show "s = take (length a) s @ take ?n (drop (length a) s) @ drop ?n (drop (length a) s)"
    by (simp only: append_take_drop_id)
qed (use assms in auto)

lemma wildcard_match_split:
  assumes len: "length x = length pre" "length y = length suf" and suf: "suf \<noteq> []" and z: "0 \<notin> set pre" "0 \<notin> set suf"
  shows "wildcard_match pre suf (x @ m @ y) flags =
    Some (same_ci x pre \<and> same_ci y suf \<and> star_covers flags (pre = [] \<and> hd suf = dot) (x @ m @ y) m)"
proof -
  have nulls: "same_ci y suf \<Longrightarrow> 0 \<notin> set y" using same_ci_mem [of y suf 0] z(2) by simp
  have parts: "take (length pre) (x @ m @ y) = x"
    "take (length (x @ m @ y) - length suf - length pre) (drop (length pre) (x @ m @ y)) = m"
    "drop (length (x @ m @ y) - length suf) (x @ m @ y) = y"
    "\<not> length (x @ m @ y) < length pre + length suf" using len by simp_all
  define w where "w \<longleftrightarrow> pre = [] \<and> hd suf = dot"
  have whole: "(if pre = [] then (case suf of [] \<Rightarrow> None | c # _ \<Rightarrow> Some (c = dot)) else Some False) = Some w"
    using suf by (cases suf) (auto simp: w_def)
  have xn: "length (x @ m @ y) \<ge> 4 \<and> OPENSSL_strncasecmp (x @ m @ y) xn_dashes 4 = 0 \<longleftrightarrow> idna (x @ m @ y)"
    using strncasecmp_idna [of "x @ m @ y"] by (auto simp only: idna_def)
  have chars: "(\<lambda>c. ldh_alnum c \<or> c = hyphen \<or> (w \<and> f) \<and> c = dot) = (\<lambda>c. ldh c \<or> w \<and> f \<and> c = dot)" for f
    by (auto simp: ldh_def fun_eq_iff)
  have nocase: "equal_nocase pre x flags \<longleftrightarrow> same_ci x pre" "equal_nocase y suf flags \<longleftrightarrow> same_ci y suf"
    using len z nulls by (auto simp: equal_nocase_same_length same_ci_sym [of pre x])
  show ?thesis
    unfolding wildcard_match_def Let_def parts whole option.case xn chars nocase star_covers_def w_def [symmetric]
    by (cases "same_ci x pre"; cases "same_ci y suf"; cases w; cases "m = []"; cases "m = [star]"; simp add: len)
qed

lemma wildcard_match_iff:
  assumes suf: "suf \<noteq> []" and z: "0 \<notin> set pre" "0 \<notin> set suf"
  shows "wildcard_match pre suf host flags =
    Some (\<exists>x m y. host = x @ m @ y \<and> same_ci x pre \<and> same_ci y suf \<and> star_covers flags (pre = [] \<and> hd suf = dot) host m)"
proof (cases "length pre + length suf \<le> length host")
  case True
  then obtain x m y where h: "host = x @ m @ y" "length x = length pre" "length y = length suf"
    using split_ends by blast
  have uniq: "x' = x \<and> m' = m \<and> y' = y" if "host = x' @ m' @ y'" "same_ci x' pre" "same_ci y' suf" for x' m' y'
    using that(1) h same_ci_length [OF that(2)] same_ci_length [OF that(3)] by (simp add: append_eq_append_conv)
  have "(\<exists>x m y. host = x @ m @ y \<and> same_ci x pre \<and> same_ci y suf \<and> star_covers flags (pre = [] \<and> hd suf = dot) host m) \<longleftrightarrow>
      same_ci x pre \<and> same_ci y suf \<and> star_covers flags (pre = [] \<and> hd suf = dot) host m" (is "?l \<longleftrightarrow> ?r")
  proof
    assume ?l
    then obtain x' m' y' where r: "host = x' @ m' @ y'" "same_ci x' pre" "same_ci y' suf"
      "star_covers flags (pre = [] \<and> hd suf = dot) host m'" by blast
    from uniq [OF r(1,2,3)] r show ?r by simp
  next
    assume ?r
    with h(1) show ?l by blast
  qed
  with wildcard_match_split [OF h(2,3) suf z, of m flags] h(1) show ?thesis by (simp only:)
next
  case False
  then have "\<not> (host = x @ m @ y \<and> same_ci x pre \<and> same_ci y suf)" for x m y
    using same_ci_length [of x pre] same_ci_length [of y suf] by auto
  then have "\<not> (\<exists>x m y. host = x @ m @ y \<and> same_ci x pre \<and> same_ci y suf \<and> star_covers flags (pre = [] \<and> hd suf = dot) host m)"
    by blast
  with False show ?thesis by (simp add: wildcard_match_def)
qed


text \<open>A host that starts with a dot stands for its subdomains, and no wildcard is used for it.\<close>

lemma equal_wildcard_iff:
  assumes dot: "\<not> (1 < length host \<and> hd host = dot)" and flag: "flags AND X509_CHECK_FLAG_DOT_SUBDOMAINS = 0"
  shows "equal_wildcard p host flags =
    Some (if \<exists>pre post ls. wildcard_pattern flags p pre post ls
          then \<exists>pre post ls. wildcard_pattern flags p pre post ls \<and> pattern_covers flags pre post ls host
          else same_ci p host \<and> 0 \<notin> set p)"
proof (cases "valid_star p flags")
  case None
  then have "\<not> (\<exists>pre post ls. wildcard_pattern flags p pre post ls)" using valid_star_iff [of p flags] by auto
  with None dot show ?thesis by (auto simp: equal_wildcard_def equal_nocase_iff [OF flag])
next
  case (Some k)
  then obtain pre post ls where w: "wildcard_pattern flags p pre post ls" "k = length pre"
    using valid_star_iff [of p flags k] by blast
  have uniq: "pre' = pre \<and> post' @ dotted ls' = post @ dotted ls" if "wildcard_pattern flags p pre' post' ls'" for pre' post' ls'
    using wildcard_pattern_star [OF that] wildcard_pattern_star [OF w(1)] append_Cons_eq_iff by metis
  have cut: "take k p = pre" "drop (k + 1) p = post @ dotted ls"
    using wildcard_pattern_star(1) [OF w(1)] w(2) by simp_all
  note star = wildcard_pattern_star [OF w(1)]
  have whole: "hd (post' @ dotted ls') = dot \<longleftrightarrow> post' = []" if "wildcard_pattern flags p pre' post' ls'" for pre' post' ls'
  proof -
    have "list_all ldh post'" using that by (simp add: wildcard_pattern_def star_label_def)
    moreover have "ls' \<noteq> []" using wildcard_pattern_star(9) [OF that] by auto
    ultimately show ?thesis using post_end wildcard_pattern_star(2) [OF that] by blast
  qed
  have eq: "equal_wildcard p host flags = Some (pattern_covers flags pre post ls host)"
    using Some dot cut wildcard_match_iff [OF star(2), of pre host flags] star(1,3) whole [OF w(1)]
    by (simp add: equal_wildcard_def pattern_covers_def)
  have same: "pattern_covers flags pre' post' ls' host = pattern_covers flags pre post ls host"
    if "wildcard_pattern flags p pre' post' ls'" for pre' post' ls'
    unfolding pattern_covers_def whole [OF that, symmetric] whole [OF w(1), symmetric] using uniq [OF that] by simp
  have "\<exists>pre post ls. wildcard_pattern flags p pre post ls" using w(1) by blast
  moreover have "(\<exists>pre post ls. wildcard_pattern flags p pre post ls \<and> pattern_covers flags pre post ls host) \<longleftrightarrow>
      pattern_covers flags pre post ls host" using w(1) same by blast
  ultimately show ?thesis using eq by (simp only: if_True)
qed

section \<open>Names of a certificate\<close>

definition name_matches :: "u32 \<Rightarrow> bytes \<Rightarrow> bytes \<Rightarrow> bool" where
  "name_matches flags p host \<longleftrightarrow>
     (if flags AND X509_CHECK_FLAG_NO_WILDCARDS = 0 \<and> (\<exists>pre post ls. wildcard_pattern flags p pre post ls)
      then \<exists>pre post ls. wildcard_pattern flags p pre post ls \<and> pattern_covers flags pre post ls host
      else same_ci p host \<and> 0 \<notin> set p)"

definition equal_dns :: "u32 \<Rightarrow> equal_fn" where
  "equal_dns flags = (if flags AND X509_CHECK_FLAG_NO_WILDCARDS \<noteq> 0 then (\<lambda>p s f. Some (equal_nocase p s f)) else equal_wildcard)"

lemma equal_dns_matches:
  assumes "\<not> (1 < length host \<and> hd host = dot)" "flags AND X509_CHECK_FLAG_DOT_SUBDOMAINS = 0"
  shows "equal_dns flags p host flags = Some (name_matches flags p host)"
  using equal_wildcard_iff [OF assms, of p] equal_nocase_iff [OF assms(2), of p host]
  by (simp add: equal_dns_def name_matches_def)

lemma check_ia5_string:
  assumes "equal (as_contents a) b flags = Some m"
  shows "\<exists>pn'. do_check_string al a V_ASN1_IA5STRING equal flags t b pn =
    Some (if as_data a \<noteq> None \<and> as_length a \<noteq> 0 \<and> as_type a = V_ASN1_IA5STRING \<and> m then 1 else 0, pn')"
  using assms by (auto simp: do_check_string_def)

definition ia5_matches :: "(bytes \<Rightarrow> bool) \<Rightarrow> int \<Rightarrow> general_name \<Rightarrow> bool" where
  "ia5_matches m t gen \<longleftrightarrow> gen_type gen = t \<and>
     (\<exists>a. gen_string gen = Some a \<and> as_data a \<noteq> None \<and> as_length a \<noteq> 0 \<and> as_type a = V_ASN1_IA5STRING \<and> m (as_contents a))"

lemma check_gens_ia5:
  assumes "\<And>p. equal p b flags = Some (m p)" and t: "t \<in> {GEN_EMAIL, GEN_DNS}"
  shows "\<exists>pn'. check_gens_loop al V_ASN1_IA5STRING equal flags t b gens pn =
    Some (if list_ex (ia5_matches m t) gens then 1 else 0, pn')"
proof (induction gens arbitrary: pn)
  case (Cons gen gens)
  show ?case
  proof (cases "gen_type gen = t")
    case False
    with Cons.IH [of pn] show ?thesis by (simp add: ia5_matches_def)
  next
    case True
    with t obtain a where a: "gen_string gen = Some a" by (cases gen) auto
    with True have i: "ia5_matches m t gen \<longleftrightarrow>
        as_data a \<noteq> None \<and> as_length a \<noteq> 0 \<and> as_type a = V_ASN1_IA5STRING \<and> m (as_contents a)"
      by (simp add: ia5_matches_def)
    obtain pn' where "do_check_string al a V_ASN1_IA5STRING equal flags t b pn = Some (if ia5_matches m t gen then 1 else 0, pn')"
      using check_ia5_string [of equal a b flags "m (as_contents a)"] assms(1) unfolding i by blast
    with True a Cons.IH [of pn'] show ?thesis by (cases "ia5_matches m t gen") simp_all
  qed
qed simp

text \<open>The value of a common name as \<open>do_check_string\<close> and \<open>reject_dns_name_in_common_name\<close> see it.\<close>

definition utf8_value :: "allocator \<Rightarrow> asn1_string \<Rightarrow> bytes option" where
  "utf8_value al a =
     (case ASN1_STRING_to_UTF8 al (Some a) of (n, s) \<Rightarrow> if n < 0 then None else Some (take (nat n) (mem s)))"

definition cn_matches :: "allocator \<Rightarrow> (bytes \<Rightarrow> bool) \<Rightarrow> asn1_string \<Rightarrow> bool" where
  "cn_matches al m a \<longleftrightarrow> as_data a \<noteq> None \<and> as_length a \<noteq> 0 \<and>
     (\<exists>s. utf8_value al a = Some s \<and> x509v3_looks_like_dns_name s \<and> m s)"

lemma check_common_name:
  assumes "\<And>p. equal p b flags = Some (m p)"
  shows "\<exists>r pn'. do_check_string al a (-1) equal flags GEN_DNS b pn = Some (r, pn') \<and> r \<in> {-1, 0, 1} \<and>
    (r = 1 \<longleftrightarrow> cn_matches al m a)"
  using assms by (auto simp: do_check_string_def utf8_value_def cn_matches_def split: prod.split)

lemma check_subject_dns:
  assumes "\<And>p. equal p b flags = Some (m p)" "t = GEN_DNS"
  shows "\<exists>r pn'. check_subject_loop al nm cnid equal flags t b j pn = Some (r, pn') \<and> r \<in> {-1, 0, 1} \<and>
    (r = 1 \<longrightarrow> (\<exists>e \<in> set (xn_entries nm). ne_object e = cnid \<and> cn_matches al m (ne_value e)))"
  using assms
proof (induction al nm cnid equal flags t b j pn rule: check_subject_loop.induct)
  case (1 al nm cnid equal flags t b j pn)
  let ?k = "X509_NAME_get_index_by_NID nm cnid j"
  show ?case
  proof (cases "0 \<le> ?k")
    case False
    then show ?thesis by (subst check_subject_loop.simps) simp
  next
    case True
    let ?e = "xn_entries nm ! nat ?k"
    have e: "?e \<in> set (xn_entries nm)" "ne_object ?e = cnid" using X509_NAME_get_index_Some [OF refl True] by simp_all
    obtain r pn' where r: "do_check_string al (ne_value ?e) (-1) equal flags t b pn = Some (r, pn')" "r \<in> {-1, 0, 1}"
      "r = 1 \<longleftrightarrow> cn_matches al m (ne_value ?e)"
      using check_common_name [where m = m and equal = equal and b = b and flags = flags, OF "1.prems"(1)] "1.prems"(2) by blast
    show ?thesis
    proof (cases "r = 0")
      case True': True
      from "1.IH" [OF refl True r(1) refl] "1.prems" True'
      obtain r' pn'' where "check_subject_loop al nm cnid equal flags t b ?k pn' = Some (r', pn'')" "r' \<in> {-1, 0, 1}"
        "r' = 1 \<longrightarrow> (\<exists>e \<in> set (xn_entries nm). ne_object e = cnid \<and> cn_matches al m (ne_value e))" by auto
      with True True' r(1) show ?thesis by (subst check_subject_loop.simps) (simp add: Let_def)
    next
      case False
      have "check_subject_loop al nm cnid equal flags t b j pn = Some (r, pn')"
        using True False r(1) by (subst check_subject_loop.simps) (simp add: Let_def)
      with r e show ?thesis by blast
    qed
  qed
qed

text \<open>The result of \<open>X509_check_host\<close> for a host that is not a subdomain pattern.\<close>

lemma DOT_cleared: "(flags AND NOT X509_CHECK_FLAG_DOT_SUBDOMAINS) AND X509_CHECK_FLAG_DOT_SUBDOMAINS = (0 :: u32)"
proof -
  have "(flags AND NOT (2 ^ 15)) AND 2 ^ 15 = (0 :: u32)" by (rule bit_word_eqI) (auto simp: bit_simps)
  then show ?thesis by simp
qed

lemma X509_check_host_eq:
  assumes z: "0 \<notin> set host" and d: "\<not> (1 < length host \<and> hd host = dot)" and fl: "fl = flags AND NOT X509_CHECK_FLAG_DOT_SUBDOMAINS"
  shows "X509_check_host al x (Some host) flags pn =
    (case x_san x of
       Some gens \<Rightarrow> check_gens_loop al V_ASN1_IA5STRING (equal_dns fl) fl GEN_DNS host gens pn
     | None \<Rightarrow>
         if fl AND X509_CHECK_FLAG_NEVER_CHECK_SUBJECT \<noteq> 0 then Some (0, pn)
         else check_subject_loop al (x_subject x) NID_commonName (equal_dns fl) fl GEN_DNS host (-1) pn)"
proof -
  have chr: "OPENSSL_memchr host 0 (length host) = None" using z by (simp add: OPENSSL_memchr_None)
  consider "\<not> Suc 0 < length host" | "hd host \<noteq> dot" using d by auto
  then show ?thesis
    by cases (simp_all add: chr X509_check_host_def do_x509_check_def Let_def fl equal_dns_def split: option.split)
qed

text \<open>The two halves of the check: the alternative names, or the common names.\<close>

lemma X509_check_host_dns:
  assumes z: "0 \<notin> set host" and d: "\<not> (1 < length host \<and> hd host = dot)" and fl: "fl = flags AND NOT X509_CHECK_FLAG_DOT_SUBDOMAINS"
    and san: "x_san x = Some gens"
  shows "\<exists>pn'. X509_check_host al x (Some host) flags pn =
    Some (if \<exists>a. DNSName a \<in> set gens \<and> as_data a \<noteq> None \<and> as_length a \<noteq> 0 \<and> as_type a = V_ASN1_IA5STRING \<and>
            name_matches fl (as_contents a) host then 1 else 0, pn')"
proof -
  have dns: "equal_dns fl p host fl = Some (name_matches fl p host)" for p
    using equal_dns_matches [OF d, of fl p] DOT_cleared [of flags] fl by simp
  obtain pn' where "check_gens_loop al V_ASN1_IA5STRING (equal_dns fl) fl GEN_DNS host gens pn =
      Some (if list_ex (ia5_matches (\<lambda>p. name_matches fl p host) GEN_DNS) gens then 1 else 0, pn')"
    using check_gens_ia5 [of "equal_dns fl" host fl "\<lambda>p. name_matches fl p host" GEN_DNS, OF dns] by blast
  moreover have "ia5_matches m GEN_DNS gen \<longleftrightarrow> (\<exists>a. gen = DNSName a \<and> as_data a \<noteq> None \<and> as_length a \<noteq> 0 \<and>
      as_type a = V_ASN1_IA5STRING \<and> m (as_contents a))" for m gen
    by (cases gen) (auto simp: ia5_matches_def)
  ultimately show ?thesis using X509_check_host_eq [OF z d fl, of al x pn] san by (auto simp: list_ex_iff)
qed

lemma X509_check_host_cn:
  assumes z: "0 \<notin> set host" and d: "\<not> (1 < length host \<and> hd host = dot)" and fl: "fl = flags AND NOT X509_CHECK_FLAG_DOT_SUBDOMAINS"
    and san: "x_san x = None"
  shows "\<exists>r pn'. X509_check_host al x (Some host) flags pn = Some (r, pn') \<and> r \<in> {-1, 0, 1} \<and>
    (r = 1 \<longrightarrow> fl AND X509_CHECK_FLAG_NEVER_CHECK_SUBJECT = 0 \<and>
       (\<exists>e \<in> set (xn_entries (x_subject x)). ne_object e = NID_commonName \<and>
          (\<exists>s. utf8_value al (ne_value e) = Some s \<and> x509v3_looks_like_dns_name s \<and> name_matches fl s host)))"
proof (cases "fl AND X509_CHECK_FLAG_NEVER_CHECK_SUBJECT = 0")
  case False
  with X509_check_host_eq [OF z d fl, of al x pn] san show ?thesis by simp
next
  case True
  have dns: "equal_dns fl p host fl = Some (name_matches fl p host)" for p
    using equal_dns_matches [OF d, of fl p] DOT_cleared [of flags] fl by simp
  have "\<exists>r pn'. check_subject_loop al (x_subject x) NID_commonName (equal_dns fl) fl GEN_DNS host (-1) pn = Some (r, pn') \<and>
      r \<in> {-1, 0, 1} \<and> (r = 1 \<longrightarrow> (\<exists>e \<in> set (xn_entries (x_subject x)). ne_object e = NID_commonName \<and>
       cn_matches al (\<lambda>p. name_matches fl p host) (ne_value e)))"
    by (rule check_subject_dns) (rule dns, rule refl)
  then obtain r pn' where "check_subject_loop al (x_subject x) NID_commonName (equal_dns fl) fl GEN_DNS host (-1) pn = Some (r, pn')"
    "r \<in> {-1, 0, 1}" "r = 1 \<longrightarrow> (\<exists>e \<in> set (xn_entries (x_subject x)). ne_object e = NID_commonName \<and>
       cn_matches al (\<lambda>p. name_matches fl p host) (ne_value e))" by (elim exE conjE) (rule that; assumption)
  with X509_check_host_eq [OF z d fl, of al x pn] san True show ?thesis by (auto simp: cn_matches_def)
qed

section \<open>Properties\<close>

text \<open>C5: Comparing a name of a certificate with a host never reads beyond either, and a host that
  is not a subdomain pattern is accepted exactly when the name equals it up to case or the name is
  a wildcard pattern that covers it: its star stands for part of the leftmost label only, which is
  not an IDNA label unless the star is the whole label, and unless several labels are asked for
  the host has as many labels as the pattern.\<close>

theorem equal_wildcard_covers:
  "equal_wildcard p host flags \<noteq> None \<and>
   (\<not> (1 < length host \<and> hd host = dot) \<and> flags AND X509_CHECK_FLAG_DOT_SUBDOMAINS = 0 \<longrightarrow>
      equal_wildcard p host flags =
        Some (if \<exists>pre post ls. wildcard_pattern flags p pre post ls
              then \<exists>pre post ls. wildcard_pattern flags p pre post ls \<and> pattern_covers flags pre post ls host
              else same_ci p host \<and> 0 \<notin> set p) \<and>
      (equal_wildcard p host flags = Some True \<and> flags AND X509_CHECK_FLAG_MULTI_LABEL_WILDCARDS = 0 \<longrightarrow>
         count_list host dot = count_list p dot))"
proof (intro conjI impI)
  show "equal_wildcard p host flags \<noteq> None"
  proof (cases "valid_star p flags")
    case (Some k)
    then obtain pre post ls where w: "wildcard_pattern flags p pre post ls" "k = length pre"
      using valid_star_iff [of p flags k] by blast
    note star = wildcard_pattern_star [OF w(1)]
    have "drop (k + 1) p = post @ dotted ls" "take k p = pre" using star(1) w(2) by simp_all
    with Some star(1,3) wildcard_match_iff [OF star(2), of pre host flags] show ?thesis by (simp add: equal_wildcard_def)
  qed (simp add: equal_wildcard_def)
next
  assume a: "\<not> (1 < length host \<and> hd host = dot) \<and> flags AND X509_CHECK_FLAG_DOT_SUBDOMAINS = 0"
  then show eq: "equal_wildcard p host flags =
        Some (if \<exists>pre post ls. wildcard_pattern flags p pre post ls
              then \<exists>pre post ls. wildcard_pattern flags p pre post ls \<and> pattern_covers flags pre post ls host
              else same_ci p host \<and> 0 \<notin> set p)" using equal_wildcard_iff [of host flags p] by blast
  assume t: "equal_wildcard p host flags = Some True \<and> flags AND X509_CHECK_FLAG_MULTI_LABEL_WILDCARDS = 0"
  show "count_list host dot = count_list p dot"
  proof (cases "\<exists>pre post ls. wildcard_pattern flags p pre post ls")
    case False
    with eq t have "same_ci p host" by simp
    then show ?thesis by (simp add: same_ci_count)
  next
    case True
    with eq t obtain pre post ls x m y where w: "wildcard_pattern flags p pre post ls"
      "host = x @ m @ y" "same_ci x pre" "same_ci y (post @ dotted ls)" "star_covers flags (pre = [] \<and> post = []) host m"
      by (auto simp: pattern_covers_def)
    have "dot \<notin> set m" using w(5) t by (auto simp: star_covers_def list_all_iff char_classes)
    then have "count_list m dot = 0" by (simp add: count_list_0_iff)
    with w(2) same_ci_count [OF w(3)] same_ci_count [OF w(4)] wildcard_pattern_star(1) [OF w(1)] show ?thesis by simp
  qed
qed

text \<open>\<open>*.a.b\<close> accepts \<open>w.A.b\<close>, and its dots are counted.\<close>

lemma equal_wildcard_covers_witness:
  "equal_wildcard [42, 46, 97, 46, 98] [119, 46, 65, 46, 98] 0 = Some True \<and>
   count_list [119, 46, 65, 46, 98 :: byte] 46 = count_list [42, 46, 97, 46, 98 :: byte] 46"
proof -
  have "equal_wildcard [42, 46, 97, 46, 98] [119, 46, 65, 46, 98] 0 = Some True" by code_simp
  then show ?thesis
    using equal_wildcard_covers [of "[42, 46, 97, 46, 98]" "[119, 46, 65, 46, 98]" 0] by simp
qed

text \<open>C11: For a host without NUL that is not a subdomain pattern, \<open>X509_check_host\<close> never reads
  beyond a name and returns 0, 1 or -1.  With subject alternative names it returns 1 exactly when a
  DNS name of type IA5String matches, and the subject is not looked at.  Without them it returns 1
  only when a common name that looks like a host name matches, and never when the subject is not
  to be checked.\<close>

theorem X509_check_host_names:
  assumes "0 \<notin> set host" "\<not> (1 < length host \<and> hd host = dot)" "fl = flags AND NOT X509_CHECK_FLAG_DOT_SUBDOMAINS"
  shows "\<exists>r pn'. X509_check_host al x (Some host) flags pn = Some (r, pn') \<and> r \<in> {-1, 0, 1} \<and>
    (case x_san x of
       Some gens \<Rightarrow>
         r = (if \<exists>a. DNSName a \<in> set gens \<and> as_data a \<noteq> None \<and> as_length a \<noteq> 0 \<and> as_type a = V_ASN1_IA5STRING \<and>
                  name_matches fl (as_contents a) host then 1 else 0)
     | None \<Rightarrow>
         r = 1 \<longrightarrow> fl AND X509_CHECK_FLAG_NEVER_CHECK_SUBJECT = 0 \<and>
           (\<exists>e \<in> set (xn_entries (x_subject x)). ne_object e = NID_commonName \<and>
              (\<exists>s. utf8_value al (ne_value e) = Some s \<and> x509v3_looks_like_dns_name s \<and> name_matches fl s host)))"
proof (cases "x_san x")
  case (Some gens)
  with X509_check_host_dns [OF assms Some, of al pn] show ?thesis by auto
next
  case None
  with X509_check_host_cn [OF assms None, of al pn] show ?thesis by simp
qed

text \<open>A certificate for the DNS name \<open>A\<close> and the host \<open>a\<close>.\<close>

definition sample_name :: "byte \<Rightarrow> asn1_string" where
  "sample_name c = \<lparr>as_length = 1, as_type = V_ASN1_IA5STRING, as_data = Some [c], as_flags = 0\<rparr>"

lemma X509_check_host_names_witness:
  "\<exists>pn'. X509_check_host (\<lambda>_. True)
     \<lparr>x_subject = \<lparr>xn_entries = [], xn_modified = False, xn_canon_enc = []\<rparr>,
      x_san = Some [Rfc822Name (sample_name 66), DNSName (sample_name 65)], x_nc = None, x_ex_flags = 0\<rparr>
     (Some [97]) X509_CHECK_FLAG_NO_WILDCARDS None = Some (1, pn')"
proof -
  have fl: "X509_CHECK_FLAG_NO_WILDCARDS = (X509_CHECK_FLAG_NO_WILDCARDS AND NOT X509_CHECK_FLAG_DOT_SUBDOMAINS :: u32)" by simp
  show ?thesis
    using X509_check_host_names [OF _ _ fl, of "[97]" "\<lambda>_. True"
        "\<lparr>x_subject = \<lparr>xn_entries = [], xn_modified = False, xn_canon_enc = []\<rparr>,
         x_san = Some [Rfc822Name (sample_name 66), DNSName (sample_name 65)], x_nc = None, x_ex_flags = 0\<rparr>" None]
    by (auto simp: sample_name_def name_matches_def as_contents_def mem_def ascii_lower_def)
qed

end
