(* ===== verification/NameConstraints_Spec.thy ===== *)
theory NameConstraints_Spec
  imports
    NameConstraints
    HostName_Spec
begin

text \<open>
  What name constraints promise: when a name lies in a subtree, when \<open>nc_match\<close> accepts a name,
  what a chain that passes \<open>check_name_constraints\<close> has been checked for, and that the hosts its
  leaf is good for stay inside the permitted subtrees.
\<close>

section \<open>Subtrees\<close>

text \<open>The names inside a DNS subtree: everything, or what ends in the base after a dot.\<close>

definition in_subtree :: "bytes \<Rightarrow> bytes \<Rightarrow> bool" where
  "in_subtree name base \<longleftrightarrow>
     base = [] \<or> (\<exists>x y. name = x @ y \<and> same_ci y base \<and> (x = [] \<or> hd base = dot \<or> last x = dot))"

lemma tolower_ascii: "OPENSSL_tolower (uint x) = OPENSSL_tolower (uint y) \<longleftrightarrow> ascii_lower x = ascii_lower (y :: byte)"
proof -
  have *: "OPENSSL_tolower (int n) = int (if 65 \<le> n \<and> n \<le> 90 then n + 32 else n)" for n
    by (simp add: OPENSSL_tolower_def)
  show ?thesis
    unfolding word_unat_eq_iff unat_ascii_lower uint_nat by (simp only: * of_nat_eq_iff)
qed

lemma nc_equal_case_iff: "nc_equal_case a b \<longleftrightarrow> same_ci a b"
proof -
  have "length a = length b \<Longrightarrow> nc_equal_case_loop a b \<longleftrightarrow> same_ci a b" for a b
    by (induction a b rule: nc_equal_case_loop.induct) (auto simp: tolower_ascii)
  then show ?thesis by (auto simp: nc_equal_case_def CBS_len_def CBS_data_def dest: same_ci_length)
qed

lemma CBS_skip_within: "n \<le> length s \<Longrightarrow> CBS_skip n s = (Some (), drop n s)"
  by (simp add: CBS_skip_def cbs_get_def)

text \<open>Two suffixes of the same length.\<close>

lemma suffix_split: "length b \<le> length a \<Longrightarrow> (\<exists>x y. a = x @ y \<and> same_ci y b \<and> P x) \<longleftrightarrow>
    same_ci (drop (length a - length b) a) b \<and> P (take (length a - length b) a)"
proof
  assume "\<exists>x y. a = x @ y \<and> same_ci y b \<and> P x"
  then obtain x y where "a = x @ y" "same_ci y b" "P x" by blast
  with same_ci_length [OF this(2)] show "same_ci (drop (length a - length b) a) b \<and> P (take (length a - length b) a)" by simp
next
  assume "same_ci (drop (length a - length b) a) b \<and> P (take (length a - length b) a)"
  then show "\<exists>x y. a = x @ y \<and> same_ci y b \<and> P x"
    by (intro exI [of _ "take (length a - length b) a"] exI [of _ "drop (length a - length b) a"]) simp
qed

lemma suffix_short: "length a < length b \<Longrightarrow> \<not> (\<exists>x y. a = x @ y \<and> same_ci y b \<and> P x)"
  using same_ci_length by fastforce

lemma has_suffix_case_iff: "has_suffix_case a b \<longleftrightarrow> (\<exists>x y. a = x @ y \<and> same_ci y b)"
proof (cases "length a < length b")
  case True
  then show ?thesis using suffix_short [of a b "\<lambda>_. True"] by (auto simp: has_suffix_case_def CBS_len_def)
next
  case False
  then show ?thesis using suffix_split [of b a "\<lambda>_. True"]
    by (simp add: has_suffix_case_def CBS_len_def CBS_skip_within nc_equal_case_iff)
qed

lemma starts_with_iff: "starts_with s c \<longleftrightarrow> s \<noteq> [] \<and> hd s = c"
  by (cases s) (auto simp: starts_with_def CBS_len_def CBS_data_def)

lemma in_subtree_plain:
  assumes "base \<noteq> []" "hd base \<noteq> dot"
  shows "in_subtree n base \<longleftrightarrow> (\<exists>x y. n = x @ y \<and> same_ci y base \<and> (x = [] \<or> last x = dot))"
  unfolding in_subtree_def by (simp only: assms simp_thms)

lemma in_subtree_dot:
  assumes "base \<noteq> []" "hd base = dot"
  shows "in_subtree n base \<longleftrightarrow> (\<exists>x y. n = x @ y \<and> same_ci y base)"
  unfolding in_subtree_def by (simp only: assms simp_thms)

lemma nc_dns_iff:
  "nc_dns d b = (if in_subtree (as_contents d) (as_contents b) then X509_V_OK else X509_V_ERR_PERMITTED_VIOLATION)"
proof -
  have c: "cbs_of_string s = as_contents s" for s by (simp add: cbs_of_string_def CBS_init_def as_contents_def)
  let ?n = "as_contents d" and ?b = "as_contents b"
  show ?thesis
  proof (cases "?b = [] \<or> hd ?b = dot")
    case True
    show ?thesis
    proof (cases "?b = []")
      case True
      then show ?thesis by (simp add: nc_dns_def c Let_def CBS_len_def in_subtree_def)
    next
      case False
      with True have h: "hd ?b = dot" by simp
      have "in_subtree ?n ?b \<longleftrightarrow> has_suffix_case ?n ?b"
        unfolding has_suffix_case_iff by (rule in_subtree_dot [OF False h])
      moreover have "starts_with ?b dot" using False h by (simp add: starts_with_iff)
      ultimately show ?thesis using False by (simp add: nc_dns_def c Let_def CBS_len_def)
    qed
  next
    case False
    then have sub: "in_subtree ?n ?b \<longleftrightarrow> (\<exists>x y. ?n = x @ y \<and> same_ci y ?b \<and> (x = [] \<or> last x = dot))"
      by (intro in_subtree_plain) simp_all
    show ?thesis
    proof (cases "length ?n > length ?b")
      case True
      define k where "k = length ?n - length ?b - 1"
      have k: "k < length ?n" "length ?n - length ?b = Suc k" using True by (simp_all add: k_def)
      have "CBS_get_u8 (drop k ?n) = (Some (?n ! k), drop (Suc k) ?n)"
        using k(1) by (simp add: CBS_get_u8_def cbs_get_def hd_drop_conv_nth drop_Suc tl_drop)
      moreover have "last (take (Suc k) ?n) = ?n ! k" "take (Suc k) ?n \<noteq> []"
        using k(1) by (auto simp: take_Suc_conv_app_nth)
      moreover have "in_subtree ?n ?b \<longleftrightarrow> same_ci (drop (Suc k) ?n) ?b \<and> (take (Suc k) ?n = [] \<or> last (take (Suc k) ?n) = dot)"
        unfolding sub k(2) [symmetric] using True by (intro suffix_split) simp
      ultimately show ?thesis
        using False True k
        by (simp add: nc_dns_def c Let_def CBS_len_def starts_with_iff CBS_skip_within nc_equal_case_iff)
    next
      case le: False
      then have "(\<exists>x y. ?n = x @ y \<and> same_ci y ?b \<and> (x = [] \<or> last x = dot)) \<longleftrightarrow> same_ci ?n ?b"
      proof (cases "length ?n = length ?b")
        case True
        then show ?thesis using suffix_split [of ?b ?n "\<lambda>x. x = [] \<or> last x = dot"] by simp
      next
        case False
        with le have "length ?n < length ?b" by simp
        with suffix_short [OF this, of "\<lambda>x. x = [] \<or> last x = dot"] show ?thesis by (auto dest: same_ci_length)
      qed
      with False le show ?thesis
        by (simp add: nc_dns_def c Let_def CBS_len_def starts_with_iff sub nc_equal_case_iff)
    qed
  qed
qed

section \<open>The verdict on a name\<close>

definition plain :: "general_subtree \<Rightarrow> bool" where
  "plain sub \<longleftrightarrow> gs_minimum sub = None \<and> gs_maximum sub = None"

definition same_type :: "general_name \<Rightarrow> general_subtree list \<Rightarrow> general_subtree list" where
  "same_type gen subs = filter (\<lambda>sub. gen_type (gs_base sub) = gen_type gen) subs"

lemma nc_excluded_iff:
  "nc_excluded_loop i2d gen subs = X509_V_OK \<longleftrightarrow>
     (\<forall>sub \<in> set (same_type gen subs). plain sub \<and> nc_match_single i2d gen (gs_base sub) = X509_V_ERR_PERMITTED_VIOLATION)"
  by (induction subs) (auto simp: same_type_def plain_def Let_def)

definition first_ok :: "name_encoder \<Rightarrow> general_name \<Rightarrow> general_subtree list \<Rightarrow> bool" where
  "first_ok i2d gen subs \<longleftrightarrow>
     (\<exists>us s vs. subs = us @ s # vs \<and> nc_match_single i2d gen (gs_base s) = X509_V_OK \<and>
        (\<forall>u \<in> set us. nc_match_single i2d gen (gs_base u) = X509_V_ERR_PERMITTED_VIOLATION))"

lemma first_ok_simps [simp]:
  "\<not> first_ok i2d gen []"
  "first_ok i2d gen (s # subs) \<longleftrightarrow>
     nc_match_single i2d gen (gs_base s) = X509_V_OK \<or>
     nc_match_single i2d gen (gs_base s) = X509_V_ERR_PERMITTED_VIOLATION \<and> first_ok i2d gen subs"
proof -
  show "\<not> first_ok i2d gen []" by (simp add: first_ok_def)
  show "first_ok i2d gen (s # subs) \<longleftrightarrow>
     nc_match_single i2d gen (gs_base s) = X509_V_OK \<or>
     nc_match_single i2d gen (gs_base s) = X509_V_ERR_PERMITTED_VIOLATION \<and> first_ok i2d gen subs" (is "?l \<longleftrightarrow> ?r")
  proof
    assume ?l
    then obtain us t vs where "s # subs = us @ t # vs" "nc_match_single i2d gen (gs_base t) = X509_V_OK"
      "\<forall>u \<in> set us. nc_match_single i2d gen (gs_base u) = X509_V_ERR_PERMITTED_VIOLATION" by (auto simp: first_ok_def)
    then show ?r by (cases us) (auto simp: first_ok_def)
  next
    assume ?r
    then show ?l
    proof
      assume "nc_match_single i2d gen (gs_base s) = X509_V_OK"
      then show ?l unfolding first_ok_def by (intro exI [of _ "[]"] exI [of _ s] exI [of _ subs]) simp
    next
      assume "nc_match_single i2d gen (gs_base s) = X509_V_ERR_PERMITTED_VIOLATION \<and> first_ok i2d gen subs"
      then obtain us t vs where "subs = us @ t # vs" "nc_match_single i2d gen (gs_base t) = X509_V_OK"
        "\<forall>u \<in> set (s # us). nc_match_single i2d gen (gs_base u) = X509_V_ERR_PERMITTED_VIOLATION" by (auto simp: first_ok_def)
      then show ?l unfolding first_ok_def by (intro exI [of _ "s # us"] exI [of _ t] exI [of _ vs]) simp
    qed
  qed
qed

lemma nc_permitted_found:
  "(\<exists>k. nc_permitted_loop i2d gen 2 subs = Inr k \<and> k \<noteq> 1) \<longleftrightarrow> (\<forall>sub \<in> set (same_type gen subs). plain sub)"
  by (induction subs) (auto simp: same_type_def plain_def)

lemma nc_permitted_not_found:
  "(\<exists>k. nc_permitted_loop i2d gen f subs = Inr k \<and> k \<noteq> 1) \<longleftrightarrow>
     (\<forall>sub \<in> set (same_type gen subs). plain sub) \<and>
     (f = 0 \<and> same_type gen subs = [] \<or> first_ok i2d gen (same_type gen subs))"
  if "f \<in> {0, 1}"
  using that
proof (induction subs arbitrary: f)
  case (Cons sub subs)
  let ?r = "nc_match_single i2d gen (gs_base sub)"
  show ?case
  proof (cases "gen_type gen = gen_type (gs_base sub)")
    case False
    then show ?thesis using Cons.IH [OF Cons.prems] by (simp add: same_type_def)
  next
    case True
    then have st: "same_type gen (sub # subs) = sub # same_type gen subs" by (simp add: same_type_def)
    show ?thesis
    proof (cases "plain sub")
      case False
      then show ?thesis using True st by (auto simp: plain_def)
    next
      case p: True
      consider "?r = X509_V_OK" | "?r = X509_V_ERR_PERMITTED_VIOLATION" | "?r \<noteq> X509_V_OK" "?r \<noteq> X509_V_ERR_PERMITTED_VIOLATION" by blast
      then show ?thesis
      proof cases
        case 1
        with True p Cons.prems nc_permitted_found [of i2d gen subs] show ?thesis by (auto simp: st plain_def)
      next
        case 2
        with True p Cons.prems Cons.IH [of 1] show ?thesis by (auto simp: st plain_def)
      next
        case 3
        with True p Cons.prems show ?thesis by (auto simp: st plain_def)
      qed
    qed
  qed
qed (auto simp: same_type_def)

lemma nc_permitted_error: "nc_permitted_loop i2d gen f subs = Inl r \<Longrightarrow> r \<noteq> X509_V_OK"
  by (induction subs arbitrary: f) (auto simp: Let_def split: if_splits)

lemma nc_match_iff:
  "nc_match i2d gen nc = X509_V_OK \<longleftrightarrow>
     (\<forall>sub \<in> set (same_type gen (permittedSubtrees nc @ excludedSubtrees nc)). plain sub) \<and>
     (same_type gen (permittedSubtrees nc) = [] \<or> first_ok i2d gen (same_type gen (permittedSubtrees nc))) \<and>
     (\<forall>sub \<in> set (same_type gen (excludedSubtrees nc)). nc_match_single i2d gen (gs_base sub) = X509_V_ERR_PERMITTED_VIOLATION)"
proof -
  have "nc_match i2d gen nc = X509_V_OK \<longleftrightarrow>
      (\<exists>k. nc_permitted_loop i2d gen 0 (permittedSubtrees nc) = Inr k \<and> k \<noteq> 1) \<and>
      nc_excluded_loop i2d gen (excludedSubtrees nc) = X509_V_OK"
    by (auto simp: nc_match_def dest: nc_permitted_error split: sum.split)
  then show ?thesis
    unfolding nc_excluded_iff using nc_permitted_not_found [of 0 i2d gen "permittedSubtrees nc"]
    by (auto simp: same_type_def)
qed

section \<open>The hosts of a name in a subtree\<close>

lemma same_ci_last: "same_ci x x' \<Longrightarrow> x \<noteq> [] \<Longrightarrow> last x = dot \<longleftrightarrow> last x' = dot"
proof (induction x arbitrary: x' rule: rev_induct)
  case (snoc c x)
  from snoc.prems(1) same_ci_length [OF snoc.prems(1)] obtain x'' c' where "x' = x'' @ [c']" "length x'' = length x"
    by (cases x' rule: rev_cases) auto
  with snoc.prems(1) have "ascii_lower c = ascii_lower c'" by (simp add: same_ci_append)
  with \<open>x' = x'' @ [c']\<close> show ?case by (metis ascii_lower_signs(1,2) last_snoc)
qed simp

lemma same_ci_split:
  assumes "same_ci (u @ v) w"
  shows "\<exists>u' v'. w = u' @ v' \<and> same_ci u u' \<and> same_ci v v'"
proof (intro exI conjI)
  have l: "length w = length u + length v" using same_ci_length [OF assms] by simp
  show "w = take (length u) w @ drop (length u) w" by simp
  with assms l same_ci_append [of u "take (length u) w" v "drop (length u) w"]
  show "same_ci u (take (length u) w)" "same_ci v (drop (length u) w)" by simp_all
qed

lemma in_subtree_same_ci:
  assumes "in_subtree p b" "same_ci p q"
  shows "in_subtree q b"
proof (cases "b = []")
  case False
  with assms(1) obtain u v where uv: "p = u @ v" "same_ci v b" "u = [] \<or> hd b = dot \<or> last u = dot"
    by (auto simp: in_subtree_def)
  with same_ci_split [of u v q] assms(2) obtain u' v' where w: "q = u' @ v'" "same_ci u u'" "same_ci v v'" by blast
  have "same_ci v' b" using w(3) uv(2) same_ci_sym same_ci_trans by blast
  moreover have "u' = [] \<or> hd b = dot \<or> last u' = dot"
    using uv(3) same_ci_last [OF w(2)] w(2) by (cases "u = []") auto
  ultimately show ?thesis using w(1) by (auto simp: in_subtree_def)
qed (simp add: in_subtree_def)

text \<open>A wildcard name in a subtree whose base has no star covers hosts in the subtree only.\<close>

lemma in_subtree_covered:
  assumes "in_subtree p b" "star \<notin> set b" "p = pre @ star # rest" "host = x @ m @ y" "same_ci y rest"
  shows "in_subtree host b"
proof (cases "b = []")
  case False
  with assms(1) obtain u v where uv: "p = u @ v" "same_ci v b" "u = [] \<or> hd b = dot \<or> last u = dot"
    by (auto simp: in_subtree_def)
  have nv: "star \<notin> set v" using assms(2) same_ci_mem [OF uv(2)] by simp
  from uv(1) assms(3) have "pre @ star # rest = u @ v" by simp
  then obtain u' where u': "u = pre @ star # u'" "rest = u' @ v"
    using nv by (auto simp: append_eq_append_conv2 Cons_eq_append_conv)
  have "same_ci (u' @ v) y" using assms(5) u'(2) same_ci_sym by blast
  from same_ci_split [OF this] obtain y1 y2 where y: "y = y1 @ y2" "same_ci u' y1" "same_ci v y2" by blast
  have "same_ci y2 b" using y(3) uv(2) same_ci_sym same_ci_trans by blast
  moreover have "hd b = dot \<or> last (x @ m @ y1) = dot"
  proof (cases "hd b = dot")
    case False
    with uv(3) u'(1) have "last u = dot" by simp
    with u'(1) have "u' \<noteq> []" "last u' = dot" by (auto split: if_splits)
    with same_ci_last [OF y(2)] y(2) show ?thesis by (cases "y1 = []") auto
  qed simp
  moreover have "host = (x @ m @ y1) @ y2" using assms(4) y(1) by simp
  ultimately show ?thesis unfolding in_subtree_def by blast
qed (simp add: in_subtree_def)

lemma name_matches_in_subtree:
  assumes "name_matches fl p host" "in_subtree p b" "star \<notin> set b"
  shows "in_subtree host b"
proof (cases "fl AND X509_CHECK_FLAG_NO_WILDCARDS = 0 \<and> (\<exists>pre post ls. wildcard_pattern fl p pre post ls)")
  case True
  with assms(1) have "\<exists>pre post ls. wildcard_pattern fl p pre post ls \<and> pattern_covers fl pre post ls host"
    by (simp only: name_matches_def if_True simp_thms)
  then obtain pre post ls where w1: "wildcard_pattern fl p pre post ls" and "pattern_covers fl pre post ls host"
    by (elim exE conjE) (rule that)
  then obtain x m y where w: "wildcard_pattern fl p pre post ls" "host = x @ m @ y" "same_ci y (post @ dotted ls)"
    unfolding pattern_covers_def by (elim exE conjE) (rule that; assumption)
  from w(1) have "p = pre @ star # post @ dotted ls" by (simp add: wildcard_pattern_def)
  from in_subtree_covered [OF assms(2,3) this w(2,3)] show ?thesis .
next
  case False
  with assms(1) have "same_ci p host" unfolding name_matches_def by (simp only: if_False simp_thms)
  with in_subtree_same_ci [OF assms(2)] show ?thesis by blast
qed

section \<open>The chain\<close>

lemma nc_altname_OK: "nc_altname_loop i2d nc gens = X509_V_OK \<longleftrightarrow> (\<forall>gen \<in> set gens. nc_match i2d gen nc = X509_V_OK)"
  by (induction gens) (simp_all add: Let_def)

lemma NAME_CONSTRAINTS_check_altname:
  assumes "NAME_CONSTRAINTS_check i2d x nc = X509_V_OK" "gen \<in> set (x509_altname x)"
  shows "nc_match i2d gen nc = X509_V_OK"
  using assms nc_altname_OK [of i2d nc "x509_altname x"]
  by (auto simp: NAME_CONSTRAINTS_check_def Let_def split: if_splits)

lemma X509_NAME_get_index_first:
  assumes "lastpos < int k" "k < length (xn_entries nm)" "ne_object (xn_entries nm ! k) = nid"
  shows "0 \<le> X509_NAME_get_index_by_NID nm nid lastpos \<and> X509_NAME_get_index_by_NID nm nid lastpos \<le> int k"
proof -
  define start where "start = (if lastpos < 0 then 0 else nat (lastpos + 1))"
  let ?P = "\<lambda>i. ne_object (xn_entries nm ! i) = nid"
  have k: "k \<in> set [start..<length (xn_entries nm)]" using assms(1,2) by (auto simp: start_def)
  then obtain i where i: "find ?P [start..<length (xn_entries nm)] = Some i"
    using assms(3) by (cases "find ?P [start..<length (xn_entries nm)]") (auto simp: find_None_iff)
  then obtain n where n: "n < length (xn_entries nm) - start" "i = start + n" "\<And>m. m < n \<Longrightarrow> \<not> ?P (start + m)"
    by (auto simp: find_Some_iff)
  have "start \<le> k" using k by simp
  then have "\<not> k < i" using n(3) [of "k - start"] n(2) assms(3) by force
  with i show ?thesis unfolding X509_NAME_get_index_by_NID_def start_def [symmetric] by simp
qed

lemma reject_dns_OK:
  assumes "reject_dns_loop al nm i = X509_V_OK" "i < int k" "k < length (xn_entries nm)"
    "ne_object (xn_entries nm ! k) = NID_commonName" "utf8_value al (ne_value (xn_entries nm ! k)) = Some s"
  shows "\<not> x509v3_looks_like_dns_name s"
  using assms
proof (induction al nm i rule: reject_dns_loop.induct)
  case (1 al nm i)
  let ?i' = "X509_NAME_get_index_by_NID nm NID_commonName i"
  have i': "0 \<le> ?i'" "?i' \<le> int k" using X509_NAME_get_index_first [OF "1.prems"(2-4)] by simp_all
  obtain n v where nv: "ASN1_STRING_to_UTF8 al (Some (ne_value (xn_entries nm ! nat ?i'))) = (n, v)" by fastforce
  from "1.prems"(1) i'(1) nv have r: "0 \<le> n" "\<not> x509v3_looks_like_dns_name (take (nat n) (mem v))"
      "reject_dns_loop al nm ?i' = X509_V_OK"
    by (simp_all add: reject_dns_loop.simps [of al nm i] Let_def split: if_splits)
  show ?case
  proof (cases "?i' = int k")
    case True
    with "1.prems"(5) nv r(1,2) show ?thesis by (auto simp: utf8_value_def)
  next
    case False
    with i' r nv "1.prems"(3-5) show ?thesis by (intro "1.IH" [OF refl _ nv [symmetric]]) simp_all
  qed
qed

text \<open>The verdicts of a callback that never goes on.\<close>

lemma nc_verdict_strict: "nc_verdict (\<lambda>_. False) rv d c ctx = Inr ctx' \<longleftrightarrow> rv = X509_V_OK \<and> ctx' = ctx"
  by (auto simp: nc_verdict_def Let_def)

definition nc_passes :: "name_encoder \<Rightarrow> x509_ctx \<Rightarrow> nat \<Rightarrow> nat \<Rightarrow> bool" where
  "nc_passes i2d ctx i j \<longleftrightarrow>
     (case x_nc (ctx_chain ctx ! j) of
        None \<Rightarrow> True | Some nc \<Rightarrow> NAME_CONSTRAINTS_check i2d (ctx_chain ctx ! i) nc = X509_V_OK)"

lemma nc_inner_strict:
  "nc_inner_loop i2d (\<lambda>_. False) i js has ctx = Inr (has', ctx') \<longleftrightarrow>
     ctx' = ctx \<and> (\<forall>j \<in> set js. nc_passes i2d ctx i j) \<and>
     has' = (has \<or> (\<exists>j \<in> set js. x_nc (ctx_chain ctx ! j) \<noteq> None))"
proof (induction js arbitrary: has)
  case (Cons j js)
  show ?case
  proof (cases "x_nc (ctx_chain ctx ! j)")
    case None
    with Cons.IH [of has] show ?thesis by (simp add: nc_passes_def)
  next
    case (Some nc)
    let ?v = "nc_verdict (\<lambda>_. False) (NAME_CONSTRAINTS_check i2d (ctx_chain ctx ! i) nc) (int i) i ctx"
    show ?thesis
    proof (cases ?v)
      case (Inl c)
      then have "NAME_CONSTRAINTS_check i2d (ctx_chain ctx ! i) nc \<noteq> X509_V_OK" by (auto simp: nc_verdict_def)
      with Inl Some show ?thesis by (simp add: nc_passes_def)
    next
      case (Inr c)
      then have "NAME_CONSTRAINTS_check i2d (ctx_chain ctx ! i) nc = X509_V_OK" "c = ctx" by (simp_all add: nc_verdict_strict)
      with Inr Some Cons.IH [of True] show ?thesis by (simp add: nc_passes_def)
    qed
  qed
qed auto

text \<open>The certificates whose names are checked: the leaf and what is not self-issued.\<close>

definition nc_checked :: "x509_ctx \<Rightarrow> nat \<Rightarrow> bool" where
  "nc_checked ctx i \<longleftrightarrow> i = 0 \<or> x_ex_flags (ctx_chain ctx ! i) AND EXFLAG_SI = 0"

lemma nc_outer_strict:
  "nc_outer_loop i2d (\<lambda>_. False) is has ctx = Inr (has', ctx') \<longleftrightarrow>
     ctx' = ctx \<and>
     (\<forall>i \<in> set is. nc_checked ctx i \<longrightarrow> (\<forall>j \<in> {i + 1..<length (ctx_chain ctx)}. nc_passes i2d ctx i j)) \<and>
     has' = (has \<or> (\<exists>i \<in> set is. nc_checked ctx i \<and> (\<exists>j \<in> {i + 1..<length (ctx_chain ctx)}. x_nc (ctx_chain ctx ! j) \<noteq> None)))"
proof (induction "is" arbitrary: has)
  case (Cons i "is")
  show ?case
  proof (cases "nc_checked ctx i")
    case False
    then have "i \<noteq> 0 \<and> x_ex_flags (ctx_chain ctx ! i) AND EXFLAG_SI \<noteq> 0" by (simp add: nc_checked_def)
    with False Cons.IH [of has] show ?thesis by simp
  next
    case True
    then have c: "\<not> (i \<noteq> 0 \<and> x_ex_flags (ctx_chain ctx ! i) AND EXFLAG_SI \<noteq> 0)" by (simp add: nc_checked_def)
    let ?r = "nc_inner_loop i2d (\<lambda>_. False) i (rev [i + 1..<length (ctx_chain ctx)]) has ctx"
    show ?thesis
    proof (cases ?r)
      case (Inl c')
      with nc_inner_strict [of i2d i "rev [i + 1..<length (ctx_chain ctx)]" has ctx
          "has \<or> (\<exists>j \<in> {i + 1..<length (ctx_chain ctx)}. x_nc (ctx_chain ctx ! j) \<noteq> None)" ctx]
      have "\<not> (\<forall>j \<in> {i + 1..<length (ctx_chain ctx)}. nc_passes i2d ctx i j)" by simp
      with Inl c True show ?thesis by auto
    next
      case (Inr y)
      then obtain h c' where r: "?r = Inr (h, c')" by (cases y) auto
      from this [unfolded nc_inner_strict] have
        "c' = ctx" "\<forall>j \<in> {i + 1..<length (ctx_chain ctx)}. nc_passes i2d ctx i j"
        "h = (has \<or> (\<exists>j \<in> {i + 1..<length (ctx_chain ctx)}. x_nc (ctx_chain ctx ! j) \<noteq> None))" by simp_all
      with r c True Cons.IH [of h] show ?thesis by auto
    qed
  qed
qed auto

lemma chain_has_constraints:
  "(\<exists>i < n. nc_checked ctx i \<and> (\<exists>j \<in> {i + 1..<n}. x_nc (ctx_chain ctx ! j) \<noteq> None)) \<longleftrightarrow>
   (\<exists>j \<in> {1..<n}. x_nc (ctx_chain ctx ! j) \<noteq> None)"
proof
  assume "\<exists>j \<in> {1..<n}. x_nc (ctx_chain ctx ! j) \<noteq> None"
  then obtain j where "j \<in> {1..<n}" "x_nc (ctx_chain ctx ! j) \<noteq> None" by blast
  then show "\<exists>i < n. nc_checked ctx i \<and> (\<exists>j \<in> {i + 1..<n}. x_nc (ctx_chain ctx ! j) \<noteq> None)"
    by (intro exI [of _ 0]) (auto simp: nc_checked_def)
qed auto

lemma check_name_constraints_strict:
  "check_name_constraints al i2d (\<lambda>_. False) ctx = (True, ctx') \<longleftrightarrow>
     ctx' = ctx \<and>
     (\<forall>i j. i < j \<longrightarrow> j < length (ctx_chain ctx) \<longrightarrow> nc_checked ctx i \<longrightarrow> nc_passes i2d ctx i j) \<and>
     ((\<exists>j \<in> {1..<length (ctx_chain ctx)}. x_nc (ctx_chain ctx ! j) \<noteq> None) \<longrightarrow> x_san (ctx_chain ctx ! 0) = None \<longrightarrow>
        reject_dns_name_in_common_name al (ctx_chain ctx ! 0) = X509_V_OK)"
proof -
  let ?n = "length (ctx_chain ctx)"
  let ?r = "nc_outer_loop i2d (\<lambda>_. False) (rev [0..<?n]) False ctx"
  let ?all = "\<forall>i j. i < j \<longrightarrow> j < ?n \<longrightarrow> nc_checked ctx i \<longrightarrow> nc_passes i2d ctx i j"
  let ?has = "\<exists>j \<in> {1..<?n}. x_nc (ctx_chain ctx ! j) \<noteq> None"
  have *: "?r = Inr (h, c) \<longleftrightarrow> c = ctx \<and> ?all \<and> h = ?has" for h c
  proof -
    have "(\<forall>i \<in> set (rev [0..<?n]). nc_checked ctx i \<longrightarrow> (\<forall>j \<in> {i + 1..<?n}. nc_passes i2d ctx i j)) \<longleftrightarrow> ?all"
      by auto
    then show ?thesis unfolding nc_outer_strict using chain_has_constraints [of ?n ctx] by (simp add: Bex_def)
  qed
  show ?thesis
  proof (cases ?r)
    case (Inl c)
    with * [of ?has ctx] have "\<not> ?all" by simp
    with Inl show ?thesis unfolding check_name_constraints_def by (simp only: sum.case) simp
  next
    case (Inr y)
    then obtain h c where r: "?r = Inr (h, c)" by (cases y) auto
    with * [of h c] have hc: "c = ctx" ?all "h = ?has" by simp_all
    let ?leaf = "ctx_chain ctx ! 0"
    have eq: "check_name_constraints al i2d (\<lambda>_. False) ctx =
        (if h \<and> x_san ?leaf = None
         then case nc_verdict (\<lambda>_. False) (reject_dns_name_in_common_name al ?leaf) (-1) 0 ctx of
                Inl ctx \<Rightarrow> (False, ctx) | Inr ctx \<Rightarrow> (True, ctx)
         else (True, ctx))"
      unfolding check_name_constraints_def r hc(1) by (simp only: sum.case prod.case Let_def)
    show ?thesis
    proof (cases "h \<and> x_san ?leaf = None")
      case False
      with eq hc show ?thesis by auto
    next
      case True
      have "(case nc_verdict (\<lambda>_. False) (reject_dns_name_in_common_name al ?leaf) (-1) 0 ctx of
                Inl ctx \<Rightarrow> (False, ctx) | Inr ctx \<Rightarrow> (True, ctx)) = (True, ctx') \<longleftrightarrow>
          reject_dns_name_in_common_name al ?leaf = X509_V_OK \<and> ctx' = ctx"
        by (auto simp: nc_verdict_def Let_def)
      with eq hc True show ?thesis by auto
    qed
  qed
qed

section \<open>Properties\<close>

definition dns_bases :: "general_subtree list \<Rightarrow> bytes set" where
  "dns_bases subs = {as_contents b | b. DNSName b \<in> gs_base ` set subs}"

lemma dns_base: "c \<in> dns_bases subs \<longleftrightarrow> (\<exists>s \<in> set subs. \<exists>b. gs_base s = DNSName b \<and> c = as_contents b)"
  by (auto simp: dns_bases_def image_iff; metis)

lemma nc_match_dns:
  assumes "nc_match i2d (DNSName a) nc = X509_V_OK"
  shows "dns_bases (permittedSubtrees nc) \<noteq> {} \<Longrightarrow> \<exists>b \<in> dns_bases (permittedSubtrees nc). in_subtree (as_contents a) b"
    and "b \<in> dns_bases (excludedSubtrees nc) \<Longrightarrow> \<not> in_subtree (as_contents a) b"
proof -
  have dns: "gen_type g = GEN_DNS \<longleftrightarrow> (\<exists>b. g = DNSName b)" for g by (cases g) auto
  note ok = assms [unfolded nc_match_iff]
  {
    assume "dns_bases (permittedSubtrees nc) \<noteq> {}"
    then obtain s b where "s \<in> set (permittedSubtrees nc)" "gs_base s = DNSName b" by (auto simp: dns_base)
    then have "same_type (DNSName a) (permittedSubtrees nc) \<noteq> []" by (force simp: same_type_def filter_empty_conv)
    with ok have "first_ok i2d (DNSName a) (same_type (DNSName a) (permittedSubtrees nc))" by blast
    then obtain t where t: "t \<in> set (same_type (DNSName a) (permittedSubtrees nc))"
      "nc_match_single i2d (DNSName a) (gs_base t) = X509_V_OK"
      unfolding first_ok_def by fastforce
    then obtain c where c: "gs_base t = DNSName c" "t \<in> set (permittedSubtrees nc)"
      using dns by (auto simp: same_type_def)
    with t(2) have "in_subtree (as_contents a) (as_contents c)" by (simp add: nc_dns_iff split: if_splits)
    with c show "\<exists>b \<in> dns_bases (permittedSubtrees nc). in_subtree (as_contents a) b"
      by (intro bexI [of _ "as_contents c"]) (auto simp: dns_base)
  }
  {
    assume "b \<in> dns_bases (excludedSubtrees nc)"
    then obtain t c where c: "t \<in> set (excludedSubtrees nc)" "gs_base t = DNSName c" "b = as_contents c"
      by (auto simp: dns_base)
    then have "t \<in> set (same_type (DNSName a) (excludedSubtrees nc))" by (simp add: same_type_def)
    with ok have "nc_match_single i2d (DNSName a) (gs_base t) = X509_V_ERR_PERMITTED_VIOLATION" by blast
    with c show "\<not> in_subtree (as_contents a) b" by (auto simp: nc_dns_iff)
  }
qed

lemma NO_WILDCARDS_kept:
  "(flags AND NOT X509_CHECK_FLAG_DOT_SUBDOMAINS) AND X509_CHECK_FLAG_NO_WILDCARDS = flags AND (X509_CHECK_FLAG_NO_WILDCARDS :: u32)"
proof -
  have "(flags AND NOT (2 ^ 15)) AND 2 ^ 1 = flags AND (2 ^ 1 :: u32)" by (rule bit_word_eqI) (auto simp: bit_simps)
  then show ?thesis by simp
qed

text \<open>C14: A name is accepted by name constraints exactly when no subtree of its type has a minimum or
  a maximum, it lies in one of the permitted subtrees of its type (or there are none) with no error
  before the first that it lies in, and it lies outside every excluded subtree of its type; and a
  DNS name lies in a subtree exactly when the base is empty or a suffix of it up to case, at a label
  boundary unless the base starts with a dot.\<close>

theorem nc_match_accepts:
  "(nc_match i2d gen nc = X509_V_OK \<longleftrightarrow>
      (\<forall>sub \<in> set (same_type gen (permittedSubtrees nc @ excludedSubtrees nc)). gs_minimum sub = None \<and> gs_maximum sub = None) \<and>
      (same_type gen (permittedSubtrees nc) = [] \<or> first_ok i2d gen (same_type gen (permittedSubtrees nc))) \<and>
      (\<forall>sub \<in> set (same_type gen (excludedSubtrees nc)).
         nc_match_single i2d gen (gs_base sub) = X509_V_ERR_PERMITTED_VIOLATION)) \<and>
   nc_match_single i2d (DNSName a) (DNSName b) =
     (if as_contents b = [] \<or>
         (\<exists>x y. as_contents a = x @ y \<and> same_ci y (as_contents b) \<and> (x = [] \<or> hd (as_contents b) = dot \<or> last x = dot))
      then X509_V_OK else X509_V_ERR_PERMITTED_VIOLATION)"
  using nc_match_iff [of i2d gen nc] nc_dns_iff [of a b]
  by (simp only: plain_def in_subtree_def nc_match_single.simps simp_thms)

text \<open>The DNS name \<open>A\<close> is accepted when the DNS names below \<open>a\<close> are permitted.\<close>

definition sample_nc :: name_constraints where
  "sample_nc = \<lparr>permittedSubtrees = [\<lparr>gs_base = DNSName (sample_name 97), gs_minimum = None, gs_maximum = None\<rparr>],
     excludedSubtrees = [\<lparr>gs_base = DNSName (sample_name 98), gs_minimum = None, gs_maximum = None\<rparr>]\<rparr>"

lemma nc_match_accepts_witness:
  "nc_match (\<lambda>_. None) (DNSName (sample_name 65)) sample_nc = X509_V_OK"
proof -
  have "same_ci [65] [97]" "\<not> same_ci [65] [98]" by (simp_all add: ascii_lower_def)
  then have a: "nc_match_single (\<lambda>_. None) (DNSName (sample_name 65)) (DNSName (sample_name 97)) = X509_V_OK"
      and b: "nc_match_single (\<lambda>_. None) (DNSName (sample_name 65)) (DNSName (sample_name 98)) = X509_V_ERR_PERMITTED_VIOLATION"
    by code_simp+
  show ?thesis
    using nc_match_accepts [THEN conjunct1, of "\<lambda>_. None" "DNSName (sample_name 65)" sample_nc] a b
    by (simp add: sample_nc_def same_type_def)
qed

text \<open>The host is matched by a name of the certificate.\<close>

lemma host_in_names:
  assumes z: "0 \<notin> set host" and d: "\<not> (1 < length host \<and> hd host = dot)"
    and r: "X509_check_host al x (Some host) flags pn = Some (1, pn')"
  shows "x_san x = Some gens \<Longrightarrow> \<exists>a. DNSName a \<in> set gens \<and>
       name_matches (flags AND NOT X509_CHECK_FLAG_DOT_SUBDOMAINS) (as_contents a) host"
    and "x_san x = None \<Longrightarrow> \<exists>e \<in> set (xn_entries (x_subject x)). ne_object e = NID_commonName \<and>
       (\<exists>s. utf8_value al (ne_value e) = Some s \<and> x509v3_looks_like_dns_name s)"
proof -
  assume s: "x_san x = Some gens"
  show "\<exists>a. DNSName a \<in> set gens \<and> name_matches (flags AND NOT X509_CHECK_FLAG_DOT_SUBDOMAINS) (as_contents a) host"
    using X509_check_host_dns [OF z d refl s, where flags = flags and al = al and pn = pn] r by (auto split: if_splits)
next
  assume s: "x_san x = None"
  show "\<exists>e \<in> set (xn_entries (x_subject x)). ne_object e = NID_commonName \<and>
       (\<exists>s. utf8_value al (ne_value e) = Some s \<and> x509v3_looks_like_dns_name s)"
    using X509_check_host_cn [OF z d refl s, where flags = flags and al = al and pn = pn] r by auto
qed

text \<open>C2: Let a chain pass \<open>check_name_constraints\<close> with a callback that overrides no error, a
  certificate above the leaf have name constraints, and the leaf be good for a host (without NUL and
  not a subdomain pattern).  Then the leaf has subject alternative names; where DNS names are
  constrained to permitted subtrees without stars, the host itself lies in one of them, also when
  the name that matched it is a wildcard; and without wildcards it lies in no excluded subtree.\<close>

theorem name_constraints_confine_hosts:
  assumes "check_name_constraints al i2d (\<lambda>_. False) ctx = (True, ctx')"
    and "0 < j" "j < length (ctx_chain ctx)" "x_nc (ctx_chain ctx ! j) = Some nc"
    and "X509_check_host al (ctx_chain ctx ! 0) (Some host) flags pn = Some (1, pn')"
    and "0 \<notin> set host" "\<not> (1 < length host \<and> hd host = dot)"
  shows "x_san (ctx_chain ctx ! 0) \<noteq> None \<and>
    (dns_bases (permittedSubtrees nc) \<noteq> {} \<and> (\<forall>b \<in> dns_bases (permittedSubtrees nc). star \<notin> set b) \<longrightarrow>
       (\<exists>b \<in> dns_bases (permittedSubtrees nc). in_subtree host b)) \<and>
    (flags AND X509_CHECK_FLAG_NO_WILDCARDS \<noteq> 0 \<longrightarrow>
       (\<forall>b \<in> dns_bases (excludedSubtrees nc). \<not> in_subtree host b))"
proof -
  let ?leaf = "ctx_chain ctx ! 0"
  define fl where "fl = flags AND NOT X509_CHECK_FLAG_DOT_SUBDOMAINS"
  note chk = assms(1) [unfolded check_name_constraints_strict]
  have "nc_checked ctx 0" by (simp add: nc_checked_def)
  with chk assms(2,3) have "nc_passes i2d ctx 0 j" by blast
  with assms(4) have nc: "NAME_CONSTRAINTS_check i2d ?leaf nc = X509_V_OK" by (simp add: nc_passes_def)
  show ?thesis
  proof (cases "x_san ?leaf")
    case None
    obtain k s where k: "k < length (xn_entries (x_subject ?leaf))" "ne_object (xn_entries (x_subject ?leaf) ! k) = NID_commonName"
      "utf8_value al (ne_value (xn_entries (x_subject ?leaf) ! k)) = Some s" "x509v3_looks_like_dns_name s"
      using host_in_names(2) [OF assms(6,7,5)] None by (auto simp: in_set_conv_nth)
    have "\<exists>j \<in> {1..<length (ctx_chain ctx)}. x_nc (ctx_chain ctx ! j) \<noteq> None" using assms(2-4) by force
    with chk None have "reject_dns_loop al (x_subject ?leaf) (-1) = X509_V_OK"
      by (simp add: reject_dns_name_in_common_name_def)
    from reject_dns_OK [OF this _ k(1-3)] k(4) show ?thesis by simp
  next
    case (Some gens)
    then obtain a where a: "DNSName a \<in> set gens" "name_matches fl (as_contents a) host"
      using host_in_names(1) [OF assms(6,7,5)] by (auto simp: fl_def)
    have ok: "nc_match i2d (DNSName a) nc = X509_V_OK"
      using NAME_CONSTRAINTS_check_altname [OF nc] a(1) Some by (simp add: x509_altname_def)
    have perm: "\<exists>b \<in> dns_bases (permittedSubtrees nc). in_subtree host b"
      if p: "dns_bases (permittedSubtrees nc) \<noteq> {}" "\<forall>b \<in> dns_bases (permittedSubtrees nc). star \<notin> set b"
      using nc_match_dns(1) [OF ok p(1)] name_matches_in_subtree [OF a(2)] p(2) by blast
    have excl: "\<not> in_subtree host b"
      if "flags AND X509_CHECK_FLAG_NO_WILDCARDS \<noteq> 0" and b: "b \<in> dns_bases (excludedSubtrees nc)" for b
    proof -
      have "fl AND X509_CHECK_FLAG_NO_WILDCARDS \<noteq> 0" using that(1) NO_WILDCARDS_kept [of flags] by (simp add: fl_def)
      then have "same_ci (as_contents a) host" using a(2) unfolding name_matches_def by simp
      then have "same_ci host (as_contents a)" by (simp add: same_ci_sym)
      with nc_match_dns(2) [OF ok b] in_subtree_same_ci show ?thesis by blast
    qed
    show ?thesis using Some perm excl by simp
  qed
qed

definition sample_chain :: x509_ctx where
  "sample_chain = \<lparr>ctx_chain =
     [\<lparr>x_subject = \<lparr>xn_entries = [], xn_modified = False, xn_canon_enc = []\<rparr>,
       x_san = Some [DNSName (sample_name 65)], x_nc = None, x_ex_flags = 0\<rparr>,
      \<lparr>x_subject = \<lparr>xn_entries = [], xn_modified = False, xn_canon_enc = []\<rparr>,
       x_san = None, x_nc = Some sample_nc, x_ex_flags = 0\<rparr>],
     ctx_error = 0, ctx_error_depth = 0, ctx_current_cert = 0\<rparr>"

lemma name_constraints_confine_hosts_witness:
  "in_subtree [97] [97] \<and> \<not> in_subtree [97] [98] \<and> x_san (ctx_chain sample_chain ! 0) \<noteq> None"
proof -
  have c: "check_name_constraints (\<lambda>_. True) (\<lambda>_. None) (\<lambda>_. False) sample_chain = (True, sample_chain)" by code_simp
  have fl: "X509_CHECK_FLAG_NO_WILDCARDS = (X509_CHECK_FLAG_NO_WILDCARDS AND NOT X509_CHECK_FLAG_DOT_SUBDOMAINS :: u32)" by simp
  have san: "x_san (ctx_chain sample_chain ! 0) = Some [DNSName (sample_name 65)]" by (simp add: sample_chain_def)
  obtain pn where h: "X509_check_host (\<lambda>_. True) (ctx_chain sample_chain ! 0) (Some [97]) X509_CHECK_FLAG_NO_WILDCARDS None =
      Some (1, pn)"
    using X509_check_host_dns [OF _ _ fl san, of "[97]" "\<lambda>_. True" None]
    by (auto simp: sample_name_def name_matches_def as_contents_def mem_def ascii_lower_def)
  have b: "dns_bases (permittedSubtrees sample_nc) = {[97]}" "dns_bases (excludedSubtrees sample_nc) = {[98]}"
    by (auto simp: dns_base sample_nc_def sample_name_def as_contents_def mem_def)
  have j: "1 < length (ctx_chain sample_chain)" "x_nc (ctx_chain sample_chain ! 1) = Some sample_nc"
    by (simp_all add: sample_chain_def)
  show ?thesis using name_constraints_confine_hosts [OF c _ j h] by (simp add: b)
qed

end
