(* ===== verification/Limbs.thy ===== *)
theory Limbs
  imports ConstTime
begin

text \<open>
  Arrays of machine words as numbers: the word loops of \<open>crypto/fipsmodule/bn/generic.c\<close>, in the
  version for 64-bit words and 128-bit products, which is the one compiled for the ARM processors of
  iOS devices (x86 has assembly in its place), and \<open>bn_select_words\<close> of \<open>bn.c\<close>.  A \<open>BN_ULONG\<close> array of \<open>num\<close> words is a list of that length, least significant
  word first.  The sources unroll the loops four times; the model has one round per word.  A
  function reads its inputs at a position before it writes the output there, so that an output
  array may be one of the inputs.
\<close>

section \<open>Values\<close>

definition radix :: int where
  "radix = 2 ^ 64"

fun words_val :: "u64 list \<Rightarrow> int" where
  "words_val [] = 0"
| "words_val (w # ws) = uint w + radix * words_val ws"

lemma radix_pos [simp]: "0 < radix" "radix \<noteq> 0" "0 \<le> radix" "1 \<le> radix" "1 < radix"
  by (simp_all add: radix_def)

lemma uint_radix [simp]: "uint (w :: u64) < radix" "0 \<le> uint w"
  using uint_lt2p [of w] by (simp_all add: radix_def)

lemma uint_radix_le: "uint (w :: u64) \<le> radix - 1"
  using uint_radix(1) [of w] by linarith

lemma words_val_append: "words_val (xs @ ys) = words_val xs + radix ^ length xs * words_val ys"
  by (induction xs) (simp_all add: algebra_simps)

lemma words_val_nonneg [simp]: "0 \<le> words_val ws"
  by (induction ws) simp_all

lemma words_val_bound: "words_val ws < radix ^ length ws"
proof (induction ws)
  case (Cons w ws)
  have "uint w + radix * words_val ws \<le> (radix - 1) + radix * (radix ^ length ws - 1)"
    using Cons uint_radix_le [of w] by (intro add_mono mult_left_mono) simp_all
  then show ?case by (simp add: algebra_simps)
qed simp

lemma words_val_replicate_0 [simp]: "words_val (replicate n 0) = 0"
  by (induction n) simp_all

lemma words_val_eq_0_iff: "words_val ws = 0 \<longleftrightarrow> (\<forall>w \<in> set ws. w = 0)"
proof (induction ws)
  case (Cons w ws)
  have "uint w + radix * words_val ws = 0 \<longleftrightarrow> uint w = 0 \<and> words_val ws = 0"
    by (subst add_nonneg_eq_0_iff) simp_all
  with Cons show ?case by (simp add: word_uint_eq_iff)
qed simp

lemma words_val_inj: "length xs = length ys \<Longrightarrow> words_val xs = words_val ys \<Longrightarrow> xs = ys"
proof (induction xs ys rule: list_induct2)
  case (Cons x xs y ys)
  have "uint x = uint y"
  proof -
    have "(uint x + radix * words_val xs) mod radix = (uint y + radix * words_val ys) mod radix"
      using Cons.prems by simp
    then show ?thesis by (simp add: mod_pos_pos_trivial)
  qed
  with Cons show ?case by (simp add: word_uint_eq_iff)
qed simp

text \<open>A 128-bit value and its halves, \<open>Lw\<close> and \<open>Hw\<close> of \<open>internal.h\<close>.\<close>

type_synonym u128 = "128 word"

definition Lw :: "u128 \<Rightarrow> u64" where "Lw t = ucast t"
definition Hw :: "u128 \<Rightarrow> u64" where "Hw t = ucast (drop_bit 64 t)"

lemma uint_drop_bit_128: "uint (drop_bit n (t :: u128)) = uint t div 2 ^ n"
proof -
  have "take_bit LENGTH(128) (uint t) = uint t" using uint_lt2p [of t] by (intro take_bit_int_eq_self) simp_all
  then show ?thesis by (simp only: unsigned_drop_bit_eq drop_bit_eq_div [where 'a = int])
qed

lemma int_div_less: "0 < k \<Longrightarrow> m < n * k \<Longrightarrow> m div k < (n :: int)"
proof (rule ccontr)
  assume k: "0 < k" "m < n * k" and "\<not> m div k < n"
  then have "n * k \<le> m div k * k" by (intro mult_right_mono) simp_all
  moreover have "m div k * k \<le> m" using k(1) pos_mod_sign [of k m] div_mult_mod_eq [of m k] by linarith
  ultimately show False using k(2) by simp
qed

lemma wide_split: "uint t = uint (Lw t) + radix * uint (Hw t)"
proof -
  have "uint t < 2 ^ 128" using uint_lt2p [of t] by simp
  then have "uint t div 2 ^ 64 < 2 ^ 64" by (intro int_div_less) simp_all
  then have "(uint t div 2 ^ 64) mod 2 ^ 64 = uint t div 2 ^ 64" by (intro mod_pos_pos_trivial) (simp_all add: pos_imp_zdiv_nonneg_iff)
  moreover have "uint (Hw t) = (uint t div 2 ^ 64) mod 2 ^ 64"
    by (simp only: Hw_def unsigned_ucast_eq uint_drop_bit_128 take_bit_eq_mod) simp
  ultimately have "uint (Hw t) = uint t div 2 ^ 64" by simp
  moreover have "uint (Lw t) = uint t mod 2 ^ 64"
    by (simp add: Lw_def unsigned_ucast_eq take_bit_eq_mod)
  ultimately show ?thesis by (simp add: radix_def)
qed

lemma wide_sum:
  assumes "x < radix * radix" "0 \<le> x" "uint t = x mod (radix * radix)"
  shows "uint (Lw t) + radix * uint (Hw t) = x"
  using assms wide_split [of t] by (simp add: mod_pos_pos_trivial)

lemma radix_radix: "(2 :: int) ^ 128 = radix * radix"
  by (simp add: radix_def)

lemma uint_wide: "uint (ucast (w :: u64) :: u128) = uint w"
proof -
  have "uint w < 2 ^ 128" using uint_radix(1) [of w] by (simp add: radix_def)
  then have "uint w mod 2 ^ 128 = uint w" by (intro mod_pos_pos_trivial) simp_all
  then show ?thesis by (simp add: unsigned_ucast_eq take_bit_eq_mod)
qed

section \<open>Addition, subtraction and multiplication by a word\<close>

text \<open>\<open>ll\<close> is the running 128-bit sum; the result is the words of \<open>r\<close> and the carry.\<close>

fun add_words_loop :: "u128 \<Rightarrow> u64 list \<Rightarrow> u64 list \<Rightarrow> u64 list \<times> u64" where
  "add_words_loop ll (a # as) (b # bs) =
     (let ll = ll + (ucast a + ucast b)
      in case add_words_loop (drop_bit 64 ll) as bs of (r, c) \<Rightarrow> (ucast ll # r, c))"
| "add_words_loop ll _ _ = ([], ucast ll)"

definition bn_add_words :: "u64 list \<Rightarrow> u64 list \<Rightarrow> u64 list \<times> u64" where
  "bn_add_words a b = add_words_loop 0 a b"

fun sub_words_loop :: "bool \<Rightarrow> u64 list \<Rightarrow> u64 list \<Rightarrow> u64 list \<times> u64" where
  "sub_words_loop c (t1 # as) (t2 # bs) =
     (case sub_words_loop (if t1 \<noteq> t2 then t1 < t2 else c) as bs of
        (r, c') \<Rightarrow> ((t1 - t2 - of_bool c) # r, c'))"
| "sub_words_loop c _ _ = ([], of_bool c)"

definition bn_sub_words :: "u64 list \<Rightarrow> u64 list \<Rightarrow> u64 list \<times> u64" where
  "bn_sub_words a b = sub_words_loop False a b"

definition mul_add :: "u64 \<Rightarrow> u64 \<Rightarrow> u64 \<Rightarrow> u64 \<Rightarrow> u64 \<times> u64" where
  "mul_add r a w c = (let t = ucast w * ucast a + ucast r + ucast c in (Lw t, Hw t))"

definition mul_carry :: "u64 \<Rightarrow> u64 \<Rightarrow> u64 \<Rightarrow> u64 \<times> u64" where
  "mul_carry a w c = (let t = ucast w * ucast a + ucast c in (Lw t, Hw t))"

definition sqr_word :: "u64 \<Rightarrow> u64 \<times> u64" where
  "sqr_word a = (let t = ucast a * ucast a in (Lw t, Hw t))"

fun mul_add_words_loop :: "u64 \<Rightarrow> u64 list \<Rightarrow> u64 list \<Rightarrow> u64 \<Rightarrow> u64 list \<times> u64" where
  "mul_add_words_loop c (r # rp) (a # ap) w =
     (case mul_add r a w c of
        (r', c') \<Rightarrow> (case mul_add_words_loop c' rp ap w of (rs, c'') \<Rightarrow> (r' # rs, c'')))"
| "mul_add_words_loop c _ _ w = ([], c)"

definition bn_mul_add_words :: "u64 list \<Rightarrow> u64 list \<Rightarrow> u64 \<Rightarrow> u64 list \<times> u64" where
  "bn_mul_add_words rp ap w = mul_add_words_loop 0 rp ap w"

fun mul_words_loop :: "u64 \<Rightarrow> u64 list \<Rightarrow> u64 \<Rightarrow> u64 list \<times> u64" where
  "mul_words_loop c (a # ap) w =
     (case mul_carry a w c of
        (r, c') \<Rightarrow> (case mul_words_loop c' ap w of (rs, c'') \<Rightarrow> (r # rs, c'')))"
| "mul_words_loop c [] w = ([], c)"

definition bn_mul_words :: "u64 list \<Rightarrow> u64 \<Rightarrow> u64 list \<times> u64" where
  "bn_mul_words ap w = mul_words_loop 0 ap w"

fun bn_sqr_words :: "u64 list \<Rightarrow> u64 list" where
  "bn_sqr_words [] = []"
| "bn_sqr_words (a # as) = (case sqr_word a of (r0, r1) \<Rightarrow> r0 # r1 # bn_sqr_words as)"

definition bn_select_words :: "u64 \<Rightarrow> u64 list \<Rightarrow> u64 list \<Rightarrow> u64 list" where
  "bn_select_words msk a b = map2 (constant_time_select_w msk) a b"

section \<open>What they compute\<close>

lemma uint_plus_128: "uint (x + y :: u128) = (uint x + uint y) mod (radix * radix)"
  by (simp add: uint_word_ariths radix_def)

lemma uint_mult_128: "uint (x * y :: u128) = (uint x * uint y) mod (radix * radix)"
  by (simp add: uint_word_ariths radix_def)

lemma product_bound: "uint (a :: u64) * uint (b :: u64) \<le> (radix - 1) * (radix - 1)"
  by (intro mult_mono) (simp_all add: uint_radix_le)

lemma mul_add_value: "mul_add r a w c = (r', c') \<Longrightarrow> uint r' + radix * uint c' = uint r + uint a * uint w + uint c"
proof -
  assume m: "mul_add r a w c = (r', c')"
  let ?x = "uint w * uint a + uint r + uint c"
  have "?x \<le> (radix - 1) * (radix - 1) + (radix - 1) + (radix - 1)"
    by (intro add_mono product_bound uint_radix_le)
  then have b: "?x < radix * radix" by (simp add: algebra_simps)
  have "uint (ucast w * ucast a + ucast r + ucast c :: u128) = ?x mod (radix * radix)"
    by (simp add: uint_plus_128 uint_mult_128 uint_wide mod_simps)
  from wide_sum [OF b _ this] m show ?thesis by (auto simp: mul_add_def Let_def algebra_simps)
qed

lemma mul_carry_value: "mul_carry a w c = (r', c') \<Longrightarrow> uint r' + radix * uint c' = uint a * uint w + uint c"
  using mul_add_value [of 0 a w c r' c'] by (simp add: mul_add_def mul_carry_def)

lemma sqr_word_value: "sqr_word a = (r0, r1) \<Longrightarrow> uint r0 + radix * uint r1 = uint a * uint a"
  using mul_carry_value [of a a 0 r0 r1] by (simp add: mul_carry_def sqr_word_def)

lemma mul_add_words_loop_value:
  "length rp = length ap \<Longrightarrow> mul_add_words_loop c rp ap w = (rs, c') \<Longrightarrow>
   length rs = length ap \<and>
   words_val rs + radix ^ length ap * uint c' = words_val rp + words_val ap * uint w + uint c"
proof (induction rp ap arbitrary: c rs c' rule: list_induct2)
  case (Cons r rp a ap)
  obtain r1 c1 where 1: "mul_add r a w c = (r1, c1)" by fastforce
  obtain rs2 c2 where 2: "mul_add_words_loop c1 rp ap w = (rs2, c2)" by fastforce
  from Cons.prems 1 2 have rs: "rs = r1 # rs2" "c' = c2" by simp_all
  from Cons.IH [OF 2] have "length rs2 = length ap"
    "words_val rs2 + radix ^ length ap * uint c2 = words_val rp + words_val ap * uint w + uint c1" by simp_all
  then have "radix * (words_val rs2 + radix ^ length ap * uint c2) =
      radix * (words_val rp + words_val ap * uint w + uint c1)" "length rs2 = length ap" by simp_all
  with mul_add_value [OF 1] show ?case by (simp add: rs algebra_simps)
qed simp

lemma bn_mul_add_words_value:
  assumes "length rp = length ap" "bn_mul_add_words rp ap w = (rs, c)"
  shows "length rs = length ap" "words_val rs + radix ^ length ap * uint c = words_val rp + words_val ap * uint w"
  using mul_add_words_loop_value [OF assms(1)] assms(2) by (force simp: bn_mul_add_words_def)+

lemma mul_words_loop_value:
  "mul_words_loop c ap w = (rs, c') \<Longrightarrow>
   length rs = length ap \<and> words_val rs + radix ^ length ap * uint c' = words_val ap * uint w + uint c"
proof (induction ap arbitrary: c rs c')
  case (Cons a ap)
  obtain r1 c1 where 1: "mul_carry a w c = (r1, c1)" by fastforce
  obtain rs2 c2 where 2: "mul_words_loop c1 ap w = (rs2, c2)" by fastforce
  from Cons.prems 1 2 have rs: "rs = r1 # rs2" "c' = c2" by simp_all
  from Cons.IH [OF 2] have "radix * (words_val rs2 + radix ^ length ap * uint c2) =
      radix * (words_val ap * uint w + uint c1)" "length rs2 = length ap" by simp_all
  with mul_carry_value [OF 1] show ?case by (simp add: rs algebra_simps)
qed simp

lemma bn_mul_words_value:
  assumes "bn_mul_words ap w = (rs, c)"
  shows "length rs = length ap" "words_val rs + radix ^ length ap * uint c = words_val ap * uint w"
  using mul_words_loop_value [of 0 ap w rs c] assms by (simp_all add: bn_mul_words_def)

lemma add_words_loop_value:
  "length as = length bs \<Longrightarrow> uint ll \<le> 1 \<Longrightarrow> add_words_loop ll as bs = (r, c) \<Longrightarrow>
   length r = length as \<and> uint c \<le> 1 \<and>
   words_val r + radix ^ length as * uint c = words_val as + words_val bs + uint ll"
proof (induction as bs arbitrary: ll r c rule: list_induct2)
  case Nil
  have "uint (ucast ll :: u64) = uint ll mod 2 ^ 64" by (simp add: unsigned_ucast_eq take_bit_eq_mod)
  also have "\<dots> = uint ll" using Nil by (intro mod_pos_pos_trivial) simp_all
  finally show ?case using Nil by simp
next
  case (Cons a as b bs)
  let ?l = "ll + (ucast a + ucast b)"
  have s: "uint ?l = uint ll + (uint a + uint b)"
  proof -
    have "uint ll + (uint a + uint b) < radix * radix"
    proof -
      have "uint ll + (uint a + uint b) \<le> 1 + ((radix - 1) + (radix - 1))"
        using Cons.prems by (intro add_mono uint_radix_le) simp_all
      also have "\<dots> < radix * radix" by (simp add: radix_def)
      finally show ?thesis .
    qed
    then show ?thesis by (simp add: uint_plus_128 uint_wide mod_simps mod_pos_pos_trivial)
  qed
  have h: "uint (drop_bit 64 ?l) = uint (Hw ?l)" "uint (drop_bit 64 ?l) \<le> 1"
  proof -
    have "uint (drop_bit 64 ?l) = uint ?l div radix"
      by (simp only: uint_drop_bit_128 radix_def)
    moreover have "uint ?l < 2 * radix"
      using s Cons.prems uint_radix_le [of a] uint_radix_le [of b] by linarith
    then have "uint ?l div radix < 2" by (intro int_div_less) simp_all
    ultimately show le: "uint (drop_bit 64 ?l) \<le> 1" by simp
    have "uint (Hw ?l) = uint (drop_bit 64 ?l) mod 2 ^ 64" by (simp add: Hw_def unsigned_ucast_eq take_bit_eq_mod)
    also have "\<dots> = uint (drop_bit 64 ?l)" using le by (intro mod_pos_pos_trivial) simp_all
    finally show "uint (drop_bit 64 ?l) = uint (Hw ?l)" by simp
  qed
  obtain r2 c2 where 2: "add_words_loop (drop_bit 64 ?l) as bs = (r2, c2)" by fastforce
  with Cons.prems have r: "r = Lw ?l # r2" "c = c2" by (simp_all add: Let_def Lw_def)
  from Cons.IH [OF h(2) 2] have "length r2 = length as" "uint c2 \<le> 1"
    "radix * (words_val r2 + radix ^ length as * uint c2) = radix * (words_val as + words_val bs + uint (drop_bit 64 ?l))"
    by simp_all
  with wide_split [of ?l] s h(1) show ?case by (simp add: r algebra_simps)
qed

lemma bn_add_words_value:
  assumes "length a = length b" "bn_add_words a b = (r, c)"
  shows "length r = length a" "uint c \<le> 1" "words_val r + radix ^ length a * uint c = words_val a + words_val b"
  using add_words_loop_value [OF assms(1), of 0 r c] assms(2) by (simp_all add: bn_add_words_def)

lemma sub_step:
  "uint (t1 - t2 - of_bool c :: u64) = uint t1 - uint t2 - of_bool c + radix * of_bool (if t1 \<noteq> t2 then t1 < t2 else c)"
proof -
  have *: "(x :: int) mod radix = x + radix * k" if "0 \<le> x + radix * k" "x + radix * k < radix" for x k
  proof -
    have "(x + radix * k) mod radix = x mod radix" by simp
    with mod_pos_pos_trivial [OF that] show ?thesis by simp
  qed
  have "uint (t1 - t2 - of_bool c) = (uint t1 - uint t2 - of_bool c) mod radix"
    by (cases c) (simp_all add: uint_word_ariths mod_simps radix_def)
  also have "\<dots> = uint t1 - uint t2 - of_bool c + radix * of_bool (if t1 \<noteq> t2 then t1 < t2 else c)"
    using uint_radix_le [of t1] uint_radix_le [of t2] uint_radix(2) [of t1] uint_radix(2) [of t2]
    unfolding word_less_def word_uint_eq_iff by (intro *; cases c; simp; linarith)
  finally show ?thesis .
qed

lemma sub_words_loop_value:
  "length as = length bs \<Longrightarrow> sub_words_loop c as bs = (r, c') \<Longrightarrow>
   length r = length as \<and> uint c' \<le> 1 \<and>
   words_val r = words_val as - words_val bs - of_bool c + radix ^ length as * uint c'"
proof (induction as bs arbitrary: c r c' rule: list_induct2)
  case (Cons t1 as t2 bs)
  let ?c = "if t1 \<noteq> t2 then t1 < t2 else c"
  obtain r2 c2 where 2: "sub_words_loop ?c as bs = (r2, c2)" by fastforce
  with Cons.prems have r: "r = (t1 - t2 - of_bool c) # r2" "c' = c2" by simp_all
  define d where "d = (of_bool ?c :: int)"
  from Cons.IH [OF 2] have IH: "length r2 = length as" "uint c2 \<le> 1"
    "words_val r2 = words_val as - words_val bs - d + radix ^ length as * uint c2" by (simp_all add: d_def)
  have "uint (t1 - t2 - of_bool c) = uint t1 - uint t2 - of_bool c + radix * d"
    unfolding d_def by (rule sub_step)
  with IH(1,2) show ?case unfolding r words_val.simps IH(3) by (simp add: algebra_simps)
qed auto

lemma bn_sub_words_value:
  assumes "length a = length b" "bn_sub_words a b = (r, c)"
  shows "length r = length a" "uint c \<le> 1" "words_val r = words_val a - words_val b + radix ^ length a * uint c"
  using sub_words_loop_value [OF assms(1), of False r c] assms(2) by (simp_all add: bn_sub_words_def)

lemma bn_sqr_words_value:
  "length (bn_sqr_words as) = 2 * length as"
  by (induction as) (simp_all split: prod.split)

end
