(* ===== verification/Limbs_Mul.thy ===== *)
theory Limbs_Mul
  imports
    Limbs
begin

text \<open>
  Products of word arrays: the comba functions of \<open>crypto/fipsmodule/bn/generic.c\<close> and the
  multiplication and squaring of arrays in \<open>mul.c\<close>, schoolbook and Karatsuba.  A pointer with a
  length is the list of those words; scratch space is not modelled.
\<close>

section \<open>Products by columns\<close>

text \<open>\<open>mul_add_c\<close> and its variants add a product to the three-word number \<open>(c2, c1, c0)\<close>.\<close>

type_synonym columns = "u64 \<times> u64 \<times> u64"

definition mul_add_c :: "u64 \<Rightarrow> u64 \<Rightarrow> columns \<Rightarrow> columns" where
  "mul_add_c a b = (\<lambda>(c0, c1, c2).
     (let t = ucast a * ucast b + ucast c0; c0 = Lw t; hi = Hw t; c1 = c1 + hi;
          c2 = (if c1 < hi then c2 + 1 else c2)
      in (c0, c1, c2)))"

definition mul_add_c2 :: "u64 \<Rightarrow> u64 \<Rightarrow> columns \<Rightarrow> columns" where
  "mul_add_c2 a b = (\<lambda>(c0, c1, c2).
     (let t = ucast a * ucast b; tt = t + ucast c0; c0 = Lw tt; hi = Hw tt; c1 = c1 + hi;
          c2 = (if c1 < hi then c2 + 1 else c2);
          t = t + ucast c0; c0 = Lw t; hi = Hw t; c1 = c1 + hi;
          c2 = (if c1 < hi then c2 + 1 else c2)
      in (c0, c1, c2)))"

definition sqr_add_c :: "u64 list \<Rightarrow> nat \<Rightarrow> columns \<Rightarrow> columns" where
  "sqr_add_c a i = (\<lambda>(c0, c1, c2).
     (let t = ucast (a ! i) * ucast (a ! i) + ucast c0; c0 = Lw t; hi = Hw t; c1 = c1 + hi;
          c2 = (if c1 < hi then c2 + 1 else c2)
      in (c0, c1, c2)))"

definition sqr_add_c2 :: "u64 list \<Rightarrow> nat \<Rightarrow> nat \<Rightarrow> columns \<Rightarrow> columns" where
  "sqr_add_c2 a i j = mul_add_c2 (a ! i) (a ! j)"

text \<open>The straight-line code of the comba functions: for each word of the result the products
  that are added, in the order of the source.  Between two words the variables change their
  roles: the word that was stored is set to 0 and becomes the top.\<close>

fun comba_columns :: "('x \<Rightarrow> columns \<Rightarrow> columns) \<Rightarrow> 'x list list \<Rightarrow> columns \<Rightarrow> u64 list" where
  "comba_columns step [] (c0, c1, c2) = [c0]"
| "comba_columns step (col # cols) c =
     (case fold step col c of (c0, c1, c2) \<Rightarrow> c0 # comba_columns step cols (c1, c2, 0))"

definition mul_comba8_products :: "(nat \<times> nat) list list" where
  "mul_comba8_products =
     [[(0, 0)],
      [(0, 1), (1, 0)],
      [(2, 0), (1, 1), (0, 2)],
      [(0, 3), (1, 2), (2, 1), (3, 0)],
      [(4, 0), (3, 1), (2, 2), (1, 3), (0, 4)],
      [(0, 5), (1, 4), (2, 3), (3, 2), (4, 1), (5, 0)],
      [(6, 0), (5, 1), (4, 2), (3, 3), (2, 4), (1, 5), (0, 6)],
      [(0, 7), (1, 6), (2, 5), (3, 4), (4, 3), (5, 2), (6, 1), (7, 0)],
      [(7, 1), (6, 2), (5, 3), (4, 4), (3, 5), (2, 6), (1, 7)],
      [(2, 7), (3, 6), (4, 5), (5, 4), (6, 3), (7, 2)],
      [(7, 3), (6, 4), (5, 5), (4, 6), (3, 7)],
      [(4, 7), (5, 6), (6, 5), (7, 4)],
      [(7, 5), (6, 6), (5, 7)],
      [(6, 7), (7, 6)],
      [(7, 7)]]"

definition bn_mul_comba8 :: "u64 list \<Rightarrow> u64 list \<Rightarrow> u64 list" where
  "bn_mul_comba8 a b = comba_columns (\<lambda>(i, j). mul_add_c (a ! i) (b ! j)) mul_comba8_products (0, 0, 0)"

definition mul_comba4_products :: "(nat \<times> nat) list list" where
  "mul_comba4_products =
     [[(0, 0)],
      [(0, 1), (1, 0)],
      [(2, 0), (1, 1), (0, 2)],
      [(0, 3), (1, 2), (2, 1), (3, 0)],
      [(3, 1), (2, 2), (1, 3)],
      [(2, 3), (3, 2)],
      [(3, 3)]]"

definition bn_mul_comba4 :: "u64 list \<Rightarrow> u64 list \<Rightarrow> u64 list" where
  "bn_mul_comba4 a b = comba_columns (\<lambda>(i, j). mul_add_c (a ! i) (b ! j)) mul_comba4_products (0, 0, 0)"

text \<open>A square uses each pair of different words once, doubled; \<open>(i, i)\<close> is \<open>sqr_add_c\<close>.\<close>

definition sqr_step :: "u64 list \<Rightarrow> nat \<times> nat \<Rightarrow> columns \<Rightarrow> columns" where
  "sqr_step a = (\<lambda>(i, j). if i = j then sqr_add_c a i else sqr_add_c2 a i j)"

definition sqr_comba8_products :: "(nat \<times> nat) list list" where
  "sqr_comba8_products =
     [[(0, 0)],
      [(1, 0)],
      [(1, 1), (2, 0)],
      [(3, 0), (2, 1)],
      [(2, 2), (3, 1), (4, 0)],
      [(5, 0), (4, 1), (3, 2)],
      [(3, 3), (4, 2), (5, 1), (6, 0)],
      [(7, 0), (6, 1), (5, 2), (4, 3)],
      [(4, 4), (5, 3), (6, 2), (7, 1)],
      [(7, 2), (6, 3), (5, 4)],
      [(5, 5), (6, 4), (7, 3)],
      [(7, 4), (6, 5)],
      [(6, 6), (7, 5)],
      [(7, 6)],
      [(7, 7)]]"

definition bn_sqr_comba8 :: "u64 list \<Rightarrow> u64 list" where
  "bn_sqr_comba8 a = comba_columns (sqr_step a) sqr_comba8_products (0, 0, 0)"

definition sqr_comba4_products :: "(nat \<times> nat) list list" where
  "sqr_comba4_products =
     [[(0, 0)],
      [(1, 0)],
      [(1, 1), (2, 0)],
      [(3, 0), (2, 1)],
      [(2, 2), (3, 1)],
      [(3, 2)],
      [(3, 3)]]"

definition bn_sqr_comba4 :: "u64 list \<Rightarrow> u64 list" where
  "bn_sqr_comba4 a = comba_columns (sqr_step a) sqr_comba4_products (0, 0, 0)"

subsection \<open>Their values\<close>

definition columns_val :: "columns \<Rightarrow> int" where
  "columns_val = (\<lambda>(c0, c1, c2). uint c0 + radix * uint c1 + radix * radix * uint c2)"

lemma uint_plus_64: "uint (x + y :: u64) = (uint x + uint y) mod radix"
  by (simp add: uint_word_ariths radix_def)

lemma word_add_carry:
  "uint (x + y :: u64) + radix * of_bool (x + y < y) = uint x + uint y"
proof (cases "uint x + uint y < radix")
  case True
  then have "uint (x + y) = uint x + uint y" by (simp add: uint_plus_64 mod_pos_pos_trivial)
  then show ?thesis using uint_radix(2) [of x] by (simp add: word_less_def)
next
  case False
  have "(uint x + uint y) mod radix = (uint x + uint y - radix) mod radix" by simp
  also have "\<dots> = uint x + uint y - radix"
    using False uint_radix_le [of x] uint_radix_le [of y] by (intro mod_pos_pos_trivial) linarith+
  finally have "uint (x + y) = uint x + uint y - radix" by (simp add: uint_plus_64)
  then show ?thesis using uint_radix_le [of x] by (simp add: word_less_def)
qed

text \<open>Adding a two-word number whose top can not overflow.\<close>

lemma columns_add:
  assumes "hi = Hw t" "uint t = x" "c1' = c1 + hi" "c2' = (if c1' < hi then c2 + 1 else c2)"
    "x + radix * uint c1 + radix * radix * uint c2 < radix * radix * radix"
  shows "columns_val (Lw t, c1', c2') = x + radix * uint c1 + radix * radix * uint c2"
proof -
  define k where "k = (of_bool (c1 + hi < hi) :: int)"
  have x: "x = uint (Lw t) + radix * uint hi" using wide_split [of t] assms(1,2) by simp
  have c1: "uint c1 + uint hi = uint c1' + radix * k" using word_add_carry [of c1 hi] assms(3) by (simp add: k_def)
  have "radix * radix * (uint c2 + k) \<le> x + radix * uint c1 + radix * radix * uint c2"
  proof -
    have "radix * (radix * k) \<le> radix * (uint c1 + uint hi)" unfolding c1 by (intro mult_left_mono) simp_all
    then show ?thesis unfolding x by (simp add: algebra_simps add_increasing)
  qed
  with assms(5) have "radix * radix * (uint c2 + k) < radix * radix * radix" by linarith
  then have "uint c2 + k < radix" by simp
  then have "uint c2' = uint c2 + k"
    using assms(3,4) by (auto simp: k_def uint_plus_64 mod_pos_pos_trivial)
  moreover have "radix * (uint c1 + uint hi) = radix * (uint c1' + radix * k)" using c1 by simp
  ultimately show ?thesis unfolding columns_val_def x by (simp add: algebra_simps)
qed

lemma uint_product_plus:
  assumes "uint c \<le> radix - 1"
  shows "uint (ucast (a :: u64) * ucast (b :: u64) + ucast (c :: u64) :: u128) = uint a * uint b + uint c"
proof -
  have "uint a * uint b + uint c \<le> (radix - 1) * (radix - 1) + (radix - 1)"
    using assms by (intro add_mono product_bound)
  moreover have "(radix - 1) * (radix - 1) + (radix - 1) < radix * radix" by (simp add: algebra_simps)
  ultimately have "uint a * uint b + uint c < radix * radix" by linarith
  then show ?thesis by (simp add: uint_plus_128 uint_mult_128 uint_wide mod_simps mod_pos_pos_trivial)
qed

lemma mul_add_c_value:
  assumes "columns_val c + uint a * uint b < radix * radix * radix"
  shows "columns_val (mul_add_c a b c) = columns_val c + uint a * uint b"
proof -
  obtain c0 c1 c2 where c: "c = (c0, c1, c2)" by (cases c)
  let ?t = "ucast a * ucast b + ucast c0 :: u128"
  have "columns_val (Lw ?t, c1 + Hw ?t, if c1 + Hw ?t < Hw ?t then c2 + 1 else c2) =
      (uint a * uint b + uint c0) + radix * uint c1 + radix * radix * uint c2"
    using assms by (intro columns_add [OF refl uint_product_plus refl refl]) (simp_all add: c columns_val_def uint_radix_le)
  then show ?thesis by (simp add: mul_add_c_def c Let_def columns_val_def)
qed

lemma mul_add_c2_value:
  assumes "columns_val c + 2 * (uint a * uint b) < radix * radix * radix"
  shows "columns_val (mul_add_c2 a b c) = columns_val c + 2 * (uint a * uint b)"
proof -
  have "mul_add_c2 a b c = mul_add_c a b (mul_add_c a b c)"
    by (simp add: mul_add_c2_def mul_add_c_def Let_def split: prod.split)
  moreover have p: "0 \<le> uint a * uint b" by simp
  moreover have 1: "columns_val (mul_add_c a b c) = columns_val c + uint a * uint b"
    using assms p by (intro mul_add_c_value) linarith
  moreover have "columns_val (mul_add_c a b (mul_add_c a b c)) = columns_val (mul_add_c a b c) + uint a * uint b"
    unfolding 1 [symmetric] using assms 1 by (intro mul_add_c_value) linarith
  ultimately show ?thesis by simp
qed

lemma sqr_add_c_alt: "sqr_add_c a i = mul_add_c (a ! i) (a ! i)"
  by (simp add: sqr_add_c_def mul_add_c_def)

fun cols_val :: "('x \<Rightarrow> int) \<Rightarrow> 'x list list \<Rightarrow> int" where
  "cols_val f [] = 0"
| "cols_val f (col # cols) = sum_list (map f col) + radix * cols_val f cols"

lemma fold_columns:
  assumes "\<And>x c. columns_val c + f x < radix * radix * radix \<Longrightarrow> columns_val (step x c) = columns_val c + f x"
    "\<And>x. 0 \<le> f x" "columns_val c + sum_list (map f col) < radix * radix * radix"
  shows "columns_val (fold step col c) = columns_val c + sum_list (map f col)"
  using assms(3)
proof (induction col arbitrary: c)
  case (Cons x col)
  have "0 \<le> sum_list (map f col)" using assms(2) by (induction col) simp_all
  with Cons.prems have "columns_val (step x c) = columns_val c + f x" by (intro assms(1)) simp
  with Cons show ?case by simp
qed simp

lemma comba_columns_value:
  assumes "\<And>x c. columns_val c + f x < radix * radix * radix \<Longrightarrow> columns_val (step x c) = columns_val c + f x"
    "\<And>x. 0 \<le> f x"
    "\<forall>col \<in> set cols. radix * radix + sum_list (map f col) \<le> radix * radix * radix"
    "columns_val c < radix * radix" "columns_val c + cols_val f cols < radix ^ (length cols + 1)"
  shows "length (comba_columns step cols c) = length cols + 1 \<and>
    words_val (comba_columns step cols c) = columns_val c + cols_val f cols"
  using assms(3-5)
proof (induction cols arbitrary: c)
  case Nil
  obtain c0 c1 c2 where c: "c = (c0, c1, c2)" by (cases c)
  have "uint c0 + radix * (uint c1 + radix * uint c2) < radix" using Nil by (simp add: c columns_val_def algebra_simps)
  with uint_radix(2) [of c0] have "radix * (uint c1 + radix * uint c2) < radix * 1" by linarith
  then have "uint c1 + radix * uint c2 < 1" by (subst (asm) mult_less_cancel_left_pos) simp_all
  moreover have "0 \<le> radix * uint c2" by simp
  ultimately have "uint c1 + radix * uint c2 = 0" using uint_radix(2) [of c1] by linarith
  then have "radix * (uint c1 + radix * uint c2) = 0" by simp
  then show ?case by (simp add: c columns_val_def algebra_simps)
next
  case (Cons col cols)
  let ?V = "columns_val c + sum_list (map f col)"
  have V: "columns_val (fold step col c) = ?V"
    using Cons.prems by (intro fold_columns assms(1,2)) auto
  obtain c0 c1 c2 where r: "fold step col c = (c0, c1, c2)" by (cases "fold step col c")
  have V': "?V = uint c0 + radix * columns_val (c1, c2, 0)" using V by (simp add: r columns_val_def algebra_simps)
  have lt: "columns_val (c1, c2, 0) < radix * radix"
  proof -
    have "radix * columns_val (c1, c2, 0) < radix * (radix * radix)"
    proof -
      have "radix * radix + sum_list (map f col) \<le> radix * radix * radix" using Cons.prems(1) by simp
      then have "radix * columns_val (c1, c2, 0) < radix * radix * radix"
        using V' Cons.prems(2) uint_radix(2) [of c0] by linarith
      then show ?thesis by (simp only: mult.assoc)
    qed
    then show ?thesis by simp
  qed
  have tot: "columns_val c + cols_val f (col # cols) = uint c0 + radix * (columns_val (c1, c2, 0) + cols_val f cols)"
    using V' by (simp add: algebra_simps)
  have "radix * (columns_val (c1, c2, 0) + cols_val f cols) < radix * radix ^ (length cols + 1)"
  proof -
    have "columns_val c + cols_val f (col # cols) < radix * radix ^ (length cols + 1)" using Cons.prems(3) by simp
    with tot uint_radix(2) [of c0] show ?thesis by linarith
  qed
  then have "columns_val (c1, c2, 0) + cols_val f cols < radix ^ (length cols + 1)"
    by (subst (asm) mult_less_cancel_left_pos) simp_all
  with Cons.IH [of "(c1, c2, 0)"] Cons.prems(1) lt
  have "length (comba_columns step cols (c1, c2, 0)) = length cols + 1"
    "words_val (comba_columns step cols (c1, c2, 0)) = columns_val (c1, c2, 0) + cols_val f cols" by simp_all
  then show ?case using tot by (simp add: r)
qed

lemma comba_bound:
  assumes "\<And>x. f x \<le> 2 * (radix * radix)" "length col \<le> 8"
  shows "radix * radix + sum_list (map f col) \<le> radix * radix * radix"
proof -
  have "sum_list (map f col) \<le> int (length col) * (2 * (radix * radix))"
    using assms(1) by (induction col) (simp_all add: algebra_simps add_mono)
  also have "\<dots> \<le> 8 * (2 * (radix * radix))" using assms(2) by (intro mult_right_mono) simp_all
  finally have "radix * radix + sum_list (map f col) \<le> 17 * (radix * radix)" by simp
  also have "\<dots> \<le> radix * (radix * radix)" by (intro mult_right_mono) (simp_all add: radix_def)
  finally show ?thesis by (simp only: mult.assoc)
qed

lemma words_8: "length a = 8 \<Longrightarrow> \<exists>a0 a1 a2 a3 a4 a5 a6 a7. a = [a0, a1, a2, a3, a4, a5, a6, a7]"
  by (auto simp: numeral_eq_Suc length_Suc_conv)

lemma words_4: "length a = 4 \<Longrightarrow> \<exists>a0 a1 a2 a3. a = [a0, a1, a2, a3]"
  by (auto simp: numeral_eq_Suc length_Suc_conv)

lemma word_product_le: "uint (a :: u64) * uint (b :: u64) \<le> radix * radix"
  by (intro mult_mono) (simp_all add: less_imp_le)

lemma words_product_bound:
  "length a + length b = n \<Longrightarrow> words_val a * words_val b < radix ^ n"
  using words_val_bound [of a] words_val_bound [of b] mult_strict_mono [of "words_val a" "radix ^ length a" "words_val b" "radix ^ length b"]
  by (auto simp: power_add)

lemma comba_value:
  assumes "\<And>x c. columns_val c + f x < radix * radix * radix \<Longrightarrow> columns_val (step x c) = columns_val c + f x"
    "\<And>x. 0 \<le> f x \<and> f x \<le> 2 * (radix * radix)" "list_all (\<lambda>col. length col \<le> 8) cols"
    "cols_val f cols = v" "v < radix ^ n" "length cols + 1 = n"
  shows "length (comba_columns step cols (0, 0, 0)) = n \<and> words_val (comba_columns step cols (0, 0, 0)) = v"
proof -
  have "\<forall>col \<in> set cols. radix * radix + sum_list (map f col) \<le> radix * radix * radix"
    using assms(2,3) comba_bound [of f] by (auto simp: list_all_iff)
  moreover have z: "columns_val (0, 0, 0) = 0" by (simp add: columns_val_def)
  moreover have "v < radix ^ (length cols + 1)" unfolding assms(6) by (rule assms(5))
  ultimately have "length (comba_columns step cols (0, 0, 0)) = length cols + 1 \<and>
      words_val (comba_columns step cols (0, 0, 0)) = columns_val (0, 0, 0) + cols_val f cols"
    using assms(2,4) by (intro comba_columns_value assms(1)) simp_all
  then show ?thesis by (simp only: z assms(4,6) add_0)
qed

lemma mul_comba_step:
  "columns_val c + (case x of (i, j) \<Rightarrow> uint (a ! i) * uint (b ! j)) < radix * radix * radix \<Longrightarrow>
   columns_val ((case x of (i, j) \<Rightarrow> mul_add_c (a ! i) (b ! j)) c) = columns_val c + (case x of (i, j) \<Rightarrow> uint (a ! i) * uint (b ! j))"
  by (cases x) (simp add: mul_add_c_value)

definition sqr_term :: "u64 list \<Rightarrow> nat \<times> nat \<Rightarrow> int" where
  "sqr_term a = (\<lambda>(i, j). (if i = j then 1 else 2) * (uint (a ! i) * uint (a ! j)))"

lemma sqr_comba_step:
  "columns_val c + sqr_term a x < radix * radix * radix \<Longrightarrow> columns_val (sqr_step a x c) = columns_val c + sqr_term a x"
  by (cases x) (auto simp: sqr_step_def sqr_term_def sqr_add_c_alt sqr_add_c2_def mul_add_c_value mul_add_c2_value)

lemma term_bounds:
  "0 \<le> (case x of (i, j) \<Rightarrow> uint (a ! i) * uint (b ! j)) \<and>
   (case x of (i, j) \<Rightarrow> uint (a ! i) * uint ((b :: u64 list) ! j)) \<le> 2 * (radix * radix)"
  "0 \<le> sqr_term a x \<and> sqr_term a x \<le> 2 * (radix * radix)"
proof -
  have "uint (a ! i) * uint (b ! j) \<le> 2 * (radix * radix)" "2 * (uint (a ! i) * uint (a ! j)) \<le> 2 * (radix * radix)"
    "uint (a ! i) * uint (a ! j) \<le> 2 * (radix * radix)" for i j
    using word_product_le [of "a ! i" "b ! j"] word_product_le [of "a ! i" "a ! j"]
      mult_nonneg_nonneg [OF radix_pos(3) radix_pos(3)] by linarith+
  then show "0 \<le> (case x of (i, j) \<Rightarrow> uint (a ! i) * uint (b ! j)) \<and>
      (case x of (i, j) \<Rightarrow> uint (a ! i) * uint ((b :: u64 list) ! j)) \<le> 2 * (radix * radix)"
    "0 \<le> sqr_term a x \<and> sqr_term a x \<le> 2 * (radix * radix)"
    by (cases x; simp add: sqr_term_def)+
qed

lemmas eval_cols = cols_val.simps words_val.simps list.map sum_list.Cons sum_list.Nil prod.case nth_Cons_0 nth_Cons_numeral

lemma bn_mul_comba8_value:
  assumes "length a = 8" "length b = 8"
  shows "length (bn_mul_comba8 a b) = 16 \<and> words_val (bn_mul_comba8 a b) = words_val a * words_val b"
  unfolding bn_mul_comba8_def
proof (rule comba_value [OF mul_comba_step term_bounds(1)])
  show "cols_val (\<lambda>(i, j). uint (a ! i) * uint (b ! j)) mul_comba8_products = words_val a * words_val b"
    using words_8 [OF assms(1)] words_8 [OF assms(2)]
    by (elim exE) (simp only: eval_cols mul_comba8_products_def, simp add: algebra_simps)
qed (use assms words_product_bound [of a b 16] in \<open>simp_all add: mul_comba8_products_def\<close>)

lemma bn_mul_comba4_value:
  assumes "length a = 4" "length b = 4"
  shows "length (bn_mul_comba4 a b) = 8 \<and> words_val (bn_mul_comba4 a b) = words_val a * words_val b"
  unfolding bn_mul_comba4_def
proof (rule comba_value [OF mul_comba_step term_bounds(1)])
  show "cols_val (\<lambda>(i, j). uint (a ! i) * uint (b ! j)) mul_comba4_products = words_val a * words_val b"
    using words_4 [OF assms(1)] words_4 [OF assms(2)]
    by (elim exE) (simp only: eval_cols mul_comba4_products_def, simp add: algebra_simps)
qed (use assms words_product_bound [of a b 8] in \<open>simp_all add: mul_comba4_products_def\<close>)

lemma bn_sqr_comba8_value:
  assumes "length a = 8"
  shows "length (bn_sqr_comba8 a) = 16 \<and> words_val (bn_sqr_comba8 a) = words_val a * words_val a"
  unfolding bn_sqr_comba8_def
proof (rule comba_value [OF sqr_comba_step term_bounds(2)])
  show "cols_val (sqr_term a) sqr_comba8_products = words_val a * words_val a"
    using words_8 [OF assms(1)]
    by (elim exE) (simp only: eval_cols sqr_term_def sqr_comba8_products_def, simp add: algebra_simps)
qed (use assms words_product_bound [of a a 16] in \<open>simp_all add: sqr_comba8_products_def\<close>)

lemma bn_sqr_comba4_value:
  assumes "length a = 4"
  shows "length (bn_sqr_comba4 a) = 8 \<and> words_val (bn_sqr_comba4 a) = words_val a * words_val a"
  unfolding bn_sqr_comba4_def
proof (rule comba_value [OF sqr_comba_step term_bounds(2)])
  show "cols_val (sqr_term a) sqr_comba4_products = words_val a * words_val a"
    using words_4 [OF assms(1)]
    by (elim exE) (simp only: eval_cols sqr_term_def sqr_comba4_products_def, simp add: algebra_simps)
qed (use assms words_product_bound [of a a 8] in \<open>simp_all add: sqr_comba4_products_def\<close>)

section \<open>Selection\<close>

lemma bn_select_words_mask:
  "length a = length b \<Longrightarrow> bn_select_words (if c then CONSTTIME_TRUE_W else CONSTTIME_FALSE_W) a b = (if c then a else b)"
  by (induction a b rule: list_induct2) (simp_all add: bn_select_words_def constant_time_select_w_mask split del: if_split, simp)

section \<open>Subtraction of arrays of different lengths\<close>

fun sub_zeros_loop :: "u64 \<Rightarrow> u64 list \<Rightarrow> u64 list \<times> u64" where
  "sub_zeros_loop borrow [] = ([], borrow)"
| "sub_zeros_loop borrow (b # bs) =
     (let r = 0 - b - borrow in case sub_zeros_loop (borrow OR of_bool (r \<noteq> 0)) bs of (rs, c) \<Rightarrow> (r # rs, c))"

fun sub_borrow_loop :: "u64 \<Rightarrow> u64 list \<Rightarrow> u64 list \<times> u64" where
  "sub_borrow_loop borrow [] = ([], borrow)"
| "sub_borrow_loop borrow (a # as) =
     (let r = a - borrow in case sub_borrow_loop (of_bool (a < r)) as of (rs, c) \<Rightarrow> (r # rs, c))"

definition bn_sub_part_words :: "u64 list \<Rightarrow> u64 list \<Rightarrow> nat \<Rightarrow> int \<Rightarrow> u64 list \<times> u64" where
  "bn_sub_part_words a b cl dl =
     (case bn_sub_words (take cl a) (take cl b) of
        (r, borrow) \<Rightarrow>
          if dl = 0 then (r, borrow)
          else case (if dl < 0 then sub_zeros_loop borrow (take (nat (- dl)) (drop cl b))
                     else sub_borrow_loop borrow (take (nat dl) (drop cl a))) of
                 (r', c) \<Rightarrow> (r @ r', c))"

definition bn_abs_sub_part_words :: "u64 list \<Rightarrow> u64 list \<Rightarrow> nat \<Rightarrow> int \<Rightarrow> u64 list \<times> u64" where
  "bn_abs_sub_part_words a b cl dl =
     (case bn_sub_part_words a b cl dl of
        (tmp, borrow) \<Rightarrow>
          (case bn_sub_part_words b a cl (- dl) of
             (r, _) \<Rightarrow> (bn_select_words (0 - borrow) r tmp, 0 - borrow)))"

definition bn_abs_sub_words :: "u64 list \<Rightarrow> u64 list \<Rightarrow> u64 list" where
  "bn_abs_sub_words a b =
     (case bn_sub_words a b of
        (tmp, borrow) \<Rightarrow> (case bn_sub_words b a of (r, _) \<Rightarrow> bn_select_words (0 - borrow) r tmp))"

text \<open>A borrow is 0 or 1.\<close>

lemma borrow_cases: "uint (c :: u64) \<le> 1 \<Longrightarrow> c = 0 \<or> c = 1"
proof -
  assume "uint c \<le> 1"
  with uint_radix(2) [of c] have "uint c = 0 \<or> uint c = 1" by linarith
  then show ?thesis by (auto simp: word_uint_eq_iff)
qed

lemma sub_zeros_loop_value:
  "uint c \<le> 1 \<Longrightarrow> sub_zeros_loop c bs = (r, c') \<Longrightarrow>
   length r = length bs \<and> uint c' \<le> 1 \<and> words_val r = - words_val bs - uint c + radix ^ length bs * uint c'"
proof (induction bs arbitrary: c r c')
  case (Cons b bs)
  let ?r = "0 - b - c" and ?k = "of_bool (0 - b - c \<noteq> 0) :: u64"
  have k: "uint (c OR ?k) \<le> 1" "uint ?r = - uint b - uint c + radix * uint (c OR ?k)"
  proof -
    have s: "uint (0 - b - of_bool d) = uint (0 :: u64) - uint b - of_bool d + radix * of_bool (if 0 \<noteq> b then 0 < b else d)" for d
      by (rule sub_step)
    have pos: "0 \<noteq> b \<Longrightarrow> 0 < b" by (simp add: word_less_def word_uint_eq_iff order_neq_le_trans)
    have "uint (c OR ?k) \<le> 1 \<and> uint ?r = - uint b - uint c + radix * uint (c OR ?k)"
    proof (cases "c = 0")
      case True
      show ?thesis
      proof (cases "b = 0")
        case False
        with pos s [of False] True show ?thesis by simp
      qed (simp add: True)
    next
      case False
      with borrow_cases [OF Cons.prems(1)] have c: "c = 1" by simp
      have "1 OR of_bool x = (1 :: u64)" for x by (cases x) simp_all
      with c pos s [of True] show ?thesis by (cases "b = 0") simp_all
    qed
    then show "uint (c OR ?k) \<le> 1" "uint ?r = - uint b - uint c + radix * uint (c OR ?k)" by simp_all
  qed
  obtain r2 c2 where 2: "sub_zeros_loop (c OR ?k) bs = (r2, c2)" by fastforce
  with Cons.prems(2) have r: "r = ?r # r2" "c' = c2" by (simp_all add: Let_def)
  from Cons.IH [OF k(1) 2] have IH: "length r2 = length bs" "uint c2 \<le> 1"
    "words_val r2 = - words_val bs - uint (c OR ?k) + radix ^ length bs * uint c2" by simp_all
  with k(2) show ?case unfolding r words_val.simps IH(3) by (simp add: algebra_simps)
qed simp

lemma sub_borrow_loop_value:
  "uint c \<le> 1 \<Longrightarrow> sub_borrow_loop c as = (r, c') \<Longrightarrow>
   length r = length as \<and> uint c' \<le> 1 \<and> words_val r = words_val as - uint c + radix ^ length as * uint c'"
proof (induction as arbitrary: c r c')
  case (Cons a as)
  let ?k = "of_bool (a < a - c) :: u64"
  have k: "uint ?k \<le> 1" "uint (a - c) = uint a - uint c + radix * uint ?k"
  proof -
    have "uint (a - 1) = uint a - 1 + radix * of_bool (a = 0)" using sub_step [of a 0 True] by (cases "a = 0") auto
    moreover have "a < a - 1 \<longleftrightarrow> a = 0" using calculation uint_radix_le [of a] by (auto simp: word_less_def)
    ultimately show "uint ?k \<le> 1" "uint (a - c) = uint a - uint c + radix * uint ?k"
      using borrow_cases [OF Cons.prems(1)] by auto
  qed
  obtain r2 c2 where 2: "sub_borrow_loop ?k as = (r2, c2)" by fastforce
  with Cons.prems(2) have r: "r = (a - c) # r2" "c' = c2" by (simp_all add: Let_def)
  from Cons.IH [OF k(1) 2] have IH: "length r2 = length as" "uint c2 \<le> 1"
    "words_val r2 = words_val as - uint ?k + radix ^ length as * uint c2" by simp_all
  with k(2) show ?case unfolding r words_val.simps IH(3) by (simp add: algebra_simps)
qed simp

text \<open>Subtraction with the calling convention for lengths.\<close>

lemma join_differences:
  fixes p q :: int
  assumes "r1 = a1 - b1 + p * c1" "r2 = ah - bh - c1 + q * c2" "a = a1 + p * ah" "b = b1 + p * bh"
  shows "r1 + p * r2 = a - b + p * q * c2"
  unfolding assms by (simp add: algebra_simps)

lemma bn_sub_part_words_value:
  assumes "cl = min (length a) (length b)" "dl = int (length a) - int (length b)"
    "bn_sub_part_words a b cl dl = (r, c)"
  shows "length r = max (length a) (length b)" "uint c \<le> 1"
    "words_val r = words_val a - words_val b + radix ^ max (length a) (length b) * uint c"
proof -
  obtain r1 c1 where 1: "bn_sub_words (take cl a) (take cl b) = (r1, c1)" by fastforce
  have len: "length (take cl a) = length (take cl b)" "length (take cl a) = cl" using assms(1) by simp_all
  note v1 = bn_sub_words_value [OF len(1) 1]
  have a: "words_val a = words_val (take cl a) + radix ^ cl * words_val (drop cl a)"
    using words_val_append [of "take cl a" "drop cl a"] len(2) by simp
  have b: "words_val b = words_val (take cl b) + radix ^ cl * words_val (drop cl b)"
    using words_val_append [of "take cl b" "drop cl b"] len by simp
  consider "dl = 0" | "dl < 0" | "dl > 0" by linarith
  then have "length r = max (length a) (length b) \<and> uint c \<le> 1 \<and>
      words_val r = words_val a - words_val b + radix ^ max (length a) (length b) * uint c"
  proof cases
    case 1
    with assms \<open>bn_sub_words _ _ = _\<close> v1 len show ?thesis by (simp add: bn_sub_part_words_def)
  next
    case 2
    have cl: "cl = length a" "length a < length b" using 2 assms(1,2) by simp_all
    obtain r2 c2 where r2: "sub_zeros_loop c1 (drop cl b) = (r2, c2)" by fastforce
    have "take (nat (- dl)) (drop cl b) = drop cl b" using assms(2) cl by simp
    with r2 1 assms(3) 2 have r: "r = r1 @ r2" "c = c2" by (simp_all add: bn_sub_part_words_def)
    note v2 = sub_zeros_loop_value [OF v1(2) r2]
    have m: "max (length a) (length b) = cl + length (drop cl b)" using cl by simp
    have v1': "words_val r1 = words_val a - words_val (take cl b) + radix ^ cl * uint c1" using v1(3) len cl by simp
    have "words_val r1 + radix ^ cl * words_val r2 = words_val a - words_val b + radix ^ cl * radix ^ length (drop cl b) * uint c2"
      by (rule join_differences [OF v1' _ _ b, where ah = 0]) (simp_all add: v2)
    then show ?thesis unfolding m power_add using v1(1) v2 len by (simp add: r words_val_append)
  next
    case 3
    have cl: "cl = length b" "length b < length a" using 3 assms(1,2) by simp_all
    obtain r2 c2 where r2: "sub_borrow_loop c1 (drop cl a) = (r2, c2)" by fastforce
    have "take (nat dl) (drop cl a) = drop cl a" using assms(2) cl by simp
    with r2 1 assms(3) 3 have r: "r = r1 @ r2" "c = c2" by (simp_all add: bn_sub_part_words_def)
    note v2 = sub_borrow_loop_value [OF v1(2) r2]
    have m: "max (length a) (length b) = cl + length (drop cl a)" using cl by simp
    have v1': "words_val r1 = words_val (take cl a) - words_val b + radix ^ cl * uint c1" using v1(3) len cl by simp
    have "words_val r1 + radix ^ cl * words_val r2 = words_val a - words_val b + radix ^ cl * radix ^ length (drop cl a) * uint c2"
      by (rule join_differences [OF v1' _ a, where bh = 0]) (simp_all add: v2)
    then show ?thesis unfolding m power_add using v1(1) v2 len by (simp add: r words_val_append)
  qed
  then show "length r = max (length a) (length b)" "uint c \<le> 1"
    "words_val r = words_val a - words_val b + radix ^ max (length a) (length b) * uint c" by simp_all
qed

text \<open>The borrow tells which of two numbers of the same length is smaller.\<close>

lemma borrow_less:
  assumes "words_val r = A - B + radix ^ length r * uint (c :: u64)" "uint c \<le> 1" "0 \<le> A" "0 \<le> B"
    "A < radix ^ length r" "B < radix ^ length r"
  shows "c = of_bool (A < B)"
  using borrow_cases [OF assms(2)]
proof
  assume c: "c = 0"
  with assms(1) have "A - B = words_val r" by simp
  with words_val_nonneg [of r] have "\<not> A < B" by linarith
  with c show ?thesis by simp
next
  assume c: "c = 1"
  with assms(1) words_val_bound [of r] have "A < B" by simp
  with c show ?thesis by simp
qed

lemma words_val_bound_le: "length ws \<le> n \<Longrightarrow> words_val ws < radix ^ n"
  by (rule less_le_trans [OF words_val_bound power_increasing]) simp_all

lemma sub_mask: "(0 :: u64) - of_bool c = (if c then CONSTTIME_TRUE_W else CONSTTIME_FALSE_W)"
  by (simp add: CONSTTIME_TRUE_W_def CONSTTIME_FALSE_W_def)

lemma bn_abs_sub_part_words_value:
  assumes "cl = min (length a) (length b)" "dl = int (length a) - int (length b)"
    "bn_abs_sub_part_words a b cl dl = (r, m)"
  shows "length r = max (length a) (length b)" "words_val r = \<bar>words_val a - words_val b\<bar>"
    "m = (if words_val a < words_val b then CONSTTIME_TRUE_W else CONSTTIME_FALSE_W)"
proof -
  obtain t c where 1: "bn_sub_part_words a b cl dl = (t, c)" by fastforce
  obtain u d where 2: "bn_sub_part_words b a cl (- dl) = (u, d)" by fastforce
  note t = bn_sub_part_words_value [OF assms(1,2) 1]
  have "cl = min (length b) (length a)" "- dl = int (length b) - int (length a)" using assms(1,2) by simp_all
  note u = bn_sub_part_words_value [OF this 2]
  have len: "length t = length u" using t(1) u(1) by simp
  have bounds: "words_val a < radix ^ max (length a) (length b)" "words_val b < radix ^ max (length a) (length b)"
    by (simp_all add: words_val_bound_le)
  have c: "c = of_bool (words_val a < words_val b)"
    by (rule borrow_less [of t]) (use t bounds in simp_all)
  have d: "d = of_bool (words_val b < words_val a)"
    by (rule borrow_less [of u]) (use u bounds in \<open>simp_all add: max.commute\<close>)
  have sel: "bn_select_words (0 - c) u t = (if words_val a < words_val b then u else t)"
    unfolding c sub_mask using len by (intro bn_select_words_mask) simp
  have r: "r = (if words_val a < words_val b then u else t)" "m = 0 - c"
    using assms(3) unfolding bn_abs_sub_part_words_def 1 2 prod.case sel by simp_all
  show "m = (if words_val a < words_val b then CONSTTIME_TRUE_W else CONSTTIME_FALSE_W)"
    unfolding r(2) c by (rule sub_mask)
  show "length r = max (length a) (length b)" using r(1) t(1) u(1) by (simp add: max.commute)
  show "words_val r = \<bar>words_val a - words_val b\<bar>"
    using r(1) t(3) u(3) unfolding c d by (cases "words_val a < words_val b") simp_all
qed

lemma bn_abs_sub_words_part: "length a = length b \<Longrightarrow> bn_abs_sub_words a b = fst (bn_abs_sub_part_words a b (length a) 0)"
  by (simp add: bn_abs_sub_words_def bn_abs_sub_part_words_def bn_sub_part_words_def split: prod.split)

section \<open>Schoolbook multiplication\<close>

text \<open>\<open>k\<close> words of \<open>b\<close> are done and \<open>r\<close> holds as many words more than \<open>a\<close>; a round adds the
  next multiple of \<open>a\<close> at offset \<open>k\<close> and appends the carry.\<close>

fun mul_normal_loop :: "nat \<Rightarrow> u64 list \<Rightarrow> u64 list \<Rightarrow> u64 list \<Rightarrow> u64 list" where
  "mul_normal_loop k r a [] = r"
| "mul_normal_loop k r a (w # b) =
     (case bn_mul_add_words (drop k r) a w of (hi, c) \<Rightarrow> mul_normal_loop (k + 1) (take k r @ hi @ [c]) a b)"

definition bn_mul_normal :: "u64 list \<Rightarrow> u64 list \<Rightarrow> u64 list" where
  "bn_mul_normal a b =
     (case if length a < length b then (b, a) else (a, b) of
        (a, b) \<Rightarrow>
          (case b of
             [] \<Rightarrow> replicate (length a) 0
           | w # b' \<Rightarrow> (case bn_mul_words a w of (r, c) \<Rightarrow> mul_normal_loop 1 (r @ [c]) a b')))"

lemma mul_normal_loop_value:
  "length r = k + length a \<Longrightarrow>
   length (mul_normal_loop k r a b) = k + length a + length b \<and>
   words_val (mul_normal_loop k r a b) = words_val r + radix ^ k * (words_val a * words_val b)"
proof (induction k r a b rule: mul_normal_loop.induct)
  case (2 k r a w b)
  obtain hi c where m: "bn_mul_add_words (drop k r) a w = (hi, c)" by fastforce
  have len: "length (drop k r) = length a" using "2.prems" by simp
  note v = bn_mul_add_words_value [OF len m]
  let ?r = "take k r @ hi @ [c]"
  have "length ?r = (k + 1) + length a" using "2.prems" v(1) by simp
  note IH = "2.IH" [OF m [symmetric] this]
  have "words_val r = words_val (take k r) + radix ^ k * words_val (drop k r)"
    using words_val_append [of "take k r" "drop k r"] "2.prems" by simp
  moreover have "words_val ?r = words_val (take k r) + radix ^ k * (words_val hi + radix ^ length a * uint c)"
    using "2.prems" v(1) by (simp add: words_val_append)
  ultimately have "words_val ?r = words_val r + radix ^ k * (words_val a * uint w)"
    unfolding v(2) by (simp add: algebra_simps)
  with IH m show ?case by (simp add: algebra_simps)
qed simp

lemma bn_mul_normal_value:
  "length (bn_mul_normal a b) = length a + length b \<and> words_val (bn_mul_normal a b) = words_val a * words_val b"
proof -
  have *: "length r = length x + length y \<and> words_val r = words_val x * words_val y"
    if "r = (case y of [] \<Rightarrow> replicate (length x) 0
             | w # y' \<Rightarrow> (case bn_mul_words x w of (r, c) \<Rightarrow> mul_normal_loop 1 (r @ [c]) x y'))" for r x y
  proof (cases y)
    case (Cons w y')
    obtain h c where m: "bn_mul_words x w = (h, c)" by fastforce
    note v = bn_mul_words_value [OF m]
    have "words_val (h @ [c]) = words_val x * uint w" using v by (simp add: words_val_append)
    with mul_normal_loop_value [of "h @ [c]" 1 x y'] v(1) that m Cons show ?thesis by (simp add: algebra_simps)
  qed (simp add: that)
  show ?thesis
  proof (cases "length a < length b")
    case True
    then have "length (bn_mul_normal a b) = length b + length a \<and> words_val (bn_mul_normal a b) = words_val b * words_val a"
      by (intro *) (simp only: bn_mul_normal_def if_True prod.case)
    then show ?thesis by (simp only: mult.commute add.commute)
  next
    case False
    then show ?thesis by (intro *) (simp only: bn_mul_normal_def if_False prod.case)
  qed
qed

end
