(* ===== verification/Karatsuba.thy ===== *)
theory Karatsuba
  imports
    Limbs_Mul
begin

text \<open>
  The recursive multiplication and squaring of \<open>crypto/fipsmodule/bn/mul.c\<close>, with the laws of
  the schoolbook routine: every branch returns the product, and no assertion fails.
\<close>

section \<open>Joining the parts\<close>

fun carry_loop :: "u64 \<Rightarrow> u64 list \<Rightarrow> u64 list \<times> u64" where
  "carry_loop c [] = ([], c)"
| "carry_loop c (old # rs) =
     (let r = old + c in case carry_loop (of_bool (r < old)) rs of (rs', c') \<Rightarrow> (r # rs', c'))"

text \<open>The end of \<open>bn_mul_recursive\<close>, which is that of \<open>bn_mul_part_recursive\<close> too: \<open>r\<close> holds
  a0*b0 and a1*b1, and \<open>t23\<close> is |(a0 - a1)*(b1 - b0)| with its sign in the mask \<open>neg\<close>.  \<open>None\<close>
  is the failure of the last assertion.\<close>

definition karatsuba_join :: "u64 \<Rightarrow> nat \<Rightarrow> u64 list \<Rightarrow> u64 list \<Rightarrow> u64 list option" where
  "karatsuba_join neg n r t23 =
     (let n2 = 2 * n in
      case bn_add_words (take n2 r) (drop n2 r) of (t01, c) \<Rightarrow>
      case bn_sub_words t01 t23 of (tm, borrow) \<Rightarrow>
      case bn_add_words t01 t23 of (tp, carry) \<Rightarrow>
      (let t = bn_select_words neg tm tp;
           c = constant_time_select_w neg (c - borrow) (c + carry) in
       case bn_add_words (take n2 (drop n r)) t of (mid, d) \<Rightarrow>
       case carry_loop (c + d) (drop (n + n2) r) of (hi, c) \<Rightarrow>
         if c \<noteq> 0 then None else Some (take n r @ mid @ hi)))"

lemma carry_loop_value:
  "carry_loop c rs = (r, c') \<Longrightarrow>
   length r = length rs \<and> words_val r + radix ^ length rs * uint c' = words_val rs + uint c"
proof (induction rs arbitrary: c r c')
  case (Cons old rs)
  obtain r2 c2 where 2: "carry_loop (of_bool (old + c < old)) rs = (r2, c2)" by fastforce
  with Cons.prems have r: "r = (old + c) # r2" "c' = c2" by (simp_all add: Let_def)
  have IH: "length r2 = length rs"
    "words_val r2 + radix ^ length rs * uint c2 = words_val rs + uint (of_bool (old + c < old) :: u64)"
    using Cons.IH [OF 2] by simp_all
  have "uint (old + c) + radix * uint (of_bool (old + c < old) :: u64) = uint old + uint c"
    using word_add_carry [of c old] by (cases "c + old < old") (simp_all add: add.commute)
  moreover have "radix * (words_val r2 + radix ^ length rs * uint c2) =
      radix * (words_val rs + uint (of_bool (old + c < old) :: u64))" using IH(2) by simp
  ultimately show ?case using IH(1) by (simp add: r algebra_simps)
qed simp

lemma uint_small_sum: "uint (x :: u64) \<le> 2 \<Longrightarrow> uint (y :: u64) \<le> 1 \<Longrightarrow> uint (x + y) = uint x + uint y"
proof -
  assume "uint x \<le> 2" "uint y \<le> 1"
  then have "uint x + uint y < radix" by (simp add: radix_def)
  then show ?thesis by (simp add: uint_plus_64 mod_pos_pos_trivial)
qed

lemma uint_sub_le: "uint (y :: u64) \<le> uint x \<Longrightarrow> uint (x - y) = uint x - uint y"
  by (simp add: uint_sub_if')

text \<open>The middle term, with its carry.\<close>

lemma middle_term:
  fixes t01 t23 :: "u64 list"
  assumes len: "length t01 = n" "length t23 = n" and c: "uint c \<le> 1"
    and m: "M = words_val t01 + radix ^ n * uint c + (if ng then - words_val t23 else words_val t23)" "0 \<le> M"
    and 1: "bn_sub_words t01 t23 = (tm, borrow)" and 2: "bn_add_words t01 t23 = (tp, carry)"
    and msk: "neg = (if ng then CONSTTIME_TRUE_W else CONSTTIME_FALSE_W)"
    and t: "t = bn_select_words neg tm tp" "c' = constant_time_select_w neg (c - borrow) (c + carry)"
  shows "length t = n" "uint c' \<le> 2" "words_val t + radix ^ n * uint c' = M"
proof -
  have l: "length t01 = length t23" using len by simp
  note tm = bn_sub_words_value [OF l 1] and tp = bn_add_words_value [OF l 2]
  have t': "t = (if ng then tm else tp)" using bn_select_words_mask [of tm tp ng] tm(1) tp(1) t(1) msk by simp
  then show "length t = n" using tm(1) tp(1) len(1) by simp
  have c': "c' = (if ng then c - borrow else c + carry)" using t(2) msk by (simp only: constant_time_select_w_mask)
  have "uint c' \<le> 2 \<and> words_val t + radix ^ n * uint c' = M"
  proof (cases ng)
    case True
    have M: "M = words_val tm + radix ^ n * (uint c - uint borrow)"
      using m(1) tm(3) True len(1) by (simp add: algebra_simps)
    have "uint borrow \<le> uint c"
    proof (rule ccontr)
      assume "\<not> uint borrow \<le> uint c"
      then have "radix ^ n * (uint c - uint borrow) \<le> radix ^ n * (- 1)" by (intro mult_left_mono) simp_all
      with M words_val_bound [of tm] tm(1) len(1) m(2) show False by simp
    qed
    then have "uint c' = uint c - uint borrow" using True c' uint_sub_le by simp
    moreover from this have "uint c' \<le> 2" using c uint_radix(2) [of borrow] by linarith
    ultimately show ?thesis using M True t' by simp
  next
    case False
    have "uint c' = uint c + uint carry" using False c' c tp(2) uint_small_sum [of c carry] by simp
    with False t' m(1) tp(2,3) c len(1) show ?thesis by (simp add: algebra_simps)
  qed
  then show "uint c' \<le> 2" "words_val t + radix ^ n * uint c' = M" by simp_all
qed

lemma join_value:
  fixes p q :: int
  assumes "mid + p * d = bm + t" "hi + q * e = ct + (c + d)"
  shows "(a + q * (bm + p * ct)) + q * (t + p * c) = (a + q * (mid + p * hi)) + q * p * q * e"
proof -
  have bm: "bm = mid + p * d - t" and ct: "ct = hi + q * e - c - d" using assms by simp_all
  show ?thesis unfolding bm ct by (simp add: algebra_simps)
qed

lemma karatsuba_join_value:
  assumes len: "length r = 4 * n" "length t23 = 2 * n"
    and msk: "neg = (if ng then CONSTTIME_TRUE_W else CONSTTIME_FALSE_W)"
    and M: "M = words_val (take (2 * n) r) + words_val (drop (2 * n) r) + (if ng then - words_val t23 else words_val t23)" "0 \<le> M"
    and V: "V = words_val r + radix ^ n * M" "V < radix ^ (4 * n)"
  shows "\<exists>q. karatsuba_join neg n r t23 = Some q \<and> length q = 4 * n \<and> words_val q = V"
proof -
  let ?P = "radix ^ (2 * n)"
  obtain t01 c where 1: "bn_add_words (take (2 * n) r) (drop (2 * n) r) = (t01, c)" by fastforce
  obtain tm borrow where 2: "bn_sub_words t01 t23 = (tm, borrow)" by fastforce
  obtain tp carry where 3: "bn_add_words t01 t23 = (tp, carry)" by fastforce
  define t where "t = bn_select_words neg tm tp"
  define c' where "c' = constant_time_select_w neg (c - borrow) (c + carry)"
  obtain mid d where 4: "bn_add_words (take (2 * n) (drop n r)) t = (mid, d)" by fastforce
  obtain hi e where 5: "carry_loop (c' + d) (drop (n + 2 * n) r) = (hi, e)" by fastforce
  have "length (take (2 * n) r) = length (drop (2 * n) r)" "length (take (2 * n) r) = 2 * n" using len(1) by simp_all
  note v1 = bn_add_words_value [OF this(1) 1, unfolded this(2)]
  have "M = words_val t01 + ?P * uint c + (if ng then - words_val t23 else words_val t23)" using M(1) v1(3) by simp
  note mid = middle_term [OF v1(1) len(2) v1(2) this M(2) 2 3 msk t_def c'_def]
  have "length (take (2 * n) (drop n r)) = length t" "length (take (2 * n) (drop n r)) = 2 * n" using len(1) mid(1) by simp_all
  note v4 = bn_add_words_value [OF this(1) 4, unfolded this(2)]
  have l5: "length (drop (n + 2 * n) r) = n" using len(1) by simp
  have v5: "length hi = n" "words_val hi + radix ^ n * uint e = words_val (drop (n + 2 * n) r) + (uint c' + uint d)"
    using carry_loop_value [OF 5] uint_small_sum [OF mid(2) v4(2)] l5 by simp_all
  let ?q = "take n r @ mid @ hi"
  have r: "words_val r = words_val (take n r) + radix ^ n *
      (words_val (take (2 * n) (drop n r)) + ?P * words_val (drop (n + 2 * n) r))"
  proof -
    have "r = take n r @ take (2 * n) (drop n r) @ drop (n + 2 * n) r"
      by (simp only: append_take_drop_id drop_drop [symmetric] add.commute [of n])
    then have "words_val r = words_val (take n r @ take (2 * n) (drop n r) @ drop (n + 2 * n) r)" by simp
    then show ?thesis using len(1) by (simp add: words_val_append)
  qed
  have q: "words_val ?q = words_val (take n r) + radix ^ n * (words_val mid + ?P * words_val hi)"
    using len(1) v4(1) by (simp add: words_val_append)
  have "V = words_val ?q + radix ^ n * ?P * radix ^ n * uint e"
    unfolding V(1) mid(3) [symmetric] r q by (rule join_value [OF v4(3) v5(2)])
  moreover have "radix ^ n * ?P * radix ^ n = radix ^ (4 * n)" by (simp add: power_add [symmetric])
  ultimately have V': "V = words_val ?q + radix ^ (4 * n) * uint e" by simp
  have "uint e = 0"
  proof (rule ccontr)
    assume "uint e \<noteq> 0"
    then have "1 \<le> uint e" using uint_radix(2) [of e] by linarith
    then have "radix ^ (4 * n) * 1 \<le> radix ^ (4 * n) * uint e" by (intro mult_left_mono) simp_all
    with V' V(2) words_val_nonneg [of ?q] show False by linarith
  qed
  then have e: "e = 0" by (simp add: word_uint_eq_iff)
  have "karatsuba_join neg n r t23 = Some ?q"
    unfolding karatsuba_join_def Let_def 1 prod.case 2 3 t_def [symmetric] c'_def [symmetric] 4 5 using e by simp
  with V' e len(1) v4(1) v5(1) show ?thesis by simp
qed

lemma mask_xor:
  "(if x then CONSTTIME_TRUE_W else CONSTTIME_FALSE_W) XOR (if y then CONSTTIME_TRUE_W else CONSTTIME_FALSE_W) =
   (if x \<noteq> y then CONSTTIME_TRUE_W else CONSTTIME_FALSE_W)"
  by (cases x; cases y) (simp_all add: CONSTTIME_TRUE_W_def CONSTTIME_FALSE_W_def)

lemma middle_product:
  fixes a0 :: int
  assumes "ng = ((a0 < a1) \<noteq> (b1 < b0))"
  shows "a0 * b0 + a1 * b1 + (if ng then - (\<bar>a0 - a1\<bar> * \<bar>b1 - b0\<bar>) else \<bar>a0 - a1\<bar> * \<bar>b1 - b0\<bar>) = a0 * b1 + a1 * b0"
  using assms by (cases "a0 < a1"; cases "b1 < b0") (simp_all add: algebra_simps)

text \<open>One level of the recursion: the products of the halves give the product.\<close>

lemma karatsuba_step:
  assumes len: "length a0 = n" "length b0 = n" "length a1 = tna" "length b1 = tnb" "tna \<le> n" "tnb \<le> n"
    and t0: "bn_abs_sub_part_words a0 a1 tna (int n - int tna) = (t0, neg1)"
    and t1: "bn_abs_sub_part_words b1 b0 tnb (int tnb - int n) = (t1, neg2)"
    and t23: "length t23 = 2 * n" "words_val t23 = words_val t0 * words_val t1"
    and r01: "length r01 = 2 * n" "words_val r01 = words_val a0 * words_val b0"
    and r23: "length r23 = 2 * n" "words_val r23 = words_val a1 * words_val b1"
  shows "\<exists>q. karatsuba_join (neg1 XOR neg2) n (r01 @ r23) t23 = Some q \<and> length q = 4 * n \<and>
    words_val q = words_val (a0 @ a1) * words_val (b0 @ b1)"
proof -
  let ?A0 = "words_val a0" and ?A1 = "words_val a1" and ?B0 = "words_val b0" and ?B1 = "words_val b1"
  have "tna = min (length a0) (length a1)" "int n - int tna = int (length a0) - int (length a1)" using len by simp_all
  note v0 = bn_abs_sub_part_words_value [OF this t0]
  have "tnb = min (length b1) (length b0)" "int tnb - int n = int (length b1) - int (length b0)" using len by simp_all
  note v1 = bn_abs_sub_part_words_value [OF this t1]
  define ng where "ng = ((?A0 < ?A1) \<noteq> (?B1 < ?B0))"
  have msk: "neg1 XOR neg2 = (if ng then CONSTTIME_TRUE_W else CONSTTIME_FALSE_W)"
    unfolding v0(3) v1(3) mask_xor ng_def ..
  have M: "?A0 * ?B1 + ?A1 * ?B0 = words_val (take (2 * n) (r01 @ r23)) + words_val (drop (2 * n) (r01 @ r23)) +
      (if ng then - words_val t23 else words_val t23)"
    using middle_product [OF ng_def] r01 r23 by (cases ng) (simp_all add: t23(2) v0(2) v1(2))
  have AB: "words_val (a0 @ a1) * words_val (b0 @ b1) =
      words_val (r01 @ r23) + radix ^ n * (?A0 * ?B1 + ?A1 * ?B0)"
  proof -
    have "length r01 = n + n" using r01(1) by simp
    then have r: "words_val (r01 @ r23) = ?A0 * ?B0 + radix ^ n * radix ^ n * (?A1 * ?B1)"
      using r01(2) r23(2) by (simp add: words_val_append power_add)
    show ?thesis using len(1,2) unfolding r by (simp add: words_val_append algebra_simps)
  qed
  have "words_val (a0 @ a1) * words_val (b0 @ b1) < radix ^ (length (a0 @ a1) + length (b0 @ b1))"
    by (rule words_product_bound) (rule refl)
  also have "\<dots> \<le> radix ^ (4 * n)" using len by (intro power_increasing) simp_all
  finally have bound: "words_val (a0 @ a1) * words_val (b0 @ b1) < radix ^ (4 * n)" .
  show ?thesis
    by (rule karatsuba_join_value [OF _ t23(1) msk M _ AB bound]) (use r01 r23 in simp_all)
qed

section \<open>Multiplication by Karatsuba's method\<close>

definition is_power_of_2 :: "nat \<Rightarrow> bool" where
  "is_power_of_2 n \<longleftrightarrow> n \<noteq> 0 \<and> n AND (n - 1) = 0"

abbreviation (input) BN_MUL_RECURSIVE_SIZE_NORMAL :: nat where "BN_MUL_RECURSIVE_SIZE_NORMAL \<equiv> 16"

text \<open>\<open>None\<close> is a failed assertion.\<close>

function bn_mul_recursive :: "u64 list \<Rightarrow> u64 list \<Rightarrow> nat \<Rightarrow> int \<Rightarrow> int \<Rightarrow> u64 list option" where
  "bn_mul_recursive a b n2 dna dnb =
     (if \<not> is_power_of_2 n2 then None
      else if \<not> (-8 \<le> dna \<and> dna \<le> 0) \<or> \<not> (-8 \<le> dnb \<and> dnb \<le> 0) then None
      else if n2 = 8 \<and> dna = 0 \<and> dnb = 0 then Some (bn_mul_comba8 a b)
      else if n2 < BN_MUL_RECURSIVE_SIZE_NORMAL
      then Some (bn_mul_normal a b @ (if dna + dnb < 0 then replicate (nat (- (dna + dnb))) 0 else []))
      else
        let n = n2 div 2; tna = nat (int n + dna); tnb = nat (int n + dnb);
            a0 = take n a; a1 = drop n a; b0 = take n b; b1 = drop n b
        in case bn_abs_sub_part_words a0 a1 tna (int n - int tna) of (t0, neg1) \<Rightarrow>
           case bn_abs_sub_part_words b1 b0 tnb (int tnb - int n) of (t1, neg2) \<Rightarrow>
           (if n = 4 \<and> dna = 0 \<and> dnb = 0
            then karatsuba_join (neg1 XOR neg2) n (bn_mul_comba4 a0 b0 @ bn_mul_comba4 a1 b1) (bn_mul_comba4 t0 t1)
            else if n = 8 \<and> dna = 0 \<and> dnb = 0
            then karatsuba_join (neg1 XOR neg2) n (bn_mul_comba8 a0 b0 @ bn_mul_comba8 a1 b1) (bn_mul_comba8 t0 t1)
            else
              case bn_mul_recursive t0 t1 n 0 0 of
                None \<Rightarrow> None
              | Some t23 \<Rightarrow>
                  (case bn_mul_recursive a0 b0 n 0 0 of
                     None \<Rightarrow> None
                   | Some r01 \<Rightarrow>
                       (case bn_mul_recursive a1 b1 n dna dnb of
                          None \<Rightarrow> None
                        | Some r23 \<Rightarrow> karatsuba_join (neg1 XOR neg2) n (r01 @ r23) t23))))"
  by pat_completeness auto
termination
  by (relation "measure (\<lambda>(a, b, n2, dna, dnb). n2)") auto

declare bn_mul_recursive.simps [simp del]

lemma is_power_of_2_exp: "is_power_of_2 (2 ^ k)"
proof -
  have "(2 ^ k :: nat) AND (2 ^ k - 1) = take_bit k (2 ^ k)" by (simp add: take_bit_eq_mask mask_eq_exp_minus_1)
  then show ?thesis by (simp add: is_power_of_2_def)
qed

lemma bn_mul_recursive_value:
  assumes "n2 = 2 ^ k" "- 8 \<le> dna" "dna \<le> 0" "- 8 \<le> dnb" "dnb \<le> 0"
    "int (length a) = int n2 + dna" "int (length b) = int n2 + dnb"
  shows "\<exists>r. bn_mul_recursive a b n2 dna dnb = Some r \<and> length r = 2 * n2 \<and> words_val r = words_val a * words_val b"
  using assms
proof (induction k arbitrary: a b n2 dna dnb)
  case 0
  have "bn_mul_recursive a b n2 dna dnb =
      Some (bn_mul_normal a b @ (if dna + dnb < 0 then replicate (nat (- (dna + dnb))) 0 else []))"
    using 0 is_power_of_2_exp [of 0] by (simp add: bn_mul_recursive.simps [of a b])
  with bn_mul_normal_value [of a b] 0 show ?case by (auto simp: words_val_append)
next
  case (Suc k)
  have pow: "is_power_of_2 n2" unfolding Suc.prems(1) by (rule is_power_of_2_exp)
  consider (comba) "n2 = 8" "dna = 0" "dnb = 0" | (normal) "\<not> (n2 = 8 \<and> dna = 0 \<and> dnb = 0)" "n2 < 16" | (split) "16 \<le> n2"
    by linarith
  then show ?case
  proof cases
    case comba
    then show ?thesis using pow Suc.prems bn_mul_comba8_value [of a b] by (simp add: bn_mul_recursive.simps [of a b])
  next
    case normal
    have "bn_mul_recursive a b n2 dna dnb =
        Some (bn_mul_normal a b @ (if dna + dnb < 0 then replicate (nat (- (dna + dnb))) 0 else []))"
    proof -
      have c: "\<not> \<not> is_power_of_2 n2" "\<not> (\<not> (-8 \<le> dna \<and> dna \<le> 0) \<or> \<not> (-8 \<le> dnb \<and> dnb \<le> 0))"
        "\<not> (n2 = 8 \<and> dna = 0 \<and> dnb = 0)" using pow Suc.prems(2-5) normal(1) by simp_all
      show ?thesis
        unfolding bn_mul_recursive.simps [of a b n2 dna dnb] if_not_P [OF c(1)] if_not_P [OF c(2)] if_not_P [OF c(3)]
          if_P [OF normal(2)] ..
    qed
    moreover have "length a + length b + nat (- (dna + dnb)) = 2 * n2" using Suc.prems by linarith
    ultimately show ?thesis using bn_mul_normal_value [of a b] Suc.prems by (auto simp: words_val_append)
  next
    case split
    define n where "n = n2 div 2"
    define tna where "tna = nat (int n + dna)"
    define tnb where "tnb = nat (int n + dnb)"
    have n: "n2 = 2 * n" "n = 2 ^ k" "8 \<le> n" using Suc.prems(1) split by (simp_all add: n_def)
    have n2: "int n2 = 2 * int n" using n(1) by simp
    have "length a = n + tna" "length b = n + tnb" "tna \<le> n" "tnb \<le> n"
      unfolding tna_def tnb_def using Suc.prems(2-7) n2 n(3) by linarith+
    then have len: "length (take n a) = n" "length (take n b) = n" "length (drop n a) = tna" "length (drop n b) = tnb"
      "tna \<le> n" "tnb \<le> n" by simp_all
    have len1: "int (length (drop n a)) = int n + dna" "int (length (drop n b)) = int n + dnb"
      unfolding len tna_def tnb_def using Suc.prems(2-5) n(3) by linarith+
    obtain t0 neg1 where t0: "bn_abs_sub_part_words (take n a) (drop n a) tna (int n - int tna) = (t0, neg1)" by fastforce
    obtain t1 neg2 where t1: "bn_abs_sub_part_words (drop n b) (take n b) tnb (int tnb - int n) = (t1, neg2)" by fastforce
    have "tna = min (length (take n a)) (length (drop n a))" "int n - int tna = int (length (take n a)) - int (length (drop n a))"
      using len by simp_all
    from bn_abs_sub_part_words_value(1) [OF this t0] len have lt0: "length t0 = n" by simp
    have "tnb = min (length (drop n b)) (length (take n b))" "int tnb - int n = int (length (drop n b)) - int (length (take n b))"
      using len by simp_all
    from bn_abs_sub_part_words_value(1) [OF this t1] len have lt1: "length t1 = n" by simp
    note step = karatsuba_step [OF len t0 t1, unfolded append_take_drop_id]
    have cond: "\<not> (n2 = 8 \<and> dna = 0 \<and> dnb = 0)" "\<not> n2 < BN_MUL_RECURSIVE_SIZE_NORMAL"
      "\<not> (n = 4 \<and> dna = 0 \<and> dnb = 0)"
      "\<not> (\<not> (-8 \<le> dna \<and> dna \<le> 0) \<or> \<not> (-8 \<le> dnb \<and> dnb \<le> 0))" "\<not> \<not> is_power_of_2 n2"
      using split n(3) Suc.prems(2-5) pow by simp_all
    note unfold = bn_mul_recursive.simps [of a b n2 dna dnb, unfolded Let_def, folded n_def, folded tna_def tnb_def,
      unfolded t0 t1 prod.case if_not_P [OF cond(5)] if_not_P [OF cond(4)] if_not_P [OF cond(1)] if_not_P [OF cond(2)]
        if_not_P [OF cond(3)]]
    show ?thesis
    proof (cases "n = 8 \<and> dna = 0 \<and> dnb = 0")
      case True
      then have l8: "length (take n a) = 8" "length (take n b) = 8" "length (drop n a) = 8" "length (drop n b) = 8"
        "length t0 = 8" "length t1 = 8" using len lt0 lt1 by (simp_all add: tna_def tnb_def)
      have "\<exists>q. karatsuba_join (neg1 XOR neg2) n
          (bn_mul_comba8 (take n a) (take n b) @ bn_mul_comba8 (drop n a) (drop n b)) (bn_mul_comba8 t0 t1) = Some q \<and>
          length q = 4 * n \<and> words_val q = words_val a * words_val b"
        using bn_mul_comba8_value [OF l8(1,2)] bn_mul_comba8_value [OF l8(3,4)] bn_mul_comba8_value [OF l8(5,6)] True
        by (intro step) simp_all
      then show ?thesis unfolding unfold using True n(1) by simp
    next
      case False
      obtain t23 where t23: "bn_mul_recursive t0 t1 n 0 0 = Some t23" "length t23 = 2 * n" "words_val t23 = words_val t0 * words_val t1"
        using Suc.IH [OF n(2), of 0 0 t0 t1] lt0 lt1 by auto
      obtain r01 where r01: "bn_mul_recursive (take n a) (take n b) n 0 0 = Some r01" "length r01 = 2 * n"
        "words_val r01 = words_val (take n a) * words_val (take n b)"
        using Suc.IH [OF n(2), of 0 0 "take n a" "take n b"] len(1,2) by auto
      obtain r23 where r23: "bn_mul_recursive (drop n a) (drop n b) n dna dnb = Some r23" "length r23 = 2 * n"
        "words_val r23 = words_val (drop n a) * words_val (drop n b)"
        using Suc.IH [OF n(2) Suc.prems(2-5) len1] by auto
      show ?thesis
        unfolding unfold if_not_P [OF False] t23(1) r01(1) r23(1) option.case
        using step [OF t23(2,3) r01(2,3) r23(2,3)] n(1) by simp
    qed
  qed
qed

section \<open>Lengths that are not a power of two\<close>

text \<open>The loop that halves \<open>i\<close>, at the value where it breaks.\<close>

function part_split :: "nat \<Rightarrow> nat \<Rightarrow> nat \<Rightarrow> nat" where
  "part_split i tna tnb =
     (let i = i div 2
      in if i < tna \<or> i < tnb then i
         else if i = tna \<or> i = tnb then i
         else part_split i tna tnb)"
  by pat_completeness auto
termination
  by (relation "measure (\<lambda>(i, tna, tnb). i)") auto

declare part_split.simps [simp del]

lemma part_split_halves:
  "i = 2 ^ k \<Longrightarrow> tna < i \<Longrightarrow> tnb < i \<Longrightarrow> 1 \<le> max tna tnb \<Longrightarrow>
   \<exists>j < k. part_split i tna tnb = 2 ^ j \<and> 2 ^ j \<le> max tna tnb \<and> max tna tnb < 2 * 2 ^ j"
proof (induction k arbitrary: i)
  case (Suc k)
  have i: "i div 2 = 2 ^ k" using Suc.prems(1) by simp
  show ?case
  proof (cases "2 ^ k \<le> max tna tnb")
    case True
    then have "part_split i tna tnb = 2 ^ k" by (subst part_split.simps) (auto simp: i Let_def max_def split: if_splits)
    with True Suc.prems show ?thesis by (intro exI [of _ k]) auto
  next
    case False
    then have "part_split i tna tnb = part_split (2 ^ k) tna tnb" by (subst part_split.simps) (auto simp: i Let_def)
    moreover have "tna < 2 ^ k" "tnb < 2 ^ k" using False by linarith+
    from Suc.IH [OF refl this Suc.prems(4)] obtain j where
      "j < k" "part_split (2 ^ k) tna tnb = 2 ^ j \<and> 2 ^ j \<le> max tna tnb \<and> max tna tnb < 2 * 2 ^ j" by blast
    ultimately show ?thesis by (intro exI [of _ j]) auto
  qed
qed simp

lemma part_split_less: "0 < i \<Longrightarrow> part_split i tna tnb < i"
proof (induction i tna tnb rule: part_split.induct)
  case (1 i tna tnb)
  show ?case
  proof (cases "i div 2 < tna \<or> i div 2 < tnb \<or> i div 2 = tna \<or> i div 2 = tnb")
    case True
    with "1.prems" show ?thesis by (subst part_split.simps) (auto simp: Let_def)
  next
    case False
    then have "part_split i tna tnb = part_split (i div 2) tna tnb" by (subst part_split.simps) (auto simp: Let_def)
    moreover have "0 < i div 2" using False by auto
    ultimately show ?thesis using "1.IH" [OF refl] False "1.prems" by fastforce
  qed
qed

text \<open>The rest of the upper half, which was set to 0 before the product was stored into it.\<close>

definition zero_fill :: "nat \<Rightarrow> u64 list \<Rightarrow> u64 list" where
  "zero_fill n r = r @ replicate (n - length r) 0"

text \<open>The call \<open>OPENSSL_memset (r + n2 + tna + tnb, 0, n2 - tna - tnb)\<close> of the first branch counts bytes
  and not words: only the words it clears in full are part of the result.  No caller reaches that
  branch.\<close>

function bn_mul_part_recursive :: "u64 list \<Rightarrow> u64 list \<Rightarrow> nat \<Rightarrow> nat \<Rightarrow> nat \<Rightarrow> u64 list option" where
  "bn_mul_part_recursive a b n tna tnb =
     (if \<not> is_power_of_2 n \<or> \<not> tna < n \<or> \<not> tnb < n \<or> \<not> (-1 \<le> int tna - int tnb \<and> int tna - int tnb \<le> 1) then None
      else
        let n2 = n * 2
        in if n < 8 then Some (bn_mul_normal a b @ replicate ((n2 - tna - tnb) div 8) 0)
           else
             let a0 = take n a; a1 = drop n a; b0 = take n b; b1 = drop n b
             in case bn_abs_sub_part_words a0 a1 tna (int n - int tna) of (t0, neg1) \<Rightarrow>
                case bn_abs_sub_part_words b1 b0 tnb (int tnb - int n) of (t1, neg2) \<Rightarrow>
                if n = 8
                then karatsuba_join (neg1 XOR neg2) n
                       (bn_mul_comba8 a0 b0 @ bn_mul_normal a1 b1 @ replicate (n2 - tna - tnb) 0) (bn_mul_comba8 t0 t1)
                else
                  case bn_mul_recursive t0 t1 n 0 0 of
                    None \<Rightarrow> None
                  | Some t23 \<Rightarrow>
                      (case bn_mul_recursive a0 b0 n 0 0 of
                         None \<Rightarrow> None
                       | Some r01 \<Rightarrow>
                           (case (if tna < BN_MUL_RECURSIVE_SIZE_NORMAL \<and> tnb < BN_MUL_RECURSIVE_SIZE_NORMAL
                                  then Some (bn_mul_normal a1 b1)
                                  else let i = part_split n tna tnb
                                       in if i < tna \<or> i < tnb
                                          then bn_mul_part_recursive a1 b1 i (tna - i) (tnb - i)
                                          else bn_mul_recursive a1 b1 i (int tna - int i) (int tnb - int i)) of
                              None \<Rightarrow> None
                            | Some r23 \<Rightarrow> karatsuba_join (neg1 XOR neg2) n (r01 @ zero_fill n2 r23) t23)))"
  by pat_completeness auto
termination
  by (relation "measure (\<lambda>(a, b, n, tna, tnb). n)") (auto simp: part_split_less)

declare bn_mul_part_recursive.simps [simp del]

lemma zero_fill_value: "length r \<le> n \<Longrightarrow> length (zero_fill n r) = n \<and> words_val (zero_fill n r) = words_val r"
  by (simp add: zero_fill_def words_val_append)

lemma bn_mul_part_recursive_value:
  assumes "n = 2 ^ k" "8 \<le> n" "tna < n" "tnb < n" "- 1 \<le> int tna - int tnb" "int tna - int tnb \<le> 1"
    "length a = n + tna" "length b = n + tnb"
  shows "\<exists>r. bn_mul_part_recursive a b n tna tnb = Some r \<and> length r = 4 * n \<and> words_val r = words_val a * words_val b"
  using assms
proof (induction n arbitrary: a b k tna tnb rule: less_induct)
  case (less n)
  have pow: "is_power_of_2 n" unfolding less.prems(1) by (rule is_power_of_2_exp)
  have len: "length (take n a) = n" "length (take n b) = n" "length (drop n a) = tna" "length (drop n b) = tnb"
    "tna \<le> n" "tnb \<le> n" using less.prems by simp_all
  obtain t0 neg1 where t0: "bn_abs_sub_part_words (take n a) (drop n a) tna (int n - int tna) = (t0, neg1)" by fastforce
  obtain t1 neg2 where t1: "bn_abs_sub_part_words (drop n b) (take n b) tnb (int tnb - int n) = (t1, neg2)" by fastforce
  have "tna = min (length (take n a)) (length (drop n a))" "int n - int tna = int (length (take n a)) - int (length (drop n a))"
    using len by simp_all
  from bn_abs_sub_part_words_value(1) [OF this t0] len have lt0: "length t0 = n" by simp
  have "tnb = min (length (drop n b)) (length (take n b))" "int tnb - int n = int (length (drop n b)) - int (length (take n b))"
    using len by simp_all
  from bn_abs_sub_part_words_value(1) [OF this t1] len have lt1: "length t1 = n" by simp
  note step = karatsuba_step [OF len t0 t1, unfolded append_take_drop_id]
  have cond: "\<not> (\<not> is_power_of_2 n \<or> \<not> tna < n \<or> \<not> tnb < n \<or> \<not> (-1 \<le> int tna - int tnb \<and> int tna - int tnb \<le> 1))"
    "\<not> n < 8" using pow less.prems(2-6) by simp_all
  note unfold = bn_mul_part_recursive.simps [of a b n tna tnb, unfolded Let_def t0 t1 prod.case if_not_P [OF cond(1)]
    if_not_P [OF cond(2)]]
  show ?case
  proof (cases "n = 8")
    case True
    have l8: "length (take n a) = 8" "length (take n b) = 8" "length t0 = 8" "length t1 = 8" using len lt0 lt1 True by simp_all
    have r23: "length (bn_mul_normal (drop n a) (drop n b) @ replicate (n * 2 - tna - tnb) 0) = 2 * n"
      "words_val (bn_mul_normal (drop n a) (drop n b) @ replicate (n * 2 - tna - tnb) 0) =
       words_val (drop n a) * words_val (drop n b)"
      using bn_mul_normal_value [of "drop n a" "drop n b"] len by (simp_all add: words_val_append)
    have "\<exists>q. karatsuba_join (neg1 XOR neg2) n
        (bn_mul_comba8 (take n a) (take n b) @ bn_mul_normal (drop n a) (drop n b) @ replicate (n * 2 - tna - tnb) 0)
        (bn_mul_comba8 t0 t1) = Some q \<and> length q = 4 * n \<and> words_val q = words_val a * words_val b"
      using bn_mul_comba8_value [OF l8(1,2)] bn_mul_comba8_value [OF l8(3,4)] True
      by (intro step r23) simp_all
    then show ?thesis unfolding unfold if_P [OF True] .
  next
    case False
    obtain t23 where t23: "bn_mul_recursive t0 t1 n 0 0 = Some t23" "length t23 = 2 * n" "words_val t23 = words_val t0 * words_val t1"
      using bn_mul_recursive_value [OF less.prems(1), of 0 0 t0 t1] lt0 lt1 by auto
    obtain r01 where r01: "bn_mul_recursive (take n a) (take n b) n 0 0 = Some r01" "length r01 = 2 * n"
      "words_val r01 = words_val (take n a) * words_val (take n b)"
      using bn_mul_recursive_value [OF less.prems(1), of 0 0 "take n a" "take n b"] len(1,2) by auto
    let ?i = "part_split n tna tnb"
    let ?r23 = "if tna < BN_MUL_RECURSIVE_SIZE_NORMAL \<and> tnb < BN_MUL_RECURSIVE_SIZE_NORMAL
      then Some (bn_mul_normal (drop n a) (drop n b))
      else if ?i < tna \<or> ?i < tnb then bn_mul_part_recursive (drop n a) (drop n b) ?i (tna - ?i) (tnb - ?i)
      else bn_mul_recursive (drop n a) (drop n b) ?i (int tna - int ?i) (int tnb - int ?i)"
    have "\<exists>r. ?r23 = Some r \<and> length r \<le> n * 2 \<and> words_val r = words_val (drop n a) * words_val (drop n b)"
    proof (cases "tna < BN_MUL_RECURSIVE_SIZE_NORMAL \<and> tnb < BN_MUL_RECURSIVE_SIZE_NORMAL")
      case True
      then show ?thesis using bn_mul_normal_value [of "drop n a" "drop n b"] len by (simp only: if_True) simp
    next
      case big: False
      then have m: "16 \<le> max tna tnb" by linarith
      then have "1 \<le> max tna tnb" by linarith
      from part_split_halves [OF less.prems(1,3,4) this] obtain j where
        j: "j < k" "?i = 2 ^ j" "?i \<le> max tna tnb" "max tna tnb < 2 * ?i" by auto
      have i8: "8 \<le> ?i" using m j(4) by linarith
      have "2 * 2 ^ j \<le> (2 :: nat) ^ k" using j(1) power_increasing [of "Suc j" k "2 :: nat"] by simp
      then have in2: "2 * ?i \<le> n" unfolding j(2) less.prems(1) [symmetric] .
      show ?thesis
      proof (cases "?i < tna \<or> ?i < tnb")
        case True
        have "?i \<le> tna" "?i \<le> tnb" using True less.prems(5,6) by linarith+
        then have "\<exists>r. bn_mul_part_recursive (drop n a) (drop n b) ?i (tna - ?i) (tnb - ?i) = Some r \<and>
            length r = 4 * ?i \<and> words_val r = words_val (drop n a) * words_val (drop n b)"
          using less.prems(3-6) len j(3,4) in2 i8 by (intro less.IH [OF _ j(2) i8]) linarith+
        then show ?thesis using big True in2 by (auto simp only: if_False if_True)
      next
        case small: False
        have "\<exists>r. bn_mul_recursive (drop n a) (drop n b) ?i (int tna - int ?i) (int tnb - int ?i) = Some r \<and>
            length r = 2 * ?i \<and> words_val r = words_val (drop n a) * words_val (drop n b)"
          using small j(3) less.prems(5,6) len(3,4) by (intro bn_mul_recursive_value [OF j(2)]) linarith+
        then show ?thesis using big small in2 by (auto simp only: if_False)
      qed
    qed
    then obtain r23 where r23: "?r23 = Some r23" "length r23 \<le> n * 2"
      "words_val r23 = words_val (drop n a) * words_val (drop n b)" by (elim exE conjE) (rule that)
    have z: "length (zero_fill (n * 2) r23) = 2 * n"
      "words_val (zero_fill (n * 2) r23) = words_val (drop n a) * words_val (drop n b)"
      using zero_fill_value [OF r23(2)] r23(3) by simp_all
    show ?thesis
      unfolding unfold if_not_P [OF False] t23(1) r01(1) option.case r23(1)
      by (rule step [OF t23(2,3) r01(2,3) z])
  qed
qed

section \<open>Squares\<close>

text \<open>The rows of a square above the diagonal, from the second on: \<open>k\<close> is the offset at which the
  multiple of the words after \<open>x\<close> by \<open>x\<close> is added.\<close>

fun sqr_rows :: "nat \<Rightarrow> u64 list \<Rightarrow> u64 list \<Rightarrow> u64 list" where
  "sqr_rows k r (x # y # ap) =
     (case bn_mul_add_words (drop k r) (y # ap) x of (hi, c) \<Rightarrow> sqr_rows (k + 2) (take k r @ hi @ [c]) (y # ap))"
| "sqr_rows k r _ = r"

definition bn_sqr_normal :: "u64 list \<Rightarrow> u64 list" where
  "bn_sqr_normal a =
     (let n = length a
      in if n = 0 then []
         else
           let r = (case a of
                      x # y # ap \<Rightarrow>
                        (case bn_mul_words (y # ap) x of (hi, c) \<Rightarrow> sqr_rows 3 ([0] @ hi @ [c]) (y # ap) @ [0])
                    | _ \<Rightarrow> [0, 0]);
               r = fst (bn_add_words r r)
           in fst (bn_add_words r (bn_sqr_words a)))"

text \<open>The products of different words, each pair once, and the squares of the words.\<close>

fun above_diagonal :: "u64 list \<Rightarrow> int" where
  "above_diagonal [] = 0"
| "above_diagonal (x # ap) = radix * (uint x * words_val ap) + radix * radix * above_diagonal ap"

fun diagonal :: "u64 list \<Rightarrow> int" where
  "diagonal [] = 0"
| "diagonal (x # ap) = uint x * uint x + radix * radix * diagonal ap"

lemma square_parts: "words_val a * words_val a = diagonal a + 2 * above_diagonal a"
proof (induction a)
  case (Cons x a)
  have "words_val (x # a) * words_val (x # a) =
      uint x * uint x + 2 * (radix * (uint x * words_val a)) + radix * radix * (words_val a * words_val a)"
    by (simp add: algebra_simps)
  then show ?case unfolding Cons by (simp add: algebra_simps)
qed simp

lemma above_diagonal_nonneg: "0 \<le> above_diagonal a" "0 \<le> diagonal a"
  by (induction a) simp_all

lemma bn_sqr_words_diagonal: "words_val (bn_sqr_words a) = diagonal a"
proof (induction a)
  case (Cons x a)
  obtain r0 r1 where r: "sqr_word x = (r0, r1)" by fastforce
  with Cons sqr_word_value [OF r] show ?case by (simp add: algebra_simps)
qed simp

lemma sqr_rows_value:
  "length r = k + length ap - 1 \<Longrightarrow> 1 \<le> k \<Longrightarrow> ap \<noteq> [] \<Longrightarrow>
   length (sqr_rows k r ap) = k + 2 * length ap - 2 \<and>
   radix * words_val (sqr_rows k r ap) = radix * words_val r + radix ^ k * above_diagonal ap"
proof (induction k r ap rule: sqr_rows.induct)
  case (1 k r x y ap)
  obtain hi c where m: "bn_mul_add_words (drop k r) (y # ap) x = (hi, c)" by fastforce
  have len: "length (drop k r) = length (y # ap)" using "1.prems" by simp
  note v = bn_mul_add_words_value [OF len m]
  let ?r = "take k r @ hi @ [c]"
  have k: "length (take k r) = k" using "1.prems" by simp
  have lr: "length ?r = k + 2 + length (y # ap) - 1" using v(1) k by simp
  have IH: "length (sqr_rows (k + 2) ?r (y # ap)) = k + 2 + 2 * length (y # ap) - 2"
    "radix * words_val (sqr_rows (k + 2) ?r (y # ap)) = radix * words_val ?r + radix ^ (k + 2) * above_diagonal (y # ap)"
    using "1.IH" [OF m [symmetric] lr] by simp_all
  have r: "words_val r = words_val (take k r) + radix ^ k * words_val (drop k r)"
    using words_val_append [of "take k r" "drop k r"] k by simp
  have "words_val ?r = words_val (take k r) + radix ^ k * (words_val hi + radix ^ length (y # ap) * uint c)"
    using v(1) k by (simp add: words_val_append)
  then have r': "words_val ?r = words_val r + radix ^ k * (words_val (y # ap) * uint x)"
    unfolding v(2) r by (simp only: ring_distribs add.assoc)
  have "radix * words_val (sqr_rows k r (x # y # ap)) = radix * words_val r + radix ^ k * above_diagonal (x # y # ap)"
    using IH(2) unfolding r' by (simp add: m algebra_simps)
  with IH(1) m show ?case by simp
qed simp_all

lemma bn_add_words_exact:
  assumes "length a = length b" "words_val a + words_val b < radix ^ length a"
  shows "length (fst (bn_add_words a b)) = length a \<and> words_val (fst (bn_add_words a b)) = words_val a + words_val b"
proof -
  obtain r c where m: "bn_add_words a b = (r, c)" by fastforce
  note v = bn_add_words_value [OF assms(1) m]
  have "c = 0"
  proof (rule ccontr)
    assume "c \<noteq> 0"
    with borrow_cases [OF v(2)] have "uint c = 1" by auto
    with v(3) assms(2) words_val_nonneg [of r] show False by simp
  qed
  with v m show ?thesis by simp
qed

lemma bn_sqr_normal_value:
  "length (bn_sqr_normal a) = 2 * length a \<and> words_val (bn_sqr_normal a) = words_val a * words_val a"
proof (cases "a = []")
  case False
  define r where "r = (case a of
      x # y # ap \<Rightarrow> (case bn_mul_words (y # ap) x of (hi, c) \<Rightarrow> sqr_rows 3 ([0] @ hi @ [c]) (y # ap) @ [0])
    | _ \<Rightarrow> [0, 0])"
  have r: "length r = 2 * length a \<and> words_val r = above_diagonal a"
  proof (cases "\<exists>x y ap. a = x # y # ap")
    case True
    then obtain x y ap where a: "a = x # y # ap" by blast
    obtain hi c where m: "bn_mul_words (y # ap) x = (hi, c)" by fastforce
    note v = bn_mul_words_value [OF m]
    let ?r = "[0] @ hi @ [c]"
    have "length ?r = 3 + length (y # ap) - 1" using v(1) by simp
    from sqr_rows_value [OF this] have s: "length (sqr_rows 3 ?r (y # ap)) = 3 + 2 * length (y # ap) - 2"
      "radix * words_val (sqr_rows 3 ?r (y # ap)) = radix * words_val ?r + radix ^ 3 * above_diagonal (y # ap)" by simp_all
    have "words_val ?r = radix * (words_val (y # ap) * uint x)" using v by (simp add: words_val_append)
    then have "radix * words_val (sqr_rows 3 ?r (y # ap)) = radix * above_diagonal a"
      using s(2) a by (simp add: power3_eq_cube algebra_simps)
    then have "words_val (sqr_rows 3 ?r (y # ap)) = above_diagonal a" by simp
    with s(1) m a show ?thesis by (simp add: r_def words_val_append)
  next
    case False
    then obtain x where "a = [x]" using \<open>a \<noteq> []\<close> by (cases a; cases "tl a") auto
    then show ?thesis by (simp add: r_def)
  qed
  have sq: "words_val a * words_val a < radix ^ (2 * length a)"
    using words_product_bound [of a a "2 * length a"] by simp
  have dbl: "length (fst (bn_add_words r r)) = 2 * length a \<and> words_val (fst (bn_add_words r r)) = 2 * above_diagonal a"
  proof -
    have "words_val r + words_val r < radix ^ length r"
      using r sq square_parts [of a] above_diagonal_nonneg [of a] by simp
    with bn_add_words_exact [of r r] r show ?thesis by simp
  qed
  have "length (fst (bn_add_words (fst (bn_add_words r r)) (bn_sqr_words a))) = length (fst (bn_add_words r r)) \<and>
      words_val (fst (bn_add_words (fst (bn_add_words r r)) (bn_sqr_words a))) =
      words_val (fst (bn_add_words r r)) + words_val (bn_sqr_words a)"
    using dbl sq square_parts [of a] by (intro bn_add_words_exact) (simp_all add: bn_sqr_words_value bn_sqr_words_diagonal)
  moreover have "bn_sqr_normal a = fst (bn_add_words (fst (bn_add_words r r)) (bn_sqr_words a))"
    using False by (simp add: bn_sqr_normal_def Let_def r_def)
  ultimately show ?thesis using dbl square_parts [of a] by (simp add: bn_sqr_words_diagonal)
qed (simp add: bn_sqr_normal_def)

definition sqr_join :: "nat \<Rightarrow> u64 list \<Rightarrow> u64 list \<Rightarrow> u64 list option" where
  "sqr_join n r t23 =
     (let n2 = 2 * n in
      case bn_add_words (take n2 r) (drop n2 r) of (t01, c) \<Rightarrow>
      case bn_sub_words t01 t23 of (t, borrow) \<Rightarrow>
      case bn_add_words (take n2 (drop n r)) t of (mid, d) \<Rightarrow>
      case carry_loop (c - borrow + d) (drop (n + n2) r) of (hi, c) \<Rightarrow>
        if c \<noteq> 0 then None else Some (take n r @ mid @ hi))"

function bn_sqr_recursive :: "u64 list \<Rightarrow> nat \<Rightarrow> u64 list option" where
  "bn_sqr_recursive a n2 =
     (if \<not> is_power_of_2 n2 then None
      else if n2 = 4 then Some (bn_sqr_comba4 a)
      else if n2 = 8 then Some (bn_sqr_comba8 a)
      else if n2 < 16 then Some (bn_sqr_normal a)
      else
        let n = n2 div 2; a0 = take n a; a1 = drop n a
        in case bn_sqr_recursive (bn_abs_sub_words a0 a1) n of
             None \<Rightarrow> None
           | Some t23 \<Rightarrow>
               (case bn_sqr_recursive a0 n of
                  None \<Rightarrow> None
                | Some r01 \<Rightarrow>
                    (case bn_sqr_recursive a1 n of
                       None \<Rightarrow> None
                     | Some r23 \<Rightarrow> sqr_join n (r01 @ r23) t23)))"
  by pat_completeness auto
termination
  by (relation "measure (\<lambda>(a, n2). n2)") auto

declare bn_sqr_recursive.simps [simp del]

lemma sqr_join_karatsuba:
  assumes "length r = 4 * n" "length t23 = 2 * n"
  shows "sqr_join n r t23 = karatsuba_join CONSTTIME_TRUE_W n r t23"
proof -
  obtain t01 c where 1: "bn_add_words (take (2 * n) r) (drop (2 * n) r) = (t01, c)" by fastforce
  obtain tm borrow where 2: "bn_sub_words t01 t23 = (tm, borrow)" by fastforce
  obtain tp carry where 3: "bn_add_words t01 t23 = (tp, carry)" by fastforce
  have l: "length t01 = length t23" using bn_add_words_value(1) [OF _ 1] assms by simp
  have "length tm = length tp" using bn_sub_words_value(1) [OF l 2] bn_add_words_value(1) [OF l 3] by simp
  from bn_select_words_mask [OF this, of True] constant_time_select_w_mask [of True]
  show ?thesis by (simp add: sqr_join_def karatsuba_join_def Let_def 1 2 3)
qed

lemma bn_sqr_recursive_value:
  "n2 = 2 ^ k \<Longrightarrow> length a = n2 \<Longrightarrow>
   \<exists>r. bn_sqr_recursive a n2 = Some r \<and> length r = 2 * n2 \<and> words_val r = words_val a * words_val a"
proof (induction k arbitrary: a n2)
  case 0
  then show ?case
    using is_power_of_2_exp [of 0] bn_sqr_normal_value [of a] by (simp add: bn_sqr_recursive.simps [of a])
next
  case (Suc k)
  have pow: "is_power_of_2 n2" unfolding Suc.prems(1) by (rule is_power_of_2_exp)
  show ?case
  proof (cases "n2 < 16")
    case True
    then show ?thesis
      using pow Suc.prems(2) bn_sqr_comba4_value [of a] bn_sqr_comba8_value [of a] bn_sqr_normal_value [of a]
      by (simp add: bn_sqr_recursive.simps [of a n2])
  next
    case False
    define n where "n = n2 div 2"
    have n: "n = 2 ^ k" "n2 = 2 * n" using Suc.prems(1) by (simp_all add: n_def)
    have len: "length (take n a) = n" "length (drop n a) = n" using Suc.prems(2) n by simp_all
    obtain t0 m where t0: "bn_abs_sub_part_words (take n a) (drop n a) n 0 = (t0, m)" by fastforce
    have "n = min (length (take n a)) (length (drop n a))" "0 = int (length (take n a)) - int (length (drop n a))"
      using len by simp_all
    note v0 = bn_abs_sub_part_words_value [OF this t0]
    have t: "bn_abs_sub_words (take n a) (drop n a) = t0" using bn_abs_sub_words_part [of "take n a" "drop n a"] len t0 by simp
    have lt: "length t0 = n" using v0(1) len by simp
    obtain t23 where t23: "bn_sqr_recursive t0 n = Some t23" "length t23 = 2 * n" "words_val t23 = words_val t0 * words_val t0"
      using Suc.IH [OF n(1) lt] by blast
    obtain r01 where r01: "bn_sqr_recursive (take n a) n = Some r01" "length r01 = 2 * n"
      "words_val r01 = words_val (take n a) * words_val (take n a)" using Suc.IH [OF n(1) len(1)] by blast
    obtain r23 where r23: "bn_sqr_recursive (drop n a) n = Some r23" "length r23 = 2 * n"
      "words_val r23 = words_val (drop n a) * words_val (drop n a)" using Suc.IH [OF n(1) len(2)] by blast
    have eq: "bn_sqr_recursive a n2 = karatsuba_join CONSTTIME_TRUE_W n (r01 @ r23) t23"
      using False pow t23 r01 r23
      by (subst bn_sqr_recursive.simps) (simp add: n_def [symmetric] t Let_def sqr_join_karatsuba)
    let ?A = "words_val (take n a)" and ?B = "words_val (drop n a)"
    have A: "words_val a = ?A + radix ^ n * ?B" using words_val_append [of "take n a" "drop n a"] len(1) by simp
    have M: "2 * (?A * ?B) = words_val (take (2 * n) (r01 @ r23)) + words_val (drop (2 * n) (r01 @ r23)) +
        (if True then - words_val t23 else words_val t23)"
    proof -
      have "words_val t23 = (?A - ?B) * (?A - ?B)" using t23(3) v0(2) by (simp add: abs_mult_self_eq)
      then show ?thesis using r01 r23 by (simp add: algebra_simps)
    qed
    have V: "words_val a * words_val a = words_val (r01 @ r23) + radix ^ n * (2 * (?A * ?B))"
    proof -
      have "length r01 = n + n" using r01(2) by simp
      then have r: "words_val (r01 @ r23) = ?A * ?A + radix ^ n * radix ^ n * (?B * ?B)"
        using r01(3) r23(3) by (simp add: words_val_append power_add)
      show ?thesis unfolding r A by (simp add: algebra_simps)
    qed
    have bound: "words_val a * words_val a < radix ^ (4 * n)"
      using words_product_bound [of a a "4 * n"] Suc.prems(2) n(2) by simp
    have "\<exists>q. karatsuba_join CONSTTIME_TRUE_W n (r01 @ r23) t23 = Some q \<and> length q = 4 * n \<and>
        words_val q = words_val a * words_val a"
      by (rule karatsuba_join_value [OF _ t23(2) _ M _ V bound]) (use r01 r23 in simp_all)
    then show ?thesis unfolding eq using n(2) by simp
  qed
qed

end
