(* ===== verification/BigNum.thy ===== *)
theory BigNum
  imports
    Karatsuba
    Mem
begin

text \<open>
  The arbitrary-precision integers of \<open>crypto/fipsmodule/bn\<close>: storage and comparison (\<open>bn.c\<close>,
  \<open>cmp.c\<close>), addition and subtraction (\<open>add.c\<close>), on the word arrays of the theories below.

  \<open>bn_words\<close> is \<open>d[0]\<close> to \<open>d[width - 1]\<close>; no function reads what \<open>d\<close> holds beyond \<open>width\<close>,
  so it is not modelled.  An output argument \<open>r\<close> is passed in for the room, sign and flags it
  has; where \<open>r\<close> is one of the inputs, the same value is passed for both.  \<open>bn_static\<close> is the
  flag \<open>BN_FLG_STATIC_DATA\<close>.
\<close>

section \<open>Storage (bn.c)\<close>

record bignum =
  bn_words :: "u64 list"
  bn_dmax :: nat
  bn_neg :: bool
  bn_static :: bool

abbreviation bn_width :: "bignum \<Rightarrow> nat" where "bn_width bn \<equiv> length (bn_words bn)"

definition BN_init :: bignum where
  "BN_init = \<lparr>bn_words = [], bn_dmax = 0, bn_neg = False, bn_static = False\<rparr>"

abbreviation (input) sizeof_BIGNUM :: nat where "sizeof_BIGNUM \<equiv> 24"

definition BN_new :: "allocator \<Rightarrow> bignum option" where
  "BN_new al = (if \<not> OPENSSL_malloc al sizeof_BIGNUM then None else Some BN_init)"

definition bn_wexpand :: "allocator \<Rightarrow> nat \<Rightarrow> bignum \<Rightarrow> bool \<times> bignum" where
  "bn_wexpand al words bn =
     (if words \<le> bn_dmax bn then (True, bn)
      else if words > 0x7fffffff div (4 * 64) then (False, bn)
      else if bn_static bn then (False, bn)
      else if \<not> OPENSSL_malloc al (8 * words) then (False, bn)
      else (True, bn\<lparr>bn_dmax := words\<rparr>))"

definition bn_expand :: "allocator \<Rightarrow> nat \<Rightarrow> bignum \<Rightarrow> bool \<times> bignum" where
  "bn_expand al bits bn =
     (if (bits + 64 - 1) mod SIZE_MODULUS < bits then (False, bn)
      else bn_wexpand al ((bits + 64 - 1) mod SIZE_MODULUS div 64) bn)"

definition BN_copy :: "allocator \<Rightarrow> bignum \<Rightarrow> bignum \<Rightarrow> bool \<times> bignum" where
  "BN_copy al dest src =
     (case bn_wexpand al (bn_width src) dest of
        (False, dest) \<Rightarrow> (False, dest)
      | (True, dest) \<Rightarrow> (True, dest\<lparr>bn_words := bn_words src, bn_neg := bn_neg src\<rparr>))"

definition BN_dup :: "allocator \<Rightarrow> bignum option \<Rightarrow> bignum option" where
  "BN_dup al src =
     (case src of
        None \<Rightarrow> None
      | Some src \<Rightarrow>
          (case BN_new al of
             None \<Rightarrow> None
           | Some copy \<Rightarrow> (case BN_copy al copy src of (True, copy) \<Rightarrow> Some copy | (False, _) \<Rightarrow> None)))"

definition BN_clear :: "bignum \<Rightarrow> bignum" where
  "BN_clear bn = bn\<lparr>bn_words := [], bn_neg := False\<rparr>"

definition BN_value_one :: bignum where
  "BN_value_one = \<lparr>bn_words = [1], bn_dmax = 1, bn_neg = False, bn_static = True\<rparr>"

definition BN_zero :: "bignum \<Rightarrow> bignum" where
  "BN_zero bn = bn\<lparr>bn_words := [], bn_neg := False\<rparr>"

definition BN_set_word :: "allocator \<Rightarrow> u64 \<Rightarrow> bignum \<Rightarrow> bool \<times> bignum" where
  "BN_set_word al v bn =
     (if v = 0 then (True, BN_zero bn)
      else case bn_wexpand al 1 bn of
             (False, bn) \<Rightarrow> (False, bn)
           | (True, bn) \<Rightarrow> (True, bn\<lparr>bn_neg := False, bn_words := [v]\<rparr>))"

definition BN_one :: "allocator \<Rightarrow> bignum \<Rightarrow> bool \<times> bignum" where
  "BN_one al bn = BN_set_word al 1 bn"

definition BN_set_u64 :: "allocator \<Rightarrow> u64 \<Rightarrow> bignum \<Rightarrow> bool \<times> bignum" where
  "BN_set_u64 al v bn = BN_set_word al v bn"

definition bn_set_words :: "allocator \<Rightarrow> u64 list \<Rightarrow> bignum \<Rightarrow> bool \<times> bignum" where
  "bn_set_words al words bn =
     (case bn_wexpand al (length words) bn of
        (False, bn) \<Rightarrow> (False, bn)
      | (True, bn) \<Rightarrow> (True, bn\<lparr>bn_words := words, bn_neg := False\<rparr>))"

definition bn_set_static_words :: "u64 list \<Rightarrow> bignum \<Rightarrow> bignum" where
  "bn_set_static_words words bn =
     bn\<lparr>bn_words := words, bn_dmax := length words, bn_neg := False, bn_static := True\<rparr>"

text \<open>The loops that collect words in \<open>mask\<close>.\<close>

definition or_words :: "u64 \<Rightarrow> u64 list \<Rightarrow> u64" where
  "or_words msk ws = fold (\<lambda>w m. m OR w) ws msk"

definition bn_fits_in_words :: "bignum \<Rightarrow> nat \<Rightarrow> bool" where
  "bn_fits_in_words bn num \<longleftrightarrow> or_words 0 (drop num (bn_words bn)) = 0"

text \<open>The \<open>num\<close> words at \<open>out\<close>, or \<open>None\<close>.\<close>

definition bn_copy_words :: "nat \<Rightarrow> bignum \<Rightarrow> u64 list option" where
  "bn_copy_words num bn =
     (if bn_neg bn then None
      else if bn_width bn > num \<and> \<not> bn_fits_in_words bn num then None
      else let width = (if bn_width bn > num then num else bn_width bn)
           in Some (take width (bn_words bn) @ replicate (num - width) 0))"

definition BN_is_zero :: "bignum \<Rightarrow> bool" where
  "BN_is_zero bn \<longleftrightarrow> bn_fits_in_words bn 0"

definition BN_is_negative :: "bignum \<Rightarrow> bool" where
  "BN_is_negative bn \<longleftrightarrow> bn_neg bn"

definition BN_set_negative :: "bignum \<Rightarrow> bool \<Rightarrow> bignum" where
  "BN_set_negative bn sign = (if sign \<and> \<not> BN_is_zero bn then bn\<lparr>bn_neg := True\<rparr> else bn\<lparr>bn_neg := False\<rparr>)"

definition bn_resize_words :: "allocator \<Rightarrow> nat \<Rightarrow> bignum \<Rightarrow> bool \<times> bignum" where
  "bn_resize_words al words bn =
     (if bn_width bn \<le> words
      then case bn_wexpand al words bn of
             (False, bn) \<Rightarrow> (False, bn)
           | (True, bn) \<Rightarrow> (True, bn\<lparr>bn_words := bn_words bn @ replicate (words - bn_width bn) 0\<rparr>)
      else if \<not> bn_fits_in_words bn words then (False, bn)
      else (True, bn\<lparr>bn_words := take words (bn_words bn)\<rparr>))"

text \<open>The loop from the most significant word down.\<close>

definition minimal_words :: "u64 list \<Rightarrow> u64 list" where
  "minimal_words ws = rev (dropWhile (\<lambda>w. w = 0) (rev ws))"

definition bn_minimal_width :: "bignum \<Rightarrow> nat" where
  "bn_minimal_width bn = length (minimal_words (bn_words bn))"

definition bn_set_minimal_width :: "bignum \<Rightarrow> bignum" where
  "bn_set_minimal_width bn =
     (let bn = bn\<lparr>bn_words := take (bn_minimal_width bn) (bn_words bn)\<rparr>
      in if bn_width bn = 0 then bn\<lparr>bn_neg := False\<rparr> else bn)"

text \<open>One of the equal blocks of \<open>BN_num_bits_word\<close>, and the last.\<close>

definition num_bits_step :: "nat \<Rightarrow> u64 \<times> u64 \<Rightarrow> u64 \<times> u64" where
  "num_bits_step k = (\<lambda>(bits, l).
     (let x = drop_bit k l; msk = 0 - x; msk = 0 - drop_bit (64 - 1) msk
      in (bits + (of_nat k AND msk), l XOR ((x XOR l) AND msk))))"

definition BN_num_bits_word :: "u64 \<Rightarrow> nat" where
  "BN_num_bits_word l = unat (fst (fold num_bits_step [32, 16, 8, 4, 2, 1] (of_bool (l \<noteq> 0), l)))"

definition BN_num_bits :: "bignum \<Rightarrow> nat" where
  "BN_num_bits bn =
     (let width = bn_minimal_width bn
      in if width = 0 then 0 else (width - 1) * 64 + BN_num_bits_word (bn_words bn ! (width - 1)))"

definition BN_num_bytes :: "bignum \<Rightarrow> nat" where
  "BN_num_bytes bn = (BN_num_bits bn + 7) div 8"

section \<open>Comparison (cmp.c)\<close>

text \<open>\<open>ret\<close> is an \<open>int\<close>.\<close>

fun cmp_words_loop :: "32 word \<Rightarrow> u64 list \<Rightarrow> u64 list \<Rightarrow> 32 word" where
  "cmp_words_loop ret (a # as) (b # bs) =
     (let eq = constant_time_eq_w a b; lt = constant_time_lt_w a b
      in cmp_words_loop (constant_time_select_int eq ret (constant_time_select_int lt (-1) 1)) as bs)"
| "cmp_words_loop ret _ _ = ret"

definition bn_cmp_words_consttime :: "u64 list \<Rightarrow> u64 list \<Rightarrow> 32 word" where
  "bn_cmp_words_consttime a b =
     (let ret = cmp_words_loop 0 a b
      in if length a < length b
         then constant_time_select_int (constant_time_is_zero_w (or_words 0 (drop (length a) b))) ret (-1)
         else if length b < length a
         then constant_time_select_int (constant_time_is_zero_w (or_words 0 (drop (length b) a))) ret 1
         else ret)"

definition BN_ucmp :: "bignum \<Rightarrow> bignum \<Rightarrow> int" where
  "BN_ucmp a b = sint (bn_cmp_words_consttime (bn_words a) (bn_words b))"

definition BN_cmp :: "bignum option \<Rightarrow> bignum option \<Rightarrow> int" where
  "BN_cmp a b =
     (case (a, b) of
        (None, None) \<Rightarrow> 0
      | (Some _, None) \<Rightarrow> -1
      | (None, Some _) \<Rightarrow> 1
      | (Some a, Some b) \<Rightarrow>
          if bn_neg a \<noteq> bn_neg b then (if bn_neg a then -1 else 1)
          else let ret = BN_ucmp a b in if bn_neg a then - ret else ret)"

definition bn_less_than_words :: "u64 list \<Rightarrow> u64 list \<Rightarrow> bool" where
  "bn_less_than_words a b \<longleftrightarrow> sint (bn_cmp_words_consttime a b) < 0"

definition BN_abs_is_word :: "bignum \<Rightarrow> u64 \<Rightarrow> bool" where
  "BN_abs_is_word bn w =
     (case bn_words bn of
        [] \<Rightarrow> w = 0
      | d # ds \<Rightarrow> or_words (d XOR w) ds = 0)"

definition BN_cmp_word :: "bignum \<Rightarrow> u64 \<Rightarrow> int" where
  "BN_cmp_word a b =
     BN_cmp (Some a) (Some \<lparr>bn_words = (if b > 0 then [b] else []), bn_dmax = 1, bn_neg = False, bn_static = True\<rparr>)"

definition BN_is_one :: "bignum \<Rightarrow> bool" where
  "BN_is_one bn \<longleftrightarrow> \<not> bn_neg bn \<and> BN_abs_is_word bn 1"

definition BN_is_word :: "bignum \<Rightarrow> u64 \<Rightarrow> bool" where
  "BN_is_word bn w \<longleftrightarrow> BN_abs_is_word bn w \<and> (w = 0 \<or> \<not> bn_neg bn)"

definition BN_is_odd :: "bignum \<Rightarrow> bool" where
  "BN_is_odd bn \<longleftrightarrow> bn_width bn > 0 \<and> bn_words bn ! 0 AND 1 = 1"

definition BN_is_pow2 :: "bignum \<Rightarrow> bool" where
  "BN_is_pow2 bn =
     (let width = bn_minimal_width bn
      in if width = 0 \<or> bn_neg bn then False
         else if \<exists>w \<in> set (take (width - 1) (bn_words bn)). w \<noteq> 0 then False
         else 0 = bn_words bn ! (width - 1) AND (bn_words bn ! (width - 1) - 1))"

definition BN_equal_consttime :: "bignum \<Rightarrow> bignum \<Rightarrow> bool" where
  "BN_equal_consttime a b =
     (let msk = or_words 0 (drop (bn_width a) (bn_words b));
          msk = or_words msk (drop (bn_width b) (bn_words a));
          msk = or_words msk (map2 (XOR) (bn_words a) (bn_words b));
          msk = msk OR (of_bool (bn_neg a) XOR of_bool (bn_neg b))
      in msk = 0)"

section \<open>Addition and subtraction (add.c)\<close>

definition bn_uadd_consttime :: "allocator \<Rightarrow> bignum \<Rightarrow> bignum \<Rightarrow> bignum \<Rightarrow> bool \<times> bignum" where
  "bn_uadd_consttime al r a b =
     (case (if bn_width a < bn_width b then (b, a) else (a, b)) of
        (a, b) \<Rightarrow>
          (case bn_wexpand al (bn_width a + 1) r of
             (False, r) \<Rightarrow> (False, r)
           | (True, r) \<Rightarrow>
               (case bn_add_words (take (bn_width b) (bn_words a)) (bn_words b) of
                  (lo, carry) \<Rightarrow>
                    (case carry_loop carry (drop (bn_width b) (bn_words a)) of
                       (hi, carry) \<Rightarrow> (True, r\<lparr>bn_words := lo @ hi @ [carry]\<rparr>)))))"

definition BN_uadd :: "allocator \<Rightarrow> bignum \<Rightarrow> bignum \<Rightarrow> bignum \<Rightarrow> bool \<times> bignum" where
  "BN_uadd al r a b =
     (case bn_uadd_consttime al r a b of
        (False, r) \<Rightarrow> (False, r)
      | (True, r) \<Rightarrow> (True, bn_set_minimal_width r))"

text \<open>On a borrow out of the top the words of \<open>r\<close> have been overwritten and its width not set.\<close>

definition bn_usub_consttime :: "allocator \<Rightarrow> bignum \<Rightarrow> bignum \<Rightarrow> bignum \<Rightarrow> bool \<times> bignum" where
  "bn_usub_consttime al r a b =
     (if bn_width b > bn_width a \<and> \<not> bn_fits_in_words b (bn_width a) then (False, r)
      else let b_width = (if bn_width b > bn_width a then bn_width a else bn_width b)
           in case bn_wexpand al (bn_width a) r of
                (False, r) \<Rightarrow> (False, r)
              | (True, r) \<Rightarrow>
                  (case bn_sub_words (take b_width (bn_words a)) (take b_width (bn_words b)) of
                     (lo, borrow) \<Rightarrow>
                       (case sub_borrow_loop borrow (drop b_width (bn_words a)) of
                          (hi, borrow) \<Rightarrow>
                            if borrow \<noteq> 0
                            then (False, r\<lparr>bn_words := take (bn_width r) (lo @ hi @ drop (bn_width a) (bn_words r))\<rparr>)
                            else (True, r\<lparr>bn_words := lo @ hi, bn_neg := False\<rparr>))))"

definition BN_usub :: "allocator \<Rightarrow> bignum \<Rightarrow> bignum \<Rightarrow> bignum \<Rightarrow> bool \<times> bignum" where
  "BN_usub al r a b =
     (case bn_usub_consttime al r a b of
        (False, r) \<Rightarrow> (False, r)
      | (True, r) \<Rightarrow> (True, bn_set_minimal_width r))"

text \<open>The difference of absolute values, which \<open>BN_add\<close> and \<open>BN_sub\<close> both end with.\<close>

definition signed_usub :: "allocator \<Rightarrow> bignum \<Rightarrow> bignum \<Rightarrow> bignum \<Rightarrow> bool \<times> bignum" where
  "signed_usub al r a b =
     (if BN_ucmp a b < 0
      then case BN_usub al r b a of
             (False, r) \<Rightarrow> (False, r)
           | (True, r) \<Rightarrow> (True, r\<lparr>bn_neg := True\<rparr>)
      else case BN_usub al r a b of
             (False, r) \<Rightarrow> (False, r)
           | (True, r) \<Rightarrow> (True, r\<lparr>bn_neg := False\<rparr>))"

definition BN_add :: "allocator \<Rightarrow> bignum \<Rightarrow> bignum \<Rightarrow> bignum \<Rightarrow> bool \<times> bignum" where
  "BN_add al r a b =
     (let a_neg = bn_neg a
      in if a_neg \<noteq> bn_neg b
         then case (if a_neg then (b, a) else (a, b)) of (a, b) \<Rightarrow> signed_usub al r a b
         else case BN_uadd al r a b of (ret, r) \<Rightarrow> (ret, r\<lparr>bn_neg := a_neg\<rparr>))"

definition BN_sub :: "allocator \<Rightarrow> bignum \<Rightarrow> bignum \<Rightarrow> bignum \<Rightarrow> bool \<times> bignum" where
  "BN_sub al r a b =
     (let add = (bn_neg a \<noteq> bn_neg b); neg = bn_neg a
      in if add
         then case BN_uadd al r a b of
                (False, r) \<Rightarrow> (False, r)
              | (True, r) \<Rightarrow> (True, r\<lparr>bn_neg := neg\<rparr>)
         else case (if neg then (b, a) else (a, b)) of (a, b) \<Rightarrow> signed_usub al r a b)"

fun add_word_loop :: "u64 \<Rightarrow> u64 list \<Rightarrow> u64 list \<times> u64" where
  "add_word_loop w [] = ([], w)"
| "add_word_loop w (d # ds) =
     (if w = 0 then (d # ds, 0)
      else let l = d + w
           in case add_word_loop (if w > l then 1 else 0) ds of (rs, w') \<Rightarrow> (l # rs, w'))"

text \<open>The endless loop of \<open>BN_sub_word\<close>, with the position where it breaks; \<open>None\<close> is an access
  beyond the words.\<close>

fun sub_word_loop :: "nat \<Rightarrow> u64 \<Rightarrow> u64 list \<Rightarrow> (u64 list \<times> nat) option" where
  "sub_word_loop i w [] = None"
| "sub_word_loop i w (d # ds) =
     (if d \<ge> w then Some ((d - w) # ds, i)
      else map_option (\<lambda>(rs, j). ((d - w) # rs, j)) (sub_word_loop (i + 1) 1 ds))"

text \<open>The two functions call each other for a negative number, with the sign cleared.\<close>

function BN_add_word :: "allocator \<Rightarrow> bignum \<Rightarrow> u64 \<Rightarrow> (bool \<times> bignum) option"
  and BN_sub_word :: "allocator \<Rightarrow> bignum \<Rightarrow> u64 \<Rightarrow> (bool \<times> bignum) option" where
  "BN_add_word al a w =
     (if w = 0 then Some (True, a)
      else if BN_is_zero a then Some (BN_set_word al w a)
      else if bn_neg a
      then (case BN_sub_word al (a\<lparr>bn_neg := False\<rparr>) w of
              None \<Rightarrow> None
            | Some (i, a) \<Rightarrow> Some (i, if \<not> BN_is_zero a then a\<lparr>bn_neg := \<not> bn_neg a\<rparr> else a))
      else case add_word_loop w (bn_words a) of
             (ds, w) \<Rightarrow>
               let a = a\<lparr>bn_words := ds\<rparr>
               in if w \<noteq> 0
                  then case bn_wexpand al (bn_width a + 1) a of
                         (False, a) \<Rightarrow> Some (False, a)
                       | (True, a) \<Rightarrow> Some (True, a\<lparr>bn_words := bn_words a @ [w]\<rparr>)
                  else Some (True, a))"
| "BN_sub_word al a w =
     (if w = 0 then Some (True, a)
      else if BN_is_zero a
      then (case BN_set_word al w a of
              (False, a) \<Rightarrow> Some (False, a)
            | (True, a) \<Rightarrow> Some (True, BN_set_negative a True))
      else if bn_neg a
      then (case BN_add_word al (a\<lparr>bn_neg := False\<rparr>) w of
              None \<Rightarrow> None
            | Some (i, a) \<Rightarrow> Some (i, a\<lparr>bn_neg := True\<rparr>))
      else if bn_minimal_width a = 1 \<and> bn_words a ! 0 < w
      then Some (True, a\<lparr>bn_words := (bn_words a)[0 := w - bn_words a ! 0], bn_neg := True\<rparr>)
      else case sub_word_loop 0 w (bn_words a) of
             None \<Rightarrow> None
           | Some (ds, i) \<Rightarrow>
               Some (True, a\<lparr>bn_words := (if ds ! i = 0 \<and> i = length ds - 1 then take (length ds - 1) ds else ds)\<rparr>))"
  by pat_completeness auto
termination
  by (relation "measure (\<lambda>x. case x of Inl (al, a, w) \<Rightarrow> of_bool (bn_neg a) | Inr (al, a, w) \<Rightarrow> of_bool (bn_neg a))") auto

declare BN_add_word.simps [simp del] BN_sub_word.simps [simp del]

end
