(* ===== verification/BigNum_Spec.thy ===== *)
theory BigNum_Spec
  imports
    BigNum
begin

text \<open>
  What the operations of \<open>BigNum\<close> compute, as integers.
\<close>

section \<open>Values\<close>

definition bn_abs :: "bignum \<Rightarrow> int" where
  "bn_abs bn = words_val (bn_words bn)"

definition bn_val :: "bignum \<Rightarrow> int" where
  "bn_val bn = (if bn_neg bn then - bn_abs bn else bn_abs bn)"

text \<open>Words within the array, and no negative zero.\<close>

definition bn_ok :: "bignum \<Rightarrow> bool" where
  "bn_ok bn \<longleftrightarrow> bn_width bn \<le> bn_dmax bn \<and> (bn_neg bn \<longrightarrow> bn_abs bn \<noteq> 0)"

text \<open>No leading zero words.\<close>

definition bn_minimal :: "bignum \<Rightarrow> bool" where
  "bn_minimal bn \<longleftrightarrow> bn_words bn = [] \<or> last (bn_words bn) \<noteq> 0"

text \<open>Whether \<open>words\<close> words fit the array or a new one.\<close>

definition bn_room :: "allocator \<Rightarrow> nat \<Rightarrow> bignum \<Rightarrow> bool" where
  "bn_room al words bn \<longleftrightarrow>
     words \<le> bn_dmax bn \<or> words \<le> 0x7fffffff div (4 * 64) \<and> \<not> bn_static bn \<and> OPENSSL_malloc al (8 * words)"

lemma bn_wexpand_room:
  "bn_wexpand al n bn = (bn_room al n bn, if bn_room al n bn then bn\<lparr>bn_dmax := max n (bn_dmax bn)\<rparr> else bn)"
  by (auto simp: bn_wexpand_def bn_room_def max_def)

lemma bn_room_mono: "bn_room al n bn \<Longrightarrow> m \<le> n \<Longrightarrow> (\<And>k. k \<le> n \<Longrightarrow> OPENSSL_malloc al (8 * k)) \<Longrightarrow> bn_room al m bn"
  by (auto simp: bn_room_def)

lemma bn_abs_nonneg [simp]: "0 \<le> bn_abs bn"
  by (simp add: bn_abs_def)

lemma bn_abs_bound: "bn_abs bn < radix ^ bn_width bn"
  by (simp add: bn_abs_def words_val_bound)

lemma bn_val_nonneg:
  assumes "bn_ok a" "0 \<le> bn_val a"
  shows "\<not> bn_neg a" "bn_abs a = bn_val a"
proof -
  show "\<not> bn_neg a" using assms bn_abs_nonneg [of a] unfolding bn_ok_def bn_val_def by (auto simp del: bn_abs_nonneg)
  then show "bn_abs a = bn_val a" by (simp add: bn_val_def)
qed

lemma or_words_0: "or_words m ws = 0 \<longleftrightarrow> m = 0 \<and> (\<forall>w \<in> set ws. w = 0)"
proof (induction ws arbitrary: m)
  case (Cons w ws)
  have "m OR w = 0 \<longleftrightarrow> m = 0 \<and> w = 0" by (rule or_eq_0_iff)
  with Cons [of "m OR w"] show ?case by (auto simp: or_words_def)
qed (simp add: or_words_def)

lemma bn_fits_in_words_iff: "bn_fits_in_words bn n \<longleftrightarrow> words_val (drop n (bn_words bn)) = 0"
  by (simp add: bn_fits_in_words_def or_words_0 words_val_eq_0_iff)

lemma words_val_take_drop: "words_val ws = words_val (take n ws) + radix ^ min n (length ws) * words_val (drop n ws)"
  using words_val_append [of "take n ws" "drop n ws"] by (simp add: min.commute)

lemma bn_fits_in_words_less: "bn_fits_in_words bn n \<longleftrightarrow> bn_abs bn < radix ^ n"
proof (cases "n \<le> bn_width bn")
  case True
  then have t: "words_val (take n (bn_words bn)) < radix ^ n" using words_val_bound [of "take n (bn_words bn)"] by simp
  have e: "bn_abs bn = words_val (take n (bn_words bn)) + radix ^ n * words_val (drop n (bn_words bn))"
    using words_val_take_drop [of "bn_words bn" n] True by (simp add: bn_abs_def min_def)
  show ?thesis unfolding bn_fits_in_words_iff
  proof
    assume "bn_abs bn < radix ^ n"
    then have "radix ^ n * words_val (drop n (bn_words bn)) < radix ^ n * 1"
      using e words_val_nonneg [of "take n (bn_words bn)"] by linarith
    then have "words_val (drop n (bn_words bn)) < 1" using mult_less_cancel_left_pos [of "radix ^ n"] by simp
    then show "words_val (drop n (bn_words bn)) = 0" using words_val_nonneg [of "drop n (bn_words bn)"] by linarith
  qed (use e t in simp)
next
  case False
  then have "bn_abs bn < radix ^ n" unfolding bn_abs_def by (intro words_val_bound_le) simp
  with False show ?thesis by (simp add: bn_fits_in_words_iff)
qed

lemma BN_is_zero_iff: "BN_is_zero bn \<longleftrightarrow> bn_abs bn = 0"
proof -
  have "bn_abs bn < 1 \<longleftrightarrow> bn_abs bn = 0" using bn_abs_nonneg [of bn] by linarith
  with bn_fits_in_words_less [of bn 0] show ?thesis by (simp add: BN_is_zero_def)
qed

subsection \<open>Minimal width\<close>

lemma minimal_words_split: "\<exists>k. ws = minimal_words ws @ replicate k 0"
proof -
  have "rev ws = takeWhile (\<lambda>w. w = 0) (rev ws) @ dropWhile (\<lambda>w. w = 0) (rev ws)" by simp
  then have "ws = minimal_words ws @ rev (takeWhile (\<lambda>w. w = 0) (rev ws))"
    unfolding minimal_words_def by (metis rev_append rev_rev_ident)
  moreover have "rev (takeWhile (\<lambda>w. w = 0) (rev ws)) = replicate (length (takeWhile (\<lambda>w. w = 0) (rev ws))) 0"
    by (rule replicate_eqI) (auto dest: set_takeWhileD)
  ultimately show ?thesis by metis
qed

lemma words_val_minimal [simp]: "words_val (minimal_words ws) = words_val ws"
  using minimal_words_split [of ws] by (metis add.right_neutral mult_zero_right words_val_append words_val_replicate_0)

lemma last_minimal: "minimal_words ws \<noteq> [] \<Longrightarrow> last (minimal_words ws) \<noteq> 0"
  unfolding minimal_words_def last_rev rev_is_Nil_conv by (rule hd_dropWhile)

lemma take_minimal_words: "take (length (minimal_words ws)) ws = minimal_words ws"
  using minimal_words_split [of ws] by (metis append_eq_conv_conj)

lemma minimal_words_length: "length (minimal_words ws) \<le> length ws"
  using minimal_words_split [of ws] by (metis length_append le_add1)

lemma minimal_words_Nil: "minimal_words ws = [] \<longleftrightarrow> words_val ws = 0"
proof
  assume "minimal_words ws = []"
  then show "words_val ws = 0" by (metis words_val_minimal words_val.simps(1))
next
  assume "words_val ws = 0"
  then have "\<forall>w \<in> set (minimal_words ws). w = 0" by (simp add: words_val_eq_0_iff [symmetric])
  then show "minimal_words ws = []" using last_minimal last_in_set by blast
qed

lemma bn_set_minimal_width_eq:
  "bn_set_minimal_width bn = bn\<lparr>bn_words := minimal_words (bn_words bn), bn_neg := (bn_neg bn \<and> bn_abs bn \<noteq> 0)\<rparr>"
  using minimal_words_Nil [of "bn_words bn"]
  by (simp add: bn_set_minimal_width_def bn_minimal_width_def take_minimal_words Let_def bn_abs_def)

lemma bn_set_minimal_width_ok:
  assumes "bn_width bn \<le> bn_dmax bn"
  shows "bn_ok (bn_set_minimal_width bn)" "bn_minimal (bn_set_minimal_width bn)"
    "bn_abs (bn_set_minimal_width bn) = bn_abs bn" "bn_val (bn_set_minimal_width bn) = bn_val bn"
  using assms minimal_words_length [of "bn_words bn"] last_minimal [of "bn_words bn"]
  by (auto simp: bn_set_minimal_width_eq bn_ok_def bn_minimal_def bn_abs_def bn_val_def)

section \<open>Comparison\<close>

lemma words_val_Cons_sgn:
  "sgn (words_val (a # as) - words_val (b # bs)) =
   (if words_val as = words_val bs then sgn (uint a - uint b) else sgn (words_val as - words_val bs))"
proof -
  let ?d = "words_val as - words_val bs" and ?e = "uint a - uint b"
  have e: "?e < radix" "- radix < ?e" using uint_radix [of a] uint_radix [of b] by linarith+
  have r: "words_val (a # as) - words_val (b # bs) = ?e + radix * ?d" by (simp add: algebra_simps)
  consider "?d = 0" | "1 \<le> ?d" | "?d \<le> -1" by linarith
  then show ?thesis
  proof cases
    case 2
    then have "radix * 1 \<le> radix * ?d" by (intro mult_left_mono) simp_all
    then have "0 < ?e + radix * ?d" using e by linarith
    with 2 show ?thesis unfolding r by (simp add: sgn_if)
  next
    case 3
    then have "radix * ?d \<le> radix * (-1)" by (intro mult_left_mono) simp_all
    then have "?e + radix * ?d < 0" using e by linarith
    with 3 show ?thesis unfolding r by (simp add: sgn_if)
  qed simp
qed

lemma cmp_words_loop_value:
  "sint (cmp_words_loop ret as bs) =
   (let n = min (length as) (length bs); d = words_val (take n as) - words_val (take n bs)
    in if d = 0 then sint ret else sgn d)"
proof (induction ret as bs rule: cmp_words_loop.induct)
  case (1 ret a as b bs)
  let ?n = "min (length as) (length bs)"
  let ?ret = "constant_time_select_int (constant_time_eq_w a b) ret (constant_time_select_int (constant_time_lt_w a b) (-1) 1)"
  have ret: "?ret = (if a = b then ret else if a < b then -1 else 1)"
    by (simp add: constant_time_eq_w_mask constant_time_lt_w_mask constant_time_select_int_mask)
  have sret: "a \<noteq> b \<Longrightarrow> sint ?ret = sgn (uint a - uint b)"
    unfolding ret by (auto simp: word_less_def sgn_if word_uint_eq_iff)
  have IH: "sint (cmp_words_loop ?ret as bs) =
    (if words_val (take ?n as) - words_val (take ?n bs) = 0 then sint ?ret
     else sgn (words_val (take ?n as) - words_val (take ?n bs)))"
    using 1 by (simp add: Let_def)
  have step: "cmp_words_loop ret (a # as) (b # bs) = cmp_words_loop ?ret as bs" by (simp add: Let_def)
  have s: "sgn (words_val (a # take ?n as) - words_val (b # take ?n bs)) =
     (if words_val (take ?n as) = words_val (take ?n bs) then sgn (uint a - uint b)
      else sgn (words_val (take ?n as) - words_val (take ?n bs)))" by (rule words_val_Cons_sgn)
  have z: "words_val (a # take ?n as) - words_val (b # take ?n bs) = 0 \<longleftrightarrow>
     words_val (take ?n as) = words_val (take ?n bs) \<and> a = b"
    using s by (auto simp: sgn_0_0 word_uint_eq_iff split: if_splits)
  have n: "min (length (a # as)) (length (b # bs)) = Suc ?n" by simp
  show ?case
    unfolding n take_Suc_Cons Let_def step IH z s using sret ret by auto
qed simp_all

lemma bn_cmp_words_consttime_value:
  "sint (bn_cmp_words_consttime a b) = sgn (words_val a - words_val b)"
proof -
  let ?n = "min (length a) (length b)"
  let ?la = "words_val (take ?n a)" and ?lb = "words_val (take ?n b)"
  let ?ha = "words_val (drop ?n a)" and ?hb = "words_val (drop ?n b)"
  have c: "sint (cmp_words_loop 0 a b) = sgn (?la - ?lb)"
    using cmp_words_loop_value [of 0 a b] by (simp add: Let_def)
  have a: "words_val a = ?la + radix ^ ?n * ?ha" and b: "words_val b = ?lb + radix ^ ?n * ?hb"
    using words_val_take_drop [of a ?n] words_val_take_drop [of b ?n] by (simp_all add: min.commute)
  have l: "?la < radix ^ ?n" "?lb < radix ^ ?n" by (intro words_val_bound_le; simp)+
  have z: "constant_time_select_int (constant_time_is_zero_w (or_words 0 ws)) i j = (if words_val ws = 0 then i else j)" for ws i j
    by (simp add: constant_time_is_zero_w_mask constant_time_select_int_mask or_words_0 words_val_eq_0_iff)
  have big: "radix ^ ?n \<le> radix ^ ?n * words_val ws" if "words_val ws \<noteq> 0" for ws
  proof -
    have "1 \<le> words_val ws" using that words_val_nonneg [of ws] by linarith
    then show ?thesis using mult_left_mono [of 1 "words_val ws" "radix ^ ?n"] by simp
  qed
  consider (less) "length a < length b" | (more) "length b < length a" | (same) "length a = length b" by linarith
  then show ?thesis
  proof cases
    case less
    then have h: "?ha = 0" by simp
    have s: "sint (bn_cmp_words_consttime a b) = (if ?hb = 0 then sgn (?la - ?lb) else -1)"
      using less c by (simp add: bn_cmp_words_consttime_def Let_def z min_def)
    show ?thesis
    proof (cases "?hb = 0")
      case False
      with big [of "drop ?n b"] have "?lb + radix ^ ?n * ?hb \<ge> radix ^ ?n"
        using words_val_nonneg [of "take ?n b"] by linarith
      with l h a b have "words_val a < words_val b" by simp
      with s False show ?thesis by simp
    qed (use s h a b in simp)
  next
    case more
    then have h: "?hb = 0" by simp
    have s: "sint (bn_cmp_words_consttime a b) = (if ?ha = 0 then sgn (?la - ?lb) else 1)"
      using more c by (simp add: bn_cmp_words_consttime_def Let_def z min_def)
    show ?thesis
    proof (cases "?ha = 0")
      case False
      with big [of "drop ?n a"] have "?la + radix ^ ?n * ?ha \<ge> radix ^ ?n"
        using words_val_nonneg [of "take ?n a"] by linarith
      with l h a b have "words_val b < words_val a" by simp
      with s False show ?thesis by simp
    qed (use s h a b in simp)
  next
    case same
    then show ?thesis using c by (simp add: bn_cmp_words_consttime_def Let_def)
  qed
qed

lemma BN_ucmp_value: "BN_ucmp a b = sgn (bn_abs a - bn_abs b)"
  by (simp add: BN_ucmp_def bn_cmp_words_consttime_value bn_abs_def)

section \<open>Addition and subtraction of absolute values\<close>

lemma bn_uadd_consttime_value:
  assumes "bn_uadd_consttime al r a b = (ok, r')"
  shows "ok = bn_room al (max (bn_width a) (bn_width b) + 1) r"
    "ok \<Longrightarrow> bn_abs r' = bn_abs a + bn_abs b \<and> bn_width r' = max (bn_width a) (bn_width b) + 1 \<and>
       bn_width r' \<le> bn_dmax r' \<and> bn_neg r' = bn_neg r"
    "\<not> ok \<Longrightarrow> r' = r"
proof -
  obtain x y where xy: "(if bn_width a < bn_width b then (b, a) else (a, b)) = (x, y)" by fastforce
  then have w: "max (bn_width a) (bn_width b) = bn_width x" "bn_width y \<le> bn_width x" "bn_abs a + bn_abs b = bn_abs x + bn_abs y"
    by (auto split: if_splits)
  obtain lo c where 1: "bn_add_words (take (bn_width y) (bn_words x)) (bn_words y) = (lo, c)" by fastforce
  obtain hi d where 2: "carry_loop c (drop (bn_width y) (bn_words x)) = (hi, d)" by fastforce
  have v1: "length lo = bn_width y" "words_val lo + radix ^ bn_width y * uint c = words_val (take (bn_width y) (bn_words x)) + bn_abs y"
    using bn_add_words_value [OF _ 1] w by (simp_all add: bn_abs_def)
  have v2: "length hi = bn_width x - bn_width y"
    "words_val hi + radix ^ (bn_width x - bn_width y) * uint d = words_val (drop (bn_width y) (bn_words x)) + uint c"
    using carry_loop_value [OF 2] by simp_all
  have p: "radix ^ bn_width y * radix ^ (bn_width x - bn_width y) = radix ^ bn_width x"
    using w by (simp add: power_add [symmetric])
  have x: "bn_abs x = words_val (take (bn_width y) (bn_words x)) + radix ^ bn_width y * words_val (drop (bn_width y) (bn_words x))"
    using words_val_take_drop [of "bn_words x" "bn_width y"] w by (simp add: bn_abs_def min_def)
  have "words_val (lo @ hi @ [d]) = words_val lo + radix ^ bn_width y * (words_val hi + radix ^ (bn_width x - bn_width y) * uint d)"
    using v1 v2 by (simp add: words_val_append)
  also have "\<dots> = (words_val lo + radix ^ bn_width y * uint c) + radix ^ bn_width y * words_val (drop (bn_width y) (bn_words x))"
    unfolding v2(2) by (simp add: algebra_simps)
  finally have v: "words_val (lo @ hi @ [d]) = bn_abs a + bn_abs b" unfolding v1(2) w x by simp
  note e = assms [unfolded bn_uadd_consttime_def xy prod.case bn_wexpand_room 1 2]
  from e show "ok = bn_room al (max (bn_width a) (bn_width b) + 1) r" by (auto simp: w split: if_splits bool.splits)
  from e v v1 v2 w(2) show "ok \<Longrightarrow> bn_abs r' = bn_abs a + bn_abs b \<and> bn_width r' = max (bn_width a) (bn_width b) + 1 \<and>
       bn_width r' \<le> bn_dmax r' \<and> bn_neg r' = bn_neg r"
    unfolding w(1) by (auto simp: bn_abs_def split: if_splits bool.splits)
  from e show "\<not> ok \<Longrightarrow> r' = r" by (auto split: if_splits bool.splits)
qed


lemma bn_usub_words_value:
  assumes fits: "bn_width b > bn_width a \<Longrightarrow> bn_fits_in_words b (bn_width a)" and n: "n = min (bn_width a) (bn_width b)"
    and 1: "bn_sub_words (take n (bn_words a)) (take n (bn_words b)) = (lo, c)"
    and 2: "sub_borrow_loop c (drop n (bn_words a)) = (hi, d)"
  shows "length (lo @ hi) = bn_width a" "d = of_bool (bn_abs a < bn_abs b)"
    "\<not> bn_abs a < bn_abs b \<Longrightarrow> words_val (lo @ hi) = bn_abs a - bn_abs b"
proof -
  have b: "words_val (take n (bn_words b)) = bn_abs b"
    using fits words_val_take_drop [of "bn_words b" n] unfolding n
    by (cases "bn_width a < bn_width b") (simp_all add: bn_abs_def bn_fits_in_words_iff min_def)
  have a: "bn_abs a = words_val (take n (bn_words a)) + radix ^ n * words_val (drop n (bn_words a))"
    using words_val_take_drop [of "bn_words a" n] by (simp add: n bn_abs_def min_def)
  have v1: "length lo = n" "uint c \<le> 1" "words_val lo = words_val (take n (bn_words a)) - bn_abs b + radix ^ n * uint c"
    using bn_sub_words_value [OF _ 1] by (simp_all add: n b [unfolded n])
  have v2: "length hi = bn_width a - n" "uint d \<le> 1"
    "words_val hi = words_val (drop n (bn_words a)) - uint c + radix ^ (bn_width a - n) * uint d"
    using sub_borrow_loop_value [OF v1(2) 2] by simp_all
  have p: "radix ^ n * radix ^ (bn_width a - n) = radix ^ bn_width a" by (simp add: n power_add [symmetric])
  show len: "length (lo @ hi) = bn_width a" using v1 v2 by (simp add: n)
  have "words_val (lo @ hi) = bn_abs a - bn_abs b + (radix ^ n * radix ^ (bn_width a - n)) * uint d"
    unfolding words_val_append v1(1) v1(3) v2(3) a by (simp add: algebra_simps)
  then have v: "words_val (lo @ hi) = bn_abs a - bn_abs b + radix ^ length (lo @ hi) * uint d" unfolding len p .
  have "bn_abs b < radix ^ bn_width a"
    using fits bn_fits_in_words_less [of b "bn_width a"] words_val_bound_le [of "bn_words b" "bn_width a"]
    by (cases "bn_width a < bn_width b") (simp_all add: bn_abs_def)
  with bn_abs_bound [of a] show d: "d = of_bool (bn_abs a < bn_abs b)" by (intro borrow_less [OF v v2(2)]) (simp_all only: len bn_abs_nonneg)
  show "\<not> bn_abs a < bn_abs b \<Longrightarrow> words_val (lo @ hi) = bn_abs a - bn_abs b" using v d by simp
qed

lemma bn_usub_consttime_value:
  assumes "bn_usub_consttime al r a b = (ok, r')"
  shows "ok \<longleftrightarrow> bn_room al (bn_width a) r \<and> bn_abs b \<le> bn_abs a"
    "ok \<Longrightarrow> bn_abs r' = bn_abs a - bn_abs b \<and> bn_width r' = bn_width a \<and> bn_width r' \<le> bn_dmax r' \<and> \<not> bn_neg r'"
proof -
  have "(ok \<longleftrightarrow> bn_room al (bn_width a) r \<and> bn_abs b \<le> bn_abs a) \<and>
    (ok \<longrightarrow> bn_abs r' = bn_abs a - bn_abs b \<and> bn_width r' = bn_width a \<and> bn_width r' \<le> bn_dmax r' \<and> \<not> bn_neg r')"
  proof (cases "bn_width b > bn_width a \<and> \<not> bn_fits_in_words b (bn_width a)")
    case True
    then have "bn_abs a < bn_abs b" using bn_abs_bound [of a] by (simp add: bn_fits_in_words_less)
    with True assms show ?thesis by (simp add: bn_usub_consttime_def)
  next
    case False
    define n where "n = min (bn_width a) (bn_width b)"
    have n: "(if bn_width b > bn_width a then bn_width a else bn_width b) = n" by (simp add: n_def)
    obtain lo c where 1: "bn_sub_words (take n (bn_words a)) (take n (bn_words b)) = (lo, c)" by fastforce
    obtain hi d where 2: "sub_borrow_loop c (drop n (bn_words a)) = (hi, d)" by fastforce
    have fits: "bn_width b > bn_width a \<Longrightarrow> bn_fits_in_words b (bn_width a)" using False by simp
    note v = bn_usub_words_value [OF fits n_def 1 2]
    note e = assms [unfolded bn_usub_consttime_def n Let_def prod.case bn_wexpand_room 1 2 if_not_P [OF False]]
    show ?thesis
    proof (cases "bn_room al (bn_width a) r")
      case room: True
      show ?thesis
      proof (cases "bn_abs a < bn_abs b")
        case True
        with e room v(2) show ?thesis by auto
      next
        case False
        with e room v show ?thesis by (auto simp: bn_abs_def)
      qed
    qed (use e in simp)
  qed
  then show "ok \<longleftrightarrow> bn_room al (bn_width a) r \<and> bn_abs b \<le> bn_abs a"
    "ok \<Longrightarrow> bn_abs r' = bn_abs a - bn_abs b \<and> bn_width r' = bn_width a \<and> bn_width r' \<le> bn_dmax r' \<and> \<not> bn_neg r'"
    by blast+
qed

lemma BN_uadd_value:
  assumes "BN_uadd al r a b = (ok, r')"
  shows "ok = bn_room al (max (bn_width a) (bn_width b) + 1) r"
    "ok \<Longrightarrow> bn_abs r' = bn_abs a + bn_abs b \<and> bn_width r' \<le> bn_dmax r' \<and> bn_minimal r'"
proof -
  obtain ok1 r1 where 1: "bn_uadd_consttime al r a b = (ok1, r1)" by fastforce
  note v = bn_uadd_consttime_value [OF 1]
  from assms 1 have ok: "ok = ok1" "ok \<Longrightarrow> r' = bn_set_minimal_width r1" by (auto simp: BN_uadd_def split: bool.splits)
  with v show "ok = bn_room al (max (bn_width a) (bn_width b) + 1) r" by simp
  assume o: ok
  with ok v(2) bn_set_minimal_width_ok [of r1] show "bn_abs r' = bn_abs a + bn_abs b \<and> bn_width r' \<le> bn_dmax r' \<and> bn_minimal r'"
    by (simp add: bn_ok_def)
qed

lemma BN_usub_value:
  assumes "BN_usub al r a b = (ok, r')"
  shows "ok \<longleftrightarrow> bn_room al (bn_width a) r \<and> bn_abs b \<le> bn_abs a"
    "ok \<Longrightarrow> bn_abs r' = bn_abs a - bn_abs b \<and> bn_width r' \<le> bn_dmax r' \<and> bn_minimal r' \<and> \<not> bn_neg r'"
proof -
  obtain ok1 r1 where 1: "bn_usub_consttime al r a b = (ok1, r1)" by fastforce
  note v = bn_usub_consttime_value [OF 1]
  from assms 1 have ok: "ok = ok1" "ok \<Longrightarrow> r' = bn_set_minimal_width r1" by (auto simp: BN_usub_def split: bool.splits)
  with v show "ok \<longleftrightarrow> bn_room al (bn_width a) r \<and> bn_abs b \<le> bn_abs a" by simp
  assume o: ok
  with ok v(2) bn_set_minimal_width_ok [of r1]
  show "bn_abs r' = bn_abs a - bn_abs b \<and> bn_width r' \<le> bn_dmax r' \<and> bn_minimal r' \<and> \<not> bn_neg r'"
    by (simp add: bn_ok_def bn_set_minimal_width_eq)
qed

section \<open>Signed addition and subtraction\<close>

lemma signed_usub_value:
  assumes "signed_usub al r a b = (ok, r')"
  shows "ok \<longleftrightarrow> bn_room al (if bn_abs a < bn_abs b then bn_width b else bn_width a) r"
    "ok \<Longrightarrow> bn_val r' = bn_abs a - bn_abs b \<and> bn_ok r' \<and> bn_minimal r'"
proof -
  have l: "BN_ucmp a b < 0 \<longleftrightarrow> bn_abs a < bn_abs b" by (simp add: BN_ucmp_value sgn_if)
  obtain o1 r1 where 1: "BN_usub al r b a = (o1, r1)" by fastforce
  obtain o2 r2 where 2: "BN_usub al r a b = (o2, r2)" by fastforce
  note e = assms [unfolded signed_usub_def l 1 2] and v1 = BN_usub_value [OF 1] and v2 = BN_usub_value [OF 2]
  show "ok \<longleftrightarrow> bn_room al (if bn_abs a < bn_abs b then bn_width b else bn_width a) r"
    using e v1(1) v2(1) by (auto split: if_splits bool.splits)
  assume ok
  with e v1 v2 show "bn_val r' = bn_abs a - bn_abs b \<and> bn_ok r' \<and> bn_minimal r'"
    by (auto simp: bn_val_def bn_ok_def bn_abs_def bn_minimal_def split: if_splits bool.splits)
qed

lemma BN_add_value:
  assumes "BN_add al r a b = (ok, r')"
  shows "ok \<longleftrightarrow> bn_room al (if bn_neg a = bn_neg b then max (bn_width a) (bn_width b) + 1
      else if bn_abs a < bn_abs b \<or> bn_abs a = bn_abs b \<and> bn_neg a then bn_width b else bn_width a) r"
    "ok \<Longrightarrow> bn_val r' = bn_val a + bn_val b"
    "ok \<Longrightarrow> bn_ok a \<Longrightarrow> bn_ok b \<Longrightarrow> bn_ok r' \<and> bn_minimal r'"
proof -
  obtain o1 r1 where 1: "signed_usub al r a b = (o1, r1)" by fastforce
  obtain o2 r2 where 2: "signed_usub al r b a = (o2, r2)" by fastforce
  obtain o3 r3 where 3: "BN_uadd al r a b = (o3, r3)" by fastforce
  note v1 = signed_usub_value [OF 1] and v2 = signed_usub_value [OF 2] and v3 = BN_uadd_value [OF 3]
  have e: "(ok, r') = (if bn_neg a \<noteq> bn_neg b then if bn_neg a then (o2, r2) else (o1, r1) else (o3, r3\<lparr>bn_neg := bn_neg a\<rparr>))"
    using assms 1 2 3 by (cases "bn_neg a"; cases "bn_neg b") (simp_all add: BN_add_def)
  show "ok \<longleftrightarrow> bn_room al (if bn_neg a = bn_neg b then max (bn_width a) (bn_width b) + 1
      else if bn_abs a < bn_abs b \<or> bn_abs a = bn_abs b \<and> bn_neg a then bn_width b else bn_width a) r"
    using e v1(1) v2(1) v3(1) by (auto split: if_splits)
  assume ok
  with e v1(2) v2(2) v3(2) show "bn_val r' = bn_val a + bn_val b"
    by (auto simp: bn_val_def bn_abs_def split: if_splits)
  have z: "bn_abs a + bn_abs b = 0 \<Longrightarrow> bn_abs b = 0" using bn_abs_nonneg [of a] bn_abs_nonneg [of b] by linarith
  assume "bn_ok a" "bn_ok b"
  with \<open>ok\<close> e v1(2) v2(2) v3(2) z show "bn_ok r' \<and> bn_minimal r'"
    by (auto simp: bn_ok_def bn_abs_def bn_minimal_def split: if_splits)
qed


lemma BN_sub_value:
  assumes "BN_sub al r a b = (ok, r')"
  shows "ok \<longleftrightarrow> bn_room al (if bn_neg a \<noteq> bn_neg b then max (bn_width a) (bn_width b) + 1
      else if bn_abs a < bn_abs b \<or> bn_abs a = bn_abs b \<and> bn_neg a then bn_width b else bn_width a) r"
    "ok \<Longrightarrow> bn_val r' = bn_val a - bn_val b"
    "ok \<Longrightarrow> bn_ok a \<Longrightarrow> bn_ok b \<Longrightarrow> bn_ok r' \<and> bn_minimal r'"
proof -
  obtain o1 r1 where 1: "signed_usub al r a b = (o1, r1)" by fastforce
  obtain o2 r2 where 2: "signed_usub al r b a = (o2, r2)" by fastforce
  obtain o3 r3 where 3: "BN_uadd al r a b = (o3, r3)" by fastforce
  note v1 = signed_usub_value [OF 1] and v2 = signed_usub_value [OF 2] and v3 = BN_uadd_value [OF 3]
  have e: "(ok, r') = (if bn_neg a \<noteq> bn_neg b then if o3 then (True, r3\<lparr>bn_neg := bn_neg a\<rparr>) else (False, r3)
      else if bn_neg a then (o2, r2) else (o1, r1))"
    using assms 1 2 3 by (cases "bn_neg a"; cases "bn_neg b"; cases o3) (simp_all add: BN_sub_def)
  show "ok \<longleftrightarrow> bn_room al (if bn_neg a \<noteq> bn_neg b then max (bn_width a) (bn_width b) + 1
      else if bn_abs a < bn_abs b \<or> bn_abs a = bn_abs b \<and> bn_neg a then bn_width b else bn_width a) r"
    using e v1(1) v2(1) v3(1) by (auto split: if_splits)
  assume ok
  with e v1(2) v2(2) v3(2) show "bn_val r' = bn_val a - bn_val b"
    by (auto simp: bn_val_def bn_abs_def split: if_splits)
  have z: "bn_abs a + bn_abs b = 0 \<Longrightarrow> bn_abs b = 0 \<and> bn_abs a = 0"
    using bn_abs_nonneg [of a] bn_abs_nonneg [of b] by linarith
  assume "bn_ok a" "bn_ok b"
  with \<open>ok\<close> e v1(2) v2(2) v3(2) z show "bn_ok r' \<and> bn_minimal r'"
    by (auto simp: bn_ok_def bn_abs_def bn_minimal_def split: if_splits)
qed

section \<open>Words\<close>

lemma BN_set_word_value:
  "BN_set_word al w bn = (ok, bn') \<Longrightarrow>
   ok = (w = 0 \<or> bn_room al 1 bn) \<and> (ok \<longrightarrow> bn_val bn' = uint w \<and> (bn_width bn \<le> bn_dmax bn \<longrightarrow> bn_ok bn') \<and> bn_minimal bn')"
  by (auto simp: BN_set_word_def BN_zero_def bn_wexpand_room bn_val_def bn_abs_def bn_ok_def bn_minimal_def split: if_splits)

lemma add_word_loop_value:
  "add_word_loop w ds = (rs, w') \<Longrightarrow> length rs = length ds \<and> words_val rs + radix ^ length ds * uint w' = words_val ds + uint w"
proof (induction w ds arbitrary: rs w' rule: add_word_loop.induct)
  case (2 w d ds)
  show ?case
  proof (cases "w = 0")
    case False
    let ?l = "d + w" let ?c = "if w > ?l then 1 else 0 :: u64"
    obtain rs1 w1 where 1: "add_word_loop ?c ds = (rs1, w1)" by fastforce
    with False "2.prems" have r: "rs = ?l # rs1" "w' = w1" by (simp_all add: Let_def)
    from "2.IH" [OF False refl 1] have IH: "length rs1 = length ds" "words_val rs1 + radix ^ length ds * uint w1 = words_val ds + uint ?c" by simp_all
    have "uint ?l + radix * uint ?c = uint d + uint w" using word_add_carry [of d w] by (cases "d + w < w") simp_all
    then have "words_val rs + radix ^ length (d # ds) * uint w' = uint d + uint w - radix * uint ?c + radix * (words_val rs1 + radix ^ length ds * uint w1)"
      unfolding r words_val.simps by (simp add: algebra_simps)
    then show ?thesis unfolding IH(2) using IH(1) r(1) by (simp add: algebra_simps)
  qed (use "2.prems" in simp)
qed simp

lemma sub_word_loop_value:
  "uint w \<le> words_val ds \<Longrightarrow> w \<noteq> 0 \<Longrightarrow>
   \<exists>rs j. sub_word_loop i w ds = Some (rs, j) \<and> length rs = length ds \<and> i \<le> j \<and> j < i + length ds \<and> words_val rs = words_val ds - uint w"
proof (induction ds arbitrary: i w)
  case (Cons d ds)
  show ?case
  proof (cases "w \<le> d")
    case True
    then have "uint (d - w) = uint d - uint w" by (simp add: uint_sub_le word_le_def)
    with True show ?thesis by simp
  next
    case False
    then have u: "uint (d - w) = uint d - uint w + radix" "uint d < uint w"
      using sub_step [of d w False] by (auto simp: word_le_def not_le word_less_def)
    have "words_val ds \<noteq> 0" using Cons.prems u by auto
    then have "1 \<le> words_val ds" using words_val_nonneg [of ds] by linarith
    then have "uint (1 :: u64) \<le> words_val ds" by simp
    from Cons.IH [OF this _, of "i + 1"] obtain rs j where "sub_word_loop (i + 1) 1 ds = Some (rs, j)" "length rs = length ds"
      "i + 1 \<le> j" "j < i + 1 + length ds" and v: "words_val rs = words_val ds - 1" by auto
    moreover have "words_val ((d - w) # rs) = words_val (d # ds) - uint w" unfolding words_val.simps v using u by (simp add: algebra_simps)
    ultimately show ?thesis using False by simp
  qed
qed (simp add: word_uint_eq_iff)


lemma BN_add_sub_word_0: "BN_add_word al a 0 = Some (True, a)" "BN_sub_word al a 0 = Some (True, a)"
  by (simp_all add: BN_add_word.simps [of al a 0] BN_sub_word.simps [of al a 0])

lemma bn_minimal_width_1: "bn_minimal_width a = 1 \<Longrightarrow> bn_abs a = uint (bn_words a ! 0) \<and> (\<exists>k. bn_words a = bn_words a ! 0 # replicate k 0)"
proof -
  assume "bn_minimal_width a = 1"
  then obtain x where x: "minimal_words (bn_words a) = [x]" by (auto simp: bn_minimal_width_def length_Suc_conv)
  with minimal_words_split [of "bn_words a"] obtain k where k: "bn_words a = x # replicate k 0" by auto
  then show ?thesis by (simp add: bn_abs_def)
qed

lemma bn_minimal_width_more: "bn_minimal_width a \<noteq> 1 \<Longrightarrow> bn_abs a \<noteq> 0 \<Longrightarrow> radix \<le> bn_abs a"
proof -
  let ?m = "minimal_words (bn_words a)"
  assume "bn_minimal_width a \<noteq> 1" "bn_abs a \<noteq> 0"
  then have m: "length ?m \<noteq> 1" "?m \<noteq> []" by (simp_all add: bn_minimal_width_def minimal_words_Nil bn_abs_def)
  then obtain x y ys where xy: "?m = x # y # ys" by (cases ?m; cases "tl ?m") auto
  then have "last (y # ys) \<noteq> 0" using last_minimal [of "bn_words a"] by simp
  then have "words_val (y # ys) \<noteq> 0" using last_in_set [of "y # ys"] by (simp only: words_val_eq_0_iff) blast
  then have "1 \<le> words_val (y # ys)" using words_val_nonneg [of "y # ys"] by linarith
  then have "radix * 1 \<le> radix * words_val (y # ys)" by (intro mult_left_mono) simp_all
  moreover have "bn_abs a = uint x + radix * words_val (y # ys)"
    using words_val_minimal [of "bn_words a"] unfolding xy bn_abs_def by simp
  moreover have "0 \<le> uint x" by simp
  ultimately show ?thesis by linarith
qed

lemma BN_sub_word_nonneg:
  assumes "\<not> bn_neg a" "bn_width a \<le> bn_dmax a"
  shows "\<exists>ok a'. BN_sub_word al a w = Some (ok, a') \<and> (ok \<longleftrightarrow> w = 0 \<or> bn_abs a \<noteq> 0 \<or> bn_room al 1 a) \<and>
    (ok \<longrightarrow> bn_val a' = bn_abs a - uint w \<and> bn_ok a')"
proof -
  consider (none) "w = 0" | (zero) "w \<noteq> 0" "bn_abs a = 0" | (below) "w \<noteq> 0" "bn_abs a \<noteq> 0" "bn_minimal_width a = 1 \<and> bn_words a ! 0 < w"
    | (sub) "w \<noteq> 0" "bn_abs a \<noteq> 0" "\<not> (bn_minimal_width a = 1 \<and> bn_words a ! 0 < w)" by blast
  then show ?thesis
  proof cases
    case none
    with assms show ?thesis by (auto simp: BN_add_sub_word_0 bn_val_def bn_ok_def)
  next
    case zero
    obtain ok a1 where 1: "BN_set_word al w a = (ok, a1)" by fastforce
    from BN_set_word_value [OF 1] zero assms have ok: "ok = bn_room al 1 a" "ok \<Longrightarrow> bn_val a1 = uint w \<and> bn_ok a1" by auto
    have "uint w \<noteq> 0" using zero by (simp add: word_uint_eq_iff)
    then have "ok \<Longrightarrow> bn_val (BN_set_negative a1 True) = - uint w \<and> bn_ok (BN_set_negative a1 True)"
      using bn_val_nonneg [of a1] ok by (simp add: BN_set_negative_def BN_is_zero_iff) (simp add: bn_val_def bn_ok_def bn_abs_def)
    with zero ok(1) 1 show ?thesis
      by (cases ok) (auto simp: BN_sub_word.simps [of al a w] BN_is_zero_iff)
  next
    case below
    then obtain k where k: "bn_abs a = uint (bn_words a ! 0)" "bn_words a = bn_words a ! 0 # replicate k 0" "uint (bn_words a ! 0) < uint w"
      using bn_minimal_width_1 by (auto simp: word_less_def)
    let ?a = "a\<lparr>bn_words := (bn_words a)[0 := w - bn_words a ! 0], bn_neg := True\<rparr>"
    have "(bn_words a)[0 := w - bn_words a ! 0] = (w - bn_words a ! 0) # replicate k 0" by (subst k(2)) simp
    moreover have "uint (w - bn_words a ! 0) = uint w - uint (bn_words a ! 0)" using k(3) by (simp add: uint_sub_le)
    ultimately have "bn_abs ?a = uint w - bn_abs a" using k(1) by (simp add: bn_abs_def)
    with below assms k(1,3) show ?thesis
      by (auto simp: BN_sub_word.simps [of al a w] BN_is_zero_iff bn_val_def bn_ok_def)
  next
    case sub
    have "uint w \<le> bn_abs a"
    proof (cases "bn_minimal_width a = 1")
      case True
      with sub(3) bn_minimal_width_1 show ?thesis by (simp add: word_le_def not_less)
    next
      case False
      with bn_minimal_width_more [OF _ sub(2)] uint_radix(1) [of w] show ?thesis by linarith
    qed
    from sub_word_loop_value [OF this [unfolded bn_abs_def] sub(1), of 0] obtain rs j where rs: "sub_word_loop 0 w (bn_words a) = Some (rs, j)"
      "length rs = bn_width a" "j < bn_width a" "words_val rs = bn_abs a - uint w" by (auto simp: bn_abs_def)
    let ?ds = "if rs ! j = 0 \<and> j = length rs - 1 then take (length rs - 1) rs else rs"
    have "words_val ?ds = words_val rs"
    proof (cases "rs ! j = 0 \<and> j = length rs - 1")
      case True
      then have "rs = take (length rs - 1) rs @ [0]" using rs(2,3) by (metis append_butlast_last_id butlast_conv_take last_conv_nth length_0_conv not_less_zero)
      then have "words_val rs = words_val (take (length rs - 1) rs)" by (metis add.right_neutral mult_zero_right replicate_0 replicate_Suc words_val_append words_val_replicate_0)
      with True show ?thesis by simp
    next
      case False
      then show ?thesis by (simp only: if_False)
    qed
    moreover have "length ?ds \<le> bn_dmax a" using rs(2) assms(2) by auto
    ultimately have v: "bn_val (a\<lparr>bn_words := ?ds\<rparr>) = bn_abs a - uint w" "bn_ok (a\<lparr>bn_words := ?ds\<rparr>)"
      using assms(1) rs(4) by (simp_all add: bn_val_def bn_abs_def bn_ok_def)
    have "BN_sub_word al a w = Some (True, a\<lparr>bn_words := ?ds\<rparr>)"
      unfolding BN_sub_word.simps [of al a w] BN_is_zero_iff if_not_P [OF sub(3)] using sub(1,2) assms(1) rs(1) by simp
    with v sub(2) show ?thesis by blast
  qed
qed

lemma BN_add_word_nonneg:
  assumes "\<not> bn_neg a" "bn_width a \<le> bn_dmax a"
  shows "\<exists>ok a'. BN_add_word al a w = Some (ok, a') \<and> (bn_room al (bn_width a + 1) a \<longrightarrow> ok) \<and>
    (ok \<longrightarrow> bn_val a' = bn_abs a + uint w \<and> bn_ok a')"
proof -
  consider (none) "w = 0" | (zero) "w \<noteq> 0" "bn_abs a = 0" | (add) "w \<noteq> 0" "bn_abs a \<noteq> 0" by blast
  then show ?thesis
  proof cases
    case none
    with assms show ?thesis by (auto simp: BN_add_sub_word_0 bn_val_def bn_ok_def)
  next
    case zero
    obtain ok a1 where 1: "BN_set_word al w a = (ok, a1)" by fastforce
    from BN_set_word_value [OF 1] zero assms have ok: "ok = bn_room al 1 a" "ok \<Longrightarrow> bn_val a1 = uint w \<and> bn_ok a1" by auto
    have "bn_room al (bn_width a + 1) a \<Longrightarrow> ok" unfolding ok(1) using assms(2) by (cases "bn_words a") (auto simp: bn_room_def)
    with zero ok 1 show ?thesis by (simp add: BN_add_word.simps [of al a w] BN_is_zero_iff)
  next
    case add
    obtain ds w' where 1: "add_word_loop w (bn_words a) = (ds, w')" by fastforce
    note v = add_word_loop_value [OF 1]
    show ?thesis
    proof (cases "w' = 0")
      case True
      then show ?thesis using add assms v 1
        by (auto simp: BN_add_word.simps [of al a w] BN_is_zero_iff bn_val_def bn_abs_def bn_ok_def)
    next
      case False
      let ?a = "a\<lparr>bn_words := ds\<rparr>"
      have r: "bn_room al n ?a = bn_room al n a" for n by (simp add: bn_room_def)
      show ?thesis using add assms v 1 False r
        by (auto simp: BN_add_word.simps [of al a w] BN_is_zero_iff bn_wexpand_room Let_def bn_val_def bn_abs_def bn_ok_def words_val_append)
    qed
  qed
qed

lemma BN_add_word_value:
  assumes "bn_ok a"
  shows "\<exists>ok a'. BN_add_word al a w = Some (ok, a') \<and> (bn_room al (bn_width a + 1) a \<longrightarrow> ok) \<and>
    (ok \<longrightarrow> bn_val a' = bn_val a + uint w \<and> bn_ok a')"
proof (cases "bn_neg a")
  case False
  with BN_add_word_nonneg [of a al w] assms show ?thesis by (simp add: bn_ok_def bn_val_def)
next
  case True
  let ?a = "a\<lparr>bn_neg := False\<rparr>"
  have a: "bn_abs ?a = bn_abs a" "bn_abs a \<noteq> 0" "bn_width ?a \<le> bn_dmax ?a"
    using True assms by (simp_all add: bn_abs_def bn_ok_def)
  obtain a1 where 1: "BN_sub_word al ?a w = Some (True, a1)" "bn_val a1 = bn_abs a - uint w" "bn_ok a1"
    using BN_sub_word_nonneg [of ?a al w] a by auto
  show ?thesis
  proof (cases "w = 0")
    case True
    with assms show ?thesis by (auto simp: BN_add_sub_word_0)
  next
    case False
    have "BN_add_word al a w = Some (True, if \<not> BN_is_zero a1 then a1\<lparr>bn_neg := \<not> bn_neg a1\<rparr> else a1)"
      using False True a 1(1) by (simp add: BN_add_word.simps [of al a w] BN_is_zero_iff)
    then show ?thesis using 1(2,3) True
      by (auto simp: bn_val_def bn_abs_def bn_ok_def BN_is_zero_iff split: if_splits)
  qed
qed

lemma BN_sub_word_value:
  assumes "bn_ok a"
  shows "\<exists>ok a'. BN_sub_word al a w = Some (ok, a') \<and> (bn_room al (bn_width a + 1) a \<longrightarrow> ok) \<and>
    (ok \<longrightarrow> bn_val a' = bn_val a - uint w \<and> bn_ok a')"
proof (cases "bn_neg a")
  case False
  have "bn_room al (bn_width a + 1) a \<Longrightarrow> bn_abs a \<noteq> 0 \<or> bn_room al 1 a"
    using assms by (cases "bn_words a") (auto simp: bn_room_def bn_ok_def)
  moreover obtain ok a' where "BN_sub_word al a w = Some (ok, a')" "ok \<longleftrightarrow> w = 0 \<or> bn_abs a \<noteq> 0 \<or> bn_room al 1 a"
    "ok \<longrightarrow> bn_val a' = bn_abs a - uint w \<and> bn_ok a'"
    using BN_sub_word_nonneg [of a al w] False assms by (auto simp: bn_ok_def)
  moreover have "bn_val a = bn_abs a" using False by (simp add: bn_val_def)
  ultimately show ?thesis by metis
next
  case True
  let ?a = "a\<lparr>bn_neg := False\<rparr>"
  have a: "bn_abs ?a = bn_abs a" "bn_abs a \<noteq> 0" "bn_width ?a \<le> bn_dmax ?a" "bn_room al n ?a = bn_room al n a" for n
    using True assms by (simp_all add: bn_abs_def bn_ok_def bn_room_def)
  obtain ok a1 where 1: "BN_add_word al ?a w = Some (ok, a1)" "bn_room al (bn_width a + 1) a \<longrightarrow> ok"
    "ok \<longrightarrow> bn_val a1 = bn_abs a + uint w \<and> bn_ok a1"
    using BN_add_word_nonneg [of ?a al w] a by auto
  show ?thesis
  proof (cases "w = 0")
    case True
    with assms show ?thesis by (auto simp: BN_add_sub_word_0)
  next
    case False
    have "BN_sub_word al a w = Some (ok, a1\<lparr>bn_neg := True\<rparr>)"
      using False True a 1(1) by (simp add: BN_sub_word.simps [of al a w] BN_is_zero_iff)
    moreover have "bn_val (a1\<lparr>bn_neg := True\<rparr>) = bn_val a - uint w \<and> bn_ok (a1\<lparr>bn_neg := True\<rparr>)" if ok
    proof -
      from 1(3) that have v: "bn_val a1 = bn_abs a + uint w" "bn_ok a1" by simp_all
      have "0 < bn_abs a + uint w" using a(2) bn_abs_nonneg [of a] uint_radix(2) [of w] by linarith
      with v have "bn_abs a1 = bn_abs a + uint w" using bn_val_nonneg [of a1] by simp
      with v \<open>0 < bn_abs a + uint w\<close> True show ?thesis by (simp add: bn_val_def bn_ok_def bn_abs_def)
    qed
    ultimately show ?thesis using 1(2) by blast
  qed
qed

section \<open>Bits\<close>

lemma minus_sign_bit:
  assumes "unat (x :: u64) < 2 ^ 63"
  shows "drop_bit 63 (0 - x) = of_bool (x \<noteq> 0)"
proof -
  have b: "bit (0 - x) 63 \<longleftrightarrow> x \<noteq> 0"
  proof (cases "x = 0")
    case False
    then have "0 < unat x" by (simp add: unat_gt_0)
    then have "unat (0 - x) = 2 ^ 64 - unat x" unfolding unat_sub_if' by simp
    with assms False show ?thesis unfolding bit_63_iff by simp
  qed simp
  show ?thesis
  proof (rule bit_word_eqI)
    fix n :: nat assume "n < LENGTH(64)"
    show "bit (drop_bit 63 (0 - x)) n = bit (of_bool (x \<noteq> 0) :: u64) n"
      using b by (cases n) (auto simp: bit_drop_bit_eq bit_imp_le_length bit_1_iff dest: bit_imp_le_length)
  qed
qed

lemma num_bits_step_eq:
  assumes "0 < k"
  shows "num_bits_step k (b, l) = (if drop_bit k l \<noteq> 0 then (b + of_nat k, drop_bit k l) else (b, l))"
proof -
  have "unat (drop_bit k l) < 2 ^ 63"
  proof -
    have "unat (drop_bit k l) = unat l div 2 ^ k" unfolding unat_drop_bit_eq by (rule drop_bit_eq_div)
    also have "\<dots> \<le> unat l div 2 ^ 1" using assms by (intro div_le_mono2 power_increasing) auto
    also have "\<dots> < 2 ^ 63" using unsigned_less [of l, where ?'a = nat] by simp
    finally show ?thesis .
  qed
  from minus_sign_bit [OF this] have m: "0 - drop_bit 63 (0 - drop_bit k l) = (if drop_bit k l \<noteq> 0 then - 1 else (0 :: u64))" by simp
  have x: "l XOR (drop_bit k l XOR l) = drop_bit k l" by (metis bit.xor_left_self xor.commute)
  show ?thesis using m x by (simp add: num_bits_step_def Let_def)
qed

lemma num_bits_step_value:
  assumes "num_bits_step k (of_nat (Suc m), l) = (b, l')" "0 < k" "l \<noteq> 0" "unat l < 2 ^ (2 * k)"
  shows "\<exists>m'. b = of_nat (Suc m') \<and> m' \<le> m + k \<and> l' \<noteq> 0 \<and> unat l' < 2 ^ k \<and>
    (unat l = n div 2 ^ m \<longrightarrow> unat l' = n div 2 ^ m')"
proof (cases "drop_bit k l = 0")
  case True
  with assms have r: "b = of_nat (Suc m)" "l' = l" by (simp_all add: num_bits_step_eq)
  have "unat l div 2 ^ k = 0" using True using unat_drop_bit_eq [of k l] by (simp only: unat_0 drop_bit_eq_div [where ?'a = nat])
  then have "unat l < 2 ^ k" using div_eq_0_iff by (metis power_not_zero zero_neq_numeral)
  with r assms(3) show ?thesis by auto
next
  case False
  with assms have r: "b = of_nat (Suc (m + k))" "l' = drop_bit k l" by (simp_all add: num_bits_step_eq algebra_simps)
  have u: "unat l' = unat l div 2 ^ k" unfolding r(2) unat_drop_bit_eq by (rule drop_bit_eq_div)
  also have "\<dots> < 2 ^ k" using assms(4) by (intro less_mult_imp_div_less) (simp add: power_add mult_2)
  finally have "unat l' < 2 ^ k" .
  with r u False show ?thesis by (intro exI [of _ "m + k"]) (simp add: div_mult2_eq power_add)
qed

lemma BN_num_bits_word_value:
  "l \<noteq> 0 \<Longrightarrow> \<exists>m < 64. BN_num_bits_word l = Suc m \<and> 2 ^ m \<le> unat l \<and> unat l < 2 ^ Suc m"
proof -
  assume l: "l \<noteq> 0"
  let ?s = "\<lambda>k x. num_bits_step k x"
  have 0: "(of_bool (l \<noteq> 0), l) = (of_nat (Suc 0), l)" using l by simp
  have b: "unat l < 2 ^ (2 * 32)" using unsigned_less [of l, where ?'a = nat] by simp
  obtain b1 l1 where 1: "num_bits_step 32 (of_nat (Suc 0), l) = (b1, l1)" by fastforce
  obtain m1 where m1: "b1 = of_nat (Suc m1)" "m1 \<le> 0 + 32" "l1 \<noteq> 0" "unat l1 < 2 ^ (2 * 16)" "unat l1 = unat l div 2 ^ m1"
    using num_bits_step_value [OF 1 _ l b, of "unat l"] by auto
  obtain b2 l2 where 2: "num_bits_step 16 (of_nat (Suc m1), l1) = (b2, l2)" by fastforce
  obtain m2 where m2: "b2 = of_nat (Suc m2)" "m2 \<le> m1 + 16" "l2 \<noteq> 0" "unat l2 < 2 ^ (2 * 8)" "unat l2 = unat l div 2 ^ m2"
    using num_bits_step_value [OF 2 _ m1(3,4), of "unat l"] m1(5) by auto
  obtain b3 l3 where 3: "num_bits_step 8 (of_nat (Suc m2), l2) = (b3, l3)" by fastforce
  obtain m3 where m3: "b3 = of_nat (Suc m3)" "m3 \<le> m2 + 8" "l3 \<noteq> 0" "unat l3 < 2 ^ (2 * 4)" "unat l3 = unat l div 2 ^ m3"
    using num_bits_step_value [OF 3 _ m2(3,4), of "unat l"] m2(5) by auto
  obtain b4 l4 where 4: "num_bits_step 4 (of_nat (Suc m3), l3) = (b4, l4)" by fastforce
  obtain m4 where m4: "b4 = of_nat (Suc m4)" "m4 \<le> m3 + 4" "l4 \<noteq> 0" "unat l4 < 2 ^ (2 * 2)" "unat l4 = unat l div 2 ^ m4"
    using num_bits_step_value [OF 4 _ m3(3,4), of "unat l"] m3(5) by auto
  obtain b5 l5 where 5: "num_bits_step 2 (of_nat (Suc m4), l4) = (b5, l5)" by fastforce
  obtain m5 where m5: "b5 = of_nat (Suc m5)" "m5 \<le> m4 + 2" "l5 \<noteq> 0" "unat l5 < 2 ^ (2 * 1)" "unat l5 = unat l div 2 ^ m5"
    using num_bits_step_value [OF 5 _ m4(3,4), of "unat l"] m4(5) by auto
  obtain b6 l6 where 6: "num_bits_step 1 (of_nat (Suc m5), l5) = (b6, l6)" by fastforce
  obtain m6 where m6: "b6 = of_nat (Suc m6)" "m6 \<le> m5 + 1" "l6 \<noteq> 0" "unat l6 < 2 ^ 1" "unat l6 = unat l div 2 ^ m6"
    using num_bits_step_value [OF 6 _ m5(3,4), of "unat l"] m5(5) by auto
  have m: "m6 < 64" using m1(2) m2(2) m3(2) m4(2) m5(2) m6(2) by linarith
  have f: "fold num_bits_step [32, 16, 8, 4, 2, 1] (of_bool (l \<noteq> 0), l) = (b6, l6)"
    unfolding 0 fold_simps 1 m1(1) 2 m2(1) 3 m3(1) 4 m4(1) 5 m5(1) 6 by (rule refl)
  have n: "BN_num_bits_word l = Suc m6"
  proof -
    have "take_bit 64 (Suc m6) = Suc m6" using m by (intro take_bit_nat_eq_self) simp
    then show ?thesis unfolding BN_num_bits_word_def f fst_conv m6(1) unsigned_of_nat by simp
  qed
  have "unat l6 \<noteq> 0" using m6(3) by (simp add: unat_eq_0)
  with m6(4) have "unat l div 2 ^ m6 = 1" using m6(5) by simp
  then have "2 ^ m6 \<le> unat l" "unat l < 2 ^ Suc m6"
    using div_times_less_eq_dividend [of "unat l" "2 ^ m6"] dividend_less_div_times [of "2 ^ m6" "unat l"] by simp_all
  with n m show ?thesis by blast
qed

section \<open>Properties\<close>

text \<open>Room for \<open>n\<close> words: the array is large enough, or memory is there and the limit not reached.\<close>

definition roomy :: "allocator \<Rightarrow> nat \<Rightarrow> bignum \<Rightarrow> bool" where
  "roomy al n r \<longleftrightarrow> n \<le> bn_dmax r \<or> (\<forall>m. al m) \<and> \<not> bn_static r \<and> n \<le> 8388607"

lemma roomy_room: "roomy al n r \<Longrightarrow> m \<le> n \<Longrightarrow> bn_room al m r"
  by (auto simp: roomy_def bn_room_def OPENSSL_malloc_def)

lemma BN_cmp_value:
  assumes "bn_ok a" "bn_ok b"
  shows "BN_cmp (Some a) (Some b) = sgn (bn_val a - bn_val b)"
proof -
  have a: "bn_neg a \<Longrightarrow> 0 < bn_abs a" "bn_neg b \<Longrightarrow> 0 < bn_abs b"
    using assms bn_abs_nonneg [of a] bn_abs_nonneg [of b] by (auto simp: bn_ok_def simp del: bn_abs_nonneg)
  show ?thesis
    using a bn_abs_nonneg [of a] bn_abs_nonneg [of b]
    by (auto simp: BN_cmp_def BN_ucmp_value bn_val_def Let_def sgn_if simp del: bn_abs_nonneg)
qed

text \<open>C39: Addition and subtraction of signed numbers, and of a word, compute the exact sum and difference
  whatever the signs and widths, with the result normalised (no leading zero words after addition and
  subtraction of two numbers, and no negative zero); they fail only when the result does not fit the
  array and no larger one can be had.  \<open>BN_cmp\<close> and \<open>BN_ucmp\<close> give the sign of the difference of
  the values and of the absolute values.  The numbers themselves may be one another.\<close>

theorem BN_sums_exact:
  assumes "bn_ok a" "bn_ok b"
  shows "(case BN_add al r a b of (ok, r') \<Rightarrow>
        (ok \<longrightarrow> bn_val r' = bn_val a + bn_val b \<and> bn_ok r' \<and> bn_minimal r') \<and>
        (roomy al (max (bn_width a) (bn_width b) + 1) r \<longrightarrow> ok)) \<and>
    (case BN_sub al r a b of (ok, r') \<Rightarrow>
        (ok \<longrightarrow> bn_val r' = bn_val a - bn_val b \<and> bn_ok r' \<and> bn_minimal r') \<and>
        (roomy al (max (bn_width a) (bn_width b) + 1) r \<longrightarrow> ok)) \<and>
    (\<exists>ok a'. BN_add_word al a w = Some (ok, a') \<and> (ok \<longrightarrow> bn_val a' = bn_val a + uint w \<and> bn_ok a') \<and>
        (roomy al (bn_width a + 1) a \<longrightarrow> ok)) \<and>
    (\<exists>ok a'. BN_sub_word al a w = Some (ok, a') \<and> (ok \<longrightarrow> bn_val a' = bn_val a - uint w \<and> bn_ok a') \<and>
        (roomy al (bn_width a + 1) a \<longrightarrow> ok)) \<and>
    BN_cmp (Some a) (Some b) = sgn (bn_val a - bn_val b) \<and> BN_ucmp a b = sgn (\<bar>bn_val a\<bar> - \<bar>bn_val b\<bar>)"
proof (intro conjI)
  let ?n = "max (bn_width a) (bn_width b) + 1"
  have room: "bn_room al m r" if "roomy al ?n r" "m \<le> ?n" for m using roomy_room that by blast
  obtain o1 r1 where 1: "BN_add al r a b = (o1, r1)" by fastforce
  have "roomy al ?n r \<Longrightarrow> o1" unfolding BN_add_value(1) [OF 1] by (intro room) auto
  with BN_add_value(2,3) [OF 1] assms
  show "case BN_add al r a b of (ok, r') \<Rightarrow>
        (ok \<longrightarrow> bn_val r' = bn_val a + bn_val b \<and> bn_ok r' \<and> bn_minimal r') \<and> (roomy al ?n r \<longrightarrow> ok)"
    by (auto simp: 1)
  obtain o2 r2 where 2: "BN_sub al r a b = (o2, r2)" by fastforce
  have "roomy al ?n r \<Longrightarrow> o2" unfolding BN_sub_value(1) [OF 2] by (intro room) auto
  with BN_sub_value(2,3) [OF 2] assms
  show "case BN_sub al r a b of (ok, r') \<Rightarrow>
        (ok \<longrightarrow> bn_val r' = bn_val a - bn_val b \<and> bn_ok r' \<and> bn_minimal r') \<and> (roomy al ?n r \<longrightarrow> ok)"
    by (auto simp: 2)
  show "\<exists>ok a'. BN_add_word al a w = Some (ok, a') \<and> (ok \<longrightarrow> bn_val a' = bn_val a + uint w \<and> bn_ok a') \<and>
        (roomy al (bn_width a + 1) a \<longrightarrow> ok)"
    using BN_add_word_value [OF assms(1), of al w] roomy_room [of al "bn_width a + 1" a] by blast
  show "\<exists>ok a'. BN_sub_word al a w = Some (ok, a') \<and> (ok \<longrightarrow> bn_val a' = bn_val a - uint w \<and> bn_ok a') \<and>
        (roomy al (bn_width a + 1) a \<longrightarrow> ok)"
    using BN_sub_word_value [OF assms(1), of al w] roomy_room [of al "bn_width a + 1" a] by blast
  show "BN_cmp (Some a) (Some b) = sgn (bn_val a - bn_val b)" by (rule BN_cmp_value [OF assms])
  show "BN_ucmp a b = sgn (\<bar>bn_val a\<bar> - \<bar>bn_val b\<bar>)" by (simp add: BN_ucmp_value bn_val_def)
qed

lemma BN_sums_exact_witness:
  "\<exists>r'. BN_add (\<lambda>_. True) BN_init \<lparr>bn_words = [5], bn_dmax = 1, bn_neg = True, bn_static = True\<rparr> BN_value_one = (True, r') \<and>
     bn_val r' = - 4"
proof -
  let ?a = "\<lparr>bn_words = [5], bn_dmax = 1, bn_neg = True, bn_static = True\<rparr>"
  have "bn_ok ?a" "bn_ok BN_value_one" "bn_val ?a = -5" "bn_val BN_value_one = 1"
    by (simp_all add: bn_ok_def BN_value_one_def bn_abs_def bn_val_def)
  moreover have "roomy (\<lambda>_. True) (max (bn_width ?a) (bn_width BN_value_one) + 1) BN_init"
    by (simp add: roomy_def BN_init_def BN_value_one_def)
  ultimately show ?thesis
    using BN_sums_exact [of ?a BN_value_one "\<lambda>_. True" BN_init 0] by (auto split: prod.splits)
qed

end
