(* ===== verification/BnCtx.thy ===== *)
theory BnCtx
  imports
    BigNum_Spec
    Stack
begin

text \<open>
  The temporaries of \<open>crypto/fipsmodule/bn/ctx.c\<close>: a stack of reusable numbers and a stack of
  frames.  A \<open>BIGNUM *\<close> of the context is an index into \<open>ctx_heap\<close>, the numbers it has
  allocated; \<open>ctx_bignums\<close> is the pointer stack of \<open>Stack\<close>.  \<open>None\<close> as the result of an
  operation is a failed assertion or a NULL dereference, which the lemmas rule out.
\<close>

section \<open>The code\<close>

record bn_stack =
  bs_indexes :: "nat list"
  bs_size :: nat

record bn_ctx =
  ctx_bignums :: "(nat, unit) stack option"
  ctx_heap :: "bignum list"
  ctx_stack :: bn_stack
  ctx_used :: nat
  ctx_error :: bool
  ctx_defer_error :: bool

abbreviation (input) BN_CTX_START_FRAMES :: nat where "BN_CTX_START_FRAMES \<equiv> 32"
abbreviation (input) sizeof_BN_CTX :: nat where "sizeof_BN_CTX \<equiv> 48"

definition BN_STACK_init :: bn_stack where
  "BN_STACK_init = \<lparr>bs_indexes = [], bs_size = 0\<rparr>"

text \<open>\<open>depth\<close> is the length of \<open>bs_indexes\<close>; the last index was pushed last.\<close>

definition BN_STACK_push :: "allocator \<Rightarrow> bn_stack \<Rightarrow> nat \<Rightarrow> bool \<times> bn_stack" where
  "BN_STACK_push al st idx =
     (let new_size = (if bs_size st \<noteq> 0 then bs_size st * 3 mod SIZE_MODULUS div 2 else BN_CTX_START_FRAMES)
      in if length (bs_indexes st) = bs_size st
         then if new_size \<le> bs_size st \<or> new_size > (SIZE_MODULUS - 1) div 8 then (False, st)
              else if \<not> OPENSSL_malloc al (new_size * 8) then (False, st)
              else (True, \<lparr>bs_indexes = bs_indexes st @ [idx], bs_size = new_size\<rparr>)
         else (True, st\<lparr>bs_indexes := bs_indexes st @ [idx]\<rparr>))"

definition BN_STACK_pop :: "bn_stack \<Rightarrow> (nat \<times> bn_stack) option" where
  "BN_STACK_pop st =
     (if \<not> length (bs_indexes st) > 0 then None
      else Some (last (bs_indexes st), st\<lparr>bs_indexes := butlast (bs_indexes st)\<rparr>))"

definition BN_CTX_new :: "allocator \<Rightarrow> bn_ctx option" where
  "BN_CTX_new al =
     (if \<not> OPENSSL_malloc al sizeof_BN_CTX then None
      else Some \<lparr>ctx_bignums = None, ctx_heap = [], ctx_stack = BN_STACK_init, ctx_used = 0,
                 ctx_error = False, ctx_defer_error = False\<rparr>)"

text \<open>The numbers that are freed.\<close>

definition BN_CTX_free :: "bn_ctx option \<Rightarrow> nat list option" where
  "BN_CTX_free ctx =
     (case ctx of
        None \<Rightarrow> Some []
      | Some ctx \<Rightarrow> if \<not> (ctx_used ctx = 0 \<or> ctx_error ctx) then None else Some (sk_pop_free (ctx_bignums ctx)))"

definition BN_CTX_start :: "allocator \<Rightarrow> bn_ctx \<Rightarrow> bn_ctx" where
  "BN_CTX_start al ctx =
     (if ctx_error ctx then ctx
      else case BN_STACK_push al (ctx_stack ctx) (ctx_used ctx) of
             (True, st) \<Rightarrow> ctx\<lparr>ctx_stack := st\<rparr>
           | (False, st) \<Rightarrow> ctx\<lparr>ctx_stack := st, ctx_error := True, ctx_defer_error := True\<rparr>)"

text \<open>A new number, when all are in use.\<close>

definition ctx_extend :: "allocator \<Rightarrow> bn_ctx \<Rightarrow> bool \<times> bn_ctx" where
  "ctx_extend al ctx =
     (if ctx_used ctx = sk_num (ctx_bignums ctx)
      then case BN_new al of
             None \<Rightarrow> (False, ctx\<lparr>ctx_error := True\<rparr>)
           | Some bn \<Rightarrow>
               (case sk_push al (ctx_bignums ctx) (Some (length (ctx_heap ctx))) of
                  (n, sk) \<Rightarrow>
                    if n = 0 then (False, ctx\<lparr>ctx_bignums := sk, ctx_error := True\<rparr>)
                    else (True, ctx\<lparr>ctx_bignums := sk, ctx_heap := ctx_heap ctx @ [bn]\<rparr>))
      else (True, ctx))"

definition BN_CTX_get :: "allocator \<Rightarrow> bn_ctx \<Rightarrow> (nat option \<times> bn_ctx) option" where
  "BN_CTX_get al ctx =
     (if ctx_error ctx then Some (None, ctx\<lparr>ctx_defer_error := False\<rparr>)
      else
        case (if ctx_bignums ctx = None
              then case sk_new_null al of
                     None \<Rightarrow> (False, ctx\<lparr>ctx_error := True\<rparr>)
                   | Some sk \<Rightarrow> (True, ctx\<lparr>ctx_bignums := Some sk\<rparr>)
              else (True, ctx)) of
          (False, ctx) \<Rightarrow> Some (None, ctx)
        | (True, ctx) \<Rightarrow>
            (case ctx_extend al ctx of
               (False, ctx) \<Rightarrow> Some (None, ctx)
             | (True, ctx) \<Rightarrow>
                 (case sk_value (ctx_bignums ctx) (ctx_used ctx) of
                    None \<Rightarrow> None
                  | Some ret \<Rightarrow>
                      Some (Some ret, ctx\<lparr>ctx_heap := (ctx_heap ctx)[ret := BN_zero (ctx_heap ctx ! ret)],
                                          ctx_used := ctx_used ctx + 1\<rparr>))))"

definition BN_CTX_end :: "bn_ctx \<Rightarrow> bn_ctx option" where
  "BN_CTX_end ctx =
     (if ctx_error ctx then Some ctx
      else case BN_STACK_pop (ctx_stack ctx) of
             None \<Rightarrow> None
           | Some (idx, st) \<Rightarrow> Some (ctx\<lparr>ctx_stack := st, ctx_used := idx\<rparr>))"

text \<open>A number of the context and writing it back.\<close>

abbreviation ctx_bn :: "bn_ctx \<Rightarrow> nat \<Rightarrow> bignum" where "ctx_bn ctx i \<equiv> ctx_heap ctx ! i"

abbreviation ctx_put :: "nat \<Rightarrow> bignum \<Rightarrow> bn_ctx \<Rightarrow> bn_ctx" where
  "ctx_put i bn ctx \<equiv> ctx\<lparr>ctx_heap := (ctx_heap ctx)[i := bn]\<rparr>"

section \<open>Frames\<close>

definition bn_stack_ok :: "nat \<Rightarrow> bn_stack \<Rightarrow> bool" where
  "bn_stack_ok n st \<longleftrightarrow> length (bs_indexes st) \<le> bs_size st \<and> (bs_size st = 0 \<or> 32 \<le> bs_size st) \<and>
     bs_size st * 8 < SIZE_MODULUS \<and> (\<forall>i \<in> set (bs_indexes st). i \<le> n)"

definition ctx_ok :: "bn_ctx \<Rightarrow> bool" where
  "ctx_ok ctx \<longleftrightarrow>
     (\<forall>bn \<in> set (ctx_heap ctx). \<not> bn_static bn \<and> bn_width bn \<le> bn_dmax bn) \<and>
     (ctx_bignums ctx = None \<longrightarrow> ctx_heap ctx = []) \<and>
     (\<forall>sk. ctx_bignums ctx = Some sk \<longrightarrow> stack_ok sk \<and> sk_list sk = map Some [0..<length (ctx_heap ctx)]) \<and>
     ctx_used ctx \<le> sk_num (ctx_bignums ctx) \<and> bn_stack_ok (sk_num (ctx_bignums ctx)) (ctx_stack ctx)"

text \<open>No failure so far, and far from the size limits.\<close>

definition ctx_ready :: "bn_ctx \<Rightarrow> bool" where
  "ctx_ready ctx \<longleftrightarrow> \<not> ctx_error ctx \<and> length (bs_indexes (ctx_stack ctx)) < 2 ^ 58 \<and> sk_num (ctx_bignums ctx) < 2 ^ 58"

lemma malloc_total: "\<forall>m. al m \<Longrightarrow> n + 8 < 2 ^ 64 \<Longrightarrow> OPENSSL_malloc al n"
  by (simp add: OPENSSL_malloc_def)

lemma BN_STACK_push_ok:
  assumes "bn_stack_ok n st" "idx \<le> n" "BN_STACK_push al st idx = (ok, st')"
  shows "bn_stack_ok n st'" "ok \<Longrightarrow> bs_indexes st' = bs_indexes st @ [idx]" "\<not> ok \<Longrightarrow> st' = st"
    "\<forall>m. al m \<Longrightarrow> length (bs_indexes st) < 2 ^ 58 \<Longrightarrow> ok"
proof -
  let ?n = "if bs_size st \<noteq> 0 then bs_size st * 3 div 2 else BN_CTX_START_FRAMES"
  have s: "length (bs_indexes st) \<le> bs_size st" "bs_size st = 0 \<or> 32 \<le> bs_size st" "bs_size st * 8 < SIZE_MODULUS"
    "\<forall>i \<in> set (bs_indexes st). i \<le> n" using assms(1) by (simp_all add: bn_stack_ok_def)
  have g: "bs_size st < ?n" "32 \<le> ?n" using s(2) by auto
  have "bs_size st * 3 mod SIZE_MODULUS = bs_size st * 3" using s(3) by (intro mod_less) simp
  note e = assms(3) [unfolded BN_STACK_push_def Let_def this]
  show "bn_stack_ok n st'" using e s g assms(2)
    by (auto simp: bn_stack_ok_def simp del: div_le_dividend split: if_splits)
  show "ok \<Longrightarrow> bs_indexes st' = bs_indexes st @ [idx]" "\<not> ok \<Longrightarrow> st' = st" using e by (auto split: if_splits)
  assume a: "\<forall>m. al m" "length (bs_indexes st) < 2 ^ 58"
  have "bs_size st * 3 div 2 \<le> bs_size st * 2" by presburger
  with a have "length (bs_indexes st) = bs_size st \<Longrightarrow> ?n * 8 + 8 < 2 ^ 64" by auto
  with malloc_total [OF a(1), of "?n * 8"] e g show ok by (auto split: if_splits)
qed


lemma BN_CTX_start_ok:
  assumes "ctx_ok ctx"
  shows "ctx_ok (BN_CTX_start al ctx)" "ctx_used (BN_CTX_start al ctx) = ctx_used ctx"
    "ctx_bignums (BN_CTX_start al ctx) = ctx_bignums ctx" "ctx_heap (BN_CTX_start al ctx) = ctx_heap ctx"
    "\<not> ctx_error (BN_CTX_start al ctx) \<Longrightarrow>
       bs_indexes (ctx_stack (BN_CTX_start al ctx)) = bs_indexes (ctx_stack ctx) @ [ctx_used ctx]"
    "\<forall>m. al m \<Longrightarrow> ctx_ready ctx \<Longrightarrow> \<not> ctx_error (BN_CTX_start al ctx)"
proof -
  obtain ok st where 1: "BN_STACK_push al (ctx_stack ctx) (ctx_used ctx) = (ok, st)" by fastforce
  have "bn_stack_ok (sk_num (ctx_bignums ctx)) (ctx_stack ctx)" "ctx_used ctx \<le> sk_num (ctx_bignums ctx)"
    using assms by (simp_all add: ctx_ok_def)
  note v = BN_STACK_push_ok [OF this 1]
  show "ctx_ok (BN_CTX_start al ctx)" "ctx_used (BN_CTX_start al ctx) = ctx_used ctx"
    "ctx_bignums (BN_CTX_start al ctx) = ctx_bignums ctx" "ctx_heap (BN_CTX_start al ctx) = ctx_heap ctx"
    using assms v(1) 1 by (auto simp: BN_CTX_start_def ctx_ok_def split: bool.splits)
  show "\<not> ctx_error (BN_CTX_start al ctx) \<Longrightarrow>
       bs_indexes (ctx_stack (BN_CTX_start al ctx)) = bs_indexes (ctx_stack ctx) @ [ctx_used ctx]"
    using v(2) 1 by (auto simp: BN_CTX_start_def split: if_splits bool.splits)
  show "\<forall>m. al m \<Longrightarrow> ctx_ready ctx \<Longrightarrow> \<not> ctx_error (BN_CTX_start al ctx)"
    using v(4) 1 by (auto simp: BN_CTX_start_def ctx_ready_def split: if_splits bool.splits)
qed

lemma bn_stack_ok_mono: "bn_stack_ok n st \<Longrightarrow> n \<le> m \<Longrightarrow> bn_stack_ok m st"
  by (auto simp: bn_stack_ok_def)

lemma sk_num_eq: "stack_ok sk \<Longrightarrow> sk_num (Some sk) = length (sk_list sk)"
  by (simp add: sk_num_def length_sk_list)

lemma ctx_extend_ok:
  assumes "ctx_ok ctx" "ctx_bignums ctx \<noteq> None" "ctx_extend al ctx = (ok, ctx')" "\<not> ctx_error ctx"
  shows "ctx_ok ctx' \<and> ctx_stack ctx' = ctx_stack ctx \<and> ctx_used ctx' = ctx_used ctx \<and> ctx_bignums ctx' \<noteq> None \<and>
    (ok \<longleftrightarrow> \<not> ctx_error ctx') \<and> (ok \<longrightarrow> ctx_used ctx < sk_num (ctx_bignums ctx')) \<and>
    sk_num (ctx_bignums ctx') \<le> sk_num (ctx_bignums ctx) + 1 \<and>
    ((\<forall>m. al m) \<and> sk_num (ctx_bignums ctx) < 2 ^ 59 \<longrightarrow> ok)"
proof (cases "ctx_used ctx = sk_num (ctx_bignums ctx)")
  case False
  with assms show ?thesis by (auto simp: ctx_extend_def ctx_ok_def)
next
  case True
  from assms obtain sk where sk: "ctx_bignums ctx = Some sk" "stack_ok sk" "sk_list sk = map Some [0..<length (ctx_heap ctx)]"
    by (auto simp: ctx_ok_def)
  have new: "BN_new al = None \<Longrightarrow> \<not> (\<forall>m. al m)" "BN_new al = Some bn \<Longrightarrow> bn = BN_init" for bn
    by (auto simp: BN_new_def OPENSSL_malloc_def split: if_splits)
  show ?thesis
  proof (cases "BN_new al")
    case None
    with True assms new(1) show ?thesis by (auto simp: ctx_extend_def ctx_ok_def)
  next
    case (Some bn)
    obtain n r where 1: "sk_insert al (Some sk) (Some (length (ctx_heap ctx))) (st_num sk) = (n, r)" by fastforce
    show ?thesis
    proof (cases "n = 0")
      case zero: True
      from sk_insert_fails [OF 1 [unfolded zero]] have r: "r = Some sk" "sk_grow al sk = None" by simp_all
      have "\<not> ((\<forall>m. al m) \<and> sk_num (ctx_bignums ctx) < 2 ^ 59)"
        using sk_grow_total [OF sk(2), of al] r(2) by (auto simp: sk sk_num_def)
      with True Some 1 zero r(1) assms sk show ?thesis by (auto simp: ctx_extend_def ctx_ok_def sk_push_def)
    next
      case False
      from sk_insert_list [OF sk(2) 1 False] obtain sk' where sk': "r = Some sk'" "stack_ok sk'"
        "sk_list sk' = sk_list sk @ [Some (length (ctx_heap ctx))]" using length_sk_list [OF sk(2)] by auto
      have e: "ctx' = ctx\<lparr>ctx_bignums := r, ctx_heap := ctx_heap ctx @ [bn]\<rparr>" "ok"
        using assms(3) True Some 1 False sk(1) by (auto simp: ctx_extend_def sk_push_def)
      have n: "sk_num (ctx_bignums ctx') = sk_num (ctx_bignums ctx) + 1"
        using sk' sk by (simp add: e sk_num_eq)
      have "ctx_ok ctx'" using assms(1) sk sk' n new(2) [OF Some]
        by (auto simp: e(1) ctx_ok_def BN_init_def less_Suc_eq intro: bn_stack_ok_mono)
      with n e True assms(4) sk'(1) show ?thesis by auto
    qed
  qed
qed

lemma BN_CTX_get_full:
  assumes "ctx_ok ctx"
  shows "\<exists>p ctx'. BN_CTX_get al ctx = Some (p, ctx') \<and> ctx_ok ctx' \<and> ctx_stack ctx' = ctx_stack ctx \<and>
    (p = None \<longleftrightarrow> ctx_error ctx') \<and> (ctx_error ctx \<longrightarrow> ctx_error ctx') \<and>
    (\<forall>i. p = Some i \<longrightarrow> i = ctx_used ctx \<and> ctx_used ctx' = Suc i \<and> i < length (ctx_heap ctx') \<and> bn_words (ctx_bn ctx' i) = [] \<and> \<not> bn_static (ctx_bn ctx' i)) \<and>
    ((\<forall>m. al m) \<and> \<not> ctx_error ctx \<and> sk_num (ctx_bignums ctx) < 2 ^ 59 \<longrightarrow>
       p \<noteq> None \<and> sk_num (ctx_bignums ctx') \<le> sk_num (ctx_bignums ctx) + 1)"
proof (cases "ctx_error ctx")
  case True
  with assms show ?thesis by (simp add: BN_CTX_get_def ctx_ok_def)
next
  case False
  obtain ok1 ctx1 where 1: "(if ctx_bignums ctx = None
              then case sk_new_null al of
                     None \<Rightarrow> (False, ctx\<lparr>ctx_error := True\<rparr>)
                   | Some sk \<Rightarrow> (True, ctx\<lparr>ctx_bignums := Some sk\<rparr>)
              else (True, ctx)) = (ok1, ctx1)" by fastforce
  have new: "sk_new_null al = Some sk \<Longrightarrow> stack_ok sk \<and> sk_list sk = [] \<and> sk_num (Some sk) = 0" for sk :: "(nat, unit) stack"
    by (auto simp: sk_new_null_def sk_new_def stack_ok_def sk_list_def sk_num_def kMinSize_def split: if_splits)
  have fails: "sk_new_null al = (None :: (nat, unit) stack option) \<Longrightarrow> \<not> (\<forall>m. al m)"
    by (auto simp: sk_new_null_def sk_new_def kMinSize_def OPENSSL_malloc_def split: if_splits)
  have ok1: "ctx_ok ctx1 \<and> ctx_stack ctx1 = ctx_stack ctx \<and> ctx_used ctx1 = ctx_used ctx \<and> (ok1 \<longleftrightarrow> \<not> ctx_error ctx1) \<and>
    (ok1 \<longrightarrow> ctx_bignums ctx1 \<noteq> None) \<and> sk_num (ctx_bignums ctx1) = sk_num (ctx_bignums ctx) \<and> ((\<forall>m. al m) \<longrightarrow> ok1)"
  proof (cases "ctx_bignums ctx")
    case None
    with 1 assms False new fails show ?thesis
      by (cases "sk_new_null al :: (nat, unit) stack option") (auto simp: ctx_ok_def sk_num_def)
  next
    case (Some sk)
    with 1 assms False show ?thesis by auto
  qed
  note e = BN_CTX_get_def [of al ctx, unfolded 1 if_not_P [OF False] prod.case]
  show ?thesis
  proof (cases ok1)
    case no: False
    with e ok1 show ?thesis by auto
  next
    case yes: True
    obtain ok2 ctx2 where 2: "ctx_extend al ctx1 = (ok2, ctx2)" by fastforce
    have v: "ctx_ok ctx2" "ctx_stack ctx2 = ctx_stack ctx1" "ctx_used ctx2 = ctx_used ctx1" "ctx_bignums ctx2 \<noteq> None"
      "ok2 \<longleftrightarrow> \<not> ctx_error ctx2" "ok2 \<Longrightarrow> ctx_used ctx1 < sk_num (ctx_bignums ctx2)"
      "sk_num (ctx_bignums ctx2) \<le> sk_num (ctx_bignums ctx1) + 1"
      "(\<forall>m. al m) \<and> sk_num (ctx_bignums ctx1) < 2 ^ 59 \<Longrightarrow> ok2"
      using ctx_extend_ok [OF _ _ 2] ok1 yes by blast+
    show ?thesis
    proof (cases ok2)
      case no: False
      with e 2 yes ok1 v show ?thesis by auto
    next
      case ok2: True
      from v(4) obtain sk where sk: "ctx_bignums ctx2 = Some sk" by auto
      with v(1) have st: "stack_ok sk" and ids: "sk_list sk = map Some [0..<length (ctx_heap ctx2)]"
        by (simp_all add: ctx_ok_def)
      have u: "ctx_used ctx2 < length (sk_list sk)" "ctx_used ctx2 < st_num sk"
        using v(3,6) ok2 sk length_sk_list [OF st] by (simp_all add: sk_num_def)
      then obtain i where i: "sk_list sk ! ctx_used ctx2 = Some i" "i < length (ctx_heap ctx2)" "i = ctx_used ctx2" using ids by simp
      then have "st_data sk ! ctx_used ctx2 = Some i" using u by (simp add: sk_list_def)
      then have val: "sk_value (ctx_bignums ctx2) (ctx_used ctx2) = Some i" using u sk by (simp add: sk_value_def)
      let ?c = "ctx2\<lparr>ctx_heap := (ctx_heap ctx2)[i := BN_zero (ctx_heap ctx2 ! i)], ctx_used := ctx_used ctx2 + 1\<rparr>"
      have get: "BN_CTX_get al ctx = Some (Some i, ?c)" using e yes 2 ok2 val by simp
      have hi: "\<not> bn_static (ctx_heap ctx2 ! i)" using v(1) i(2) nth_mem by (auto simp: ctx_ok_def)
      have "ctx_ok ?c" using v(1) u sk i(2) hi length_sk_list [OF st]
        by (auto simp: ctx_ok_def BN_zero_def sk_num_def dest!: set_update_subset_insert [THEN subsetD])
      with get i(2,3) v ok1 ok2 hi False show ?thesis by (simp add: BN_zero_def)
    qed
  qed
qed

lemma BN_CTX_get_ok:
  assumes "ctx_ok ctx"
  shows "\<exists>p ctx'. BN_CTX_get al ctx = Some (p, ctx') \<and> ctx_ok ctx' \<and> ctx_stack ctx' = ctx_stack ctx \<and>
    (p = None \<longleftrightarrow> ctx_error ctx') \<and> (ctx_error ctx \<longrightarrow> ctx_error ctx') \<and>
    (\<forall>i. p = Some i \<longrightarrow> i < length (ctx_heap ctx') \<and> bn_words (ctx_bn ctx' i) = [] \<and> \<not> bn_static (ctx_bn ctx' i)) \<and>
    ((\<forall>m. al m) \<and> \<not> ctx_error ctx \<and> sk_num (ctx_bignums ctx) < 2 ^ 59 \<longrightarrow>
       p \<noteq> None \<and> sk_num (ctx_bignums ctx') \<le> sk_num (ctx_bignums ctx) + 1)"
  by (rule ex_forward [OF BN_CTX_get_full [OF assms, of al]], erule ex_forward) (elim conjE, intro conjI, simp_all)

text \<open>A frame is handed the next numbers of the stack, so no two that it uses are the same.\<close>

lemma BN_CTX_get_index:
  assumes "ctx_ok ctx" "BN_CTX_get al ctx = Some (Some i, ctx')"
  shows "i = ctx_used ctx \<and> ctx_used ctx' = Suc i"
  using BN_CTX_get_full [OF assms(1), of al] assms(2) by auto

lemma BN_CTX_end_ok:
  assumes "ctx_ok ctx" "\<not> ctx_error ctx \<Longrightarrow> bs_indexes (ctx_stack ctx) = is @ [i]"
  shows "\<exists>ctx'. BN_CTX_end ctx = Some ctx' \<and> ctx_ok ctx' \<and> ctx_error ctx' = ctx_error ctx \<and> ctx_heap ctx' = ctx_heap ctx \<and>
    (\<not> ctx_error ctx' \<longrightarrow> ctx_used ctx' = i \<and> bs_indexes (ctx_stack ctx') = is)"
  using assms by (auto simp: BN_CTX_end_def BN_STACK_pop_def ctx_ok_def bn_stack_ok_def)

lemma ctx_put_ok:
  "ctx_ok ctx \<Longrightarrow> \<not> bn_static bn \<Longrightarrow> bn_width bn \<le> bn_dmax bn \<Longrightarrow> ctx_ok (ctx_put i bn ctx)"
  by (auto simp: ctx_ok_def dest!: set_update_subset_insert [THEN subsetD])

text \<open>A frame: what runs between its start and its end leaves the frames below alone.\<close>

definition frame_ok :: "bn_ctx \<Rightarrow> bn_ctx \<Rightarrow> bool" where
  "frame_ok ctx ctx' \<longleftrightarrow> ctx_ok ctx' \<and>
     (\<not> ctx_error ctx' \<longrightarrow> ctx_used ctx' = ctx_used ctx \<and> bs_indexes (ctx_stack ctx') = bs_indexes (ctx_stack ctx))"

lemma BN_CTX_frame:
  assumes "ctx_ok ctx" "ctx_ok c" "ctx_stack c = ctx_stack (BN_CTX_start al ctx)"
    "ctx_error (BN_CTX_start al ctx) \<Longrightarrow> ctx_error c"
  shows "\<exists>ctx'. BN_CTX_end c = Some ctx' \<and> frame_ok ctx ctx' \<and> ctx_error ctx' = ctx_error c"
proof -
  have "\<not> ctx_error c \<Longrightarrow> bs_indexes (ctx_stack c) = bs_indexes (ctx_stack ctx) @ [ctx_used ctx]"
    using BN_CTX_start_ok(5) [OF assms(1), of al] assms(3,4) by auto
  from BN_CTX_end_ok [OF assms(2) this] show ?thesis by (auto simp: frame_ok_def)
qed

lemma frame_ok_refl: "ctx_ok ctx \<Longrightarrow> frame_ok ctx ctx"
  by (simp add: frame_ok_def)

end
