(* ===== verification/BigNum_Mul.thy ===== *)
theory BigNum_Mul
  imports
    BnCtx
begin

text \<open>
  Multiplication and squaring of numbers (\<open>crypto/fipsmodule/bn/mul.c\<close>), with the choice among
  the routines of \<open>Limbs_Mul\<close> and \<open>Karatsuba\<close>, the temporaries and the allocations.  \<open>aliased\<close> says
  whether \<open>r\<close> is one of the inputs.  \<open>None\<close> is a failed assertion or \<open>abort\<close>.
\<close>

section \<open>The code\<close>

definition bn_abs_sub_consttime ::
  "(nat \<Rightarrow> allocator) \<Rightarrow> bignum \<Rightarrow> bignum \<Rightarrow> bignum \<Rightarrow> bn_ctx \<Rightarrow> (bool \<times> bignum \<times> bn_ctx) option" where
  "bn_abs_sub_consttime als r a b ctx =
     (let cl = (if bn_width a < bn_width b then bn_width a else bn_width b);
          dl = int (bn_width a) - int (bn_width b);
          r_len = (if bn_width a < bn_width b then bn_width b else bn_width a);
          ctx = BN_CTX_start (als 0) ctx
      in case BN_CTX_get (als 1) ctx of
           None \<Rightarrow> None
         | Some (tmp, ctx) \<Rightarrow>
             (case (case tmp of
                      None \<Rightarrow> (False, r, ctx)
                    | Some tmp \<Rightarrow>
                        (case bn_wexpand (als 2) r_len r of
                           (False, r) \<Rightarrow> (False, r, ctx)
                         | (True, r) \<Rightarrow>
                             (case bn_wexpand (als 3) r_len (ctx_bn ctx tmp) of (ok, t) \<Rightarrow> (ok, r, ctx_put tmp t ctx)))) of
                (ok, r, ctx) \<Rightarrow>
                  let r = (if ok then r\<lparr>bn_words := fst (bn_abs_sub_part_words (bn_words a) (bn_words b) cl dl)\<rparr> else r)
                  in map_option (\<lambda>ctx. (ok, r, ctx)) (BN_CTX_end ctx)))"

text \<open>The part of \<open>bn_mul_impl\<close> that computes the product into \<open>rr\<close>.\<close>

definition bn_mul_rr ::
  "(nat \<Rightarrow> allocator) \<Rightarrow> bignum \<Rightarrow> bignum \<Rightarrow> bignum \<Rightarrow> bn_ctx \<Rightarrow> (bool \<times> bignum \<times> bn_ctx) option" where
  "bn_mul_rr als rr a b ctx =
     (let rr = rr\<lparr>bn_neg := (bn_neg a \<noteq> bn_neg b)\<rparr>; bl = bn_width b; al' = bn_width a;
          i = int al' - int bl; top' = al' + bl
      in if i = 0 \<and> al' = 8
         then case bn_wexpand (als 0) 16 rr of
                (False, rr) \<Rightarrow> Some (False, rr, ctx)
              | (True, rr) \<Rightarrow> Some (True, rr\<lparr>bn_words := bn_mul_comba8 (bn_words a) (bn_words b)\<rparr>, ctx)
         else if (al' \<ge> 16 \<and> bl \<ge> 16) \<and> -1 \<le> i \<and> i \<le> 1
         then
           let j = BN_num_bits_word (of_nat (if i \<ge> 0 then al' else bl)); j = 2 ^ (j - 1)
           in if \<not> (j \<le> al' \<or> j \<le> bl) then None
              else
                case BN_CTX_get (als 0) ctx of
                  None \<Rightarrow> None
                | Some (None, ctx) \<Rightarrow> Some (False, rr, ctx)
                | Some (Some t, ctx) \<Rightarrow>
                    if al' > j \<or> bl > j
                    then if \<not> (al' \<ge> j \<and> bl \<ge> j) then None
                         else case bn_wexpand (als 1) (j * 8) (ctx_bn ctx t) of
                                (False, t') \<Rightarrow> Some (False, rr, ctx_put t t' ctx)
                              | (True, t') \<Rightarrow>
                                  (case bn_wexpand (als 2) (j * 4) rr of
                                     (False, rr) \<Rightarrow> Some (False, rr, ctx_put t t' ctx)
                                   | (True, rr) \<Rightarrow>
                                       map_option (\<lambda>d. (True, rr\<lparr>bn_words := take top' d\<rparr>, ctx_put t t' ctx))
                                         (bn_mul_part_recursive (bn_words a) (bn_words b) j (al' - j) (bl - j)))
                    else case bn_wexpand (als 1) (j * 4) (ctx_bn ctx t) of
                           (False, t') \<Rightarrow> Some (False, rr, ctx_put t t' ctx)
                         | (True, t') \<Rightarrow>
                             (case bn_wexpand (als 2) (j * 2) rr of
                                (False, rr) \<Rightarrow> Some (False, rr, ctx_put t t' ctx)
                              | (True, rr) \<Rightarrow>
                                  map_option (\<lambda>d. (True, rr\<lparr>bn_words := take top' d\<rparr>, ctx_put t t' ctx))
                                    (bn_mul_recursive (bn_words a) (bn_words b) j (int al' - int j) (int bl - int j)))
         else case bn_wexpand (als 0) top' rr of
                (False, rr) \<Rightarrow> Some (False, rr, ctx)
              | (True, rr) \<Rightarrow> Some (True, rr\<lparr>bn_words := bn_mul_normal (bn_words a) (bn_words b)\<rparr>, ctx))"

definition bn_mul_impl ::
  "(nat \<Rightarrow> allocator) \<Rightarrow> bool \<Rightarrow> bignum \<Rightarrow> bignum \<Rightarrow> bignum \<Rightarrow> bn_ctx \<Rightarrow> (bool \<times> bignum \<times> bn_ctx) option" where
  "bn_mul_impl als aliased r a b ctx =
     (if bn_width a = 0 \<or> bn_width b = 0 then Some (True, BN_zero r, ctx)
      else
        let ctx = BN_CTX_start (als 0) ctx
        in case (if aliased
                 then case BN_CTX_get (als 1) ctx of
                        None \<Rightarrow> None
                      | Some (None, ctx) \<Rightarrow> Some (False, r, ctx)
                      | Some (Some i, ctx) \<Rightarrow>
                          (case bn_mul_rr (\<lambda>k. als (k + 3)) (ctx_bn ctx i) a b ctx of
                             None \<Rightarrow> None
                           | Some (False, rr, ctx) \<Rightarrow> Some (False, r, ctx_put i rr ctx)
                           | Some (True, rr, ctx) \<Rightarrow>
                               (case BN_copy (als 2) r rr of (ok, r) \<Rightarrow> Some (ok, r, ctx_put i rr ctx)))
                 else bn_mul_rr (\<lambda>k. als (k + 3)) r a b ctx) of
             None \<Rightarrow> None
           | Some (ret, r, ctx) \<Rightarrow> map_option (\<lambda>ctx. (ret, r, ctx)) (BN_CTX_end ctx))"

definition BN_mul ::
  "(nat \<Rightarrow> allocator) \<Rightarrow> bool \<Rightarrow> bignum \<Rightarrow> bignum \<Rightarrow> bignum \<Rightarrow> bn_ctx \<Rightarrow> (bool \<times> bignum \<times> bn_ctx) option" where
  "BN_mul als aliased r a b ctx =
     (case bn_mul_impl als aliased r a b ctx of
        None \<Rightarrow> None
      | Some (False, r, ctx) \<Rightarrow> Some (False, r, ctx)
      | Some (True, r, ctx) \<Rightarrow> Some (True, bn_set_minimal_width r, ctx))"

definition bn_mul_consttime ::
  "(nat \<Rightarrow> allocator) \<Rightarrow> bool \<Rightarrow> bignum \<Rightarrow> bignum \<Rightarrow> bignum \<Rightarrow> bn_ctx \<Rightarrow> (bool \<times> bignum \<times> bn_ctx) option" where
  "bn_mul_consttime als aliased r a b ctx =
     (if bn_neg a \<or> bn_neg b then Some (False, r, ctx) else bn_mul_impl als aliased r a b ctx)"

definition bn_mul_small :: "nat \<Rightarrow> u64 list \<Rightarrow> u64 list \<Rightarrow> u64 list option" where
  "bn_mul_small num_r a b =
     (if num_r \<noteq> length a + length b then None
      else if length a = 8 \<and> length b = 8 then Some (bn_mul_comba8 a b)
      else Some (bn_mul_normal a b))"

definition BN_mul_word :: "allocator \<Rightarrow> bignum \<Rightarrow> u64 \<Rightarrow> bool \<times> bignum" where
  "BN_mul_word al bn w =
     (if bn_width bn = 0 then (True, bn)
      else if w = 0 then (True, BN_zero bn)
      else case bn_mul_words (bn_words bn) w of
             (d, ll) \<Rightarrow>
               let bn = bn\<lparr>bn_words := d\<rparr>
               in if ll \<noteq> 0
                  then case bn_wexpand al (bn_width bn + 1) bn of
                         (False, bn) \<Rightarrow> (False, bn)
                       | (True, bn) \<Rightarrow> (True, bn\<lparr>bn_words := bn_words bn @ [ll]\<rparr>)
                  else (True, bn))"

text \<open>The part of \<open>bn_sqr_consttime\<close> that computes the square into \<open>rr\<close>, with the temporary \<open>t\<close>.\<close>

definition bn_sqr_rr ::
  "(nat \<Rightarrow> allocator) \<Rightarrow> bignum \<Rightarrow> bignum \<Rightarrow> nat \<Rightarrow> bn_ctx \<Rightarrow> (bool \<times> bignum \<times> bn_ctx) option" where
  "bn_sqr_rr als rr a t ctx =
     (let n = bn_width a; m = 2 * n; done = (\<lambda>rr ctx d. (True, rr\<lparr>bn_neg := False, bn_words := d\<rparr>, ctx))
      in case bn_wexpand (als 0) m rr of
           (False, rr) \<Rightarrow> Some (False, rr, ctx)
         | (True, rr) \<Rightarrow>
             if n = 4 then Some (done rr ctx (bn_sqr_comba4 (bn_words a)))
             else if n = 8 then Some (done rr ctx (bn_sqr_comba8 (bn_words a)))
             else if n < 16 then Some (done rr ctx (bn_sqr_normal (bn_words a)))
             else if is_power_of_2 n
             then case bn_wexpand (als 1) (n * 4) (ctx_bn ctx t) of
                    (False, t') \<Rightarrow> Some (False, rr, ctx_put t t' ctx)
                  | (True, t') \<Rightarrow> map_option (done rr (ctx_put t t' ctx)) (bn_sqr_recursive (bn_words a) n)
             else case bn_wexpand (als 1) m (ctx_bn ctx t) of
                    (False, t') \<Rightarrow> Some (False, rr, ctx_put t t' ctx)
                  | (True, t') \<Rightarrow> Some (done rr (ctx_put t t' ctx) (bn_sqr_normal (bn_words a))))"

definition bn_sqr_consttime ::
  "(nat \<Rightarrow> allocator) \<Rightarrow> bool \<Rightarrow> bignum \<Rightarrow> bignum \<Rightarrow> bn_ctx \<Rightarrow> (bool \<times> bignum \<times> bn_ctx) option" where
  "bn_sqr_consttime als aliased r a ctx =
     (if bn_width a = 0 then Some (True, r\<lparr>bn_words := [], bn_neg := False\<rparr>, ctx)
      else
        let ctx = BN_CTX_start (als 0) ctx
        in case (if aliased
                 then case BN_CTX_get (als 1) ctx of
                        None \<Rightarrow> None
                      | Some (rr, ctx) \<Rightarrow>
                          (case BN_CTX_get (als 2) ctx of
                             None \<Rightarrow> None
                           | Some (tmp, ctx) \<Rightarrow>
                               (case (rr, tmp) of
                                  (Some i, Some t) \<Rightarrow>
                                    (case bn_sqr_rr (\<lambda>k. als (k + 4)) (ctx_bn ctx i) a t ctx of
                                       None \<Rightarrow> None
                                     | Some (False, rr, ctx) \<Rightarrow> Some (False, r, ctx_put i rr ctx)
                                     | Some (True, rr, ctx) \<Rightarrow>
                                         (case BN_copy (als 3) r rr of (ok, r) \<Rightarrow> Some (ok, r, ctx_put i rr ctx)))
                                | _ \<Rightarrow> Some (False, r, ctx)))
                 else case BN_CTX_get (als 1) ctx of
                        None \<Rightarrow> None
                      | Some (None, ctx) \<Rightarrow> Some (False, r, ctx)
                      | Some (Some t, ctx) \<Rightarrow> bn_sqr_rr (\<lambda>k. als (k + 4)) r a t ctx) of
             None \<Rightarrow> None
           | Some (ret, r, ctx) \<Rightarrow> map_option (\<lambda>ctx. (ret, r, ctx)) (BN_CTX_end ctx))"

definition BN_sqr :: "(nat \<Rightarrow> allocator) \<Rightarrow> bool \<Rightarrow> bignum \<Rightarrow> bignum \<Rightarrow> bn_ctx \<Rightarrow> (bool \<times> bignum \<times> bn_ctx) option" where
  "BN_sqr als aliased r a ctx =
     (case bn_sqr_consttime als aliased r a ctx of
        None \<Rightarrow> None
      | Some (False, r, ctx) \<Rightarrow> Some (False, r, ctx)
      | Some (True, r, ctx) \<Rightarrow> Some (True, bn_set_minimal_width r, ctx))"

abbreviation (input) BN_SMALL_MAX_WORDS :: nat where "BN_SMALL_MAX_WORDS \<equiv> 9"

definition bn_sqr_small :: "nat \<Rightarrow> u64 list \<Rightarrow> u64 list option" where
  "bn_sqr_small num_r a =
     (if num_r \<noteq> 2 * length a \<or> length a > BN_SMALL_MAX_WORDS then None
      else if length a = 4 then Some (bn_sqr_comba4 a)
      else if length a = 8 then Some (bn_sqr_comba8 a)
      else Some (bn_sqr_normal a))"

section \<open>What it computes\<close>

lemma bn_room_neg [simp]: "bn_room al n (bn\<lparr>bn_neg := s\<rparr>) = bn_room al n bn"
  by (simp add: bn_room_def)

lemma bn_room_total: "\<forall>m. al m \<Longrightarrow> \<not> bn_static bn \<Longrightarrow> n \<le> 8388607 \<Longrightarrow> bn_room al n bn"
  by (simp add: bn_room_def malloc_total)

lemma words_val_take:
  assumes "words_val d < radix ^ n" "n \<le> length d"
  shows "words_val (take n d) = words_val d"
proof -
  have e: "words_val d = words_val (take n d) + radix ^ n * words_val (drop n d)"
    using words_val_take_drop [of d n] assms(2) by (simp add: min_def)
  have "words_val (drop n d) = 0"
  proof (rule ccontr)
    assume "words_val (drop n d) \<noteq> 0"
    then have "1 \<le> words_val (drop n d)" using words_val_nonneg [of "drop n d"] by linarith
    then have "radix ^ n * 1 \<le> radix ^ n * words_val (drop n d)" by (intro mult_left_mono) simp_all
    with e assms(1) words_val_nonneg [of "take n d"] show False by linarith
  qed
  with e show ?thesis by simp
qed

lemma product_take:
  assumes "words_val d = words_val x * words_val y" "length x + length y \<le> length d"
  shows "length (take (length x + length y) d) = length x + length y"
    "words_val (take (length x + length y) d) = words_val x * words_val y"
proof -
  have "words_val x * words_val y < radix ^ length x * radix ^ length y"
    using words_val_bound [of x] words_val_bound [of y] by (intro mult_strict_mono') simp_all
  then show "words_val (take (length x + length y) d) = words_val x * words_val y"
    using words_val_take [of d "length x + length y"] assms by (simp add: power_add)
  show "length (take (length x + length y) d) = length x + length y" using assms(2) by simp
qed

text \<open>The power of two below the larger length, and the two Karatsuba routines at it.\<close>

lemma mul_split_length:
  assumes "16 \<le> n" "n < 2 ^ 31" "j = 2 ^ (BN_num_bits_word (of_nat n) - 1)"
  shows "\<exists>k. j = 2 ^ k" "j \<le> n" "n < 2 * j" "16 \<le> j"
proof -
  have n: "unat (of_nat n :: u64) = n" using assms(2) by (simp add: unsigned_of_nat take_bit_nat_eq_self)
  with assms(1) have "(of_nat n :: u64) \<noteq> 0" by (metis not_numeral_le_zero unat_0)
  from BN_num_bits_word_value [OF this] n obtain m where m: "BN_num_bits_word (of_nat n) = Suc m" "2 ^ m \<le> n" "n < 2 * 2 ^ m" by auto
  then have j: "j = 2 ^ m" by (simp add: assms(3))
  with m show "\<exists>k. j = 2 ^ k" "j \<le> n" "n < 2 * j" by auto
  have "\<not> m < 4"
  proof
    assume "m < 4"
    then have "(2 :: nat) ^ Suc m \<le> 2 ^ 4" by (intro power_increasing) simp_all
    with m assms(1) show False by simp
  qed
  then have "(2 :: nat) ^ 4 \<le> 2 ^ m" by (intro power_increasing) simp_all
  then show "16 \<le> j" by (simp add: j)
qed

text \<open>What the two functions above leave in \<open>rr\<close>: the number of \<open>n\<close> words with value \<open>v\<close> and
  sign \<open>s\<close>, or, without success, whatever \<open>rr\<close> had.\<close>

definition product_into :: "bignum \<Rightarrow> nat \<Rightarrow> int \<Rightarrow> bool \<Rightarrow> bn_ctx \<Rightarrow> bool \<Rightarrow> bignum \<Rightarrow> bn_ctx \<Rightarrow> bool" where
  "product_into rr n v s ctx ok rr' ctx' \<longleftrightarrow>
     ctx_ok ctx' \<and> ctx_stack ctx' = ctx_stack ctx \<and> bn_static rr' = bn_static rr \<and>
     (bn_width rr \<le> bn_dmax rr \<longrightarrow> bn_width rr' \<le> bn_dmax rr') \<and>
     (ok \<longrightarrow> bn_abs rr' = v \<and> bn_neg rr' = s \<and> bn_width rr' = n \<and> n \<le> bn_dmax rr') \<and>
     (ctx_error ctx \<longrightarrow> ctx_error ctx') \<and> (ok \<longrightarrow> ctx_error ctx' = ctx_error ctx)"

lemma product_done:
  assumes "ctx_ok ctx'" "ctx_stack ctx' = ctx_stack ctx" "ctx_error ctx' = ctx_error ctx"
    "length d = n" "words_val d = v" "n \<le> m"
  shows "product_into rr n v s ctx True (rr\<lparr>bn_neg := s, bn_dmax := max m (bn_dmax rr), bn_words := d\<rparr>) ctx'"
  using assms by (auto simp: product_into_def bn_abs_def)

lemma product_failed:
  assumes "ctx_ok ctx'" "ctx_stack ctx' = ctx_stack ctx" "ctx_error ctx \<Longrightarrow> ctx_error ctx'"
  shows "product_into rr n v s ctx False (rr\<lparr>bn_neg := s\<rparr>) ctx'"
  using assms by (simp add: product_into_def)

lemma bn_mul_rr_ok:
  assumes "ctx_ok ctx" "bn_width a < 2 ^ 31" "bn_width b < 2 ^ 31"
  shows "\<exists>ok rr' ctx'. bn_mul_rr als rr a b ctx = Some (ok, rr', ctx') \<and>
    product_into rr (bn_width a + bn_width b) (bn_abs a * bn_abs b) (bn_neg a \<noteq> bn_neg b) ctx ok rr' ctx' \<and>
    ((\<forall>k m. als k m) \<and> \<not> ctx_error ctx \<and> sk_num (ctx_bignums ctx) < 2 ^ 59 \<and> \<not> bn_static rr \<and>
      bn_width a < 2 ^ 20 \<and> bn_width b < 2 ^ 20 \<longrightarrow> ok)"
proof -
  let ?x = "bn_words a" and ?y = "bn_words b" and ?s = "bn_neg a \<noteq> bn_neg b"
  let ?al = "bn_width a" and ?bl = "bn_width b"
  let ?i = "int ?al - int ?bl"
  let ?P = "product_into rr (?al + ?bl) (bn_abs a * bn_abs b) ?s ctx"
  let ?r1 = "rr\<lparr>bn_neg := ?s\<rparr>"
  let ?r = "\<lambda>m d. rr\<lparr>bn_neg := ?s, bn_dmax := max m (bn_dmax rr), bn_words := d\<rparr>"
  note e = bn_mul_rr_def [of als rr a b ctx, unfolded Let_def]
  have fill: "?P True (?r m d) c" if "ctx_ok c" "ctx_stack c = ctx_stack ctx" "ctx_error c = ctx_error ctx"
      "length d = ?al + ?bl" "words_val d = words_val ?x * words_val ?y" "?al + ?bl \<le> m" for m d c
    using that unfolding bn_abs_def by (rule product_done)
  consider (comba) "?i = 0 \<and> ?al = 8"
    | (karatsuba) "\<not> (?i = 0 \<and> ?al = 8)" "(?al \<ge> 16 \<and> ?bl \<ge> 16) \<and> -1 \<le> ?i \<and> ?i \<le> 1"
    | (normal) "\<not> (?i = 0 \<and> ?al = 8)" "\<not> ((?al \<ge> 16 \<and> ?bl \<ge> 16) \<and> -1 \<le> ?i \<and> ?i \<le> 1)" by blast
  then show ?thesis
  proof cases
    case comba
    then have l: "length ?x = 8" "length ?y = 8" by simp_all
    note v = bn_mul_comba8_value [OF l] and e = e [unfolded if_P [OF comba] bn_wexpand_room bn_room_neg]
    show ?thesis
    proof (cases "bn_room (als 0) 16 rr")
      case True
      have "?P True (?r 16 (bn_mul_comba8 ?x ?y)) ctx" using v l by (intro fill assms(1)) simp_all
      moreover have "bn_mul_rr als rr a b ctx = Some (True, ?r 16 (bn_mul_comba8 ?x ?y), ctx)" using e True by simp
      ultimately show ?thesis by blast
    next
      case False
      with e have "bn_mul_rr als rr a b ctx = Some (False, ?r1, ctx)" by simp
      with product_failed [OF assms(1) refl, of rr] False bn_room_total [of "als 0" rr 16] show ?thesis by auto
    qed
  next
    case normal
    note v = bn_mul_normal_value [of ?x ?y] and e = e [unfolded if_not_P [OF normal(1)] if_not_P [OF normal(2)] bn_wexpand_room bn_room_neg]
    show ?thesis
    proof (cases "bn_room (als 0) (?al + ?bl) rr")
      case True
      have "?P True (?r (?al + ?bl) (bn_mul_normal ?x ?y)) ctx" using v by (intro fill assms(1)) simp_all
      moreover have "bn_mul_rr als rr a b ctx = Some (True, ?r (?al + ?bl) (bn_mul_normal ?x ?y), ctx)" using e True by simp
      ultimately show ?thesis by blast
    next
      case False
      with e have "bn_mul_rr als rr a b ctx = Some (False, ?r1, ctx)" by simp
      with product_failed [OF assms(1) refl, of rr] False bn_room_total [of "als 0" rr "?al + ?bl"] show ?thesis by auto
    qed
  next
    case karatsuba
    define j where "j = (2 :: nat) ^ (BN_num_bits_word (of_nat (if ?i \<ge> 0 then ?al else ?bl)) - 1)"
    have j: "\<exists>k. j = 2 ^ k" "j \<le> max ?al ?bl" "max ?al ?bl < 2 * j" "16 \<le> j"
      using mul_split_length [of "max ?al ?bl" j] karatsuba assms(2,3) by (auto simp: j_def max_def split: if_splits)
    then obtain k where k: "j = 2 ^ k" by blast
    have big: "\<not> \<not> (j \<le> ?al \<or> j \<le> ?bl)" using j(2) by (simp add: max_def split: if_splits)
    note e = e [folded j_def, unfolded if_not_P [OF karatsuba(1)] if_P [OF karatsuba(2)] if_not_P [OF big]]
    obtain p c where get: "BN_CTX_get (als 0) ctx = Some (p, c)" and c: "ctx_ok c" "ctx_stack c = ctx_stack ctx" "p = None \<longleftrightarrow> ctx_error c"
      "\<And>t. p = Some t \<Longrightarrow> t < length (ctx_heap c) \<and> bn_words (ctx_bn c t) = [] \<and> \<not> bn_static (ctx_bn c t)"
      "(\<forall>k m. als k m) \<and> \<not> ctx_error ctx \<and> sk_num (ctx_bignums ctx) < 2 ^ 59 \<Longrightarrow> p \<noteq> None"
      "ctx_error ctx \<Longrightarrow> ctx_error c"
      using BN_CTX_get_ok [OF assms(1), of "als 0"] by blast
    show ?thesis
    proof (cases p)
      case None
      with e get have "bn_mul_rr als rr a b ctx = Some (False, ?r1, c)" by simp
      with product_failed [OF c(1,2,6)] c(5) None show ?thesis by blast
    next
      case (Some t)
      have small: "j * 8 \<le> 8388607" if "?al < 2 ^ 20 \<and> ?bl < 2 ^ 20"
      proof -
        from that have "(2 :: nat) ^ k < 2 ^ 20" using j(2) k by (auto simp: max_def split: if_splits)
        then have "k \<le> 19" using power_less_imp_less_exp [of "2 :: nat" k 20] by simp
        then have "(2 :: nat) ^ k \<le> 2 ^ 19" by (intro power_increasing) simp_all
        then show ?thesis by (simp add: k)
      qed
      have fin: ?thesis
        if rec: "bn_mul_rr als rr a b ctx =
            (case bn_wexpand (als 1) m1 (ctx_bn c t) of
               (False, t') \<Rightarrow> Some (False, ?r1, ctx_put t t' c)
             | (True, t') \<Rightarrow>
                 (case bn_wexpand (als 2) m2 ?r1 of
                    (False, rr) \<Rightarrow> Some (False, rr, ctx_put t t' c)
                  | (True, rr) \<Rightarrow> map_option (\<lambda>d. (True, rr\<lparr>bn_words := take (?al + ?bl) d\<rparr>, ctx_put t t' c)) (Some d)))"
          and m: "m1 \<le> j * 8" "m2 \<le> j * 4" "?al + ?bl \<le> m2"
          and d: "words_val d = words_val ?x * words_val ?y" "length d = m2" for m1 m2 d
      proof -
        define t' where "t' = snd (bn_wexpand (als 1) m1 (ctx_bn c t))"
        have put: "ctx_ok (ctx_put t t' c)" "ctx_stack (ctx_put t t' c) = ctx_stack ctx" "ctx_error (ctx_put t t' c) = ctx_error ctx"
          using c(1-3) c(4) [OF Some] c(6) Some by (auto simp: t'_def bn_wexpand_room intro!: ctx_put_ok)
        have room: "bn_room (als 1) m1 (ctx_bn c t) \<and> bn_room (als 2) m2 rr"
          if "(\<forall>k m. als k m) \<and> \<not> bn_static rr \<and> ?al < 2 ^ 20 \<and> ?bl < 2 ^ 20"
          using that small m c(4) [OF Some] by (intro conjI bn_room_total) simp_all
        note tk = product_take [OF d(1)]
        have rec: "bn_mul_rr als rr a b ctx =
            (if bn_room (als 1) m1 (ctx_bn c t) \<and> bn_room (als 2) m2 rr
             then Some (True, ?r m2 (take (?al + ?bl) d), ctx_put t t' c) else Some (False, ?r1, ctx_put t t' c))"
          unfolding rec by (simp add: bn_wexpand_room t'_def)
        have "?P True (?r m2 (take (?al + ?bl) d)) (ctx_put t t' c)"
          using put d(2) m(3) tk by (intro fill) simp_all
        with rec product_failed [OF put(1,2), of rr] put(3) room show ?thesis by (auto split: if_splits)
      qed
      show ?thesis
      proof (cases "?al > j \<or> ?bl > j")
        case True
        with karatsuba have ge: "\<not> \<not> (?al \<ge> j \<and> ?bl \<ge> j)" by auto
        have "\<exists>d. bn_mul_part_recursive ?x ?y j (?al - j) (?bl - j) = Some d \<and> length d = 4 * j \<and> words_val d = words_val ?x * words_val ?y"
          using ge j karatsuba by (intro bn_mul_part_recursive_value [OF k]) auto
        then obtain d where d: "bn_mul_part_recursive ?x ?y j (?al - j) (?bl - j) = Some d" "length d = j * 4" "words_val d = words_val ?x * words_val ?y" by auto
        show ?thesis
          by (rule fin [where ?m1.0 = "j * 8" and ?m2.0 = "j * 4" and d = d, OF e [unfolded get Some prod.case option.case if_P [OF True] if_not_P [OF ge] d(1)]])
            (use d j(3) in simp_all)
      next
        case False
        with karatsuba j(2) have le: "int ?al = int j + (int ?al - int j)" "- 8 \<le> int ?al - int j" "int ?al - int j \<le> 0"
          "int ?bl = int j + (int ?bl - int j)" "- 8 \<le> int ?bl - int j" "int ?bl - int j \<le> 0" by (auto simp: max_def split: if_splits)
        obtain d where d: "bn_mul_recursive ?x ?y j (int ?al - int j) (int ?bl - int j) = Some d" "length d = j * 2" "words_val d = words_val ?x * words_val ?y"
          using bn_mul_recursive_value [OF k le(2,3,5,6,1,4)] by auto
        show ?thesis
          by (rule fin [where ?m1.0 = "j * 4" and ?m2.0 = "j * 2" and d = d, OF e [unfolded get Some prod.case option.case if_not_P [OF False] d(1)]])
            (use d False in simp_all)
      qed
    qed
  qed
qed


lemma signed_product:
  "bn_abs r = bn_abs a * bn_abs b \<Longrightarrow> bn_neg r = (bn_neg a \<noteq> bn_neg b) \<Longrightarrow> bn_val r = bn_val a * bn_val b"
  by (auto simp: bn_val_def)

text \<open>What the whole functions do: an operation on numbers within a frame of the context.\<close>

definition computes :: "int \<Rightarrow> bignum \<Rightarrow> bn_ctx \<Rightarrow> bool \<Rightarrow> bignum \<Rightarrow> bn_ctx \<Rightarrow> bool" where
  "computes v r ctx ok r' ctx' \<longleftrightarrow>
     frame_ok ctx ctx' \<and> bn_static r' = bn_static r \<and> (bn_width r \<le> bn_dmax r \<longrightarrow> bn_width r' \<le> bn_dmax r') \<and>
     (ok \<longrightarrow> bn_val r' = v \<and> bn_width r' \<le> bn_dmax r')"

text \<open>Allocation succeeds, and the sizes are far from the limits.\<close>

definition plenty :: "(nat \<Rightarrow> allocator) \<Rightarrow> bignum \<Rightarrow> bn_ctx \<Rightarrow> bool" where
  "plenty als r ctx \<longleftrightarrow> (\<forall>k m. als k m) \<and> \<not> bn_static r \<and> ctx_ready ctx"

text \<open>A frame around a computation into \<open>r\<close>, or into a temporary that is copied to \<open>r\<close>.\<close>

lemma BN_copy_room:
  "BN_copy al r rr = (bn_room al (bn_width rr) r,
     if bn_room al (bn_width rr) r
     then r\<lparr>bn_dmax := max (bn_width rr) (bn_dmax r), bn_words := bn_words rr, bn_neg := bn_neg rr\<rparr> else r)"
  by (simp add: BN_copy_def bn_wexpand_room)

lemma frame_computes:
  assumes "ctx_ok ctx" "ctx_ok c" "ctx_stack c = ctx_stack (BN_CTX_start al ctx)"
    "ctx_error (BN_CTX_start al ctx) \<Longrightarrow> ctx_error c"
    "bn_static r' = bn_static r" "bn_width r \<le> bn_dmax r \<longrightarrow> bn_width r' \<le> bn_dmax r'"
    "ok \<longrightarrow> bn_val r' = v \<and> bn_width r' \<le> bn_dmax r'"
  shows "\<exists>ctx'. map_option (\<lambda>ctx. (ok, r', ctx)) (BN_CTX_end c) = Some (ok, r', ctx') \<and>
    computes v r ctx ok r' ctx' \<and> ctx_error ctx' = ctx_error c"
  using BN_CTX_frame [OF assms(1-4)] assms(5-7) by (auto simp: computes_def)

definition copied :: "allocator \<Rightarrow> bool \<Rightarrow> bignum \<Rightarrow> bignum \<Rightarrow> bool \<times> bignum" where
  "copied al ok r rr = (if ok then BN_copy al r rr else (False, r))"

lemma frame_copy:
  assumes "ctx_ok ctx" "ctx_ok c" "ctx_stack c = ctx_stack (BN_CTX_start al ctx)"
    "ctx_error (BN_CTX_start al ctx) \<Longrightarrow> ctx_error c" "ok \<Longrightarrow> bn_val rr = v" "copied al' ok r rr = (ok', r')"
  shows "\<exists>ctx'. map_option (\<lambda>ctx. (ok', r', ctx)) (BN_CTX_end c) = Some (ok', r', ctx') \<and>
    computes v r ctx ok' r' ctx' \<and> ctx_error ctx' = ctx_error c"
proof (rule frame_computes [OF assms(1-4)])
  show "bn_static r' = bn_static r" "bn_width r \<le> bn_dmax r \<longrightarrow> bn_width r' \<le> bn_dmax r'"
    "ok' \<longrightarrow> bn_val r' = v \<and> bn_width r' \<le> bn_dmax r'"
    using assms(5,6) by (auto simp: copied_def BN_copy_room bn_val_def bn_abs_def split: if_splits)
qed

lemma bn_mul_impl_ok:
  assumes "ctx_ok ctx" "bn_width a < 2 ^ 31" "bn_width b < 2 ^ 31"
  shows "\<exists>ok r' ctx'. bn_mul_impl als aliased r a b ctx = Some (ok, r', ctx') \<and>
    computes (bn_val a * bn_val b) r ctx ok r' ctx' \<and>
    (plenty als r ctx \<and> bn_width a < 2 ^ 20 \<and> bn_width b < 2 ^ 20 \<longrightarrow> ok \<and> \<not> ctx_error ctx')"
proof (cases "bn_width a = 0 \<or> bn_width b = 0")
  case True
  have "bn_val a * bn_val b = 0" using True by (auto simp: bn_val_def bn_abs_def)
  then have "computes (bn_val a * bn_val b) r ctx True (BN_zero r) ctx"
    using frame_ok_refl [OF assms(1)] by (simp add: computes_def BN_zero_def bn_val_def bn_abs_def)
  moreover have "bn_mul_impl als aliased r a b ctx = Some (True, BN_zero r, ctx)"
    unfolding bn_mul_impl_def if_P [OF True] by (rule refl)
  moreover have "plenty als r ctx \<Longrightarrow> \<not> ctx_error ctx" by (simp add: plenty_def ctx_ready_def)
  ultimately show ?thesis by blast
next
  case False
  let ?c = "BN_CTX_start (als 0) ctx" and ?n = "bn_width a + bn_width b" and ?v = "bn_abs a * bn_abs b" and ?s = "bn_neg a \<noteq> bn_neg b"
  let ?enough = "plenty als r ctx \<and> bn_width a < 2 ^ 20 \<and> bn_width b < 2 ^ 20"
  note st = BN_CTX_start_ok [OF assms(1), of "als 0"]
  note e = bn_mul_impl_def [of als aliased r a b ctx, unfolded if_not_P [OF False] Let_def]
  have start: "?enough \<Longrightarrow> (\<forall>k m. als k m) \<and> \<not> ctx_error ?c \<and> sk_num (ctx_bignums ?c) < 2 ^ 58"
    using st(3,6) by (auto simp: plenty_def ctx_ready_def)
  show ?thesis
  proof (cases aliased)
    case not_aliased: False
    from bn_mul_rr_ok [OF st(1) assms(2,3), of "\<lambda>k. als (k + 3)" r] obtain ok rr c where
      1: "bn_mul_rr (\<lambda>k. als (k + 3)) r a b ?c = Some (ok, rr, c)" "product_into r ?n ?v ?s ?c ok rr c"
        "?enough \<Longrightarrow> ok" using start by (fastforce simp: plenty_def)
    have "ok \<longrightarrow> bn_val rr = bn_val a * bn_val b" using 1(2) by (auto simp: product_into_def intro: signed_product)
    then obtain ctx' where "map_option (\<lambda>ctx. (ok, rr, ctx)) (BN_CTX_end c) = Some (ok, rr, ctx')"
      "computes (bn_val a * bn_val b) r ctx ok rr ctx'" "ctx_error ctx' = ctx_error c"
      using frame_computes [OF assms(1), of c "als 0" rr r ok "bn_val a * bn_val b"] 1(2) by (auto simp: product_into_def)
    then show ?thesis using e not_aliased 1 start by (auto simp: product_into_def)
  next
    case aliased: True
    obtain p c where get: "BN_CTX_get (als 1) ?c = Some (p, c)" and c: "ctx_ok c" "ctx_stack c = ctx_stack ?c" "p = None \<longleftrightarrow> ctx_error c"
      "ctx_error ?c \<Longrightarrow> ctx_error c"
      "\<And>t. p = Some t \<Longrightarrow> t < length (ctx_heap c) \<and> bn_words (ctx_bn c t) = [] \<and> \<not> bn_static (ctx_bn c t)"
      "?enough \<Longrightarrow> p \<noteq> None \<and> sk_num (ctx_bignums c) < 2 ^ 59"
      using BN_CTX_get_ok [OF st(1), of "als 1"] start by fastforce
    show ?thesis
    proof (cases p)
      case None
      obtain ctx' where "map_option (\<lambda>ctx. (False, r, ctx)) (BN_CTX_end c) = Some (False, r, ctx')"
        "computes (bn_val a * bn_val b) r ctx False r ctx'"
        using frame_computes [OF assms(1) c(1,2,4), of r r False "bn_val a * bn_val b"] by auto
      then show ?thesis using e aliased get None c(6) by auto
    next
      case (Some t)
      from bn_mul_rr_ok [OF c(1) assms(2,3), of "\<lambda>k. als (k + 3)" "ctx_bn c t"] obtain ok rr c2 where
        1: "bn_mul_rr (\<lambda>k. als (k + 3)) (ctx_bn c t) a b c = Some (ok, rr, c2)" "product_into (ctx_bn c t) ?n ?v ?s c ok rr c2"
          "?enough \<Longrightarrow> ok" using start c(3,5,6) Some by (fastforce simp: plenty_def)
      let ?c2 = "ctx_put t rr c2"
      obtain ok' r' where cp: "copied (als 2) ok r rr = (ok', r')" by fastforce
      have v: "ok \<Longrightarrow> bn_val rr = bn_val a * bn_val b" using 1(2) by (auto simp: product_into_def intro: signed_product)
      have put: "ctx_ok ?c2" "ctx_stack ?c2 = ctx_stack ?c" "ctx_error ?c \<Longrightarrow> ctx_error ?c2"
        using 1(2) c(2,4) c(5) [OF Some] by (auto simp: product_into_def intro!: ctx_put_ok)
      from frame_copy [OF assms(1) put v cp] obtain ctx' where
        "map_option (\<lambda>ctx. (ok', r', ctx)) (BN_CTX_end ?c2) = Some (ok', r', ctx')"
        "computes (bn_val a * bn_val b) r ctx ok' r' ctx'" "ctx_error ctx' = ctx_error ?c2" by blast
      moreover have "bn_mul_impl als aliased r a b ctx = map_option (\<lambda>ctx. (ok', r', ctx)) (BN_CTX_end ?c2)"
        using e aliased get Some 1(1) cp by (cases ok) (simp_all add: copied_def)
      moreover have "ok' \<and> \<not> ctx_error ?c2" if enough: ?enough
      proof -
        have "ok" "\<not> ctx_error ?c2" using 1(2,3) c(3) Some enough by (auto simp: product_into_def)
        moreover have "bn_width rr \<le> 8388607" using 1(2) \<open>ok\<close> enough by (simp add: product_into_def)
        ultimately show ?thesis using cp enough bn_room_total [of "als 2" r "bn_width rr"]
          by (simp add: copied_def BN_copy_room plenty_def)
      qed
      ultimately show ?thesis by metis
    qed
  qed
qed

section \<open>Squares\<close>

lemma is_power_of_2_iff: "is_power_of_2 n \<longleftrightarrow> (\<exists>k. n = 2 ^ k)"
proof
  show "is_power_of_2 n \<Longrightarrow> \<exists>k. n = 2 ^ k"
  proof (induction n rule: less_induct)
    case (less n)
    then have n: "n \<noteq> 0" "n AND (n - 1) = 0" by (simp_all add: is_power_of_2_def)
    have r: "n AND (n - 1) = of_bool (odd n \<and> odd (n - 1)) + 2 * ((n div 2) AND ((n - 1) div 2))" by (rule and_rec)
    show ?case
    proof (cases "even n")
      case True
      then have "(n - 1) div 2 = n div 2 - 1" "n div 2 \<noteq> 0" "n div 2 < n" using n(1) by auto
      with n r have "is_power_of_2 (n div 2)" by (simp add: is_power_of_2_def)
      with less.IH \<open>n div 2 < n\<close> obtain k where "n div 2 = 2 ^ k" by blast
      with True have "n = 2 ^ Suc k" by auto
      then show ?thesis by blast
    next
      case False
      then have "(n - 1) div 2 = n div 2" by (auto elim!: oddE)
      with n(2) r have "n div 2 = 0" by simp
      with False have "n = 2 ^ 0" by (auto elim!: oddE)
      then show ?thesis by blast
    qed
  qed
qed (use is_power_of_2_exp in auto)

lemma product_failed_room:
  assumes "ctx_ok ctx'" "ctx_stack ctx' = ctx_stack ctx" "ctx_error ctx \<Longrightarrow> ctx_error ctx'"
  shows "product_into rr n v s ctx False (rr\<lparr>bn_dmax := max m (bn_dmax rr)\<rparr>) ctx'"
  using assms by (auto simp: product_into_def)

lemma bn_sqr_rr_ok:
  assumes "ctx_ok ctx" "bn_words (ctx_bn ctx t) = []" "\<not> bn_static (ctx_bn ctx t)"
  shows "\<exists>ok rr' ctx'. bn_sqr_rr als rr a t ctx = Some (ok, rr', ctx') \<and>
    product_into rr (2 * bn_width a) (bn_abs a * bn_abs a) False ctx ok rr' ctx' \<and>
    ((\<forall>k m. als k m) \<and> \<not> bn_static rr \<and> bn_width a < 2 ^ 20 \<longrightarrow> ok)"
proof -
  let ?x = "bn_words a" and ?n = "bn_width a"
  let ?P = "product_into rr (2 * ?n) (bn_abs a * bn_abs a) False ctx"
  let ?r = "\<lambda>d. rr\<lparr>bn_neg := False, bn_dmax := max (2 * ?n) (bn_dmax rr), bn_words := d\<rparr>"
  let ?r1 = "rr\<lparr>bn_dmax := max (2 * ?n) (bn_dmax rr)\<rparr>"
  note e = bn_sqr_rr_def [of als rr a t ctx, unfolded Let_def bn_wexpand_room]
  show ?thesis
  proof (cases "bn_room (als 0) (2 * ?n) rr")
    case False
    then have "bn_sqr_rr als rr a t ctx = Some (False, rr, ctx)" using e by simp
    moreover have "?P False rr ctx" using assms(1) by (simp add: product_into_def)
    moreover have "\<not> ((\<forall>k m. als k m) \<and> \<not> bn_static rr \<and> ?n < 2 ^ 20)"
    proof
      assume "(\<forall>k m. als k m) \<and> \<not> bn_static rr \<and> ?n < 2 ^ 20"
      then have "bn_room (als 0) (2 * ?n) rr" by (intro bn_room_total) simp_all
      with False show False by simp
    qed
    ultimately show ?thesis by blast
  next
    case True
    note e = e [unfolded eqTrueI [OF True] if_True prod.case bool.case]
    have fill: "?P True (?r d) c" if "length d = 2 * ?n \<and> words_val d = words_val ?x * words_val ?x" "ctx_ok c"
      "ctx_stack c = ctx_stack ctx" "ctx_error c = ctx_error ctx" for d c
      unfolding bn_abs_def by (rule product_done [OF that(2-4) that(1) [THEN conjunct1] that(1) [THEN conjunct2] order_refl])
    note fill0 = fill [OF _ assms(1) refl refl]
    define put where "put m = ctx_put t (if bn_room (als 1) m (ctx_bn ctx t) then (ctx_bn ctx t)\<lparr>bn_dmax := max m (bn_dmax (ctx_bn ctx t))\<rparr> else ctx_bn ctx t) ctx" for m
    have put: "ctx_ok (put m)" "ctx_stack (put m) = ctx_stack ctx" "ctx_error (put m) = ctx_error ctx" for m
      using assms by (auto simp: put_def intro!: ctx_put_ok)
    have failed: "?P False ?r1 (put m)" for m by (rule product_failed_room) (simp_all add: put)
    have room: "bn_room (als 1) m (ctx_bn ctx t)" if "\<forall>k m. als k m" "?n < 2 ^ 20" "m \<le> ?n * 4" for m
      using that assms(3) by (intro bn_room_total) simp_all
    consider "?n = 4" | "?n = 8" | "?n \<noteq> 4" "?n \<noteq> 8" "?n < 16" | "16 \<le> ?n" "is_power_of_2 ?n" | "16 \<le> ?n" "\<not> is_power_of_2 ?n" by linarith
    then show ?thesis
    proof cases
      case 1
      then have "bn_sqr_rr als rr a t ctx = Some (True, ?r (bn_sqr_comba4 ?x), ctx)" using e by simp
      moreover have "?P True (?r (bn_sqr_comba4 ?x)) ctx" by (rule fill0) (use bn_sqr_comba4_value [of ?x] 1 in simp)
      ultimately show ?thesis by blast
    next
      case 2
      then have "bn_sqr_rr als rr a t ctx = Some (True, ?r (bn_sqr_comba8 ?x), ctx)" using e by simp
      moreover have "?P True (?r (bn_sqr_comba8 ?x)) ctx" by (rule fill0) (use bn_sqr_comba8_value [of ?x] 2 in simp)
      ultimately show ?thesis by blast
    next
      case 3
      then have "bn_sqr_rr als rr a t ctx = Some (True, ?r (bn_sqr_normal ?x), ctx)" using e by simp
      moreover have "?P True (?r (bn_sqr_normal ?x)) ctx" by (rule fill0) (rule bn_sqr_normal_value)
      ultimately show ?thesis by blast
    next
      case 4
      then obtain k where "?n = 2 ^ k" using is_power_of_2_iff by blast
      from bn_sqr_recursive_value [OF this refl] obtain d where d: "bn_sqr_recursive ?x ?n = Some d"
        "length d = 2 * ?n \<and> words_val d = words_val ?x * words_val ?x" by blast
      have "bn_sqr_rr als rr a t ctx = (if bn_room (als 1) (?n * 4) (ctx_bn ctx t)
          then Some (True, ?r d, put (?n * 4)) else Some (False, ?r1, put (?n * 4)))"
        using e d(1) 4 by (simp add: put_def)
      with fill [OF d(2) put] failed room [of "?n * 4"] show ?thesis by (auto split: if_splits)
    next
      case 5
      have "bn_sqr_rr als rr a t ctx = (if bn_room (als 1) (2 * ?n) (ctx_bn ctx t)
          then Some (True, ?r (bn_sqr_normal ?x), put (2 * ?n)) else Some (False, ?r1, put (2 * ?n)))"
        using e 5 by (simp add: put_def)
      with fill [OF bn_sqr_normal_value put] failed room [of "2 * ?n"] show ?thesis by (auto split: if_splits)
    qed
  qed
qed

lemma bn_val_nonneg_square: "bn_val a * bn_val a = bn_abs a * bn_abs a"
  by (simp add: bn_val_def)

lemma bn_sqr_consttime_ok:
  assumes "ctx_ok ctx"
  shows "\<exists>ok r' ctx'. bn_sqr_consttime als aliased r a ctx = Some (ok, r', ctx') \<and>
    computes (bn_val a * bn_val a) r ctx ok r' ctx' \<and>
    (plenty als r ctx \<and> bn_width a < 2 ^ 20 \<longrightarrow> ok \<and> \<not> ctx_error ctx')"
proof (cases "bn_width a = 0")
  case True
  have "bn_val a * bn_val a = 0" using True by (simp add: bn_val_def bn_abs_def)
  then have "computes (bn_val a * bn_val a) r ctx True (r\<lparr>bn_words := [], bn_neg := False\<rparr>) ctx"
    using frame_ok_refl [OF assms] by (simp add: computes_def bn_val_def bn_abs_def)
  moreover have "bn_sqr_consttime als aliased r a ctx = Some (True, r\<lparr>bn_words := [], bn_neg := False\<rparr>, ctx)"
    unfolding bn_sqr_consttime_def if_P [OF True] by (rule refl)
  moreover have "plenty als r ctx \<Longrightarrow> \<not> ctx_error ctx" by (simp add: plenty_def ctx_ready_def)
  ultimately show ?thesis by blast
next
  case False
  let ?c = "BN_CTX_start (als 0) ctx" and ?n = "2 * bn_width a" and ?v = "bn_abs a * bn_abs a"
  let ?enough = "plenty als r ctx \<and> bn_width a < 2 ^ 20"
  note st = BN_CTX_start_ok [OF assms, of "als 0"]
  note e = bn_sqr_consttime_def [of als aliased r a ctx, unfolded if_not_P [OF False] Let_def]
  have start: "?enough \<Longrightarrow> (\<forall>k m. als k m) \<and> \<not> ctx_error ?c \<and> sk_num (ctx_bignums ?c) < 2 ^ 58"
    using st(3,6) by (auto simp: plenty_def ctx_ready_def)
  have val: "bn_val rr = bn_val a * bn_val a" if "product_into x ?n ?v False c True rr c'" for x c rr c'
    unfolding bn_val_nonneg_square using that by (auto simp: product_into_def bn_val_def)
  obtain p c where get: "BN_CTX_get (als 1) ?c = Some (p, c)" and c: "ctx_ok c" "ctx_stack c = ctx_stack ?c" "p = None \<longleftrightarrow> ctx_error c"
    "ctx_error ?c \<Longrightarrow> ctx_error c"
    "\<And>t. p = Some t \<Longrightarrow> t < length (ctx_heap c) \<and> bn_words (ctx_bn c t) = [] \<and> \<not> bn_static (ctx_bn c t)"
    "?enough \<Longrightarrow> p \<noteq> None \<and> sk_num (ctx_bignums c) < 2 ^ 59"
    using BN_CTX_get_ok [OF st(1), of "als 1"] start by fastforce
  show ?thesis
  proof (cases aliased)
    case not_aliased: False
    show ?thesis
    proof (cases p)
      case None
      obtain ctx' where "map_option (\<lambda>ctx. (False, r, ctx)) (BN_CTX_end c) = Some (False, r, ctx')"
        "computes (bn_val a * bn_val a) r ctx False r ctx'"
        using frame_computes [OF assms c(1,2,4), of r r False "bn_val a * bn_val a"] by auto
      then show ?thesis using e not_aliased get None c(6) by auto
    next
      case (Some t)
      from bn_sqr_rr_ok [OF c(1), of t "\<lambda>k. als (k + 4)" r a] c(5) [OF Some] obtain ok rr c2 where
        1: "bn_sqr_rr (\<lambda>k. als (k + 4)) r a t c = Some (ok, rr, c2)" "product_into r ?n ?v False c ok rr c2"
          "?enough \<Longrightarrow> ok" using start by (fastforce simp: plenty_def)
      have "ok \<longrightarrow> bn_val rr = bn_val a * bn_val a" using 1(2) val by (cases ok) simp_all
      then obtain ctx' where "map_option (\<lambda>ctx. (ok, rr, ctx)) (BN_CTX_end c2) = Some (ok, rr, ctx')"
        "computes (bn_val a * bn_val a) r ctx ok rr ctx'" "ctx_error ctx' = ctx_error c2"
        using frame_computes [OF assms, of c2 "als 0" rr r ok "bn_val a * bn_val a"] 1(2) c(2,4) by (auto simp: product_into_def)
      moreover have "?enough \<Longrightarrow> \<not> ctx_error c2" using 1(2,3) c(3) Some by (auto simp: product_into_def)
      ultimately show ?thesis using e not_aliased get Some 1(1,3) by auto
    qed
  next
    case aliased: True
    obtain q d where get2: "BN_CTX_get (als 2) c = Some (q, d)" and d: "ctx_ok d" "ctx_stack d = ctx_stack ?c" "q = None \<longleftrightarrow> ctx_error d"
      "ctx_error ?c \<Longrightarrow> ctx_error d" "p = None \<Longrightarrow> q = None"
      "\<And>t. q = Some t \<Longrightarrow> t < length (ctx_heap d) \<and> bn_words (ctx_bn d t) = [] \<and> \<not> bn_static (ctx_bn d t)"
      "?enough \<Longrightarrow> q \<noteq> None"
      using BN_CTX_get_ok [OF c(1), of "als 2"] start c(2,3,4,6) by fastforce
    show ?thesis
    proof (cases q)
      case None
      obtain ctx' where "map_option (\<lambda>ctx. (False, r, ctx)) (BN_CTX_end d) = Some (False, r, ctx')"
        "computes (bn_val a * bn_val a) r ctx False r ctx'"
        using frame_computes [OF assms d(1,2,4), of r r False "bn_val a * bn_val a"] by auto
      then show ?thesis using e aliased get get2 None d(7) by (auto split: option.splits)
    next
      case (Some t)
      with d(5) obtain i where i: "p = Some i" by auto
      let ?rr = "ctx_bn d i"
      have "i < length (ctx_heap d)"
        using BN_CTX_get_index [OF st(1) get [unfolded i]] BN_CTX_get_index [OF c(1) get2 [unfolded Some]] d(6) [OF Some] by simp
      then have di: "\<not> bn_static ?rr" "bn_width ?rr \<le> bn_dmax ?rr" using d(1) by (simp_all add: ctx_ok_def)
      from bn_sqr_rr_ok [OF d(1), of t "\<lambda>k. als (k + 4)" ?rr a] d(6) [OF Some] obtain ok rr c2 where
        1: "bn_sqr_rr (\<lambda>k. als (k + 4)) ?rr a t d = Some (ok, rr, c2)" "product_into ?rr ?n ?v False d ok rr c2"
          "?enough \<Longrightarrow> ok" using start di by (fastforce simp: plenty_def)
      let ?c2 = "ctx_put i rr c2"
      obtain ok' r' where cp: "copied (als 3) ok r rr = (ok', r')" by fastforce
      have v: "ok \<Longrightarrow> bn_val rr = bn_val a * bn_val a" using 1(2) val by simp
      have put: "ctx_ok ?c2" "ctx_stack ?c2 = ctx_stack ?c" "ctx_error ?c \<Longrightarrow> ctx_error ?c2"
        using 1(2) d(2,4) di by (auto simp: product_into_def intro!: ctx_put_ok)
      from frame_copy [OF assms put v cp] obtain ctx' where
        "map_option (\<lambda>ctx. (ok', r', ctx)) (BN_CTX_end ?c2) = Some (ok', r', ctx')"
        "computes (bn_val a * bn_val a) r ctx ok' r' ctx'" "ctx_error ctx' = ctx_error ?c2" by blast
      moreover have "bn_sqr_consttime als aliased r a ctx = map_option (\<lambda>ctx. (ok', r', ctx)) (BN_CTX_end ?c2)"
        using e aliased get get2 Some i 1(1) cp by (cases ok) (simp_all add: copied_def)
      moreover have "ok' \<and> \<not> ctx_error ?c2" if enough: ?enough
      proof -
        have "ok" "\<not> ctx_error ?c2" using 1(2,3) d(3) Some enough by (auto simp: product_into_def)
        moreover have "bn_width rr \<le> 8388607" using 1(2) \<open>ok\<close> enough by (simp add: product_into_def)
        ultimately show ?thesis using cp enough bn_room_total [of "als 3" r "bn_width rr"]
          by (simp add: copied_def BN_copy_room plenty_def)
      qed
      ultimately show ?thesis by metis
    qed
  qed
qed

section \<open>Properties\<close>

lemma BN_CTX_new_ok: "BN_CTX_new al = Some ctx \<Longrightarrow> ctx_ok ctx \<and> ctx_ready ctx"
  by (auto simp: BN_CTX_new_def ctx_ok_def ctx_ready_def bn_stack_ok_def BN_STACK_init_def sk_num_def split: if_splits)

lemma computes_minimal:
  assumes "computes v r ctx ok r' ctx'" ok
  shows "bn_val (bn_set_minimal_width r') = v" "bn_ok (bn_set_minimal_width r')" "bn_minimal (bn_set_minimal_width r')"
  using assms bn_set_minimal_width_ok [of r'] by (auto simp: computes_def)

text \<open>C40: Multiplication and squaring compute the exact signed product by every routine they choose
  (8 by 8 words unrolled, the two Karatsuba recursions, schoolbook, and their squaring versions), in
  place or not: no assertion fails and no missing temporary is used, the temporaries taken are given
  back, the result has no leading zero words and is not a negative zero, and below a million words the
  calls fail only for want of memory.\<close>

theorem BN_products_exact:
  assumes "ctx_ok ctx" "bn_width a \<le> 8388607" "bn_width b \<le> 8388607"
  shows "(\<exists>ok r' ctx'. BN_mul als aliased r a b ctx = Some (ok, r', ctx') \<and> frame_ok ctx ctx' \<and>
      (ok \<longrightarrow> bn_val r' = bn_val a * bn_val b \<and> bn_ok r' \<and> bn_minimal r') \<and>
      (plenty als r ctx \<and> bn_width a < 2 ^ 20 \<and> bn_width b < 2 ^ 20 \<longrightarrow> ok \<and> \<not> ctx_error ctx')) \<and>
    (\<exists>ok r' ctx'. BN_sqr als aliased r a ctx = Some (ok, r', ctx') \<and> frame_ok ctx ctx' \<and>
      (ok \<longrightarrow> bn_val r' = bn_val a * bn_val a \<and> bn_ok r' \<and> bn_minimal r') \<and>
      (plenty als r ctx \<and> bn_width a < 2 ^ 20 \<longrightarrow> ok \<and> \<not> ctx_error ctx'))"
proof
  have w: "bn_width a < 2 ^ 31" "bn_width b < 2 ^ 31" using assms(2,3) by simp_all
  obtain ok r' ctx' where 1: "bn_mul_impl als aliased r a b ctx = Some (ok, r', ctx')"
    "computes (bn_val a * bn_val b) r ctx ok r' ctx'"
    "plenty als r ctx \<and> bn_width a < 2 ^ 20 \<and> bn_width b < 2 ^ 20 \<longrightarrow> ok \<and> \<not> ctx_error ctx'"
    using bn_mul_impl_ok [OF assms(1) w, of als aliased r] by blast
  have f: "frame_ok ctx ctx'" using 1(2) by (simp add: computes_def)
  show "\<exists>ok r' ctx'. BN_mul als aliased r a b ctx = Some (ok, r', ctx') \<and> frame_ok ctx ctx' \<and>
      (ok \<longrightarrow> bn_val r' = bn_val a * bn_val b \<and> bn_ok r' \<and> bn_minimal r') \<and>
      (plenty als r ctx \<and> bn_width a < 2 ^ 20 \<and> bn_width b < 2 ^ 20 \<longrightarrow> ok \<and> \<not> ctx_error ctx')"
    using 1(1,3) f computes_minimal [OF 1(2)] by (cases ok) (auto simp: BN_mul_def)
next
  obtain ok r' ctx' where 1: "bn_sqr_consttime als aliased r a ctx = Some (ok, r', ctx')"
    "computes (bn_val a * bn_val a) r ctx ok r' ctx'"
    "plenty als r ctx \<and> bn_width a < 2 ^ 20 \<longrightarrow> ok \<and> \<not> ctx_error ctx'"
    using bn_sqr_consttime_ok [OF assms(1), of als aliased r a] by blast
  have f: "frame_ok ctx ctx'" using 1(2) by (simp add: computes_def)
  show "\<exists>ok r' ctx'. BN_sqr als aliased r a ctx = Some (ok, r', ctx') \<and> frame_ok ctx ctx' \<and>
      (ok \<longrightarrow> bn_val r' = bn_val a * bn_val a \<and> bn_ok r' \<and> bn_minimal r') \<and>
      (plenty als r ctx \<and> bn_width a < 2 ^ 20 \<longrightarrow> ok \<and> \<not> ctx_error ctx')"
    using 1(1,3) f computes_minimal [OF 1(2)] by (cases ok) (auto simp: BN_sqr_def)
qed

lemma BN_products_exact_witness:
  "\<exists>ctx r' ctx'. BN_CTX_new (\<lambda>_. True) = Some ctx \<and>
     BN_mul (\<lambda>_ _. True) False BN_init \<lparr>bn_words = [5, 1], bn_dmax = 2, bn_neg = True, bn_static = True\<rparr>
       \<lparr>bn_words = [3], bn_dmax = 1, bn_neg = False, bn_static = True\<rparr> ctx = Some (True, r', ctx') \<and>
     bn_val r' = - 3 * (5 + 2 ^ 64) \<and> bn_minimal r'"
proof -
  let ?a = "\<lparr>bn_words = [5, 1], bn_dmax = 2, bn_neg = True, bn_static = True\<rparr>"
  let ?b = "\<lparr>bn_words = [3], bn_dmax = 1, bn_neg = False, bn_static = True\<rparr>"
  obtain ctx where ctx: "BN_CTX_new (\<lambda>_. True) = Some ctx" by (simp add: BN_CTX_new_def OPENSSL_malloc_def)
  note ok = BN_CTX_new_ok [OF ctx]
  have "plenty (\<lambda>_ _. True) BN_init ctx" using ok by (simp add: plenty_def BN_init_def)
  moreover have "bn_val ?a * bn_val ?b = - 3 * (5 + 2 ^ 64)" by (simp add: bn_val_def bn_abs_def radix_def)
  ultimately show ?thesis
    using BN_products_exact [of ctx ?a ?b "\<lambda>_ _. True" False BN_init] ok ctx by auto
qed

end
