(* ===== verification/Spec2Isabelle.thy ===== *)
theory Spec2Isabelle
  imports
    Oid
    Unicode
    Ber
    Stack
    Lhash
    ConstTime
    Base64_Spec
    BioPair_Spec
    Nanopb_Spec
    MbString
    NameConstraints_Spec
    BigNum_Mul
begin

text \<open>
  A verification development for the C code of InventoryApp.

  The application under \<open>InventoryApp/InventoryApp\<close> is Swift; the C it is built with comes from its
  pods.  This development models the part of it that handles untrusted bytes and names:
  the byte-string, ASN.1 and X.509 name code of BoringSSL (\<open>Pods/BoringSSL-GRPC/src/crypto\<close>), the
  containers and byte pipes it is written on, and the wire format of the Protocol Buffers library
  (\<open>Pods/nanopb\<close>) that the Firebase pods send with.  File names below are relative to those two
  directories.

  \<^bold>\<open>How the parts call each other.\<close>  \<open>mem.c\<close> and \<open>internal.h\<close> give memory and C strings.  On them
  stand the reader \<open>CBS\<close> and the builder \<open>CBB\<close> (\<open>bytestring/cbs.c\<close>, \<open>cbb.c\<close>), with the character
  encodings (\<open>unicode.c\<close>) and the converter from BER to DER (\<open>ber.c\<close>).  \<open>asn1/a_mbstr.c\<close> converts
  strings through a reader and a builder; \<open>x509v3/v3_utl.c\<close> converts a common name with it before
  comparing it with a host; \<open>x509v3/v3_ncons.c\<close> compares names with subtrees through readers; and
  \<open>x509/x509_vfy.c\<close> calls it along a chain of certificates, rejecting with the test that \<open>v3_utl.c\<close>
  applies to common names.  Stacks (\<open>stack/stack.c\<close>) and hash tables (\<open>lhash/lhash.c\<close>) are the
  containers; base64 (\<open>base64/base64.c\<close>) and BIO pairs (\<open>bio/pair.c\<close> under \<open>bio/bio.c\<close>) are the
  codec and the pipe.  The big numbers (\<open>fipsmodule/bn\<close>) use the masks of \<open>internal.h\<close> and keep their
  temporaries on a pointer stack.  nanopb stands alone.

  \<^bold>\<open>Theories.\<close>
  \<^item> \<open>Prelude\<close>: machine integers as words, byte lists and their big-endian numbers, writing into a
    list at an index, allocators, the collections \<open>byte_simps\<close>, \<open>get_simps\<close> and \<open>put_simps\<close>.
  \<^item> \<open>Mem\<close>: \<open>mem.c\<close> and the helpers of \<open>internal.h\<close>; the locale \<open>comparator\<close> for comparison
    functions that are total preorders, which sorting and searching need.
  \<^item> \<open>CBS\<close>, \<open>DER\<close>: every reader of \<open>cbs.c\<close>.  A \<open>CBS\<close> is the list of the bytes left, an
    operation returns its value or \<open>None\<close> with the reader it leaves behind.  \<open>DER\<close> has the independent
    definition of distinguished encodings and shows that the readers accept exactly those.
  \<^item> \<open>CBB\<close>, \<open>CBB_Spec\<close>: every operation of \<open>cbb.c\<close>.  The record \<open>cbb\<close> has the buffer of the
    top-level object and a stack of open children with their offsets and pending length prefixes; a
    builder that C names by a pointer is named by its depth.  The specification has no buffer: it is
    a list of frames, and flushing is shown to implement it.
  \<^item> \<open>Codec\<close>: the locale \<open>byte_codec\<close> (a reader accepts exactly the encodings of an encoder, one at
    a time), interpreted for DER elements, base-128 numbers, UTF-8, Latin-1, UCS-2 and UTF-32.
  \<^item> \<open>Oid\<close>: object identifiers to text and back (\<open>CBS_asn1_oid_to_text\<close>, \<open>CBB_add_asn1_oid_from_text\<close>).
  \<^item> \<open>Unicode\<close>: \<open>unicode.c\<close>; the locale \<open>char_writer\<close> says what a writer appends to a builder.
  \<^item> \<open>MbString\<close>: \<open>ASN1_mbstring_ncopy\<close> and \<open>ASN1_STRING_to_UTF8\<close>.  Its formats interpret
    \<open>char_writer\<close> once more, so the conversion is one lemma about any format.
  \<^item> \<open>Ber\<close>: \<open>ber.c\<close>, against forests of BER elements whose constructed strings are joined.
  \<^item> \<open>Stack\<close>: \<open>stack.c\<close>.  The record \<open>stack\<close> keeps the array with the entries beyond \<open>num\<close>, the
    sorted flag and the comparison function; \<open>sk_step\<close> is the relation of its operations, with
    \<open>sk_set\<close> and order-changing copies only while the flag is clear.
  \<^item> \<open>Lhash\<close>: \<open>lhash.c\<close>.  A table is a list of chains with cached hashes; the locale
    \<open>hash_contract\<close> says that equal keys hash alike and is interpreted with the functions of
    \<open>conf/conf.c\<close>; \<open>lh_step\<close> is the relation of its operations.
  \<^item> \<open>ConstTime\<close>: the masks of \<open>internal.h\<close>.
  \<^item> \<open>Base64\<close>, \<open>Base64_Spec\<close>: \<open>base64.c\<close>.
  \<^item> \<open>BioPair\<close>, \<open>BioPair_Spec\<close>: \<open>pair.c\<close> and the calls of \<open>bio.c\<close>.  The two ends refer to each
    other, so the state is a store from addresses to BIOs; \<open>pair_run\<close> is the inductive relation of
    runs with the logs of what each end sent and received.
  \<^item> \<open>HostName\<close>, \<open>HostName_Spec\<close>: \<open>v3_utl.c\<close> from \<open>skip_prefix\<close> to \<open>X509_check_ip\<close>.  The record
    \<open>x509\<close> has the fields of a certificate these functions read.
  \<^item> \<open>NameConstraints\<close>, \<open>NameConstraints_Spec\<close>: \<open>NAME_CONSTRAINTS_check\<close> and
    \<open>check_name_constraints\<close>.
  \<^item> \<open>Nanopb\<close>, \<open>Nanopb_Varint\<close>, \<open>Nanopb_Spec\<close>: \<open>pb_decode.c\<close> and \<open>pb_encode.c\<close>.  A stream is
    the memory from its pointer on with the count of bytes left; the locale \<open>pb_codec\<close> pairs an
    encoder with its decoder and is interpreted for ten formats.
  \<^item> \<open>Limbs\<close>, \<open>Limbs_Mul\<close>, \<open>Karatsuba\<close>: arrays of words (\<open>generic.c\<close> and the array functions of
    \<open>mul.c\<close>); a lemma for each says what it computes as an integer.
  \<^item> \<open>BigNum\<close>, \<open>BigNum_Spec\<close>: numbers, their comparison, addition and subtraction (\<open>bn.c\<close>, \<open>cmp.c\<close>,
    \<open>add.c\<close>), and their values as integers.
  \<^item> \<open>BnCtx\<close>: the frames of temporaries of \<open>ctx.c\<close>, over the stacks of \<open>Stack\<close>.
  \<^item> \<open>BigNum_Mul\<close>: multiplication and squaring of numbers (\<open>mul.c\<close>).

  \<^bold>\<open>What the properties show.\<close>  For readers: exactly the canonical encodings are accepted, with the
  value they stand for.  For builders: nested contents get the DER encoding of their tree, read back
  by the readers, and nothing written after a failure is ever returned.  For conversions (strings, BER, object
  identifiers, base64, varints): round trips, and which inputs are accepted.  For containers: the
  operations refine lists and partial maps in every reachable state, allocation failures included.
  For BIO pairs: first in first out, every call returns, exact results, and life cycle.  For names:
  which hosts a name of a certificate covers, and, across four files, that a chain passing its name
  constraints makes its leaf good only for hosts inside the permitted subtrees.  For big numbers: sums,
  differences and products are exact on every path, and no assertion fails.  Some properties record
  that the code does not do what its contract says (\<open>find_ber_forgets\<close>, parts of
  \<open>pb_varint_values\<close>).

  \<^bold>\<open>Conventions.\<close>  C integers of a width that matters are words; lengths and capacities are natural
  numbers with their wrap-around at the size of \<open>size_t\<close> written out (\<open>SIZE_MODULUS\<close>).  A request for
  memory succeeds as an argument (an allocator) decides, so each failure is a branch (see
  \<open>Prelude\<close> for operations that make several).  Loops over input
  are recursive functions; where the number of rounds is not structural, the fuel is the number of
  bytes left, which every round decreases, and a lemma shows that it suffices
  (\<open>decode_all\<close>, \<open>mbstring_scan_loop\<close>).  Loops of BIO pairs that end only in well-formed states
  are partial functions into \<open>option\<close>, \<open>None\<close> standing for an assertion that fails or a loop that
  does not end; a property shows that reachable states give \<open>Some\<close>.  In \<open>HostName\<close>, \<open>None\<close> is a
  read beyond the end of a name, and a property shows that there is none.  Callbacks of the client
  (comparison, hashing, copying, verification) are parameters with the laws of their documentation;
  \<open>qsort\<close> of the C library is a stable insertion sort, the C standard leaving only the order of
  equal elements open.

  \<^bold>\<open>Not modelled.\<close>  Error reason codes and the error queue.  Object identity of copies that nobody
  shares.  Of the modelled files: e-mail lists, configuration text and textual IP addresses of
  \<open>v3_utl.c\<close> (they go through \<open>sscanf\<close> and \<open>conf.c\<close>); the printing of name constraints; path
  building, policies, revocation and signatures in \<open>x509_vfy.c\<close>; printing and copying in
  \<open>asn1_lib.c\<close> and \<open>a_strex.c\<close>; \<open>BIO_printf\<close> and file BIOs; the message walk of nanopb, which
  follows generated field descriptions through untyped pointers.  Of the repository: cryptographic
  kernels and the number theory above multiplication (assembly and tables without a reference in the
  repository), the template
  interpreter of ASN.1, TLS, gRPC, abseil, leveldb and the Firebase and Google pods (C++, Objective-C
  and Swift), and the Swift application.
\<close>

end
